(* ===== verification/Prelude.thy ===== *)
theory Prelude
  imports Main "HOL-Library.Word" "HOL-Library.State_Monad" "HOL-Library.Monad_Syntax"
begin

text \<open>
  Shared vocabulary of the development: the C integer types, the fact collections the
  component theories fill, and the generic lemmas on lists that several of them use.

  Two conventions hold throughout. A C operation that can crash the kernel (a \<open>BUG()\<close>, a
  dereference of a dead block, an array access out of range) returns an option, with
  \<^const>\<open>None\<close> for the crash, so that "never crashes under the invariant" is a theorem and
  not an assumption. Kernel \<open>struct list_head\<close> lists are HOL lists of their elements in list
  order: \<open>list_add\<close> conses, \<open>list_add_tail\<close> appends, \<open>list_del\<close> removes. Spin locks, delays
  and log messages leave no trace in the state unless a theory says otherwise.
\<close>

unbundle bit_operations_syntax

type_synonym u8 = "8 word"
type_synonym u16 = "16 word"
type_synonym u32 = "32 word"
type_synonym u64 = "64 word"

text \<open>Facts every component proof may simplify with, and the invariants' introduction rules.\<close>

named_theorems ring_simps \<open>arithmetic of ring indices\<close>
named_theorems model_defs \<open>definitions that a component's proofs unfold together\<close>
named_theorems io_simps \<open>evaluation of register programs\<close>

subsection \<open>Errno values the driver returns\<close>

text \<open>Linux errno numbers, as the positive number the driver negates.\<close>

abbreviation ENOMEM :: int where "ENOMEM \<equiv> 12"
abbreviation EINVAL :: int where "EINVAL \<equiv> 22"
abbreviation EIO :: int where "EIO \<equiv> 5"
abbreviation EFAULT :: int where "EFAULT \<equiv> 14"
abbreviation EACCES :: int where "EACCES \<equiv> 13"

subsection \<open>Lists\<close>

lemma nth_list_update_ne: "i \<noteq> j \<Longrightarrow> (xs[i := x]) ! j = xs ! j"
  by simp

lemma upt_split: "i \<le> j \<Longrightarrow> j \<le> k \<Longrightarrow> [i..<k] = [i..<j] @ [j..<k]"
  by (metis le_Suc_ex upt_add_eq_append)

subsection \<open>Bit fields\<close>

text \<open>
  Reading and writing an \<open>n\<close>-bit field at bit \<open>lo\<close> of a word. C bit fields and the driver's
  shift-and-mask macros both come down to these two, for the little-endian layout that the
  bit-field declarations of \<open>include/nic_cmn.h\<close> assume.
\<close>

definition get_bits :: "nat \<Rightarrow> nat \<Rightarrow> 'a::len word \<Rightarrow> 'a word" where
  "get_bits lo n w = drop_bit lo w AND mask n"

definition put_bits :: "nat \<Rightarrow> nat \<Rightarrow> 'a::len word \<Rightarrow> 'a word \<Rightarrow> 'a word" where
  "put_bits lo n v w = (w AND NOT (push_bit lo (mask n))) OR push_bit lo (v AND mask n)"

lemma bit_get_bits: "bit (get_bits lo n w) i \<longleftrightarrow> i < n \<and> bit w (lo + i)" for w :: "'a::len word"
  by (auto simp: get_bits_def bit_simps dest: bit_imp_le_length)

lemma bit_put_bits:
  "bit (put_bits lo n v w) i \<longleftrightarrow>
     i < LENGTH('a) \<and> (if lo \<le> i \<and> i < lo + n then bit v (i - lo) else bit w i)"
  for w :: "'a::len word"
  by (auto simp: put_bits_def bit_simps dest: bit_imp_le_length)

text \<open>A field that fits reads back what was written, cut to its width; other fields keep theirs.\<close>

lemma get_put_same: "lo + n \<le> LENGTH('a) \<Longrightarrow> get_bits lo n (put_bits lo n v w) = v AND mask n"
  for w :: "'a::len word"
  by (rule bit_word_eqI) (auto simp: bit_get_bits bit_put_bits bit_simps)

lemma get_put_other:
  "lo' + n' \<le> lo \<or> lo + n \<le> lo' \<Longrightarrow> get_bits lo' n' (put_bits lo n v w) = get_bits lo' n' w"
  for w :: "'a::len word"
  by (rule bit_word_eqI) (auto simp: bit_get_bits bit_put_bits dest: bit_imp_le_length)

lemma and_mask_ucast: "ucast (x :: 'b::len word) AND mask (LENGTH('b)) = (ucast x :: 'a::len word)"
  by (rule bit_word_eqI) (auto simp: bit_simps dest: bit_imp_le_length)

lemma ucast_get_bits: "ucast (ucast (x :: 'b::len word) AND mask (LENGTH('b)) :: 'a::len word) =  x"
  if "LENGTH('b) \<le> LENGTH('a)"
  using that by (intro bit_word_eqI) (auto simp: bit_simps dest: bit_imp_le_length)

subsection \<open>State-monad evaluation\<close>

lemma run_state_bind_eq:
  "run_state m s = (a, s') \<Longrightarrow> run_state (State_Monad.bind m f) s = run_state (f a) s'"
  by simp

lemma run_state_if [io_simps]:
  "run_state (if b then m else n) s = (if b then run_state m s else run_state n s)"
  by simp

end
