(* ===== verification/HashTable.thy ===== *)
theory HashTable
  imports Prelude "HOL-Library.Multiset"
begin

text \<open>
  The chained hash table of \<open>driver/nx_hash_table.c\<close>, parameterised as in the C code by the
  table's hash and comparison functions, and the key comparison \<open>nx_cmp_ip_key\<close> it ships with.
  A node is its key and the data of the structure it is embedded in. The theory shows that the
  table is a dictionary on keys taken up to "same bucket and compare equal", for any comparison
  whose zero is an equivalence, and states that contract as the locale \<open>dictionary\<close>.
\<close>

subsection \<open>Data\<close>

record ('k, 'd) nx_hash_tbl_node =
  node_key :: 'k
  node_data :: 'd

record 'k nx_hash_tbl_ops =
  hash_fn :: "'k \<Rightarrow> u32"
  compare_keys :: "'k \<Rightarrow> 'k \<Rightarrow> u32"

text \<open>\<open>buckets\<close> and \<open>ops\<close> are \<^const>\<open>None\<close> for a null pointer.\<close>

record ('k, 'd) nx_hash_tbl =
  buckets :: "('k, 'd) nx_hash_tbl_node list list option"
  bucket_cnt :: nat
  tbl_ops :: "'k nx_hash_tbl_ops option"

definition NX_HASH_TBL_NODE_INSERTED :: int where
  "NX_HASH_TBL_NODE_INSERTED = 1"

definition NX_HASH_TBL_NODE_EXISTS :: int where
  "NX_HASH_TBL_NODE_EXISTS = 2"

subsection \<open>Operations\<close>

definition nx_hash_tbl_create ::
  "bool \<Rightarrow> nat \<Rightarrow> 'k nx_hash_tbl_ops \<Rightarrow> int \<times> ('k, 'd) nx_hash_tbl" where
  "nx_hash_tbl_create vmalloc_ok cnt ops =
     (if \<not> vmalloc_ok then (- ENOMEM, \<lparr>buckets = None, bucket_cnt = cnt, tbl_ops = None\<rparr>)
      else (0, \<lparr>buckets = Some (replicate cnt []), bucket_cnt = cnt, tbl_ops = Some ops\<rparr>))"

text \<open>
  Destruction hands every node, bucket by bucket, to the callback, which changes the state
  \<open>'s\<close> it is part of and may crash.
\<close>

fun destroy_nodes ::
  "(('k, 'd) nx_hash_tbl_node \<Rightarrow> 's \<Rightarrow> 's option) \<Rightarrow> ('k, 'd) nx_hash_tbl_node list \<Rightarrow> 's \<Rightarrow> 's option" where
  "destroy_nodes cb [] s = Some s"
| "destroy_nodes cb (n # ns) s = (case cb n s of None \<Rightarrow> None | Some s' \<Rightarrow> destroy_nodes cb ns s')"

definition nx_hash_tbl_destroy ::
  "(('k, 'd) nx_hash_tbl_node \<Rightarrow> 's \<Rightarrow> 's option) \<Rightarrow> ('k, 'd) nx_hash_tbl \<Rightarrow> 's \<Rightarrow> 's option" where
  "nx_hash_tbl_destroy cb t s =
     (case buckets t of
        None \<Rightarrow> if bucket_cnt t = 0 then Some s else None
      | Some bs \<Rightarrow> destroy_nodes cb (concat (take (bucket_cnt t) bs)) s)"

text \<open>The bucket's index: \<open>tbl->ops->hash(key) & (tbl->bucket_cnt - 1)\<close>, checked against the
  array that was allocated.\<close>

definition get_bucket :: "('k, 'd) nx_hash_tbl \<Rightarrow> 'k \<Rightarrow> nat option" where
  "get_bucket t k =
     (case (buckets t, tbl_ops t) of
        (Some bs, Some ops) \<Rightarrow>
          (let i = unat (hash_fn ops k AND (of_nat (bucket_cnt t) - 1))
           in if i < length bs then Some i else None)
      | _ \<Rightarrow> None)"

text \<open>
  The scan of \<open>nx_hash_tbl_insert\<close>. \<open>entry\<close> is the index of the node the C variable \<open>entry\<close>
  points to after the previous turn, \<open>i\<close> the index of the next node. \<^const>\<open>None\<close> means an equal
  key was met.
\<close>

fun insert_scan ::
  "('k \<Rightarrow> 'k \<Rightarrow> u32) \<Rightarrow> 'k \<Rightarrow> nat option \<Rightarrow> nat \<Rightarrow> ('k, 'd) nx_hash_tbl_node list \<Rightarrow> nat option option" where
  "insert_scan cmp k entry i [] = Some entry"
| "insert_scan cmp k entry i (n # ns) =
     (let rv = cmp k (node_key n) in
      if rv = 0 then None
      else insert_scan cmp k (if rv <s 0 then None else Some i) (i + 1) ns)"

definition list_insert_before :: "'a \<Rightarrow> nat \<Rightarrow> 'a list \<Rightarrow> 'a list" where
  "list_insert_before x i xs = take i xs @ x # drop i xs"

definition set_bucket ::
  "('k, 'd) nx_hash_tbl \<Rightarrow> nat \<Rightarrow> ('k, 'd) nx_hash_tbl_node list \<Rightarrow> ('k, 'd) nx_hash_tbl" where
  "set_bucket t i ns = t\<lparr>buckets := map_option (\<lambda>bs. bs[i := ns]) (buckets t)\<rparr>"

definition bucket_at :: "('k, 'd) nx_hash_tbl \<Rightarrow> nat \<Rightarrow> ('k, 'd) nx_hash_tbl_node list" where
  "bucket_at t i = the (buckets t) ! i"

definition cmp_of :: "('k, 'd) nx_hash_tbl \<Rightarrow> 'k \<Rightarrow> 'k \<Rightarrow> u32" where
  "cmp_of t = compare_keys (the (tbl_ops t))"

definition nx_hash_tbl_insert ::
  "('k, 'd) nx_hash_tbl \<Rightarrow> ('k, 'd) nx_hash_tbl_node \<Rightarrow> (int \<times> ('k, 'd) nx_hash_tbl) option" where
  "nx_hash_tbl_insert t n =
     (case get_bucket t (node_key n) of
        None \<Rightarrow> None
      | Some i \<Rightarrow>
          Some (case insert_scan (cmp_of t) (node_key n) None 0 (bucket_at t i) of
             None \<Rightarrow> (NX_HASH_TBL_NODE_EXISTS, t)
           | Some (Some e) \<Rightarrow>
               (NX_HASH_TBL_NODE_INSERTED, set_bucket t i (list_insert_before n e (bucket_at t i)))
           | Some None \<Rightarrow> (NX_HASH_TBL_NODE_INSERTED, set_bucket t i (bucket_at t i @ [n]))))"

fun find_scan ::
  "('k \<Rightarrow> 'k \<Rightarrow> u32) \<Rightarrow> 'k \<Rightarrow> ('k, 'd) nx_hash_tbl_node list \<Rightarrow> ('k, 'd) nx_hash_tbl_node option" where
  "find_scan cmp k [] = None"
| "find_scan cmp k (n # ns) = (if cmp k (node_key n) = 0 then Some n else find_scan cmp k ns)"

definition nx_hash_tbl_get ::
  "('k, 'd) nx_hash_tbl \<Rightarrow> 'k \<Rightarrow> ('k, 'd) nx_hash_tbl_node option option" where
  "nx_hash_tbl_get t k =
     (case get_bucket t k of
        None \<Rightarrow> None
      | Some i \<Rightarrow> Some (find_scan (cmp_of t) k (bucket_at t i)))"

fun unlink_scan ::
  "('k \<Rightarrow> 'k \<Rightarrow> u32) \<Rightarrow> 'k \<Rightarrow> ('k, 'd) nx_hash_tbl_node list \<Rightarrow> ('k, 'd) nx_hash_tbl_node list" where
  "unlink_scan cmp k [] = []"
| "unlink_scan cmp k (n # ns) =
     (if cmp k (node_key n) = 0 then ns else n # unlink_scan cmp k ns)"

definition nx_hash_tbl_delete ::
  "('k, 'd) nx_hash_tbl \<Rightarrow> 'k \<Rightarrow> (('k, 'd) nx_hash_tbl_node option \<times> ('k, 'd) nx_hash_tbl) option" where
  "nx_hash_tbl_delete t k =
     (case get_bucket t k of
        None \<Rightarrow> None
      | Some i \<Rightarrow>
          Some (find_scan (cmp_of t) k (bucket_at t i),
                set_bucket t i (unlink_scan (cmp_of t) k (bucket_at t i))))"

subsection \<open>The comparison of IP flow keys\<close>

text \<open>\<open>ip_addr_t\<close> is the union of one 32-bit word with four: \<open>v4\<close> is the first of the \<open>v6\<close> words.\<close>

record ip_addr =
  v6_0 :: u32
  v6_1 :: u32
  v6_2 :: u32
  v6_3 :: u32

abbreviation v4 :: "ip_addr \<Rightarrow> u32" where "v4 \<equiv> v6_0"

definition v6 :: "ip_addr \<Rightarrow> u32 list" where
  "v6 a = [v6_0 a, v6_1 a, v6_2 a, v6_3 a]"

record nx_host_key =
  ip_version :: u8
  daddr :: ip_addr
  saddr :: ip_addr
  sport :: u16
  dport :: u16

definition NX_IP_VERSION_V4 :: u8 where
  "NX_IP_VERSION_V4 = 4"

definition cmp_ports :: "nx_host_key \<Rightarrow> nx_host_key \<Rightarrow> u32" where
  "cmp_ports a b =
     (if sport a \<noteq> sport b then ucast (sport a) - ucast (sport b)
      else if dport a \<noteq> dport b then ucast (dport a) - ucast (dport b)
      else 0)"

text \<open>The loop over the four IPv6 words; \<^const>\<open>None\<close> when all are equal.\<close>

fun cmp_v6 :: "u32 list \<Rightarrow> u32 list \<Rightarrow> u32 list \<Rightarrow> u32 list \<Rightarrow> u32 option" where
  "cmp_v6 (d # ds) (d' # ds') (s # ss) (s' # ss') =
     (if d - d' \<noteq> 0 then Some (d - d') else if s - s' \<noteq> 0 then Some (s - s')
      else cmp_v6 ds ds' ss ss')"
| "cmp_v6 _ _ _ _ = None"

text \<open>The result is the 32-bit \<open>int\<close>; differences wrap.\<close>

definition nx_cmp_ip_key :: "nx_host_key \<Rightarrow> nx_host_key \<Rightarrow> u32" where
  "nx_cmp_ip_key a b =
     (let rv = (ucast (ip_version a) - ucast (ip_version b) :: u32) in
      if rv \<noteq> 0 then rv
      else if ip_version a = NX_IP_VERSION_V4 then
        (if v4 (daddr a) \<noteq> v4 (daddr b) then v4 (daddr a) - v4 (daddr b) else cmp_ports a b)
      else (case cmp_v6 (v6 (daddr a)) (v6 (daddr b)) (v6 (saddr a)) (v6 (saddr b)) of
              Some rv' \<Rightarrow> rv'
            | None \<Rightarrow> cmp_ports a b))"

subsection \<open>The table as a dictionary\<close>

definition cmp_equiv :: "('k \<Rightarrow> 'k \<Rightarrow> u32) \<Rightarrow> bool" where
  "cmp_equiv cmp \<longleftrightarrow>
     (\<forall>a. cmp a a = 0) \<and> (\<forall>a b. cmp a b = 0 \<longrightarrow> cmp b a = 0) \<and>
     (\<forall>a b c. cmp a b = 0 \<longrightarrow> cmp b c = 0 \<longrightarrow> cmp a c = 0)"

definition bucket_ok :: "('k, 'd) nx_hash_tbl \<Rightarrow> nat \<Rightarrow> ('k, 'd) nx_hash_tbl_node list \<Rightarrow> bool" where
  "bucket_ok t i ns \<longleftrightarrow>
     (\<forall>n \<in> set ns. get_bucket t (node_key n) = Some i) \<and>
     sorted_wrt (\<lambda>m n. cmp_of t (node_key m) (node_key n) \<noteq> 0) ns"

text \<open>Every node is in the bucket its key hashes to, and a bucket has no two equal keys.\<close>

definition tbl_inv :: "('k, 'd) nx_hash_tbl \<Rightarrow> bool" where
  "tbl_inv t \<longleftrightarrow>
     (\<exists>bs ops. buckets t = Some bs \<and> tbl_ops t = Some ops \<and> length bs = bucket_cnt t \<and>
        0 < bucket_cnt t \<and> bucket_cnt t < 2 ^ 31 \<and> cmp_equiv (cmp_of t) \<and>
        (\<forall>i < length bs. bucket_ok t i (bs ! i)))"

definition tbl_nodes :: "('k, 'd) nx_hash_tbl \<Rightarrow> ('k, 'd) nx_hash_tbl_node list" where
  "tbl_nodes t = (case buckets t of None \<Rightarrow> [] | Some bs \<Rightarrow> concat bs)"

definition tbl_lookup :: "('k, 'd) nx_hash_tbl \<Rightarrow> 'k \<Rightarrow> ('k, 'd) nx_hash_tbl_node option" where
  "tbl_lookup t k =
     (case get_bucket t k of None \<Rightarrow> None | Some i \<Rightarrow> find_scan (cmp_of t) k (bucket_at t i))"

text \<open>Two keys name the same entry: they share the bucket and compare equal.\<close>

definition same_slot :: "('k, 'd) nx_hash_tbl \<Rightarrow> 'k \<Rightarrow> 'k \<Rightarrow> bool" where
  "same_slot t k k' \<longleftrightarrow> get_bucket t k = get_bucket t k' \<and> cmp_of t k k' = 0"

lemma set_bucket_fields [simp]:
  "tbl_ops (set_bucket t i ns) = tbl_ops t" "bucket_cnt (set_bucket t i ns) = bucket_cnt t"
  "cmp_of (set_bucket t i ns) = cmp_of t" "get_bucket (set_bucket t i ns) k = get_bucket t k"
  "bucket_ok (set_bucket t i ns) = bucket_ok t" "same_slot (set_bucket t i ns) = same_slot t"
  by (auto simp: set_bucket_def cmp_of_def get_bucket_def bucket_ok_def same_slot_def fun_eq_iff
      split: option.splits)

text \<open>The masked hash never leaves the array, whatever the hash function returns.\<close>

lemma mask_index_less:
  assumes "0 < c" "c < 2 ^ 32"
  shows "unat (h AND (of_nat c - 1) :: u32) < c"
proof -
  have "h AND (of_nat c - 1) \<le> (of_nat c - 1 :: u32)" by (rule word_and_le1)
  then have "unat (h AND (of_nat c - 1) :: u32) \<le> unat (of_nat c - 1 :: u32)"
    by (simp add: word_le_nat_alt)
  also have "(of_nat c - 1 :: u32) = of_nat (c - 1)"
    using assms by (simp only: of_nat_diff of_nat_1 Suc_leI One_nat_def) simp
  also have "unat (of_nat (c - 1) :: u32) = c - 1"
    using assms by (simp only: unat_of_nat take_bit_nat_eq_self_iff) simp
  finally show ?thesis using assms by simp
qed

lemma get_bucket_ok:
  assumes "tbl_inv t"
  obtains i bs where "get_bucket t k = Some i" "buckets t = Some bs" "i < length bs"
    "bucket_ok t i (bucket_at t i)" "bucket_at t i = bs ! i"
proof -
  from assms obtain bs ops where t: "buckets t = Some bs" "tbl_ops t = Some ops"
    "length bs = bucket_cnt t" "0 < bucket_cnt t" "bucket_cnt t < 2 ^ 31"
    "\<forall>i < length bs. bucket_ok t i (bs ! i)"
    by (auto simp: tbl_inv_def)
  let ?i = "unat (hash_fn ops k AND (of_nat (bucket_cnt t) - 1))"
  from t mask_index_less [of "bucket_cnt t" "hash_fn ops k"] have "?i < length bs" by simp
  with t have "get_bucket t k = Some ?i" by (simp add: get_bucket_def Let_def)
  from this t(1) \<open>?i < length bs\<close> show ?thesis
  proof (rule that)
    show "bucket_at t ?i = bs ! ?i" by (simp add: bucket_at_def t(1))
    then show "bucket_ok t ?i (bucket_at t ?i)" using t(6) \<open>?i < length bs\<close> by simp
  qed
qed

lemma tbl_inv_equiv: "tbl_inv t \<Longrightarrow> cmp_equiv (cmp_of t)"
  by (auto simp: tbl_inv_def)

lemma cmp_equivD:
  assumes "cmp_equiv cmp"
  shows "cmp a a = 0" "cmp a b = 0 \<Longrightarrow> cmp b a = 0" "cmp a b = 0 \<Longrightarrow> cmp b c = 0 \<Longrightarrow> cmp a c = 0"
  using assms unfolding cmp_equiv_def by blast+

text \<open>Equal keys compare alike with every other key.\<close>

lemma cmp_equiv_cong:
  assumes "cmp_equiv cmp" "cmp a b = 0"
  shows "cmp a c = 0 \<longleftrightarrow> cmp b c = 0" "cmp c a = 0 \<longleftrightarrow> cmp c b = 0"
  using assms cmp_equivD(2,3) [OF assms(1)] by blast+

lemma find_scan_None: "find_scan cmp k ns = None \<longleftrightarrow> (\<forall>n \<in> set ns. cmp k (node_key n) \<noteq> 0)"
  by (induction ns) auto

lemma find_scan_Some: "find_scan cmp k ns = Some n \<Longrightarrow> n \<in> set ns \<and> cmp k (node_key n) = 0"
  by (induction ns) (auto split: if_splits)

lemma find_scan_append:
  "find_scan cmp k (xs @ ys) = (case find_scan cmp k xs of None \<Rightarrow> find_scan cmp k ys | Some n \<Rightarrow> Some n)"
  by (induction xs) auto

lemma insert_scan_None:
  "insert_scan cmp k e i ns = None \<longleftrightarrow> find_scan cmp k ns \<noteq> None"
  by (induction ns arbitrary: e i) (auto simp: Let_def)

text \<open>Wherever the scan decides to put the node, the position is inside the list.\<close>

lemma insert_scan_pos:
  "insert_scan cmp k e i ns = Some (Some j) \<Longrightarrow> e = None \<or> (\<exists>j'. e = Some j' \<and> j' < i) \<Longrightarrow>
   j < i + length ns"
  by (induction ns arbitrary: e i) (force simp: Let_def split: if_splits)+

lemma insert_anywhere:
  assumes eqv: "cmp_equiv cmp" and none: "find_scan cmp (node_key n) (xs @ ys) = None"
  shows "find_scan cmp k (xs @ n # ys) =
           (if cmp k (node_key n) = 0 then Some n else find_scan cmp k (xs @ ys))"
proof (cases "cmp k (node_key n) = 0")
  case True
  have "find_scan cmp k xs = None"
    using none cmp_equiv_cong(1) [OF eqv True] by (simp add: find_scan_None)
  with True show ?thesis by (simp add: find_scan_append)
next
  case False
  then show ?thesis by (simp add: find_scan_append split: option.splits)
qed

lemma sorted_wrt_insert:
  assumes eqv: "cmp_equiv cmp" and none: "find_scan cmp (node_key n) (xs @ ys) = None"
    and s: "sorted_wrt (\<lambda>a b. cmp (node_key a) (node_key b) \<noteq> 0) (xs @ ys)"
  shows "sorted_wrt (\<lambda>a b. cmp (node_key a) (node_key b) \<noteq> 0) (xs @ n # ys)"
proof -
  have "\<forall>m \<in> set (xs @ ys). cmp (node_key n) (node_key m) \<noteq> 0"
    using none by (simp only: find_scan_None)
  with s cmp_equivD(2) [OF eqv] show ?thesis by (auto simp: sorted_wrt_append)
qed

text \<open>Deleting takes out exactly the node a lookup finds.\<close>

lemma unlink_scan_mset:
  "mset ns = (case find_scan cmp k ns of None \<Rightarrow> {#} | Some n \<Rightarrow> {#n#}) + mset (unlink_scan cmp k ns)"
  by (induction ns) (auto split: option.splits)

lemma unlink_scan_set: "set (unlink_scan cmp k ns) \<subseteq> set ns"
  by (induction ns) auto

lemma unlink_scan_sorted: "sorted_wrt P ns \<Longrightarrow> sorted_wrt P (unlink_scan cmp k ns)"
proof (induction ns)
  case (Cons n ns)
  with unlink_scan_set [of cmp k ns] show ?case by auto
qed simp

lemma find_unlink:
  assumes eqv: "cmp_equiv cmp"
    and s: "sorted_wrt (\<lambda>a b. cmp (node_key a) (node_key b) \<noteq> 0) ns"
  shows "find_scan cmp k' (unlink_scan cmp k ns) = (if cmp k' k = 0 then None else find_scan cmp k' ns)"
  using s
proof (induction ns)
  case Nil
  then show ?case by simp
next
  case (Cons n ns)
  show ?case
  proof (cases "cmp k (node_key n) = 0")
    case True
    show ?thesis
    proof (cases "cmp k' k = 0")
      case same: True
      have "\<forall>m \<in> set ns. cmp k' (node_key m) \<noteq> 0"
        using Cons.prems cmp_equiv_cong(1) [OF eqv same] cmp_equiv_cong(1) [OF eqv True] by simp
      with True same show ?thesis by (simp add: find_scan_None)
    next
      case False
      then have "cmp k' (node_key n) \<noteq> 0" using cmp_equiv_cong(2) [OF eqv True] by simp
      with True False show ?thesis by simp
    qed
  next
    case False
    then have "cmp k' k = 0 \<Longrightarrow> cmp k' (node_key n) \<noteq> 0" using cmp_equiv_cong(1) [OF eqv] by blast
    with False Cons show ?thesis by simp
  qed
qed

lemma buckets_set_bucket: "buckets t = Some bs \<Longrightarrow> buckets (set_bucket t i ns) = Some (bs[i := ns])"
  by (simp add: set_bucket_def)

lemma set_bucket_inv:
  assumes inv: "tbl_inv t" and i: "i < length bs" and bs: "buckets t = Some bs" and ok: "bucket_ok t i ns"
  shows "tbl_inv (set_bucket t i ns)"
proof -
  from inv bs have "\<forall>j < length bs. bucket_ok t j (bs[i := ns] ! j)"
    using ok i by (auto simp: tbl_inv_def nth_list_update)
  with inv bs show ?thesis unfolding tbl_inv_def by (auto simp: buckets_set_bucket)
qed

lemma bucket_at_set:
  "buckets t = Some bs \<Longrightarrow> i < length bs \<Longrightarrow>
   bucket_at (set_bucket t i ns) j = (if j = i then ns else bucket_at t j)"
  by (auto simp: bucket_at_def set_bucket_def)

lemma set_bucket_lookup:
  assumes "get_bucket t k = Some i" "i < length bs" "buckets t = Some bs"
  shows "tbl_lookup (set_bucket t i ns) k' =
           (if get_bucket t k' = Some i then find_scan (cmp_of t) k' ns else tbl_lookup t k')"
proof (cases "get_bucket t k'")
  case None
  then show ?thesis by (simp add: tbl_lookup_def)
next
  case (Some j)
  with assms show ?thesis by (simp add: tbl_lookup_def bucket_at_set)
qed

lemma set_bucket_nodes:
  assumes "i < length bs" "buckets t = Some bs"
  shows "mset (tbl_nodes (set_bucket t i ns)) + mset (bs ! i) = mset (tbl_nodes t) + mset ns"
proof -
  have bs: "bs = take i bs @ bs ! i # drop (Suc i) bs" using assms(1) by (rule id_take_nth_drop)
  have "mset (concat bs) = mset (concat (take i bs)) + mset (bs ! i) + mset (concat (drop (Suc i) bs))"
    by (subst bs) simp
  moreover have "mset (concat (bs[i := ns])) =
      mset (concat (take i bs)) + mset ns + mset (concat (drop (Suc i) bs))"
    using assms(1) by (simp add: upd_conv_take_nth_drop)
  ultimately show ?thesis
    using assms(2) by (simp add: tbl_nodes_def set_bucket_def)
qed

lemma get_spec: "tbl_inv t \<Longrightarrow> nx_hash_tbl_get t k = Some (tbl_lookup t k)"
  by (erule get_bucket_ok [where k = k]) (simp add: nx_hash_tbl_get_def tbl_lookup_def)

text \<open>The scan's decision, as a split of the bucket.\<close>

lemma insert_scan_split:
  assumes "insert_scan cmp k None 0 ns = Some e"
  obtains xs ys where "ns = xs @ ys"
    "(case e of Some j \<Rightarrow> list_insert_before n j ns | None \<Rightarrow> ns @ [n]) = xs @ n # ys"
proof (cases e)
  case None
  then show ?thesis by (intro that [of ns "[]"]) simp_all
next
  case (Some j)
  then show ?thesis by (intro that [of "take j ns" "drop j ns"]) (simp_all add: list_insert_before_def)
qed

lemma insert_spec:
  assumes inv: "tbl_inv t"
  shows "\<exists>rv t'. nx_hash_tbl_insert t n = Some (rv, t') \<and> tbl_inv t' \<and> same_slot t' = same_slot t \<and>
    (if tbl_lookup t (node_key n) \<noteq> None then rv = NX_HASH_TBL_NODE_EXISTS \<and> t' = t
     else rv = NX_HASH_TBL_NODE_INSERTED \<and>
          (\<forall>k. tbl_lookup t' k = (if same_slot t k (node_key n) then Some n else tbl_lookup t k)) \<and>
          mset (tbl_nodes t') = add_mset n (mset (tbl_nodes t)))"
proof -
  let ?k = "node_key n" and ?cmp = "cmp_of t"
  have eqv: "cmp_equiv ?cmp" using inv by (rule tbl_inv_equiv)
  obtain i bs where b: "get_bucket t ?k = Some i" "buckets t = Some bs" "i < length bs"
    "bucket_ok t i (bucket_at t i)" "bucket_at t i = bs ! i"
    using get_bucket_ok [OF inv, of ?k] .
  have look: "tbl_lookup t ?k = find_scan ?cmp ?k (bs ! i)"
    using b by (simp add: tbl_lookup_def)
  show ?thesis
  proof (cases "insert_scan ?cmp ?k None 0 (bs ! i)")
    case None
    then have "tbl_lookup t ?k \<noteq> None" unfolding look insert_scan_None .
    with None b inv show ?thesis by (simp add: nx_hash_tbl_insert_def)
  next
    case (Some e)
    then have "insert_scan ?cmp ?k None 0 (bs ! i) \<noteq> None" by simp
    then have none: "find_scan ?cmp ?k (bs ! i) = None" unfolding insert_scan_None by simp
    obtain xs ys where sp: "bs ! i = xs @ ys"
      "(case e of Some j \<Rightarrow> list_insert_before n j (bs ! i) | None \<Rightarrow> bs ! i @ [n]) = xs @ n # ys"
      using insert_scan_split [OF Some] .
    let ?t = "set_bucket t i (xs @ n # ys)"
    have ins: "nx_hash_tbl_insert t n = Some (NX_HASH_TBL_NODE_INSERTED, ?t)"
      using b Some sp by (cases e) (simp_all add: nx_hash_tbl_insert_def)
    have s: "sorted_wrt (\<lambda>a b. ?cmp (node_key a) (node_key b) \<noteq> 0) (xs @ ys)"
      using b(4,5) sp(1) by (simp add: bucket_ok_def)
    have "bucket_ok t i (xs @ n # ys)"
      using sorted_wrt_insert [OF eqv none [unfolded sp(1)] s] b(1,4,5) sp(1)
      by (auto simp: bucket_ok_def)
    then have inv': "tbl_inv ?t" using set_bucket_inv [OF inv b(3,2)] by simp
    have lk: "tbl_lookup ?t k = (if same_slot t k ?k then Some n else tbl_lookup t k)" for k
      using insert_anywhere [OF eqv none [unfolded sp(1)], of k] b sp(1)
      unfolding set_bucket_lookup [OF b(1,3,2)] by (auto simp: same_slot_def tbl_lookup_def)
    have "mset (tbl_nodes ?t) + mset (bs ! i) = mset (tbl_nodes t) + mset (xs @ n # ys)"
      using set_bucket_nodes [OF b(3,2)] .
    then have "mset (tbl_nodes ?t) = add_mset n (mset (tbl_nodes t))"
      by (simp add: sp(1))
    with ins inv' lk none look show ?thesis by simp
  qed
qed

lemma delete_spec:
  assumes inv: "tbl_inv t"
  shows "\<exists>t'. nx_hash_tbl_delete t k = Some (tbl_lookup t k, t') \<and> tbl_inv t' \<and> same_slot t' = same_slot t \<and>
    (\<forall>k'. tbl_lookup t' k' = (if same_slot t k' k then None else tbl_lookup t k')) \<and>
    mset (tbl_nodes t) =
      (case tbl_lookup t k of None \<Rightarrow> {#} | Some n \<Rightarrow> {#n#}) + mset (tbl_nodes t')"
proof -
  let ?cmp = "cmp_of t"
  have eqv: "cmp_equiv ?cmp" using inv by (rule tbl_inv_equiv)
  obtain i bs where b: "get_bucket t k = Some i" "buckets t = Some bs" "i < length bs"
    "bucket_ok t i (bucket_at t i)" "bucket_at t i = bs ! i"
    using get_bucket_ok [OF inv, of k] .
  let ?ns = "unlink_scan ?cmp k (bs ! i)"
  let ?t = "set_bucket t i ?ns"
  have look: "tbl_lookup t k = find_scan ?cmp k (bs ! i)"
    using b by (simp add: tbl_lookup_def)
  have s: "sorted_wrt (\<lambda>a b. ?cmp (node_key a) (node_key b) \<noteq> 0) (bs ! i)"
    using b(4,5) by (simp add: bucket_ok_def)
  have "bucket_ok t i ?ns"
    using b(4,5) unlink_scan_set [of ?cmp k "bs ! i"] unlink_scan_sorted [OF s]
    by (auto simp: bucket_ok_def)
  then have inv': "tbl_inv ?t" using set_bucket_inv [OF inv b(3,2)] by simp
  have lk: "tbl_lookup ?t k' = (if same_slot t k' k then None else tbl_lookup t k')" for k'
    using find_unlink [OF eqv s, of k' k] b
    unfolding set_bucket_lookup [OF b(1,3,2)] by (auto simp: same_slot_def tbl_lookup_def)
  have "mset (tbl_nodes ?t) + mset (bs ! i) = mset (tbl_nodes t) + mset ?ns"
    using set_bucket_nodes [OF b(3,2)] .
  then have "mset (tbl_nodes t) + mset ?ns =
      (case tbl_lookup t k of None \<Rightarrow> {#} | Some n \<Rightarrow> {#n#}) + mset (tbl_nodes ?t) + mset ?ns"
    unfolding look unlink_scan_mset [of "bs ! i" ?cmp k] by (simp only: ac_simps)
  then have "mset (tbl_nodes t) =
      (case tbl_lookup t k of None \<Rightarrow> {#} | Some n \<Rightarrow> {#n#}) + mset (tbl_nodes ?t)"
    by (simp only: add_right_cancel)
  with inv' lk b show ?thesis by (simp add: nx_hash_tbl_delete_def look)
qed

lemma create_spec:
  assumes "cmp_equiv (compare_keys ops)" "0 < cnt" "cnt < 2 ^ 31"
    and "nx_hash_tbl_create True cnt ops = (rv, t)"
  shows "rv = 0 \<and> tbl_inv t \<and> tbl_nodes t = [] \<and> (\<forall>k. tbl_lookup t k = None)"
proof -
  from assms(4) have t: "rv = 0" "t = \<lparr>buckets = Some (replicate cnt []), bucket_cnt = cnt, tbl_ops = Some ops\<rparr>"
    by (simp_all add: nx_hash_tbl_create_def)
  then have inv: "tbl_inv t" using assms(1-3) by (simp add: tbl_inv_def bucket_ok_def cmp_of_def)
  have "tbl_lookup t k = None" for k
    by (rule get_bucket_ok [OF inv, of k]) (auto simp: tbl_lookup_def t(2))
  with inv t show ?thesis by (simp add: tbl_nodes_def)
qed

subsection \<open>The contract, and its provider\<close>

datatype ('n, 'k) dict_op = Ins 'n | Del 'k

text \<open>A client's run: the nodes the table took, those it gave back, and the final table.\<close>

fun dict_run ::
  "('t \<Rightarrow> 'n \<Rightarrow> (int \<times> 't) option) \<Rightarrow> ('t \<Rightarrow> 'k \<Rightarrow> ('n option \<times> 't) option) \<Rightarrow>
   't \<Rightarrow> ('n, 'k) dict_op list \<Rightarrow> ('n list \<times> 'n list \<times> 't) option" where
  "dict_run ins del t [] = Some ([], [], t)"
| "dict_run ins del t (Ins n # ops) =
     (case ins t n of
        None \<Rightarrow> None
      | Some (rv, t') \<Rightarrow>
          map_option (\<lambda>(i, d, r). ((if rv = NX_HASH_TBL_NODE_INSERTED then [n] else []) @ i, d, r))
            (dict_run ins del t' ops))"
| "dict_run ins del t (Del k # ops) =
     (case del t k of
        None \<Rightarrow> None
      | Some (x, t') \<Rightarrow>
          map_option (\<lambda>(i, d, r). (i, (case x of None \<Rightarrow> [] | Some n \<Rightarrow> [n]) @ d, r))
            (dict_run ins del t' ops))"

locale dictionary =
  fixes inv :: "'t \<Rightarrow> bool"
    and look :: "'t \<Rightarrow> 'k \<Rightarrow> 'n option"
    and key :: "'n \<Rightarrow> 'k"
    and same :: "'t \<Rightarrow> 'k \<Rightarrow> 'k \<Rightarrow> bool"
    and nodes :: "'t \<Rightarrow> 'n multiset"
    and ins :: "'t \<Rightarrow> 'n \<Rightarrow> (int \<times> 't) option"
    and del :: "'t \<Rightarrow> 'k \<Rightarrow> ('n option \<times> 't) option"
  assumes ins_law: "inv t \<Longrightarrow>
      \<exists>rv t'. ins t n = Some (rv, t') \<and> inv t' \<and> same t' = same t \<and>
        (if look t (key n) \<noteq> None then rv = NX_HASH_TBL_NODE_EXISTS \<and> t' = t
         else rv = NX_HASH_TBL_NODE_INSERTED \<and>
              (\<forall>k. look t' k = (if same t k (key n) then Some n else look t k)) \<and>
              nodes t' = add_mset n (nodes t))"
    and del_law: "inv t \<Longrightarrow>
      \<exists>t'. del t k = Some (look t k, t') \<and> inv t' \<and> same t' = same t \<and>
        (\<forall>k'. look t' k' = (if same t k' k then None else look t k')) \<and>
        nodes t = (case look t k of None \<Rightarrow> {#} | Some n \<Rightarrow> {#n#}) + nodes t'"
    and same_refl: "inv t \<Longrightarrow> same t k k"
    and same_cong: "inv t \<Longrightarrow> same t k k' \<Longrightarrow> look t k = look t k'"
begin

text \<open>A node that went in is found, keeps equal keys out, and its deletion undoes the insertion.\<close>

lemma insert_delete:
  assumes "inv t" "look t (key n) = None" "same t (key n) (key m)"
  shows "\<exists>t1 t2. ins t n = Some (NX_HASH_TBL_NODE_INSERTED, t1) \<and> look t1 (key n) = Some n \<and>
           ins t1 m = Some (NX_HASH_TBL_NODE_EXISTS, t1) \<and>
           del t1 (key n) = Some (Some n, t2) \<and> inv t2 \<and> look t2 = look t \<and> nodes t2 = nodes t"
proof -
  from ins_law [OF assms(1), of n] assms(2) obtain t1 where
    t1: "ins t n = Some (NX_HASH_TBL_NODE_INSERTED, t1)" "inv t1" "same t1 = same t"
      "\<And>k. look t1 k = (if same t k (key n) then Some n else look t k)" "nodes t1 = add_mset n (nodes t)"
    by auto
  have found: "look t1 (key n) = Some n" by (simp add: t1(4) same_refl [OF assms(1)])
  have "look t1 (key m) = Some n"
    using same_cong [OF t1(2), of "key n" "key m"] assms(3) found t1(3) by simp
  with ins_law [OF t1(2), of m] have ex: "ins t1 m = Some (NX_HASH_TBL_NODE_EXISTS, t1)" by auto
  from del_law [OF t1(2), of "key n"] found obtain t2 where
    t2: "del t1 (key n) = Some (Some n, t2)" "inv t2"
      "\<And>k. look t2 k = (if same t1 k (key n) then None else look t1 k)" "nodes t1 = {#n#} + nodes t2"
    by auto
  have "look t2 k = look t k" for k
    using assms(2) same_cong [OF assms(1), of k "key n"] by (simp add: t2(3) t1(3,4))
  with t1 t2 found ex show ?thesis by auto
qed

text \<open>Nothing is lost and nothing is made up, whatever the client does.\<close>

lemma run_conserves:
  "inv t \<Longrightarrow> \<exists>i d r. dict_run ins del t ops = Some (i, d, r) \<and> inv r \<and>
     nodes t + mset i = mset d + nodes r"
proof (induction ops arbitrary: t)
  case Nil
  then show ?case by simp
next
  case (Cons w ops)
  show ?case
  proof (cases w)
    case (Ins n)
    from ins_law [OF Cons.prems, of n] obtain rv t' where
      t': "ins t n = Some (rv, t')" "inv t'"
        "nodes t' = nodes t + mset (if rv = NX_HASH_TBL_NODE_INSERTED then [n] else [])"
      by (auto simp: NX_HASH_TBL_NODE_INSERTED_def NX_HASH_TBL_NODE_EXISTS_def split: if_splits)
    from Cons.IH [OF t'(2)] obtain i d r where
      ih: "dict_run ins del t' ops = Some (i, d, r)" "inv r" "nodes t' + mset i = mset d + nodes r"
      by blast
    let ?i = "(if rv = NX_HASH_TBL_NODE_INSERTED then [n] else []) @ i"
    have "nodes t + mset ?i = mset d + nodes r" using ih(3) t'(3) by (auto split: if_splits)
    moreover have "dict_run ins del t (w # ops) = Some (?i, d, r)" using t'(1) ih(1) Ins by simp
    ultimately show ?thesis using ih(2) by blast
  next
    case (Del k)
    from del_law [OF Cons.prems, of k] obtain t' where
      t': "del t k = Some (look t k, t')" "inv t'"
        "nodes t = (case look t k of None \<Rightarrow> {#} | Some n \<Rightarrow> {#n#}) + nodes t'"
      by blast
    from Cons.IH [OF t'(2)] obtain i d r where
      ih: "dict_run ins del t' ops = Some (i, d, r)" "inv r" "nodes t' + mset i = mset d + nodes r"
      by blast
    let ?d = "(case look t k of None \<Rightarrow> [] | Some n \<Rightarrow> [n]) @ d"
    have "nodes t + mset i = mset ?d + nodes r" using ih(3) t'(3) by (cases "look t k") simp_all
    moreover have "dict_run ins del t (w # ops) = Some (i, ?d, r)" using t'(1) ih(1) Del by simp
    ultimately show ?thesis using ih(2) by blast
  qed
qed

end

interpretation hash_dict: dictionary tbl_inv tbl_lookup node_key same_slot
  "\<lambda>t. mset (tbl_nodes t)" nx_hash_tbl_insert nx_hash_tbl_delete
proof unfold_locales
  fix t :: "('k, 'd) nx_hash_tbl" and n k k'
  assume inv: "tbl_inv t"
  show "\<exists>rv t'. nx_hash_tbl_insert t n = Some (rv, t') \<and> tbl_inv t' \<and> same_slot t' = same_slot t \<and>
    (if tbl_lookup t (node_key n) \<noteq> None then rv = NX_HASH_TBL_NODE_EXISTS \<and> t' = t
     else rv = NX_HASH_TBL_NODE_INSERTED \<and>
          (\<forall>k. tbl_lookup t' k = (if same_slot t k (node_key n) then Some n else tbl_lookup t k)) \<and>
          mset (tbl_nodes t') = add_mset n (mset (tbl_nodes t)))"
    using insert_spec [OF inv] .
  show "\<exists>t'. nx_hash_tbl_delete t k = Some (tbl_lookup t k, t') \<and> tbl_inv t' \<and> same_slot t' = same_slot t \<and>
    (\<forall>k'. tbl_lookup t' k' = (if same_slot t k' k then None else tbl_lookup t k')) \<and>
    mset (tbl_nodes t) =
      (case tbl_lookup t k of None \<Rightarrow> {#} | Some n \<Rightarrow> {#n#}) + mset (tbl_nodes t')"
    using delete_spec [OF inv] .
  show "same_slot t k k"
    using cmp_equivD(1) [OF tbl_inv_equiv [OF inv]] by (simp add: same_slot_def)
  have find_cong: "find_scan c a ns = find_scan c b ns" if "cmp_equiv c" "c a b = 0" for c a b ns
    by (induction ns) (simp_all add: cmp_equiv_cong(1) [OF that])
  assume "same_slot t k k'"
  then have g: "get_bucket t k = get_bucket t k'" and c: "cmp_of t k k' = 0"
    by (simp_all add: same_slot_def)
  show "tbl_lookup t k = tbl_lookup t k'"
    unfolding tbl_lookup_def g find_cong [OF tbl_inv_equiv [OF inv] c] ..
qed

subsection \<open>What the flow comparison identifies\<close>

definition v4_key :: "nx_host_key \<Rightarrow> bool" where
  "v4_key k \<longleftrightarrow> ip_version k = NX_IP_VERSION_V4"

lemma ucast16: "(ucast (a :: u16) :: u32) = ucast b \<longleftrightarrow> a = b"
  by transfer simp
lemma ucast8: "(ucast (a :: u8) :: u32) = ucast b \<longleftrightarrow> a = b"
  by transfer simp

lemma cmp_ports_0: "cmp_ports a b = 0 \<longleftrightarrow> sport a = sport b \<and> dport a = dport b"
  by (simp add: cmp_ports_def ucast16)

lemma cmp_v6_None:
  "length ds' = length ds \<Longrightarrow> length ss = length ds \<Longrightarrow> length ss' = length ds \<Longrightarrow>
   cmp_v6 ds ds' ss ss' = None \<longleftrightarrow> ds = ds' \<and> ss = ss'"
proof (induction ds arbitrary: ds' ss ss')
  case Nil then show ?case by simp
next
  case (Cons d ds)
  then obtain d' s s' es ts ts' where "ds' = d' # es" "ss = s # ts" "ss' = s' # ts'"
    by (metis length_Suc_conv)
  with Cons show ?case by auto
qed

lemma cmp_v6_Some: "cmp_v6 ds ds' ss ss' = Some r \<Longrightarrow> r \<noteq> 0"
  by (induction ds ds' ss ss' rule: cmp_v6.induct) (auto split: if_splits)

lemma v6_inj: "v6 a = v6 b \<longleftrightarrow> a = b"
  by (cases a; cases b) (simp add: v6_def)

lemma cmp_ip_key_0:
  "nx_cmp_ip_key a b = 0 \<longleftrightarrow>
     ip_version a = ip_version b \<and> sport a = sport b \<and> dport a = dport b \<and>
     (if v4_key a then v4 (daddr a) = v4 (daddr b) else daddr a = daddr b \<and> saddr a = saddr b)"
proof -
  have len: "length (v6 x) = 4" for x by (simp add: v6_def)
  have ver: "(ucast (ip_version a) - ucast (ip_version b) :: u32) = 0 \<longleftrightarrow> ip_version a = ip_version b"
    by (simp add: ucast8)
  note six = cmp_v6_None [of "v6 (daddr b)" "v6 (daddr a)" "v6 (saddr a)" "v6 (saddr b)", unfolded len v6_inj]
    cmp_v6_Some [of "v6 (daddr a)" "v6 (daddr b)" "v6 (saddr a)" "v6 (saddr b)"]
  show ?thesis
  proof (cases "ip_version a = ip_version b")
    case False
    with ver show ?thesis by (simp add: nx_cmp_ip_key_def)
  next
    case same: True
    show ?thesis
    proof (cases "v4_key a")
      case True
      with same show ?thesis
        by (auto simp: nx_cmp_ip_key_def v4_key_def cmp_ports_0)
    next
      case False
      have "nx_cmp_ip_key a b =
          (case cmp_v6 (v6 (daddr a)) (v6 (daddr b)) (v6 (saddr a)) (v6 (saddr b)) of
             Some rv' \<Rightarrow> rv' | None \<Rightarrow> cmp_ports a b)"
        using same False by (simp add: nx_cmp_ip_key_def v4_key_def)
      with six same False show ?thesis
        by (cases "cmp_v6 (v6 (daddr a)) (v6 (daddr b)) (v6 (saddr a)) (v6 (saddr b))")
          (simp_all add: cmp_ports_0)
    qed
  qed
qed

lemma cmp_ip_key_equiv: "cmp_equiv nx_cmp_ip_key"
  unfolding cmp_equiv_def cmp_ip_key_0 by (auto simp: v4_key_def)

subsection \<open>Properties\<close>

text \<open>An empty table of eight buckets over flow keys, for the witnesses.\<close>

definition sample_key :: "u32 \<Rightarrow> u16 \<Rightarrow> nx_host_key" where
  "sample_key a p = \<lparr>ip_version = 4,
     daddr = \<lparr>v6_0 = 0x0A000001, v6_1 = 0, v6_2 = 0, v6_3 = 0\<rparr>,
     saddr = \<lparr>v6_0 = a, v6_1 = 0, v6_2 = 0, v6_3 = 0\<rparr>, sport = p, dport = 80\<rparr>"

definition sample_table :: "(nx_host_key, nat) nx_hash_tbl" where
  "sample_table = snd (nx_hash_tbl_create True 8
     \<lparr>hash_fn = \<lambda>k. ucast (sport k), compare_keys = nx_cmp_ip_key\<rparr>)"

lemma sample_table_inv:
  "tbl_inv sample_table" "tbl_nodes sample_table = []" "tbl_lookup sample_table k = None"
  using create_spec [of "\<lparr>hash_fn = \<lambda>k. ucast (sport k), compare_keys = nx_cmp_ip_key\<rparr>" 8 0
      "sample_table"]
  by (simp_all add: sample_table_def cmp_ip_key_equiv nx_hash_tbl_create_def)

text \<open>
  C28 Insertion (\<open>nx_hash_tbl_insert\<close>) into a well-formed table never leaves the bucket array
  and keeps the table well formed. When the bucket of the key holds an equal key it answers
  EXISTS and changes nothing; otherwise it answers INSERTED, and afterwards a lookup of any
  key finds the new node if the key names the same slot and what it found before if not.
\<close>

theorem hash_insert_lookup:
  assumes "tbl_inv t"
  shows "\<exists>rv t'. nx_hash_tbl_insert t n = Some (rv, t') \<and> tbl_inv t' \<and>
    (if nx_hash_tbl_get t (node_key n) \<noteq> Some None then rv = NX_HASH_TBL_NODE_EXISTS \<and> t' = t
     else rv = NX_HASH_TBL_NODE_INSERTED \<and>
          (\<forall>k. nx_hash_tbl_get t' k =
             (if same_slot t k (node_key n) then Some (Some n) else nx_hash_tbl_get t k)))"
proof -
  from insert_spec [OF assms, of n] obtain rv t' where
    r: "nx_hash_tbl_insert t n = Some (rv, t')" "tbl_inv t'"
      "if tbl_lookup t (node_key n) \<noteq> None then rv = NX_HASH_TBL_NODE_EXISTS \<and> t' = t
       else rv = NX_HASH_TBL_NODE_INSERTED \<and>
            (\<forall>k. tbl_lookup t' k = (if same_slot t k (node_key n) then Some n else tbl_lookup t k)) \<and>
            mset (tbl_nodes t') = add_mset n (mset (tbl_nodes t))"
    by blast
  then show ?thesis using get_spec [OF assms] get_spec [OF r(2)] by (auto split: if_splits)
qed

theorem hash_insert_lookup_witness:
  "\<exists>t'. nx_hash_tbl_insert sample_table \<lparr>node_key = sample_key 1 5, node_data = 7\<rparr> =
           Some (NX_HASH_TBL_NODE_INSERTED, t') \<and>
         nx_hash_tbl_get t' (sample_key 1 5) = Some (Some \<lparr>node_key = sample_key 1 5, node_data = 7\<rparr>)"
  using hash_insert_lookup [OF sample_table_inv(1), of "\<lparr>node_key = sample_key 1 5, node_data = 7\<rparr>"]
    get_spec [OF sample_table_inv(1)] hash_dict.same_refl [OF sample_table_inv(1)]
  by (auto simp: sample_table_inv(3))

text \<open>
  C27 Over any sequence of insertions and deletions the table neither loses nor invents a
  node: no operation crashes, and the nodes it held at first together with those it answered
  INSERTED for are those it handed back on deletion together with those it still holds.
\<close>

theorem hash_conserves_nodes:
  "tbl_inv t \<Longrightarrow>
   \<exists>i d r. dict_run nx_hash_tbl_insert nx_hash_tbl_delete t ops = Some (i, d, r) \<and> tbl_inv r \<and>
     mset (tbl_nodes t) + mset i = mset d + mset (tbl_nodes r)"
  by (rule hash_dict.run_conserves)

theorem hash_conserves_nodes_witness:
  "\<exists>i d r. dict_run nx_hash_tbl_insert nx_hash_tbl_delete sample_table
       [Ins \<lparr>node_key = sample_key 1 5, node_data = 7\<rparr>, Del (sample_key 1 5)] = Some (i, d, r) \<and>
     mset i = mset d + mset (tbl_nodes r)"
  using hash_conserves_nodes [OF sample_table_inv(1),
      of "[Ins \<lparr>node_key = sample_key 1 5, node_data = 7\<rparr>, Del (sample_key 1 5)]"]
  by (auto simp: sample_table_inv(2))

text \<open>
  What \<open>nx_cmp_ip_key\<close> takes for the same flow: the IP version and both ports, and for
  IPv6 both addresses, but for IPv4 the destination address only. It is an equivalence, but
  two IPv4 flows that differ in nothing but their source address compare equal, although the
  IPv6 branch compares source addresses.
\<close>

theorem cmp_ip_key_identity:
  "cmp_equiv nx_cmp_ip_key \<and>
   (nx_cmp_ip_key a b = 0) =
     (ip_version a = ip_version b \<and> sport a = sport b \<and> dport a = dport b \<and>
      (if v4_key a then v4 (daddr a) = v4 (daddr b) else daddr a = daddr b \<and> saddr a = saddr b))"
  using cmp_ip_key_equiv cmp_ip_key_0 [of a b] by simp

end
