(* ===== verification/MemPool.thy ===== *)
theory MemPool
  imports Prelude
begin

text \<open>
  The fixed-size block pool of \<open>driver/nx_mem_pool.c\<close>: all blocks are allocated at creation,
  handed out from the front of the free list and taken back at its tail. Addresses are
  naturals. A block starts with the header \<open>nx_mem_pool_node_t\<close>, whose \<open>pool\<close> pointer the free
  operation checks: \<open>pool_nodes\<close> are the addresses whose header names this pool. The pool
  promises what an allocator promises, stated as the locale \<open>block_pool\<close>: a block handed out
  is not already outstanding, and giving back an outstanding block succeeds.
\<close>

subsection \<open>Data\<close>

record nx_mem_pool =
  pool_free_list :: "nat list"
  max_entries :: nat
  entry_size :: nat
  allocated :: int
  pool_offset :: nat
  pool_nodes :: "nat list"

definition NX_MEM_POOL_ALIGNMENT :: nat where
  "NX_MEM_POOL_ALIGNMENT = 8"

text \<open>Two list pointers and the pool pointer, on a 64-bit kernel.\<close>

definition sizeof_pool_node :: nat where
  "sizeof_pool_node = 24"

subsection \<open>Operations\<close>

text \<open>Destroying with blocks outstanding is \<open>BUG()\<close>; the second component is what is freed.\<close>

definition nx_mem_pool_destroy :: "nx_mem_pool \<Rightarrow> (nx_mem_pool \<times> nat list) option" where
  "nx_mem_pool_destroy p =
     (if allocated p \<noteq> 0 then None
      else Some (p\<lparr>pool_free_list := []\<rparr>, pool_free_list p))"

text \<open>The allocation loop: \<open>mem i\<close> is what the \<open>i\<close>-th \<open>kmalloc\<close> returns. The first component
  tells whether every allocation succeeded.\<close>

fun pool_fill :: "(nat \<Rightarrow> nat option) \<Rightarrow> nat list \<Rightarrow> nx_mem_pool \<Rightarrow> bool \<times> nx_mem_pool" where
  "pool_fill mem [] p = (True, p)"
| "pool_fill mem (i # is) p =
     (case mem i of
        None \<Rightarrow> (False, p)
      | Some node \<Rightarrow>
          pool_fill mem is (p\<lparr>pool_free_list := node # pool_free_list p,
                              pool_nodes := node # pool_nodes p\<rparr>))"

definition nx_mem_pool_create ::
  "(nat \<Rightarrow> nat option) \<Rightarrow> nat \<Rightarrow> nat \<Rightarrow> (int \<times> nx_mem_pool \<times> nat list) option" where
  "nx_mem_pool_create mem n sz =
     (let off = ((sizeof_pool_node + (NX_MEM_POOL_ALIGNMENT - 1)) div NX_MEM_POOL_ALIGNMENT) *
                NX_MEM_POOL_ALIGNMENT in
      case pool_fill mem [0..<n]
        \<lparr>pool_free_list = [], max_entries = n, entry_size = sz + off, allocated = 0,
         pool_offset = off, pool_nodes = []\<rparr> of
        (True, p) \<Rightarrow> Some (0, p, [])
      | (False, p) \<Rightarrow>
          (case nx_mem_pool_destroy p of
             None \<Rightarrow> None
           | Some (p', freed) \<Rightarrow> Some (- ENOMEM, p', freed)))"

definition nx_mem_pool_alloc :: "nx_mem_pool \<Rightarrow> nat option \<times> nx_mem_pool" where
  "nx_mem_pool_alloc p =
     (case pool_free_list p of
        [] \<Rightarrow> (None, p)
      | node # rest \<Rightarrow>
          (Some (node + pool_offset p), p\<lparr>pool_free_list := rest, allocated := allocated p + 1\<rparr>))"

text \<open>\<^const>\<open>None\<close> is \<open>BUG()\<close>: a foreign block, or more frees than allocations.\<close>

definition nx_mem_pool_free :: "nx_mem_pool \<Rightarrow> nat \<Rightarrow> nx_mem_pool option" where
  "nx_mem_pool_free p ptr =
     (if ptr < pool_offset p then None
      else let node = ptr - pool_offset p in
        if node \<notin> set (pool_nodes p) then None
        else if allocated p - 1 < 0 then None
        else Some (p\<lparr>pool_free_list := pool_free_list p @ [node], allocated := allocated p - 1\<rparr>))"

subsection \<open>Invariant\<close>

text \<open>
  \<open>A\<close> is the set of blocks outstanding, by the addresses handed out. Free and outstanding
  blocks together are the pool's blocks, each exactly once.
\<close>

definition pool_inv :: "nx_mem_pool \<Rightarrow> nat set \<Rightarrow> bool" where
  "pool_inv p A \<longleftrightarrow>
     distinct (pool_nodes p) \<and> distinct (pool_free_list p) \<and>
     set (pool_free_list p) \<subseteq> set (pool_nodes p) \<and>
     A = (\<lambda>n. n + pool_offset p) ` (set (pool_nodes p) - set (pool_free_list p)) \<and>
     allocated p = int (card A)"

lemma pool_invD:
  assumes "pool_inv p A"
  shows "distinct (pool_nodes p)" "distinct (pool_free_list p)"
    "set (pool_free_list p) \<subseteq> set (pool_nodes p)"
    "A = (\<lambda>n. n + pool_offset p) ` (set (pool_nodes p) - set (pool_free_list p))"
    "allocated p = int (card A)"
  using assms unfolding pool_inv_def by blast+

lemma pool_inv_finite: "pool_inv p A \<Longrightarrow> finite A"
  using pool_invD(4) [of p A] by simp

lemma alloc_law:
  assumes inv: "pool_inv p A" and al: "nx_mem_pool_alloc p = (Some x, p')"
  shows "x \<notin> A \<and> pool_inv p' (insert x A)"
proof -
  from al obtain n ns where n: "pool_free_list p = n # ns" "x = n + pool_offset p"
    "p' = p\<lparr>pool_free_list := ns, allocated := allocated p + 1\<rparr>"
    by (auto simp: nx_mem_pool_alloc_def split: list.splits)
  note d = pool_invD [OF inv]
  have x: "x \<notin> A" unfolding d(4) n(2) using n(1) by auto
  have "set (pool_nodes p) - set ns = insert n (set (pool_nodes p) - set (pool_free_list p))"
    using d(2,3) n(1) by auto
  then have "insert x A = (\<lambda>n. n + pool_offset p) ` (set (pool_nodes p) - set ns)"
    unfolding d(4) n(2) by simp
  moreover have "int (card (insert x A)) = allocated p + 1"
    using x d(5) pool_inv_finite [OF inv] by simp
  ultimately show ?thesis using d(1-3) n(1) x unfolding pool_inv_def n(3) by simp
qed

lemma alloc_None: "nx_mem_pool_alloc p = (None, p') \<Longrightarrow> p' = p \<and> pool_free_list p = []"
  by (auto simp: nx_mem_pool_alloc_def split: list.splits)

lemma free_law:
  assumes inv: "pool_inv p A" and x: "x \<in> A"
  shows "\<exists>p'. nx_mem_pool_free p x = Some p' \<and> pool_inv p' (A - {x})"
proof -
  note d = pool_invD [OF inv]
  from x obtain n where n: "n \<in> set (pool_nodes p)" "x = n + pool_offset p"
    "n \<notin> set (pool_free_list p)"
    unfolding d(4) by blast
  have c: "0 < card A" using x pool_inv_finite [OF inv] by (auto simp: card_gt_0_iff)
  have free: "nx_mem_pool_free p x =
      Some (p\<lparr>pool_free_list := pool_free_list p @ [n], allocated := allocated p - 1\<rparr>)"
    using c d(5) n by (simp add: nx_mem_pool_free_def)
  have "A - {x} = (\<lambda>n. n + pool_offset p) ` (set (pool_nodes p) - insert n (set (pool_free_list p)))"
    unfolding d(4) n(2) by auto
  moreover have "int (card (A - {x})) = allocated p - 1"
    using d(5) x c by (simp add: card_Diff_singleton of_nat_diff)
  ultimately
  have "pool_inv (p\<lparr>pool_free_list := pool_free_list p @ [n], allocated := allocated p - 1\<rparr>) (A - {x})"
    using d(1-3) n unfolding pool_inv_def by simp
  with free show ?thesis by blast
qed

text \<open>Creation: the blocks of the pool are exactly those the allocator returned.\<close>

lemma pool_fill_spec:
  "pool_fill mem is p = (r, p') \<Longrightarrow>
   allocated p' = allocated p \<and> pool_offset p' = pool_offset p \<and>
   (\<exists>k \<le> length is. pool_nodes p' = rev (map (\<lambda>i. the (mem i)) (take k is)) @ pool_nodes p \<and>
      pool_free_list p' = rev (map (\<lambda>i. the (mem i)) (take k is)) @ pool_free_list p \<and>
      (\<forall>i \<in> set (take k is). mem i \<noteq> None) \<and>
      (r \<longleftrightarrow> k = length is) \<and> (\<not> r \<longrightarrow> mem (is ! k) = None))"
proof (induction "is" arbitrary: p)
  case Nil
  then show ?case by auto
next
  case (Cons i "is")
  show ?case
  proof (cases "mem i")
    case None
    with Cons.prems show ?thesis by (intro conjI exI [of _ 0]) auto
  next
    case (Some n)
    let ?p = "p\<lparr>pool_free_list := n # pool_free_list p, pool_nodes := n # pool_nodes p\<rparr>"
    from Cons.IH [of ?p] Cons.prems Some obtain k where k: "k \<le> length is"
      "pool_nodes p' = rev (map (\<lambda>i. the (mem i)) (take k is)) @ pool_nodes ?p"
      "pool_free_list p' = rev (map (\<lambda>i. the (mem i)) (take k is)) @ pool_free_list ?p"
      "\<forall>i \<in> set (take k is). mem i \<noteq> None"
      "r \<longleftrightarrow> k = length is" "\<not> r \<longrightarrow> mem (is ! k) = None"
      "allocated p' = allocated p" "pool_offset p' = pool_offset p"
      by auto
    then show ?thesis using Some by (intro conjI exI [of _ "Suc k"]) auto
  qed
qed

lemma create_ok_spec:
  assumes "nx_mem_pool_create mem n sz = Some (0, p, freed)"
    and inj: "inj_on mem {..<n}"
  shows "pool_inv p {} \<and> length (pool_nodes p) = n \<and> freed = []"
proof -
  let ?p = "\<lparr>pool_free_list = [], max_entries = n, entry_size = sz + 24, allocated = 0,
         pool_offset = 24, pool_nodes = []\<rparr>"
  have fill: "pool_fill mem [0..<n] ?p = (True, p)" "freed = []"
    using assms(1)
    by (auto simp: nx_mem_pool_create_def sizeof_pool_node_def NX_MEM_POOL_ALIGNMENT_def
        split: prod.splits bool.splits option.splits)
  from pool_fill_spec [OF fill(1)] have
    nodes: "pool_nodes p = rev (map (\<lambda>i. the (mem i)) [0..<n])"
      "pool_free_list p = rev (map (\<lambda>i. the (mem i)) [0..<n])" "allocated p = 0"
    and ok: "\<forall>i < n. mem i \<noteq> None" by auto
  have "inj_on (\<lambda>i. the (mem i)) {..<n}"
    using inj ok unfolding inj_on_def by (metis lessThan_iff option.expand)
  then have "distinct (map (\<lambda>i. the (mem i)) [0..<n])"
    by (simp add: distinct_map atLeast0LessThan)
  with nodes fill(2) show ?thesis by (simp add: pool_inv_def)
qed

lemma create_fail_spec:
  assumes "nx_mem_pool_create mem n sz = Some (rv, p, freed)" "rv \<noteq> 0"
  shows "rv = - ENOMEM \<and> pool_free_list p = [] \<and>
    (\<exists>k < n. mem k = None \<and> (\<forall>i < k. mem i \<noteq> None) \<and> freed = rev (map (\<lambda>i. the (mem i)) [0..<k]))"
proof -
  let ?p = "\<lparr>pool_free_list = [], max_entries = n, entry_size = sz + 24, allocated = 0,
         pool_offset = 24, pool_nodes = []\<rparr>"
  obtain q where fill: "pool_fill mem [0..<n] ?p = (False, q)"
    and d: "nx_mem_pool_destroy q = Some (p, freed)" "rv = - ENOMEM"
    using assms
    by (auto simp: nx_mem_pool_create_def sizeof_pool_node_def NX_MEM_POOL_ALIGNMENT_def
        split: prod.splits bool.splits option.splits)
  from pool_fill_spec [OF fill] obtain k where k: "k \<le> n" "k \<noteq> n" "mem ([0..<n] ! k) = None"
    "pool_free_list q = rev (map (\<lambda>i. the (mem i)) (take k [0..<n]))"
    "\<forall>i \<in> set (take k [0..<n]). mem i \<noteq> None" by auto
  then have "k < n" "take k [0..<n] = [0..<k]" by simp_all
  with k d show ?thesis by (auto simp: nx_mem_pool_destroy_def split: if_splits)
qed

text \<open>Creation never hits the \<open>BUG()\<close> of the destroy it calls on failure.\<close>

lemma create_no_bug: "nx_mem_pool_create mem n sz \<noteq> None"
proof -
  have "allocated (snd (pool_fill mem is p)) = allocated p" for "is" p
    using pool_fill_spec [of mem "is" p "fst (pool_fill mem is p)" "snd (pool_fill mem is p)"] by simp
  then show ?thesis
    by (auto simp: nx_mem_pool_create_def nx_mem_pool_destroy_def Let_def split: prod.splits bool.splits)
      (metis (no_types, lifting) nx_mem_pool.select_convs(4) snd_conv)
qed

subsection \<open>The contract, and its provider\<close>

datatype pool_op = Alloc | Free nat

text \<open>A client that frees only what it holds: \<open>Free i\<close> gives back the \<open>i\<close>-th block of \<open>out\<close>.\<close>

fun pool_run ::
  "('p \<Rightarrow> 'a option \<times> 'p) \<Rightarrow> ('p \<Rightarrow> 'a \<Rightarrow> 'p option) \<Rightarrow> 'p \<Rightarrow> 'a list \<Rightarrow> pool_op list \<Rightarrow>
   ('a list \<times> 'p) option" where
  "pool_run alloc free p out [] = Some (out, p)"
| "pool_run alloc free p out (Alloc # ops) =
     (case alloc p of
        (None, p') \<Rightarrow> pool_run alloc free p' out ops
      | (Some x, p') \<Rightarrow> pool_run alloc free p' (out @ [x]) ops)"
| "pool_run alloc free p out (Free i # ops) =
     (if i < length out
      then (case free p (out ! i) of
              None \<Rightarrow> None
            | Some p' \<Rightarrow> pool_run alloc free p' (take i out @ drop (Suc i) out) ops)
      else pool_run alloc free p out ops)"

lemma drop_nth_facts:
  assumes "distinct xs" "i < length xs"
  shows "distinct (take i xs @ drop (Suc i) xs)" "set (take i xs @ drop (Suc i) xs) = set xs - {xs ! i}"
proof -
  have xs: "xs = take i xs @ xs ! i # drop (Suc i) xs" using assms(2) by (rule id_take_nth_drop)
  have "distinct (take i xs @ xs ! i # drop (Suc i) xs)" using assms(1) xs by simp
  then show "distinct (take i xs @ drop (Suc i) xs)" by simp
  have "set xs = insert (xs ! i) (set (take i xs @ drop (Suc i) xs))" by (subst xs) auto
  moreover have "xs ! i \<notin> set (take i xs @ drop (Suc i) xs)"
    using \<open>distinct (take i xs @ xs ! i # drop (Suc i) xs)\<close> by simp
  ultimately show "set (take i xs @ drop (Suc i) xs) = set xs - {xs ! i}" by blast
qed

locale block_pool =
  fixes inv :: "'p \<Rightarrow> 'a set \<Rightarrow> bool"
    and alloc :: "'p \<Rightarrow> 'a option \<times> 'p"
    and free :: "'p \<Rightarrow> 'a \<Rightarrow> 'p option"
  assumes alloc_some: "inv p A \<Longrightarrow> alloc p = (Some x, p') \<Longrightarrow> x \<notin> A \<and> inv p' (insert x A)"
    and alloc_none: "alloc p = (None, p') \<Longrightarrow> p' = p"
    and free_some: "inv p A \<Longrightarrow> x \<in> A \<Longrightarrow> \<exists>p'. free p x = Some p' \<and> inv p' (A - {x})"
begin

lemma run_safe:
  "inv p (set out) \<Longrightarrow> distinct out \<Longrightarrow>
   \<exists>out' p'. pool_run alloc free p out ops = Some (out', p') \<and> inv p' (set out') \<and> distinct out'"
proof (induction ops arbitrary: p out)
  case Nil
  then show ?case by simp
next
  case (Cons w ops)
  show ?case
  proof (cases w)
    case Alloc
    obtain r p' where a: "alloc p = (r, p')" by (cases "alloc p")
    show ?thesis
    proof (cases r)
      case None
      with Alloc a alloc_none [of p p'] Cons show ?thesis by simp
    next
      case (Some x)
      with alloc_some [OF Cons.prems(1)] a have "x \<notin> set out" "inv p' (set (out @ [x]))" by auto
      with Cons.IH [of p' "out @ [x]"] Alloc Some a Cons.prems(2) show ?thesis by simp
    qed
  next
    case (Free i)
    show ?thesis
    proof (cases "i < length out")
      case True
      from free_some [OF Cons.prems(1), of "out ! i"] True obtain p' where
        p': "free p (out ! i) = Some p'" "inv p' (set out - {out ! i})" by auto
      note d = drop_nth_facts [OF Cons.prems(2) True]
      from Cons.IH [of p' "take i out @ drop (Suc i) out"] p' d Free True show ?thesis by simp
    next
      case False
      with Free Cons show ?thesis by simp
    qed
  qed
qed

end

interpretation mem_pool: block_pool pool_inv nx_mem_pool_alloc nx_mem_pool_free
proof unfold_locales
  show "pool_inv p A \<Longrightarrow> nx_mem_pool_alloc p = (Some x, p') \<Longrightarrow> x \<notin> A \<and> pool_inv p' (insert x A)"
    for p A x p' by (rule alloc_law)
  show "nx_mem_pool_alloc p = (None, p') \<Longrightarrow> p' = p" for p p' using alloc_None by blast
  show "pool_inv p A \<Longrightarrow> x \<in> A \<Longrightarrow> \<exists>p'. nx_mem_pool_free p x = Some p' \<and> pool_inv p' (A - {x})"
    for p A x by (rule free_law)
qed

subsection \<open>Properties\<close>

text \<open>
  C29 A pool created over distinct memory blocks is a safe allocator: a client that frees only
  what it holds never meets a \<open>BUG()\<close>, never holds a block twice, the counter \<open>allocated\<close> is
  the number it holds, and when it holds nothing the pool can be destroyed.
\<close>

theorem mem_pool_safe:
  assumes "nx_mem_pool_create mem n sz = Some (0, p, freed)" "inj_on mem {..<n}"
  shows "\<exists>out q. pool_run nx_mem_pool_alloc nx_mem_pool_free p [] ops = Some (out, q) \<and>
           distinct out \<and> allocated q = int (length out) \<and>
           (nx_mem_pool_destroy q = None) = (out \<noteq> [])"
proof -
  from create_ok_spec [OF assms] have "pool_inv p (set [])" by simp
  from mem_pool.run_safe [OF this, of ops] obtain out q where
    r: "pool_run nx_mem_pool_alloc nx_mem_pool_free p [] ops = Some (out, q)"
      "pool_inv q (set out)" "distinct out" by auto
  then have "allocated q = int (length out)"
    using pool_invD(5) [OF r(2)] by (simp add: distinct_card)
  with r show ?thesis by (auto simp: nx_mem_pool_destroy_def)
qed

theorem mem_pool_safe_witness:
  "\<exists>p out q. nx_mem_pool_create (\<lambda>i. Some (64 * i)) 2 40 = Some (0, p, []) \<and>
     pool_run nx_mem_pool_alloc nx_mem_pool_free p [] [Alloc, Alloc, Free 0] = Some (out, q) \<and>
     allocated q = int (length out)"
proof -
  have inj: "inj_on (\<lambda>i. Some (64 * i)) {..<2::nat}" by (simp add: inj_on_def)
  obtain p where "nx_mem_pool_create (\<lambda>i. Some (64 * i)) 2 40 = Some (0, p, [])"
    by (simp add: nx_mem_pool_create_def numeral_2_eq_2 Let_def)
  with mem_pool_safe [OF this inj, of "[Alloc, Alloc, Free 0]"] show ?thesis by blast
qed

text \<open>
  When pool creation fails it leaks nothing: it stops at the first allocation that fails,
  and frees exactly the blocks allocated before it, each once.
\<close>

theorem mem_pool_create_no_leak:
  assumes "nx_mem_pool_create mem n sz = Some (rv, p, freed)" "rv \<noteq> 0"
  shows "rv = - ENOMEM \<and> pool_free_list p = [] \<and>
    (\<exists>k < n. mem k = None \<and> freed = rev (map (\<lambda>i. the (mem i)) [0..<k]) \<and>
       (\<forall>i < k. mem i \<noteq> None))"
  using create_fail_spec [OF assms] by blast

theorem mem_pool_create_no_leak_witness:
  "\<exists>p. nx_mem_pool_create (\<lambda>i. if i < 2 then Some (64 * i) else None) 5 40 = Some (- ENOMEM, p, [64, 0]) \<and>
       pool_free_list p = []"
proof -
  obtain p where "nx_mem_pool_create (\<lambda>i. if i < 2 then Some (64 * i) else None) 5 40 =
      Some (- ENOMEM, p, [64, 0])"
    by (simp add: nx_mem_pool_create_def upt_rec nx_mem_pool_destroy_def Let_def)
  with mem_pool_create_no_leak [OF this] show ?thesis by simp
qed

end
