(* ===== verification/TxPending.thy ===== *)
theory TxPending
  imports Prelude
begin

text \<open>
  The pending-command queue of the transmit side (\<open>unm_pending_cmd_descs_t\<close> of
  \<open>driver/unm_nic.h\<close> and its operations in \<open>driver/unm_nic_main.c\<close>). Commands that find no
  room in the hardware ring are parked in blocks of 64: full blocks on \<open>cmd_list\<close>, the block
  being filled in \<open>curr_block\<close>, spare blocks on \<open>free_list\<close>. The queue promises to be a FIFO:
  \<open>pend_contents\<close> is the abstract list, and the operations append to it and take from its
  front. A block is owned by exactly one of the three places, so blocks are passed by value.
\<close>

subsection \<open>Data\<close>

text \<open>\<open>cmdDescType0_t\<close> as the eight 64-bit words the driver copies; \<open>word7\<close> is its \<open>unused\<close> field.\<close>

record cmd_desc =
  word0 :: u64
  word1 :: u64
  word2 :: u64
  word3 :: u64
  word4 :: u64
  word5 :: u64
  word6 :: u64
  word7 :: u64

definition MAX_PENDING_DESC_BLOCK_SIZE :: nat where
  "MAX_PENDING_DESC_BLOCK_SIZE = 64"

record pend_block =
  blk_cnt :: nat
  blk_cmd :: "cmd_desc list"

record pending =
  pend_cnt :: nat
  free_list :: "pend_block list"
  cmd_list :: "pend_block list"
  curr_block :: "pend_block option"

subsection \<open>Operations\<close>

definition unm_init_pending_cmd_desc :: "pending \<Rightarrow> pending" where
  "unm_init_pending_cmd_desc p =
     p\<lparr>free_list := [], cmd_list := [], curr_block := None, pend_cnt := 0\<rparr>"

text \<open>The blocks passed to \<open>kfree\<close> are the second component, in the order they are freed.\<close>

definition unm_destroy_pending_cmd_desc :: "pending \<Rightarrow> pending \<times> pend_block list" where
  "unm_destroy_pending_cmd_desc p =
     (p\<lparr>free_list := [], cmd_list := [], curr_block := None, pend_cnt := 0\<rparr>,
      (case curr_block p of None \<Rightarrow> [] | Some b \<Rightarrow> [b]) @ free_list p @ cmd_list p)"

text \<open>
  \<open>kmalloc\<close> of a block: the argument is what the allocator returns, a block with whatever
  contents or nothing.
\<close>

definition nx_alloc_pend_cmd_desc_block :: "pend_block option \<Rightarrow> pend_block option" where
  "nx_alloc_pend_cmd_desc_block mem = mem"

definition unm_free_pend_cmd_desc_block :: "pending \<Rightarrow> pend_block \<Rightarrow> pending" where
  "unm_free_pend_cmd_desc_block p b = p\<lparr>free_list := free_list p @ [b\<lparr>blk_cnt := 0\<rparr>]\<rparr>"

definition unm_dequeue_pending_cmd_desc :: "pending \<Rightarrow> nat \<Rightarrow> (pend_block \<times> pending) option" where
  "unm_dequeue_pending_cmd_desc p len =
     (case cmd_list p of
        b # bs \<Rightarrow>
          if len < MAX_PENDING_DESC_BLOCK_SIZE then None
          else Some (b, p\<lparr>cmd_list := bs, pend_cnt := pend_cnt p - blk_cnt b\<rparr>)
      | [] \<Rightarrow>
          (case curr_block p of
             None \<Rightarrow> None
           | Some b \<Rightarrow>
               if len < blk_cnt b then None
               else Some (b, p\<lparr>curr_block := None, pend_cnt := pend_cnt p - blk_cnt b\<rparr>)))"

text \<open>\<open>nx_queue_pend_cmd_desc\<close> after it has chosen the block to fill.\<close>

definition fill_block :: "pending \<Rightarrow> pend_block \<Rightarrow> cmd_desc \<Rightarrow> pending" where
  "fill_block p b d =
     (let b' = b\<lparr>blk_cmd := (blk_cmd b)[blk_cnt b := d], blk_cnt := blk_cnt b + 1\<rparr>
      in if blk_cnt b' = MAX_PENDING_DESC_BLOCK_SIZE
         then p\<lparr>cmd_list := cmd_list p @ [b'], curr_block := None, pend_cnt := pend_cnt p + 1\<rparr>
         else p\<lparr>curr_block := Some b', pend_cnt := pend_cnt p + 1\<rparr>)"

definition nx_queue_pend_cmd_desc :: "pending \<Rightarrow> cmd_desc \<Rightarrow> pending" where
  "nx_queue_pend_cmd_desc p d =
     (case curr_block p of
        Some b \<Rightarrow> fill_block p b d
      | None \<Rightarrow>
          (case free_list p of
             b # bs \<Rightarrow> fill_block (p\<lparr>free_list := bs\<rparr>) (b\<lparr>blk_cnt := 0\<rparr>) d
           | [] \<Rightarrow> p))"

text \<open>
  \<open>cnt\<close> is at most 64 at the only caller, so the C subtraction \<open>64 - cnt\<close> does not wrap.
\<close>

definition nx_make_available_pend_cmd_desc ::
  "pend_block option \<Rightarrow> pending \<Rightarrow> nat \<Rightarrow> int \<times> pending" where
  "nx_make_available_pend_cmd_desc mem p cnt =
     (if (case curr_block p of None \<Rightarrow> False
          | Some b \<Rightarrow> blk_cnt b \<le> MAX_PENDING_DESC_BLOCK_SIZE - cnt) then (0, p)
      else if free_list p \<noteq> [] then (0, p)
      else (case nx_alloc_pend_cmd_desc_block mem of
              Some b \<Rightarrow> (0, unm_free_pend_cmd_desc_block p b)
            | None \<Rightarrow> (- ENOMEM, p)))"

fun nx_queue_all :: "pending \<Rightarrow> cmd_desc list \<Rightarrow> pending" where
  "nx_queue_all p [] = p"
| "nx_queue_all p (d # ds) = nx_queue_all (nx_queue_pend_cmd_desc p d) ds"

definition nx_queue_pend_cmd_desc_list ::
  "pend_block option \<Rightarrow> pending \<Rightarrow> cmd_desc list \<Rightarrow> int \<times> pending" where
  "nx_queue_pend_cmd_desc_list mem p ds =
     (case nx_make_available_pend_cmd_desc mem p (length ds) of
        (rv, p') \<Rightarrow> if rv \<noteq> 0 then (rv, p') else (0, nx_queue_all p' ds))"

definition unm_get_pending_cmd_desc_cnt :: "pending \<Rightarrow> nat" where
  "unm_get_pending_cmd_desc_cnt p = pend_cnt p"

subsection \<open>The abstract queue and the representation invariant\<close>

definition blk_contents :: "pend_block \<Rightarrow> cmd_desc list" where
  "blk_contents b = take (blk_cnt b) (blk_cmd b)"

definition pend_contents :: "pending \<Rightarrow> cmd_desc list" where
  "pend_contents p =
     concat (map blk_contents (cmd_list p)) @
     (case curr_block p of None \<Rightarrow> [] | Some b \<Rightarrow> blk_contents b)"

text \<open>Every block is a 64-entry array; listed blocks are full, the current one is neither
  empty nor full, and the counter counts what is queued.\<close>

definition blk_array :: "pend_block \<Rightarrow> bool" where
  "blk_array b \<longleftrightarrow> length (blk_cmd b) = MAX_PENDING_DESC_BLOCK_SIZE"

definition pend_inv :: "pending \<Rightarrow> bool" where
  "pend_inv p \<longleftrightarrow>
     (\<forall>b \<in> set (free_list p). blk_array b) \<and>
     (\<forall>b \<in> set (cmd_list p). blk_array b \<and> blk_cnt b = MAX_PENDING_DESC_BLOCK_SIZE) \<and>
     (case curr_block p of None \<Rightarrow> True
      | Some b \<Rightarrow> blk_array b \<and> 0 < blk_cnt b \<and> blk_cnt b < MAX_PENDING_DESC_BLOCK_SIZE) \<and>
     pend_cnt p = length (pend_contents p)"

lemmas pending_defs =
  pend_inv_def pend_contents_def blk_contents_def blk_array_def MAX_PENDING_DESC_BLOCK_SIZE_def

text \<open>Blocks waiting to be reused can take how many more commands without an allocation.\<close>

definition pend_room :: "pending \<Rightarrow> nat" where
  "pend_room p =
     (case curr_block p of None \<Rightarrow> 0 | Some b \<Rightarrow> MAX_PENDING_DESC_BLOCK_SIZE - blk_cnt b) +
     MAX_PENDING_DESC_BLOCK_SIZE * length (free_list p)"

subsection \<open>Lemmas\<close>

lemma pend_inv_init: "pend_inv (unm_init_pending_cmd_desc p)"
  by (simp add: unm_init_pending_cmd_desc_def pending_defs)

lemma pend_contents_init: "pend_contents (unm_init_pending_cmd_desc p) = []"
  by (simp add: unm_init_pending_cmd_desc_def pending_defs)

lemma take_Suc_update:
  "i < length xs \<Longrightarrow> take (Suc i) (xs[i := x]) = take i xs @ [x]"
  by (simp add: take_Suc_conv_app_nth)

lemma blk_contents_put:
  "blk_array b \<Longrightarrow> blk_cnt b < MAX_PENDING_DESC_BLOCK_SIZE \<Longrightarrow>
   blk_contents (b\<lparr>blk_cmd := (blk_cmd b)[blk_cnt b := d], blk_cnt := Suc (blk_cnt b)\<rparr>) =
   blk_contents b @ [d]"
  by (simp add: blk_contents_def blk_array_def take_Suc_update)

text \<open>Filling a block with room, in place of the current one, appends one command.\<close>

lemma fill_block_step:
  assumes "\<forall>b \<in> set (free_list p). blk_array b"
    and "\<forall>b \<in> set (cmd_list p). blk_array b \<and> blk_cnt b = MAX_PENDING_DESC_BLOCK_SIZE"
    and "blk_array b" "blk_cnt b < MAX_PENDING_DESC_BLOCK_SIZE"
    and cnt: "pend_cnt p = length (concat (map blk_contents (cmd_list p)) @ blk_contents b)"
  shows "pend_inv (fill_block p b d)"
    and "pend_contents (fill_block p b d) =
         concat (map blk_contents (cmd_list p)) @ blk_contents b @ [d]"
    and "pend_room (fill_block p b d) =
         MAX_PENDING_DESC_BLOCK_SIZE - blk_cnt b - 1 +
         MAX_PENDING_DESC_BLOCK_SIZE * length (free_list p)"
proof -
  show c: "pend_contents (fill_block p b d) =
         concat (map blk_contents (cmd_list p)) @ blk_contents b @ [d]"
    using blk_contents_put [OF assms(3,4), of d]
    by (auto simp: fill_block_def Let_def pend_contents_def)
  have "pend_cnt (fill_block p b d) = Suc (pend_cnt p)"
    by (simp add: fill_block_def Let_def)
  with c cnt have "pend_cnt (fill_block p b d) = length (pend_contents (fill_block p b d))"
    by simp
  with assms(1-4) show "pend_inv (fill_block p b d)"
    by (auto simp: pend_inv_def fill_block_def Let_def blk_array_def)
  show "pend_room (fill_block p b d) =
         MAX_PENDING_DESC_BLOCK_SIZE - blk_cnt b - 1 +
         MAX_PENDING_DESC_BLOCK_SIZE * length (free_list p)"
    using assms(4) by (auto simp: pend_room_def fill_block_def Let_def)
qed

lemma queue_step:
  assumes inv: "pend_inv p" and room: "0 < pend_room p"
  shows "pend_inv (nx_queue_pend_cmd_desc p d)"
    and "pend_contents (nx_queue_pend_cmd_desc p d) = pend_contents p @ [d]"
    and "pend_room (nx_queue_pend_cmd_desc p d) = pend_room p - 1"
proof -
  have "pend_inv (nx_queue_pend_cmd_desc p d) \<and>
        pend_contents (nx_queue_pend_cmd_desc p d) = pend_contents p @ [d] \<and>
        pend_room (nx_queue_pend_cmd_desc p d) = pend_room p - 1"
  proof (cases "curr_block p")
    case (Some b)
    from inv Some have
      "\<forall>b \<in> set (free_list p). blk_array b"
      "\<forall>b \<in> set (cmd_list p). blk_array b \<and> blk_cnt b = MAX_PENDING_DESC_BLOCK_SIZE"
      "blk_array b" "blk_cnt b < MAX_PENDING_DESC_BLOCK_SIZE"
      "pend_cnt p = length (concat (map blk_contents (cmd_list p)) @ blk_contents b)"
      by (auto simp: pend_inv_def pend_contents_def)
    note step = fill_block_step [OF this, of d]
    have "pend_room p = MAX_PENDING_DESC_BLOCK_SIZE - blk_cnt b +
          MAX_PENDING_DESC_BLOCK_SIZE * length (free_list p)"
      using Some by (simp add: pend_room_def)
    with Some step \<open>blk_cnt b < MAX_PENDING_DESC_BLOCK_SIZE\<close> show ?thesis
      by (simp add: nx_queue_pend_cmd_desc_def pend_contents_def [of p])
  next
    case None
    with room obtain b bs where fl: "free_list p = b # bs"
      by (cases "free_list p") (auto simp: pend_room_def)
    let ?p = "p\<lparr>free_list := bs\<rparr>" and ?b = "b\<lparr>blk_cnt := 0\<rparr>"
    from inv None fl have
      "\<forall>b \<in> set (free_list ?p). blk_array b"
      "\<forall>b \<in> set (cmd_list ?p). blk_array b \<and> blk_cnt b = MAX_PENDING_DESC_BLOCK_SIZE"
      "blk_array ?b" "blk_cnt ?b < MAX_PENDING_DESC_BLOCK_SIZE"
      "pend_cnt ?p = length (concat (map blk_contents (cmd_list ?p)) @ blk_contents ?b)"
      by (auto simp: pend_inv_def pend_contents_def blk_array_def blk_contents_def
            MAX_PENDING_DESC_BLOCK_SIZE_def)
    note step = fill_block_step [OF this, of d]
    with None fl show ?thesis
      by (auto simp: nx_queue_pend_cmd_desc_def pend_contents_def pend_room_def
            blk_contents_def MAX_PENDING_DESC_BLOCK_SIZE_def)
  qed
  then show "pend_inv (nx_queue_pend_cmd_desc p d)"
    and "pend_contents (nx_queue_pend_cmd_desc p d) = pend_contents p @ [d]"
    and "pend_room (nx_queue_pend_cmd_desc p d) = pend_room p - 1"
    by simp_all
qed

lemma queue_all_step:
  "pend_inv p \<Longrightarrow> length ds \<le> pend_room p \<Longrightarrow>
   pend_inv (nx_queue_all p ds) \<and> pend_contents (nx_queue_all p ds) = pend_contents p @ ds"
proof (induction ds arbitrary: p)
  case Nil
  then show ?case by simp
next
  case (Cons d ds)
  from Cons.prems have "0 < pend_room p" by simp
  note q = queue_step [OF Cons.prems(1) this, of d]
  from Cons.prems q(3) have "length ds \<le> pend_room (nx_queue_pend_cmd_desc p d)" by simp
  from Cons.IH [OF q(1) this] q(2) show ?case by simp
qed

lemma free_block_inv:
  "pend_inv p \<Longrightarrow> blk_array b \<Longrightarrow> pend_inv (unm_free_pend_cmd_desc_block p b)"
  by (auto simp: pend_inv_def unm_free_pend_cmd_desc_block_def pend_contents_def blk_array_def)

lemma free_block_contents [simp]:
  "pend_contents (unm_free_pend_cmd_desc_block p b) = pend_contents p"
  by (simp add: pend_contents_def unm_free_pend_cmd_desc_block_def)

lemma free_room:
  "pend_room (unm_free_pend_cmd_desc_block p b) = pend_room p + MAX_PENDING_DESC_BLOCK_SIZE"
  by (simp add: pend_room_def unm_free_pend_cmd_desc_block_def)

lemma room_curr: "curr_block p = Some b \<Longrightarrow> MAX_PENDING_DESC_BLOCK_SIZE - blk_cnt b \<le> pend_room p"
  by (simp add: pend_room_def)

lemma room_free: "free_list p = b # bs \<Longrightarrow> MAX_PENDING_DESC_BLOCK_SIZE \<le> pend_room p"
  by (simp add: pend_room_def)

text \<open>After a successful reservation the commands of one request fit.\<close>

lemma make_available_room:
  assumes "pend_inv p" "n \<le> MAX_PENDING_DESC_BLOCK_SIZE"
    and "\<forall>b. mem = Some b \<longrightarrow> blk_array b"
    and "nx_make_available_pend_cmd_desc mem p n = (rv, p')"
  shows "pend_inv p' \<and> pend_contents p' = pend_contents p \<and>
         (rv = 0 \<and> n \<le> pend_room p' \<or> rv = - ENOMEM \<and> p' = p)"
  using assms
  using free_block_inv [of p]
  by (auto simp: nx_make_available_pend_cmd_desc_def nx_alloc_pend_cmd_desc_block_def
        free_room neq_Nil_conv split: if_splits option.splits dest!: room_curr room_free)

lemma queue_list_spec:
  assumes "pend_inv p" "length ds \<le> MAX_PENDING_DESC_BLOCK_SIZE"
    and "\<forall>b. mem = Some b \<longrightarrow> blk_array b"
    and "nx_queue_pend_cmd_desc_list mem p ds = (rv, p')"
  shows "pend_inv p' \<and>
         (rv = 0 \<and> pend_contents p' = pend_contents p @ ds \<or> rv = - ENOMEM \<and> p' = p)"
proof -
  obtain r q where m: "nx_make_available_pend_cmd_desc mem p (length ds) = (r, q)"
    by (cases "nx_make_available_pend_cmd_desc mem p (length ds)")
  note s = make_available_room [OF assms(1-3) m]
  from assms(4) m s queue_all_step [of q ds] show ?thesis
    by (auto simp: nx_queue_pend_cmd_desc_list_def split: if_splits)
qed

lemma dequeue_spec:
  assumes "pend_inv p" "unm_dequeue_pending_cmd_desc p len = Some (b, p')"
  shows "pend_inv p' \<and> blk_array b \<and> 0 < blk_cnt b \<and> blk_cnt b \<le> len \<and>
         blk_cnt b \<le> MAX_PENDING_DESC_BLOCK_SIZE \<and>
         pend_contents p = blk_contents b @ pend_contents p'"
  using assms
  by (auto simp: unm_dequeue_pending_cmd_desc_def pending_defs split: list.splits option.splits if_splits)

text \<open>Nothing is taken only when there is nothing, or not room for a block.\<close>

lemma dequeue_None:
  assumes "pend_inv p" "unm_dequeue_pending_cmd_desc p len = None"
  shows "pend_contents p = [] \<or> len < MAX_PENDING_DESC_BLOCK_SIZE"
  using assms
  by (auto simp: unm_dequeue_pending_cmd_desc_def pending_defs split: list.splits option.splits if_splits)

subsection \<open>The queue as a client sees it\<close>

text \<open>
  The contract of a bounded-batch FIFO: submitting a batch either appends it or refuses it
  and leaves the queue's contents alone, taking returns a nonempty prefix. \<open>ok\<close> is what the
  memory a submission is given must satisfy.
\<close>

datatype ('m, 'a) fifo_op = Enq 'm "'a list" | Deq nat

text \<open>A run's result: accepted and delivered elements, in order, and the final queue.\<close>

fun fifo_run ::
  "('m \<Rightarrow> 'q \<Rightarrow> 'a list \<Rightarrow> int \<times> 'q) \<Rightarrow> ('q \<Rightarrow> nat \<Rightarrow> ('a list \<times> 'q) option) \<Rightarrow>
   'q \<Rightarrow> ('m, 'a) fifo_op list \<Rightarrow> 'a list \<times> 'a list \<times> 'q" where
  "fifo_run enq deq q [] = ([], [], q)"
| "fifo_run enq deq q (Enq m xs # ops) =
     (case enq m q xs of
        (rv, q') \<Rightarrow>
          (case fifo_run enq deq q' ops of
             (acc, del, r) \<Rightarrow> ((if rv = 0 then xs else []) @ acc, del, r)))"
| "fifo_run enq deq q (Deq n # ops) =
     (case deq q n of
        None \<Rightarrow> fifo_run enq deq q ops
      | Some (xs, q') \<Rightarrow>
          (case fifo_run enq deq q' ops of (acc, del, r) \<Rightarrow> (acc, xs @ del, r)))"

text \<open>The operations a client may issue: batches within the limit, memory as promised.\<close>

definition fifo_op_ok :: "('m \<Rightarrow> bool) \<Rightarrow> nat \<Rightarrow> ('m, 'a) fifo_op \<Rightarrow> bool" where
  "fifo_op_ok ok limit w = (case w of Enq m xs \<Rightarrow> ok m \<and> length xs \<le> limit | Deq n \<Rightarrow> True)"

locale fifo =
  fixes inv :: "'q \<Rightarrow> bool"
    and contents :: "'q \<Rightarrow> 'a list"
    and limit :: nat
    and ok :: "'m \<Rightarrow> bool"
    and enq :: "'m \<Rightarrow> 'q \<Rightarrow> 'a list \<Rightarrow> int \<times> 'q"
    and deq :: "'q \<Rightarrow> nat \<Rightarrow> ('a list \<times> 'q) option"
  assumes enq_law: "inv q \<Longrightarrow> length xs \<le> limit \<Longrightarrow> ok m \<Longrightarrow> enq m q xs = (rv, q') \<Longrightarrow>
      inv q' \<and> (rv = 0 \<and> contents q' = contents q @ xs \<or> rv < 0 \<and> contents q' = contents q)"
    and deq_law: "inv q \<Longrightarrow> deq q n = Some (xs, q') \<Longrightarrow>
      inv q' \<and> xs \<noteq> [] \<and> length xs \<le> n \<and> contents q = xs @ contents q'"
begin

lemma run_fifo:
  "inv q \<Longrightarrow> \<forall>w \<in> set ops. fifo_op_ok ok limit w \<Longrightarrow> fifo_run enq deq q ops = (acc, del, r) \<Longrightarrow>
   inv r \<and> contents q @ acc = del @ contents r"
proof (induction ops arbitrary: q acc del r)
  case Nil
  then show ?case by simp
next
  case (Cons w ops)
  show ?case
  proof (cases w)
    case (Enq m xs)
    obtain rv q' where e: "enq m q xs = (rv, q')" by (cases "enq m q xs")
    obtain acc' where run: "fifo_run enq deq q' ops = (acc', del, r)"
      and acc: "acc = (if rv = 0 then xs else []) @ acc'"
      using Cons.prems(3) Enq e by (auto split: prod.splits)
    have law: "inv q' \<and> (rv = 0 \<and> contents q' = contents q @ xs \<or> rv < 0 \<and> contents q' = contents q)"
      using enq_law [OF Cons.prems(1) _ _ e] Cons.prems(2) Enq by (auto simp: fifo_op_ok_def)
    with Cons.IH [OF _ _ run] Cons.prems(2) acc show ?thesis by auto
  next
    case (Deq n)
    show ?thesis
    proof (cases "deq q n")
      case None
      with Cons Deq show ?thesis by simp
    next
      case (Some y)
      obtain xs q' where y: "y = (xs, q')" by (cases y)
      obtain del' where run: "fifo_run enq deq q' ops = (acc, del', r)" and del: "del = xs @ del'"
        using Cons.prems(3) Deq Some y by (auto split: prod.splits)
      from deq_law [OF Cons.prems(1) Some [unfolded y]] Cons.IH [OF _ _ run] Cons.prems(2) del
      show ?thesis by auto
    qed
  qed
qed

end

text \<open>
  The pending queue provides the contract: submission is \<open>nx_queue_pend_cmd_desc_list\<close>, taking
  is dequeuing a block, copying its commands and handing the block back.
\<close>

definition pend_take :: "pending \<Rightarrow> nat \<Rightarrow> (cmd_desc list \<times> pending) option" where
  "pend_take p len =
     map_option (\<lambda>(b, p'). (blk_contents b, unm_free_pend_cmd_desc_block p' b))
       (unm_dequeue_pending_cmd_desc p len)"

definition pend_mem_ok :: "pend_block option \<Rightarrow> bool" where
  "pend_mem_ok mem \<longleftrightarrow> (\<forall>b. mem = Some b \<longrightarrow> blk_array b)"

interpretation pend_fifo: fifo pend_inv pend_contents MAX_PENDING_DESC_BLOCK_SIZE
  pend_mem_ok nx_queue_pend_cmd_desc_list pend_take
proof unfold_locales
  fix q xs m rv q'
  assume "pend_inv q" "length xs \<le> MAX_PENDING_DESC_BLOCK_SIZE" "pend_mem_ok m"
    "nx_queue_pend_cmd_desc_list m q xs = (rv, q')"
  from queue_list_spec [OF this [unfolded pend_mem_ok_def]] \<open>pend_inv q\<close>
  show "pend_inv q' \<and> (rv = 0 \<and> pend_contents q' = pend_contents q @ xs \<or>
          rv < 0 \<and> pend_contents q' = pend_contents q)" by auto
next
  fix q n xs q'
  assume q: "pend_inv q" and t: "pend_take q n = Some (xs, q')"
  from t obtain b p where b: "unm_dequeue_pending_cmd_desc q n = Some (b, p)"
    "xs = blk_contents b" "q' = unm_free_pend_cmd_desc_block p b"
    by (auto simp: pend_take_def)
  from dequeue_spec [OF q b(1)] b(2,3) free_block_inv [of p b]
  show "pend_inv q' \<and> xs \<noteq> [] \<and> length xs \<le> n \<and> pend_contents q = xs @ pend_contents q'"
    by (auto simp: blk_contents_def blk_array_def)
qed

subsection \<open>Properties\<close>

text \<open>
  C26 The pending queue is a FIFO for every sequence of submissions (each of at most 64 commands,
  with any allocator outcome) and dequeues, from the initial state on: what was accepted is
  what was delivered followed by what is still queued, in order; a refused submission
  contributes nothing.
\<close>

theorem pending_queue_fifo:
  "\<forall>w \<in> set ops. fifo_op_ok pend_mem_ok MAX_PENDING_DESC_BLOCK_SIZE w \<Longrightarrow>
   fifo_run nx_queue_pend_cmd_desc_list pend_take (unm_init_pending_cmd_desc p) ops = (acc, del, r) \<Longrightarrow>
   pend_inv r \<and> acc = del @ pend_contents r"
  using pend_fifo.run_fifo [OF pend_inv_init, of ops p acc del r] by (simp add: pend_contents_init)

definition zero_desc :: cmd_desc where
  "zero_desc = \<lparr>word0 = 0, word1 = 0, word2 = 0, word3 = 0, word4 = 0, word5 = 0, word6 = 0, word7 = 0\<rparr>"

definition zero_block :: pend_block where
  "zero_block = \<lparr>blk_cnt = 0, blk_cmd = replicate 64 zero_desc\<rparr>"

theorem pending_queue_fifo_witness:
  "\<exists>r. pend_inv r \<and> [zero_desc] = [zero_desc] @ pend_contents r"
proof -
  let ?ops = "[Enq None [zero_desc], Enq (Some zero_block) [zero_desc], Deq 64]"
  let ?p = "\<lparr>pend_cnt = 0, free_list = [], cmd_list = [], curr_block = None\<rparr>"
  have ok: "\<forall>w \<in> set ?ops. fifo_op_ok pend_mem_ok MAX_PENDING_DESC_BLOCK_SIZE w"
    by (auto simp: pend_mem_ok_def fifo_op_ok_def zero_block_def blk_array_def MAX_PENDING_DESC_BLOCK_SIZE_def)
  obtain r where "fifo_run nx_queue_pend_cmd_desc_list pend_take (unm_init_pending_cmd_desc ?p) ?ops =
      ([zero_desc], [zero_desc], r)"
    by (simp add: unm_init_pending_cmd_desc_def nx_queue_pend_cmd_desc_list_def
        nx_make_available_pend_cmd_desc_def nx_alloc_pend_cmd_desc_block_def
        unm_free_pend_cmd_desc_block_def nx_queue_pend_cmd_desc_def fill_block_def Let_def
        MAX_PENDING_DESC_BLOCK_SIZE_def zero_block_def pend_take_def
        unm_dequeue_pending_cmd_desc_def blk_contents_def take_Suc_update)
  from pending_queue_fifo [OF ok this] show ?thesis by blast
qed

end
