(* ===== verification/TxRing.thy ===== *)
theory TxRing
  imports TxPending
begin

text \<open>
  The transmit command ring of an adapter (\<open>driver/unm_nic_main.c\<close>): posting command
  descriptors (\<open>nx_nic_send_cmd_descs\<close>), draining the pending queue into the ring
  (\<open>unm_proc_pending_cmd_desc\<close>) and reclaiming completed slots (\<open>unm_process_cmd_ring\<close>).
  The abstract state is the stream of commands accepted and not yet completed: what is in the
  ring between consumer and producer, followed by what is parked in the pending queue.

  Ring indices and counts are \<^typ>\<open>nat\<close>: the C values are below \<open>MaxTxDescCount\<close> (at most
  1024), sums of two of them do not reach \<open>2 ^ 32\<close>, and every C subtraction on them is of a
  smaller from a larger value, which \<open>ring_inv\<close> makes a fact.
\<close>

subsection \<open>Data\<close>

record skb_frag =
  frag_dma :: u64
  frag_length :: u32

text \<open>\<open>struct unm_cmd_buffer\<close>; \<open>skb\<close> is the socket buffer's address, \<^const>\<open>None\<close> for NULL.\<close>

record cmd_buffer =
  cb_skb :: "nat option"
  fragArray :: "skb_frag list"
  cb_totalLength :: u32
  cb_mss :: u32
  cb_port :: u16
  cb_cmd :: u8
  cb_fragCount :: nat

text \<open>What reclaiming a slot does outside the adapter: DMA unmapping and freeing packets.\<close>

datatype tx_event = Unmap_single u64 u32 | Unmap_page u64 u32 | Free_skb nat

record tx_adapter =
  cmdProducer :: nat
  lastCmdConsumer :: nat
  MaxTxDescCount :: nat
  cmd_buf_arr :: "cmd_buffer list option"
  cmdDescHead :: "cmd_desc list"
  pending_cmds :: pending
  crb_addr_cmd_producer :: u64
  reg_writes :: "(u64 \<times> nat) list"
  xmitfinished :: u64
  queue_stopped :: bool
  tx_running :: bool
  tx_timeout_count :: u32
  tx_events :: "tx_event list"

definition get_next_index :: "nat \<Rightarrow> nat \<Rightarrow> nat" where
  "get_next_index index len = (if index + 1 = len then 0 else index + 1)"

definition MAX_STATUS_HANDLE :: nat where
  "MAX_STATUS_HANDLE = 128"

definition PEGNET_REQUEST :: u8 where
  "PEGNET_REQUEST = 0x11"

subsection \<open>Posting commands\<close>

definition unm_nic_update_cmd_producer :: "tx_adapter \<Rightarrow> nat \<Rightarrow> tx_adapter" where
  "unm_nic_update_cmd_producer a p =
     (if crb_addr_cmd_producer a \<noteq> 0
      then a\<lparr>reg_writes := reg_writes a @ [(crb_addr_cmd_producer a, p)]\<rparr> else a)"

text \<open>The free-space test, which keeps one slot empty.\<close>

definition ring_full :: "tx_adapter \<Rightarrow> nat \<Rightarrow> bool" where
  "ring_full a n \<longleftrightarrow>
     cmdProducer a + n \<ge>
       (if lastCmdConsumer a \<le> cmdProducer a then lastCmdConsumer a + MaxTxDescCount a
        else lastCmdConsumer a)"

text \<open>One turn of the posting loop: reset the software buffer and copy the descriptor.\<close>

definition post_slot :: "u8 \<Rightarrow> tx_adapter \<Rightarrow> nat \<Rightarrow> cmd_desc \<Rightarrow> tx_adapter" where
  "post_slot c a i d =
     a\<lparr>cmd_buf_arr := map_option (\<lambda>bufs. bufs[i := (bufs ! i)\<lparr>cb_mss := 0, cb_totalLength := 0,
           cb_skb := None, cb_cmd := c, cb_fragCount := 0, cb_port := 0\<rparr>]) (cmd_buf_arr a),
       cmdDescHead := (cmdDescHead a)[i := d]\<rparr>"

fun post_descs :: "u8 \<Rightarrow> tx_adapter \<Rightarrow> nat \<Rightarrow> cmd_desc list \<Rightarrow> tx_adapter \<times> nat" where
  "post_descs c a i [] = (a, i)"
| "post_descs c a i (d # ds) =
     post_descs c (post_slot c a i d) (get_next_index i (MaxTxDescCount a)) ds"

text \<open>
  \<open>cmd_desc_arr\<close> with \<open>nr_elements\<close> is the list of the array's first \<open>nr_elements\<close> entries.
  \<open>mem\<close> is what \<open>kmalloc\<close> would return for a pending block.
\<close>

definition nx_nic_send_cmd_descs ::
  "pend_block option \<Rightarrow> tx_adapter \<Rightarrow> cmd_desc list \<Rightarrow> int \<times> tx_adapter" where
  "nx_nic_send_cmd_descs mem a ds =
     (if cmd_buf_arr a = None then (- 1, a)
      else if length ds > MAX_PENDING_DESC_BLOCK_SIZE \<or> length ds = 0 then (- EINVAL, a)
      else if unm_get_pending_cmd_desc_cnt (pending_cmds a) \<noteq> 0 \<or> ring_full a (length ds) then
        (case nx_queue_pend_cmd_desc_list mem (pending_cmds a) ds of
           (rv, p) \<Rightarrow> (rv, a\<lparr>pending_cmds := p\<rparr>))
      else
        (case post_descs 0 a (cmdProducer a) ds of
           (a', producer) \<Rightarrow>
             (0, unm_nic_update_cmd_producer (a'\<lparr>cmdProducer := producer\<rparr>) producer)))"

subsection \<open>Draining the pending queue\<close>

text \<open>The free slots of the ring, as \<open>unm_proc_pending_cmd_desc\<close> computes them.\<close>

definition ring_space :: "tx_adapter \<Rightarrow> nat" where
  "ring_space a =
     (let producer = cmdProducer a; consumer = lastCmdConsumer a in
      if producer = consumer then MaxTxDescCount a - 1
      else if producer > consumer then MaxTxDescCount a - producer + consumer - 1
      else consumer - producer - 1)"

lemma dequeue_decreases:
  "unm_dequeue_pending_cmd_desc p len = Some (b, p') \<Longrightarrow>
   length (cmd_list p') + (if curr_block p' = None then 0 else 1) <
   length (cmd_list p) + (if curr_block p = None then 0 else 1)"
  by (auto simp: unm_dequeue_pending_cmd_desc_def split: list.splits option.splits if_splits)

function drain_pending :: "tx_adapter \<Rightarrow> nat \<Rightarrow> nat \<Rightarrow> tx_adapter \<times> nat" where
  "drain_pending a producer len =
     (if len = 0 then (a, producer)
      else (case unm_dequeue_pending_cmd_desc (pending_cmds a) len of
              None \<Rightarrow> (a, producer)
            | Some (b, p) \<Rightarrow>
                (case post_descs PEGNET_REQUEST a producer (take (blk_cnt b) (blk_cmd b)) of
                   (a', producer') \<Rightarrow>
                     drain_pending (a'\<lparr>pending_cmds := unm_free_pend_cmd_desc_block p b\<rparr>)
                       producer' (len - blk_cnt b))))"
  by pat_completeness auto
termination
  by (relation "measure (\<lambda>(a, producer, len). length (cmd_list (pending_cmds a)) +
                          (if curr_block (pending_cmds a) = None then 0 else 1))")
     (auto simp: unm_free_pend_cmd_desc_block_def dest!: dequeue_decreases split: if_splits)

declare drain_pending.simps [simp del]

definition unm_proc_pending_cmd_desc :: "tx_adapter \<Rightarrow> tx_adapter" where
  "unm_proc_pending_cmd_desc a =
     (case drain_pending a (cmdProducer a) (ring_space a) of
        (a', producer) \<Rightarrow>
          if cmdProducer a' = producer then a'
          else unm_nic_update_cmd_producer (a'\<lparr>cmdProducer := producer\<rparr>) producer)"

subsection \<open>Reclaiming completed slots\<close>

text \<open>
  Freeing the packet of one slot. \<open>fragArray\<close> has 17 entries; an index past them would read
  outside the array, which is the crash case. \<open>nx_free_frag_bounce_buf\<close> is empty outside the
  VMware build.
\<close>

definition reclaim_slot :: "tx_adapter \<Rightarrow> nat \<Rightarrow> tx_adapter option" where
  "reclaim_slot a i =
     (case cmd_buf_arr a of
        None \<Rightarrow> None
      | Some bufs \<Rightarrow>
          if i \<ge> length bufs then None
          else let buffer = bufs ! i in
            (case cb_skb buffer of
               None \<Rightarrow> Some a
             | Some s \<Rightarrow>
                 if max 1 (cb_fragCount buffer) > length (fragArray buffer) then None
                 else Some (a\<lparr>
                   tx_events := tx_events a @
                     [Unmap_single (frag_dma (fragArray buffer ! 0)) (frag_length (fragArray buffer ! 0))] @
                     map (\<lambda>j. Unmap_page (frag_dma (fragArray buffer ! j)) (frag_length (fragArray buffer ! j)))
                       [1..<cb_fragCount buffer] @ [Free_skb s],
                   xmitfinished := xmitfinished a + 1,
                   cmd_buf_arr := Some (bufs[i := buffer\<lparr>cb_skb := None\<rparr>])\<rparr>)))"

text \<open>The loop stops at the hardware's consumer index or after \<open>MAX_STATUS_HANDLE\<close> slots;
  \<open>budget\<close> counts the slots left.\<close>

fun reclaim_loop :: "nat \<Rightarrow> tx_adapter \<Rightarrow> nat \<Rightarrow> nat \<Rightarrow> (tx_adapter \<times> nat \<times> nat) option" where
  "reclaim_loop 0 a lastc consumer = Some (a, lastc, 0)"
| "reclaim_loop (Suc budget) a lastc consumer =
     (if lastc = consumer then Some (a, lastc, 0)
      else (case reclaim_slot a lastc of
              None \<Rightarrow> None
            | Some a' \<Rightarrow>
                (case reclaim_loop budget a' (get_next_index lastc (MaxTxDescCount a')) consumer of
                   None \<Rightarrow> None
                 | Some (a'', lastc', count) \<Rightarrow> Some (a'', lastc', Suc count))))"

text \<open>
  \<open>hw\<close> and \<open>hw'\<close> are the two reads of the consumer index the card writes by DMA. The result's
  first component is \<open>done\<close>.
\<close>

definition unm_process_cmd_ring :: "nat \<Rightarrow> nat \<Rightarrow> tx_adapter \<Rightarrow> (bool \<times> tx_adapter) option" where
  "unm_process_cmd_ring hw hw' a =
     (case reclaim_loop MAX_STATUS_HANDLE a (lastCmdConsumer a) hw of
        None \<Rightarrow> None
      | Some (a', lastc, count) \<Rightarrow>
     let a'' =
       (if count \<noteq> 0 then
          (let b = a'\<lparr>lastCmdConsumer := lastc\<rparr> in
           if queue_stopped b \<and> tx_running b
           then b\<lparr>tx_timeout_count := 0, queue_stopped := False\<rparr> else b)
        else a')
     in Some (lastCmdConsumer a'' = hw', a''))"

subsection \<open>Circular segments of an array\<close>

text \<open>\<open>ring_seg n xs s m\<close>: the \<open>m\<close> cells of the circular array \<open>xs\<close> (size \<open>n\<close>) from \<open>s\<close> on.\<close>

definition ring_seg :: "nat \<Rightarrow> 'a list \<Rightarrow> nat \<Rightarrow> nat \<Rightarrow> 'a list" where
  "ring_seg n xs s m = map (\<lambda>j. xs ! ((s + j) mod n)) [0..<m]"

lemma length_ring_seg [simp]: "length (ring_seg n xs s m) = m"
  by (simp add: ring_seg_def)

lemma ring_seg_0 [simp]: "ring_seg n xs s 0 = []"
  by (simp add: ring_seg_def)

lemma ring_seg_Suc_end: "ring_seg n xs s (Suc m) = ring_seg n xs s m @ [xs ! ((s + m) mod n)]"
  by (simp add: ring_seg_def)

lemma ring_seg_Suc:
  "ring_seg n xs s (Suc m) = xs ! (s mod n) # ring_seg n xs ((s + 1) mod n) m"
  by (simp add: ring_seg_def upt_conv_Cons map_Suc_upt [symmetric] mod_simps del: upt_Suc)

lemma get_next_index_mod [ring_simps]: "i < n \<Longrightarrow> get_next_index i n = (i + 1) mod n"
  by (cases "i + 1 = n") (simp_all add: get_next_index_def)

lemma get_next_index_less [ring_simps]: "i < n \<Longrightarrow> get_next_index i n < n"
  by (simp add: get_next_index_def)

lemma ring_index_inject:
  assumes "j < m" "m < (n::nat)"
  shows "(s + j) mod n \<noteq> (s + m) mod n"
proof
  assume "(s + j) mod n = (s + m) mod n"
  then have "n dvd (s + m) - (s + j)"
    using assms by (metis add_left_mono less_imp_le mod_eq_dvd_iff_nat)
  with assms show False by (simp add: nat_dvd_not_less)
qed

lemma ring_seg_update_outside:
  assumes "m \<le> k" "k < n" shows "ring_seg n (xs[(s + k) mod n := x]) s m = ring_seg n xs s m"
proof -
  have "(s + k) mod n \<noteq> (s + j) mod n" if "j < m" for j
    using ring_index_inject [of j k n s] that assms by simp
  then show ?thesis by (simp add: ring_seg_def)
qed

lemma ring_seg_update_end:
  assumes "m < n" "length xs = n"
  shows "ring_seg n (xs[(s + m) mod n := x]) s (Suc m) = ring_seg n xs s m @ [x]"
  using assms by (simp add: ring_seg_Suc_end ring_seg_update_outside)

subsection \<open>The ring's abstraction and invariant\<close>

definition in_flight :: "tx_adapter \<Rightarrow> nat" where
  "in_flight a = (cmdProducer a + MaxTxDescCount a - lastCmdConsumer a) mod MaxTxDescCount a"

definition ring_contents :: "tx_adapter \<Rightarrow> cmd_desc list" where
  "ring_contents a = ring_seg (MaxTxDescCount a) (cmdDescHead a) (lastCmdConsumer a) (in_flight a)"

definition tx_stream :: "tx_adapter \<Rightarrow> cmd_desc list" where
  "tx_stream a = ring_contents a @ pend_contents (pending_cmds a)"

definition buf_ok :: "cmd_buffer \<Rightarrow> bool" where
  "buf_ok b \<longleftrightarrow> (cb_skb b \<noteq> None \<longrightarrow> max 1 (cb_fragCount b) \<le> length (fragArray b))"

definition ring_inv :: "tx_adapter \<Rightarrow> bool" where
  "ring_inv a \<longleftrightarrow>
     cmdProducer a < MaxTxDescCount a \<and> lastCmdConsumer a < MaxTxDescCount a \<and>
     length (cmdDescHead a) = MaxTxDescCount a \<and>
     (\<exists>bufs. cmd_buf_arr a = Some bufs \<and> length bufs = MaxTxDescCount a \<and> (\<forall>b \<in> set bufs. buf_ok b)) \<and>
     pend_inv (pending_cmds a)"

lemma in_flight_cases:
  "cmdProducer a < MaxTxDescCount a \<Longrightarrow> lastCmdConsumer a < MaxTxDescCount a \<Longrightarrow>
   in_flight a =
     (if lastCmdConsumer a \<le> cmdProducer a then cmdProducer a - lastCmdConsumer a
      else cmdProducer a + MaxTxDescCount a - lastCmdConsumer a)"
  by (auto simp: in_flight_def mod_if)

lemma in_flight_less: "ring_inv a \<Longrightarrow> in_flight a < MaxTxDescCount a"
  by (auto simp: ring_inv_def in_flight_def)

lemma producer_eq: "ring_inv a \<Longrightarrow> (lastCmdConsumer a + in_flight a) mod MaxTxDescCount a = cmdProducer a"
  by (auto simp: ring_inv_def in_flight_cases)

text \<open>The two free-space computations of the code agree with the abstract count.\<close>

lemma ring_full_iff: "ring_inv a \<Longrightarrow> ring_full a n \<longleftrightarrow> MaxTxDescCount a \<le> in_flight a + n"
  by (auto simp: ring_inv_def ring_full_def in_flight_cases)

lemma ring_space_eq: "ring_inv a \<Longrightarrow> ring_space a = MaxTxDescCount a - 1 - in_flight a"
  by (auto simp: ring_inv_def ring_space_def in_flight_cases Let_def)

subsection \<open>Posting\<close>

lemma post_slot_fields [simp]:
  "cmdProducer (post_slot c a i d) = cmdProducer a"
  "lastCmdConsumer (post_slot c a i d) = lastCmdConsumer a"
  "MaxTxDescCount (post_slot c a i d) = MaxTxDescCount a"
  "pending_cmds (post_slot c a i d) = pending_cmds a"
  "cmdDescHead (post_slot c a i d) = (cmdDescHead a)[i := d]"
  by (simp_all add: post_slot_def)

text \<open>Posting neither reads nor moves the adapter's producer index.\<close>

lemma post_descs_producer:
  "post_descs c a i ds = (a', i') \<Longrightarrow>
   post_descs c (a\<lparr>cmdProducer := k\<rparr>) i ds = (a'\<lparr>cmdProducer := k\<rparr>, i')"
proof (induction ds arbitrary: a i)
  case Nil
  then show ?case by simp
next
  case (Cons d ds)
  have "post_slot c (a\<lparr>cmdProducer := k\<rparr>) i d = (post_slot c a i d)\<lparr>cmdProducer := k\<rparr>"
    by (simp add: post_slot_def)
  with Cons show ?case by simp
qed

text \<open>The buffers stay well formed, whatever is posted.\<close>

definition bufs_ok :: "tx_adapter \<Rightarrow> bool" where
  "bufs_ok a \<longleftrightarrow> (\<exists>bufs. cmd_buf_arr a = Some bufs \<and> length bufs = MaxTxDescCount a \<and>
                       (\<forall>b \<in> set bufs. buf_ok b))"

lemma bufs_ok_post_slot: "bufs_ok a \<Longrightarrow> bufs_ok (post_slot c a i d)"
  by (auto simp: bufs_ok_def post_slot_def buf_ok_def dest!: set_update_subset_insert [THEN subsetD])

lemma post_descs_frame:
  "post_descs c a i ds = (a', i') \<Longrightarrow>
   cmdProducer a' = cmdProducer a \<and> lastCmdConsumer a' = lastCmdConsumer a \<and>
   MaxTxDescCount a' = MaxTxDescCount a \<and> pending_cmds a' = pending_cmds a \<and>
   length (cmdDescHead a') = length (cmdDescHead a) \<and> (bufs_ok a \<longrightarrow> bufs_ok a')"
  by (induction ds arbitrary: a i) (auto dest: bufs_ok_post_slot)

text \<open>
  Posting from the end of an in-flight segment extends it by exactly the posted commands:
  nothing in flight is overwritten, the wrap-around included.
\<close>

lemma post_descs_seg:
  assumes "post_descs c a ((s + m) mod n) ds = (a', i')"
    and "n = MaxTxDescCount a" "length (cmdDescHead a) = n" "m + length ds < n"
  shows "ring_seg n (cmdDescHead a') s (m + length ds) = ring_seg n (cmdDescHead a) s m @ ds \<and>
         i' = (s + m + length ds) mod n"
  using assms
proof (induction ds arbitrary: a m)
  case Nil
  then show ?case by auto
next
  case (Cons d ds)
  let ?a = "post_slot c a ((s + m) mod n) d"
  from Cons.prems have n: "0 < n" by simp
  have "get_next_index ((s + m) mod n) n = (s + Suc m) mod n"
    using n by (simp add: get_next_index_mod mod_simps)
  with Cons.prems have "post_descs c ?a ((s + Suc m) mod n) ds = (a', i')"
    by simp
  from Cons.IH [OF this] Cons.prems
  have "ring_seg n (cmdDescHead a') s (Suc m + length ds) =
        ring_seg n (cmdDescHead ?a) s (Suc m) @ ds \<and> i' = (s + Suc m + length ds) mod n"
    by simp
  moreover have "ring_seg n (cmdDescHead ?a) s (Suc m) = ring_seg n (cmdDescHead a) s m @ [d]"
    using Cons.prems by (simp add: ring_seg_update_end)
  ultimately show ?case by simp
qed

text \<open>The same for the adapter's own in-flight segment.\<close>

lemma post_at_producer:
  assumes inv: "ring_inv a" and p: "post_descs c a (cmdProducer a) ds = (a', i')"
    and room: "in_flight a + length ds < MaxTxDescCount a"
    and b: "b = a'\<lparr>cmdProducer := i'\<rparr>"
  shows "ring_inv b" "in_flight b = in_flight a + length ds"
    "ring_contents b = ring_contents a @ ds" "pending_cmds b = pending_cmds a"
proof -
  let ?n = "MaxTxDescCount a"
  have prod: "cmdProducer a = (lastCmdConsumer a + in_flight a) mod ?n"
    using producer_eq [OF inv] by simp
  have len: "length (cmdDescHead a) = ?n" using inv by (simp add: ring_inv_def)
  from post_descs_seg [OF p [unfolded prod] refl len room]
  have seg: "ring_seg ?n (cmdDescHead a') (lastCmdConsumer a) (in_flight a + length ds) =
             ring_contents a @ ds"
    and i': "i' = (lastCmdConsumer a + in_flight a + length ds) mod ?n"
    by (auto simp: ring_contents_def)
  note fr = post_descs_frame [OF p]
  have less: "i' < ?n" "lastCmdConsumer a < ?n" using i' room inv by (auto simp: ring_inv_def)
  show "ring_inv b"
    using inv fr b less by (auto simp: ring_inv_def bufs_ok_def)
  have "in_flight b = (i' + ?n - lastCmdConsumer a) mod ?n"
    using fr b by (simp add: in_flight_def)
  also have "\<dots> = in_flight a + length ds"
  proof (cases "lastCmdConsumer a + in_flight a + length ds < ?n")
    case True
    with i' have "i' + ?n - lastCmdConsumer a = in_flight a + length ds + ?n" by simp
    with room show ?thesis by (simp only: mod_add_self2 mod_less)
  next
    case False
    with less room have "i' = lastCmdConsumer a + in_flight a + length ds - ?n"
      unfolding i' by (simp add: mod_if)
    with False room less show ?thesis by simp
  qed
  finally show fl: "in_flight b = in_flight a + length ds" .
  show "ring_contents b = ring_contents a @ ds"
    using seg fl fr b by (simp add: ring_contents_def)
  show "pending_cmds b = pending_cmds a" using fr b by simp
qed

lemma update_producer_fields [simp]:
  "cmdProducer (unm_nic_update_cmd_producer a p) = cmdProducer a"
  "lastCmdConsumer (unm_nic_update_cmd_producer a p) = lastCmdConsumer a"
  "MaxTxDescCount (unm_nic_update_cmd_producer a p) = MaxTxDescCount a"
  "cmdDescHead (unm_nic_update_cmd_producer a p) = cmdDescHead a"
  "cmd_buf_arr (unm_nic_update_cmd_producer a p) = cmd_buf_arr a"
  "pending_cmds (unm_nic_update_cmd_producer a p) = pending_cmds a"
  by (simp_all add: unm_nic_update_cmd_producer_def)

lemma update_producer_abs [simp]:
  "ring_inv (unm_nic_update_cmd_producer a p) = ring_inv a"
  "in_flight (unm_nic_update_cmd_producer a p) = in_flight a"
  "ring_contents (unm_nic_update_cmd_producer a p) = ring_contents a"
  "tx_stream (unm_nic_update_cmd_producer a p) = tx_stream a"
  by (simp_all add: ring_inv_def in_flight_def ring_contents_def tx_stream_def)

lemma set_pending_abs [simp]:
  "in_flight (a\<lparr>pending_cmds := p\<rparr>) = in_flight a"
  "ring_contents (a\<lparr>pending_cmds := p\<rparr>) = ring_contents a"
  "ring_inv a \<Longrightarrow> ring_inv (a\<lparr>pending_cmds := p\<rparr>) = pend_inv p"
  by (auto simp: ring_inv_def in_flight_def ring_contents_def)

lemma pend_cnt_0: "pend_inv p \<Longrightarrow> unm_get_pending_cmd_desc_cnt p = 0 \<longleftrightarrow> pend_contents p = []"
  by (auto simp: pend_inv_def unm_get_pending_cmd_desc_cnt_def)

lemma ring_inv_pending: "ring_inv a \<Longrightarrow> pend_inv (pending_cmds a)"
  by (simp add: ring_inv_def)

text \<open>The outcomes of a submission in detail, doorbell writes included.\<close>

lemma post_descs_reg: "post_descs c a i ds = (a', i') \<Longrightarrow>
   reg_writes a' = reg_writes a \<and> crb_addr_cmd_producer a' = crb_addr_cmd_producer a"
  by (induction ds arbitrary: a i) (auto simp: post_slot_def)

lemma send_full:
  assumes inv: "ring_inv a" and mem: "\<forall>b. mem = Some b \<longrightarrow> blk_array b"
    and send: "nx_nic_send_cmd_descs mem a ds = (rv, a')"
  shows "ring_inv a' \<and>
    (rv = 0 \<and> ring_contents a' = ring_contents a @ ds \<and> pending_cmds a' = pending_cmds a \<and>
       pend_contents (pending_cmds a) = [] \<and> in_flight a + length ds < MaxTxDescCount a \<and>
       reg_writes a' = reg_writes a @ (if crb_addr_cmd_producer a = 0 then []
                                       else [(crb_addr_cmd_producer a, cmdProducer a')]) \<or>
     rv = 0 \<and> ring_contents a' = ring_contents a \<and> reg_writes a' = reg_writes a \<and>
       pend_contents (pending_cmds a') = pend_contents (pending_cmds a) @ ds \<and>
       (pend_contents (pending_cmds a) \<noteq> [] \<or> MaxTxDescCount a \<le> in_flight a + length ds) \<or>
     rv < 0 \<and> ring_contents a' = ring_contents a \<and> reg_writes a' = reg_writes a \<and>
       pending_cmds a' = pending_cmds a)"
proof -
  have pi: "pend_inv (pending_cmds a)" using inv by (rule ring_inv_pending)
  have arr: "cmd_buf_arr a \<noteq> None" using inv by (auto simp: ring_inv_def)
  note cnt = pend_cnt_0 [OF pi]
  consider (bad) "length ds > MAX_PENDING_DESC_BLOCK_SIZE \<or> ds = []"
    | (park) "length ds \<le> MAX_PENDING_DESC_BLOCK_SIZE" "ds \<noteq> []"
        "unm_get_pending_cmd_desc_cnt (pending_cmds a) \<noteq> 0 \<or> ring_full a (length ds)"
    | (post) "length ds \<le> MAX_PENDING_DESC_BLOCK_SIZE" "ds \<noteq> []"
        "unm_get_pending_cmd_desc_cnt (pending_cmds a) = 0" "\<not> ring_full a (length ds)"
    by force
  then show ?thesis
  proof cases
    case bad
    with send arr inv show ?thesis by (auto simp: nx_nic_send_cmd_descs_def)
  next
    case park
    obtain r q where q: "nx_queue_pend_cmd_desc_list mem (pending_cmds a) ds = (r, q)"
      by (cases "nx_queue_pend_cmd_desc_list mem (pending_cmds a) ds")
    with send arr park have res: "rv = r" "a' = a\<lparr>pending_cmds := q\<rparr>"
      by (auto simp: nx_nic_send_cmd_descs_def)
    have why: "pend_contents (pending_cmds a) \<noteq> [] \<or> MaxTxDescCount a \<le> in_flight a + length ds"
      using park(3) cnt ring_full_iff [OF inv] by simp
    from queue_list_spec [OF pi park(1) mem q] res inv why show ?thesis by auto
  next
    case post
    obtain b i where p: "post_descs 0 a (cmdProducer a) ds = (b, i)"
      by (cases "post_descs 0 a (cmdProducer a) ds")
    with send arr post have res: "rv = 0"
      "a' = unm_nic_update_cmd_producer (b\<lparr>cmdProducer := i\<rparr>) i"
      by (auto simp: nx_nic_send_cmd_descs_def)
    from post(4) ring_full_iff [OF inv] have room: "in_flight a + length ds < MaxTxDescCount a" by simp
    note ps = post_at_producer [OF inv p room refl]
    have "pend_contents (pending_cmds a) = []" using post(3) cnt by simp
    moreover have "reg_writes a' = reg_writes a @ (if crb_addr_cmd_producer a = 0 then []
        else [(crb_addr_cmd_producer a, cmdProducer a')])"
      using post_descs_reg [OF p] unfolding res by (simp add: unm_nic_update_cmd_producer_def)
    ultimately show ?thesis using ps res(1) room unfolding res(2) by simp
  qed
qed

lemma send_cases:
  assumes "ring_inv a" "\<forall>b. mem = Some b \<longrightarrow> blk_array b"
    and "nx_nic_send_cmd_descs mem a ds = (rv, a')"
  shows "ring_inv a' \<and>
    (rv = 0 \<and> tx_stream a' = tx_stream a @ ds \<or>
     rv < 0 \<and> ring_contents a' = ring_contents a \<and> pending_cmds a' = pending_cmds a)"
  using send_full [OF assms] by (auto simp: tx_stream_def)

text \<open>Draining: commands move from the pending queue to the ring, in order.\<close>

lemma drain_spec:
  assumes "ring_inv (a\<lparr>cmdProducer := i\<rparr>)" and "len = MaxTxDescCount a - 1 - in_flight (a\<lparr>cmdProducer := i\<rparr>)"
    and "drain_pending a i len = (a', i')"
  shows "ring_inv (a'\<lparr>cmdProducer := i'\<rparr>) \<and>
         tx_stream (a'\<lparr>cmdProducer := i'\<rparr>) = tx_stream (a\<lparr>cmdProducer := i\<rparr>) \<and>
         cmdProducer a' = cmdProducer a \<and> MaxTxDescCount a' = MaxTxDescCount a \<and>
         lastCmdConsumer a' = lastCmdConsumer a \<and> in_flight (a\<lparr>cmdProducer := i\<rparr>) \<le> in_flight (a'\<lparr>cmdProducer := i'\<rparr>) \<and>
         (pend_contents (pending_cmds a') = [] \<or>
          MaxTxDescCount a - 1 - in_flight (a'\<lparr>cmdProducer := i'\<rparr>) < MAX_PENDING_DESC_BLOCK_SIZE)"
  using assms
proof (induction a i len rule: drain_pending.induct)
  case (1 a i len)
  let ?a = "a\<lparr>cmdProducer := i\<rparr>"
  have pi: "pend_inv (pending_cmds a)" using ring_inv_pending [OF "1.prems"(1)] by simp
  show ?case
  proof (cases "len = 0")
    case True
    with "1.prems" show ?thesis
      by (auto simp: drain_pending.simps [of a i 0] MAX_PENDING_DESC_BLOCK_SIZE_def)
  next
    case len: False
    show ?thesis
    proof (cases "unm_dequeue_pending_cmd_desc (pending_cmds a) len")
      case None
      with "1.prems"(3) len have "a' = a" "i' = i"
        by (simp_all add: drain_pending.simps [of a i len])
      with "1.prems" dequeue_None [OF pi None] show ?thesis by auto
    next
      case (Some bp)
      obtain b p where bp: "bp = (b, p)" by (cases bp)
      note dq = dequeue_spec [OF pi Some [unfolded bp]]
      let ?ds = "take (blk_cnt b) (blk_cmd b)"
      obtain c j where pd: "post_descs PEGNET_REQUEST a i ?ds = (c, j)"
        by (cases "post_descs PEGNET_REQUEST a i ?ds")
      have pd': "post_descs PEGNET_REQUEST ?a (cmdProducer ?a) ?ds = (c\<lparr>cmdProducer := i\<rparr>, j)"
        using post_descs_producer [OF pd, of i] by simp
      have l: "length ?ds = blk_cnt b"
        using dq by (simp add: blk_array_def)
      have bl: "blk_cnt b \<le> len" using dq by simp
      have room: "in_flight ?a + length ?ds < MaxTxDescCount ?a"
        unfolding l using bl len "1.prems"(2) by simp
      note fr = post_descs_frame [OF pd]
      note ps = post_at_producer [OF "1.prems"(1) pd' room refl]
      let ?c = "c\<lparr>pending_cmds := unm_free_pend_cmd_desc_block p b\<rparr>"
      have c: "?c\<lparr>cmdProducer := j\<rparr> = (c\<lparr>cmdProducer := j\<rparr>)\<lparr>pending_cmds := unm_free_pend_cmd_desc_block p b\<rparr>"
        by simp
      have inv: "ring_inv (?c\<lparr>cmdProducer := j\<rparr>)"
        unfolding c using ps(1) free_block_inv dq by simp
      have fl: "len - blk_cnt b = MaxTxDescCount ?c - 1 - in_flight (?c\<lparr>cmdProducer := j\<rparr>)"
        unfolding c using ps(2) l "1.prems"(2) fr by simp
      have le: "in_flight ?a \<le> in_flight (?c\<lparr>cmdProducer := j\<rparr>)"
        unfolding c using ps(2) by simp
      have st: "tx_stream (?c\<lparr>cmdProducer := j\<rparr>) = tx_stream ?a"
        unfolding c using ps(3) dq by (simp add: tx_stream_def blk_contents_def)
      have "drain_pending ?c j (len - blk_cnt b) = (a', i')"
        using "1.prems"(3) len Some bp pd by (simp add: drain_pending.simps [of a i len])
      from "1.IH" [OF len Some bp [symmetric] pd [symmetric] inv fl this] st fr le show ?thesis by (simp add: le_trans)
    qed
  qed
qed

lemma proc_pending_spec:
  assumes inv: "ring_inv a" and a': "a' = unm_proc_pending_cmd_desc a"
  shows "ring_inv a' \<and> tx_stream a' = tx_stream a \<and> lastCmdConsumer a' = lastCmdConsumer a \<and> in_flight a \<le> in_flight a' \<and>
         (pend_contents (pending_cmds a') = [] \<or>
          MaxTxDescCount a' - 1 - in_flight a' < MAX_PENDING_DESC_BLOCK_SIZE)"
proof -
  obtain b i where d: "drain_pending a (cmdProducer a) (ring_space a) = (b, i)"
    by (cases "drain_pending a (cmdProducer a) (ring_space a)")
  have self: "a\<lparr>cmdProducer := cmdProducer a\<rparr> = a" by simp
  from drain_spec [OF _ _ d, unfolded self, OF inv ring_space_eq [OF inv]]
  have s: "ring_inv (b\<lparr>cmdProducer := i\<rparr>)" "tx_stream (b\<lparr>cmdProducer := i\<rparr>) = tx_stream a"
    "MaxTxDescCount b = MaxTxDescCount a" "lastCmdConsumer b = lastCmdConsumer a" "in_flight a \<le> in_flight (b\<lparr>cmdProducer := i\<rparr>)"
    "pend_contents (pending_cmds b) = [] \<or>
     MaxTxDescCount a - 1 - in_flight (b\<lparr>cmdProducer := i\<rparr>) < MAX_PENDING_DESC_BLOCK_SIZE"
    by auto
  show ?thesis
  proof (cases "cmdProducer b = i")
    case True
    then have "b\<lparr>cmdProducer := i\<rparr> = b" by simp
    with s True d a' show ?thesis by (simp add: unm_proc_pending_cmd_desc_def)
  next
    case False
    with s d a' show ?thesis by (simp add: unm_proc_pending_cmd_desc_def)
  qed
qed

subsection \<open>Reclaiming\<close>

definition slot_events :: "cmd_buffer \<Rightarrow> tx_event list" where
  "slot_events b =
     (case cb_skb b of
        None \<Rightarrow> []
      | Some s \<Rightarrow>
          [Unmap_single (frag_dma (fragArray b ! 0)) (frag_length (fragArray b ! 0))] @
          map (\<lambda>j. Unmap_page (frag_dma (fragArray b ! j)) (frag_length (fragArray b ! j)))
            [1..<cb_fragCount b] @ [Free_skb s])"

lemma reclaim_slot_spec:
  assumes "cmd_buf_arr a = Some bufs" "i < length bufs" "\<forall>b \<in> set bufs. buf_ok b"
  shows "\<exists>x. reclaim_slot a i = Some (a\<lparr>tx_events := tx_events a @ slot_events (bufs ! i),
                xmitfinished := x, cmd_buf_arr := Some (bufs[i := (bufs ! i)\<lparr>cb_skb := None\<rparr>])\<rparr>)"
proof -
  have "buf_ok (bufs ! i)" using assms by simp
  show ?thesis
  proof (cases "cb_skb (bufs ! i)")
    case None
    then have "(bufs ! i)\<lparr>cb_skb := None\<rparr> = bufs ! i" by simp
    then have "bufs[i := (bufs ! i)\<lparr>cb_skb := None\<rparr>] = bufs"
      by (simp only: list_update_id)
    with None assms have "reclaim_slot a i = Some (a\<lparr>tx_events := tx_events a @ slot_events (bufs ! i),
                xmitfinished := xmitfinished a, cmd_buf_arr := Some (bufs[i := (bufs ! i)\<lparr>cb_skb := None\<rparr>])\<rparr>)"
      by (simp add: reclaim_slot_def slot_events_def)
    then show ?thesis by blast
  next
    case (Some s)
    with assms \<open>buf_ok (bufs ! i)\<close> show ?thesis
      by (auto simp: reclaim_slot_def slot_events_def Let_def buf_ok_def)
  qed
qed

text \<open>\<open>a'\<close> is \<open>a\<close> after reclaiming the \<open>k\<close> slots from \<open>i\<close> on.\<close>

definition reclaimed :: "tx_adapter \<Rightarrow> nat \<Rightarrow> nat \<Rightarrow> tx_adapter \<Rightarrow> bool" where
  "reclaimed a i k a' \<longleftrightarrow>
     (\<exists>x bufs bufs'. cmd_buf_arr a = Some bufs \<and> length bufs = MaxTxDescCount a \<and>
        a' = a\<lparr>tx_events := tx_events a @ concat (map slot_events (ring_seg (MaxTxDescCount a) bufs i k)),
               xmitfinished := x, cmd_buf_arr := Some bufs'\<rparr> \<and>
        length bufs' = MaxTxDescCount a \<and> (\<forall>b \<in> set bufs'. buf_ok b) \<and>
        (\<forall>j < MaxTxDescCount a. bufs' ! ((i + j) mod MaxTxDescCount a) =
           (if j < k then (bufs ! ((i + j) mod MaxTxDescCount a))\<lparr>cb_skb := None\<rparr>
            else bufs ! ((i + j) mod MaxTxDescCount a))))"

lemma bufs_okE:
  assumes "bufs_ok a"
  obtains bufs where "cmd_buf_arr a = Some bufs" "length bufs = MaxTxDescCount a" "\<forall>b \<in> set bufs. buf_ok b"
  using assms by (auto simp: bufs_ok_def)

lemma reclaimed_0:
  assumes "bufs_ok a" shows "reclaimed a i 0 a"
proof -
  from assms obtain bufs where b: "cmd_buf_arr a = Some bufs" "length bufs = MaxTxDescCount a"
    "\<forall>b \<in> set bufs. buf_ok b" by (rule bufs_okE)
  have "a = a\<lparr>tx_events := tx_events a @ concat (map slot_events (ring_seg (MaxTxDescCount a) bufs i 0)),
               xmitfinished := xmitfinished a, cmd_buf_arr := Some bufs\<rparr>"
    using b(1) by (cases a) simp
  with b show ?thesis
    unfolding reclaimed_def
    by (intro exI [of _ "xmitfinished a"] exI [of _ bufs] conjI) simp_all
qed

lemma reclaim_slot_bufs:
  assumes "bufs_ok a" "i < MaxTxDescCount a" "reclaim_slot a i = Some a'"
  shows "bufs_ok a' \<and> MaxTxDescCount a' = MaxTxDescCount a"
proof -
  from assms obtain bufs where b: "cmd_buf_arr a = Some bufs" "length bufs = MaxTxDescCount a"
    "\<forall>b \<in> set bufs. buf_ok b" by (auto elim: bufs_okE)
  have "\<forall>b \<in> set (bufs[i := (bufs ! i)\<lparr>cb_skb := None\<rparr>]). buf_ok b"
    using b(3) by (auto simp: buf_ok_def dest!: set_update_subset_insert [THEN subsetD])
  with reclaim_slot_spec [OF b(1) _ b(3), of i] assms b show ?thesis
    by (auto simp: bufs_ok_def)
qed

lemma reclaimed_Suc:
  assumes ok: "bufs_ok a" and i: "i < MaxTxDescCount a" and s: "reclaim_slot a i = Some b"
    and r: "reclaimed b ((i + 1) mod MaxTxDescCount a) k a'" and k: "k + 1 < MaxTxDescCount a"
  shows "reclaimed a i (Suc k) a'"
proof -
  let ?n = "MaxTxDescCount a"
  let ?i = "(i + 1) mod ?n"
  from ok obtain bufs where bufs: "cmd_buf_arr a = Some bufs" "length bufs = ?n"
    "\<forall>b \<in> set bufs. buf_ok b" by (rule bufs_okE)
  let ?bufs = "bufs[i := (bufs ! i)\<lparr>cb_skb := None\<rparr>]"
  from reclaim_slot_spec [OF bufs(1) _ bufs(3), of i] s i bufs(2) obtain x where
    b: "b = a\<lparr>tx_events := tx_events a @ slot_events (bufs ! i),
            xmitfinished := x, cmd_buf_arr := Some ?bufs\<rparr>"
    by auto
  have [simp]: "MaxTxDescCount b = ?n" "cmd_buf_arr b = Some ?bufs"
    "tx_events b = tx_events a @ slot_events (bufs ! i)" by (simp_all add: b)
  from r obtain y bufs' where
    a': "a' = b\<lparr>tx_events := tx_events b @ concat (map slot_events (ring_seg ?n ?bufs ?i k)),
               xmitfinished := y, cmd_buf_arr := Some bufs'\<rparr>"
    and l: "length bufs' = ?n" "\<forall>b \<in> set bufs'. buf_ok b"
    and cells: "\<And>j. j < ?n \<Longrightarrow> bufs' ! ((?i + j) mod ?n) =
           (if j < k then (?bufs ! ((?i + j) mod ?n))\<lparr>cb_skb := None\<rparr> else ?bufs ! ((?i + j) mod ?n))"
    unfolding reclaimed_def by auto
  have wrap: "(?i + (?n - 1)) mod ?n = i"
  proof -
    have "(?i + (?n - 1)) mod ?n = (i + 1 + (?n - 1)) mod ?n" by (rule mod_add_left_eq)
    also have "i + 1 + (?n - 1) = i + ?n" using i by simp
    finally show ?thesis using i by (simp only: mod_add_self2 mod_less)
  qed
  have ii: "i mod ?n = i" using i by simp
  have seg: "ring_seg ?n ?bufs ?i k = ring_seg ?n bufs ?i k"
    using ring_seg_update_outside [of k "?n - 1" ?n bufs ?i "(bufs ! i)\<lparr>cb_skb := None\<rparr>"] k
    by (simp only: wrap)
  have a'': "a' = a\<lparr>tx_events := tx_events a @ concat (map slot_events (ring_seg ?n bufs i (Suc k))),
               xmitfinished := y, cmd_buf_arr := Some bufs'\<rparr>"
    unfolding a' seg by (simp add: b ring_seg_Suc ii del: One_nat_def) 
  have "bufs' ! ((i + j) mod ?n) =
           (if j < Suc k then (bufs ! ((i + j) mod ?n))\<lparr>cb_skb := None\<rparr> else bufs ! ((i + j) mod ?n))"
    if j: "j < ?n" for j
  proof (cases j)
    case 0
    from cells [of "?n - 1"] i k have "bufs' ! i = ?bufs ! i" unfolding wrap by simp
    with 0 i bufs(2) ii show ?thesis by simp
  next
    case (Suc j')
    have e: "(?i + j') mod ?n = (i + j) mod ?n" using Suc by (simp add: mod_simps)
    have ne: "(i + j) mod ?n \<noteq> i" using ring_index_inject [of 0 j ?n i] j Suc i by simp
    from cells [of j'] j Suc have "bufs' ! ((i + j) mod ?n) =
      (if j' < k then (?bufs ! ((i + j) mod ?n))\<lparr>cb_skb := None\<rparr> else ?bufs ! ((i + j) mod ?n))"
      unfolding e by simp
    with ne Suc show ?thesis by simp
  qed
  then show ?thesis using bufs l a'' unfolding reclaimed_def by blast
qed

lemma reclaim_loop_spec:
  assumes "bufs_ok a" "i < MaxTxDescCount a" "m < MaxTxDescCount a"
    and "c = (i + m) mod MaxTxDescCount a"
  shows "\<exists>a'. reclaim_loop budget a i c = Some (a', (i + min budget m) mod MaxTxDescCount a, min budget m) \<and>
              reclaimed a i (min budget m) a'"
  using assms
proof (induction budget arbitrary: a i m)
  case 0
  then show ?case by (simp add: reclaimed_0)
next
  case (Suc k)
  let ?n = "MaxTxDescCount a"
  show ?case
  proof (cases m)
    case 0
    with Suc.prems have "i = c" by simp
    with 0 Suc.prems(1,2) show ?thesis by (simp add: reclaimed_0)
  next
    case m: (Suc m')
    have ne: "i \<noteq> c" using ring_index_inject [of 0 m ?n i] Suc.prems m by simp
    from Suc.prems(1,2) obtain b where s: "reclaim_slot a i = Some b"
      using reclaim_slot_spec [of a _ i] by (auto simp: bufs_ok_def)
    note sb = reclaim_slot_bufs [OF Suc.prems(1,2) s]
    have "m' < ?n" "(i + 1) mod ?n < ?n" "c = ((i + 1) mod ?n + m') mod ?n"
      using Suc.prems m by (simp_all add: mod_simps)
    with Suc.IH [of b "(i + 1) mod ?n" m'] sb obtain a' where
      ih: "reclaim_loop k b ((i + 1) mod ?n) c = Some (a', ((i + 1) mod ?n + min k m') mod ?n, min k m')"
        "reclaimed b ((i + 1) mod ?n) (min k m') a'" by auto
    have "min k m' + 1 < ?n" using Suc.prems(3) m by simp
    from reclaimed_Suc [OF Suc.prems(1,2) s ih(2) this]
    have "reclaimed a i (min (Suc k) m) a'" by (simp add: m)
    moreover have "reclaim_loop (Suc k) a i c = Some (a', (i + min (Suc k) m) mod ?n, min (Suc k) m)"
      using ne s ih(1) sb Suc.prems(2) by (simp add: m get_next_index_mod mod_simps)
    ultimately show ?thesis by blast
  qed
qed

lemma ring_distance_advance:
  assumes "p < n" "c < (n::nat)" "k \<le> (if c \<le> p then p - c else p + n - c)"
  shows "(if (if c + k < n then c + k else c + k - n) \<le> p
          then p - (if c + k < n then c + k else c + k - n)
          else p + n - (if c + k < n then c + k else c + k - n)) =
         (if c \<le> p then p - c else p + n - c) - k"
proof (cases "c \<le> p")
  case True
  with assms have "c + k < n" by simp
  with True assms show ?thesis by simp
next
  case False
  with assms show ?thesis by (cases "c + k < n") simp_all
qed

text \<open>Handling completions up to an index the card wrote, \<open>m\<close> slots past the consumer.\<close>

lemma process_cmd_ring_spec:
  assumes inv: "ring_inv a" and m: "m \<le> in_flight a"
    and hw: "hw = (lastCmdConsumer a + m) mod MaxTxDescCount a"
  shows "\<exists>fin a' bufs. unm_process_cmd_ring hw hw' a = Some (fin, a') \<and>
           ring_inv a' \<and> cmd_buf_arr a = Some bufs \<and>
           ring_contents a' = drop (min MAX_STATUS_HANDLE m) (ring_contents a) \<and>
           pending_cmds a' = pending_cmds a \<and> cmdProducer a' = cmdProducer a \<and>
           tx_events a' = tx_events a @ concat (map slot_events
             (ring_seg (MaxTxDescCount a) bufs (lastCmdConsumer a) (min MAX_STATUS_HANDLE m))) \<and>
           (fin \<longleftrightarrow> lastCmdConsumer a' = hw') \<and>
           queue_stopped a' = (queue_stopped a \<and> \<not> (0 < m \<and> tx_running a))"
proof -
  let ?n = "MaxTxDescCount a" and ?c = "lastCmdConsumer a" and ?k = "min MAX_STATUS_HANDLE m"
  from inv have ok: "bufs_ok a" and c: "?c < ?n" and mn: "m < ?n"
    using in_flight_less [OF inv] m by (auto simp: ring_inv_def bufs_ok_def)
  from reclaim_loop_spec [OF ok c mn hw, of MAX_STATUS_HANDLE] obtain b where
    r: "reclaim_loop MAX_STATUS_HANDLE a ?c hw = Some (b, (?c + ?k) mod ?n, ?k)"
      "reclaimed a ?c ?k b" by blast
  from r(2) obtain x bufs bufs' where
    bufs: "cmd_buf_arr a = Some bufs" "length bufs' = ?n" "\<forall>b \<in> set bufs'. buf_ok b"
    and b: "b = a\<lparr>tx_events := tx_events a @ concat (map slot_events (ring_seg ?n bufs ?c ?k)),
               xmitfinished := x, cmd_buf_arr := Some bufs'\<rparr>"
    unfolding reclaimed_def by blast
  let ?d = "b\<lparr>lastCmdConsumer := (?c + ?k) mod ?n\<rparr>"
  let ?a' = "if queue_stopped a \<and> tx_running a \<and> 0 < ?k
             then ?d\<lparr>tx_timeout_count := 0, queue_stopped := False\<rparr> else ?d"
  have "?d = b" if "?k = 0" using that c by (simp add: b)
  then have res: "unm_process_cmd_ring hw hw' a = Some ((?c + ?k) mod ?n = hw', ?a')"
    using r(1) c by (auto simp: unm_process_cmd_ring_def Let_def b)
  have fl: "in_flight ?d = in_flight a - ?k"
  proof -
    have k: "?k \<le> in_flight a" using m by simp
    have less: "cmdProducer a < ?n" using inv by (simp add: ring_inv_def)
    have next_c: "(?c + ?k) mod ?n = (if ?c + ?k < ?n then ?c + ?k else ?c + ?k - ?n)"
      using c mn by (auto simp: mod_if)
    have "in_flight ?d = (if (?c + ?k) mod ?n \<le> cmdProducer a then cmdProducer a - (?c + ?k) mod ?n
            else cmdProducer a + ?n - (?c + ?k) mod ?n)"
      using in_flight_cases [of ?d] less c by (simp add: b)
    then show ?thesis
      unfolding next_c in_flight_cases [OF less c]
      using ring_distance_advance [OF less c k [unfolded in_flight_cases [OF less c]]] by simp
  qed
  have "drop ?k (ring_seg ?n (cmdDescHead a) ?c (in_flight a)) =
        ring_seg ?n (cmdDescHead a) ((?c + ?k) mod ?n) (in_flight a - ?k)"
    by (rule nth_equalityI) (simp_all add: ring_seg_def mod_simps add.assoc)
  then have cont: "ring_contents ?d = drop ?k (ring_contents a)"
    unfolding ring_contents_def fl by (simp add: b)
  have inv_d: "ring_inv ?d"
    using inv bufs c by (auto simp: ring_inv_def b)
  have same: "ring_inv ?a' = ring_inv ?d" "ring_contents ?a' = ring_contents ?d"
    "pending_cmds ?a' = pending_cmds a" "cmdProducer ?a' = cmdProducer a"
    "lastCmdConsumer ?a' = (?c + ?k) mod ?n" "tx_events ?a' = tx_events b"
    by (auto simp: ring_inv_def ring_contents_def in_flight_def b)
  have "queue_stopped ?a' = (queue_stopped a \<and> \<not> (0 < m \<and> tx_running a))"
    by (auto simp: b MAX_STATUS_HANDLE_def)
  with res same inv_d cont bufs(1) show ?thesis
    by (intro exI [of _ "(?c + ?k) mod ?n = hw'"] exI [of _ ?a'] exI [of _ bufs]) (simp add: b)
qed

lemma length_ring_contents [simp]: "length (ring_contents a) = in_flight a"
  by (simp add: ring_contents_def)

subsection \<open>Properties\<close>

text \<open>A small adapter for the witnesses: four slots, nothing queued, the send queue stopped.\<close>

definition sample_adapter :: tx_adapter where
  "sample_adapter =
     \<lparr>cmdProducer = 3, lastCmdConsumer = 3, MaxTxDescCount = 4,
      cmd_buf_arr = Some (replicate 4 \<lparr>cb_skb = None, fragArray = replicate 17 \<lparr>frag_dma = 0, frag_length = 0\<rparr>,
        cb_totalLength = 0, cb_mss = 0, cb_port = 0, cb_cmd = 0, cb_fragCount = 0\<rparr>),
      cmdDescHead = replicate 4 zero_desc,
      pending_cmds = \<lparr>pend_cnt = 0, free_list = [], cmd_list = [], curr_block = None\<rparr>,
      crb_addr_cmd_producer = 0x8000, reg_writes = [], xmitfinished = 0, queue_stopped = True,
      tx_running = True, tx_timeout_count = 0, tx_events = []\<rparr>"

lemmas sample_defs = sample_adapter_def ring_inv_def in_flight_def buf_ok_def pending_defs

lemma sample_inv: "ring_inv sample_adapter"
  by (simp add: sample_defs)

lemma sample_stream: "tx_stream sample_adapter = []"
  by (simp add: tx_stream_def ring_contents_def sample_defs)

text \<open>
  C19 Submitting commands (\<open>nx_nic_send_cmd_descs\<close>) keeps the ring invariant and has one of three
  outcomes: it returns 0 and the commands are appended to the stream, written into the ring
  behind those in flight with the doorbell set to the new producer index; or it returns 0
  and they are appended to the pending queue, the ring and the doorbell untouched, because
  earlier commands wait there or the ring has no room; or it returns a negative code and
  neither the ring nor the queue has changed.
\<close>

theorem send_appends_or_refuses:
  assumes "ring_inv a" "pend_mem_ok mem" "nx_nic_send_cmd_descs mem a ds = (rv, a')"
  shows "ring_inv a' \<and>
    (rv = 0 \<and> ring_contents a' = ring_contents a @ ds \<and> pending_cmds a' = pending_cmds a \<and>
       pend_contents (pending_cmds a) = [] \<and> in_flight a + length ds < MaxTxDescCount a \<and>
       reg_writes a' = reg_writes a @ (if crb_addr_cmd_producer a = 0 then []
                                       else [(crb_addr_cmd_producer a, cmdProducer a')]) \<or>
     rv = 0 \<and> ring_contents a' = ring_contents a \<and> reg_writes a' = reg_writes a \<and>
       pend_contents (pending_cmds a') = pend_contents (pending_cmds a) @ ds \<and>
       (pend_contents (pending_cmds a) \<noteq> [] \<or> MaxTxDescCount a \<le> in_flight a + length ds) \<or>
     rv < 0 \<and> ring_contents a' = ring_contents a \<and> reg_writes a' = reg_writes a \<and>
       pending_cmds a' = pending_cmds a)"
  using assms send_full [of a mem ds rv a'] by (simp add: pend_mem_ok_def)

theorem send_appends_or_refuses_witness:
  "ring_inv (snd (nx_nic_send_cmd_descs None sample_adapter [zero_desc, zero_desc]))"
  using send_appends_or_refuses [of sample_adapter None "[zero_desc, zero_desc]"] sample_inv
  by (auto simp: pend_mem_ok_def prod_eq_iff)

text \<open>
  C20 Draining (\<open>unm_proc_pending_cmd_desc\<close>) moves commands from the pending queue into the
  ring without changing the stream, and stops only when the queue is empty or the ring has
  less free room than one block of commands.
\<close>

theorem drain_preserves_stream:
  assumes "ring_inv a"
  shows "ring_inv (unm_proc_pending_cmd_desc a) \<and>
    tx_stream (unm_proc_pending_cmd_desc a) = tx_stream a \<and>
    (pend_contents (pending_cmds (unm_proc_pending_cmd_desc a)) = [] \<or>
     MaxTxDescCount (unm_proc_pending_cmd_desc a) - 1 - in_flight (unm_proc_pending_cmd_desc a) <
       MAX_PENDING_DESC_BLOCK_SIZE)"
  using proc_pending_spec [OF assms refl] by blast

theorem drain_preserves_stream_witness:
  "ring_inv sample_adapter \<and> tx_stream (unm_proc_pending_cmd_desc sample_adapter) = []"
  using drain_preserves_stream [OF sample_inv] sample_inv sample_stream by simp

text \<open>
  C6 Completion handling (\<open>unm_process_cmd_ring\<close>), when the card reports an index \<open>m\<close> slots
  past the consumer: it never reads outside the buffer array, retires exactly the first
  \<open>min 128 m\<close> commands in flight, unmaps and frees the packet of each retired slot once and in
  order and of no other slot, wakes a stopped queue only if something was retired, and
  reports it is done exactly when the second read of the index equals the new consumer.
\<close>

theorem completion_retires_prefix:
  assumes "ring_inv a" "m \<le> in_flight a"
    and "hw = (lastCmdConsumer a + m) mod MaxTxDescCount a"
  shows "\<exists>fin a' bufs. unm_process_cmd_ring hw hw' a = Some (fin, a') \<and>
           ring_inv a' \<and> cmd_buf_arr a = Some bufs \<and>
           ring_contents a' = drop (min MAX_STATUS_HANDLE m) (ring_contents a) \<and>
           pending_cmds a' = pending_cmds a \<and> cmdProducer a' = cmdProducer a \<and>
           tx_events a' = tx_events a @ concat (map slot_events
             (ring_seg (MaxTxDescCount a) bufs (lastCmdConsumer a) (min MAX_STATUS_HANDLE m))) \<and>
           (fin \<longleftrightarrow> lastCmdConsumer a' = hw') \<and>
           queue_stopped a' = (queue_stopped a \<and> \<not> (0 < m \<and> tx_running a))"
  using process_cmd_ring_spec [OF assms] .

theorem completion_retires_prefix_witness:
  "let a = snd (nx_nic_send_cmd_descs None sample_adapter [zero_desc]) in
   \<exists>fin a'. unm_process_cmd_ring 0 0 a = Some (fin, a') \<and> ring_inv a' \<and> \<not> queue_stopped a'"
proof -
  let ?a = "snd (nx_nic_send_cmd_descs None sample_adapter [zero_desc])"
  have f: "cmdProducer ?a = 0" "lastCmdConsumer ?a = 3" "MaxTxDescCount ?a = 4" "tx_running ?a"
    by (simp_all add: nx_nic_send_cmd_descs_def unm_get_pending_cmd_desc_cnt_def ring_full_def
        sample_adapter_def MAX_PENDING_DESC_BLOCK_SIZE_def get_next_index_def post_slot_def
        unm_nic_update_cmd_producer_def)
  then have "1 \<le> in_flight ?a" by (simp add: in_flight_def)
  moreover have "ring_inv ?a"
    using send_cases [OF sample_inv, of None "[zero_desc]"] by (simp add: prod_eq_iff)
  ultimately show ?thesis
    using completion_retires_prefix [of ?a 1 0 0] f unfolding Let_def by auto
qed

end
