(* ===== verification/Lro.thy ===== *)
theory Lro
  imports HashTable MemPool TxRing
begin

text \<open>
  Large receive offload flow management (\<open>driver/unm_nic_lro.c\<close>): an offloaded TCP flow is an
  entry of the hash table whose memory comes from the pool, set up by a request to the firmware
  through the transmit ring. The theory composes the three components as the code does and
  shows that the table's entries are always exactly the pool's outstanding blocks, so that
  no path leaks an entry or frees one twice.
\<close>

subsection \<open>Data\<close>

text \<open>\<open>lro_entry_t\<close>: the hash node is its first field, so the entry's address is the node's.\<close>

record lro_entry =
  le_addr :: nat
  le_ctx_id :: u32

type_synonym lro_node = "(nx_host_key, lro_entry) nx_hash_tbl_node"

definition NX_MAX_PKTS_PER_LRO :: nat where
  "NX_MAX_PKTS_PER_LRO = 10"

definition NX_1K_PER_LRO :: nat where
  "NX_1K_PER_LRO = 16"

record nx_lro_stats =
  accumulation :: "u64 list"
  bufsize :: "u64 list"
  chained_pkts :: u64
  contiguous_pkts :: u64

record nx_nic_host_lro =
  lro_initialized :: bool
  lro_enabled :: u8
  hash_tbl :: "(nx_host_key, lro_entry) nx_hash_tbl"
  mem_pool :: nx_mem_pool
  lro_stats :: nx_lro_stats

text \<open>The part of the adapter LRO touches; \<open>rx_ctx0\<close> is \<open>nx_dev->rx_ctxs[0]->context_id\<close>.\<close>

record lro_adapter =
  lro :: nx_nic_host_lro
  tx :: tx_adapter
  rx_ctx0 :: "u16 option"
  port_up :: bool

definition NX_NUM_LRO_ENTRIES :: u32 where
  "NX_NUM_LRO_ENTRIES = 32"

definition lro_ipv4_hash :: "nx_host_key \<Rightarrow> u32" where
  "lro_ipv4_hash k =
     (let h = (drop_bit 4 (v4 (daddr k) AND 0xF0F0F0F0)) OR (push_bit 4 (v4 (daddr k) AND 0x0F0F0F0F));
          h = h XOR push_bit 16 (ucast (dport k));
          h = h XOR v4 (saddr k);
          h = h XOR ucast (sport k);
          h = h XOR drop_bit 16 h
      in (h XOR drop_bit 8 h) AND (NX_NUM_LRO_ENTRIES - 1))"

definition lro_hash_ops :: "nx_host_key nx_hash_tbl_ops" where
  "lro_hash_ops = \<lparr>hash_fn = lro_ipv4_hash, compare_keys = nx_cmp_ip_key\<rparr>"

definition nx_lro_destroy_node :: "lro_node \<Rightarrow> nx_mem_pool \<Rightarrow> nx_mem_pool option" where
  "nx_lro_destroy_node n p = nx_mem_pool_free p (le_addr (node_data n))"

subsection \<open>Firmware requests\<close>

definition NX_NIC_HOST_REQUEST :: u64 where "NX_NIC_HOST_REQUEST = 0x13"
definition NX_NIC_H2C_OPCODE_LRO_REQUEST :: u64 where "NX_NIC_H2C_OPCODE_LRO_REQUEST = 7"
definition NX_NIC_LRO_REQUEST_ADD_FLOW :: u64 where "NX_NIC_LRO_REQUEST_ADD_FLOW = 1"
definition NX_NIC_LRO_REQUEST_CLEANUP :: u64 where "NX_NIC_LRO_REQUEST_CLEANUP = 4"

text \<open>\<open>nic_request_t\<close>'s opcode field, and the request header \<open>nic_req_hdr_t\<close>.\<close>

definition set_req_opcode :: "u64 \<Rightarrow> u64 \<Rightarrow> u64" where
  "set_req_opcode opcode w = put_bits 23 6 opcode w"

definition nic_req_hdr :: "u64 \<Rightarrow> u64 \<Rightarrow> u64 \<Rightarrow> u64" where
  "nic_req_hdr opcode ctxid sub_opcode =
     put_bits 56 8 sub_opcode (put_bits 16 16 ctxid (put_bits 0 8 opcode 0))"

text \<open>
  The add-flow request, \<open>nx_nic_lro_request_t\<close> in the body of a \<open>nic_request_t\<close> on the stack:
  the fields the code does not set keep the stack's contents.
\<close>

definition lro_add_request :: "cmd_desc \<Rightarrow> nx_host_key \<Rightarrow> u32 \<Rightarrow> u32 \<Rightarrow> u32 \<Rightarrow> cmd_desc" where
  "lro_add_request stack key rss ctx_id timestamp = stack\<lparr>
     word0 := set_req_opcode NX_NIC_HOST_REQUEST (word0 stack),
     word1 := nic_req_hdr NX_NIC_H2C_OPCODE_LRO_REQUEST (ucast ctx_id) NX_NIC_LRO_REQUEST_ADD_FLOW,
     word2 := put_bits 0 32 (ucast (v4 (daddr key))) (word2 stack),
     word4 := put_bits 0 32 (ucast (v4 (saddr key))) (word4 stack),
     word6 := put_bits 40 8 (ucast timestamp) (put_bits 32 8 0
                (put_bits 16 16 (ucast (sport key)) (put_bits 0 16 (ucast (dport key)) (word6 stack)))),
     word7 := put_bits 0 32 (ucast rss) (word7 stack)\<rparr>"

definition lro_cleanup_request :: "cmd_desc \<Rightarrow> u16 \<Rightarrow> cmd_desc" where
  "lro_cleanup_request stack ctx = stack\<lparr>
     word0 := set_req_opcode NX_NIC_HOST_REQUEST (word0 stack),
     word1 := nic_req_hdr NX_NIC_H2C_OPCODE_LRO_REQUEST (ucast ctx) NX_NIC_LRO_REQUEST_CLEANUP\<rparr>"

subsection \<open>Operations\<close>

text \<open>Every operation is \<^const>\<open>None\<close> where the code would hit a \<open>BUG()\<close> or leave an array.\<close>

definition nx_initiate_lro ::
  "pend_block option \<Rightarrow> cmd_desc \<Rightarrow> lro_adapter \<Rightarrow> nx_host_key \<Rightarrow> u32 \<Rightarrow> u32 \<Rightarrow> u32 \<Rightarrow>
   (int \<times> lro_adapter) option" where
  "nx_initiate_lro mem stack a key rss ctx_id timestamp =
     (case nx_mem_pool_alloc (mem_pool (lro a)) of
        (None, _) \<Rightarrow> Some (0, a)
      | (Some new, pool) \<Rightarrow>
          (case nx_hash_tbl_insert (hash_tbl (lro a))
                  \<lparr>node_key = key, node_data = \<lparr>le_addr = new, le_ctx_id = ctx_id\<rparr>\<rparr> of
             None \<Rightarrow> None
           | Some (rv, tbl) \<Rightarrow>
               if rv \<noteq> NX_HASH_TBL_NODE_INSERTED then
                 (case nx_mem_pool_free pool new of
                    None \<Rightarrow> None
                  | Some pool' \<Rightarrow> Some (rv, a\<lparr>lro := (lro a)\<lparr>hash_tbl := tbl, mem_pool := pool'\<rparr>\<rparr>))
               else
                 (case nx_nic_send_cmd_descs mem (tx a) [lro_add_request stack key rss ctx_id timestamp] of
                    (rv', tx') \<Rightarrow>
                      if rv' = 0
                      then Some (rv', a\<lparr>lro := (lro a)\<lparr>hash_tbl := tbl, mem_pool := pool\<rparr>, tx := tx'\<rparr>)
                      else (case nx_hash_tbl_delete tbl key of
                              None \<Rightarrow> None
                            | Some (_, tbl') \<Rightarrow>
                                (case nx_mem_pool_free pool new of
                                   None \<Rightarrow> None
                                 | Some pool' \<Rightarrow>
                                     Some (rv', a\<lparr>lro := (lro a)\<lparr>hash_tbl := tbl', mem_pool := pool'\<rparr>,
                                                  tx := tx'\<rparr>))))))"

definition nx_handle_lro_response :: "lro_adapter \<Rightarrow> nx_host_key \<Rightarrow> lro_adapter option" where
  "nx_handle_lro_response a key =
     (case nx_hash_tbl_delete (hash_tbl (lro a)) (key\<lparr>ip_version := 4\<rparr>) of
        None \<Rightarrow> None
      | Some (None, tbl) \<Rightarrow> Some (a\<lparr>lro := (lro a)\<lparr>hash_tbl := tbl\<rparr>\<rparr>)
      | Some (Some entry, tbl) \<Rightarrow>
          (case nx_mem_pool_free (mem_pool (lro a)) (le_addr (node_data entry)) of
             None \<Rightarrow> None
           | Some pool \<Rightarrow> Some (a\<lparr>lro := (lro a)\<lparr>hash_tbl := tbl, mem_pool := pool\<rparr>\<rparr>)))"

definition NX_FW_VERSION :: "nat \<Rightarrow> nat \<Rightarrow> nat \<Rightarrow> nat" where
  "NX_FW_VERSION a b c = a * 2 ^ 16 + b * 2 ^ 8 + c"

text \<open>\<open>sizeof(lro_entry_t)\<close>: hash node (32), key (40), context id and padding.\<close>

definition sizeof_lro_entry :: nat where
  "sizeof_lro_entry = 80"

text \<open>
  \<open>version\<close> is the running firmware's, \<open>query\<close> the result of \<open>nx_fw_cmd_query_max_lro\<close>
  (\<^const>\<open>None\<close> for a failure), \<open>mem\<close> and \<open>vmalloc_ok\<close> the allocators' answers.
\<close>

definition unm_init_lro ::
  "nat \<times> nat \<times> nat \<Rightarrow> nat option \<Rightarrow> (nat \<Rightarrow> nat option) \<Rightarrow> bool \<Rightarrow> lro_adapter \<Rightarrow>
   (int \<times> lro_adapter) option" where
  "unm_init_lro version query mem vmalloc_ok a =
     (case version of (major, minor, sub) \<Rightarrow>
      (case (if NX_FW_VERSION major minor sub \<ge> NX_FW_VERSION 4 0 222 then query else Some 32) of
        None \<Rightarrow> Some (- EIO, a)
      | Some max_lro \<Rightarrow>
          (case nx_mem_pool_create mem max_lro sizeof_lro_entry of
             None \<Rightarrow> None
           | Some (rv, pool, _) \<Rightarrow>
               if rv \<noteq> 0 then Some (rv, a\<lparr>lro := (lro a)\<lparr>mem_pool := pool\<rparr>\<rparr>)
               else
                 (case nx_hash_tbl_create vmalloc_ok max_lro lro_hash_ops of
                    (rv', tbl) \<Rightarrow>
                      if rv' \<noteq> 0 then
                        (case nx_mem_pool_destroy pool of
                           None \<Rightarrow> None
                         | Some (pool', _) \<Rightarrow>
                             Some (rv', a\<lparr>lro := (lro a)\<lparr>mem_pool := pool', hash_tbl := tbl\<rparr>\<rparr>))
                      else
                        Some (0, a\<lparr>lro := (lro a)\<lparr>mem_pool := pool, hash_tbl := tbl,
                                     lro_initialized := True, lro_enabled := 1\<rparr>\<rparr>)))))"

text \<open>The second component is the memory blocks returned to the kernel.\<close>

definition unm_cleanup_lro :: "lro_adapter \<Rightarrow> (lro_adapter \<times> nat list) option" where
  "unm_cleanup_lro a =
     (if lro_initialized (lro a) then
        (case nx_hash_tbl_destroy nx_lro_destroy_node (hash_tbl (lro a)) (mem_pool (lro a)) of
           None \<Rightarrow> None
         | Some pool \<Rightarrow>
             (case nx_mem_pool_destroy pool of
                None \<Rightarrow> None
              | Some (pool', freed) \<Rightarrow>
                  Some (a\<lparr>lro := (lro a)\<lparr>mem_pool := pool',
                            hash_tbl := (hash_tbl (lro a))\<lparr>buckets := None\<rparr>,
                            lro_initialized := False\<rparr>\<rparr>, freed)))
      else Some (a, []))"

definition nx_lro_send_cleanup :: "pend_block option \<Rightarrow> cmd_desc \<Rightarrow> lro_adapter \<Rightarrow> (int \<times> lro_adapter) option" where
  "nx_lro_send_cleanup mem stack a =
     (case rx_ctx0 a of
        None \<Rightarrow> None
      | Some ctx \<Rightarrow>
          Some (case nx_nic_send_cmd_descs mem (tx a) [lro_cleanup_request stack ctx] of
                  (rv, tx') \<Rightarrow> (rv, a\<lparr>tx := tx'\<rparr>)))"

text \<open>Deleting the flows of one context: each bucket in turn, freeing every entry unlinked.\<close>

fun delete_ctx_scan ::
  "u32 \<Rightarrow> lro_node list \<Rightarrow> nx_mem_pool \<Rightarrow> (lro_node list \<times> nx_mem_pool) option" where
  "delete_ctx_scan ctx [] p = Some ([], p)"
| "delete_ctx_scan ctx (n # ns) p =
     (if le_ctx_id (node_data n) = ctx then
        (case nx_mem_pool_free p (le_addr (node_data n)) of
           None \<Rightarrow> None
         | Some p' \<Rightarrow> delete_ctx_scan ctx ns p')
      else map_option (\<lambda>(ms, q). (n # ms, q)) (delete_ctx_scan ctx ns p))"

fun delete_ctx_buckets ::
  "u32 \<Rightarrow> lro_node list list \<Rightarrow> nx_mem_pool \<Rightarrow> (lro_node list list \<times> nx_mem_pool) option" where
  "delete_ctx_buckets ctx [] p = Some ([], p)"
| "delete_ctx_buckets ctx (b # bs) p =
     (case delete_ctx_scan ctx b p of
        None \<Rightarrow> None
      | Some (b', p') \<Rightarrow> map_option (\<lambda>(cs, q). (b' # cs, q)) (delete_ctx_buckets ctx bs p'))"

definition nx_lro_delete_ctx_lro :: "lro_adapter \<Rightarrow> u32 \<Rightarrow> lro_adapter option" where
  "nx_lro_delete_ctx_lro a ctx =
     (let t = hash_tbl (lro a) in
      case buckets t of
        None \<Rightarrow> if bucket_cnt t = 0 then Some a else None
      | Some bs \<Rightarrow>
          map_option (\<lambda>(bs', p). a\<lparr>lro := (lro a)\<lparr>hash_tbl := t\<lparr>buckets := Some bs'\<rparr>, mem_pool := p\<rparr>\<rparr>)
            (delete_ctx_buckets ctx bs (mem_pool (lro a))))"

text \<open>\<open>enabled\<close> is a byte compared with and assigned from an \<open>int\<close>.\<close>

definition nx_lro_set_state ::
  "pend_block option \<Rightarrow> cmd_desc \<Rightarrow> lro_adapter \<Rightarrow> int \<Rightarrow> (int \<times> lro_adapter) option" where
  "nx_lro_set_state mem stack a val =
     (if uint (lro_enabled (lro a)) = val then Some (0, a)
      else if \<not> lro_initialized (lro a) \<and> val \<noteq> 0 then Some (- EIO, a)
      else if val = 0 then
        (case nx_lro_send_cleanup mem stack a of
           None \<Rightarrow> None
         | Some (rv, a') \<Rightarrow>
             if rv \<noteq> 0 then Some (1, a')
             else Some (0, a'\<lparr>lro := (lro a')\<lparr>lro_enabled := of_int val\<rparr>\<rparr>))
      else Some (0, a\<lparr>lro := (lro a)\<lparr>lro_enabled := of_int val\<rparr>\<rparr>))"

text \<open>\<open>user\<close> is the byte \<open>copy_from_user\<close> delivers, or its failure.\<close>

definition nx_write_lro_state ::
  "pend_block option \<Rightarrow> cmd_desc \<Rightarrow> bool \<Rightarrow> u8 option \<Rightarrow> int \<Rightarrow> lro_adapter \<Rightarrow> (int \<times> lro_adapter) option" where
  "nx_write_lro_state mem stack capable user cnt a =
     (if \<not> capable then Some (- EACCES, a)
      else if \<not> port_up a then Some (- EINVAL, a)
      else (case user of
              None \<Rightarrow> Some (- EFAULT, a)
            | Some b \<Rightarrow> map_option (\<lambda>(_, a'). (cnt, a')) (nx_lro_set_state mem stack a (uint b - 48))))"

definition nx_write_lro_stats :: "bool \<Rightarrow> u8 option \<Rightarrow> int \<Rightarrow> lro_adapter \<Rightarrow> int \<times> lro_adapter" where
  "nx_write_lro_stats capable user cnt a =
     (if \<not> capable then (- EACCES, a)
      else if \<not> port_up a then (- EINVAL, a)
      else (case user of
              None \<Rightarrow> (- EFAULT, a)
            | Some b \<Rightarrow> (cnt, a\<lparr>lro := (lro a)\<lparr>lro_stats :=
                \<lparr>accumulation = replicate NX_MAX_PKTS_PER_LRO 0, bufsize = replicate NX_1K_PER_LRO 0,
                 chained_pkts = 0, contiguous_pkts = 0\<rparr>\<rparr>\<rparr>)))"

subsection \<open>Recognising a flow in a received packet\<close>

text \<open>
  A linear socket buffer: the whole buffer and the offset of \<open>skb->data\<close> in it, which
  \<open>skb_pull\<close> and \<open>skb_push\<close> move. \<open>skb_pull\<close> past the end does nothing and returns NULL;
  \<open>skb_push\<close> in front of the buffer panics. \<open>skb_protocol\<close> is in host byte order.
\<close>

record sk_buff =
  skb_protocol :: u16
  skb_bytes :: "u8 list"
  skb_off :: nat

definition skb_pull :: "sk_buff \<Rightarrow> nat \<Rightarrow> sk_buff option" where
  "skb_pull s n =
     (if skb_off s + n > length (skb_bytes s) then None else Some (s\<lparr>skb_off := skb_off s + n\<rparr>))"

definition skb_push :: "sk_buff \<Rightarrow> nat \<Rightarrow> sk_buff option" where
  "skb_push s n = (if n > skb_off s then None else Some (s\<lparr>skb_off := skb_off s - n\<rparr>))"

text \<open>Header bytes, and 16- and 32-bit fields in network order; reading outside is the crash.\<close>

definition rd8 :: "sk_buff \<Rightarrow> nat \<Rightarrow> u8 option" where
  "rd8 s i = (if skb_off s + i < length (skb_bytes s) then Some (skb_bytes s ! (skb_off s + i)) else None)"

definition rd16 :: "sk_buff \<Rightarrow> nat \<Rightarrow> u16 option" where
  "rd16 s i = do { a \<leftarrow> rd8 s i; b \<leftarrow> rd8 s (i + 1); Some (push_bit 8 (ucast a) OR ucast b) }"

definition rd32 :: "sk_buff \<Rightarrow> nat \<Rightarrow> u32 option" where
  "rd32 s i = do { a \<leftarrow> rd16 s i; b \<leftarrow> rd16 s (i + 2); Some (push_bit 16 (ucast a) OR ucast b) }"

definition IPV4_HDR_SIZE :: nat where "IPV4_HDR_SIZE = 20"
definition TCP_HDR_SIZE :: nat where "TCP_HDR_SIZE = 20"
definition TCP_TS_OPTION_SIZE :: nat where "TCP_TS_OPTION_SIZE = 12"
definition ETH_P_IP :: u16 where "ETH_P_IP = 0x0800"

text \<open>
  The TCP part, from the point where \<open>skb->data\<close> is at the TCP header: \<open>\<^const>\<open>None\<close>\<close> as the
  first component stands for \<open>goto done\<close> with nothing to offload, otherwise it is the
  timestamp flag. \<open>s\<close> is the buffer at the TCP header and \<open>ip\<close> the one at the IP header.
\<close>

definition lro_check_tcp :: "sk_buff \<Rightarrow> sk_buff \<Rightarrow> (u32 option \<times> sk_buff) option" where
  "lro_check_tcp ip s = do {
     flags \<leftarrow> rd8 s 13;
     if flags AND 0x27 \<noteq> 0 then Some (None, s) else do {
       tot_len \<leftarrow> rd16 ip 2;
       ihl \<leftarrow> rd8 ip 0;
       doff \<leftarrow> rd8 s 12;
       let hl = unat (ihl AND 15); dl = unat (drop_bit 4 doff) in
       if unat tot_len \<le> (hl + dl) * 4 then Some (None, s)
       else if dl * 4 = TCP_HDR_SIZE then Some (Some 0, s)
       else if dl * 4 \<noteq> TCP_HDR_SIZE + TCP_TS_OPTION_SIZE then Some (None, s)
       else (let s' = (case skb_pull s TCP_HDR_SIZE of None \<Rightarrow> s | Some s' \<Rightarrow> s') in do {
         ts \<leftarrow> rd32 s' 0;
         s'' \<leftarrow> skb_push s' TCP_HDR_SIZE;
         if ts \<noteq> 0x0101080a then Some (None, s'') else Some (Some 1, s'') }) } }"

text \<open>
  \<open>local\<close> tells whether routing resolves the destination to this adapter's device or a VLAN
  device on top of it; \<open>kstack\<close> is the uninitialised stack copy of the key.
\<close>

definition nx_try_initiate_lro ::
  "(u32 \<Rightarrow> bool) \<Rightarrow> pend_block option \<Rightarrow> cmd_desc \<Rightarrow> nx_host_key \<Rightarrow> lro_adapter \<Rightarrow> sk_buff \<Rightarrow> u32 \<Rightarrow> u32 \<Rightarrow>
   (int \<times> sk_buff \<times> lro_adapter) option" where
  "nx_try_initiate_lro local mem stack kstack a skb rss ctx_id =
     (if skb_protocol skb \<noteq> ETH_P_IP then Some (1, skb, a) else do {
        b0 \<leftarrow> rd8 skb 0;
        if drop_bit 4 b0 \<noteq> NX_IP_VERSION_V4 \<or> unat (b0 AND 15) \<noteq> IPV4_HDR_SIZE div 4
        then Some (1, skb, a) else do {
          proto \<leftarrow> rd8 skb 9;
          da \<leftarrow> rd32 skb 16;
          if proto \<noteq> 6 \<or> \<not> local da then Some (1, skb, a)
          else (case skb_pull skb (unat (b0 AND 15) * 4) of
                  None \<Rightarrow> Some (1, skb, a)
                | Some th \<Rightarrow> do {
                    (verdict, th') \<leftarrow> lro_check_tcp skb th;
                    (rv, a') \<leftarrow> (case verdict of
                       None \<Rightarrow> Some (1, a)
                     | Some timestamp \<Rightarrow> do {
                         sa \<leftarrow> rd32 skb 12;
                         sp \<leftarrow> rd16 th 0;
                         dp \<leftarrow> rd16 th 2;
                         nx_initiate_lro mem stack a
                           (kstack\<lparr>daddr := (daddr kstack)\<lparr>v6_0 := da\<rparr>, saddr := (saddr kstack)\<lparr>v6_0 := sa\<rparr>,
                                   sport := sp, dport := dp, ip_version := NX_IP_VERSION_V4\<rparr>)
                           rss ctx_id timestamp });
                    skb' \<leftarrow> skb_push th' (unat (b0 AND 15) * 4);
                    Some (rv, skb', a') }) } })"

subsection \<open>Invariant\<close>

definition lro_addrs :: "(nx_host_key, lro_entry) nx_hash_tbl \<Rightarrow> nat list" where
  "lro_addrs t = map (\<lambda>n. le_addr (node_data n)) (tbl_nodes t)"

text \<open>The table's entries are the pool's outstanding blocks, each once.\<close>

definition lro_inv :: "nx_nic_host_lro \<Rightarrow> bool" where
  "lro_inv l \<longleftrightarrow>
     tbl_inv (hash_tbl l) \<and> distinct (lro_addrs (hash_tbl l)) \<and>
     pool_inv (mem_pool l) (set (lro_addrs (hash_tbl l)))"

lemma addrs_mset: "mset (lro_addrs t) = image_mset (\<lambda>n. le_addr (node_data n)) (mset (tbl_nodes t))"
  by (simp add: lro_addrs_def)

lemma addrs_add:
  assumes "mset (tbl_nodes t') = add_mset n (mset (tbl_nodes t))"
  shows "distinct (lro_addrs t') \<longleftrightarrow> le_addr (node_data n) \<notin> set (lro_addrs t) \<and> distinct (lro_addrs t)"
    and "set (lro_addrs t') = insert (le_addr (node_data n)) (set (lro_addrs t))"
proof -
  have m: "mset (lro_addrs t') = mset (le_addr (node_data n) # lro_addrs t)"
    using assms by (simp add: addrs_mset)
  show "distinct (lro_addrs t') \<longleftrightarrow> le_addr (node_data n) \<notin> set (lro_addrs t) \<and> distinct (lro_addrs t)"
    using mset_eq_imp_distinct_iff [OF m] by simp
  show "set (lro_addrs t') = insert (le_addr (node_data n)) (set (lro_addrs t))"
    using mset_eq_setD [OF m] by simp
qed

text \<open>Taking an entry out of the table and giving its block back keeps the two in step.\<close>

lemma unlink_free:
  assumes "tbl_inv t'" "distinct (lro_addrs t)" "pool_inv p (set (lro_addrs t))"
    and m: "mset (tbl_nodes t) = add_mset n (mset (tbl_nodes t'))"
  shows "\<exists>p'. nx_mem_pool_free p (le_addr (node_data n)) = Some p' \<and>
              lro_inv (l\<lparr>hash_tbl := t', mem_pool := p'\<rparr>)"
proof -
  note a = addrs_add [OF m]
  from mem_pool.free_some [OF assms(3), of "le_addr (node_data n)"] a(2) obtain p' where
    p': "nx_mem_pool_free p (le_addr (node_data n)) = Some p'"
      "pool_inv p' (set (lro_addrs t) - {le_addr (node_data n)})" by auto
  have "set (lro_addrs t) - {le_addr (node_data n)} = set (lro_addrs t')" using a assms(2) by auto
  with p' a assms show ?thesis by (simp add: lro_inv_def)
qed

subsection \<open>Setting up and tearing down flows\<close>

definition flow_entry :: "nx_host_key \<Rightarrow> nat \<Rightarrow> u32 \<Rightarrow> lro_node" where
  "flow_entry key new ctx = \<lparr>node_key = key, node_data = \<lparr>le_addr = new, le_ctx_id = ctx\<rparr>\<rparr>"

lemma flow_entry_addr [simp]: "le_addr (node_data (flow_entry key new ctx)) = new" "node_key (flow_entry key new ctx) = key"
  by (simp_all add: flow_entry_def)

text \<open>The insertion step of \<open>nx_initiate_lro\<close>: a fresh block and the table's answer.\<close>

lemma initiate_insert:
  assumes inv: "lro_inv l" and al: "nx_mem_pool_alloc (mem_pool l) = (Some new, pool)"
  obtains rv tbl where "nx_hash_tbl_insert (hash_tbl l) (flow_entry key new ctx) = Some (rv, tbl)"
    "tbl_inv tbl" "pool_inv pool (insert new (set (lro_addrs (hash_tbl l))))"
    "new \<notin> set (lro_addrs (hash_tbl l))"
    "tbl_lookup (hash_tbl l) key \<noteq> None \<Longrightarrow> rv = NX_HASH_TBL_NODE_EXISTS \<and> tbl = hash_tbl l"
    "tbl_lookup (hash_tbl l) key = None \<Longrightarrow> rv = NX_HASH_TBL_NODE_INSERTED \<and>
       (\<forall>k. tbl_lookup tbl k = (if same_slot (hash_tbl l) k key then Some (flow_entry key new ctx)
                                else tbl_lookup (hash_tbl l) k)) \<and>
       mset (tbl_nodes tbl) = add_mset (flow_entry key new ctx) (mset (tbl_nodes (hash_tbl l)))"
proof -
  from inv have t: "tbl_inv (hash_tbl l)" by (simp add: lro_inv_def)
  from mem_pool.alloc_some [OF _ al] inv have
    p: "new \<notin> set (lro_addrs (hash_tbl l))" "pool_inv pool (insert new (set (lro_addrs (hash_tbl l))))"
    by (auto simp: lro_inv_def)
  from insert_spec [OF t, of "flow_entry key new ctx"] obtain rv tbl where
    "nx_hash_tbl_insert (hash_tbl l) (flow_entry key new ctx) = Some (rv, tbl)" "tbl_inv tbl"
    "if tbl_lookup (hash_tbl l) key \<noteq> None then rv = NX_HASH_TBL_NODE_EXISTS \<and> tbl = hash_tbl l
     else rv = NX_HASH_TBL_NODE_INSERTED \<and>
       (\<forall>k. tbl_lookup tbl k = (if same_slot (hash_tbl l) k key then Some (flow_entry key new ctx)
                                else tbl_lookup (hash_tbl l) k)) \<and>
       mset (tbl_nodes tbl) = add_mset (flow_entry key new ctx) (mset (tbl_nodes (hash_tbl l)))"
    by auto
  with p show ?thesis by (intro that [of rv tbl]) (auto split: if_splits)
qed

lemma initiate_spec:
  assumes inv: "lro_inv (lro a)" and ring: "ring_inv (tx a)" and mem: "\<forall>b. mem = Some b \<longrightarrow> blk_array b"
  shows "\<exists>rv a'. nx_initiate_lro mem stack a key rss ctx ts = Some (rv, a') \<and>
    lro_inv (lro a') \<and> ring_inv (tx a') \<and>
    (rv = 0 \<and> a' = a \<and> pool_free_list (mem_pool (lro a)) = [] \<or>
     rv = 0 \<and> tbl_lookup (hash_tbl (lro a)) key = None \<and>
       (\<exists>new. \<forall>k. tbl_lookup (hash_tbl (lro a')) k =
          (if same_slot (hash_tbl (lro a)) k key then Some (flow_entry key new ctx)
           else tbl_lookup (hash_tbl (lro a)) k)) \<and>
       tx_stream (tx a') = tx_stream (tx a) @ [lro_add_request stack key rss ctx ts] \<or>
     rv \<noteq> 0 \<and> tx_stream (tx a') = tx_stream (tx a) \<and>
       (\<forall>k. tbl_lookup (hash_tbl (lro a')) k = tbl_lookup (hash_tbl (lro a)) k))"
proof -
  let ?t = "hash_tbl (lro a)"
  obtain r pool where al: "nx_mem_pool_alloc (mem_pool (lro a)) = (r, pool)"
    by (cases "nx_mem_pool_alloc (mem_pool (lro a))")
  show ?thesis
  proof (cases r)
    case None
    with al alloc_None inv ring show ?thesis by (auto simp: nx_initiate_lro_def)
  next
    case (Some new)
    let ?n = "flow_entry key new ctx"
    obtain rv tbl where ins: "nx_hash_tbl_insert ?t ?n = Some (rv, tbl)" "tbl_inv tbl"
      and pi: "pool_inv pool (insert new (set (lro_addrs ?t)))" and fresh: "new \<notin> set (lro_addrs ?t)"
      and ex: "tbl_lookup ?t key \<noteq> None \<Longrightarrow> rv = NX_HASH_TBL_NODE_EXISTS \<and> tbl = ?t"
      and new: "tbl_lookup ?t key = None \<Longrightarrow> rv = NX_HASH_TBL_NODE_INSERTED \<and>
       (\<forall>k. tbl_lookup tbl k = (if same_slot ?t k key then Some ?n else tbl_lookup ?t k)) \<and>
       mset (tbl_nodes tbl) = add_mset ?n (mset (tbl_nodes ?t))"
      using initiate_insert [OF inv al [unfolded Some]] by metis
    have t: "tbl_inv ?t" and d: "distinct (lro_addrs ?t)" using inv by (simp_all add: lro_inv_def)
    note def = nx_initiate_lro_def [of mem stack a key rss ctx ts, folded flow_entry_def]
    show ?thesis
    proof (cases "tbl_lookup ?t key")
      case (Some old)
      with ex have rv: "rv = NX_HASH_TBL_NODE_EXISTS" "tbl = ?t" by simp_all
      from mem_pool.free_some [OF pi, of new] fresh obtain pool' where
        "nx_mem_pool_free pool new = Some pool'" "pool_inv pool' (set (lro_addrs ?t))" by auto
      with al \<open>r = Some new\<close> ins(1) rv t d ring show ?thesis
        by (simp add: def lro_inv_def NX_HASH_TBL_NODE_EXISTS_def NX_HASH_TBL_NODE_INSERTED_def)
    next
      case None
      with new have rv: "rv = NX_HASH_TBL_NODE_INSERTED"
        and look: "\<And>k. tbl_lookup tbl k = (if same_slot ?t k key then Some ?n else tbl_lookup ?t k)"
        and nodes: "mset (tbl_nodes tbl) = add_mset ?n (mset (tbl_nodes ?t))" by simp_all
      note ad = addrs_add [OF nodes]
      obtain rv' tx' where send: "nx_nic_send_cmd_descs mem (tx a) [lro_add_request stack key rss ctx ts] = (rv', tx')"
        by (cases "nx_nic_send_cmd_descs mem (tx a) [lro_add_request stack key rss ctx ts]")
      note sc = send_cases [OF ring mem send]
      show ?thesis
      proof (cases "rv' = 0")
        case True
        have "nx_initiate_lro mem stack a key rss ctx ts =
            Some (0, a\<lparr>lro := (lro a)\<lparr>hash_tbl := tbl, mem_pool := pool\<rparr>, tx := tx'\<rparr>)"
          using al \<open>r = Some new\<close> ins(1) rv send True by (simp add: def)
        moreover have "lro_inv ((lro a)\<lparr>hash_tbl := tbl, mem_pool := pool\<rparr>)"
          using ins(2) ad fresh d pi by (simp add: lro_inv_def)
        ultimately show ?thesis using sc True look None by auto
      next
        case False
        from delete_spec [OF ins(2), of key] obtain tbl' where
          del: "nx_hash_tbl_delete tbl key = Some (tbl_lookup tbl key, tbl')" "tbl_inv tbl'"
            "\<And>k. tbl_lookup tbl' k = (if same_slot tbl k key then None else tbl_lookup tbl k)"
            "mset (tbl_nodes tbl) = (case tbl_lookup tbl key of None \<Rightarrow> {#} | Some n \<Rightarrow> {#n#}) + mset (tbl_nodes tbl')"
          by blast
        have found: "tbl_lookup tbl key = Some ?n" by (simp add: look hash_dict.same_refl [OF t])
        have pt: "pool_inv pool (set (lro_addrs tbl))" "distinct (lro_addrs tbl)"
          using ad pi fresh d by simp_all
        from unlink_free [OF del(2) pt(2,1), of ?n "lro a"] del(4) found obtain pool' where
          fr: "nx_mem_pool_free pool new = Some pool'" "lro_inv ((lro a)\<lparr>hash_tbl := tbl', mem_pool := pool'\<rparr>)"
          by auto
        have "nx_initiate_lro mem stack a key rss ctx ts =
            Some (rv', a\<lparr>lro := (lro a)\<lparr>hash_tbl := tbl', mem_pool := pool'\<rparr>, tx := tx'\<rparr>)"
          using al \<open>r = Some new\<close> ins(1) rv send False del(1) fr(1) by (simp add: def)
        moreover have "tbl_lookup tbl' k = tbl_lookup ?t k" for k
        proof -
          have "same_slot tbl = same_slot ?t"
            using insert_spec [OF t, of ?n] ins(1) by auto
          then show ?thesis
            using None hash_dict.same_cong [OF t, of k key] by (simp add: del(3) look)
        qed
        ultimately show ?thesis using sc False fr(2) by (auto simp: tx_stream_def)
      qed
    qed
  qed
qed

lemma response_spec:
  assumes inv: "lro_inv (lro a)"
  shows "\<exists>a'. nx_handle_lro_response a key = Some a' \<and> lro_inv (lro a') \<and> tx a' = tx a \<and>
    (\<forall>k. tbl_lookup (hash_tbl (lro a')) k =
       (if same_slot (hash_tbl (lro a)) k (key\<lparr>ip_version := 4\<rparr>) then None
        else tbl_lookup (hash_tbl (lro a)) k))"
proof -
  let ?t = "hash_tbl (lro a)" and ?k = "key\<lparr>ip_version := 4\<rparr>"
  have t: "tbl_inv ?t" using inv by (simp add: lro_inv_def)
  from delete_spec [OF t, of ?k] obtain t' where
    del: "nx_hash_tbl_delete ?t ?k = Some (tbl_lookup ?t ?k, t')" "tbl_inv t'"
      "\<And>k. tbl_lookup t' k = (if same_slot ?t k ?k then None else tbl_lookup ?t k)"
      "mset (tbl_nodes ?t) = (case tbl_lookup ?t ?k of None \<Rightarrow> {#} | Some n \<Rightarrow> {#n#}) + mset (tbl_nodes t')"
    by blast
  show ?thesis
  proof (cases "tbl_lookup ?t ?k")
    case None
    with del(4) have "mset (lro_addrs t') = mset (lro_addrs ?t)" by (simp add: addrs_mset)
    then have "distinct (lro_addrs t') = distinct (lro_addrs ?t)" "set (lro_addrs t') = set (lro_addrs ?t)"
      using mset_eq_imp_distinct_iff mset_eq_setD by blast+
    with None del(1-3) inv show ?thesis by (simp add: nx_handle_lro_response_def lro_inv_def)
  next
    case (Some n)
    with del(4) have m: "mset (tbl_nodes ?t) = add_mset n (mset (tbl_nodes t'))" by simp
    have d: "distinct (lro_addrs ?t)" "pool_inv (mem_pool (lro a)) (set (lro_addrs ?t))"
      using inv by (simp_all add: lro_inv_def)
    from unlink_free [OF del(2) d m, of "lro a"] obtain p' where
      "nx_mem_pool_free (mem_pool (lro a)) (le_addr (node_data n)) = Some p'"
      "lro_inv ((lro a)\<lparr>hash_tbl := t', mem_pool := p'\<rparr>)" by blast
    with Some del(1,3) show ?thesis by (simp add: nx_handle_lro_response_def)
  qed
qed

definition in_ctx :: "u32 \<Rightarrow> lro_node \<Rightarrow> bool" where
  "in_ctx ctx n \<longleftrightarrow> le_ctx_id (node_data n) = ctx"

abbreviation node_addrs :: "lro_node list \<Rightarrow> nat list" where
  "node_addrs ns \<equiv> map (\<lambda>n. le_addr (node_data n)) ns"

lemma delete_ctx_scan_spec:
  "pool_inv p A \<Longrightarrow> distinct (node_addrs ns) \<Longrightarrow> set (node_addrs ns) \<subseteq> A \<Longrightarrow>
   \<exists>p'. delete_ctx_scan ctx ns p = Some (filter (\<lambda>n. \<not> in_ctx ctx n) ns, p') \<and>
        pool_inv p' (A - set (node_addrs (filter (in_ctx ctx) ns)))"
proof (induction ns arbitrary: p A)
  case Nil
  then show ?case by simp
next
  case (Cons n ns)
  show ?case
  proof (cases "in_ctx ctx n")
    case True
    from mem_pool.free_some [OF Cons.prems(1), of "le_addr (node_data n)"] Cons.prems(3) obtain p' where
      p': "nx_mem_pool_free p (le_addr (node_data n)) = Some p'" "pool_inv p' (A - {le_addr (node_data n)})"
      by auto
    have "A - {le_addr (node_data n)} - set (node_addrs (filter (in_ctx ctx) ns)) =
          A - set (node_addrs (filter (in_ctx ctx) (n # ns)))" using True by auto
    moreover have "set (node_addrs ns) \<subseteq> A - {le_addr (node_data n)}"
      using Cons.prems(2,3) by (simp add: subset_Diff_insert)
    ultimately show ?thesis
      using Cons.IH [OF p'(2)] Cons.prems(2) p'(1) True by (auto simp: in_ctx_def)
  next
    case False
    with Cons show ?thesis by (force simp: in_ctx_def)
  qed
qed

lemma delete_ctx_buckets_spec:
  "pool_inv p A \<Longrightarrow> distinct (node_addrs (concat bs)) \<Longrightarrow> set (node_addrs (concat bs)) \<subseteq> A \<Longrightarrow>
   \<exists>p'. delete_ctx_buckets ctx bs p = Some (map (filter (\<lambda>n. \<not> in_ctx ctx n)) bs, p') \<and>
        pool_inv p' (A - set (node_addrs (filter (in_ctx ctx) (concat bs))))"
proof (induction bs arbitrary: p A)
  case Nil
  then show ?case by simp
next
  case (Cons b bs)
  have d: "distinct (node_addrs b)" "set (node_addrs b) \<subseteq> A" "distinct (node_addrs (concat bs))"
    using Cons.prems by auto
  from delete_ctx_scan_spec [OF Cons.prems(1) d(1,2), of ctx] obtain p' where
    p': "delete_ctx_scan ctx b p = Some (filter (\<lambda>n. \<not> in_ctx ctx n) b, p')"
      "pool_inv p' (A - set (node_addrs (filter (in_ctx ctx) b)))" by blast
  have "set (node_addrs (concat bs)) \<subseteq> A - set (node_addrs (filter (in_ctx ctx) b))"
    using Cons.prems(2,3) by (auto simp del: set_concat)
  from Cons.IH [OF p'(2) d(3) this] obtain q where
    q: "delete_ctx_buckets ctx bs p' = Some (map (filter (\<lambda>n. \<not> in_ctx ctx n)) bs, q)"
      "pool_inv q (A - set (node_addrs (filter (in_ctx ctx) b)) -
         set (node_addrs (filter (in_ctx ctx) (concat bs))))" by blast
  have "A - set (node_addrs (filter (in_ctx ctx) b)) - set (node_addrs (filter (in_ctx ctx) (concat bs))) =
        A - set (node_addrs (filter (in_ctx ctx) (concat (b # bs))))"
    by (simp only: concat.simps filter_append map_append set_append Diff_eq Compl_Un Int_assoc)
  with q p'(1) show ?case by (simp del: set_map set_filter)
qed

text \<open>Dropping nodes from a bucket drops them from the lookups: no hidden duplicate surfaces.\<close>

lemma find_scan_filter:
  assumes "cmp_equiv cmp" "sorted_wrt (\<lambda>a b. cmp (node_key a) (node_key b) \<noteq> 0) ns"
  shows "find_scan cmp k (filter P ns) =
           (case find_scan cmp k ns of None \<Rightarrow> None | Some n \<Rightarrow> if P n then Some n else None)"
  using assms(2)
proof (induction ns)
  case Nil
  then show ?case by simp
next
  case (Cons n ns)
  show ?case
  proof (cases "cmp k (node_key n) = 0")
    case True
    have "\<forall>m \<in> set ns. cmp k (node_key m) \<noteq> 0"
      using Cons.prems cmp_equiv_cong(1) [OF assms(1) True] by simp
    then have "find_scan cmp k (filter P ns) = None" by (simp add: find_scan_None)
    with True show ?thesis by simp
  next
    case False
    with Cons show ?thesis by simp
  qed
qed

lemma filter_buckets:
  assumes inv: "tbl_inv t" and bs: "buckets t = Some bs" and t': "t' = t\<lparr>buckets := Some (map (filter P) bs)\<rparr>"
  shows "tbl_inv t'" "tbl_nodes t' = filter P (tbl_nodes t)"
    "tbl_lookup t' k = (case tbl_lookup t k of None \<Rightarrow> None | Some n \<Rightarrow> if P n then Some n else None)"
proof -
  have g: "get_bucket t' = get_bucket t" "cmp_of t' = cmp_of t"
    using bs by (auto simp: t' get_bucket_def cmp_of_def fun_eq_iff split: option.splits)
  from inv bs have b: "length bs = bucket_cnt t" "\<forall>i < length bs. bucket_ok t i (bs ! i)"
    and e: "cmp_equiv (cmp_of t)" by (auto simp: tbl_inv_def)
  have "bucket_ok t' i (map (filter P) bs ! i)" if "i < length bs" for i
    using b(2) that by (auto simp: bucket_ok_def g sorted_wrt_filter)
  with inv b bs show "tbl_inv t'" unfolding tbl_inv_def g by (auto simp: t')
  show "tbl_nodes t' = filter P (tbl_nodes t)" using bs by (simp add: t' tbl_nodes_def filter_concat)
  obtain i bs' where i': "get_bucket t k = Some i" "buckets t = Some bs'" "i < length bs'"
    "bucket_ok t i (bucket_at t i)" "bucket_at t i = bs' ! i"
    using get_bucket_ok [OF inv, of k] .
  with bs have i: "get_bucket t k = Some i" "i < length bs" "bucket_at t i = bs ! i" by simp_all
  have "sorted_wrt (\<lambda>a b. cmp_of t (node_key a) (node_key b) \<noteq> 0) (bs ! i)"
    using b(2) i(2) by (simp add: bucket_ok_def)
  note ff = find_scan_filter [OF e this, of k P]
  have "bucket_at t' i = filter P (bs ! i)" using i(2) by (simp add: bucket_at_def t')
  with ff i
  show "tbl_lookup t' k = (case tbl_lookup t k of None \<Rightarrow> None | Some n \<Rightarrow> if P n then Some n else None)"
    by (simp add: tbl_lookup_def g)
qed

lemma delete_ctx_spec:
  assumes inv: "lro_inv (lro a)"
  shows "\<exists>a'. nx_lro_delete_ctx_lro a ctx = Some a' \<and> lro_inv (lro a') \<and> tx a' = tx a \<and>
    (\<forall>k. tbl_lookup (hash_tbl (lro a')) k =
       (case tbl_lookup (hash_tbl (lro a)) k of None \<Rightarrow> None
        | Some n \<Rightarrow> if in_ctx ctx n then None else Some n))"
proof -
  let ?t = "hash_tbl (lro a)"
  have t: "tbl_inv ?t" and d: "distinct (lro_addrs ?t)" and p: "pool_inv (mem_pool (lro a)) (set (lro_addrs ?t))"
    using inv by (simp_all add: lro_inv_def)
  from t obtain bs where bs: "buckets ?t = Some bs" by (auto simp: tbl_inv_def)
  have ad: "lro_addrs ?t = node_addrs (concat bs)" using bs by (simp add: lro_addrs_def tbl_nodes_def)
  from delete_ctx_buckets_spec [OF p, of bs ctx] d obtain p' where
    p': "delete_ctx_buckets ctx bs (mem_pool (lro a)) = Some (map (filter (\<lambda>n. \<not> in_ctx ctx n)) bs, p')"
      "pool_inv p' (set (lro_addrs ?t) - set (node_addrs (filter (in_ctx ctx) (concat bs))))"
    unfolding ad by blast
  let ?t' = "?t\<lparr>buckets := Some (map (filter (\<lambda>n. \<not> in_ctx ctx n)) bs)\<rparr>"
  note f = filter_buckets [OF t bs refl, of "\<lambda>n. \<not> in_ctx ctx n"]
  have ad': "lro_addrs ?t' = node_addrs (filter (\<lambda>n. \<not> in_ctx ctx n) (concat bs))"
    using f(2) bs by (simp add: lro_addrs_def tbl_nodes_def)
  have dd: "distinct (node_addrs (concat bs))" using d ad by simp
  have "set (node_addrs (filter (\<lambda>n. \<not> in_ctx ctx n) (concat bs))) =
        set (node_addrs (concat bs)) - set (node_addrs (filter (in_ctx ctx) (concat bs)))"
  proof -
    have "inj_on (\<lambda>n. le_addr (node_data n)) (set (concat bs))" using dd by (simp add: distinct_map)
    then show ?thesis unfolding inj_on_def by (auto simp del: set_concat)
  qed
  with p'(2) ad' ad have "pool_inv p' (set (lro_addrs ?t'))" by simp
  moreover have "distinct (lro_addrs ?t')"
    unfolding ad' using dd by (simp add: distinct_map_filter)
  ultimately have "lro_inv ((lro a)\<lparr>hash_tbl := ?t', mem_pool := p'\<rparr>)"
    using f(1) by (simp add: lro_inv_def)
  with p'(1) bs f(3) show ?thesis
    by (auto simp: nx_lro_delete_ctx_lro_def split: option.splits)
qed

lemma pool_free_nodes: "nx_mem_pool_free p x = Some p' \<Longrightarrow> pool_nodes p' = pool_nodes p"
  by (auto simp: nx_mem_pool_free_def Let_def split: if_splits)

lemma destroy_nodes_spec:
  "pool_inv p A \<Longrightarrow> distinct (node_addrs ns) \<Longrightarrow> set (node_addrs ns) \<subseteq> A \<Longrightarrow>
   \<exists>p'. destroy_nodes nx_lro_destroy_node ns p = Some p' \<and> pool_inv p' (A - set (node_addrs ns)) \<and>
        pool_nodes p' = pool_nodes p"
proof (induction ns arbitrary: p A)
  case Nil
  then show ?case by simp
next
  case (Cons n ns)
  from mem_pool.free_some [OF Cons.prems(1), of "le_addr (node_data n)"] Cons.prems(3) obtain p' where
    p': "nx_mem_pool_free p (le_addr (node_data n)) = Some p'" "pool_inv p' (A - {le_addr (node_data n)})"
    by auto
  have sub: "set (node_addrs ns) \<subseteq> A - {le_addr (node_data n)}"
    using Cons.prems(2,3) by (simp add: subset_Diff_insert)
  have "A - {le_addr (node_data n)} - set (node_addrs ns) = A - set (node_addrs (n # ns))" by auto
  with Cons.IH [OF p'(2) _ sub] Cons.prems(2) p'(1) pool_free_nodes [OF p'(1)] show ?case
    by (auto simp: nx_lro_destroy_node_def)
qed

lemma cleanup_spec:
  assumes inv: "lro_inv (lro a)" and init: "lro_initialized (lro a)"
  shows "\<exists>a' freed. unm_cleanup_lro a = Some (a', freed) \<and> \<not> lro_initialized (lro a') \<and>
    distinct freed \<and> set freed = set (pool_nodes (mem_pool (lro a)))"
proof -
  let ?t = "hash_tbl (lro a)" and ?p = "mem_pool (lro a)"
  have t: "tbl_inv ?t" and d: "distinct (lro_addrs ?t)" and p: "pool_inv ?p (set (lro_addrs ?t))"
    using inv by (simp_all add: lro_inv_def)
  from t obtain bs where bs: "buckets ?t = Some bs" "length bs = bucket_cnt ?t" by (auto simp: tbl_inv_def)
  have ad: "lro_addrs ?t = node_addrs (concat bs)" using bs by (simp add: lro_addrs_def tbl_nodes_def)
  from destroy_nodes_spec [OF p, of "concat bs"] d obtain p' where
    p': "destroy_nodes nx_lro_destroy_node (concat bs) ?p = Some p'" "pool_inv p' {}"
      "pool_nodes p' = pool_nodes ?p" unfolding ad by auto
  have "nx_hash_tbl_destroy nx_lro_destroy_node ?t ?p = Some p'"
    using p'(1) bs by (simp add: nx_hash_tbl_destroy_def)
  moreover have "allocated p' = 0" using pool_invD(5) [OF p'(2)] by simp
  ultimately have "unm_cleanup_lro a =
      Some (a\<lparr>lro := (lro a)\<lparr>mem_pool := p'\<lparr>pool_free_list := []\<rparr>,
                hash_tbl := ?t\<lparr>buckets := None\<rparr>, lro_initialized := False\<rparr>\<rparr>, pool_free_list p')"
    using init by (simp add: unm_cleanup_lro_def nx_mem_pool_destroy_def)
  moreover have "set (pool_free_list p') = set (pool_nodes p')"
    using pool_invD(3,4) [OF p'(2)] by auto
  ultimately show ?thesis using pool_invD(2) [OF p'(2)] p'(3) by simp
qed

lemma lro_ops_equiv: "cmp_equiv (compare_keys lro_hash_ops)"
  by (simp add: lro_hash_ops_def cmp_ip_key_equiv)

lemma pool_create_rv: "nx_mem_pool_create mem n sz = Some (rv, p, fr) \<Longrightarrow> rv = 0 \<or> rv = - ENOMEM"
  by (auto simp: nx_mem_pool_create_def Let_def split: prod.splits bool.splits option.splits)

lemma init_spec:
  assumes inj: "inj_on mem UNIV" and q: "\<forall>m. query = Some m \<longrightarrow> 0 < m \<and> m < 2 ^ 31"
  shows "\<exists>rv a'. unm_init_lro v query mem ok a = Some (rv, a') \<and>
    (rv = 0 \<and> lro_inv (lro a') \<and> lro_initialized (lro a') \<and> lro_enabled (lro a') = 1 \<and>
       tbl_nodes (hash_tbl (lro a')) = [] \<or>
     rv \<in> {- EIO, - ENOMEM} \<and> lro_initialized (lro a') = lro_initialized (lro a) \<and>
       lro_enabled (lro a') = lro_enabled (lro a))"
proof -
  obtain major minor sub where v: "v = (major, minor, sub)" by (cases v)
  show ?thesis
  proof (cases "if NX_FW_VERSION major minor sub \<ge> NX_FW_VERSION 4 0 222 then query else Some 32")
    case None
    then show ?thesis by (simp add: unm_init_lro_def v)
  next
    case (Some m)
    then have m: "0 < m" "m < 2 ^ 31" using q by (auto split: if_splits)
    obtain rv p fr where c: "nx_mem_pool_create mem m sizeof_lro_entry = Some (rv, p, fr)"
      using create_no_bug [of mem m sizeof_lro_entry] by auto
    show ?thesis
    proof (cases "rv = 0")
      case False
      with c v Some pool_create_rv [OF c] show ?thesis by (simp add: unm_init_lro_def)
    next
      case True
      from create_ok_spec [of mem m sizeof_lro_entry p fr] c True inj
      have p: "pool_inv p {}" by (auto intro: inj_on_subset)
      show ?thesis
      proof (cases ok)
        case False
        have "allocated p = 0" using pool_invD(5) [OF p] by simp
        with False c True v Some show ?thesis
          by (simp add: unm_init_lro_def nx_hash_tbl_create_def nx_mem_pool_destroy_def)
      next
        case ok: True
        obtain t :: "(nx_host_key, lro_entry) nx_hash_tbl" where t: "nx_hash_tbl_create ok m lro_hash_ops = (0, t)"
          using ok by (simp add: nx_hash_tbl_create_def)
        from create_spec [OF lro_ops_equiv m, of 0 t] t ok have
          ts: "tbl_inv t" "tbl_nodes t = []" by auto
        with p have "lro_inv ((lro a)\<lparr>mem_pool := p, hash_tbl := t, lro_initialized := True, lro_enabled := 1\<rparr>)"
          by (simp add: lro_inv_def lro_addrs_def)
        with c True t v Some ts(2) show ?thesis by (simp add: unm_init_lro_def)
      qed
    qed
  qed
qed

text \<open>Turning LRO on and off.\<close>

lemma set_state_spec:
  assumes ring: "ring_inv (tx a)" and mem: "\<forall>b. mem = Some b \<longrightarrow> blk_array b"
    and ctx: "rx_ctx0 a = Some c" and val: "val \<in> {0, 1}"
  shows "\<exists>rv a'. nx_lro_set_state mem stack a val = Some (rv, a') \<and> ring_inv (tx a') \<and>
    (rv = 0 \<and> uint (lro_enabled (lro a')) = val \<and>
       tx_stream (tx a') = tx_stream (tx a) @
         (if val = 0 \<and> lro_enabled (lro a) \<noteq> 0 then [lro_cleanup_request stack c] else []) \<or>
     rv \<noteq> 0 \<and> lro_enabled (lro a') = lro_enabled (lro a) \<and> tx_stream (tx a') = tx_stream (tx a) \<and>
       (val = 0 \<or> \<not> lro_initialized (lro a)))"
proof -
  obtain r t where s: "nx_nic_send_cmd_descs mem (tx a) [lro_cleanup_request stack c] = (r, t)"
    by (cases "nx_nic_send_cmd_descs mem (tx a) [lro_cleanup_request stack c]")
  note sc = send_cases [OF ring mem s]
  have en: "uint (lro_enabled (lro a)) = 0 \<longleftrightarrow> lro_enabled (lro a) = 0"
    by (rule uint_0_iff)
  show ?thesis
  proof (cases "uint (lro_enabled (lro a)) = val")
    case True
    with ring en show ?thesis by (auto simp: nx_lro_set_state_def)
  next
    case False
    note neq = this
    show ?thesis
    proof (cases "val = 0")
      case True
      with neq en s sc ctx show ?thesis
        by (auto simp: nx_lro_set_state_def nx_lro_send_cleanup_def tx_stream_def)
    next
      case False
      with val have "val = 1" by simp
      with neq ring show ?thesis by (auto simp: nx_lro_set_state_def)
    qed
  qed
qed

text \<open>Inspecting a packet: the data pointer is where it was, as long as the segment is all there.\<close>

lemma skb_push_pull: "skb_pull s n = Some s' \<Longrightarrow> skb_push s' n = Some s"
  by (auto simp: skb_pull_def skb_push_def split: if_splits)

lemma check_tcp_restores:
  assumes "lro_check_tcp ip s = Some (v, s')" "skb_off s + 20 \<le> length (skb_bytes s)"
  shows "s' = s"
proof -
  have pull: "skb_pull s TCP_HDR_SIZE = Some (s\<lparr>skb_off := skb_off s + 20\<rparr>)"
    using assms(2) by (simp add: skb_pull_def TCP_HDR_SIZE_def)
  have push: "skb_push (s\<lparr>skb_off := skb_off s + 20\<rparr>) TCP_HDR_SIZE = Some s"
    by (simp add: skb_push_def TCP_HDR_SIZE_def)
  show ?thesis
    using assms(1) pull push
    by (auto simp: lro_check_tcp_def Let_def bind_eq_Some_conv split: if_splits)
qed

lemma try_initiate_restores:
  assumes r: "nx_try_initiate_lro local mem stack kstack a skb rss ctx = Some (rv, skb', a')"
    and len: "skb_off skb + 40 \<le> length (skb_bytes skb)"
  shows "skb' = skb"
  using r
proof (cases "skb_protocol skb = ETH_P_IP")
  case False
  with r show ?thesis by (simp add: nx_try_initiate_lro_def)
next
  case ip: True
  from r ip obtain b0 where b0: "rd8 skb 0 = Some b0"
    by (auto simp: nx_try_initiate_lro_def bind_eq_Some_conv)
  show ?thesis
  proof (cases "drop_bit 4 b0 \<noteq> NX_IP_VERSION_V4 \<or> unat (b0 AND 15) \<noteq> IPV4_HDR_SIZE div 4")
    case True
    with r ip b0 show ?thesis by (simp add: nx_try_initiate_lro_def)
  next
    case False
    then have ihl: "unat (b0 AND 15) * 4 = 20" by (simp add: IPV4_HDR_SIZE_def)
    have pull: "skb_pull skb 20 = Some (skb\<lparr>skb_off := skb_off skb + 20\<rparr>)"
      using len by (simp add: skb_pull_def)
    have push: "skb_push (skb\<lparr>skb_off := skb_off skb + 20\<rparr>) 20 = Some skb"
      by (simp add: skb_push_def)
    have th: "skb_off (skb\<lparr>skb_off := skb_off skb + 20\<rparr>) + 20 \<le> length (skb_bytes (skb\<lparr>skb_off := skb_off skb + 20\<rparr>))"
      using len by simp
    from r ip b0 False ihl pull show ?thesis
      by (auto simp: nx_try_initiate_lro_def bind_eq_Some_conv push split: if_splits
          dest!: check_tcp_restores [OF _ th])
  qed
qed

subsection \<open>Properties\<close>

text \<open>An adapter with LRO initialised for four flows, for the witnesses.\<close>

definition raw_lro_adapter :: lro_adapter where
  "raw_lro_adapter =
     \<lparr>lro = \<lparr>lro_initialized = False, lro_enabled = 0,
        hash_tbl = \<lparr>buckets = None, bucket_cnt = 0, tbl_ops = None\<rparr>,
        mem_pool = \<lparr>pool_free_list = [], max_entries = 0, entry_size = 0, allocated = 0, pool_offset = 0, pool_nodes = []\<rparr>,
        lro_stats = \<lparr>accumulation = [], bufsize = [], chained_pkts = 0, contiguous_pkts = 0\<rparr>\<rparr>,
      tx = sample_adapter, rx_ctx0 = Some 5, port_up = True\<rparr>"

definition sample_lro_adapter :: lro_adapter where
  "sample_lro_adapter = snd (the (unm_init_lro (4, 0, 300) (Some 4) (\<lambda>i. Some (128 * i)) True raw_lro_adapter))"

lemma sample_lro:
  "lro_inv (lro sample_lro_adapter)" "lro_initialized (lro sample_lro_adapter)"
  "lro_enabled (lro sample_lro_adapter) = 1" "tbl_nodes (hash_tbl (lro sample_lro_adapter)) = []"
  "tx sample_lro_adapter = sample_adapter" "rx_ctx0 sample_lro_adapter = Some 5"
proof -
  have inj: "inj_on (\<lambda>i::nat. Some (128 * i)) UNIV" by (simp add: inj_on_def)
  have run: "unm_init_lro (4, 0, 300) (Some 4) (\<lambda>i. Some (128 * i)) True raw_lro_adapter =
      Some (0, sample_lro_adapter)" and rest: "tx sample_lro_adapter = sample_adapter"
      "rx_ctx0 sample_lro_adapter = Some 5"
    unfolding sample_lro_adapter_def
    by (simp_all add: unm_init_lro_def NX_FW_VERSION_def nx_mem_pool_create_def Let_def upt_rec
        nx_hash_tbl_create_def raw_lro_adapter_def)
  from init_spec [OF inj, of "Some 4" "(4, 0, 300)" True raw_lro_adapter] run
  show "lro_inv (lro sample_lro_adapter)" "lro_initialized (lro sample_lro_adapter)"
    "lro_enabled (lro sample_lro_adapter) = 1" "tbl_nodes (hash_tbl (lro sample_lro_adapter)) = []"
    by auto
  show "tx sample_lro_adapter = sample_adapter" "rx_ctx0 sample_lro_adapter = Some 5" by (fact rest)+
qed

text \<open>
  C12 Starting an offloaded flow (\<open>nx_initiate_lro\<close>) never crashes and keeps the entries of the
  flow table equal to the blocks outstanding in the pool. Either the pool is empty, and nothing
  changes; or the flow was unknown, its entry is now in the table and exactly one add-flow
  request is appended to the transmit stream; or the call returns nonzero, because the flow
  was known or the request was refused, and then the table answers every lookup as before and
  the stream is unchanged.
\<close>

theorem lro_initiate_consistent:
  assumes "lro_inv (lro a)" "ring_inv (tx a)" "pend_mem_ok mem"
  shows "\<exists>rv a'. nx_initiate_lro mem stack a key rss ctx ts = Some (rv, a') \<and>
    lro_inv (lro a') \<and> ring_inv (tx a') \<and>
    (rv = 0 \<and> a' = a \<and> pool_free_list (mem_pool (lro a)) = [] \<or>
     rv = 0 \<and> tbl_lookup (hash_tbl (lro a)) key = None \<and>
       (\<exists>new. \<forall>k. tbl_lookup (hash_tbl (lro a')) k =
          (if same_slot (hash_tbl (lro a)) k key then Some (flow_entry key new ctx)
           else tbl_lookup (hash_tbl (lro a)) k)) \<and>
       tx_stream (tx a') = tx_stream (tx a) @ [lro_add_request stack key rss ctx ts] \<or>
     rv \<noteq> 0 \<and> tx_stream (tx a') = tx_stream (tx a) \<and>
       (\<forall>k. tbl_lookup (hash_tbl (lro a')) k = tbl_lookup (hash_tbl (lro a)) k))"
  using initiate_spec [OF assms(1,2)] assms(3) by (simp add: pend_mem_ok_def)

theorem lro_initiate_consistent_witness:
  "\<exists>rv a'. nx_initiate_lro None zero_desc sample_lro_adapter (sample_key 1 5) 0 7 1 = Some (rv, a') \<and>
     lro_inv (lro a') \<and> ring_inv (tx a')"
  using lro_initiate_consistent [of sample_lro_adapter None zero_desc "sample_key 1 5" 0 7 1]
    sample_lro sample_inv by (auto simp: pend_mem_ok_def)

text \<open>
  C31 Ending flows never crashes and keeps table and pool in step: a firmware response removes
  exactly the flow it names and gives its block back (and is harmless if the flow is unknown);
  tearing down a receive context removes exactly the flows of that context.
\<close>

theorem lro_teardown_consistent:
  assumes "lro_inv (lro a)"
  shows "(\<exists>a'. nx_handle_lro_response a key = Some a' \<and> lro_inv (lro a') \<and>
      (\<forall>k. tbl_lookup (hash_tbl (lro a')) k =
         (if same_slot (hash_tbl (lro a)) k (key\<lparr>ip_version := 4\<rparr>) then None
          else tbl_lookup (hash_tbl (lro a)) k))) \<and>
    (\<exists>a'. nx_lro_delete_ctx_lro a ctx = Some a' \<and> lro_inv (lro a') \<and>
      (\<forall>k. tbl_lookup (hash_tbl (lro a')) k =
         (case tbl_lookup (hash_tbl (lro a)) k of None \<Rightarrow> None
          | Some n \<Rightarrow> if le_ctx_id (node_data n) = ctx then None else Some n)))"
  using response_spec [OF assms, of key] delete_ctx_spec [OF assms, of ctx] unfolding in_ctx_def by blast

theorem lro_teardown_consistent_witness:
  "(\<exists>a'. nx_handle_lro_response sample_lro_adapter (sample_key 1 5) = Some a' \<and> lro_inv (lro a')) \<and>
   (\<exists>a'. nx_lro_delete_ctx_lro sample_lro_adapter 7 = Some a' \<and> lro_inv (lro a'))"
  using lro_teardown_consistent [OF sample_lro(1), of "sample_key 1 5" 7] by blast

text \<open>
  Shutting LRO down (\<open>unm_cleanup_lro\<close>) with flows still in the table never trips the pool's
  outstanding-blocks check, and returns every block of the pool to the kernel exactly once.
\<close>

theorem lro_cleanup_frees_all:
  assumes "lro_inv (lro a)" "lro_initialized (lro a)"
  shows "\<exists>a' freed. unm_cleanup_lro a = Some (a', freed) \<and> \<not> lro_initialized (lro a') \<and>
    distinct freed \<and> set freed = set (pool_nodes (mem_pool (lro a)))"
  using cleanup_spec [OF assms] .

theorem lro_cleanup_frees_all_witness:
  "\<exists>a' freed. unm_cleanup_lro sample_lro_adapter = Some (a', freed) \<and> distinct freed"
  using lro_cleanup_frees_all [OF sample_lro(1,2)] by blast

text \<open>
  Inspecting a received packet for LRO (\<open>nx_try_initiate_lro\<close>) hands the packet on as it
  was: whatever the verdict, \<open>skb->data\<close> is back where it started, provided the IP and TCP
  base headers are inside the buffer. (The TCP header is skipped by an unchecked \<open>skb_pull\<close>, which is
  what the proviso is for.)
\<close>

theorem lro_inspection_restores_packet:
  assumes "nx_try_initiate_lro local mem stack kstack a skb rss ctx = Some (rv, skb', a')"
    and "skb_off skb + 40 \<le> length (skb_bytes skb)"
  shows "skb' = skb"
  using try_initiate_restores [OF assms] .

definition sample_syn :: sk_buff where
  "sample_syn = \<lparr>skb_protocol = 0x0800,
     skb_bytes = [0x45, 0, 0, 40, 0, 0, 0, 0, 64, 6, 0, 0, 10, 0, 0, 1, 10, 0, 0, 2] @
                 [0, 80, 4, 0, 0, 0, 0, 0, 0, 0, 0, 0, 0x50, 2, 0, 0, 0, 0, 0, 0], skb_off = 0\<rparr>"

theorem lro_inspection_restores_packet_witness:
  "\<exists>rv skb' a'. nx_try_initiate_lro (\<lambda>_. True) None zero_desc (sample_key 1 5) sample_lro_adapter
      sample_syn 0 7 = Some (rv, skb', a') \<and> skb' = sample_syn"
proof -
  have "nx_try_initiate_lro (\<lambda>_. True) None zero_desc (sample_key 1 5) sample_lro_adapter
      sample_syn 0 7 = Some (1, sample_syn, sample_lro_adapter)"
    by (simp add: nx_try_initiate_lro_def sample_syn_def ETH_P_IP_def rd8_def rd16_def rd32_def
        NX_IP_VERSION_V4_def IPV4_HDR_SIZE_def skb_pull_def skb_push_def lro_check_tcp_def)
  with lro_inspection_restores_packet [OF this] show ?thesis by (simp add: sample_syn_def)
qed

text \<open>
  Switching LRO off queues one cleanup request to the firmware before the flag changes, and
  leaves it on if the request is refused; switching it on needs an initialised LRO. On success
  the flag has the requested value, on failure it and the transmit stream are as before.
\<close>

theorem lro_set_state_ordered:
  assumes "ring_inv (tx a)" "pend_mem_ok mem" "rx_ctx0 a = Some c" "val = 0 \<or> val = 1"
  shows "\<exists>rv a'. nx_lro_set_state mem stack a val = Some (rv, a') \<and> ring_inv (tx a') \<and>
    (rv = 0 \<and> uint (lro_enabled (lro a')) = val \<and>
       tx_stream (tx a') = tx_stream (tx a) @
         (if val = 0 \<and> lro_enabled (lro a) \<noteq> 0 then [lro_cleanup_request stack c] else []) \<or>
     rv \<noteq> 0 \<and> lro_enabled (lro a') = lro_enabled (lro a) \<and> tx_stream (tx a') = tx_stream (tx a) \<and>
       (val = 0 \<or> \<not> lro_initialized (lro a)))"
  using set_state_spec [OF assms(1) _ assms(3)] assms(2,4) by (simp add: pend_mem_ok_def)

theorem lro_set_state_ordered_witness:
  "\<exists>rv a'. nx_lro_set_state None zero_desc sample_lro_adapter 0 = Some (rv, a') \<and> ring_inv (tx a')"
  using lro_set_state_ordered [of sample_lro_adapter None 5 0 zero_desc] sample_lro sample_inv
  by (auto simp: pend_mem_ok_def)

text \<open>
  The add-flow request carries the flow to the firmware: read at the offsets of
  \<open>nic_request_t\<close> and \<open>nx_nic_lro_request_t\<close>, its fields are the opcodes, the low half of the
  context id, the addresses, ports, timestamp flag and RSS hash that went in, whatever the
  stack memory held.
\<close>

theorem lro_request_fields:
  "(let d = lro_add_request stack key rss ctx ts in
    get_bits 23 6 (word0 d) = NX_NIC_HOST_REQUEST \<and>
    get_bits 0 8 (word1 d) = NX_NIC_H2C_OPCODE_LRO_REQUEST \<and>
    get_bits 16 16 (word1 d) = ucast ctx AND mask 16 \<and>
    get_bits 56 8 (word1 d) = NX_NIC_LRO_REQUEST_ADD_FLOW \<and>
    get_bits 0 32 (word2 d) = ucast (v4 (daddr key)) \<and>
    get_bits 0 32 (word4 d) = ucast (v4 (saddr key)) \<and>
    get_bits 0 16 (word6 d) = ucast (dport key) \<and> get_bits 16 16 (word6 d) = ucast (sport key) \<and>
    get_bits 32 8 (word6 d) = 0 \<and> get_bits 40 8 (word6 d) = ucast ts AND mask 8 \<and>
    get_bits 0 32 (word7 d) = ucast rss)"
proof -
  have u: "(ucast (x :: u32) :: u64) AND mask 32 = ucast x" "(ucast (y :: u16) :: u64) AND mask 16 = ucast y" for x y
    using and_mask_ucast [of x, where ?'a = 64] and_mask_ucast [of y, where ?'a = 64] by simp_all
  show ?thesis
    unfolding Let_def lro_add_request_def nic_req_hdr_def set_req_opcode_def
      NX_NIC_HOST_REQUEST_def NX_NIC_H2C_OPCODE_LRO_REQUEST_def NX_NIC_LRO_REQUEST_ADD_FLOW_def
    by (simp add: get_put_same get_put_other mask_eq_exp_minus_1 u [unfolded mask_eq_exp_minus_1, simplified])
qed

end
