(* ===== verification/RegIO.thy ===== *)
theory RegIO
  imports Prelude
begin

text \<open>
  Register access. A program that talks to the card is a state-monad computation over a device:
  the hardware's own state, of any type, moved by the functions of a \<open>bus\<close> that say what a read
  returns and what reads and writes do to it, and the log of accesses made so far. Theorems
  quantify over the bus, so they hold for any behaviour of the card; the log makes the order
  of accesses, and with it lock discipline, something theorems can speak about.
\<close>

subsection \<open>Devices and programs\<close>

datatype access = Rd u64 u32 | Wr u64 u32

record 'h bus =
  bus_rd :: "u64 \<Rightarrow> 'h \<Rightarrow> u32 \<times> 'h"
  bus_wr :: "u64 \<Rightarrow> u32 \<Rightarrow> 'h \<Rightarrow> 'h"

record 'h dev =
  hw :: 'h
  log :: "access list"

type_synonym ('h, 'a) io = "('h dev, 'a) state"

definition NXRD32 :: "'h bus \<Rightarrow> u64 \<Rightarrow> ('h, u32) io" where
  "NXRD32 B a = State (\<lambda>d. case bus_rd B a (hw d) of
     (v, h) \<Rightarrow> (v, d\<lparr>hw := h, log := log d @ [Rd a v]\<rparr>))"

definition NXWR32 :: "'h bus \<Rightarrow> u64 \<Rightarrow> u32 \<Rightarrow> ('h, unit) io" where
  "NXWR32 B a v = State (\<lambda>d. ((), d\<lparr>hw := bus_wr B a v (hw d), log := log d @ [Wr a v]\<rparr>))"

definition ret :: "'a \<Rightarrow> ('h, 'a) io" where
  "ret x = State_Monad.return x"

text \<open>A list of writes in order.\<close>

fun write_all :: "'h bus \<Rightarrow> (u64 \<times> u32) list \<Rightarrow> ('h, unit) io" where
  "write_all B [] = ret ()"
| "write_all B ((a, v) # ws) = do { NXWR32 B a v; write_all B ws }"

lemma run_NXRD32 [io_simps]:
  "run_state (NXRD32 B a) d =
     (fst (bus_rd B a (hw d)), d\<lparr>hw := snd (bus_rd B a (hw d)), log := log d @ [Rd a (fst (bus_rd B a (hw d)))]\<rparr>)"
  by (simp add: NXRD32_def split: prod.split)

lemma run_NXWR32 [io_simps]:
  "run_state (NXWR32 B a v) d = ((), d\<lparr>hw := bus_wr B a v (hw d), log := log d @ [Wr a v]\<rparr>)"
  by (simp add: NXWR32_def)

lemma run_ret [io_simps]: "run_state (ret x) d = (x, d)"
  by (simp add: ret_def State_Monad.return_def)

lemma run_bind [io_simps]:
  "run_state (State_Monad.bind m f) d = (case run_state m d of (x, d') \<Rightarrow> run_state (f x) d')"
  by (simp add: State_Monad.bind_def split: prod.split)

subsection \<open>A bus that is plain memory\<close>

text \<open>Registers that read back what was last written, and a log-free view of a program's effect.\<close>

definition mem_bus :: "(u64 \<Rightarrow> u32) bus" where
  "mem_bus = \<lparr>bus_rd = \<lambda>a m. (m a, m), bus_wr = \<lambda>a v m. m(a := v)\<rparr>"

lemma mem_bus_simps [io_simps]:
  "bus_rd mem_bus a m = (m a, m)" "bus_wr mem_bus a v m = m(a := v)"
  by (simp_all add: mem_bus_def)

definition exec :: "('h, 'a) io \<Rightarrow> 'h \<Rightarrow> 'a \<times> 'h \<times> access list" where
  "exec m h = (case run_state m \<lparr>hw = h, log = []\<rparr> of (x, d) \<Rightarrow> (x, hw d, log d))"

text \<open>A bus whose reads are answered from a list, zero after its end; writes are only logged.\<close>

definition script_bus :: "u32 list bus" where
  "script_bus = \<lparr>bus_rd = \<lambda>a xs. (case xs of [] \<Rightarrow> (0, []) | x # ys \<Rightarrow> (x, ys)), bus_wr = \<lambda>a v xs. xs\<rparr>"

lemma script_bus_simps [io_simps]:
  "bus_rd script_bus a [] = (0, [])" "bus_rd script_bus a (x # xs) = (x, xs)" "bus_wr script_bus a v xs = xs"
  by (simp_all add: script_bus_def)

subsection \<open>Effects without the log\<close>

text \<open>\<open>yields m h x h'\<close>: from hardware state \<open>h\<close>, whatever has been logged, \<open>m\<close> returns \<open>x\<close>
  and leaves \<open>h'\<close>.\<close>

definition yields :: "('h, 'a) io \<Rightarrow> 'h \<Rightarrow> 'a \<Rightarrow> 'h \<Rightarrow> bool" where
  "yields m h x h' \<longleftrightarrow> (\<forall>l. \<exists>l'. run_state m \<lparr>hw = h, log = l\<rparr> = (x, \<lparr>hw = h', log = l'\<rparr>))"

lemma yields_ret: "yields (ret x) h x h"
  by (simp add: yields_def run_ret)

lemma yields_rd: "bus_rd B a h = (v, h') \<Longrightarrow> yields (NXRD32 B a) h v h'"
  by (simp add: yields_def run_NXRD32)

lemma yields_wr: "yields (NXWR32 B a v) h () (bus_wr B a v h)"
  by (simp add: yields_def run_NXWR32)

lemma yields_bind:
  assumes "yields m h x h1" "yields (f x) h1 y h2"
  shows "yields (State_Monad.bind m f) h y h2"
  unfolding yields_def
proof
  fix l
  obtain l1 where m: "run_state m \<lparr>hw = h, log = l\<rparr> = (x, \<lparr>hw = h1, log = l1\<rparr>)"
    using assms(1) by (auto simp: yields_def)
  obtain l2 where "run_state (f x) \<lparr>hw = h1, log = l1\<rparr> = (y, \<lparr>hw = h2, log = l2\<rparr>)"
    using assms(2) by (auto simp: yields_def)
  with m show "\<exists>l'. run_state (State_Monad.bind m f) \<lparr>hw = h, log = l\<rparr> = (y, \<lparr>hw = h2, log = l'\<rparr>)"
    by (simp add: run_bind)
qed

lemma yields_write_all:
  "yields (write_all B ws) h () (fold (\<lambda>(a, v). bus_wr B a v) ws h)"
proof (induction ws arbitrary: h)
  case Nil
  show ?case by (simp add: yields_ret)
next
  case (Cons w ws)
  obtain a v where "w = (a, v)" by (cases w)
  with yields_bind [OF yields_wr [of B a v h] Cons.IH] show ?case by simp
qed

subsection \<open>Hardware semaphores\<close>

text \<open>
  A hardware semaphore is a pair of addresses: reading the first tries to take it and returns
  1 when it was taken, reading the second releases it. \<open>sem_level L U\<close> counts, over a log,
  takes minus releases.
\<close>

definition sem_event :: "u64 \<Rightarrow> u64 \<Rightarrow> access \<Rightarrow> int" where
  "sem_event L U e = (case e of Rd a v \<Rightarrow> (if a = L \<and> v = 1 then 1 else 0) - (if a = U then 1 else 0)
                              | Wr a v \<Rightarrow> 0)"

definition sem_level :: "u64 \<Rightarrow> u64 \<Rightarrow> access list \<Rightarrow> int" where
  "sem_level L U es = (\<Sum>e\<leftarrow>es. sem_event L U e)"

text \<open>\<open>changes L U c m\<close>: whatever the device does, \<open>m\<close> moves the level by \<open>c\<close> of its result.\<close>

definition changes :: "u64 \<Rightarrow> u64 \<Rightarrow> ('a \<Rightarrow> int) \<Rightarrow> ('h, 'a) io \<Rightarrow> bool" where
  "changes L U c m \<longleftrightarrow>
     (\<forall>d. sem_level L U (log (snd (run_state m d))) = sem_level L U (log d) + c (fst (run_state m d)))"

abbreviation neutral :: "u64 \<Rightarrow> u64 \<Rightarrow> ('h, 'a) io \<Rightarrow> bool" where
  "neutral L U m \<equiv> changes L U (\<lambda>_. 0) m"

named_theorems sem_intros \<open>how programs move a semaphore\<close>

lemma changes_bind:
  assumes "changes L U c m" "\<And>x. changes L U (\<lambda>y. c' y - c x) (f x)"
  shows "changes L U c' (State_Monad.bind m f)"
proof -
  have "sem_level L U (log (snd (run_state (State_Monad.bind m f) d))) =
        sem_level L U (log d) + c' (fst (run_state (State_Monad.bind m f) d))" for d
  proof -
    obtain x d' where m: "run_state m d = (x, d')" by (cases "run_state m d")
    have "sem_level L U (log d') = sem_level L U (log d) + c x"
      using assms(1) m by (simp add: changes_def) (metis fst_conv snd_conv)
    moreover have "sem_level L U (log (snd (run_state (f x) d'))) =
        sem_level L U (log d') + (c' (fst (run_state (f x) d')) - c x)"
      using assms(2) by (simp add: changes_def)
    ultimately show ?thesis by (simp add: run_bind m)
  qed
  then show ?thesis by (simp add: changes_def)
qed

lemma neutral_bind [sem_intros]:
  "neutral L U m \<Longrightarrow> (\<And>x. changes L U c (f x)) \<Longrightarrow> changes L U c (State_Monad.bind m f)"
  by (rule changes_bind [where c = "\<lambda>_. 0"]) simp_all

lemma changes_ret [sem_intros]: "c x = 0 \<Longrightarrow> changes L U c (ret x)"
  by (simp add: changes_def run_ret)

lemma changes_wr [sem_intros]: "c () = 0 \<Longrightarrow> changes L U c (NXWR32 B a v)"
  by (simp add: changes_def run_NXWR32 sem_level_def sem_event_def)

lemma neutral_rd [sem_intros]: "a \<noteq> L \<Longrightarrow> a \<noteq> U \<Longrightarrow> neutral L U (NXRD32 B a)"
  by (simp add: changes_def run_NXRD32 sem_level_def sem_event_def)

lemma release_rd: "L \<noteq> U \<Longrightarrow> changes L U (\<lambda>_. - 1) (NXRD32 B U)"
  by (auto simp: changes_def run_NXRD32 sem_level_def sem_event_def)

lemma acquire_rd: "L \<noteq> U \<Longrightarrow> changes L U (\<lambda>v. if v = 1 then 1 else 0) (NXRD32 B L)"
  by (auto simp: changes_def run_NXRD32 sem_level_def sem_event_def)

lemma changes_if [sem_intros]:
  "(b \<Longrightarrow> changes L U c m) \<Longrightarrow> (\<not> b \<Longrightarrow> changes L U c n) \<Longrightarrow> changes L U c (if b then m else n)"
  by simp

lemma neutral_write_all [sem_intros]: "neutral L U (write_all B ws)"
  by (induction ws) (auto intro!: sem_intros)

lemma neutral_case_option [sem_intros]:
  "changes L U c m \<Longrightarrow> (\<And>x. changes L U c (f x)) \<Longrightarrow>
   changes L U c (case y of None \<Rightarrow> m | Some x \<Rightarrow> f x)"
  by (cases y) simp_all

lemma neutral_case_prod [sem_intros]:
  "(\<And>x y. changes L U c (f x y)) \<Longrightarrow> changes L U c (case p of (x, y) \<Rightarrow> f x y)"
  by (cases p) simp

lemma neutral_let [sem_intros]: "changes L U c (f x) \<Longrightarrow> changes L U c (let y = x in f y)"
  by simp

subsection \<open>Waiting for a semaphore\<close>

text \<open>
  The loop all the driver's semaphore functions share: \<open>while (!done) { done = read;
  if (done == 1) break; if (timeout >= limit) return -1; timeout++; }\<close>. \<open>n\<close> is the number of
  turns left. The result tells whether the loop was left with \<open>done\<close> set.
\<close>

fun sem_wait :: "'h bus \<Rightarrow> u64 \<Rightarrow> nat \<Rightarrow> ('h, bool) io" where
  "sem_wait B L 0 = do { fin \<leftarrow> NXRD32 B L; ret (fin = 1) }"
| "sem_wait B L (Suc n) = do {
     fin \<leftarrow> NXRD32 B L;
     if fin = 1 then ret True
     else if fin \<noteq> 0 then ret True
     else sem_wait B L n }"

text \<open>A semaphore register that only ever returns 0 or 1, as the hardware documents.\<close>

definition sem_bus :: "'h bus \<Rightarrow> u64 \<Rightarrow> bool" where
  "sem_bus B L \<longleftrightarrow> (\<forall>h. fst (bus_rd B L h) = 0 \<or> fst (bus_rd B L h) = 1)"

lemma sem_wait_run:
  "sem_bus B L \<Longrightarrow> L \<noteq> U \<Longrightarrow>
   sem_level L U (log (snd (run_state (sem_wait B L n) d))) =
   sem_level L U (log d) + (if fst (run_state (sem_wait B L n) d) then 1 else 0)"
proof (induction n arbitrary: d)
  case 0
  then show ?case by (simp add: io_simps sem_level_def sem_event_def)
next
  case (Suc n)
  have "fst (bus_rd B L (hw d)) = 0 \<or> fst (bus_rd B L (hw d)) = 1"
    using Suc.prems(1) by (simp add: sem_bus_def)
  then show ?case
  proof
    assume v: "fst (bus_rd B L (hw d)) = 0"
    let ?d = "d\<lparr>hw := snd (bus_rd B L (hw d)), log := log d @ [Rd L 0]\<rparr>"
    have "run_state (sem_wait B L (Suc n)) d = run_state (sem_wait B L n) ?d"
      by (simp add: io_simps v)
    with Suc.IH [OF Suc.prems, of ?d] Suc.prems(2) show ?thesis
      by (simp add: sem_level_def sem_event_def)
  next
    assume v: "fst (bus_rd B L (hw d)) = 1"
    with Suc.prems(2) show ?thesis by (simp add: io_simps sem_level_def sem_event_def)
  qed
qed

lemma sem_wait_changes:
  "sem_bus B L \<Longrightarrow> L \<noteq> U \<Longrightarrow> changes L U (\<lambda>b. if b then 1 else 0) (sem_wait B L n)"
  by (simp add: changes_def sem_wait_run)

lemma sem_wait_other: "a \<noteq> L \<Longrightarrow> a \<noteq> U \<Longrightarrow> neutral L U (sem_wait B a n)"
  by (induction n) (auto intro!: sem_intros)

subsection \<open>The contract of a lock\<close>

text \<open>
  \<open>acquire\<close> returns 0 and has taken the semaphore, or returns a nonzero code and has not;
  \<open>release\<close> gives it up. A body that does not touch the semaphore may then run under the lock.
\<close>

locale hw_lock =
  fixes L U :: u64
    and acquire :: "('h, int) io"
    and release :: "('h, 'r) io"
  assumes acquire_law: "changes L U (\<lambda>r. if r = 0 then 1 else 0) acquire"
    and release_law: "changes L U (\<lambda>_. - 1) release"
begin

lemma protect:
  assumes "\<And>x. neutral L U (body x)"
  shows "neutral L U (do { r \<leftarrow> acquire; if r \<noteq> 0 then ret (g r) else do { x \<leftarrow> body r; release; ret (f x) } })"
proof (rule changes_bind [OF acquire_law])
  fix r
  have "changes L U (\<lambda>_. - 1) (do { x \<leftarrow> body 0; release; ret (f x) })"
    by (intro neutral_bind assms changes_bind [OF release_law] changes_ret) simp
  then show "changes L U (\<lambda>y. 0 - (if r = 0 then 1 else 0))
      (if r \<noteq> 0 then ret (g r) else do { x \<leftarrow> body r; release; ret (f x) })"
    by (simp add: changes_ret)
qed

end

end
