(* ===== verification/Niu.thy ===== *)
theory Niu
  imports RegIO
begin

text \<open>
  The network interface unit (\<open>driver/niu.c\<close>): the PHY semaphore, MII management reads and
  writes, enabling and disabling ports, promiscuous mode, station addresses and flow control,
  as programs over an arbitrary bus. Delays and yielding the CPU leave no trace. The 32-bit
  register structures of \<open>include/unm_inc.h\<close> are words whose fields are read and written at
  their declared bit positions.
\<close>

subsection \<open>Addresses\<close>

definition UNM_PCI_CRB_WINDOW :: "u64 \<Rightarrow> u64" where
  "UNM_PCI_CRB_WINDOW A = 0x06000000 + A * 0x00100000"

definition UNM_CRB_NIU :: u64 where "UNM_CRB_NIU = UNM_PCI_CRB_WINDOW 6"
definition UNM_CRB_PCIE :: u64 where "UNM_CRB_PCIE = UNM_PCI_CRB_WINDOW 1"
definition UNM_CRB_DDR_NET :: u64 where "UNM_CRB_DDR_NET = UNM_PCI_CRB_WINDOW 2"
definition UNM_CRB_CAM :: u64 where "UNM_CRB_CAM = UNM_PCI_CRB_WINDOW 34"
definition UNM_CAM_RAM :: "u64 \<Rightarrow> u64" where "UNM_CAM_RAM reg = UNM_CRB_CAM + 0x02000 + reg"
definition UNM_PCIE_REG :: "u64 \<Rightarrow> u64" where "UNM_PCIE_REG reg = UNM_CRB_PCIE + reg"

definition PCIE_SEM3_LOCK :: u64 where "PCIE_SEM3_LOCK = 0x1c018"
definition PCIE_SEM3_UNLOCK :: u64 where "PCIE_SEM3_UNLOCK = 0x1c01c"
definition UNM_PHY_LOCK_ID :: u64 where "UNM_PHY_LOCK_ID = UNM_CAM_RAM 0x120"
definition PHY_LOCK_DRIVER :: u32 where "PHY_LOCK_DRIVER = 0x44524956"

definition gb_reg :: "u64 \<Rightarrow> int \<Rightarrow> u64" where
  "gb_reg off i = UNM_CRB_NIU + off + of_int i * 0x10000"

definition UNM_NIU_GB_MAC_CONFIG_0 :: "int \<Rightarrow> u64" where "UNM_NIU_GB_MAC_CONFIG_0 = gb_reg 0x30000"
definition UNM_NIU_GB_MAC_CONFIG_1 :: "int \<Rightarrow> u64" where "UNM_NIU_GB_MAC_CONFIG_1 = gb_reg 0x30004"
definition UNM_NIU_GB_MII_MGMT_CONFIG :: "int \<Rightarrow> u64" where "UNM_NIU_GB_MII_MGMT_CONFIG = gb_reg 0x30020"
definition UNM_NIU_GB_MII_MGMT_COMMAND :: "int \<Rightarrow> u64" where "UNM_NIU_GB_MII_MGMT_COMMAND = gb_reg 0x30024"
definition UNM_NIU_GB_MII_MGMT_ADDR :: "int \<Rightarrow> u64" where "UNM_NIU_GB_MII_MGMT_ADDR = gb_reg 0x30028"
definition UNM_NIU_GB_MII_MGMT_CTRL :: "int \<Rightarrow> u64" where "UNM_NIU_GB_MII_MGMT_CTRL = gb_reg 0x3002c"
definition UNM_NIU_GB_MII_MGMT_STATUS :: "int \<Rightarrow> u64" where "UNM_NIU_GB_MII_MGMT_STATUS = gb_reg 0x30030"
definition UNM_NIU_GB_MII_MGMT_INDICATE :: "int \<Rightarrow> u64" where "UNM_NIU_GB_MII_MGMT_INDICATE = gb_reg 0x30034"
definition UNM_NIU_GB_STATION_ADDR_0 :: "int \<Rightarrow> u64" where "UNM_NIU_GB_STATION_ADDR_0 = gb_reg 0x30040"
definition UNM_NIU_GB_STATION_ADDR_1 :: "int \<Rightarrow> u64" where "UNM_NIU_GB_STATION_ADDR_1 = gb_reg 0x30044"
definition UNM_NIU_AP_STATION_ADDR_0 :: "int \<Rightarrow> u64" where "UNM_NIU_AP_STATION_ADDR_0 = gb_reg 0xa0040"
definition UNM_NIU_AP_STATION_ADDR_1 :: "int \<Rightarrow> u64" where "UNM_NIU_AP_STATION_ADDR_1 = gb_reg 0xa0044"
definition UNM_NIU_XGE_CONFIG_0 :: u64 where "UNM_NIU_XGE_CONFIG_0 = UNM_CRB_NIU + 0x70000"
definition UNM_NIU_XGE_CONFIG_1 :: u64 where "UNM_NIU_XGE_CONFIG_1 = UNM_CRB_NIU + 0x70004"
definition UNM_NIU_XGE_STATION_ADDR_0_HI :: u64 where "UNM_NIU_XGE_STATION_ADDR_0_HI = UNM_CRB_NIU + 0x7000c"
definition UNM_NIU_XGE_STATION_ADDR_0_1 :: u64 where "UNM_NIU_XGE_STATION_ADDR_0_1 = UNM_CRB_NIU + 0x70010"
definition UNM_NIU_XG1_STATION_ADDR_0_HI :: u64 where "UNM_NIU_XG1_STATION_ADDR_0_HI = UNM_CRB_NIU + 0x8000c"
definition UNM_NIU_XG1_STATION_ADDR_0_1 :: u64 where "UNM_NIU_XG1_STATION_ADDR_0_1 = UNM_CRB_NIU + 0x80010"
definition UNM_NIU_GB0_GMII_MODE :: u64 where "UNM_NIU_GB0_GMII_MODE = UNM_CRB_NIU + 0x00054"
definition UNM_NIU_GB0_MII_MODE :: u64 where "UNM_NIU_GB0_MII_MODE = UNM_CRB_NIU + 0x00058"
definition UNM_NIU_GB_DROP_WRONGADDR :: u64 where "UNM_NIU_GB_DROP_WRONGADDR = UNM_CRB_NIU + 0x00090"
definition UNM_NIU_XG_PAUSE_CTL :: u64 where "UNM_NIU_XG_PAUSE_CTL = UNM_CRB_NIU + 0x00098"
definition UNM_NIU_GB_PAUSE_CTL :: u64 where "UNM_NIU_GB_PAUSE_CTL = UNM_CRB_NIU + 0x0030c"
definition UNM_NIU_FRAME_COUNT_SELECT :: u64 where "UNM_NIU_FRAME_COUNT_SELECT = UNM_CRB_NIU + 0x000ac"
definition UNM_NIU_FRAME_COUNT :: u64 where "UNM_NIU_FRAME_COUNT = UNM_CRB_NIU + 0x000b0"
definition UNM_PORT_MODE_ADDR :: u64 where "UNM_PORT_MODE_ADDR = UNM_CAM_RAM 0x24"
definition UNM_PORT_MODE_802_3_AP :: u32 where "UNM_PORT_MODE_802_3_AP = 3"
definition UNM_NIU_PHY_WAITMAX :: nat where "UNM_NIU_PHY_WAITMAX = 50"
definition UNM_NIU_MAX_GBE_PORTS :: int where "UNM_NIU_MAX_GBE_PORTS = 4"
definition UNM_NIU_MAX_XG_PORTS :: int where "UNM_NIU_MAX_XG_PORTS = 2"

lemmas niu_addrs =
  UNM_PCI_CRB_WINDOW_def UNM_CRB_NIU_def UNM_CRB_PCIE_def UNM_CRB_CAM_def UNM_CAM_RAM_def
  UNM_PCIE_REG_def PCIE_SEM3_LOCK_def PCIE_SEM3_UNLOCK_def UNM_PHY_LOCK_ID_def gb_reg_def
  UNM_NIU_GB_MAC_CONFIG_0_def UNM_NIU_GB_MAC_CONFIG_1_def UNM_NIU_GB_MII_MGMT_CONFIG_def
  UNM_NIU_GB_MII_MGMT_COMMAND_def UNM_NIU_GB_MII_MGMT_ADDR_def UNM_NIU_GB_MII_MGMT_CTRL_def
  UNM_NIU_GB_MII_MGMT_STATUS_def UNM_NIU_GB_MII_MGMT_INDICATE_def UNM_NIU_GB_STATION_ADDR_0_def
  UNM_NIU_GB_STATION_ADDR_1_def UNM_NIU_AP_STATION_ADDR_0_def UNM_NIU_AP_STATION_ADDR_1_def
  UNM_NIU_XGE_CONFIG_0_def UNM_NIU_XGE_CONFIG_1_def UNM_NIU_XGE_STATION_ADDR_0_HI_def
  UNM_NIU_XGE_STATION_ADDR_0_1_def UNM_NIU_XG1_STATION_ADDR_0_HI_def
  UNM_NIU_XG1_STATION_ADDR_0_1_def UNM_NIU_GB0_GMII_MODE_def UNM_NIU_GB0_MII_MODE_def
  UNM_NIU_GB_DROP_WRONGADDR_def UNM_NIU_XG_PAUSE_CTL_def UNM_NIU_GB_PAUSE_CTL_def
  UNM_NIU_FRAME_COUNT_SELECT_def UNM_NIU_FRAME_COUNT_def UNM_PORT_MODE_ADDR_def

subsection \<open>The adapter's configuration\<close>

record niu_cfg =
  physical_port :: int
  link_speed :: nat
  rev_p3 :: bool
  single_port_10g :: bool

datatype prom_mode = UNM_NIU_PROMISCOUS_MODE | UNM_NIU_NON_PROMISCOUS_MODE

subsection \<open>The PHY semaphore\<close>

definition phy_lock_timeout :: nat where
  "phy_lock_timeout = 100000000"

definition phy_lock :: "'h bus \<Rightarrow> ('h, int) io" where
  "phy_lock B = do {
     ok \<leftarrow> sem_wait B (UNM_PCIE_REG PCIE_SEM3_LOCK) phy_lock_timeout;
     if ok then do { NXWR32 B UNM_PHY_LOCK_ID PHY_LOCK_DRIVER; ret 0 } else ret (- 1) }"

definition phy_unlock :: "'h bus \<Rightarrow> ('h, u32) io" where
  "phy_unlock B = NXRD32 B (UNM_PCIE_REG PCIE_SEM3_UNLOCK)"

subsection \<open>MII management\<close>

text \<open>Taking port 0's MAC out of reset for the transaction; the result is its old configuration
  and whether it has to be restored.\<close>

definition mii_unreset :: "'h bus \<Rightarrow> ('h, u32 \<times> bool) io" where
  "mii_unreset B = do {
     mac_cfg0 \<leftarrow> NXRD32 B (UNM_NIU_GB_MAC_CONFIG_0 0);
     if get_bits 31 1 mac_cfg0 \<noteq> 0 then do {
       NXWR32 B (UNM_NIU_GB_MAC_CONFIG_0 0)
         (put_bits 19 1 1 (put_bits 18 1 1 (put_bits 17 1 1 (put_bits 16 1 1 0))));
       ret (mac_cfg0, True) }
     else ret (mac_cfg0, False) }"

definition mii_address :: "niu_cfg \<Rightarrow> int \<Rightarrow> u32" where
  "mii_address c reg = put_bits 8 5 (of_int (physical_port c)) (put_bits 0 5 (of_int reg) 0)"

text \<open>
  The polling loop, with \<open>timeout\<close> incremented in the body and again in the loop condition. The
  first argument bounds the turns; 26 are always enough (lemma \<open>mii_wait_fuel\<close>).
\<close>

fun mii_wait :: "nat \<Rightarrow> 'h bus \<Rightarrow> (u32 \<Rightarrow> bool) \<Rightarrow> nat \<Rightarrow> ('h, nat) io" where
  "mii_wait 0 B busy timeout = ret timeout"
| "mii_wait (Suc n) B busy timeout = do {
     status \<leftarrow> NXRD32 B (UNM_NIU_GB_MII_MGMT_INDICATE 0);
     (let timeout = timeout + 1 in
      if busy status then
        (if timeout < UNM_NIU_PHY_WAITMAX then mii_wait n B busy (timeout + 1) else ret (timeout + 1))
      else ret timeout) }"

definition mii_turns :: nat where
  "mii_turns = 26"

definition mii_read_busy :: "u32 \<Rightarrow> bool" where
  "mii_read_busy status \<longleftrightarrow> get_bits 0 1 status \<noteq> 0 \<or> get_bits 2 1 status \<noteq> 0"

definition mii_write_busy :: "u32 \<Rightarrow> bool" where
  "mii_write_busy status \<longleftrightarrow> get_bits 0 1 status \<noteq> 0"

definition mii_restore :: "'h bus \<Rightarrow> u32 \<times> bool \<Rightarrow> ('h, unit) io" where
  "mii_restore B r = (if snd r then NXWR32 B (UNM_NIU_GB_MAC_CONFIG_0 0) (fst r) else ret ())"

text \<open>The value read is only there on success.\<close>

definition unm_niu_gbe_phy_read :: "'h bus \<Rightarrow> niu_cfg \<Rightarrow> int \<Rightarrow> ('h, int \<times> u32 option) io" where
  "unm_niu_gbe_phy_read B c reg = do {
     locked \<leftarrow> phy_lock B;
     if locked \<noteq> 0 then ret (- 1, None)
     else do {
       res \<leftarrow> do {
         restore \<leftarrow> mii_unreset B;
         NXWR32 B (UNM_NIU_GB_MII_MGMT_ADDR 0) (mii_address c reg);
         NXWR32 B (UNM_NIU_GB_MII_MGMT_COMMAND 0) 0;
         NXWR32 B (UNM_NIU_GB_MII_MGMT_COMMAND 0) (put_bits 0 1 1 0);
         timeout \<leftarrow> mii_wait mii_turns B mii_read_busy 0;
         result \<leftarrow>
           (if timeout < UNM_NIU_PHY_WAITMAX
            then do { v \<leftarrow> NXRD32 B (UNM_NIU_GB_MII_MGMT_STATUS 0); ret (0, Some v) }
            else ret (- 1, None));
         mii_restore B restore;
         ret result };
       phy_unlock B;
       ret res } }"

definition unm_niu_gbe_phy_write :: "'h bus \<Rightarrow> niu_cfg \<Rightarrow> int \<Rightarrow> u32 \<Rightarrow> ('h, int) io" where
  "unm_niu_gbe_phy_write B c reg val = do {
     locked \<leftarrow> phy_lock B;
     if locked \<noteq> 0 then ret (- 1)
     else do {
       res \<leftarrow> do {
         restore \<leftarrow> mii_unreset B;
         NXWR32 B (UNM_NIU_GB_MII_MGMT_COMMAND 0) 0;
         NXWR32 B (UNM_NIU_GB_MII_MGMT_ADDR 0) (mii_address c reg);
         NXWR32 B (UNM_NIU_GB_MII_MGMT_CTRL 0) val;
         timeout \<leftarrow> mii_wait mii_turns B mii_write_busy 0;
         mii_restore B restore;
         ret (if timeout < UNM_NIU_PHY_WAITMAX then 0 else - 1) };
       phy_unlock B;
       ret res } }"

subsection \<open>Ports\<close>

text \<open>The driver's own port check, with the bounds it uses.\<close>

definition gbe_port_ok :: "niu_cfg \<Rightarrow> bool" where
  "gbe_port_ok c \<longleftrightarrow> \<not> (physical_port c < 0 \<or> physical_port c > UNM_NIU_MAX_GBE_PORTS)"

definition xg_port_ok :: "niu_cfg \<Rightarrow> bool" where
  "xg_port_ok c \<longleftrightarrow> \<not> (physical_port c < 0 \<or> physical_port c > UNM_NIU_MAX_XG_PORTS)"

definition nx_p2_niu_enable_gbe_port :: "'h bus \<Rightarrow> niu_cfg \<Rightarrow> ('h, int) io" where
  "nx_p2_niu_enable_gbe_port B c =
     (let port = physical_port c;
          mac_cfg1 = put_bits 5 1 1 (put_bits 4 1 1 (put_bits 2 1 1 (put_bits 1 1 1
                       (put_bits 0 1 1 (put_bits 12 4 0xf 0)))))
      in
      if \<not> gbe_port_ok c then ret (- 1)
      else if link_speed c \<noteq> 10 \<and> link_speed c \<noteq> 100 \<and> link_speed c \<noteq> 1000 then ret (- 1)
      else do {
        NXWR32 B (UNM_NIU_GB_MAC_CONFIG_0 port) (put_bits 31 1 1 0);
        NXWR32 B (UNM_NIU_GB_MAC_CONFIG_0 port)
          (put_bits 19 1 1 (put_bits 18 1 1 (put_bits 17 1 1 (put_bits 16 1 1
             (put_bits 5 1 0 (put_bits 2 1 1 (put_bits 0 1 1 0)))))));
        (if link_speed c = 1000 then do {
           NXWR32 B (UNM_NIU_GB_MAC_CONFIG_1 port) (put_bits 8 2 2 mac_cfg1);
           NXWR32 B (UNM_NIU_GB0_MII_MODE + of_int port * 8) 0;
           NXWR32 B (UNM_NIU_GB0_GMII_MODE + of_int port * 8) 1 }
         else do {
           NXWR32 B (UNM_NIU_GB_MAC_CONFIG_1 port) (put_bits 8 2 1 mac_cfg1);
           NXWR32 B (UNM_NIU_GB0_GMII_MODE + of_int port * 8) 0;
           NXWR32 B (UNM_NIU_GB0_MII_MODE + of_int port * 8) 1 });
        NXWR32 B (UNM_NIU_GB_MII_MGMT_CONFIG port) (put_bits 0 3 7 0);
        NXWR32 B (UNM_NIU_GB_MAC_CONFIG_0 port)
          (put_bits 5 1 0 (put_bits 4 1 0 (put_bits 2 1 1 (put_bits 0 1 1 0))));
        ret 0 })"

definition nx_p2_niu_disable_gbe_port :: "'h bus \<Rightarrow> niu_cfg \<Rightarrow> ('h, int) io" where
  "nx_p2_niu_disable_gbe_port B c =
     (if \<not> gbe_port_ok c then ret (- 1)
      else do { NXWR32 B (UNM_NIU_GB_MAC_CONFIG_0 (physical_port c)) (put_bits 31 1 1 0); ret 0 })"

definition unm_niu_disable_xg_port :: "'h bus \<Rightarrow> niu_cfg \<Rightarrow> ('h, int) io" where
  "unm_niu_disable_xg_port B c =
     (if rev_p3 c then
        (if physical_port c \<noteq> 0 then ret (- 1)
         else do { NXWR32 B UNM_NIU_XGE_CONFIG_0 (put_bits 4 1 1 0); ret 0 })
      else
        (if physical_port c < 0 \<or> physical_port c \<ge> UNM_NIU_MAX_XG_PORTS then ret (- 1)
         else do {
           NXWR32 B (UNM_NIU_XGE_CONFIG_0 + of_int (physical_port c) * 0x10000) (put_bits 4 1 1 0);
           ret 0 }))"

subsection \<open>Promiscuous mode\<close>

text \<open>Waiting for the receive FIFO to drain: \<open>n\<close> more reads may find it busy; the read after them
  fails whatever it finds.\<close>

fun drain_wait :: "'h bus \<Rightarrow> nat \<Rightarrow> ('h, bool) io" where
  "drain_wait B 0 = do { val \<leftarrow> NXRD32 B UNM_NIU_FRAME_COUNT; ret False }"
| "drain_wait B (Suc n) = do {
     val \<leftarrow> NXRD32 B UNM_NIU_FRAME_COUNT;
     if val = 0 then ret True else drain_wait B n }"

definition unm_niu_set_promiscuous_mode :: "'h bus \<Rightarrow> niu_cfg \<Rightarrow> prom_mode \<Rightarrow> ('h, int) io" where
  "unm_niu_set_promiscuous_mode B c mode =
     (let port = physical_port c in
      if \<not> gbe_port_ok c then ret (- 1)
      else do {
        mac_cfg \<leftarrow> NXRD32 B (UNM_NIU_GB_MAC_CONFIG_0 port);
        NXWR32 B (UNM_NIU_GB_MAC_CONFIG_0 port) (put_bits 2 1 0 mac_cfg);
        NXWR32 B UNM_NIU_FRAME_COUNT_SELECT (push_bit (nat port) 0x20);
        drained \<leftarrow> drain_wait B 20;
        result \<leftarrow>
          (if drained then do {
             reg \<leftarrow> NXRD32 B UNM_NIU_GB_DROP_WRONGADDR;
             NXWR32 B UNM_NIU_GB_DROP_WRONGADDR
               (if port \<le> 3 then put_bits (nat port) 1 (if mode = UNM_NIU_PROMISCOUS_MODE then 0 else 1) reg
                else reg);
             ret (if port \<le> 3 then 0 else - 1) }
           else ret (- 1));
        NXWR32 B (UNM_NIU_GB_MAC_CONFIG_0 port) (put_bits 2 1 1 (put_bits 2 1 0 mac_cfg));
        ret result })"

definition unm_niu_xg_set_promiscuous_mode :: "'h bus \<Rightarrow> niu_cfg \<Rightarrow> prom_mode \<Rightarrow> ('h, int) io" where
  "unm_niu_xg_set_promiscuous_mode B c mode =
     (let port = physical_port c; off = of_int port * 0x10000 in
      if \<not> xg_port_ok c then ret (- 1)
      else do {
        port_mode \<leftarrow> NXRD32 B UNM_PORT_MODE_ADDR;
        if port_mode = UNM_PORT_MODE_802_3_AP then do {
          NXWR32 B UNM_NIU_GB_DROP_WRONGADDR 0; ret 0 }
        else do {
          mac_cfg \<leftarrow> NXRD32 B (UNM_NIU_XGE_CONFIG_0 + off);
          NXWR32 B (UNM_NIU_XGE_CONFIG_0 + off) (put_bits 2 1 0 mac_cfg);
          NXWR32 B UNM_NIU_FRAME_COUNT_SELECT
            (if single_port_10g c then 0x0200 else push_bit (nat port) 0x20);
          drained \<leftarrow> drain_wait B 20;
          (if drained then do {
             reg \<leftarrow> NXRD32 B (UNM_NIU_XGE_CONFIG_1 + off);
             NXWR32 B (UNM_NIU_XGE_CONFIG_1 + off)
               (if mode = UNM_NIU_PROMISCOUS_MODE then reg OR 0x2000 else reg AND NOT 0x2000) }
           else ret ());
          NXWR32 B (UNM_NIU_XGE_CONFIG_0 + off) (put_bits 2 1 1 (put_bits 2 1 0 mac_cfg));
          ret (if drained then 0 else - 1) } })"

subsection \<open>Station addresses\<close>

text \<open>The six bytes of a MAC address, copied into words in memory order.\<close>

definition le16 :: "u8 \<Rightarrow> u8 \<Rightarrow> u32" where
  "le16 a b = ucast a OR push_bit 8 (ucast b)"

definition le32 :: "u8 \<Rightarrow> u8 \<Rightarrow> u8 \<Rightarrow> u8 \<Rightarrow> u32" where
  "le32 a b c d = ucast a OR push_bit 8 (ucast b) OR push_bit 16 (ucast c) OR push_bit 24 (ucast d)"

type_synonym macaddr = "u8 \<times> u8 \<times> u8 \<times> u8 \<times> u8 \<times> u8"

definition mac_low :: "macaddr \<Rightarrow> u32" where
  "mac_low m = (case m of (a, b, c, d, e, f) \<Rightarrow> push_bit 16 (le16 a b))"

definition mac_high :: "macaddr \<Rightarrow> u32" where
  "mac_high m = (case m of (a, b, c, d, e, f) \<Rightarrow> le32 c d e f)"

definition mac_of_regs :: "u32 \<Rightarrow> u32 \<Rightarrow> macaddr" where
  "mac_of_regs high low =
     (let r = drop_bit 16 (ucast low) OR push_bit 16 (ucast high) :: u64 in
      (ucast r, ucast (drop_bit 8 r), ucast (drop_bit 16 r), ucast (drop_bit 24 r),
       ucast (drop_bit 32 r), ucast (drop_bit 40 r)))"

definition unm_niu_gbe_macaddr_set :: "'h bus \<Rightarrow> niu_cfg \<Rightarrow> macaddr \<Rightarrow> ('h, int) io" where
  "unm_niu_gbe_macaddr_set B c m =
     (let phy = physical_port c in
      if phy < 0 \<or> phy > 3 then ret (- 1)
      else do {
        NXWR32 B (UNM_NIU_GB_STATION_ADDR_1 phy) (mac_low m);
        NXWR32 B (UNM_NIU_GB_STATION_ADDR_0 phy) (mac_high m);
        ret 0 })"

definition unm_niu_xg_macaddr_set :: "'h bus \<Rightarrow> niu_cfg \<Rightarrow> macaddr \<Rightarrow> ('h, int) io" where
  "unm_niu_xg_macaddr_set B c m =
     (let phy = physical_port c in
      if phy < 0 \<or> phy > 3 then ret (- 1)
      else if phy > 1 then ret 0
      else do {
        port_mode \<leftarrow> NXRD32 B UNM_PORT_MODE_ADDR;
        if port_mode = UNM_PORT_MODE_802_3_AP then do {
          NXWR32 B (UNM_NIU_AP_STATION_ADDR_1 phy) (mac_low m);
          NXWR32 B (UNM_NIU_AP_STATION_ADDR_0 phy) (mac_high m);
          ret 0 }
        else if phy = 0 then do {
          NXWR32 B UNM_NIU_XGE_STATION_ADDR_0_1 (mac_low m);
          NXWR32 B UNM_NIU_XGE_STATION_ADDR_0_HI (mac_high m);
          ret 0 }
        else do {
          NXWR32 B UNM_NIU_XG1_STATION_ADDR_0_1 (mac_low m);
          NXWR32 B UNM_NIU_XG1_STATION_ADDR_0_HI (mac_high m);
          ret 0 } })"

definition unm_niu_xg_macaddr_get :: "'h bus \<Rightarrow> niu_cfg \<Rightarrow> ('h, int \<times> macaddr option) io" where
  "unm_niu_xg_macaddr_get B c =
     (if physical_port c \<noteq> 0 then ret (- 1, None)
      else do {
        high \<leftarrow> NXRD32 B UNM_NIU_XGE_STATION_ADDR_0_HI;
        low \<leftarrow> NXRD32 B UNM_NIU_XGE_STATION_ADDR_0_1;
        ret (0, Some (mac_of_regs high low)) })"

subsection \<open>Flow control\<close>

text \<open>Bit positions of the per-port pause masks.\<close>

definition xg_mask_bit :: "int \<Rightarrow> nat" where
  "xg_mask_bit port = (if port = 0 then 0 else 3)"

definition gb_mask_bit :: "int \<Rightarrow> nat" where
  "gb_mask_bit port = (if port = 0 then 0 else if port = 1 then 2 else if port = 2 then 4 else 6)"

definition unm_niu_xg_get_tx_flow_ctl :: "'h bus \<Rightarrow> niu_cfg \<Rightarrow> ('h, int \<times> bool option) io" where
  "unm_niu_xg_get_tx_flow_ctl B c =
     (if \<not> xg_port_ok c then ret (- 1, None)
      else do {
        reg \<leftarrow> NXRD32 B UNM_NIU_XG_PAUSE_CTL;
        ret (0, Some (get_bits (xg_mask_bit (physical_port c)) 1 reg = 0)) })"

definition unm_niu_xg_set_tx_flow_ctl :: "'h bus \<Rightarrow> niu_cfg \<Rightarrow> int \<Rightarrow> ('h, int) io" where
  "unm_niu_xg_set_tx_flow_ctl B c enable =
     (if \<not> xg_port_ok c then ret (- 1)
      else do {
        reg \<leftarrow> NXRD32 B UNM_NIU_XG_PAUSE_CTL;
        NXWR32 B UNM_NIU_XG_PAUSE_CTL
          (put_bits (xg_mask_bit (physical_port c)) 1 (if enable = 0 then 1 else 0) reg);
        ret 0 })"

definition unm_niu_gbe_get_tx_flow_ctl :: "'h bus \<Rightarrow> niu_cfg \<Rightarrow> ('h, int \<times> bool option) io" where
  "unm_niu_gbe_get_tx_flow_ctl B c =
     (if \<not> gbe_port_ok c then ret (- 1, None)
      else do {
        reg \<leftarrow> NXRD32 B UNM_NIU_GB_PAUSE_CTL;
        ret (0, Some (get_bits (gb_mask_bit (physical_port c)) 1 reg = 0)) })"

definition unm_niu_gbe_set_tx_flow_ctl :: "'h bus \<Rightarrow> niu_cfg \<Rightarrow> int \<Rightarrow> ('h, int) io" where
  "unm_niu_gbe_set_tx_flow_ctl B c enable =
     (if \<not> gbe_port_ok c then ret (- 1)
      else do {
        reg \<leftarrow> NXRD32 B UNM_NIU_GB_PAUSE_CTL;
        NXWR32 B UNM_NIU_GB_PAUSE_CTL
          (put_bits (gb_mask_bit (physical_port c)) 1 (if enable = 0 then 1 else 0) reg);
        ret 0 })"

definition unm_niu_gbe_get_rx_flow_ctl :: "'h bus \<Rightarrow> niu_cfg \<Rightarrow> ('h, int \<times> u32 option) io" where
  "unm_niu_gbe_get_rx_flow_ctl B c =
     (if \<not> gbe_port_ok c then ret (- 1, None)
      else do {
        reg \<leftarrow> NXRD32 B (UNM_NIU_GB_MAC_CONFIG_0 (physical_port c));
        ret (0, Some (get_bits 5 1 reg)) })"

text \<open>The C assignment stores the low bit of \<open>enable\<close>.\<close>

definition unm_niu_gbe_set_rx_flow_ctl :: "'h bus \<Rightarrow> niu_cfg \<Rightarrow> int \<Rightarrow> ('h, int) io" where
  "unm_niu_gbe_set_rx_flow_ctl B c enable =
     (if \<not> gbe_port_ok c then ret (- 1)
      else do {
        reg \<leftarrow> NXRD32 B (UNM_NIU_GB_MAC_CONFIG_0 (physical_port c));
        NXWR32 B (UNM_NIU_GB_MAC_CONFIG_0 (physical_port c)) (put_bits 5 1 (of_int enable) reg);
        ret 0 })"

subsection \<open>Lock discipline\<close>

abbreviation SEM3_L :: u64 where "SEM3_L \<equiv> UNM_PCIE_REG PCIE_SEM3_LOCK"
abbreviation SEM3_U :: u64 where "SEM3_U \<equiv> UNM_PCIE_REG PCIE_SEM3_UNLOCK"

lemma phy_lock_changes:
  assumes "sem_bus B SEM3_L"
  shows "changes SEM3_L SEM3_U (\<lambda>r. if r = 0 then 1 else 0) (phy_lock B)"
  unfolding phy_lock_def
proof (rule changes_bind [OF sem_wait_changes [OF assms]])
  show "SEM3_L \<noteq> SEM3_U" by (simp add: niu_addrs)
  show "changes SEM3_L SEM3_U (\<lambda>y. (if y = 0 then 1 else 0) - (if x then 1 else 0))
      (if x then do { NXWR32 B UNM_PHY_LOCK_ID PHY_LOCK_DRIVER; ret (0::int) } else ret (- 1))" for x
    by (auto intro!: sem_intros)
qed

lemma phy_unlock_changes: "changes SEM3_L SEM3_U (\<lambda>_. - 1) (phy_unlock B)"
  unfolding phy_unlock_def by (rule release_rd) (simp add: niu_addrs)

text \<open>A PHY whose semaphore answers: the contract's instance on the driver's two functions. The
  bus is that of the device, restricted to documented semaphore values.\<close>

definition sem_fix :: "u64 \<Rightarrow> 'h bus \<Rightarrow> 'h bus" where
  "sem_fix L B = B\<lparr>bus_rd := \<lambda>a h. (case bus_rd B a h of (v, h') \<Rightarrow>
     (if a = L \<and> v \<noteq> 1 then 0 else v, h'))\<rparr>"

lemma sem_fix_bus: "sem_bus (sem_fix L B) L"
  by (simp add: sem_bus_def sem_fix_def split: prod.splits)

lemma sem_fix_id: "sem_bus B L \<Longrightarrow> sem_fix L B = B"
proof -
  assume s: "sem_bus B L"
  have "(\<lambda>a h. (case bus_rd B a h of (v, h') \<Rightarrow> (if a = L \<and> v \<noteq> 1 then 0 else v, h'))) = bus_rd B"
  proof (intro ext)
    fix a h
    obtain v h' where b: "bus_rd B a h = (v, h')" by (cases "bus_rd B a h")
    then show "(case bus_rd B a h of (v, h') \<Rightarrow> (if a = L \<and> v \<noteq> 1 then 0 else v, h')) = bus_rd B a h"
      using s [unfolded sem_bus_def, rule_format, of h] by auto
  qed
  then show "sem_fix L B = B" by (simp add: sem_fix_def)
qed

interpretation phy: hw_lock SEM3_L SEM3_U "phy_lock (sem_fix SEM3_L B)" "phy_unlock (sem_fix SEM3_L B)"
  for B :: "'h bus"
  by unfold_locales (rule phy_lock_changes [OF sem_fix_bus] phy_unlock_changes)+

lemma neutral_mii_wait: "neutral SEM3_L SEM3_U (mii_wait n B busy t)"
  by (induction n arbitrary: t) (auto intro!: sem_intros simp: niu_addrs Let_def)

lemma neutral_mii_unreset: "neutral SEM3_L SEM3_U (mii_unreset B)"
  unfolding mii_unreset_def by (auto intro!: sem_intros simp: niu_addrs)

lemma neutral_mii_restore: "neutral SEM3_L SEM3_U (mii_restore B r)"
  unfolding mii_restore_def by (auto intro!: sem_intros)

lemma phy_read_neutral: "neutral SEM3_L SEM3_U (unm_niu_gbe_phy_read (sem_fix SEM3_L B) c reg)"
  unfolding unm_niu_gbe_phy_read_def
  by (rule phy.protect)
    (intro sem_intros neutral_mii_wait neutral_mii_unreset neutral_mii_restore; simp add: niu_addrs)

lemma phy_write_neutral: "neutral SEM3_L SEM3_U (unm_niu_gbe_phy_write (sem_fix SEM3_L B) c reg v)"
  unfolding unm_niu_gbe_phy_write_def
  by (rule phy.protect)
    (intro sem_intros neutral_mii_wait neutral_mii_unreset neutral_mii_restore; simp add: niu_addrs)

subsection \<open>How long the MII loop polls\<close>

text \<open>Answers of the status register, zero after the end of the list.\<close>

definition answer :: "u32 list \<Rightarrow> nat \<Rightarrow> u32" where
  "answer xs i = (if i < length xs then xs ! i else 0)"

lemma script_rd: "bus_rd script_bus a xs = (answer xs 0, drop 1 xs)"
  by (cases xs) (simp_all add: script_bus_def answer_def)

lemma answer_drop: "answer (drop 1 xs) i = answer xs (Suc i)"
  by (cases xs) (auto simp: answer_def)

text \<open>
  From an even value \<open>2 * k\<close> of the counter, the loop's result is below the limit exactly if a
  status word among the next \<open>25 - k\<close> is not busy, and at most \<open>26 - k\<close> words are read.
\<close>

lemma mii_wait_spec:
  "k \<le> 25 \<Longrightarrow> n = 26 - k \<Longrightarrow>
   run_state (mii_wait n script_bus busy (2 * k)) \<lparr>hw = xs, log = es\<rparr> = (t, d) \<Longrightarrow>
   (t < UNM_NIU_PHY_WAITMAX \<longleftrightarrow> (\<exists>i < 25 - k. \<not> busy (answer xs i))) \<and>
   length (log d) \<le> length es + (26 - k)"
proof (induction n arbitrary: k xs es)
  case 0
  then show ?case by simp
next
  case (Suc n)
  let ?es = "es @ [Rd (UNM_NIU_GB_MII_MGMT_INDICATE 0) (answer xs 0)]"
  show ?case
  proof (cases "busy (answer xs 0)")
    case False
    with Suc.prems(3) have "t = 2 * k + 1" "log d = ?es"
      by (auto simp: io_simps script_rd Let_def)
    moreover have "(\<exists>i < 25 - k. \<not> busy (answer xs i)) \<longleftrightarrow> k < 25"
      using False by (metis gr0I zero_less_diff diff_is_0_eq less_nat_zero_code not_le)
    ultimately show ?thesis using Suc.prems(1) by (auto simp: UNM_NIU_PHY_WAITMAX_def)
  next
    case True
    show ?thesis
    proof (cases "k = 25")
      case k: True
      with Suc.prems(3) True have "t = 52" "log d = ?es"
        by (auto simp: io_simps script_rd Let_def UNM_NIU_PHY_WAITMAX_def)
      with k show ?thesis by (simp add: UNM_NIU_PHY_WAITMAX_def)
    next
      case k: False
      with Suc.prems(1) have k': "Suc k \<le> 25" by simp
      have run: "run_state (mii_wait n script_bus busy (2 * Suc k)) \<lparr>hw = drop 1 xs, log = ?es\<rparr> = (t, d)"
        using Suc.prems(1,3) True k by (simp add: io_simps script_rd Let_def UNM_NIU_PHY_WAITMAX_def)
      have "n = 26 - Suc k" using Suc.prems(2) by simp
      from Suc.IH [OF k' this run]
      have ih: "t < UNM_NIU_PHY_WAITMAX \<longleftrightarrow> (\<exists>i < 25 - Suc k. \<not> busy (answer xs (Suc i)))"
        "length (log d) \<le> length ?es + (26 - Suc k)" by (simp_all only: answer_drop)
      have "(\<exists>i < 25 - Suc k. \<not> busy (answer xs (Suc i))) \<longleftrightarrow> (\<exists>i < 25 - k. \<not> busy (answer xs i))"
      proof
        assume "\<exists>i < 25 - Suc k. \<not> busy (answer xs (Suc i))"
        then obtain i where "i < 25 - Suc k" "\<not> busy (answer xs (Suc i))" by blast
        then have "Suc i < 25 - k \<and> \<not> busy (answer xs (Suc i))" by simp
        then show "\<exists>i < 25 - k. \<not> busy (answer xs i)" by blast
      next
        assume "\<exists>i < 25 - k. \<not> busy (answer xs i)"
        then obtain i where i: "i < 25 - k" "\<not> busy (answer xs i)" by blast
        with True obtain j where "i = Suc j" by (cases i) auto
        with i have "j < 25 - Suc k \<and> \<not> busy (answer xs (Suc j))" by simp
        then show "\<exists>i < 25 - Suc k. \<not> busy (answer xs (Suc i))" by blast
      qed
      with ih k' show ?thesis by simp
    qed
  qed
qed

text \<open>More turns than 26 are never taken.\<close>

lemma mii_wait_fuel:
  "26 \<le> n + t div 2 \<Longrightarrow> even t \<Longrightarrow> t \<le> 50 \<Longrightarrow> mii_wait (n + m) B busy t = mii_wait n B busy t"
proof (induction n arbitrary: t)
  case 0
  then show ?case by auto
next
  case (Suc n)
  have "mii_wait (n + m) B busy (t + 1 + 1) = mii_wait n B busy (t + 1 + 1)" if "t + 1 < UNM_NIU_PHY_WAITMAX"
    using Suc.IH [of "t + 2"] Suc.prems that by (simp add: UNM_NIU_PHY_WAITMAX_def)
  then show ?case by (simp add: Let_def cong: if_cong)
qed

subsection \<open>Registers that hold their value\<close>

lemma mac_bytes_16: "drop_bit 16 (ucast (push_bit 16 (le16 a b)) :: u64) = ucast (le16 a b)"
  by (rule bit_word_eqI) (auto simp: bit_simps le16_def dest: bit_imp_le_length)

lemma bit_byte_high: "bit (a :: u8) (8 + n) = False" "bit (a :: u8) (16 + n) = False" "bit (a :: u8) (24 + n) = False"
  by (auto dest: bit_imp_le_length)

lemma mac_roundtrip: "mac_of_regs (mac_high m) (mac_low m) = m"
proof -
  obtain a b c d e f where m: "m = (a, b, c, d, e, f)" by (cases m)
  show ?thesis
    unfolding m mac_of_regs_def mac_high_def mac_low_def Let_def prod.case mac_bytes_16
    by (auto intro!: bit_word_eqI simp: bit_simps le16_def le32_def bit_byte_high)
qed

lemma xg_mac_set_get:
  assumes "physical_port c = 0" "m UNM_PORT_MODE_ADDR \<noteq> UNM_PORT_MODE_802_3_AP"
  shows "case exec (unm_niu_xg_macaddr_set mem_bus c mac) m of (rv, m', _) \<Rightarrow>
           rv = 0 \<and> fst (exec (unm_niu_xg_macaddr_get mem_bus c) m') = (0, Some mac)"
proof -
  have ne: "UNM_NIU_XGE_STATION_ADDR_0_1 \<noteq> UNM_NIU_XGE_STATION_ADDR_0_HI"
    "UNM_NIU_XGE_STATION_ADDR_0_HI \<noteq> UNM_NIU_XGE_STATION_ADDR_0_1" by (simp_all add: niu_addrs)
  show ?thesis
    using assms ne
    by (simp add: exec_def unm_niu_xg_macaddr_set_def unm_niu_xg_macaddr_get_def io_simps Let_def mac_roundtrip)
qed

lemma bit0_1: "(put_bits p 1 (if b then 1 else 0) w :: u32) =
   (if b then w OR push_bit p 1 else w AND NOT (push_bit p 1))"
  by (rule bit_word_eqI) (auto simp: bit_put_bits bit_simps split: if_splits)

text \<open>Writing a one-bit field and reading it back, and leaving all other bits alone.\<close>

lemma get_put_1:
  assumes "p < 32"
  shows "get_bits p 1 (put_bits p 1 (if b then 1 else 0) (w :: u32)) = 0 \<longleftrightarrow> \<not> b"
    and "i \<noteq> p \<Longrightarrow> bit (put_bits p 1 v w) i = bit w i"
proof -
  have "get_bits p 1 (put_bits p 1 (if b then 1 else 0) w) = (if b then 1 else 0) AND mask 1"
    by (rule get_put_same) (use assms in simp)
  then show "get_bits p 1 (put_bits p 1 (if b then 1 else 0) w) = 0 \<longleftrightarrow> \<not> b" by simp
  show "i \<noteq> p \<Longrightarrow> bit (put_bits p 1 v w) i = bit w i"
    by (auto simp: bit_put_bits dest: bit_imp_le_length)
qed

subsection \<open>Properties\<close>

text \<open>A card for the witnesses: every semaphore is free, everything else reads 0.\<close>

definition free_bus :: "unit bus" where
  "free_bus = \<lparr>bus_rd = \<lambda>a h. (if a = SEM3_L then 1 else 0, h), bus_wr = \<lambda>a v h. h\<rparr>"

definition sample_cfg :: niu_cfg where
  "sample_cfg = \<lparr>physical_port = 0, link_speed = 1000, rev_p3 = False, single_port_10g = True\<rparr>"

text \<open>
  C37 MII register reads and writes give the PHY semaphore back on every path: for any card
  whose semaphore register answers 0 or 1, takes and releases of the semaphore balance over
  the whole access, whether it succeeds, times out or never gets the lock.
\<close>

theorem mii_access_releases_phy_lock:
  assumes "sem_bus B SEM3_L"
  shows "sem_level SEM3_L SEM3_U (log (snd (run_state (unm_niu_gbe_phy_read B c reg) d))) =
           sem_level SEM3_L SEM3_U (log d) \<and>
         sem_level SEM3_L SEM3_U (log (snd (run_state (unm_niu_gbe_phy_write B c reg v) d))) =
           sem_level SEM3_L SEM3_U (log d)"
  using phy_read_neutral [of B c reg] phy_write_neutral [of B c reg v]
  by (simp add: sem_fix_id [OF assms] changes_def)

theorem mii_access_releases_phy_lock_witness:
  "sem_level SEM3_L SEM3_U (log (snd (run_state (unm_niu_gbe_phy_read free_bus sample_cfg 1)
      \<lparr>hw = (), log = []\<rparr>))) = 0"
  using mii_access_releases_phy_lock [of free_bus sample_cfg 1 "\<lparr>hw = (), log = []\<rparr>" 0]
  by (simp add: sem_bus_def free_bus_def sem_level_def)

text \<open>
  The MII polling loop counts its timeout twice per turn: with the limit
  \<open>UNM_NIU_PHY_WAITMAX = 50\<close> it reads the status at most 26 times, and the access succeeds
  exactly if one of the first 25 status words is not busy; a 26th word that is ready is
  still reported as a timeout.
\<close>

theorem mii_poll_limit:
  "case run_state (mii_wait mii_turns script_bus busy 0) \<lparr>hw = xs, log = []\<rparr> of
     (t, d) \<Rightarrow> (t < UNM_NIU_PHY_WAITMAX) = (\<exists>i. i < 25 \<and> \<not> busy (answer xs i)) \<and> length (log d) \<le> 26"
proof -
  obtain t d where r: "run_state (mii_wait 26 script_bus busy (2 * 0)) \<lparr>hw = xs, log = []\<rparr> = (t, d)"
    by (cases "run_state (mii_wait 26 script_bus busy (2 * 0)) \<lparr>hw = xs, log = []\<rparr>")
  from mii_wait_spec [OF _ _ r] r show ?thesis by (simp add: mii_turns_def)
qed

text \<open>
  A station address survives the XGE registers: on registers that hold their value, setting
  the address of port 0 and getting it returns the six bytes that were set, in order.
\<close>

theorem xg_macaddr_roundtrip:
  assumes "physical_port c = 0" "m UNM_PORT_MODE_ADDR \<noteq> UNM_PORT_MODE_802_3_AP"
  shows "case exec (unm_niu_xg_macaddr_set mem_bus c mac) m of (rv, m', _) \<Rightarrow>
           rv = 0 \<and> fst (exec (unm_niu_xg_macaddr_get mem_bus c) m') = (0, Some mac)"
  using assms by (rule xg_mac_set_get)

theorem xg_macaddr_roundtrip_witness:
  "case exec (unm_niu_xg_macaddr_set mem_bus sample_cfg (1, 2, 3, 4, 5, 0xff)) (\<lambda>_. 0) of (rv, m', _) \<Rightarrow>
     fst (exec (unm_niu_xg_macaddr_get mem_bus sample_cfg) m') = (0, Some (1, 2, 3, 4, 5, 0xff))"
  using xg_macaddr_roundtrip [of sample_cfg "\<lambda>_. 0" "(1, 2, 3, 4, 5, 0xff)"]
  by (simp add: sample_cfg_def UNM_PORT_MODE_802_3_AP_def split: prod.splits)

text \<open>
  Transmit flow control is per port: for every port the driver accepts, on registers that
  hold their value, what was set is what is read back, for the XG and the GbE register, and
  setting it changes no other bit of the pause register.
\<close>

theorem tx_flow_ctl_roundtrip:
  assumes "0 \<le> physical_port c" "physical_port c \<le> 2"
  shows "(case exec (unm_niu_xg_set_tx_flow_ctl mem_bus c en) m of (rv, m', _) \<Rightarrow>
            rv = 0 \<and> fst (exec (unm_niu_xg_get_tx_flow_ctl mem_bus c) m') = (0, Some (en \<noteq> 0)) \<and>
            (\<forall>i. i = xg_mask_bit (physical_port c) \<or>
                 bit (m' UNM_NIU_XG_PAUSE_CTL) i = bit (m UNM_NIU_XG_PAUSE_CTL) i)) \<and>
         (case exec (unm_niu_gbe_set_tx_flow_ctl mem_bus c en) m of (rv, m', _) \<Rightarrow>
            rv = 0 \<and> fst (exec (unm_niu_gbe_get_tx_flow_ctl mem_bus c) m') = (0, Some (en \<noteq> 0)) \<and>
            (\<forall>i. i = gb_mask_bit (physical_port c) \<or>
                 bit (m' UNM_NIU_GB_PAUSE_CTL) i = bit (m UNM_NIU_GB_PAUSE_CTL) i))"
proof -
  have ok: "xg_port_ok c" "gbe_port_ok c"
    using assms by (auto simp: xg_port_ok_def gbe_port_ok_def UNM_NIU_MAX_XG_PORTS_def UNM_NIU_MAX_GBE_PORTS_def)
  have b: "xg_mask_bit p < 32" "gb_mask_bit p < 32" for p by (simp_all add: xg_mask_bit_def gb_mask_bit_def)
  show ?thesis
    using ok get_put_1(1) [OF b(1)] get_put_1(1) [OF b(2)] get_put_1(2) [OF b(1)] get_put_1(2) [OF b(2)]
    by (auto simp: exec_def unm_niu_xg_set_tx_flow_ctl_def unm_niu_xg_get_tx_flow_ctl_def
        unm_niu_gbe_set_tx_flow_ctl_def unm_niu_gbe_get_tx_flow_ctl_def io_simps)
qed

theorem tx_flow_ctl_roundtrip_witness:
  "fst (exec (unm_niu_xg_get_tx_flow_ctl mem_bus sample_cfg)
     (fst (snd (exec (unm_niu_xg_set_tx_flow_ctl mem_bus sample_cfg 1) (\<lambda>_. 9))))) = (0, Some True)"
  using tx_flow_ctl_roundtrip [of sample_cfg 1 "\<lambda>_. 9"] by (simp add: sample_cfg_def split: prod.splits)

text \<open>
  Changing promiscuous mode never leaves the receiver off: whatever the card answers, if the
  port is accepted the last access writes the port's MAC configuration back with the receive
  enable bit set, also when draining the FIFO timed out.
\<close>

theorem promiscuous_mode_reenables_rx:
  assumes "gbe_port_ok c"
  shows "\<exists>v. log (snd (run_state (unm_niu_set_promiscuous_mode B c mode) d)) \<noteq> [] \<and>
             last (log (snd (run_state (unm_niu_set_promiscuous_mode B c mode) d))) =
               Wr (UNM_NIU_GB_MAC_CONFIG_0 (physical_port c)) v \<and> bit v 2"
proof -
  let ?a = "UNM_NIU_GB_MAC_CONFIG_0 (physical_port c)"
  let ?v = "put_bits 2 1 1 (put_bits 2 1 0 (fst (bus_rd B ?a (hw d))))"
  have "bit ?v 2" by (simp add: bit_put_bits)
  moreover have "\<exists>es. log (snd (run_state (unm_niu_set_promiscuous_mode B c mode) d)) = es @ [Wr ?a ?v]"
    using assms by (auto simp: unm_niu_set_promiscuous_mode_def Let_def io_simps split: prod.splits)
  ultimately show ?thesis by auto
qed

theorem promiscuous_mode_reenables_rx_witness:
  "\<exists>v. last (log (snd (run_state (unm_niu_set_promiscuous_mode free_bus sample_cfg UNM_NIU_PROMISCOUS_MODE)
      \<lparr>hw = (), log = []\<rparr>))) = Wr (UNM_NIU_GB_MAC_CONFIG_0 0) v \<and> bit v 2"
  using promiscuous_mode_reenables_rx [of sample_cfg free_bus UNM_NIU_PROMISCOUS_MODE "\<lparr>hw = (), log = []\<rparr>"]
  by (auto simp: gbe_port_ok_def sample_cfg_def UNM_NIU_MAX_GBE_PORTS_def)

text \<open>
  The GbE port check admits one port too many: port 4 passes it although the unit has ports
  0 to 3, and the MAC configuration register of "port 4" is the XGE configuration register, so
  that disabling it writes the GbE reset bit into the 10G port's register.
\<close>

theorem gbe_port_check_off_by_one:
  "gbe_port_ok (sample_cfg\<lparr>physical_port := 4\<rparr>) \<and>
   UNM_NIU_GB_MAC_CONFIG_0 4 = UNM_NIU_XGE_CONFIG_0 \<and>
   exec (nx_p2_niu_disable_gbe_port mem_bus (sample_cfg\<lparr>physical_port := 4\<rparr>)) m =
     (0, m(UNM_NIU_XGE_CONFIG_0 := 0x80000000), [Wr UNM_NIU_XGE_CONFIG_0 0x80000000])"
proof -
  have a: "UNM_NIU_GB_MAC_CONFIG_0 4 = UNM_NIU_XGE_CONFIG_0" by (simp add: niu_addrs)
  have v: "(put_bits 31 1 1 0 :: u32) = 0x80000000" by (simp add: put_bits_def)
  show ?thesis
    using a v by (simp add: gbe_port_ok_def UNM_NIU_MAX_GBE_PORTS_def exec_def nx_p2_niu_disable_gbe_port_def io_simps)
qed

end
