(* ===== verification/Mdio.thy ===== *)
theory Mdio
  imports Niu
begin

text \<open>
  Bit-banged MDIO access to the 10G PHY through two GPIO pins (\<open>driver/xge_mdio.c\<close>) and the
  loopback switches built on it. A frame is a preamble of 32 ones, start of frame, opcode,
  port and device address, turnaround and sixteen data bits, each most significant bit first
  and clocked by MDC. What the wire carries is read off the log of register writes: the level
  of MDIO at each rising write of MDC. \<open>MDIO_DELAY\<close> is empty in the source.
\<close>

subsection \<open>The pins\<close>

definition UNM_CRB_ROMUSB :: u64 where "UNM_CRB_ROMUSB = UNM_PCI_CRB_WINDOW 51"

definition UNM_ROMUSB_GPIO :: "nat \<Rightarrow> u64" where
  "UNM_ROMUSB_GPIO n =
     (if n \<le> 15 then UNM_CRB_ROMUSB + 0x60 + of_nat (4 * n)
      else if n \<le> 18 then UNM_CRB_ROMUSB + 0x70 + of_nat (4 * n)
      else UNM_CRB_ROMUSB + 0x70 + of_nat (4 * 19))"

definition UNM_ROMUSB_GLB_PAD_GPIO_I :: u64 where
  "UNM_ROMUSB_GLB_PAD_GPIO_I = UNM_CRB_ROMUSB + 0x000c"

definition GPIO_OE :: u32 where "GPIO_OE = 2"
definition GPIO_LO :: u32 where "GPIO_LO = 0"
definition GPIO_HI :: u32 where "GPIO_HI = 1"

definition MDC_GPIO :: "bool \<Rightarrow> nat" where "MDC_GPIO p3 = (if p3 then 16 else 7)"
definition MDIO_GPIO :: "bool \<Rightarrow> nat" where "MDIO_GPIO p3 = (if p3 then 17 else 8)"

definition MDC_LOW :: "'h bus \<Rightarrow> bool \<Rightarrow> ('h, unit) io" where
  "MDC_LOW B p3 = NXWR32 B (UNM_ROMUSB_GPIO (MDC_GPIO p3)) (GPIO_OE OR GPIO_LO)"

definition MDC_HI :: "'h bus \<Rightarrow> bool \<Rightarrow> ('h, unit) io" where
  "MDC_HI B p3 = NXWR32 B (UNM_ROMUSB_GPIO (MDC_GPIO p3)) (GPIO_OE OR GPIO_HI)"

definition SET_MDIO :: "'h bus \<Rightarrow> bool \<Rightarrow> u32 \<Rightarrow> ('h, unit) io" where
  "SET_MDIO B p3 b = NXWR32 B (UNM_ROMUSB_GPIO (MDIO_GPIO p3)) (GPIO_OE OR b)"

definition GET_BIT :: "'h bus \<Rightarrow> bool \<Rightarrow> ('h, u32) io" where
  "GET_BIT B p3 = do {
     temp \<leftarrow> NXRD32 B UNM_ROMUSB_GLB_PAD_GPIO_I;
     ret (drop_bit (MDIO_GPIO p3) temp AND 1) }"

definition HI_Z :: "'h bus \<Rightarrow> bool \<Rightarrow> ('h, unit) io" where
  "HI_Z B p3 = do {
     NXWR32 B (UNM_ROMUSB_GPIO (MDC_GPIO p3)) 0;
     NXWR32 B (UNM_ROMUSB_GPIO (MDIO_GPIO p3)) 0 }"

subsection \<open>Clocking bits\<close>

definition clock_bit :: "'h bus \<Rightarrow> bool \<Rightarrow> u32 \<Rightarrow> ('h, unit) io" where
  "clock_bit B p3 b = do { MDC_LOW B p3; SET_MDIO B p3 b; MDC_HI B p3 }"

fun PREAMBLE_loop :: "nat \<Rightarrow> 'h bus \<Rightarrow> bool \<Rightarrow> ('h, unit) io" where
  "PREAMBLE_loop 0 B p3 = ret ()"
| "PREAMBLE_loop (Suc n) B p3 = do { clock_bit B p3 1; PREAMBLE_loop n B p3 }"

definition PREAMBLE :: "'h bus \<Rightarrow> bool \<Rightarrow> ('h, unit) io" where
  "PREAMBLE = PREAMBLE_loop 32"

text \<open>The loop runs over the index list; \<open>data\<close> is the 64-bit \<open>long\<close>.\<close>

fun clock_in_loop :: "nat list \<Rightarrow> 'h bus \<Rightarrow> bool \<Rightarrow> u64 \<Rightarrow> nat \<Rightarrow> ('h, unit) io" where
  "clock_in_loop [] B p3 data len = ret ()"
| "clock_in_loop (i # is) B p3 data len = do {
     clock_bit B p3 (ucast (drop_bit (len - (i + 1)) data AND 1));
     clock_in_loop is B p3 data len }"

definition CLOCK_IN_BITS :: "'h bus \<Rightarrow> bool \<Rightarrow> u64 \<Rightarrow> nat \<Rightarrow> ('h, unit) io" where
  "CLOCK_IN_BITS B p3 data len = clock_in_loop [0..<len] B p3 data len"

fun clock_out_loop :: "nat list \<Rightarrow> 'h bus \<Rightarrow> bool \<Rightarrow> u64 \<Rightarrow> ('h, u64) io" where
  "clock_out_loop [] B p3 result = ret result"
| "clock_out_loop (i # is) B p3 result = do {
     MDC_LOW B p3;
     b \<leftarrow> GET_BIT B p3;
     MDC_HI B p3;
     clock_out_loop is B p3 (result OR push_bit (15 - i) (ucast b)) }"

definition CLOCK_OUT_BITS :: "'h bus \<Rightarrow> bool \<Rightarrow> ('h, u64) io" where
  "CLOCK_OUT_BITS B p3 = do {
     NXWR32 B (UNM_ROMUSB_GPIO (MDIO_GPIO p3)) 0;
     clock_out_loop [0..<16] B p3 0 }"

subsection \<open>Frames\<close>

definition OPCODE_ADDR :: u64 where "OPCODE_ADDR = 0"
definition OPCODE_WRITE :: u64 where "OPCODE_WRITE = 1"
definition OPCODE_READ :: u64 where "OPCODE_READ = 3"

definition frame_header :: "'h bus \<Rightarrow> bool \<Rightarrow> u64 \<Rightarrow> u64 \<Rightarrow> u64 \<Rightarrow> ('h, unit) io" where
  "frame_header B p3 opcode port dev = do {
     PREAMBLE B p3;
     CLOCK_IN_BITS B p3 0 2;
     CLOCK_IN_BITS B p3 opcode 2;
     CLOCK_IN_BITS B p3 port 5;
     CLOCK_IN_BITS B p3 dev 5;
     CLOCK_IN_BITS B p3 2 2 }"

definition MDIO_WR_CYCLE :: "'h bus \<Rightarrow> bool \<Rightarrow> u64 \<Rightarrow> u64 \<Rightarrow> u64 \<Rightarrow> u64 \<Rightarrow> ('h, unit) io" where
  "MDIO_WR_CYCLE B p3 opcode port dev addr_data = do {
     frame_header B p3 opcode port dev;
     CLOCK_IN_BITS B p3 addr_data 16 }"

definition MDIO_RD_CYCLE :: "'h bus \<Rightarrow> bool \<Rightarrow> u64 \<Rightarrow> u64 \<Rightarrow> u64 \<Rightarrow> ('h, u64) io" where
  "MDIO_RD_CYCLE B p3 opcode port dev = do {
     frame_header B p3 opcode port dev;
     CLOCK_OUT_BITS B p3 }"

text \<open>\<open>unm_xge_mdio_wr\<close> and \<open>unm_xge_mdio_rd\<close> are these with the adapter's own port.\<close>

definition unm_xge_mdio_wr_port :: "'h bus \<Rightarrow> bool \<Rightarrow> u64 \<Rightarrow> u64 \<Rightarrow> u64 \<Rightarrow> u64 \<Rightarrow> ('h, unit) io" where
  "unm_xge_mdio_wr_port B p3 port devaddr addr data = do {
     MDIO_WR_CYCLE B p3 OPCODE_ADDR port devaddr addr;
     MDIO_WR_CYCLE B p3 OPCODE_WRITE port devaddr data }"

definition unm_xge_mdio_rd_port :: "'h bus \<Rightarrow> bool \<Rightarrow> u64 \<Rightarrow> u64 \<Rightarrow> u64 \<Rightarrow> ('h, u64) io" where
  "unm_xge_mdio_rd_port B p3 port devaddr addr = do {
     MDIO_WR_CYCLE B p3 OPCODE_ADDR port devaddr addr;
     MDIO_RD_CYCLE B p3 OPCODE_READ port devaddr }"

record mdio_cfg =
  mdio_p3 :: bool
  portnum :: u64
  board_xgbe :: bool
  board_gbe :: bool
  devfn :: u64
  mdio_niu :: niu_cfg

definition unm_xge_mdio_wr :: "'h bus \<Rightarrow> mdio_cfg \<Rightarrow> u64 \<Rightarrow> u64 \<Rightarrow> u64 \<Rightarrow> ('h, unit) io" where
  "unm_xge_mdio_wr B c devaddr addr data = do {
     MDIO_WR_CYCLE B (mdio_p3 c) OPCODE_ADDR (portnum c) devaddr addr;
     MDIO_WR_CYCLE B (mdio_p3 c) OPCODE_WRITE (portnum c) devaddr data }"

definition unm_xge_mdio_rd :: "'h bus \<Rightarrow> mdio_cfg \<Rightarrow> u64 \<Rightarrow> u64 \<Rightarrow> ('h, u64) io" where
  "unm_xge_mdio_rd B c devaddr addr = do {
     MDIO_WR_CYCLE B (mdio_p3 c) OPCODE_ADDR (portnum c) devaddr addr;
     MDIO_RD_CYCLE B (mdio_p3 c) OPCODE_READ (portnum c) devaddr }"

subsection \<open>Loopback\<close>

definition DEV_PMA_PMD :: u64 where "DEV_PMA_PMD = 1"
definition DEV_PHY_XS :: u64 where "DEV_PHY_XS = 4"
definition AEL_LOOPBACK_EN_REG :: u64 where "AEL_LOOPBACK_EN_REG = 0xc017"
definition PMD_IDENTIFIER :: u64 where "PMD_IDENTIFIER = 2"
definition PMD_ID_QUAKE :: u64 where "PMD_ID_QUAKE = 0x43"
definition PMD_ID_MYSTICOM :: u64 where "PMD_ID_MYSTICOM = 0x240"

text \<open>
  \<open>junk\<close> is the uninitialised local \<open>data\<close>, which keeps its value when the PHY read fails. The
  first read, of the subsystem id, is not used.
\<close>

definition do_xge_loopback_p3 :: "'h bus \<Rightarrow> mdio_cfg \<Rightarrow> u32 \<Rightarrow> bool \<Rightarrow> ('h, int) io" where
  "do_xge_loopback_p3 B c junk on = do {
     NXRD32 B (UNM_PCIE_REG (devfn c * 0x1000 + 0x2c));
     if board_xgbe c then do {
       locked \<leftarrow> phy_lock B;
       if locked \<noteq> 0 then ret (- 1)
       else do {
         res \<leftarrow> do {
           data \<leftarrow> unm_xge_mdio_rd_port B (mdio_p3 c) (portnum c) DEV_PHY_XS 0xc000;
           unm_xge_mdio_wr_port B (mdio_p3 c) (portnum c) DEV_PHY_XS 0xc000
             (ucast (if on then (ucast data :: u32) OR 0x4000 else ucast data AND NOT 0x4000));
           ret 0 };
         phy_unlock B;
         ret res } }
     else if board_gbe c then do {
       r \<leftarrow> unm_niu_gbe_phy_read B (mdio_niu c) 0;
       (let data = (case snd r of None \<Rightarrow> junk | Some v \<Rightarrow> v) in
        unm_niu_gbe_phy_write B (mdio_niu c) 0 (if on then data OR 0x4000 else data AND NOT 0x4000)) }
     else ret 0 }"

definition do_xge_loopback :: "'h bus \<Rightarrow> mdio_cfg \<Rightarrow> bool \<Rightarrow> ('h, int) io" where
  "do_xge_loopback B c on = do {
     locked \<leftarrow> phy_lock B;
     if locked \<noteq> 0 then ret (- 1)
     else do {
       res \<leftarrow> do {
         ident \<leftarrow> unm_xge_mdio_rd B c DEV_PMA_PMD PMD_IDENTIFIER;
         if ident = PMD_ID_QUAKE \<or> ident = PMD_ID_MYSTICOM then do {
           data \<leftarrow> unm_xge_mdio_rd B c DEV_PMA_PMD 0;
           unm_xge_mdio_wr B c DEV_PMA_PMD 0 (if on then data OR 1 else data AND NOT 1);
           ret 0 }
         else if on then do {
           data \<leftarrow> unm_xge_mdio_rd B c DEV_PMA_PMD AEL_LOOPBACK_EN_REG;
           unm_xge_mdio_wr B c DEV_PMA_PMD AEL_LOOPBACK_EN_REG (data OR 4);
           data \<leftarrow> unm_xge_mdio_rd B c DEV_PHY_XS 0xC000;
           unm_xge_mdio_wr B c DEV_PHY_XS 0xC000 (data OR 0x8000);
           ret 0 }
         else do {
           data \<leftarrow> unm_xge_mdio_rd B c DEV_PHY_XS 0xC000;
           unm_xge_mdio_wr B c DEV_PHY_XS 0xC000 (data AND NOT 0x8000);
           data \<leftarrow> unm_xge_mdio_rd B c DEV_PMA_PMD AEL_LOOPBACK_EN_REG;
           unm_xge_mdio_wr B c DEV_PMA_PMD AEL_LOOPBACK_EN_REG (data AND NOT 4);
           ret 0 } };
       phy_unlock B;
       ret res } }"

definition xge_loopback :: "'h bus \<Rightarrow> mdio_cfg \<Rightarrow> u32 \<Rightarrow> bool \<Rightarrow> ('h, int) io" where
  "xge_loopback B c junk on =
     (if mdio_p3 c then do_xge_loopback_p3 B c junk on else do_xge_loopback B c on)"

subsection \<open>What the wire carries\<close>

text \<open>
  The slave's view of a log: from a pair of pin levels (MDC, MDIO) on, the level of MDIO at
  every rising edge of MDC, and the levels afterwards.
\<close>

fun wire :: "bool \<Rightarrow> bool \<times> bool \<Rightarrow> access list \<Rightarrow> bool list \<times> bool \<times> bool" where
  "wire p3 s [] = ([], s)"
| "wire p3 s (Rd a v # es) = wire p3 s es"
| "wire p3 (mdc, mdio) (Wr a v # es) =
     (if a = UNM_ROMUSB_GPIO (MDIO_GPIO p3) then wire p3 (mdc, bit v 0) es
      else if a = UNM_ROMUSB_GPIO (MDC_GPIO p3) then
        (case wire p3 (bit v 0, mdio) es of
           (bs, s) \<Rightarrow> ((if bit v 0 \<and> \<not> mdc then [mdio] else []) @ bs, s))
      else wire p3 (mdc, mdio) es)"

text \<open>\<open>sends p3 m bs\<close>: whatever the card and the pins' levels, \<open>m\<close> puts \<open>bs\<close> on the wire.\<close>

definition sends :: "bool \<Rightarrow> ('h, unit) io \<Rightarrow> bool list \<Rightarrow> bool" where
  "sends p3 m bs \<longleftrightarrow>
     (\<forall>d. \<exists>es. log (snd (run_state m d)) = log d @ es \<and> (\<forall>s. fst (wire p3 s es) = bs))"

lemma wire_append:
  "wire p3 s (es @ fs) = (case wire p3 s es of (bs, s') \<Rightarrow> case wire p3 s' fs of (cs, s'') \<Rightarrow> (bs @ cs, s''))"
proof (induction es arbitrary: s)
  case Nil
  then show ?case by simp
next
  case (Cons e es)
  then show ?case by (cases e; cases s) (auto split: prod.splits)
qed

lemma sends_ret: "sends p3 (ret ()) []"
  unfolding sends_def by (auto simp: run_ret intro!: exI [of _ "[]"])

lemma sends_bind:
  assumes m: "sends p3 m bs" and f: "sends p3 f cs"
  shows "sends p3 (State_Monad.bind m (\<lambda>_. f)) (bs @ cs)"
  unfolding sends_def
proof
  fix d
  obtain d1 where d1: "run_state m d = ((), d1)" by (cases "run_state m d") auto
  from m obtain es where es: "log d1 = log d @ es" "\<And>s. fst (wire p3 s es) = bs"
    unfolding sends_def using d1 by (metis snd_conv)
  from f obtain fs where fs: "log (snd (run_state f d1)) = log d1 @ fs" "\<And>s. fst (wire p3 s fs) = cs"
    unfolding sends_def by metis
  have "fst (wire p3 s (es @ fs)) = bs @ cs" for s
    using es(2) [of s] fs(2) [of "snd (wire p3 s es)"] by (simp add: wire_append case_prod_beta)
  with es(1) fs(1) d1 show "\<exists>es. log (snd (run_state (State_Monad.bind m (\<lambda>_. f)) d)) = log d @ es \<and>
      (\<forall>s. fst (wire p3 s es) = bs @ cs)"
    by (intro exI [of _ "es @ fs"]) (simp add: run_bind)
qed

lemma gpio_pins: "UNM_ROMUSB_GPIO (MDC_GPIO p3) \<noteq> UNM_ROMUSB_GPIO (MDIO_GPIO p3)"
  by (cases p3) (simp_all add: UNM_ROMUSB_GPIO_def MDC_GPIO_def MDIO_GPIO_def UNM_CRB_ROMUSB_def UNM_PCI_CRB_WINDOW_def)

lemma sends_clock_bit: "sends p3 (clock_bit B p3 b) [bit b 0]"
  unfolding sends_def
proof
  fix d
  let ?es = "[Wr (UNM_ROMUSB_GPIO (MDC_GPIO p3)) 2, Wr (UNM_ROMUSB_GPIO (MDIO_GPIO p3)) (GPIO_OE OR b),
              Wr (UNM_ROMUSB_GPIO (MDC_GPIO p3)) 3]"
  have "log (snd (run_state (clock_bit B p3 b) d)) = log d @ ?es"
    by (simp add: clock_bit_def MDC_LOW_def MDC_HI_def SET_MDIO_def io_simps GPIO_OE_def GPIO_LO_def GPIO_HI_def)
  moreover have "fst (wire p3 s ?es) = [bit b 0]" for s
    using gpio_pins [of p3] by (cases s) (auto simp: GPIO_OE_def bit_simps)
  ultimately show "\<exists>es. log (snd (run_state (clock_bit B p3 b) d)) = log d @ es \<and>
      (\<forall>s. fst (wire p3 s es) = [bit b 0])" by blast
qed

lemma sends_preamble: "sends p3 (PREAMBLE_loop n B p3) (replicate n True)"
proof (induction n)
  case 0
  then show ?case by (simp add: sends_ret)
next
  case (Suc n)
  from sends_bind [OF sends_clock_bit [of p3 B 1] Suc] show ?case by simp
qed

text \<open>A number's low \<open>n\<close> bits, most significant first, and back.\<close>

definition msb_bits :: "nat \<Rightarrow> u64 \<Rightarrow> bool list" where
  "msb_bits n w = map (\<lambda>i. bit w (n - (i + 1))) [0..<n]"

fun of_msb :: "bool list \<Rightarrow> int" where
  "of_msb [] = 0"
| "of_msb (b # bs) = of_bool b * 2 ^ length bs + of_msb bs"

lemma length_msb_bits [simp]: "length (msb_bits n w) = n"
  by (simp add: msb_bits_def)

lemma msb_bits_Suc: "msb_bits (Suc n) w = bit w n # msb_bits n w"
  by (simp add: msb_bits_def upt_conv_Cons map_Suc_upt [symmetric] del: upt_Suc)

lemma of_msb_bits: "of_msb (msb_bits n w) = take_bit n (uint w)"
proof (induction n)
  case 0
  then show ?case by (simp add: msb_bits_def)
next
  case (Suc n)
  have "take_bit (Suc n) (uint w) = 2 ^ n * of_bool (bit (uint w) n) + take_bit n (uint w)"
    by (rule take_bit_Suc_from_most)
  moreover have "bit (uint w) n = bit w n"
    using bit_imp_le_length [of w n] by (auto simp: bit_uint_iff)
  ultimately show ?case using Suc by (simp add: msb_bits_Suc)
qed

lemma sends_clock_in:
  "sends p3 (clock_in_loop is B p3 data len) (map (\<lambda>i. bit data (len - (i + 1))) is)"
proof (induction "is")
  case Nil
  then show ?case by (simp add: sends_ret)
next
  case (Cons i "is")
  have b: "bit (ucast (drop_bit (len - (i + 1)) data AND 1) :: u32) 0 = bit data (len - (i + 1))"
    by (simp add: bit_simps)
  from sends_bind [OF sends_clock_bit [of p3 B "ucast (drop_bit (len - (i + 1)) data AND 1)"] Cons]
  show ?case unfolding b by simp
qed

lemma sends_bits: "sends p3 (CLOCK_IN_BITS B p3 data len) (msb_bits len data)"
  unfolding CLOCK_IN_BITS_def msb_bits_def by (rule sends_clock_in)

definition frame_bits :: "u64 \<Rightarrow> u64 \<Rightarrow> u64 \<Rightarrow> u64 \<Rightarrow> bool list" where
  "frame_bits opcode port dev data =
     replicate 32 True @ msb_bits 2 0 @ msb_bits 2 opcode @ msb_bits 5 port @ msb_bits 5 dev @
     msb_bits 2 2 @ msb_bits 16 data"

lemma sends_wr_cycle: "sends p3 (MDIO_WR_CYCLE B p3 opcode port dev data) (frame_bits opcode port dev data)"
proof -
  note h = sends_bind [OF sends_preamble [of p3 32 B] sends_bind [OF sends_bits [of p3 B 0 2]
      sends_bind [OF sends_bits [of p3 B opcode 2] sends_bind [OF sends_bits [of p3 B port 5]
      sends_bind [OF sends_bits [of p3 B dev 5] sends_bits [of p3 B 2 2]]]]]]
  from sends_bind [OF h sends_bits [of p3 B data 16]] show ?thesis
    by (simp add: MDIO_WR_CYCLE_def frame_header_def PREAMBLE_def frame_bits_def)
qed

text \<open>A PHY's parser: the preamble, start of frame and turnaround must be there.\<close>

definition decode_frame :: "bool list \<Rightarrow> (int \<times> int \<times> int \<times> int) option" where
  "decode_frame bs =
     (if length bs = 64 \<and> take 32 bs = replicate 32 True \<and> take 2 (drop 32 bs) = [False, False] \<and>
         take 2 (drop 46 bs) = [True, False]
      then Some (of_msb (take 2 (drop 34 bs)), of_msb (take 5 (drop 36 bs)), of_msb (take 5 (drop 41 bs)),
                 of_msb (drop 48 bs))
      else None)"

lemma decode_frame_bits:
  "decode_frame (frame_bits opcode port dev data) =
     Some (take_bit 2 (uint opcode), take_bit 5 (uint port), take_bit 5 (uint dev), take_bit 16 (uint data))"
proof -
  have "msb_bits 2 0 = [False, False]" "msb_bits 2 2 = [True, False]"
    by (simp_all add: msb_bits_def upt_rec bit_simps)
  then show ?thesis
    unfolding decode_frame_def frame_bits_def by (simp add: of_msb_bits)
qed

subsection \<open>Reading bits\<close>

lemma clock_out_spec:
  "distinct is \<Longrightarrow> (\<forall>i \<in> set is. i < 16) \<Longrightarrow>
   run_state (clock_out_loop is script_bus p3 r) \<lparr>hw = xs, log = es\<rparr> = (v, d) \<Longrightarrow>
   bit v j \<longleftrightarrow> bit r j \<or> (\<exists>k < length is. j = 15 - is ! k \<and> bit (answer xs k) (MDIO_GPIO p3))"
proof (induction "is" arbitrary: r xs es)
  case Nil
  then show ?case by (simp add: io_simps)
next
  case (Cons i "is")
  let ?b = "push_bit (15 - i) (ucast (drop_bit (MDIO_GPIO p3) (answer xs 0) AND 1)) :: u64"
  have pin: "MDIO_GPIO p3 < 32" by (simp add: MDIO_GPIO_def)
  have b: "bit ?b j \<longleftrightarrow> j = 15 - i \<and> bit (answer xs 0) (MDIO_GPIO p3)"
    by (auto simp: bit_simps dest: bit_imp_le_length)
  obtain fs where "run_state (clock_out_loop is script_bus p3 (r OR ?b)) \<lparr>hw = drop 1 xs, log = fs\<rparr> = (v, d)"
    using Cons.prems(3)
    by (simp add: io_simps script_rd MDC_LOW_def MDC_HI_def GET_BIT_def)
  from Cons.IH [OF _ _ this] Cons.prems(1,2)
  have "bit v j \<longleftrightarrow> bit (r OR ?b) j \<or>
      (\<exists>k < length is. j = 15 - is ! k \<and> bit (answer xs (Suc k)) (MDIO_GPIO p3))"
    by (simp add: answer_drop [symmetric])
  then show ?case
    unfolding bit_or_iff b by (auto simp: less_Suc_eq_0_disj)
qed

subsection \<open>Lock discipline\<close>

lemma gpio_in_not_sem: "UNM_ROMUSB_GLB_PAD_GPIO_I \<noteq> SEM3_L" "UNM_ROMUSB_GLB_PAD_GPIO_I \<noteq> SEM3_U"
  by (simp_all add: UNM_ROMUSB_GLB_PAD_GPIO_I_def UNM_CRB_ROMUSB_def niu_addrs)

lemma neutral_clock_bit [sem_intros]: "neutral SEM3_L SEM3_U (clock_bit B p3 b)"
  unfolding clock_bit_def MDC_LOW_def MDC_HI_def SET_MDIO_def by (intro sem_intros; simp)

lemma neutral_preamble: "neutral SEM3_L SEM3_U (PREAMBLE_loop n B p3)"
  by (induction n) (auto intro!: sem_intros)

lemma neutral_clock_in: "neutral SEM3_L SEM3_U (clock_in_loop is B p3 data len)"
  by (induction "is") (auto intro!: sem_intros)

lemma neutral_clock_out: "neutral SEM3_L SEM3_U (clock_out_loop is B p3 r)"
proof (induction "is" arbitrary: r)
  case Nil
  then show ?case by (auto intro!: sem_intros)
next
  case (Cons i "is")
  show ?case
    unfolding clock_out_loop.simps MDC_LOW_def MDC_HI_def GET_BIT_def
    by (intro neutral_bind changes_wr neutral_rd changes_ret Cons gpio_in_not_sem) simp_all
qed

lemma neutral_wr_cycle [sem_intros]: "neutral SEM3_L SEM3_U (MDIO_WR_CYCLE B p3 opcode port dev data)"
  unfolding MDIO_WR_CYCLE_def frame_header_def PREAMBLE_def CLOCK_IN_BITS_def
  by (intro neutral_bind neutral_preamble neutral_clock_in)

lemma neutral_rd_cycle [sem_intros]: "neutral SEM3_L SEM3_U (MDIO_RD_CYCLE B p3 opcode port dev)"
  unfolding MDIO_RD_CYCLE_def frame_header_def PREAMBLE_def CLOCK_IN_BITS_def CLOCK_OUT_BITS_def
  by (intro neutral_bind neutral_preamble neutral_clock_in neutral_clock_out changes_wr) simp_all

lemma neutral_mdio [sem_intros]:
  "neutral SEM3_L SEM3_U (unm_xge_mdio_wr_port B p3 port dev addr data)"
  "neutral SEM3_L SEM3_U (unm_xge_mdio_rd_port B p3 port dev addr)"
  "neutral SEM3_L SEM3_U (unm_xge_mdio_wr B c dev addr data)"
  "neutral SEM3_L SEM3_U (unm_xge_mdio_rd B c dev addr)"
  unfolding unm_xge_mdio_wr_port_def unm_xge_mdio_rd_port_def unm_xge_mdio_wr_def unm_xge_mdio_rd_def
  by (intro sem_intros)+

lemma neutral_loopback: "neutral SEM3_L SEM3_U (do_xge_loopback (sem_fix SEM3_L B) c on)"
  unfolding do_xge_loopback_def
  by (rule phy.protect) (intro neutral_bind changes_if neutral_mdio changes_ret refl)

text \<open>The subsystem id register is in no function's semaphore page.\<close>

lemma devfn_not_sem: "UNM_PCIE_REG (x * 0x1000 + 0x2c) \<noteq> SEM3_L" "UNM_PCIE_REG (x * 0x1000 + 0x2c) \<noteq> SEM3_U"
proof -
  have p: "x * 0x1000 = push_bit 12 x" by (simp add: push_bit_eq_mult)
  have "x * 0x1000 + 0x2c \<noteq> 0x1c018"
  proof
    assume "x * 0x1000 + 0x2c = 0x1c018"
    then have "push_bit 12 x = (0x1c018 - 0x2c :: u64)" unfolding p by (simp only: eq_diff_eq)
    then have "bit (push_bit 12 x) 2 = bit (0x1bfec :: u64) 2" by simp
    then show False by (simp add: bit_simps)
  qed
  moreover have "x * 0x1000 + 0x2c \<noteq> 0x1c01c"
  proof
    assume "x * 0x1000 + 0x2c = 0x1c01c"
    then have "push_bit 12 x = (0x1c01c - 0x2c :: u64)" unfolding p by (simp only: eq_diff_eq)
    then have "bit (push_bit 12 x) 4 = bit (0x1bff0 :: u64) 4" by simp
    then show False by (simp add: bit_simps)
  qed
  ultimately show "UNM_PCIE_REG (x * 0x1000 + 0x2c) \<noteq> SEM3_L" "UNM_PCIE_REG (x * 0x1000 + 0x2c) \<noteq> SEM3_U"
    unfolding UNM_PCIE_REG_def PCIE_SEM3_LOCK_def PCIE_SEM3_UNLOCK_def by auto
qed

lemma neutral_loopback_p3: "neutral SEM3_L SEM3_U (do_xge_loopback_p3 (sem_fix SEM3_L B) c junk on)"
proof -
  have x: "neutral SEM3_L SEM3_U (do {
       locked \<leftarrow> phy_lock (sem_fix SEM3_L B);
       if locked \<noteq> 0 then ret (- 1)
       else do {
         res \<leftarrow> do {
           data \<leftarrow> unm_xge_mdio_rd_port (sem_fix SEM3_L B) (mdio_p3 c) (portnum c) DEV_PHY_XS 0xc000;
           unm_xge_mdio_wr_port (sem_fix SEM3_L B) (mdio_p3 c) (portnum c) DEV_PHY_XS 0xc000
             (ucast (if on then (ucast data :: u32) OR 0x4000 else ucast data AND NOT 0x4000));
           ret 0 };
         phy_unlock (sem_fix SEM3_L B);
         ret res } })"
    by (rule phy.protect) (intro neutral_bind changes_if neutral_mdio changes_ret refl)
  show ?thesis
    unfolding do_xge_loopback_p3_def Let_def
    by (intro neutral_bind neutral_rd devfn_not_sem changes_if x phy_read_neutral phy_write_neutral changes_ret) simp
qed

lemma neutral_xge_loopback: "neutral SEM3_L SEM3_U (xge_loopback (sem_fix SEM3_L B) c junk on)"
  unfolding xge_loopback_def by (intro changes_if neutral_loopback neutral_loopback_p3)

subsection \<open>Properties\<close>

text \<open>
  What a write cycle puts on the wire is a well-formed MDIO frame: a PHY sampling MDIO at
  the rising edges of MDC decodes exactly the opcode, the five-bit port and device addresses
  and the low sixteen data bits that were asked for, for any card, any state of the pins and
  both chip revisions.
\<close>

theorem mdio_frame_decodes:
  "\<exists>es. log (snd (run_state (MDIO_WR_CYCLE B p3 opcode port dev data) d)) = log d @ es \<and>
     decode_frame (fst (wire p3 s es)) =
       Some (take_bit 2 (uint opcode), take_bit 5 (uint port), take_bit 5 (uint dev), take_bit 16 (uint data))"
  using sends_wr_cycle [of p3 B opcode port dev data] unfolding sends_def
  by (metis decode_frame_bits)

text \<open>
  A read returns the PHY's sixteen bits in the right order: bit \<open>15 - k\<close> of the result is
  the MDIO pin in the \<open>k\<close>-th sample of the input register, and no higher bit is set.
\<close>

theorem mdio_read_samples:
  "case run_state (CLOCK_OUT_BITS script_bus p3) \<lparr>hw = xs, log = []\<rparr> of
     (v, d) \<Rightarrow> bit v j = (j < 16 \<and> bit (answer xs (15 - j)) (MDIO_GPIO p3))"
proof -
  let ?es = "[Wr (UNM_ROMUSB_GPIO (MDIO_GPIO p3)) 0]"
  obtain v d where r: "run_state (clock_out_loop [0..<16] script_bus p3 0) \<lparr>hw = xs, log = ?es\<rparr> = (v, d)"
    by (cases "run_state (clock_out_loop [0..<16] script_bus p3 0) \<lparr>hw = xs, log = ?es\<rparr>")
  have "bit v j \<longleftrightarrow> (\<exists>k < 16. j = 15 - k \<and> bit (answer xs k) (MDIO_GPIO p3))"
    using clock_out_spec [OF _ _ r, of j] by (auto simp: nth_upt cong: conj_cong)
  also have "\<dots> \<longleftrightarrow> j < 16 \<and> bit (answer xs (15 - j)) (MDIO_GPIO p3)"
  proof
    assume "j < 16 \<and> bit (answer xs (15 - j)) (MDIO_GPIO p3)"
    then show "\<exists>k < 16. j = 15 - k \<and> bit (answer xs k) (MDIO_GPIO p3)"
      by (intro exI [of _ "15 - j"]) simp
  qed auto
  finally show ?thesis using r by (simp add: CLOCK_OUT_BITS_def io_simps)
qed

text \<open>
  Switching loopback on or off gives the PHY semaphore back on every path and for both chip
  revisions, for any card whose semaphore register answers 0 or 1.
\<close>

theorem loopback_releases_phy_lock:
  assumes "sem_bus B SEM3_L"
  shows "sem_level SEM3_L SEM3_U (log (snd (run_state (xge_loopback B c junk on) d))) =
         sem_level SEM3_L SEM3_U (log d)"
  using neutral_xge_loopback [of B c junk on] by (simp add: sem_fix_id [OF assms] changes_def)

theorem loopback_releases_phy_lock_witness:
  "sem_level SEM3_L SEM3_U (log (snd (run_state (xge_loopback free_bus
      \<lparr>mdio_p3 = True, portnum = 0, board_xgbe = True, board_gbe = False, devfn = 0, mdio_niu = sample_cfg\<rparr> 0 True)
      \<lparr>hw = (), log = []\<rparr>))) = 0"
  using loopback_releases_phy_lock [of free_bus
      "\<lparr>mdio_p3 = True, portnum = 0, board_xgbe = True, board_gbe = False, devfn = 0, mdio_niu = sample_cfg\<rparr>"
      0 True "\<lparr>hw = (), log = []\<rparr>"]
  by (simp add: sem_bus_def free_bus_def sem_level_def)

end
