(* ===== verification/CrbMap.thy ===== *)
theory CrbMap
  imports Niu
begin

text \<open>
  Translation between the card's internal CRB addresses (hub and agent in bits 20 to 30) and
  the offsets at which the PCI aperture shows them: \<open>crb_addr_transform_setup\<close>,
  \<open>decode_crb_addr\<close> and \<open>crb_pci_to_internal\<close> of \<open>driver/unm_nic_init.c\<close>, over the hub and agent
  numbers of \<open>include/unm_inc.h\<close>. \<open>unsigned long\<close> is 64 bits wide.
\<close>

subsection \<open>The table\<close>

definition MAX_CRB_XFORM :: nat where
  "MAX_CRB_XFORM = 60"

definition ADDR_ERROR :: u64 where
  "ADDR_ERROR = 0xffffffff"

definition UNM_PCI_CRBSPACE :: u64 where
  "UNM_PCI_CRBSPACE = 0x06000000"

text \<open>\<open>UNM_HW_CRB_HUB_AGT_ADR_name\<close>: the hub number above the agent number.\<close>

definition hub_agt :: "u64 \<Rightarrow> u64 \<Rightarrow> u64" where
  "hub_agt hub agt = push_bit 7 hub OR agt"

text \<open>The assignments of the set-up routine in its order, XDMA first and I2C0 last: the index
  \<open>UNM_HW_PX_MAP_CRB_name\<close> and the hub and agent of each unit.\<close>

definition crb_xform_entries :: "(nat \<times> u64) list" where
  "crb_xform_entries =
    [(49, hub_agt 0x08 0x05), (40, hub_agt 0x08 0x17), (5, hub_agt 0x01 0x50), (11, hub_agt 0x01 0x63),
     (10, hub_agt 0x01 0x62), (9, hub_agt 0x01 0x61), (8, hub_agt 0x01 0x60), (16, hub_agt 0x0E 0x04),
     (15, hub_agt 0x0E 0x03), (14, hub_agt 0x0E 0x02), (13, hub_agt 0x0E 0x01), (48, hub_agt 0x0E 0x0f),
     (47, hub_agt 0x01 0x0e), (46, hub_agt 0x01 0x0d), (45, hub_agt 0x0E 0x0c), (44, hub_agt 0x0E 0x0b),
     (43, hub_agt 0x0E 0x0a), (42, hub_agt 0x01 0x09), (53, hub_agt 0x01 0x08), (51, hub_agt 0x08 0x21),
     (29, hub_agt 0x08 0x10), (7, hub_agt 0x01 0x66), (12, hub_agt 0x0E 0x00), (22, hub_agt 0x06 0x44),
     (21, hub_agt 0x06 0x45), (20, hub_agt 0x06 0x43), (19, hub_agt 0x06 0x42), (18, hub_agt 0x06 0x41),
     (17, hub_agt 0x06 0x40), (28, hub_agt 0x07 0x44), (27, hub_agt 0x07 0x45), (26, hub_agt 0x07 0x43),
     (25, hub_agt 0x07 0x42), (24, hub_agt 0x07 0x41), (23, hub_agt 0x07 0x40), (1, hub_agt 0x0E 0x73),
     (0, hub_agt 0x05 0x1A), (6, hub_agt 0x03 0x31), (50, hub_agt 0x08 0x20), (31, hub_agt 0x01 0x51),
     (2, hub_agt 0x05 0x15), (3, hub_agt 0x05 0x25), (37, hub_agt 0x01 0x48), (36, hub_agt 0x01 0x47),
     (35, hub_agt 0x01 0x46), (34, hub_agt 0x08 0x16), (39, hub_agt 0x0E 0x59), (38, hub_agt 0x0E 0x58),
     (58, hub_agt 0x0E 0x18), (56, hub_agt 0x08 0x06), (59, hub_agt 0x03 0x19)]"

fun crb_addr_transform :: "(nat \<times> u64) list \<Rightarrow> u64 list \<Rightarrow> u64 list" where
  "crb_addr_transform [] t = t"
| "crb_addr_transform ((i, adr) # es) t = crb_addr_transform es (t[i := push_bit 20 adr])"

text \<open>The static array starts zeroed.\<close>

definition crb_addr_xform :: "u64 list" where
  "crb_addr_xform = crb_addr_transform crb_xform_entries (replicate MAX_CRB_XFORM 0)"

subsection \<open>The two directions\<close>

text \<open>The search for the first entry that equals the base, from index \<open>i\<close> on.\<close>

fun xform_search :: "u64 \<Rightarrow> nat \<Rightarrow> u64 list \<Rightarrow> nat option" where
  "xform_search base i [] = None"
| "xform_search base i (x # xs) = (if x = base then Some i else xform_search base (i + 1) xs)"

definition decode_crb_addr :: "u64 \<Rightarrow> u64" where
  "decode_crb_addr addr =
     (let base_addr = addr AND 0xfff00000; offset = addr AND 0x000fffff in
      case xform_search base_addr 0 crb_addr_xform of
        None \<Rightarrow> ADDR_ERROR
      | Some i \<Rightarrow> push_bit 20 (of_nat i) + offset)"

text \<open>The index has six bits but the table only 60 entries; beyond them the C code reads past
  the array, which is \<^const>\<open>None\<close> here.\<close>

definition crb_pci_to_internal :: "u64 \<Rightarrow> u64 option" where
  "crb_pci_to_internal addr =
     (let a = addr - UNM_PCI_CRBSPACE; i = unat (drop_bit 20 a AND 0x3f) in
      if i < MAX_CRB_XFORM then Some (crb_addr_xform ! i + (a AND 0xfffff)) else None)"

subsection \<open>The table evaluated\<close>

lemma crb_addr_xform_eval:
  "crb_addr_xform =
    [0x29A00000, 0x77300000, 0x29500000, 0x2A500000, 0, 0x0D000000, 0x1B100000, 0x0E600000,
     0x0E000000, 0x0E100000, 0x0E200000, 0x0E300000, 0x70000000, 0x70100000, 0x70200000,
     0x70300000, 0x70400000, 0x34000000, 0x34100000, 0x34200000, 0x34300000, 0x34500000,
     0x34400000, 0x3C000000, 0x3C100000, 0x3C200000, 0x3C300000, 0x3C500000, 0x3C400000,
     0x41000000, 0, 0x0D100000, 0, 0, 0x41600000, 0x0C600000, 0x0C700000, 0x0C800000,
     0x75800000, 0x75900000, 0x41700000, 0, 0x08900000, 0x70A00000, 0x70B00000, 0x70C00000,
     0x08D00000, 0x08E00000, 0x70F00000, 0x40500000, 0x42000000, 0x42100000, 0, 0x08800000,
     0, 0, 0x40600000, 0, 0x71800000, 0x19900000]"
  by code_simp

lemma length_crb_addr_xform [simp]: "length crb_addr_xform = MAX_CRB_XFORM"
  by (simp add: crb_addr_xform_eval MAX_CRB_XFORM_def)

subsection \<open>The translation is a partial inverse of itself\<close>

lemma xform_search_Some:
  "xform_search base i xs = Some j \<Longrightarrow> i \<le> j \<and> j < i + length xs \<and> xs ! (j - i) = base"
proof (induction base i xs rule: xform_search.induct)
  case (2 base i x xs)
  show ?case
  proof (cases "x = base")
    case True
    with "2.prems" show ?thesis by simp
  next
    case False
    with 2 have "i + 1 \<le> j \<and> j < i + 1 + length xs \<and> xs ! (j - (i + 1)) = base" by simp
    then show ?thesis by (auto simp: nth_Cons' Suc_diff_le)
  qed
qed simp

lemma xform_search_None: "xform_search base i xs = None \<longleftrightarrow> base \<notin> set xs"
  by (induction base i xs rule: xform_search.induct) auto

lemma crb_masks: "(0xfff00000 :: u64) = push_bit 20 (mask 12)" "(0x000fffff :: u64) = mask 20"
  "(0x3f :: u64) = mask 6" "(0xffffffff :: u64) = mask 32"
  by (simp_all add: mask_eq_exp_minus_1 push_bit_eq_mult)

lemma window_split:
  fixes w off :: u64
  assumes "off AND mask 20 = off" "w AND mask 6 = w"
  shows "drop_bit 20 (push_bit 20 w + off) AND mask 6 = w" "(push_bit 20 w + off) AND mask 20 = off"
proof -
  have o: "bit off n \<Longrightarrow> n < 20" for n
    using assms(1) by (metis bit_and_iff bit_mask_iff)
  have w: "bit w n \<Longrightarrow> n < 6" for n
    using assms(2) by (metis bit_and_iff bit_mask_iff)
  have "push_bit 20 w AND off = 0"
    by (rule bit_word_eqI) (auto simp: bit_simps dest: o)
  then have s: "push_bit 20 w + off = push_bit 20 w OR off"
    by (rule disjunctive_add_eq_or)
  show "drop_bit 20 (push_bit 20 w + off) AND mask 6 = w"
    unfolding s by (rule bit_word_eqI) (auto simp: bit_simps dest: o w)
  show "(push_bit 20 w + off) AND mask 20 = off"
    unfolding s by (rule bit_word_eqI) (auto simp: bit_simps dest: o w)
qed

lemma base_plus_offset: "(a AND push_bit 20 (mask 12)) + (a AND mask 20) = a AND mask 32" for a :: u64
proof -
  have "(a AND push_bit 20 (mask 12)) AND (a AND mask 20) = 0"
    by (rule bit_word_eqI) (auto simp: bit_simps)
  then have "(a AND push_bit 20 (mask 12)) + (a AND mask 20) = (a AND push_bit 20 (mask 12)) OR (a AND mask 20)"
    by (rule disjunctive_add_eq_or)
  also have "\<dots> = a AND mask 32"
    by (rule bit_word_eqI) (auto simp: bit_simps)
  finally show ?thesis .
qed

lemma decode_crb_addr_known:
  assumes "addr AND 0xfff00000 \<in> set crb_addr_xform"
  obtains i where "i < MAX_CRB_XFORM" "crb_addr_xform ! i = addr AND 0xfff00000"
    "decode_crb_addr addr = push_bit 20 (of_nat i) + (addr AND 0xfffff)"
proof -
  obtain i where i: "xform_search (addr AND 0xfff00000) 0 crb_addr_xform = Some i"
    using assms by (cases "xform_search (addr AND 0xfff00000) 0 crb_addr_xform")
      (auto simp: xform_search_None)
  with xform_search_Some [OF i] that [of i] show ?thesis
    by (simp add: decode_crb_addr_def)
qed

lemma of_nat_and_mask6: "i < MAX_CRB_XFORM \<Longrightarrow> (of_nat i :: u64) AND mask 6 = of_nat i"
  by (simp add: mask_eq_iff MAX_CRB_XFORM_def uint_nat unat_of_nat)

text \<open>
  An internal address whose hub and agent are in the table is translated into a window of
  the PCI aperture from which \<open>crb_pci_to_internal\<close> gets its low 32 bits back; an address whose
  hub and agent are not in the table is answered with \<open>ADDR_ERROR\<close>, which no translation yields
  otherwise.
\<close>

theorem crb_translation_inverts:
  "(addr AND 0xfff00000 \<in> set crb_addr_xform \<longrightarrow>
      decode_crb_addr addr < 0x04000000 \<and>
      crb_pci_to_internal (decode_crb_addr addr + UNM_PCI_CRBSPACE) = Some (addr AND 0xffffffff))
   \<and> (addr AND 0xfff00000 \<notin> set crb_addr_xform \<longleftrightarrow> decode_crb_addr addr = ADDR_ERROR)"
proof (cases "addr AND 0xfff00000 \<in> set crb_addr_xform")
  case True
  then obtain i where i: "i < MAX_CRB_XFORM" "crb_addr_xform ! i = addr AND 0xfff00000"
    "decode_crb_addr addr = push_bit 20 (of_nat i) + (addr AND 0xfffff)"
    by (rule decode_crb_addr_known)
  note split = window_split [of "addr AND mask 20" "of_nat i", OF _ of_nat_and_mask6 [OF i(1)]]
  have "unat (of_nat i :: u64) = i"
    using i(1) by (simp add: MAX_CRB_XFORM_def unat_of_nat)
  then have inv: "crb_pci_to_internal (decode_crb_addr addr + UNM_PCI_CRBSPACE) = Some (addr AND 0xffffffff)"
    using i split base_plus_offset [of addr]
    by (simp add: crb_pci_to_internal_def Let_def crb_masks and.assoc)
  have "unat (addr AND 0xfffff) < 2 ^ 20"
    using word_and_le1 [of addr "0xfffff"] by (simp add: word_le_nat_alt)
  moreover have "unat (push_bit 20 (of_nat i) :: u64) = 2 ^ 20 * i"
    using i(1) by (simp add: push_bit_eq_mult MAX_CRB_XFORM_def unat_word_ariths unat_of_nat)
  ultimately have "decode_crb_addr addr < 0x04000000"
    using i(1) unfolding i(3) by (simp add: word_less_nat_alt unat_word_ariths MAX_CRB_XFORM_def)
  with inv True show ?thesis by (auto simp: ADDR_ERROR_def)
next
  case False
  then have "xform_search (addr AND 0xfff00000) 0 crb_addr_xform = None"
    by (simp add: xform_search_None)
  with False show ?thesis by (simp add: decode_crb_addr_def)
qed

theorem crb_translation_inverts_witness:
  "decode_crb_addr 0x42112345 = 0x3312345 \<and> crb_pci_to_internal (decode_crb_addr 0x42112345 + UNM_PCI_CRBSPACE) = Some 0x42112345"
  using crb_translation_inverts [of "0x42112345"] by (simp add: crb_addr_xform_eval decode_crb_addr_def)

end
