(* ===== verification/Rom.thy ===== *)
theory Rom
  imports CrbMap
begin

text \<open>
  Flash access over the ROM interface (\<open>driver/unm_nic_init.c\<close>): the flash semaphore with its two
  nested retry loops, single-word reads, and \<open>unm_nic_get_board_info\<close> of
  \<open>driver/unm_nic_hw.c\<close>, which reads the board configuration and derives the board's class.
\<close>

subsection \<open>Addresses\<close>

definition UNM_CRB_ROMUSB :: u64 where "UNM_CRB_ROMUSB = UNM_PCI_CRB_WINDOW 51"
definition ROMUSB_GLB :: u64 where "ROMUSB_GLB = UNM_CRB_ROMUSB"
definition ROMUSB_ROM :: u64 where "ROMUSB_ROM = UNM_CRB_ROMUSB + 0x10000"
definition UNM_ROMUSB_GLB_STATUS :: u64 where "UNM_ROMUSB_GLB_STATUS = ROMUSB_GLB + 4"
definition UNM_ROMUSB_GLB_SW_RESET :: u64 where "UNM_ROMUSB_GLB_SW_RESET = ROMUSB_GLB + 8"
definition UNM_ROMUSB_GLB_PAD_GPIO_I :: u64 where "UNM_ROMUSB_GLB_PAD_GPIO_I = ROMUSB_GLB + 0xc"
definition UNM_ROMUSB_ROM_INSTR_OPCODE :: u64 where "UNM_ROMUSB_ROM_INSTR_OPCODE = ROMUSB_ROM + 4"
definition UNM_ROMUSB_ROM_ADDRESS :: u64 where "UNM_ROMUSB_ROM_ADDRESS = ROMUSB_ROM + 8"
definition UNM_ROMUSB_ROM_ABYTE_CNT :: u64 where "UNM_ROMUSB_ROM_ABYTE_CNT = ROMUSB_ROM + 0x10"
definition UNM_ROMUSB_ROM_DUMMY_BYTE_CNT :: u64 where "UNM_ROMUSB_ROM_DUMMY_BYTE_CNT = ROMUSB_ROM + 0x14"
definition UNM_ROMUSB_ROM_RDATA :: u64 where "UNM_ROMUSB_ROM_RDATA = ROMUSB_ROM + 0x18"
definition PCIE_SEM2_LOCK :: u64 where "PCIE_SEM2_LOCK = 0x1c010"
definition PCIE_SEM2_UNLOCK :: u64 where "PCIE_SEM2_UNLOCK = 0x1c014"
definition UNM_ROM_LOCK_ID :: u64 where "UNM_ROM_LOCK_ID = UNM_CAM_RAM 0x100"
definition ROM_LOCK_DRIVER :: u32 where "ROM_LOCK_DRIVER = 0x0d417340"

lemmas rom_addrs = niu_addrs UNM_CRB_ROMUSB_def ROMUSB_GLB_def ROMUSB_ROM_def
  UNM_ROMUSB_GLB_STATUS_def UNM_ROMUSB_GLB_SW_RESET_def UNM_ROMUSB_GLB_PAD_GPIO_I_def
  UNM_ROMUSB_ROM_INSTR_OPCODE_def UNM_ROMUSB_ROM_ADDRESS_def UNM_ROMUSB_ROM_ABYTE_CNT_def
  UNM_ROMUSB_ROM_DUMMY_BYTE_CNT_def UNM_ROMUSB_ROM_RDATA_def PCIE_SEM2_LOCK_def
  PCIE_SEM2_UNLOCK_def UNM_ROM_LOCK_ID_def

abbreviation SEM2_L :: u64 where "SEM2_L \<equiv> UNM_PCIE_REG PCIE_SEM2_LOCK"
abbreviation SEM2_U :: u64 where "SEM2_U \<equiv> UNM_PCIE_REG PCIE_SEM2_UNLOCK"

subsection \<open>The flash semaphore\<close>

definition rom_lock_timeout :: nat where
  "rom_lock_timeout = 10000"

definition rom_max_timeout :: nat where
  "rom_max_timeout = 100"

definition rom_lock :: "'h bus \<Rightarrow> ('h, int) io" where
  "rom_lock B = do {
     ok \<leftarrow> sem_wait B SEM2_L rom_lock_timeout;
     if ok then do { NXWR32 B UNM_ROM_LOCK_ID ROM_LOCK_DRIVER; ret 0 } else ret (- 1) }"

definition rom_unlock :: "'h bus \<Rightarrow> ('h, u32) io" where
  "rom_unlock B = NXRD32 B SEM2_U"

subsection \<open>Reading a word\<close>

text \<open>\<open>n\<close> reads of the status remain before the one that runs into the limit, which fails
  whatever it finds.\<close>

fun wait_rom_loop :: "'h bus \<Rightarrow> nat \<Rightarrow> ('h, int) io" where
  "wait_rom_loop B 0 = do { fin \<leftarrow> NXRD32 B UNM_ROMUSB_GLB_STATUS; ret (- 1) }"
| "wait_rom_loop B (Suc n) = do {
     fin \<leftarrow> NXRD32 B UNM_ROMUSB_GLB_STATUS;
     if fin AND 2 \<noteq> 0 then ret 0 else wait_rom_loop B n }"

definition wait_rom_done :: "'h bus \<Rightarrow> ('h, int) io" where
  "wait_rom_done B = wait_rom_loop B (rom_max_timeout - 1)"

text \<open>The value is there exactly when the C function returns 0.\<close>

definition do_rom_fast_read :: "'h bus \<Rightarrow> u32 \<Rightarrow> ('h, u32 option) io" where
  "do_rom_fast_read B a = do {
     NXWR32 B UNM_ROMUSB_ROM_ADDRESS a;
     NXWR32 B UNM_ROMUSB_ROM_ABYTE_CNT 3;
     NXWR32 B UNM_ROMUSB_ROM_DUMMY_BYTE_CNT 0;
     NXWR32 B UNM_ROMUSB_ROM_INSTR_OPCODE 0xb;
     r \<leftarrow> wait_rom_done B;
     if r \<noteq> 0 then ret None
     else do {
       NXWR32 B UNM_ROMUSB_ROM_DUMMY_BYTE_CNT 0;
       NXWR32 B UNM_ROMUSB_ROM_ABYTE_CNT 0;
       v \<leftarrow> NXRD32 B UNM_ROMUSB_ROM_RDATA;
       ret (Some v) } }"

text \<open>The outer loop around \<open>rom_lock\<close>: \<open>n\<close> more failures are tolerated. The result is whether
  \<open>loops\<close> stayed below its limit, which is what the C code tests, not whether the lock was got.\<close>

fun rom_lock_loop :: "'h bus \<Rightarrow> nat \<Rightarrow> ('h, bool) io" where
  "rom_lock_loop B 0 = do { r \<leftarrow> rom_lock B; ret False }"
| "rom_lock_loop B (Suc n) = do {
     r \<leftarrow> rom_lock B;
     if r = 0 then ret True else rom_lock_loop B n }"

definition rom_read_loops :: nat where
  "rom_read_loops = 50000"

definition rom_fast_read :: "'h bus \<Rightarrow> u32 \<Rightarrow> ('h, u32 option) io" where
  "rom_fast_read B a = do {
     below \<leftarrow> rom_lock_loop B rom_read_loops;
     if \<not> below then ret None
     else do {
       r \<leftarrow> do_rom_fast_read B a;
       rom_unlock B;
       ret r } }"

subsection \<open>The semaphore is given back\<close>

lemma rom_lock_changes:
  assumes "sem_bus B SEM2_L"
  shows "changes SEM2_L SEM2_U (\<lambda>r. if r = 0 then 1 else 0) (rom_lock B)"
  unfolding rom_lock_def
proof (rule changes_bind [OF sem_wait_changes [OF assms]])
  show "SEM2_L \<noteq> SEM2_U" by (simp add: rom_addrs)
  show "changes SEM2_L SEM2_U (\<lambda>r. (if r = 0 then 1 else 0) - (if ok then 1 else 0))
          (if ok then do { NXWR32 B UNM_ROM_LOCK_ID ROM_LOCK_DRIVER; ret (0 :: int) } else ret (- 1))" for ok
    by (rule changes_if; intro neutral_bind changes_wr changes_ret) simp_all
qed

lemma rom_unlock_changes: "changes SEM2_L SEM2_U (\<lambda>_. - 1) (rom_unlock B)"
  unfolding rom_unlock_def by (rule release_rd) (simp add: rom_addrs)

interpretation flash: hw_lock SEM2_L SEM2_U "rom_lock (sem_fix SEM2_L B)" "rom_unlock (sem_fix SEM2_L B)"
  for B :: "'h bus"
  by unfold_locales (rule rom_lock_changes [OF sem_fix_bus] rom_unlock_changes)+

lemma neutral_wait_rom_loop: "neutral SEM2_L SEM2_U (wait_rom_loop B n)"
  by (induction n) (auto intro!: sem_intros simp: rom_addrs)

lemma neutral_do_rom_fast_read: "neutral SEM2_L SEM2_U (do_rom_fast_read B a)"
  unfolding do_rom_fast_read_def wait_rom_done_def
  by (intro neutral_bind neutral_wait_rom_loop changes_if changes_wr changes_ret neutral_rd;
      simp add: rom_addrs)

lemma changes_run:
  "changes L U c m \<Longrightarrow> run_state m d = (x, d') \<Longrightarrow> sem_level L U (log d') = sem_level L U (log d) + c x"
  by (simp add: changes_def) (metis fst_conv snd_conv)

lemma rom_lock_loop_level:
  assumes "sem_bus B SEM2_L" "run_state (rom_lock_loop B n) d = (below, d')"
  shows "sem_level SEM2_L SEM2_U (log d') - sem_level SEM2_L SEM2_U (log d) \<in> (if below then {1} else {0, 1})"
  using assms(2)
proof (induction n arbitrary: d)
  case 0
  obtain r d1 where r: "run_state (rom_lock B) d = (r, d1)" by (cases "run_state (rom_lock B) d")
  with 0 changes_run [OF rom_lock_changes [OF assms(1)] r] show ?case
    by (simp add: io_simps split: if_splits)
next
  case (Suc n)
  obtain r d1 where r: "run_state (rom_lock B) d = (r, d1)" by (cases "run_state (rom_lock B) d")
  note level = changes_run [OF rom_lock_changes [OF assms(1)] r]
  show ?case
  proof (cases "r = 0")
    case True
    with Suc.prems level r show ?thesis by (simp add: io_simps)
  next
    case False
    with Suc.prems r have "run_state (rom_lock_loop B n) d1 = (below, d')" by (simp add: io_simps)
    from Suc.IH [OF this] False level show ?thesis by simp
  qed
qed

text \<open>
  A flash read that returns a value has taken the flash semaphore and given it back; one that
  fails has left it as it was, or holding one more reference: it never releases what it did not
  take.
\<close>

theorem rom_fast_read_lock:
  assumes "sem_bus B SEM2_L" "run_state (rom_fast_read B a) d = (r, d')"
  shows "sem_level SEM2_L SEM2_U (log d') - sem_level SEM2_L SEM2_U (log d) \<in> (if r = None then {0, 1} else {0})"
proof -
  obtain below d1 where b: "run_state (rom_lock_loop B rom_read_loops) d = (below, d1)"
    by (cases "run_state (rom_lock_loop B rom_read_loops) d")
  note l1 = rom_lock_loop_level [OF assms(1) b]
  show ?thesis
  proof (cases below)
    case False
    with assms(2) b l1 show ?thesis by (simp add: rom_fast_read_def io_simps)
  next
    case True
    let ?body = "do { r \<leftarrow> do_rom_fast_read B a; rom_unlock B; ret r }"
    have "changes SEM2_L SEM2_U (\<lambda>_. - 1) ?body"
      by (intro neutral_bind neutral_do_rom_fast_read changes_bind [OF rom_unlock_changes] changes_ret) simp
    moreover have "run_state ?body d1 = (r, d')"
      using assms(2) b True by (simp add: rom_fast_read_def io_simps)
    ultimately have "sem_level SEM2_L SEM2_U (log d') = sem_level SEM2_L SEM2_U (log d1) - 1"
      by (simp add: changes_run)
    with l1 True show ?thesis by simp
  qed
qed

text \<open>A card whose semaphore becomes free after a number of refused reads.\<close>

definition patience_bus :: "nat bus" where
  "patience_bus =
     \<lparr>bus_rd = \<lambda>a h. if a = SEM2_L then (if h = 0 then (1, 0) else (0, h - 1)) else (2, h),
      bus_wr = \<lambda>a v h. h\<rparr>"

lemma patience_bus_simps [io_simps]:
  "bus_rd patience_bus SEM2_L h = (if h = 0 then (1, 0) else (0, h - 1))"
  "a \<noteq> SEM2_L \<Longrightarrow> bus_rd patience_bus a h = (2, h)"
  "bus_wr patience_bus a v h = h"
  by (simp_all add: patience_bus_def)

lemma patience_sem_bus: "sem_bus patience_bus SEM2_L"
  by (simp add: sem_bus_def io_simps)

lemma patience_sem_wait:
  "\<exists>es. run_state (sem_wait patience_bus SEM2_L n) d =
     (hw d \<le> n, d\<lparr>hw := hw d - (n + 1), log := es\<rparr>)"
proof (induction n arbitrary: d)
  case 0
  show ?case by (cases "hw d") (auto simp: io_simps)
next
  case (Suc n)
  show ?case
  proof (cases "hw d")
    case 0
    then show ?thesis by (auto simp: io_simps)
  next
    case (Suc h)
    with Suc.IH [of "d\<lparr>hw := h, log := log d @ [Rd SEM2_L 0]\<rparr>"] show ?thesis
      by (auto simp: io_simps)
  qed
qed

lemma patience_rom_lock:
  "\<exists>es. run_state (rom_lock patience_bus) d =
     (if hw d \<le> rom_lock_timeout then 0 else - 1, d\<lparr>hw := hw d - (rom_lock_timeout + 1), log := es\<rparr>)"
  using patience_sem_wait [of rom_lock_timeout d] by (auto simp: rom_lock_def io_simps)

text \<open>When the semaphore is only free on the very last attempt, the loop says it failed.\<close>

lemma patience_loop:
  "hw d = n * (rom_lock_timeout + 1) + k \<Longrightarrow> k \<le> rom_lock_timeout \<Longrightarrow>
   \<exists>d'. run_state (rom_lock_loop patience_bus n) d = (False, d') \<and>
        sem_level SEM2_L SEM2_U (log d') = sem_level SEM2_L SEM2_U (log d) + 1"
proof (induction n arbitrary: d)
  case 0
  obtain es where r: "run_state (rom_lock patience_bus) d = (0, d\<lparr>hw := 0, log := es\<rparr>)"
    using patience_rom_lock [of d] 0 by auto
  with changes_run [OF rom_lock_changes [OF patience_sem_bus] r] show ?case
    by (simp add: io_simps)
next
  case (Suc n)
  let ?d = "\<lambda>es. d\<lparr>hw := hw d - (rom_lock_timeout + 1), log := es\<rparr>"
  obtain es where r: "run_state (rom_lock patience_bus) d = (- 1, ?d es)"
    using patience_rom_lock [of d] Suc.prems by auto
  obtain d' where d': "run_state (rom_lock_loop patience_bus n) (?d es) = (False, d')"
    "sem_level SEM2_L SEM2_U (log d') = sem_level SEM2_L SEM2_U es + 1"
    using Suc.IH [of "?d es"] Suc.prems by auto
  with r changes_run [OF rom_lock_changes [OF patience_sem_bus] r] show ?case
    by (simp add: io_simps)
qed

lemma rom_lock_loop_first:
  "run_state (rom_lock B) d = (0, d1) \<Longrightarrow> run_state (rom_lock_loop B (Suc n)) d = (True, d1)"
  by (simp add: io_simps)

lemma patience_read:
  "hw d = 0 \<Longrightarrow> \<exists>d'. run_state (rom_fast_read patience_bus a) d = (Some 2, d')"
proof -
  assume "hw d = 0"
  then obtain es where "run_state (rom_lock patience_bus) d = (0, d\<lparr>hw := 0, log := es\<rparr>)"
    using patience_rom_lock [of d] by auto
  from rom_lock_loop_first [OF this, of "rom_read_loops - 1"]
  have l: "run_state (rom_lock_loop patience_bus rom_read_loops) d = (True, d\<lparr>hw := 0, log := es\<rparr>)"
    by (simp add: rom_read_loops_def)
  have ne: "UNM_ROMUSB_GLB_STATUS \<noteq> SEM2_L" "UNM_ROMUSB_ROM_RDATA \<noteq> SEM2_L" "SEM2_U \<noteq> SEM2_L"
    by (simp_all add: rom_addrs)
  have w: "run_state (wait_rom_done patience_bus) d = (0, d\<lparr>log := log d @ [Rd UNM_ROMUSB_GLB_STATUS 2]\<rparr>)" for d
  proof -
    have "n \<noteq> 0 \<Longrightarrow> run_state (wait_rom_loop patience_bus n) d =
        (0, d\<lparr>log := log d @ [Rd UNM_ROMUSB_GLB_STATUS 2]\<rparr>)" for n
      using ne(1) by (cases n) (simp_all add: io_simps)
    then show ?thesis by (simp add: wait_rom_done_def rom_max_timeout_def)
  qed
  show ?thesis
    by (simp add: rom_fast_read_def l do_rom_fast_read_def w rom_unlock_def io_simps ne
        del: One_nat_def)
qed

theorem rom_fast_read_lock_witness:
  "\<exists>d'. run_state (rom_fast_read patience_bus 0x4000) \<lparr>hw = 0, log = []\<rparr> = (Some 2, d') \<and>
        sem_level SEM2_L SEM2_U (log d') = 0"
proof -
  obtain d' where d': "run_state (rom_fast_read patience_bus 0x4000) \<lparr>hw = 0, log = []\<rparr> = (Some 2, d')"
    using patience_read [of "\<lparr>hw = 0, log = []\<rparr>"] by auto
  from rom_fast_read_lock [OF patience_sem_bus this] show ?thesis
    by (simp add: d' sem_level_def)
qed

text \<open>
  The outer retry loop tests its counter and not the lock: on a card that frees the semaphore
  just in time for the last attempt, a flash read fails although it took the semaphore, and keeps
  it.
\<close>

theorem rom_fast_read_leaks_lock:
  "\<exists>h d'. run_state (rom_fast_read patience_bus a) \<lparr>hw = h, log = []\<rparr> = (None, d') \<and>
     sem_level SEM2_L SEM2_U (log d') = 1"
proof -
  let ?d = "\<lparr>hw = rom_read_loops * (rom_lock_timeout + 1), log = []\<rparr>"
  obtain d' where d': "run_state (rom_lock_loop patience_bus rom_read_loops) ?d = (False, d')"
    "sem_level SEM2_L SEM2_U (log d') = 1"
    using patience_loop [of ?d rom_read_loops 0] by (auto simp: sem_level_def)
  from d'(1) have "run_state (rom_fast_read patience_bus a) ?d = (None, d')"
    by (simp add: rom_fast_read_def run_bind run_ret)
  with d'(2) show ?thesis by blast
qed

subsection \<open>The board configuration\<close>

definition BRDCFG_START :: u32 where "BRDCFG_START = 0x4000"
definition UNM_BDINFO_MAGIC :: u32 where "UNM_BDINFO_MAGIC = 0x12345678"
definition UNM_BDINFO_VERSION :: u32 where "UNM_BDINFO_VERSION = 1"

text \<open>\<open>unm_board_info_t\<close> is an array of 78 words, as which the driver reads it; the fields it
  looks at.\<close>

definition board_info_words :: nat where "board_info_words = 78"
definition header_version :: "u32 list \<Rightarrow> u32" where "header_version w = w ! 0"
definition board_type_word :: "u32 list \<Rightarrow> u32" where "board_type_word w = w ! 2"
definition magic :: "u32 list \<Rightarrow> u32" where "magic w = w ! 74"

datatype brdclass = UNM_NIC_GBE | UNM_NIC_XGBE

definition UNM_BRDTYPE_P3_4_GB_MM :: u32 where "UNM_BRDTYPE_P3_4_GB_MM = 0x29"
definition UNM_BRDTYPE_P3_10G_TP :: u32 where "UNM_BRDTYPE_P3_10G_TP = 0x80"

text \<open>The case labels of the switch, in its order: \<open>P2_SB31_10G\<close>, its \<open>IMEZ\<close>, \<open>HMEZ\<close> and \<open>CX4\<close>
  variants, \<open>P3_HMEZ\<close>, \<open>P3_XG_LOM\<close>, \<open>P3_10G_CX4\<close>, \<open>P3_10G_CX4_LP\<close>, \<open>P3_IMEZ\<close>,
  \<open>P3_10G_SFP_PLUS\<close>, \<open>P3_10G_XFP\<close> and \<open>P3_10000_BASE_T\<close> are 10G boards; \<open>P2_SB35_4G\<close>,
  \<open>P3_REF_QG\<close>, \<open>P3_4_GB\<close>, \<open>P3_4_GB_MM\<close> and the four P1 boards are gigabit boards.\<close>

definition xgbe_types :: "u32 list" where
  "xgbe_types = [0x0b, 0x0d, 0x0e, 0x0f, 0x22, 0x28, 0x31, 0x23, 0x25, 0x26, 0x32, 0x27]"

definition gbe_types :: "u32 list" where
  "gbe_types = [0x0a, 0x21, 0x24, UNM_BRDTYPE_P3_4_GB_MM, 0, 1, 2, 3]"

definition board_class_of :: "int \<Rightarrow> u32 \<Rightarrow> brdclass option" where
  "board_class_of portnum t =
     (if t \<in> set xgbe_types then Some UNM_NIC_XGBE
      else if t \<in> set gbe_types then Some UNM_NIC_GBE
      else if t = UNM_BRDTYPE_P3_10G_TP then Some (if portnum < 2 then UNM_NIC_XGBE else UNM_NIC_GBE)
      else None)"

text \<open>\<open>ahw.board_type\<close> is \<^const>\<open>None\<close> until a known board has been seen.\<close>

record board =
  boardcfg :: "u32 list"
  board_class :: "brdclass option"
  portnum :: int
  revision_id :: int

text \<open>Reading \<open>n\<close> words from flash address \<open>a\<close> into the words from index \<open>i\<close> on; what was read
  before a failure stays.\<close>

fun read_board_words :: "'h bus \<Rightarrow> nat \<Rightarrow> u32 \<Rightarrow> nat \<Rightarrow> u32 list \<Rightarrow> ('h, bool \<times> u32 list) io" where
  "read_board_words B 0 a i cfg = ret (True, cfg)"
| "read_board_words B (Suc n) a i cfg = do {
     r \<leftarrow> rom_fast_read B a;
     (case r of
        None \<Rightarrow> ret (False, cfg)
      | Some v \<Rightarrow> read_board_words B n (a + 4) (i + 1) (cfg[i := v])) }"

text \<open>A multi-media quad-port board without its GPIO strap is a 10G TP board.\<close>

definition board_strap :: "'h bus \<Rightarrow> u32 list \<Rightarrow> ('h, u32 list) io" where
  "board_strap B cfg =
     (if board_type_word cfg = UNM_BRDTYPE_P3_4_GB_MM then do {
        gpioval \<leftarrow> NXRD32 B UNM_ROMUSB_GLB_PAD_GPIO_I;
        ret (if gpioval AND 0x8000 = 0 then cfg[2 := UNM_BRDTYPE_P3_10G_TP] else cfg) }
      else ret cfg)"

definition unm_nic_get_board_info :: "'h bus \<Rightarrow> board \<Rightarrow> ('h, int \<times> board) io" where
  "unm_nic_get_board_info B bd = do {
     got \<leftarrow> read_board_words B board_info_words BRDCFG_START 0 (boardcfg bd);
     if \<not> fst got then ret (- 1, bd\<lparr>boardcfg := snd got\<rparr>)
     else do {
       cfg \<leftarrow> board_strap B (snd got);
       (let rv = (if magic cfg \<noteq> UNM_BDINFO_MAGIC \<or> header_version cfg \<noteq> UNM_BDINFO_VERSION
                  then - 1 else 0);
            bd' = bd\<lparr>boardcfg := cfg\<rparr>
        in ret (rv, (case board_class_of (portnum bd) (board_type_word cfg) of
                       None \<Rightarrow> bd' | Some c \<Rightarrow> bd'\<lparr>board_class := Some c\<rparr>))) } }"

lemma read_board_words_length:
  "run_state (read_board_words B n a i cfg) d = ((ok, cfg'), d') \<Longrightarrow> length cfg' = length cfg"
proof (induction n arbitrary: a i cfg d)
  case 0
  then show ?case by (simp add: io_simps)
next
  case (Suc n)
  from Suc.prems show ?case
    by (auto simp: io_simps split: prod.splits option.splits dest!: Suc.IH)
qed

lemma board_strap_words:
  "run_state (board_strap B cfg) d = (cfg', d') \<Longrightarrow>
   cfg' = cfg \<or> board_type_word cfg = UNM_BRDTYPE_P3_4_GB_MM \<and> cfg' = cfg[2 := UNM_BRDTYPE_P3_10G_TP]"
  by (auto simp: board_strap_def io_simps split: if_splits)

lemma board_types_disjoint:
  "UNM_BRDTYPE_P3_10G_TP \<notin> set xgbe_types" "UNM_BRDTYPE_P3_10G_TP \<notin> set gbe_types"
  "UNM_BRDTYPE_P3_4_GB_MM \<notin> set xgbe_types" "UNM_BRDTYPE_P3_4_GB_MM \<in> set gbe_types"
  by (simp_all add: xgbe_types_def gbe_types_def UNM_BRDTYPE_P3_4_GB_MM_def UNM_BRDTYPE_P3_10G_TP_def)

text \<open>
  Reading the board configuration returns 0 only with the magic word and version of a
  programmed flash in the adapter's copy, and then the board's class is the one its type
  has, except that a type the driver does not know leaves the class as it was and is no error.
\<close>

theorem board_info_accepts:
  assumes "length (boardcfg bd) = board_info_words"
    "run_state (unm_nic_get_board_info B bd) d = ((0, bd'), d')"
  shows "magic (boardcfg bd') = UNM_BDINFO_MAGIC \<and> header_version (boardcfg bd') = UNM_BDINFO_VERSION \<and>
         length (boardcfg bd') = board_info_words \<and>
         board_class bd' = (case board_class_of (portnum bd) (board_type_word (boardcfg bd')) of
                              None \<Rightarrow> board_class bd | c \<Rightarrow> c)"
proof -
  obtain ok cfg d1 where g: "run_state (read_board_words B board_info_words BRDCFG_START 0 (boardcfg bd)) d = ((ok, cfg), d1)"
    by (cases "run_state (read_board_words B board_info_words BRDCFG_START 0 (boardcfg bd)) d") auto
  from assms(2) g have ok by (auto simp: unm_nic_get_board_info_def io_simps split: if_splits)
  obtain cfg' d2 where s: "run_state (board_strap B cfg) d1 = (cfg', d2)"
    by (cases "run_state (board_strap B cfg) d1")
  have "length cfg' = board_info_words"
    using read_board_words_length [OF g] assms(1) board_strap_words [OF s] by auto
  with assms(2) g s \<open>ok\<close> show ?thesis
    by (auto simp: unm_nic_get_board_info_def io_simps Let_def split: if_splits option.splits)
qed
subsection \<open>A flash part\<close>

text \<open>A card with flash contents \<open>F\<close>: the semaphore is free, the ROM is never busy, and the data
  register shows the word at the address last written. Other registers read as zero.\<close>

definition flash_bus :: "(u32 \<Rightarrow> u32) \<Rightarrow> u32 bus" where
  "flash_bus F =
     \<lparr>bus_rd = \<lambda>a h. (if a = SEM2_L then 1 else if a = UNM_ROMUSB_GLB_STATUS then 2
                      else if a = UNM_ROMUSB_ROM_RDATA then F h else 0, h),
      bus_wr = \<lambda>a v h. if a = UNM_ROMUSB_ROM_ADDRESS then v else h\<rparr>"

lemma flash_regs_distinct:
  "SEM2_U \<noteq> SEM2_L" "SEM2_U \<noteq> UNM_ROMUSB_GLB_STATUS" "SEM2_U \<noteq> UNM_ROMUSB_ROM_RDATA"
  "UNM_ROMUSB_GLB_STATUS \<noteq> SEM2_L" "UNM_ROMUSB_ROM_RDATA \<noteq> SEM2_L"
  "UNM_ROMUSB_ROM_RDATA \<noteq> UNM_ROMUSB_GLB_STATUS" "UNM_ROM_LOCK_ID \<noteq> UNM_ROMUSB_ROM_ADDRESS"
  "UNM_ROMUSB_ROM_ABYTE_CNT \<noteq> UNM_ROMUSB_ROM_ADDRESS"
  "UNM_ROMUSB_ROM_DUMMY_BYTE_CNT \<noteq> UNM_ROMUSB_ROM_ADDRESS"
  "UNM_ROMUSB_ROM_INSTR_OPCODE \<noteq> UNM_ROMUSB_ROM_ADDRESS"
  by (simp_all add: rom_addrs)

lemma flash_sem_wait:
  "run_state (sem_wait (flash_bus F) SEM2_L n) d = (True, d\<lparr>log := log d @ [Rd SEM2_L 1]\<rparr>)"
  by (cases n) (simp_all add: io_simps flash_bus_def)

lemma flash_wait_rom:
  "n \<noteq> 0 \<Longrightarrow> run_state (wait_rom_loop (flash_bus F) n) d = (0, d\<lparr>log := log d @ [Rd UNM_ROMUSB_GLB_STATUS 2]\<rparr>)"
  by (cases n) (simp_all add: io_simps flash_bus_def flash_regs_distinct)

lemma flash_rom_lock:
  "run_state (rom_lock (flash_bus F)) d =
     (0, d\<lparr>log := log d @ [Rd SEM2_L 1, Wr UNM_ROM_LOCK_ID ROM_LOCK_DRIVER]\<rparr>)"
  by (simp add: rom_lock_def io_simps flash_sem_wait) (simp add: flash_bus_def flash_regs_distinct)

definition flash_read_log :: "(u32 \<Rightarrow> u32) \<Rightarrow> u32 \<Rightarrow> access list" where
  "flash_read_log F a =
     [Rd SEM2_L 1, Wr UNM_ROM_LOCK_ID ROM_LOCK_DRIVER, Wr UNM_ROMUSB_ROM_ADDRESS a,
      Wr UNM_ROMUSB_ROM_ABYTE_CNT 3, Wr UNM_ROMUSB_ROM_DUMMY_BYTE_CNT 0,
      Wr UNM_ROMUSB_ROM_INSTR_OPCODE 0xb, Rd UNM_ROMUSB_GLB_STATUS 2,
      Wr UNM_ROMUSB_ROM_DUMMY_BYTE_CNT 0, Wr UNM_ROMUSB_ROM_ABYTE_CNT 0,
      Rd UNM_ROMUSB_ROM_RDATA (F a), Rd SEM2_U 0]"

lemma flash_rom_fast_read [io_simps]:
  "run_state (rom_fast_read (flash_bus F) a) d =
     (Some (F a), d\<lparr>hw := a, log := log d @ flash_read_log F a\<rparr>)"
proof -
  from rom_lock_loop_first [OF flash_rom_lock, of F "rom_read_loops - 1" d]
  have l: "run_state (rom_lock_loop (flash_bus F) rom_read_loops) d =
      (True, d\<lparr>log := log d @ [Rd SEM2_L 1, Wr UNM_ROM_LOCK_ID ROM_LOCK_DRIVER]\<rparr>)"
    by (simp add: rom_read_loops_def)
  have w: "run_state (wait_rom_done (flash_bus F)) d = (0, d\<lparr>log := log d @ [Rd UNM_ROMUSB_GLB_STATUS 2]\<rparr>)" for d
    by (simp add: wait_rom_done_def flash_wait_rom rom_max_timeout_def)
  show ?thesis
    by (simp add: rom_fast_read_def l do_rom_fast_read_def w rom_unlock_def io_simps flash_read_log_def)
      (simp add: flash_bus_def flash_regs_distinct)
qed

lemma flash_read_board_words:
  "i + n \<le> length cfg \<Longrightarrow>
   \<exists>d'. run_state (read_board_words (flash_bus F) n a i cfg) d =
     ((True, take i cfg @ map (\<lambda>k. F (a + 4 * of_nat k)) [0..<n] @ drop (i + n) cfg), d')"
proof (induction n arbitrary: a i cfg d)
  case 0
  then show ?case by (simp add: io_simps)
next
  case (Suc n)
  let ?d = "d\<lparr>hw := a, log := log d @ flash_read_log F a\<rparr>"
  have "i + 1 + n \<le> length (cfg[i := F a])" using Suc.prems by simp
  from Suc.IH [OF this, of "a + 4" ?d]
  obtain d' where d': "run_state (read_board_words (flash_bus F) n (a + 4) (i + 1) (cfg[i := F a])) ?d =
     ((True, take (i + 1) (cfg[i := F a]) @ map (\<lambda>k. F (a + 4 + 4 * of_nat k)) [0..<n] @
       drop (i + 1 + n) (cfg[i := F a])), d')" by blast
  have "map (\<lambda>k. F (a + 4 * of_nat k)) [0..<Suc n] = F a # map (\<lambda>k. F (a + 4 + 4 * of_nat k)) [0..<n]"
    by (simp add: upt_conv_Cons map_Suc_upt [symmetric] algebra_simps del: upt_Suc)
  moreover have "take (i + 1) (cfg[i := F a]) = take i cfg @ [F a]"
    using Suc.prems by (simp add: take_Suc_conv_app_nth)
  ultimately show ?case
    using d' Suc.prems by (simp add: io_simps)
qed

definition sample_flash :: "u32 \<Rightarrow> u32" where
  "sample_flash a = (if a = 0x4000 then UNM_BDINFO_VERSION else if a = 0x4008 then 0x22
                     else if a = 0x4128 then UNM_BDINFO_MAGIC else 0)"

definition sample_board :: board where
  "sample_board = \<lparr>boardcfg = replicate 78 0, board_class = None, portnum = 0, revision_id = 0x42\<rparr>"

theorem board_info_accepts_witness:
  "\<exists>bd' d'. run_state (unm_nic_get_board_info (flash_bus sample_flash) sample_board) \<lparr>hw = 0, log = []\<rparr> = ((0, bd'), d') \<and>
     board_class bd' = Some UNM_NIC_XGBE"
proof -
  let ?cfg = "map (\<lambda>k. sample_flash (0x4000 + 4 * of_nat k)) [0..<78]"
  obtain d1 where "run_state (read_board_words (flash_bus sample_flash) board_info_words BRDCFG_START 0 (boardcfg sample_board))
      \<lparr>hw = 0, log = []\<rparr> = ((True, ?cfg), d1)"
    using flash_read_board_words [of 0 78 "boardcfg sample_board" sample_flash BRDCFG_START "\<lparr>hw = 0, log = []\<rparr>"]
    by (auto simp: sample_board_def board_info_words_def BRDCFG_START_def)
  moreover have "?cfg ! 0 = 1" "?cfg ! 2 = 0x22" "?cfg ! 74 = UNM_BDINFO_MAGIC"
    by (simp_all add: sample_flash_def UNM_BDINFO_VERSION_def del: upt_rec_numeral)
  ultimately obtain bd' d' where r: "run_state (unm_nic_get_board_info (flash_bus sample_flash) sample_board) \<lparr>hw = 0, log = []\<rparr> = ((0, bd'), d')"
      "boardcfg bd' = ?cfg"
    by (simp add: unm_nic_get_board_info_def io_simps board_strap_def board_type_word_def Let_def
        UNM_BRDTYPE_P3_4_GB_MM_def header_version_def magic_def UNM_BDINFO_VERSION_def board_class_of_def
        xgbe_types_def del: upt_rec_numeral)
  have "length (boardcfg sample_board) = board_info_words"
    by (simp add: sample_board_def board_info_words_def)
  from board_info_accepts [OF this r(1)] r \<open>?cfg ! 2 = 0x22\<close>
  have "board_class bd' = Some UNM_NIC_XGBE"
    by (simp add: board_type_word_def board_class_of_def xgbe_types_def)
  with r(1) show ?thesis by blast
qed

end
