(* ===== verification/Tap.thy ===== *)
theory Tap
  imports Rom
begin

text \<open>
  Bit-banged access to the chip's JTAG port (\<open>driver/unm_nic_init.c\<close>, \<open>changeState\<close> to
  \<open>loadData\<close>; the 5-bit instruction build, without VIRTEX). The specification is the IEEE 1149.1
  TAP controller: a chip that samples TMS and TDI on rising edges of the clock, with an
  instruction register and a data register selected by the instruction.
\<close>

subsection \<open>The driver's side\<close>

definition TCLK :: u64 where "TCLK = UNM_CRB_ROMUSB + 0x60"
definition TRST :: u64 where "TRST = UNM_CRB_ROMUSB + 0x64"
definition TMS :: u64 where "TMS = UNM_CRB_ROMUSB + 0x70"
definition TDI :: u64 where "TDI = UNM_CRB_ROMUSB + 0x80"
definition TDO :: u64 where "TDO = UNM_CRB_ROMUSB + 0xc"
definition TDO_SHIFT :: nat where "TDO_SHIFT = 5"
definition CMD_STATUS :: u32 where "CMD_STATUS = 0x10"
definition CMD_LENGTH_BITS :: nat where "CMD_LENGTH_BITS = 5"

lemmas tap_addrs = rom_addrs TCLK_def TRST_def TMS_def TDI_def TDO_def

definition clock_writes :: "u32 \<Rightarrow> u32 \<Rightarrow> (u64 \<times> u32) list" where
  "clock_writes tdi tms = [(TRST, 3), (TMS, 2 OR tms), (TDI, 2 OR tdi), (TCLK, 2), (TCLK, 3), (TCLK, 2)]"

definition CLOCK_IN_BIT :: "'h bus \<Rightarrow> u32 \<Rightarrow> u32 \<Rightarrow> ('h, unit) io" where
  "CLOCK_IN_BIT B tdi tms = write_all B (clock_writes tdi tms)"

definition CLOCK_OUT_BIT :: "'h bus \<Rightarrow> u32 \<Rightarrow> ('h, u32) io" where
  "CLOCK_OUT_BIT B tms = do {
     write_all B (clock_writes 0 tms);
     v \<leftarrow> NXRD32 B TDO;
     ret (drop_bit TDO_SHIFT v AND 1) }"

fun changeState :: "'h bus \<Rightarrow> u32 \<Rightarrow> nat \<Rightarrow> ('h, unit) io" where
  "changeState B tms 0 = ret ()"
| "changeState B tms (Suc tck) = do { CLOCK_IN_BIT B 0 tms; changeState B tms tck }"

definition GO_TO_RTI :: "'h bus \<Rightarrow> ('h, unit) io" where
  "GO_TO_RTI B = do { changeState B 1 5; changeState B 0 1 }"

text \<open>Bits \<open>i\<close> to \<open>i + n - 1\<close> of a word, clocked in with TMS low.\<close>

fun clock_in_bits :: "'h bus \<Rightarrow> u64 \<Rightarrow> nat \<Rightarrow> nat \<Rightarrow> ('h, unit) io" where
  "clock_in_bits B w i 0 = ret ()"
| "clock_in_bits B w i (Suc n) = do {
     CLOCK_IN_BIT B (ucast (drop_bit i w AND 1)) 0;
     clock_in_bits B w (i + 1) n }"

definition loadInstr :: "'h bus \<Rightarrow> u32 \<Rightarrow> ('h, int) io" where
  "loadInstr B instr = do {
     changeState B 1 2;
     changeState B 0 2;
     clock_in_bits B (ucast instr) 0 (CMD_LENGTH_BITS - 1);
     CLOCK_IN_BIT B (drop_bit (CMD_LENGTH_BITS - 1) instr AND 1) 1;
     changeState B 1 1;
     changeState B 0 1;
     ret 0 }"

text \<open>The read loops of \<open>getData\<close> and \<open>getData64\<close> from bit \<open>i\<close> on, accumulating \<open>temp\<close>.\<close>

fun clock_out_bits :: "'h bus \<Rightarrow> 'w::len word \<Rightarrow> nat \<Rightarrow> nat \<Rightarrow> ('h, 'w word) io" where
  "clock_out_bits B temp i 0 = ret temp"
| "clock_out_bits B temp i (Suc n) = do {
     b \<leftarrow> CLOCK_OUT_BIT B 0;
     clock_out_bits B (temp OR push_bit i (ucast b)) (i + 1) n }"

definition getData :: "'h bus \<Rightarrow> nat \<Rightarrow> bool \<Rightarrow> ('h, u32) io" where
  "getData B len keep = do {
     changeState B 1 1;
     changeState B 0 1;
     temp \<leftarrow> clock_out_bits B 0 0 len;
     (if keep then ret () else do { changeState B 1 1; changeState B 1 1; changeState B 0 1 });
     ret temp }"

definition getData64 :: "'h bus \<Rightarrow> nat \<Rightarrow> bool \<Rightarrow> ('h, u64) io" where
  "getData64 B len keep = do {
     changeState B 1 1;
     changeState B 0 1;
     temp \<leftarrow> clock_out_bits B 0 0 len;
     (if keep then ret () else do { changeState B 1 1; changeState B 1 1; changeState B 0 1 });
     ret temp }"

definition get_status :: "'h bus \<Rightarrow> ('h, u32) io" where
  "get_status B = do { r \<leftarrow> loadInstr B CMD_STATUS; getData B 1 False }"

text \<open>Only called with \<open>len > 0\<close>.\<close>

definition loadData :: "'h bus \<Rightarrow> u64 \<Rightarrow> nat \<Rightarrow> bool \<Rightarrow> ('h, int) io" where
  "loadData B data len keep = do {
     clock_in_bits B data 0 (len - 1);
     (if keep then CLOCK_IN_BIT B (ucast (drop_bit (len - 1) data AND 1)) 0
      else do {
        CLOCK_IN_BIT B (ucast (drop_bit (len - 1) data AND 1)) 1;
        changeState B 1 1;
        changeState B 0 1 });
     ret 0 }"

subsection \<open>The chip's side: a TAP controller\<close>

datatype tap_state = Test_Logic_Reset | Run_Test_Idle
  | Select_DR | Capture_DR | Shift_DR | Exit1_DR | Pause_DR | Exit2_DR | Update_DR
  | Select_IR | Capture_IR | Shift_IR | Exit1_IR | Pause_IR | Exit2_IR | Update_IR

fun tap_next :: "bool \<Rightarrow> tap_state \<Rightarrow> tap_state" where
  "tap_next tms Test_Logic_Reset = (if tms then Test_Logic_Reset else Run_Test_Idle)"
| "tap_next tms Run_Test_Idle = (if tms then Select_DR else Run_Test_Idle)"
| "tap_next tms Select_DR = (if tms then Select_IR else Capture_DR)"
| "tap_next tms Capture_DR = (if tms then Exit1_DR else Shift_DR)"
| "tap_next tms Shift_DR = (if tms then Exit1_DR else Shift_DR)"
| "tap_next tms Exit1_DR = (if tms then Update_DR else Pause_DR)"
| "tap_next tms Pause_DR = (if tms then Exit2_DR else Pause_DR)"
| "tap_next tms Exit2_DR = (if tms then Update_DR else Shift_DR)"
| "tap_next tms Update_DR = (if tms then Select_DR else Run_Test_Idle)"
| "tap_next tms Select_IR = (if tms then Test_Logic_Reset else Capture_IR)"
| "tap_next tms Capture_IR = (if tms then Exit1_IR else Shift_IR)"
| "tap_next tms Shift_IR = (if tms then Exit1_IR else Shift_IR)"
| "tap_next tms Exit1_IR = (if tms then Update_IR else Pause_IR)"
| "tap_next tms Pause_IR = (if tms then Exit2_IR else Pause_IR)"
| "tap_next tms Exit2_IR = (if tms then Update_IR else Shift_IR)"
| "tap_next tms Update_IR = (if tms then Select_DR else Run_Test_Idle)"

text \<open>Registers are bit lists, least significant bit first, which is the order they shift out in;
  \<open>dr_value\<close> gives what an instruction's data register captures, \<open>written\<close> what was last updated
  into it.\<close>

record tap_chip =
  tap_st :: tap_state
  pin_tck :: bool
  pin_tms :: bool
  pin_tdi :: bool
  ir_shift :: "bool list"
  instruction :: "bool list"
  dr_shift :: "bool list"
  written :: "bool list"

definition shift_in :: "bool \<Rightarrow> bool list \<Rightarrow> bool list" where
  "shift_in b r = tl r @ [b]"

definition tap_edge :: "(bool list \<Rightarrow> bool list) \<Rightarrow> tap_chip \<Rightarrow> tap_chip" where
  "tap_edge D c =
     (let c1 = (case tap_st c of
                  Capture_DR \<Rightarrow> c\<lparr>dr_shift := D (instruction c)\<rparr>
                | Shift_DR \<Rightarrow> c\<lparr>dr_shift := shift_in (pin_tdi c) (dr_shift c)\<rparr>
                | Shift_IR \<Rightarrow> c\<lparr>ir_shift := shift_in (pin_tdi c) (ir_shift c)\<rparr>
                | _ \<Rightarrow> c);
          s = tap_next (pin_tms c) (tap_st c)
      in (case s of
            Update_IR \<Rightarrow> c1\<lparr>tap_st := s, instruction := ir_shift c1\<rparr>
          | Update_DR \<Rightarrow> c1\<lparr>tap_st := s, written := dr_shift c1\<rparr>
          | _ \<Rightarrow> c1\<lparr>tap_st := s\<rparr>))"

definition tap_pin :: "tap_chip \<Rightarrow> bool" where
  "tap_pin c = (case tap_st c of Shift_DR \<Rightarrow> hd (dr_shift c) | Shift_IR \<Rightarrow> hd (ir_shift c) | _ \<Rightarrow> False)"

definition tap_bus :: "(bool list \<Rightarrow> bool list) \<Rightarrow> tap_chip bus" where
  "tap_bus D =
     \<lparr>bus_rd = \<lambda>a c. (if a = TDO then push_bit TDO_SHIFT (of_bool (tap_pin c)) else 0, c),
      bus_wr = \<lambda>a v c.
        if a = TMS then c\<lparr>pin_tms := bit v 0\<rparr>
        else if a = TDI then c\<lparr>pin_tdi := bit v 0\<rparr>
        else if a = TCLK then
          (if \<not> pin_tck c \<and> bit v 0 then tap_edge D c else c)\<lparr>pin_tck := bit v 0\<rparr>
        else c\<rparr>"

subsection \<open>Clocking the chip\<close>

definition tap_clock :: "(bool list \<Rightarrow> bool list) \<Rightarrow> bool \<Rightarrow> bool \<Rightarrow> tap_chip \<Rightarrow> tap_chip" where
  "tap_clock D tdi tms c = (tap_edge D (c\<lparr>pin_tms := tms, pin_tdi := tdi, pin_tck := False\<rparr>))\<lparr>pin_tck := False\<rparr>"

lemma tap_regs_distinct:
  "TMS \<noteq> TRST" "TDI \<noteq> TRST" "TCLK \<noteq> TRST" "TDI \<noteq> TMS" "TCLK \<noteq> TMS" "TCLK \<noteq> TDI"
  "TRST \<noteq> TMS" "TRST \<noteq> TDI" "TRST \<noteq> TCLK"
  by (simp_all add: tap_addrs)

lemma bit0_lits: "\<not> bit (2 :: u32) 0" "bit (3 :: u32) 0"
  by (simp_all add: bit_0)

lemma clock_writes_effect:
  "fold (\<lambda>(a, v). bus_wr (tap_bus D) a v) (clock_writes tdi tms) c = tap_clock D (bit tdi 0) (bit tms 0) c"
  by (cases c) (simp add: clock_writes_def tap_bus_def tap_regs_distinct tap_clock_def bit_or_iff bit0_lits)

lemma yields_clock_in: "yields (CLOCK_IN_BIT (tap_bus D) tdi tms) c () (tap_clock D (bit tdi 0) (bit tms 0) c)"
  using yields_write_all [of "tap_bus D" "clock_writes tdi tms" c]
  by (simp add: CLOCK_IN_BIT_def clock_writes_effect)

lemma drop_push_of_bool: "drop_bit TDO_SHIFT (push_bit TDO_SHIFT (of_bool b :: u32)) AND 1 = of_bool b"
  by (simp add: TDO_SHIFT_def push_bit_eq_mult)

lemma yields_clock_out:
  "c' = tap_clock D False (bit tms 0) c \<Longrightarrow>
   yields (CLOCK_OUT_BIT (tap_bus D) tms) c (of_bool (tap_pin c')) c'"
proof -
  assume c': "c' = tap_clock D False (bit tms 0) c"
  have w: "yields (write_all (tap_bus D) (clock_writes 0 tms)) c () c'"
    using yields_write_all [of "tap_bus D" "clock_writes 0 tms" c] by (simp add: clock_writes_effect c')
  have r: "yields (NXRD32 (tap_bus D) TDO) c' (push_bit TDO_SHIFT (of_bool (tap_pin c'))) c'"
    by (rule yields_rd) (simp add: tap_bus_def)
  have "yields (CLOCK_OUT_BIT (tap_bus D) tms) c (drop_bit TDO_SHIFT (push_bit TDO_SHIFT (of_bool (tap_pin c'))) AND 1) c'"
    unfolding CLOCK_OUT_BIT_def by (rule yields_bind [OF w], rule yields_bind [OF r], rule yields_ret)
  then show ?thesis by (simp only: drop_push_of_bool)
qed

lemma yields_changeState:
  "yields (changeState (tap_bus D) tms n) c () ((tap_clock D False (bit tms 0) ^^ n) c)"
proof (induction n arbitrary: c)
  case 0
  show ?case by (simp add: yields_ret)
next
  case (Suc n)
  have "yields (CLOCK_IN_BIT (tap_bus D) 0 tms) c () (tap_clock D False (bit tms 0) c)"
    using yields_clock_in [of D 0 tms c] by simp
  from yields_bind [OF this Suc.IH] show ?case
    by (simp add: funpow_swap1)
qed
subsection \<open>Shifting\<close>

lemmas tap_step = tap_clock_def tap_edge_def shift_in_def

text \<open>What a stretch of clocks leaves alone.\<close>

definition same_ir :: "tap_chip \<Rightarrow> tap_chip \<Rightarrow> bool" where
  "same_ir c c' \<longleftrightarrow> instruction c' = instruction c \<and> ir_shift c' = ir_shift c"

definition same_dr :: "tap_chip \<Rightarrow> tap_chip \<Rightarrow> bool" where
  "same_dr c c' \<longleftrightarrow> dr_shift c' = dr_shift c \<and> written c' = written c"

lemma bit0_drop: "bit (ucast (drop_bit i w AND 1 :: u64) :: u32) 0 = bit w i"
  by (simp add: bit_simps)

lemma bits_Suc: "map (bit w) [i..<i + Suc n] = bit w i # map (bit w) [i + 1..<i + 1 + n]"
  by (simp add: upt_conv_Cons del: upt_Suc)

lemma shift_bits:
  "xs \<noteq> [] \<Longrightarrow> drop n ((tl xs @ [bit w i]) @ map (bit w) [i + 1..<i + 1 + n]) =
                drop (Suc n) (xs @ map (bit w) [i..<i + Suc n])"
  by (cases xs) (simp_all only: bits_Suc append_assoc append_Cons append_Nil list.sel drop_Suc_Cons simp_thms)

lemma clock_in_ir:
  "tap_st c = Shift_IR \<Longrightarrow> ir_shift c \<noteq> [] \<Longrightarrow>
   \<exists>c'. yields (clock_in_bits (tap_bus D) w i n) c () c' \<and> tap_st c' = Shift_IR \<and>
     ir_shift c' = drop n (ir_shift c @ map (bit w) [i..<i + n]) \<and>
     instruction c' = instruction c \<and> same_dr c c'"
proof (induction n arbitrary: c i)
  case 0
  then show ?case by (auto intro!: exI [of _ c] yields_ret simp: same_dr_def)
next
  case (Suc n)
  let ?c = "tap_clock D (bit w i) False c"
  have s: "tap_st ?c = Shift_IR" "ir_shift ?c = tl (ir_shift c) @ [bit w i]" "ir_shift ?c \<noteq> []"
    "instruction ?c = instruction c" "same_dr c ?c"
    using Suc.prems by (simp_all add: tap_step same_dr_def)
  obtain c' where c': "yields (clock_in_bits (tap_bus D) w (i + 1) n) ?c () c'" "tap_st c' = Shift_IR"
    "ir_shift c' = drop n (ir_shift ?c @ map (bit w) [i + 1..<i + 1 + n])"
    "instruction c' = instruction ?c" "same_dr ?c c'"
    using Suc.IH [OF s(1) s(3)] by blast
  have "yields (CLOCK_IN_BIT (tap_bus D) (ucast (drop_bit i w AND 1)) 0) c () ?c"
    using yields_clock_in [of D "ucast (drop_bit i w AND 1)" 0 c] by (simp add: bit0_drop)
  from yields_bind [OF this c'(1)]
  have y: "yields (clock_in_bits (tap_bus D) w i (Suc n)) c () c'" by simp
  have "ir_shift c' = drop (Suc n) (ir_shift c @ map (bit w) [i..<i + Suc n])"
    using c'(3) shift_bits [OF Suc.prems(2), of n w i] unfolding s(2) by simp
  with y c' s show ?case
    by (intro exI [of _ c']) (simp add: same_dr_def)
qed

lemma clock_in_dr:
  "tap_st c = Shift_DR \<Longrightarrow> dr_shift c \<noteq> [] \<Longrightarrow>
   \<exists>c'. yields (clock_in_bits (tap_bus D) w i n) c () c' \<and> tap_st c' = Shift_DR \<and>
     dr_shift c' = drop n (dr_shift c @ map (bit w) [i..<i + n]) \<and> written c' = written c \<and> same_ir c c'"
proof (induction n arbitrary: c i)
  case 0
  then show ?case by (auto intro!: exI [of _ c] yields_ret simp: same_ir_def)
next
  case (Suc n)
  let ?c = "tap_clock D (bit w i) False c"
  have s: "tap_st ?c = Shift_DR" "dr_shift ?c = tl (dr_shift c) @ [bit w i]" "dr_shift ?c \<noteq> []"
    "written ?c = written c" "same_ir c ?c"
    using Suc.prems by (simp_all add: tap_step same_ir_def)
  obtain c' where c': "yields (clock_in_bits (tap_bus D) w (i + 1) n) ?c () c'" "tap_st c' = Shift_DR"
    "dr_shift c' = drop n (dr_shift ?c @ map (bit w) [i + 1..<i + 1 + n])"
    "written c' = written ?c" "same_ir ?c c'"
    using Suc.IH [OF s(1) s(3)] by blast
  have "yields (CLOCK_IN_BIT (tap_bus D) (ucast (drop_bit i w AND 1)) 0) c () ?c"
    using yields_clock_in [of D "ucast (drop_bit i w AND 1)" 0 c] by (simp add: bit0_drop)
  from yields_bind [OF this c'(1)]
  have y: "yields (clock_in_bits (tap_bus D) w i (Suc n)) c () c'" by simp
  have "dr_shift c' = drop (Suc n) (dr_shift c @ map (bit w) [i..<i + Suc n])"
    using c'(3) shift_bits [OF Suc.prems(2), of n w i] unfolding s(2) by simp
  with y c' s show ?case
    by (intro exI [of _ c']) (simp add: same_ir_def)
qed

text \<open>Reading out: the first bit a clock shows is the second of the register, because the clock
  shifts before the pin is looked at.\<close>

lemma clock_out_dr:
  "tap_st c = Shift_DR \<Longrightarrow> n < length (dr_shift c) \<Longrightarrow>
   \<exists>c' v. yields (clock_out_bits (tap_bus D) temp i n) c v c' \<and> tap_st c' = Shift_DR \<and>
     dr_shift c' = drop n (dr_shift c) @ replicate n False \<and> written c' = written c \<and> same_ir c c' \<and>
     (\<forall>k. bit v k \<longleftrightarrow> bit temp k \<or> (i \<le> k \<and> k < i + n \<and> k < LENGTH('w) \<and> dr_shift c ! (k - i + 1)))"
  for temp :: "'w::len word"
proof (induction n arbitrary: c i temp)
  case 0
  then show ?case by (auto intro!: exI [of _ c] exI [of _ temp] yields_ret simp: same_ir_def)
next
  case (Suc n)
  let ?c = "tap_clock D False False c"
  let ?t = "temp OR push_bit i (ucast (of_bool (tap_pin ?c) :: u32)) :: 'w word"
  have ne: "dr_shift c \<noteq> []" using Suc.prems by auto
  have s: "tap_st ?c = Shift_DR" "dr_shift ?c = tl (dr_shift c) @ [False]" "tap_pin ?c = dr_shift c ! 1"
    "written ?c = written c" "same_ir c ?c" "n < length (dr_shift ?c)"
    using Suc.prems by (simp_all add: tap_step same_ir_def tap_pin_def hd_append hd_conv_nth nth_tl)
      (cases "dr_shift c"; auto simp: hd_conv_nth)+
  obtain c' v where c': "yields (clock_out_bits (tap_bus D) ?t (i + 1) n) ?c v c'" "tap_st c' = Shift_DR"
    "dr_shift c' = drop n (dr_shift ?c) @ replicate n False" "written c' = written ?c" "same_ir ?c c'"
    "\<And>k. bit v k \<longleftrightarrow> bit ?t k \<or> (i + 1 \<le> k \<and> k < i + 1 + n \<and> k < LENGTH('w) \<and> dr_shift ?c ! (k - (i + 1) + 1))"
    using Suc.IH [OF s(1) s(6), of ?t "i + 1"] by blast
  have "yields (CLOCK_OUT_BIT (tap_bus D) 0) c (of_bool (tap_pin ?c)) ?c"
    using yields_clock_out [of ?c D 0 c] by simp
  then have y: "yields (clock_out_bits (tap_bus D) temp i (Suc n)) c v c'"
    unfolding clock_out_bits.simps by (rule yields_bind) (rule c'(1))
  have t: "bit ?t k \<longleftrightarrow> bit temp k \<or> (k = i \<and> k < LENGTH('w) \<and> dr_shift c ! 1)" for k
    by (auto simp: bit_simps s(3))
  have nth: "i + 1 \<le> k \<Longrightarrow> k < i + 1 + n \<Longrightarrow> dr_shift ?c ! (k - (i + 1) + 1) = dr_shift c ! (k - i + 1)" for k
  proof -
    assume "i + 1 \<le> k" "k < i + 1 + n"
    then have "k - i < length (dr_shift c) - 1" "k - (i + 1) + 1 = k - i" using Suc.prems(2) by linarith+
    then show ?thesis by (simp add: s(2) nth_append nth_tl)
  qed
  have "bit v k \<longleftrightarrow> bit temp k \<or> (i \<le> k \<and> k < i + Suc n \<and> k < LENGTH('w) \<and> dr_shift c ! (k - i + 1))" for k
    using c'(6) [of k] t [of k] nth [of k] by (cases "k = i") (auto simp: le_Suc_eq)
  moreover have "drop n (tl (dr_shift c) @ [False]) @ replicate n False = drop (Suc n) (dr_shift c) @ replicate (Suc n) False"
    using Suc.prems(2) by (simp add: drop_Suc replicate_append_same)
  ultimately show ?case
    using y c' s by (intro exI [of _ c'] exI [of _ v]) (simp add: same_ir_def)
qed

subsection \<open>Instructions and data\<close>

lemma changeState_effects:
  "yields (changeState (tap_bus D) 1 1) c () (tap_clock D False True c)"
  "yields (changeState (tap_bus D) 0 1) c () (tap_clock D False False c)"
  "yields (changeState (tap_bus D) 1 2) c () (tap_clock D False True (tap_clock D False True c))"
  "yields (changeState (tap_bus D) 0 2) c () (tap_clock D False False (tap_clock D False False c))"
  "yields (changeState (tap_bus D) 1 5) c () ((tap_clock D False True ^^ 5) c)"
  using yields_changeState [of D 1 1 c] yields_changeState [of D 0 1 c] yields_changeState [of D 1 2 c]
    yields_changeState [of D 0 2 c] yields_changeState [of D 1 5 c]
  by (simp_all add: numeral_2_eq_2 del: changeState.simps)

lemma clock_effects:
  "yields (CLOCK_IN_BIT (tap_bus D) tdi 1) c () (tap_clock D (bit tdi 0) True c)"
  "yields (CLOCK_IN_BIT (tap_bus D) tdi 0) c () (tap_clock D (bit tdi 0) False c)"
  using yields_clock_in [of D tdi 1 c] yields_clock_in [of D tdi 0 c] by simp_all

lemma loadInstr_effect:
  assumes "tap_st c = Run_Test_Idle" "length (ir_shift c) = CMD_LENGTH_BITS"
  shows "\<exists>c'. yields (loadInstr (tap_bus D) instr) c 0 c' \<and> tap_st c' = Run_Test_Idle \<and>
           instruction c' = map (bit instr) [0..<CMD_LENGTH_BITS] \<and>
           length (ir_shift c') = CMD_LENGTH_BITS \<and> same_dr c c'"
proof -
  let ?hi = "tap_clock D False True" and ?lo = "tap_clock D False False"
  let ?c2 = "?lo (?lo (?hi (?hi c)))"
  have c2: "tap_st ?c2 = Shift_IR" "ir_shift ?c2 = ir_shift c" "same_dr c ?c2"
    using assms(1) by (simp_all add: tap_step same_dr_def)
  with assms(2) have "ir_shift ?c2 \<noteq> []" by (auto simp: CMD_LENGTH_BITS_def)
  with clock_in_ir [OF c2(1), of D "ucast instr" 0 "CMD_LENGTH_BITS - 1"]
  obtain c3 where c3: "yields (clock_in_bits (tap_bus D) (ucast instr) 0 (CMD_LENGTH_BITS - 1)) ?c2 () c3"
    "tap_st c3 = Shift_IR" "same_dr ?c2 c3"
    "ir_shift c3 = drop 4 (ir_shift c @ map (bit (ucast instr :: u64)) [0..<4])"
    using c2(2) by (auto simp: CMD_LENGTH_BITS_def simp del: upt_rec_numeral)
  let ?c4 = "tap_clock D (bit instr 4) True c3"
  have b4: "bit (drop_bit (CMD_LENGTH_BITS - 1) instr AND 1) 0 = bit instr 4"
    by (simp add: bit_simps CMD_LENGTH_BITS_def)
  have c4: "tap_st ?c4 = Exit1_IR" "ir_shift ?c4 = map (bit instr) [0..<5]" "same_dr c3 ?c4"
    using c3(2,4) assms(2)
    by (auto simp: tap_step same_dr_def CMD_LENGTH_BITS_def length_Suc_conv eval_nat_numeral bit_simps)
  let ?c6 = "?lo (?hi ?c4)"
  have c6: "tap_st ?c6 = Run_Test_Idle" "instruction ?c6 = ir_shift ?c4" "ir_shift ?c6 = ir_shift ?c4" "same_dr ?c4 ?c6"
    using c4(1) by (simp_all add: tap_step same_dr_def)
  have "yields (loadInstr (tap_bus D) instr) c 0 ?c6"
    unfolding loadInstr_def
    by (rule yields_bind [OF changeState_effects(3)], rule yields_bind [OF changeState_effects(4)],
        rule yields_bind [OF c3(1)], rule yields_bind [OF clock_effects(1) [of D "drop_bit (CMD_LENGTH_BITS - 1) instr AND 1" c3, unfolded b4]],
        rule yields_bind [OF changeState_effects(1)], rule yields_bind [OF changeState_effects(2)],
        rule yields_ret)
  with c6 c4 c3(3) c2(3) show ?thesis
    by (intro exI [of _ ?c6]) (simp add: same_dr_def CMD_LENGTH_BITS_def)
qed

lemma tms_high_resets:
  "tap_st (tap_clock D False True (tap_clock D False True (tap_clock D False True
     (tap_clock D False True (tap_clock D False True c))))) = Test_Logic_Reset"
  by (cases "tap_st c") (simp_all add: tap_step)

text \<open>
  From Run-Test/Idle, \<open>loadInstr\<close> shifts the five instruction bits into the instruction
  register, least significant first, updates it, disturbs no data register and returns to
  Run-Test/Idle; and \<open>GO_TO_RTI\<close> reaches that state from any other.
\<close>

theorem tap_loads_instruction:
  "(tap_st c = Run_Test_Idle \<and> length (ir_shift c) = CMD_LENGTH_BITS \<longrightarrow>
     (\<exists>c'. yields (loadInstr (tap_bus D) instr) c 0 c' \<and> tap_st c' = Run_Test_Idle \<and>
           instruction c' = map (bit instr) [0..<CMD_LENGTH_BITS] \<and>
           length (ir_shift c') = CMD_LENGTH_BITS \<and> same_dr c c')) \<and>
   (\<exists>c'. yields (GO_TO_RTI (tap_bus D)) c () c' \<and> tap_st c' = Run_Test_Idle)"
proof (intro conjI impI)
  show "\<exists>c'. yields (loadInstr (tap_bus D) instr) c 0 c' \<and> tap_st c' = Run_Test_Idle \<and>
           instruction c' = map (bit instr) [0..<CMD_LENGTH_BITS] \<and>
           length (ir_shift c') = CMD_LENGTH_BITS \<and> same_dr c c'"
    if "tap_st c = Run_Test_Idle \<and> length (ir_shift c) = CMD_LENGTH_BITS"
    using loadInstr_effect that by blast
  let ?r = "(tap_clock D False True ^^ 5) c"
  have "tap_st ?r = Test_Logic_Reset"
    using tms_high_resets [of D c] by (simp add: eval_nat_numeral)
  then have "tap_st (tap_clock D False False ?r) = Run_Test_Idle"
    by (simp add: tap_clock_def tap_edge_def)
  moreover have "yields (GO_TO_RTI (tap_bus D)) c () (tap_clock D False False ?r)"
    unfolding GO_TO_RTI_def
    by (rule yields_bind [OF changeState_effects(5) changeState_effects(2)])
  ultimately show "\<exists>c'. yields (GO_TO_RTI (tap_bus D)) c () c' \<and> tap_st c' = Run_Test_Idle"
    by blast
qed

definition tap_idle :: tap_chip where
  "tap_idle = \<lparr>tap_st = Run_Test_Idle, pin_tck = False, pin_tms = False, pin_tdi = False,
     ir_shift = replicate 5 False, instruction = replicate 5 True, dr_shift = [], written = []\<rparr>"

text \<open>A chip whose status register reads 1 and whose other data registers are eight bits wide.\<close>

definition sample_regs :: "bool list \<Rightarrow> bool list" where
  "sample_regs i = (if i = map (bit CMD_STATUS) [0..<5] then [True] else [True, False, True, True, False, False, True, False])"

theorem tap_loads_instruction_witness:
  "\<exists>c'. yields (loadInstr (tap_bus sample_regs) CMD_STATUS) tap_idle 0 c' \<and> tap_st c' = Run_Test_Idle \<and>
        instruction c' = [False, False, False, False, True]"
proof -
  have "tap_st tap_idle = Run_Test_Idle \<and> length (ir_shift tap_idle) = CMD_LENGTH_BITS"
    by (simp add: tap_idle_def CMD_LENGTH_BITS_def)
  moreover have "map (bit CMD_STATUS) [0..<CMD_LENGTH_BITS] = [False, False, False, False, True]"
    by code_simp
  ultimately show ?thesis
    using tap_loads_instruction [of tap_idle sample_regs CMD_STATUS] by auto
qed

text \<open>Selecting and leaving the data register.\<close>

lemma data_read_effect:
  assumes "tap_st c = Run_Test_Idle" "D (instruction c) = r" "0 < len" "len \<le> length r"
  shows "\<exists>c' v. yields (clock_out_bits (tap_bus D) (0 :: 'w::len word) 0 len)
      (tap_clock D False False (tap_clock D False True c)) v c' \<and>
    tap_st c' = Shift_DR \<and> length (dr_shift c') = length r \<and> same_ir c c' \<and> written c' = written c \<and>
    (\<forall>k. bit v k \<longleftrightarrow> k < len \<and> k < LENGTH('w) \<and> r ! k)"
proof -
  let ?hi = "tap_clock D False True" and ?lo = "tap_clock D False False"
  let ?c2 = "?lo (?hi c)" and ?c3 = "?lo (?lo (?hi c))"
  have ne: "r \<noteq> []" using assms(3,4) by auto
  have c3: "tap_st ?c3 = Shift_DR" "dr_shift ?c3 = r" "tap_pin ?c3 = hd r" "same_ir c ?c3" "written ?c3 = written c"
    using assms(1,2) by (simp_all add: tap_step same_ir_def tap_pin_def)
  obtain n where n: "len = Suc n" using assms(3) by (cases len) auto
  let ?t = "0 OR push_bit 0 (ucast (of_bool (tap_pin ?c3) :: u32)) :: 'w word"
  obtain c' v where c': "yields (clock_out_bits (tap_bus D) ?t (0 + 1) n) ?c3 v c'" "tap_st c' = Shift_DR"
    "dr_shift c' = drop n (dr_shift ?c3) @ replicate n False" "written c' = written ?c3" "same_ir ?c3 c'"
    "\<And>k. bit v k \<longleftrightarrow> bit ?t k \<or> (0 + 1 \<le> k \<and> k < 0 + 1 + n \<and> k < LENGTH('w) \<and> dr_shift ?c3 ! (k - (0 + 1) + 1))"
    using clock_out_dr [OF c3(1), of n D ?t "0 + 1"] c3(2) n assms(4) by auto
  have "yields (CLOCK_OUT_BIT (tap_bus D) 0) ?c2 (of_bool (tap_pin ?c3)) ?c3"
    using yields_clock_out [of ?c3 D 0 ?c2] by simp
  then have y: "yields (clock_out_bits (tap_bus D) 0 0 len) ?c2 v c'"
    unfolding n clock_out_bits.simps by (rule yields_bind) (rule c'(1))
  have "bit v k \<longleftrightarrow> k < len \<and> k < LENGTH('w) \<and> r ! k" for k
    using c'(6) [of k] ne by (cases k) (auto simp: n c3(2,3) hd_conv_nth)
  with y c' c3 assms(4) n show ?thesis
    by (intro exI [of _ c'] exI [of _ v]) (simp add: same_ir_def)
qed

lemma leave_shift_dr:
  assumes "tap_st c = Shift_DR"
  shows "tap_st (tap_clock D False False (tap_clock D False True (tap_clock D b True c))) = Run_Test_Idle"
    "written (tap_clock D False False (tap_clock D False True (tap_clock D b True c))) = shift_in b (dr_shift c)"
    "same_ir c (tap_clock D False False (tap_clock D False True (tap_clock D b True c)))"
  using assms by (simp_all add: tap_step same_ir_def)

text \<open>
  \<open>get_status\<close> returns the bit the status register captures and leaves the port idle again:
  the instruction is the one selected, and exactly its first bit is read.
\<close>

theorem tap_status_read:
  assumes "tap_st c = Run_Test_Idle" "length (ir_shift c) = CMD_LENGTH_BITS"
    "D (map (bit CMD_STATUS) [0..<CMD_LENGTH_BITS]) = [s]"
  shows "\<exists>c'. yields (get_status (tap_bus D)) c (of_bool s) c' \<and> tap_st c' = Run_Test_Idle"
proof -
  obtain c1 where c1: "yields (loadInstr (tap_bus D) CMD_STATUS) c 0 c1" "tap_st c1 = Run_Test_Idle"
    "D (instruction c1) = [s]"
    using loadInstr_effect [OF assms(1,2)] assms(3) by metis
  obtain c2 and v :: u32 where c2: "yields (clock_out_bits (tap_bus D) 0 0 1)
      (tap_clock D False False (tap_clock D False True c1)) v c2" "tap_st c2 = Shift_DR"
    "\<And>k. bit v k \<longleftrightarrow> k < 1 \<and> k < LENGTH(32) \<and> [s] ! k"
    using data_read_effect [where 'w = 32 and D = D and len = 1, OF c1(2,3)] by auto
  have v: "v = of_bool s"
    by (rule bit_word_eqI) (auto simp: c2(3) bit_1_iff)
  have "yields (getData (tap_bus D) 1 False) c1 v
      (tap_clock D False False (tap_clock D False True (tap_clock D False True c2)))"
    unfolding getData_def if_False
    by (rule yields_bind [OF changeState_effects(1)], rule yields_bind [OF changeState_effects(2)],
        rule yields_bind [OF c2(1)], rule yields_bind,
        rule yields_bind [OF changeState_effects(1)], rule yields_bind [OF changeState_effects(1)],
        rule changeState_effects(2), rule yields_ret)
  with c1(1) have "yields (get_status (tap_bus D)) c v
      (tap_clock D False False (tap_clock D False True (tap_clock D False True c2)))"
    unfolding get_status_def by (rule yields_bind)
  with leave_shift_dr(1) [OF c2(2)] v show ?thesis by blast
qed

theorem tap_status_read_witness:
  "\<exists>c'. yields (get_status (tap_bus sample_regs)) tap_idle 1 c' \<and> tap_st c' = Run_Test_Idle"
proof -
  have "tap_st tap_idle = Run_Test_Idle" "length (ir_shift tap_idle) = CMD_LENGTH_BITS"
    "sample_regs (map (bit CMD_STATUS) [0..<CMD_LENGTH_BITS]) = [True]"
    by (simp_all add: tap_idle_def CMD_LENGTH_BITS_def sample_regs_def del: upt_rec_numeral)
  from tap_status_read [where D = sample_regs, OF this] show ?thesis by simp
qed

text \<open>
  Reading a data register of at most 64 bits with \<open>getData64\<close> and staying in the shift state, then
  writing \<open>data\<close> with \<open>loadData\<close>, returns the bits the register captured, updates the register
  with exactly the bits of \<open>data\<close>, and leaves the port idle.
\<close>

theorem tap_exchange:
  assumes "tap_st c = Run_Test_Idle" "D (instruction c) = r" "0 < length r" "length r \<le> 64"
  shows "\<exists>c1 c2 v. yields (getData64 (tap_bus D) (length r) True) c v c1 \<and>
    yields (loadData (tap_bus D) data (length r) False) c1 0 c2 \<and>
    (\<forall>k. bit v k \<longleftrightarrow> k < length r \<and> r ! k) \<and>
    written c2 = map (bit data) [0..<length r] \<and> tap_st c2 = Run_Test_Idle"
proof -
  let ?n = "length r"
  obtain c1 and v :: u64 where c1: "yields (clock_out_bits (tap_bus D) 0 0 ?n)
      (tap_clock D False False (tap_clock D False True c)) v c1" "tap_st c1 = Shift_DR"
    "length (dr_shift c1) = ?n" "\<And>k. bit v k \<longleftrightarrow> k < ?n \<and> k < LENGTH(64) \<and> r ! k"
    using data_read_effect [where 'w = 64 and D = D and len = ?n, OF assms(1,2,3)] by auto
  have g: "yields (getData64 (tap_bus D) ?n True) c v c1"
    unfolding getData64_def if_True
    by (rule yields_bind [OF changeState_effects(1)], rule yields_bind [OF changeState_effects(2)],
        rule yields_bind [OF c1(1)], rule yields_bind, rule yields_ret, rule yields_ret)
  have ne: "dr_shift c1 \<noteq> []" using c1(3) assms(3) by auto
  obtain c2 where c2: "yields (clock_in_bits (tap_bus D) data 0 (?n - 1)) c1 () c2" "tap_st c2 = Shift_DR"
    "dr_shift c2 = drop (?n - 1) (dr_shift c1 @ map (bit data) [0..<0 + (?n - 1)])"
    using clock_in_dr [OF c1(2) ne] by blast
  let ?b = "ucast (drop_bit (?n - 1) data AND 1 :: u64) :: u32"
  let ?c3 = "tap_clock D False False (tap_clock D False True (tap_clock D (bit data (?n - 1)) True c2))"
  have l: "yields (loadData (tap_bus D) data ?n False) c1 0 ?c3"
    unfolding loadData_def if_False
    by (rule yields_bind [OF c2(1)], rule yields_bind,
        rule yields_bind [OF clock_effects(1) [of D ?b c2, unfolded bit0_drop]],
        rule yields_bind [OF changeState_effects(1)], rule changeState_effects(2), rule yields_ret)
  obtain m where m: "?n = Suc m" using assms(3) by (cases ?n) auto
  then have "drop m (dr_shift c1) = [dr_shift c1 ! m]"
    using c1(3) Cons_nth_drop_Suc [of m "dr_shift c1"] by simp
  then have w: "written ?c3 = map (bit data) [0..<?n]"
    using c2(3) c1(3) m leave_shift_dr(2) [OF c2(2), of D "bit data m"] by (simp add: shift_in_def)
  have i: "tap_st ?c3 = Run_Test_Idle"
    by (rule leave_shift_dr(1) [OF c2(2)])
  have b: "bit v k \<longleftrightarrow> k < ?n \<and> r ! k" for k
  proof -
    have "k < ?n \<Longrightarrow> k < LENGTH(64)" using assms(4) by simp
    then show ?thesis unfolding c1(4) by blast
  qed
  show ?thesis
    by (rule exI [of _ c1], rule exI [of _ ?c3], rule exI [of _ v], intro conjI allI, rule g, rule l, rule b, rule w, rule i)
qed

theorem tap_exchange_witness:
  "\<exists>c1 c2. yields (getData64 (tap_bus sample_regs) 8 True) tap_idle 0x4d c1 \<and>
           yields (loadData (tap_bus sample_regs) 0xa1 8 False) c1 0 c2 \<and>
           written c2 = [True, False, False, False, False, True, False, True]"
proof -
  let ?r = "[True, False, True, True, False, False, True, False]"
  have r: "sample_regs (instruction tap_idle) = ?r"
    by code_simp
  obtain c1 c2 v where v: "yields (getData64 (tap_bus sample_regs) (length ?r) True) tap_idle v c1"
    "yields (loadData (tap_bus sample_regs) 0xa1 (length ?r) False) c1 0 c2"
    "\<And>k. bit v k \<longleftrightarrow> k < length ?r \<and> ?r ! k" "written c2 = map (bit (0xa1 :: u64)) [0..<length ?r]"
    using tap_exchange [where D = sample_regs and data = "0xa1", OF _ r] by (auto simp: tap_idle_def)
  have "bit v k \<longleftrightarrow> bit (0x4d :: u64) k" for k
  proof (cases "k < 8")
    case True
    then have "k \<in> {0, 1, 2, 3, 4, 5, 6, 7}" by auto
    then show ?thesis unfolding v(3) by (auto simp: bit_simps)
  next
    case False
    have "(0x4d :: u64) = 0x4d AND mask 8" by (simp add: mask_eq_exp_minus_1)
    then have "\<not> bit (0x4d :: u64) k" using False by (metis bit_and_iff bit_mask_iff)
    with False show ?thesis unfolding v(3) by simp
  qed
  then have "v = 0x4d" by (rule bit_word_eqI)
  moreover have "map (bit (0xa1 :: u64)) [0..<8] = [True, False, False, False, False, True, False, True]"
    by code_simp
  moreover have "length ?r = 8" by simp
  ultimately show ?thesis using v(1,2,4) by metis
qed

end
