(* ===== verification/Miu.thy ===== *)
theory Miu
  imports Rom
begin

text \<open>
  Access to the card's memory through the memory controllers' test agents
  (\<open>unm_nic_pci_mem_read_2M\<close> and \<open>unm_nic_pci_mem_write_2M\<close> of \<open>driver/unm_nic_hw.c\<close>): any 1, 2, 4 or 8
  bytes at any alignment, over an agent that moves aligned 64-bit words. Addresses outside the
  agents' ranges go to the direct window path, which is an argument here. Sizes are 1, 2, 4 or 8,
  as all callers pass them: with others the C code overruns its two-word buffers.
\<close>

subsection \<open>Addresses\<close>

definition UNM_CRB_QDR_NET :: u64 where "UNM_CRB_QDR_NET = UNM_PCI_CRB_WINDOW 29"
definition MIU_TEST_AGT_CTRL :: u64 where "MIU_TEST_AGT_CTRL = 0x090"
definition MIU_TEST_AGT_ADDR_LO :: u64 where "MIU_TEST_AGT_ADDR_LO = 0x094"
definition MIU_TEST_AGT_ADDR_HI :: u64 where "MIU_TEST_AGT_ADDR_HI = 0x098"
definition MIU_TEST_AGT_WRDATA_LO :: u64 where "MIU_TEST_AGT_WRDATA_LO = 0x0a0"
definition MIU_TEST_AGT_WRDATA_HI :: u64 where "MIU_TEST_AGT_WRDATA_HI = 0x0a4"
definition MIU_TEST_AGT_RDDATA :: "nat \<Rightarrow> u64" where "MIU_TEST_AGT_RDDATA i = 0x0a8 + 4 * of_nat i"
definition MIU_TA_CTL_START :: u32 where "MIU_TA_CTL_START = 1"
definition MIU_TA_CTL_ENABLE :: u32 where "MIU_TA_CTL_ENABLE = 2"
definition MIU_TA_CTL_WRITE :: u32 where "MIU_TA_CTL_WRITE = 4"
definition MIU_TA_CTL_BUSY :: u32 where "MIU_TA_CTL_BUSY = 8"
definition MAX_CTL_CHECK :: nat where "MAX_CTL_CHECK = 1000"
definition UNM_ADDR_DDR_NET_MAX :: u64 where "UNM_ADDR_DDR_NET_MAX = 0x0fffffff"
definition UNM_ADDR_QDR_NET :: u64 where "UNM_ADDR_QDR_NET = 0x300000000"
definition NX_P3_ADDR_QDR_NET_MAX :: u64 where "NX_P3_ADDR_QDR_NET_MAX = 0x303ffffff"

lemmas miu_regs = MIU_TEST_AGT_CTRL_def MIU_TEST_AGT_ADDR_LO_def MIU_TEST_AGT_ADDR_HI_def
  MIU_TEST_AGT_WRDATA_LO_def MIU_TEST_AGT_WRDATA_HI_def MIU_TEST_AGT_RDDATA_def

lemmas miu_ctl = MIU_TA_CTL_START_def MIU_TA_CTL_ENABLE_def MIU_TA_CTL_WRITE_def MIU_TA_CTL_BUSY_def

subsection \<open>The driver's side\<close>

definition unm_nic_pci_mem_bound_check :: "u64 \<Rightarrow> nat \<Rightarrow> bool" where
  "unm_nic_pci_mem_bound_check addr sz \<longleftrightarrow>
     addr \<le> UNM_ADDR_DDR_NET_MAX \<and> addr + of_nat sz - 1 \<le> UNM_ADDR_DDR_NET_MAX \<and> sz \<in> {1, 2, 4, 8}"

definition in_qdr :: "u64 \<Rightarrow> bool" where
  "in_qdr off \<longleftrightarrow> UNM_ADDR_QDR_NET \<le> off \<and> off \<le> NX_P3_ADDR_QDR_NET_MAX"

text \<open>The polling loop: whether the agent was found idle within \<open>n\<close> reads.\<close>

fun agent_poll :: "'h bus \<Rightarrow> u64 \<Rightarrow> nat \<Rightarrow> ('h, bool) io" where
  "agent_poll B mem_crb 0 = ret False"
| "agent_poll B mem_crb (Suc n) = do {
     temp \<leftarrow> NXRD32 B (mem_crb + MIU_TEST_AGT_CTRL);
     if temp AND MIU_TA_CTL_BUSY = 0 then ret True else agent_poll B mem_crb n }"

text \<open>One turn of the write loop: the word at the (truncated) address \<open>temp\<close>.\<close>

definition agent_write :: "'h bus \<Rightarrow> u64 \<Rightarrow> u32 \<Rightarrow> u64 \<Rightarrow> ('h, bool) io" where
  "agent_write B mem_crb temp word = do {
     NXWR32 B (mem_crb + MIU_TEST_AGT_ADDR_LO) temp;
     NXWR32 B (mem_crb + MIU_TEST_AGT_ADDR_HI) 0;
     NXWR32 B (mem_crb + MIU_TEST_AGT_WRDATA_LO) (ucast word);
     NXWR32 B (mem_crb + MIU_TEST_AGT_WRDATA_HI) (ucast (drop_bit 32 word));
     NXWR32 B (mem_crb + MIU_TEST_AGT_CTRL) (MIU_TA_CTL_ENABLE OR MIU_TA_CTL_WRITE);
     NXWR32 B (mem_crb + MIU_TEST_AGT_CTRL) (MIU_TA_CTL_START OR MIU_TA_CTL_ENABLE OR MIU_TA_CTL_WRITE);
     agent_poll B mem_crb MAX_CTL_CHECK }"

text \<open>The halves \<open>k\<close> to \<open>k + n - 1\<close> of the word read, added to \<open>w\<close>.\<close>

fun read_halves :: "'h bus \<Rightarrow> u64 \<Rightarrow> nat \<Rightarrow> nat \<Rightarrow> u64 \<Rightarrow> ('h, u64) io" where
  "read_halves B mem_crb k 0 w = ret w"
| "read_halves B mem_crb k (Suc n) w = do {
     temp \<leftarrow> NXRD32 B (mem_crb + MIU_TEST_AGT_RDDATA k);
     read_halves B mem_crb (k + 1) n (w OR push_bit (32 * k) (ucast temp)) }"

text \<open>One turn of the read loop: bytes \<open>off0\<close> to \<open>off0 + sz - 1\<close> of a word, at least.\<close>

definition agent_read :: "'h bus \<Rightarrow> u64 \<Rightarrow> u32 \<Rightarrow> nat \<Rightarrow> nat \<Rightarrow> ('h, u64 option) io" where
  "agent_read B mem_crb temp off0 sz = do {
     NXWR32 B (mem_crb + MIU_TEST_AGT_ADDR_LO) temp;
     NXWR32 B (mem_crb + MIU_TEST_AGT_ADDR_HI) 0;
     NXWR32 B (mem_crb + MIU_TEST_AGT_CTRL) MIU_TA_CTL_ENABLE;
     NXWR32 B (mem_crb + MIU_TEST_AGT_CTRL) (MIU_TA_CTL_START OR MIU_TA_CTL_ENABLE);
     idle \<leftarrow> agent_poll B mem_crb MAX_CTL_CHECK;
     if \<not> idle then ret None
     else (let start = off0 div 4; stop = (off0 + sz - 1) div 4 in do {
       w \<leftarrow> read_halves B mem_crb start (stop + 1 - start) 0;
       ret (Some w) }) }"

text \<open>The layout of an access: the aligned address, the offset in its word, the bytes in the first
  and in the second word. The mask \<open>0xfffffff8\<close> is 32 bits wide in C and clears the upper half of
  the address.\<close>

definition acc_off8 :: "u64 \<Rightarrow> u64" where "acc_off8 off = off AND 0xfffffff8"
definition acc_off0 :: "u64 \<Rightarrow> nat" where "acc_off0 off = unat (off AND 7)"
definition acc_sz0 :: "u64 \<Rightarrow> nat \<Rightarrow> nat" where
  "acc_sz0 off sz = (if sz < 8 - acc_off0 off then sz else 8 - acc_off0 off)"
definition acc_sz1 :: "u64 \<Rightarrow> nat \<Rightarrow> nat" where "acc_sz1 off sz = sz - acc_sz0 off sz"
definition acc_loop :: "u64 \<Rightarrow> nat \<Rightarrow> nat" where "acc_loop off sz = (acc_off0 off + sz - 1) div 8 + 1"

definition read_value :: "u64 \<Rightarrow> nat \<Rightarrow> u64 \<Rightarrow> u64 \<Rightarrow> u64" where
  "read_value off sz word0 word1 =
     (let sz0 = acc_sz0 off sz; sz1 = acc_sz1 off sz in
      if sz0 = 8 then word0
      else (drop_bit (8 * acc_off0 off) word0 AND NOT (push_bit (8 * sz0) (NOT 0))) OR
           push_bit (8 * sz0) (word1 AND NOT (push_bit (8 * sz1) (NOT 0))))"

text \<open>The final cast to an integer of \<open>sz\<close> bytes.\<close>

definition cut :: "nat \<Rightarrow> u64 \<Rightarrow> u64" where
  "cut sz v = (if sz = 1 then v AND 0xff else if sz = 2 then v AND 0xffff
                 else if sz = 4 then v AND 0xffffffff else v)"

definition mem_read_agent :: "'h bus \<Rightarrow> u64 \<Rightarrow> u64 \<Rightarrow> nat \<Rightarrow> ('h, u64 option) io" where
  "mem_read_agent B mem_crb off sz = do {
     r0 \<leftarrow> agent_read B mem_crb (ucast (acc_off8 off)) (acc_off0 off) (acc_sz0 off sz);
     (case r0 of
        None \<Rightarrow> ret None
      | Some word0 \<Rightarrow>
          if acc_loop off sz < 2 then ret (Some (cut sz (read_value off sz word0 0)))
          else do {
            r1 \<leftarrow> agent_read B mem_crb (ucast (acc_off8 off + 8)) 0 (acc_sz1 off sz);
            ret (case r1 of
                   None \<Rightarrow> None
                 | Some word1 \<Rightarrow> Some (cut sz (read_value off sz word0 word1))) }) }"

definition unm_nic_pci_mem_read_2M ::
    "'h bus \<Rightarrow> (u64 \<Rightarrow> nat \<Rightarrow> ('h, u64 option) io) \<Rightarrow> u64 \<Rightarrow> nat \<Rightarrow> ('h, u64 option) io" where
  "unm_nic_pci_mem_read_2M B direct off sz =
     (if in_qdr off then mem_read_agent B UNM_CRB_QDR_NET off sz
      else if \<not> unm_nic_pci_mem_bound_check off sz then direct off sz
      else mem_read_agent B UNM_CRB_DDR_NET off sz)"

text \<open>The words of an access before it is merged in: an aligned 8-byte write needs none, others are
  read through the driver's own read function at the truncated address.\<close>

definition old_words ::
    "'h bus \<Rightarrow> (u64 \<Rightarrow> nat \<Rightarrow> ('h, u64 option) io) \<Rightarrow> u64 \<Rightarrow> nat \<Rightarrow> ('h, (u64 \<times> u64) option) io" where
  "old_words B direct off sz =
     (if sz \<noteq> 8 \<or> acc_off0 off \<noteq> 0 then do {
        r0 \<leftarrow> unm_nic_pci_mem_read_2M B direct (acc_off8 off) 8;
        (case r0 of
           None \<Rightarrow> ret None
         | Some word0 \<Rightarrow>
             if acc_loop off sz < 2 then ret (Some (word0, 0))
             else do {
               r1 \<leftarrow> unm_nic_pci_mem_read_2M B direct (acc_off8 off + 8) 8;
               ret (case r1 of None \<Rightarrow> None | Some word1 \<Rightarrow> Some (word0, word1)) }) }
      else ret (Some (0, 0)))"

definition merge0 :: "u64 \<Rightarrow> nat \<Rightarrow> u64 \<Rightarrow> u64 \<Rightarrow> u64" where
  "merge0 off sz tmpw word0 =
     (word0 AND NOT (push_bit (8 * acc_off0 off) (NOT (push_bit (8 * acc_sz0 off sz) (NOT 0))))) OR
     push_bit (8 * acc_off0 off) tmpw"

definition merge1 :: "u64 \<Rightarrow> nat \<Rightarrow> u64 \<Rightarrow> u64 \<Rightarrow> u64" where
  "merge1 off sz tmpw word1 =
     (word1 AND NOT (push_bit (8 * acc_sz1 off sz) (NOT 0))) OR drop_bit (8 * acc_sz0 off sz) tmpw"

definition mem_write_agent ::
    "'h bus \<Rightarrow> (u64 \<Rightarrow> nat \<Rightarrow> ('h, u64 option) io) \<Rightarrow> u64 \<Rightarrow> u64 \<Rightarrow> u64 \<Rightarrow> nat \<Rightarrow> ('h, int) io" where
  "mem_write_agent B direct mem_crb off data sz = do {
     old \<leftarrow> old_words B direct off sz;
     (case old of
        None \<Rightarrow> ret (- 1)
      | Some (word0, word1) \<Rightarrow> (let tmpw = cut sz data in do {
          ok0 \<leftarrow> agent_write B mem_crb (ucast (acc_off8 off)) (merge0 off sz tmpw word0);
          if \<not> ok0 then ret (- 1)
          else if acc_loop off sz < 2 then ret 0
          else do {
            ok1 \<leftarrow> agent_write B mem_crb (ucast (acc_off8 off + 8)) (merge1 off sz tmpw word1);
            ret (if ok1 then 0 else - 1) } })) }"

definition unm_nic_pci_mem_write_2M ::
    "'h bus \<Rightarrow> (u64 \<Rightarrow> nat \<Rightarrow> ('h, u64 option) io) \<Rightarrow> (u64 \<Rightarrow> u64 \<Rightarrow> nat \<Rightarrow> ('h, int) io) \<Rightarrow>
     u64 \<Rightarrow> u64 \<Rightarrow> nat \<Rightarrow> ('h, int) io" where
  "unm_nic_pci_mem_write_2M B direct_rd direct_wr off data sz =
     (if in_qdr off then mem_write_agent B direct_rd UNM_CRB_QDR_NET off data sz
      else if \<not> unm_nic_pci_mem_bound_check off sz then direct_wr off data sz
      else mem_write_agent B direct_rd UNM_CRB_DDR_NET off data sz)"

subsection \<open>The card's side: memory behind the two agents\<close>

text \<open>\<open>dram base a\<close> is the 64-bit word at the aligned address \<open>a\<close> behind the agent at \<open>base\<close>. An
  agent acts when START and ENABLE are written to its control register, and is never busy.\<close>

record miu =
  mregs :: "u64 \<Rightarrow> u32"
  dram :: "u64 \<Rightarrow> u32 \<Rightarrow> u64"

definition agent_addr :: "u64 \<Rightarrow> miu \<Rightarrow> u32" where
  "agent_addr base h = mregs h (base + MIU_TEST_AGT_ADDR_LO) AND 0xfffffff8"

definition agent_ctrl :: "u64 \<Rightarrow> u32 \<Rightarrow> miu \<Rightarrow> miu" where
  "agent_ctrl base v h =
     (let a = agent_addr base h in
      if v = 7 then
        h\<lparr>dram := (dram h)(base := (dram h base)(a :=
          push_bit 32 (ucast (mregs h (base + MIU_TEST_AGT_WRDATA_HI))) OR ucast (mregs h (base + MIU_TEST_AGT_WRDATA_LO))))\<rparr>
      else if v = 3 then
        h\<lparr>mregs := (mregs h)(base + MIU_TEST_AGT_RDDATA 0 := ucast (dram h base a),
                             base + MIU_TEST_AGT_RDDATA 1 := ucast (drop_bit 32 (dram h base a)))\<rparr>
      else h)"

definition miu_bus :: "miu bus" where
  "miu_bus =
     \<lparr>bus_rd = \<lambda>a h. (mregs h a, h),
      bus_wr = \<lambda>a v h. (let h1 = h\<lparr>mregs := (mregs h)(a := v)\<rparr> in
        if a = UNM_CRB_DDR_NET + MIU_TEST_AGT_CTRL then agent_ctrl UNM_CRB_DDR_NET v h1
        else if a = UNM_CRB_QDR_NET + MIU_TEST_AGT_CTRL then agent_ctrl UNM_CRB_QDR_NET v h1
        else h1)\<rparr>"

lemma miu_wr_plain:
  "base \<in> {UNM_CRB_DDR_NET, UNM_CRB_QDR_NET} \<Longrightarrow>
   off \<in> {MIU_TEST_AGT_ADDR_LO, MIU_TEST_AGT_ADDR_HI, MIU_TEST_AGT_WRDATA_LO, MIU_TEST_AGT_WRDATA_HI} \<Longrightarrow>
   bus_wr miu_bus (base + off) v h = h\<lparr>mregs := (mregs h)(base + off := v)\<rparr>"
  by (auto simp: miu_bus_def miu_regs UNM_CRB_DDR_NET_def UNM_CRB_QDR_NET_def UNM_PCI_CRB_WINDOW_def)

lemma miu_wr_ctrl:
  "base \<in> {UNM_CRB_DDR_NET, UNM_CRB_QDR_NET} \<Longrightarrow>
   bus_wr miu_bus (base + MIU_TEST_AGT_CTRL) v h =
     agent_ctrl base v (h\<lparr>mregs := (mregs h)(base + MIU_TEST_AGT_CTRL := v)\<rparr>)"
  by (auto simp: miu_bus_def miu_regs UNM_CRB_DDR_NET_def UNM_CRB_QDR_NET_def UNM_PCI_CRB_WINDOW_def Let_def)

lemma miu_rd: "bus_rd miu_bus a h = (mregs h a, h)"
  by (simp add: miu_bus_def)

lemma agent_poll_idle:
  assumes "mregs h (base + MIU_TEST_AGT_CTRL) AND MIU_TA_CTL_BUSY = 0"
  shows "yields (agent_poll miu_bus base MAX_CTL_CHECK) h True h"
proof -
  have "yields (agent_poll miu_bus base (Suc n)) h True h" for n
    unfolding agent_poll.simps
    by (rule yields_bind [OF yields_rd [OF miu_rd]]) (simp add: assms yields_ret)
  from this [of 999] show ?thesis by (simp add: MAX_CTL_CHECK_def)
qed

lemma miu_regs_distinct:
  "MIU_TEST_AGT_ADDR_LO \<noteq> MIU_TEST_AGT_CTRL" "MIU_TEST_AGT_WRDATA_LO \<noteq> MIU_TEST_AGT_CTRL"
  "MIU_TEST_AGT_WRDATA_HI \<noteq> MIU_TEST_AGT_CTRL" "MIU_TEST_AGT_ADDR_LO \<noteq> MIU_TEST_AGT_ADDR_HI"
  "MIU_TEST_AGT_ADDR_LO \<noteq> MIU_TEST_AGT_WRDATA_LO" "MIU_TEST_AGT_ADDR_LO \<noteq> MIU_TEST_AGT_WRDATA_HI"
  "MIU_TEST_AGT_WRDATA_LO \<noteq> MIU_TEST_AGT_WRDATA_HI"
  "MIU_TEST_AGT_RDDATA 0 \<noteq> MIU_TEST_AGT_CTRL" "MIU_TEST_AGT_RDDATA 1 \<noteq> MIU_TEST_AGT_CTRL"
  "MIU_TEST_AGT_RDDATA 0 \<noteq> MIU_TEST_AGT_RDDATA 1"
  "MIU_TEST_AGT_RDDATA 0 \<noteq> MIU_TEST_AGT_RDDATA (Suc 0)" "MIU_TEST_AGT_RDDATA (Suc 0) \<noteq> MIU_TEST_AGT_CTRL"
  by (simp_all add: miu_regs)

lemmas miu_ne = miu_regs_distinct miu_regs_distinct [symmetric]

lemma agent_ctrl_other:
  "v \<noteq> 7 \<Longrightarrow> v \<noteq> 3 \<Longrightarrow> agent_ctrl base v h = h"
  by (simp add: agent_ctrl_def Let_def)

lemma word_halves: "push_bit 32 (ucast (ucast (drop_bit 32 w) :: u32)) OR ucast (ucast w :: u32) = w" for w :: u64
  by (rule bit_word_eqI) (auto simp: bit_simps)

lemma agent_write_effect:
  assumes "base \<in> {UNM_CRB_DDR_NET, UNM_CRB_QDR_NET}"
  shows "\<exists>h'. yields (agent_write miu_bus base t w) h True h' \<and>
    dram h' = (dram h)(base := (dram h base)(t AND 0xfffffff8 := w))"
proof -
  define wr where "wr = (\<lambda>off v h. bus_wr miu_bus (base + off) v h)"
  note plain = miu_wr_plain [OF assms] and ctrl = miu_wr_ctrl [OF assms]
  let ?h4 = "wr MIU_TEST_AGT_WRDATA_HI (ucast (drop_bit 32 w)) (wr MIU_TEST_AGT_WRDATA_LO (ucast w)
    (wr MIU_TEST_AGT_ADDR_HI 0 (wr MIU_TEST_AGT_ADDR_LO t h)))"
  let ?h6 = "wr MIU_TEST_AGT_CTRL 7 (wr MIU_TEST_AGT_CTRL 6 ?h4)"
  have h4: "mregs ?h4 (base + MIU_TEST_AGT_ADDR_LO) = t" "dram ?h4 = dram h"
    "mregs ?h4 (base + MIU_TEST_AGT_WRDATA_LO) = ucast w"
    "mregs ?h4 (base + MIU_TEST_AGT_WRDATA_HI) = ucast (drop_bit 32 w)"
    by (simp_all add: wr_def plain miu_ne)
  have h6s: "dram (wr MIU_TEST_AGT_CTRL 7 (wr MIU_TEST_AGT_CTRL 6 g)) = (dram h)(base := (dram h base)(t AND 0xfffffff8 := w))"
      "mregs (wr MIU_TEST_AGT_CTRL 7 (wr MIU_TEST_AGT_CTRL 6 g)) (base + MIU_TEST_AGT_CTRL) = 7"
    if "mregs g (base + MIU_TEST_AGT_ADDR_LO) = t" "dram g = dram h"
      "mregs g (base + MIU_TEST_AGT_WRDATA_LO) = ucast w"
      "mregs g (base + MIU_TEST_AGT_WRDATA_HI) = ucast (drop_bit 32 w)" for g
    using that by (simp_all add: wr_def ctrl agent_ctrl_def Let_def agent_addr_def miu_ne word_halves)
  have h6: "dram ?h6 = (dram h)(base := (dram h base)(t AND 0xfffffff8 := w))"
    "mregs ?h6 (base + MIU_TEST_AGT_CTRL) = 7"
    unfolding h6s [OF h4] by simp_all
  have idle: "yields (agent_poll miu_bus base MAX_CTL_CHECK) ?h6 True ?h6"
    by (rule agent_poll_idle) (simp add: h6 miu_ctl)
  have v: "MIU_TA_CTL_ENABLE OR MIU_TA_CTL_WRITE = 6"
    "MIU_TA_CTL_START OR 6 = 7"
    by (simp_all add: miu_ctl)
  have "yields (agent_write miu_bus base t w) h True ?h6"
    unfolding agent_write_def v using idle unfolding wr_def
    by (intro yields_bind [OF yields_wr])
  with h6(1) show ?thesis by blast
qed

lemma agent_read_effect:
  assumes "base \<in> {UNM_CRB_DDR_NET, UNM_CRB_QDR_NET}" "0 < n" "off0 + n \<le> 8"
  shows "\<exists>h' w. yields (agent_read miu_bus base t off0 n) h (Some w) h' \<and> dram h' = dram h \<and>
    (\<forall>k. 8 * off0 \<le> k \<and> k < 8 * (off0 + n) \<longrightarrow> bit w k = bit (dram h base (t AND 0xfffffff8)) k)"
proof -
  define wr where "wr = (\<lambda>off v h. bus_wr miu_bus (base + off) v h)"
  note plain = miu_wr_plain [OF assms(1)] and ctrl = miu_wr_ctrl [OF assms(1)]
  let ?h2 = "wr MIU_TEST_AGT_ADDR_HI 0 (wr MIU_TEST_AGT_ADDR_LO t h)"
  let ?h4 = "wr MIU_TEST_AGT_CTRL 3 (wr MIU_TEST_AGT_CTRL 2 ?h2)"
  let ?m = "dram h base (t AND 0xfffffff8)"
  have h2: "mregs ?h2 (base + MIU_TEST_AGT_ADDR_LO) = t" "dram ?h2 = dram h"
    by (simp_all add: wr_def plain miu_ne)
  have h4s: "dram (wr MIU_TEST_AGT_CTRL 3 (wr MIU_TEST_AGT_CTRL 2 g)) = dram h"
      "mregs (wr MIU_TEST_AGT_CTRL 3 (wr MIU_TEST_AGT_CTRL 2 g)) (base + MIU_TEST_AGT_CTRL) = 3"
      "mregs (wr MIU_TEST_AGT_CTRL 3 (wr MIU_TEST_AGT_CTRL 2 g)) (base + MIU_TEST_AGT_RDDATA 0) = ucast ?m"
      "mregs (wr MIU_TEST_AGT_CTRL 3 (wr MIU_TEST_AGT_CTRL 2 g)) (base + MIU_TEST_AGT_RDDATA 1) = ucast (drop_bit 32 ?m)"
    if "mregs g (base + MIU_TEST_AGT_ADDR_LO) = t" "dram g = dram h" for g
    using that by (simp_all add: wr_def ctrl agent_ctrl_def Let_def agent_addr_def miu_ne)
  note h4 = h4s [OF h2]
  have v: "MIU_TA_CTL_ENABLE = 2" "MIU_TA_CTL_START OR 2 = 3"
    by (simp_all add: miu_ctl)
  have idle: "yields (agent_poll miu_bus base MAX_CTL_CHECK) ?h4 True ?h4"
    by (rule agent_poll_idle) (simp add: h4 miu_ctl)
  let ?start = "off0 div 4" and ?stop = "(off0 + n - 1) div 4"
  have half: "yields (NXRD32 miu_bus (base + MIU_TEST_AGT_RDDATA 0)) ?h4 (ucast ?m) ?h4"
     "yields (NXRD32 miu_bus (base + MIU_TEST_AGT_RDDATA 1)) ?h4 (ucast (drop_bit 32 ?m)) ?h4"
    by (rule yields_rd, simp only: miu_rd h4)+
  have halves: "\<exists>w. yields (read_halves miu_bus base ?start (?stop + 1 - ?start) 0) ?h4 w ?h4 \<and>
      (\<forall>k. 8 * off0 \<le> k \<and> k < 8 * (off0 + n) \<longrightarrow> bit w k = bit ?m k)"
  proof -
    have "?start = 0 \<and> ?stop = 0 \<or> ?start = 0 \<and> ?stop = 1 \<or> ?start = 1 \<and> ?stop = 1"
      using assms(2,3) by auto
    then show ?thesis
    proof (elim disjE conjE, goal_cases low both high)
      case low
      have "yields (read_halves miu_bus base 0 (Suc 0) 0) ?h4 (0 OR push_bit (32 * 0) (ucast (ucast ?m :: u32))) ?h4"
        unfolding read_halves.simps by (rule yields_bind [OF half(1)], rule yields_ret)
      moreover have "8 * (off0 + n) \<le> 32" using low(2) assms(2) by auto
      ultimately show ?thesis using low
        by (intro exI [of _ "0 OR push_bit (32 * 0) (ucast (ucast ?m :: u32))"]) (auto simp: bit_simps)
    next
      case both
      have "yields (read_halves miu_bus base 0 (Suc (Suc 0)) 0) ?h4
          ((0 OR push_bit (32 * 0) (ucast (ucast ?m :: u32))) OR push_bit (32 * (0 + 1)) (ucast (ucast (drop_bit 32 ?m) :: u32))) ?h4"
        unfolding read_halves.simps add_0
        by (rule yields_bind [OF half(1)], rule yields_bind [OF half(2)], rule yields_ret)
      with both show ?thesis
        using word_halves [of ?m] by (intro exI [of _ ?m]) (simp add: or.commute)
    next
      case high
      have "yields (read_halves miu_bus base 1 (Suc 0) 0) ?h4 (0 OR push_bit (32 * 1) (ucast (ucast (drop_bit 32 ?m) :: u32))) ?h4"
        unfolding read_halves.simps by (rule yields_bind [OF half(2)], rule yields_ret)
      moreover have "32 \<le> 8 * off0" using high(1) by auto
      ultimately show ?thesis using high assms(3)
        by (intro exI [of _ "0 OR push_bit (32 * 1) (ucast (ucast (drop_bit 32 ?m) :: u32))"]) (auto simp: bit_simps)
    qed
  qed
  then obtain w where w: "yields (read_halves miu_bus base ?start (?stop + 1 - ?start) 0) ?h4 w ?h4"
    "\<forall>k. 8 * off0 \<le> k \<and> k < 8 * (off0 + n) \<longrightarrow> bit w k = bit ?m k" by blast
  have tail: "yields (let start = off0 div 4; stop = (off0 + n - 1) div 4 in do {
       w \<leftarrow> read_halves miu_bus base start (stop + 1 - start) 0; ret (Some w) }) ?h4 (Some w) ?h4"
    unfolding Let_def by (rule yields_bind [OF w(1)], rule yields_ret)
  have "yields (agent_read miu_bus base t off0 n) h (Some w) ?h4"
    unfolding agent_read_def v
  proof (intro yields_bind [OF yields_wr])
    show "yields (do { idle \<leftarrow> agent_poll miu_bus base MAX_CTL_CHECK;
       if \<not> idle then ret None
       else (let start = off0 div 4; stop = (off0 + n - 1) div 4 in do {
         w \<leftarrow> read_halves miu_bus base start (stop + 1 - start) 0; ret (Some w) }) })
     (bus_wr miu_bus (base + MIU_TEST_AGT_CTRL) 3 (bus_wr miu_bus (base + MIU_TEST_AGT_CTRL) 2
       (bus_wr miu_bus (base + MIU_TEST_AGT_ADDR_HI) 0 (bus_wr miu_bus (base + MIU_TEST_AGT_ADDR_LO) t h))))
     (Some w) ?h4"
      using yields_bind [OF idle, of _ "Some w" ?h4] tail by (simp add: wr_def)
  qed
  with w(2) h4(1) show ?thesis by blast
qed
subsection \<open>Bits of memory\<close>

text \<open>Bit \<open>i\<close> of the memory behind an agent, counted from address 0.\<close>

definition mem_bit :: "u64 \<Rightarrow> miu \<Rightarrow> nat \<Rightarrow> bool" where
  "mem_bit base h i = bit (dram h base (of_nat (8 * (i div 64)))) (i mod 64)"

lemma acc_off0_mod: "acc_off0 off = unat off mod 8"
proof -
  have "off AND 7 = take_bit 3 off" by (simp add: take_bit_eq_mask mask_eq_exp_minus_1)
  then show ?thesis by (simp add: acc_off0_def take_bit_eq_mod unat_mod_distrib)
qed

lemma high_mask: "(0xfffffff8 :: 'a::len word) = push_bit 3 (mask 29)"
  by (simp add: mask_eq_exp_minus_1 push_bit_eq_mult)

lemma eight_times_div: "8 * (n div 8) = push_bit 3 (drop_bit 3 n)" for n :: nat
  by (simp add: push_bit_eq_mult drop_bit_eq_div)

lemma acc_word0: "ucast (acc_off8 off) = (of_nat (8 * (unat off div 8)) :: u32)"
  by (rule bit_word_eqI) (auto simp: acc_off8_def high_mask eight_times_div bit_simps)

lemma acc_word1: "ucast (acc_off8 off + 8) = (of_nat (8 * (unat off div 8 + 1)) :: u32)"
proof -
  have "unat (acc_off8 off) \<le> 0xfffffff8"
    using word_and_le1 [of off "0xfffffff8"] by (simp add: acc_off8_def word_le_nat_alt)
  then have "unat (acc_off8 off + 8) = unat (acc_off8 off) + 8"
    by (simp add: unat_word_ariths)
  moreover have "ucast w = (of_nat (unat w) :: u32)" for w :: u64
    by simp
  ultimately have "ucast (acc_off8 off + 8) = (ucast (acc_off8 off) + 8 :: u32)"
    by (metis of_nat_add of_nat_numeral)
  then show ?thesis by (simp add: acc_word0)
qed

lemma aligned_word: "of_nat (8 * n) AND 0xfffffff8 = (of_nat (8 * n) :: u32)"
proof -
  have "8 * n = push_bit 3 n" by (simp add: push_bit_eq_mult)
  then show ?thesis
    by (intro bit_word_eqI) (auto simp: high_mask bit_simps)
qed

lemma cut_bits:
  assumes "sz \<in> {1, 2, 4, 8}"
  shows "bit (cut sz v) k \<longleftrightarrow> k < 8 * sz \<and> bit v k"
proof -
  have m: "(0xff :: u64) = mask 8" "(0xffff :: u64) = mask 16" "(0xffffffff :: u64) = mask 32"
    by (simp_all add: mask_eq_exp_minus_1)
  from assms show ?thesis
    by (auto simp: cut_def m bit_simps dest: bit_imp_le_length)
qed

lemma acc_sizes:
  assumes "sz \<in> {1, 2, 4, 8}"
  shows "0 < acc_sz0 off sz" "acc_off0 off + acc_sz0 off sz \<le> 8" "acc_sz0 off sz + acc_sz1 off sz = sz"
    "acc_loop off sz < 2 \<longleftrightarrow> acc_sz1 off sz = 0" "acc_sz1 off sz \<le> 8"
    "acc_sz1 off sz \<noteq> 0 \<Longrightarrow> acc_off0 off + acc_sz0 off sz = 8"
  using assms by (auto simp: acc_sz0_def acc_sz1_def acc_loop_def acc_off0_mod)

lemma read_value_bits:
  assumes "sz \<in> {1, 2, 4, 8}"
  shows "bit (cut sz (read_value off sz w0 w1)) k \<longleftrightarrow>
    k < 8 * sz \<and> (if k < 8 * acc_sz0 off sz then bit w0 (8 * acc_off0 off + k) else bit w1 (k - 8 * acc_sz0 off sz))"
proof -
  have "sz \<le> 8" using assms by auto
  then show ?thesis
    using acc_sizes [OF assms, of off]
    by (auto simp: cut_bits [OF assms] read_value_def Let_def bit_simps dest: bit_imp_le_length)
qed

lemma mem_bit_split:
  assumes "k < 64"
  shows "mem_bit base h (8 * n + k) =
    (if 8 * (n mod 8) + k < 64 then bit (dram h base (of_nat (8 * (n div 8)))) (8 * (n mod 8) + k)
     else bit (dram h base (of_nat (8 * (n div 8 + 1)))) (8 * (n mod 8) + k - 64))"
proof -
  let ?r = "8 * (n mod 8) + k"
  have n: "8 * n + k = ?r + 64 * (n div 8)" by presburger
  have d: "(8 * n + k) div 64 = ?r div 64 + n div 8" "(8 * n + k) mod 64 = ?r mod 64"
    unfolding n by simp_all
  show ?thesis
  proof (cases "?r < 64")
    case True
    with d show ?thesis by (simp add: mem_bit_def)
  next
    case False
    have "?r < 128" using assms by presburger
    with False have "?r div 64 = 1" "?r mod 64 = ?r - 64" by (simp_all add: div_nat_eqI mod_nat_eqI)
    with d False show ?thesis by (simp add: mem_bit_def)
  qed
qed

lemma mem_read_agent_effect:
  assumes "base \<in> {UNM_CRB_DDR_NET, UNM_CRB_QDR_NET}" "sz \<in> {1, 2, 4, 8}"
  shows "\<exists>h' v. yields (mem_read_agent miu_bus base off sz) h (Some v) h' \<and> dram h' = dram h \<and>
    (\<forall>k. bit v k \<longleftrightarrow> k < 8 * sz \<and> mem_bit base h (8 * unat off + k))"
proof -
  let ?sz0 = "acc_sz0 off sz" and ?sz1 = "acc_sz1 off sz" and ?off0 = "acc_off0 off" and ?q = "unat off div 8"
  note szs = acc_sizes [OF assms(2), of off]
  have sz: "sz \<le> 8" using assms(2) by auto
  obtain h1 w0 where r0: "yields (agent_read miu_bus base (ucast (acc_off8 off)) ?off0 ?sz0) h (Some w0) h1"
    "dram h1 = dram h" "\<And>k. 8 * ?off0 \<le> k \<Longrightarrow> k < 8 * (?off0 + ?sz0) \<Longrightarrow> bit w0 k = bit (dram h base (of_nat (8 * ?q))) k"
    using agent_read_effect [OF assms(1) szs(1,2), of "ucast (acc_off8 off)" h]
    unfolding acc_word0 aligned_word by blast
  show ?thesis
  proof (cases "?sz1 = 0")
    case True
    let ?v = "cut sz (read_value off sz w0 0)"
    have "yields (mem_read_agent miu_bus base off sz) h (Some ?v) h1"
      unfolding mem_read_agent_def
      by (rule yields_bind [OF r0(1)]) (simp add: szs(4) True yields_ret)
    moreover have "bit ?v k \<longleftrightarrow> k < 8 * sz \<and> mem_bit base h (8 * unat off + k)" for k
      using r0(3) [of "8 * ?off0 + k"] mem_bit_split [of k base h "unat off"] szs(2,3) True sz
      by (auto simp: read_value_bits [OF assms(2)] acc_off0_mod)
    ultimately show ?thesis using r0(2) by blast
  next
    case False
    obtain h2 w1 where r1: "yields (agent_read miu_bus base (ucast (acc_off8 off + 8)) 0 ?sz1) h1 (Some w1) h2"
      "dram h2 = dram h" "\<And>k. k < 8 * ?sz1 \<Longrightarrow> bit w1 k = bit (dram h base (of_nat (8 * (?q + 1)))) k"
      using agent_read_effect [OF assms(1), of ?sz1 0 "ucast (acc_off8 off + 8)" h1] False szs(5) r0(2)
      unfolding acc_word1 aligned_word by auto
    let ?v = "cut sz (read_value off sz w0 w1)"
    have "yields (mem_read_agent miu_bus base off sz) h (Some ?v) h2"
      unfolding mem_read_agent_def
      by (rule yields_bind [OF r0(1)])
        (use yields_bind [OF r1(1), of _ "Some ?v" h2] in \<open>simp add: szs(4) False yields_ret\<close>)
    moreover have "bit ?v k \<longleftrightarrow> k < 8 * sz \<and> mem_bit base h (8 * unat off + k)" for k
    proof (cases "k < 8 * ?sz0")
      case True
      with r0(3) [of "8 * ?off0 + k"] mem_bit_split [of k base h "unat off"] szs(3) szs(6) [OF False] sz
      show ?thesis by (auto simp: read_value_bits [OF assms(2)] acc_off0_mod)
    next
      case False
      show ?thesis
      proof (cases "k < 8 * sz")
        case True
        have "8 * (unat off mod 8) + k - 64 = k - 8 * ?sz0" "k - 8 * ?sz0 < 8 * ?sz1"
          using szs(3) szs(6) [OF \<open>?sz1 \<noteq> 0\<close>] False True by (simp_all add: acc_off0_mod)
        with r1(3) [of "k - 8 * ?sz0"] mem_bit_split [of k base h "unat off"] szs(6) [OF \<open>?sz1 \<noteq> 0\<close>] sz True False
        show ?thesis by (simp add: read_value_bits [OF assms(2)] acc_off0_mod)
      qed (simp add: read_value_bits [OF assms(2)])
    qed
    ultimately show ?thesis using r1(2) by blast
  qed
qed

subsection \<open>Reads and writes of network memory\<close>

lemma ddr_range:
  assumes "sz \<in> {1, 2, 4, 8}" "unat off + sz \<le> 2 ^ 28"
  shows "\<not> in_qdr off" "unm_nic_pci_mem_bound_check off sz"
proof -
  have "unat off < 2 ^ 28" using assms by auto
  then show "\<not> in_qdr off"
    by (simp add: in_qdr_def UNM_ADDR_QDR_NET_def word_le_nat_alt)
  have "off + of_nat sz - 1 = of_nat (unat off + sz - 1)"
    using assms(1) by auto
  moreover have "unat (of_nat (unat off + sz - 1) :: u64) = unat off + sz - 1"
    using assms by (simp add: unat_of_nat)
  ultimately have "unat (off + of_nat sz - 1) = unat off + sz - 1" by simp
  with \<open>unat off < 2 ^ 28\<close> assms show "unm_nic_pci_mem_bound_check off sz"
    by (simp add: unm_nic_pci_mem_bound_check_def UNM_ADDR_DDR_NET_MAX_def word_le_nat_alt)
qed

lemma mem_read_effect:
  assumes "sz \<in> {1, 2, 4, 8}" "unat off + sz \<le> 2 ^ 28"
  shows "\<exists>h' v. yields (unm_nic_pci_mem_read_2M miu_bus direct off sz) h (Some v) h' \<and> dram h' = dram h \<and>
    (\<forall>k. bit v k \<longleftrightarrow> k < 8 * sz \<and> mem_bit UNM_CRB_DDR_NET h (8 * unat off + k))"
  using mem_read_agent_effect [OF _ assms(1), of UNM_CRB_DDR_NET off h] ddr_range [OF assms]
  by (simp add: unm_nic_pci_mem_read_2M_def)

lemma whole_word_read:
  assumes "unat off + 8 \<le> 2 ^ 28" "unat off = 8 * q"
  shows "\<exists>h'. yields (unm_nic_pci_mem_read_2M miu_bus direct off 8) h (Some (dram h UNM_CRB_DDR_NET (of_nat (8 * q)))) h' \<and>
    dram h' = dram h"
proof -
  have "(8 :: nat) \<in> {1, 2, 4, 8}" by simp
  from mem_read_effect [OF this assms(1), of direct h] obtain h' v where
    h': "yields (unm_nic_pci_mem_read_2M miu_bus direct off 8) h (Some v) h'" "dram h' = dram h"
    "\<And>k. bit v k \<longleftrightarrow> k < 8 * 8 \<and> mem_bit UNM_CRB_DDR_NET h (8 * unat off + k)" by blast
  have "v = dram h UNM_CRB_DDR_NET (of_nat (8 * q))"
  proof (rule bit_word_eqI)
    fix k assume "k < LENGTH(64)"
    moreover then have "mem_bit UNM_CRB_DDR_NET h (8 * unat off + k) = bit (dram h UNM_CRB_DDR_NET (of_nat (8 * q))) k"
      using mem_bit_split [of k UNM_CRB_DDR_NET h "8 * q"] by (simp add: assms(2))
    ultimately show "bit v k = bit (dram h UNM_CRB_DDR_NET (of_nat (8 * q))) k"
      unfolding h'(3) by simp
  qed
  with h' show ?thesis by auto
qed

lemma unat_acc_off8: "unat off < 2 ^ 28 \<Longrightarrow> unat (acc_off8 off) = 8 * (unat off div 8)"
proof -
  assume o: "unat off < 2 ^ 28"
  have "unat (take_bit 28 off) = unat off"
    using o by (simp only: unsigned_take_bit_eq take_bit_nat_eq_self)
  then have "take_bit 28 off = off"
    by (simp only: word_unat_eq_iff)
  then have b: "bit off k \<Longrightarrow> k < 28" for k
    by (metis bit_take_bit_iff)
  have "acc_off8 off = push_bit 3 (drop_bit 3 off)"
  proof (rule bit_word_eqI)
    fix k show "bit (acc_off8 off) k = bit (push_bit 3 (drop_bit 3 off)) k"
      using b [of k] by (auto simp: acc_off8_def high_mask bit_simps)
  qed
  then have "acc_off8 off = 8 * (off div 8)"
    by (simp add: push_bit_eq_mult drop_bit_eq_div)
  then show ?thesis using o
    by (simp add: unat_word_ariths unat_div_distrib)
qed

lemma merge0_bits:
  assumes "sz \<in> {1, 2, 4, 8}"
  shows "bit (merge0 off sz (cut sz data) w) k \<longleftrightarrow>
    (if 8 * acc_off0 off \<le> k \<and> k < 8 * (acc_off0 off + acc_sz0 off sz)
     then bit data (k - 8 * acc_off0 off) else bit w k)"
proof -
  have "sz \<le> 8" using assms by auto
  then show ?thesis
    using acc_sizes [OF assms, of off]
    by (cases "acc_sz1 off sz = 0")
      (auto simp: cut_bits [OF assms] merge0_def bit_simps dest: bit_imp_le_length)
qed

lemma merge1_bits:
  assumes "sz \<in> {1, 2, 4, 8}"
  shows "bit (merge1 off sz (cut sz data) w) k \<longleftrightarrow>
    k < 8 * acc_sz1 off sz \<and> (bit w k \<or> bit data (8 * acc_sz0 off sz + k))"
proof -
  have "sz \<le> 8" using assms by auto
  then show ?thesis
    using acc_sizes [OF assms, of off]
    by (auto simp: cut_bits [OF assms] merge1_def bit_simps dest: bit_imp_le_length)
qed
text \<open>The words an access merges into.\<close>

lemma old_words_effect:
  assumes "sz \<in> {1, 2, 4, 8}" "unat off + sz \<le> 2 ^ 28"
  defines "q \<equiv> unat off div 8"
  shows "\<exists>h' w0 w1. yields (old_words miu_bus direct off sz) h (Some (w0, w1)) h' \<and> dram h' = dram h \<and>
    (acc_off0 off \<noteq> 0 \<or> sz \<noteq> 8 \<longrightarrow> w0 = dram h UNM_CRB_DDR_NET (of_nat (8 * q)) \<and>
       (acc_sz1 off sz \<noteq> 0 \<longrightarrow> w1 = dram h UNM_CRB_DDR_NET (of_nat (8 * (q + 1)))))"
proof (cases "sz \<noteq> 8 \<or> acc_off0 off \<noteq> 0")
  case False
  then have "yields (old_words miu_bus direct off sz) h (Some (0, 0)) h"
    by (simp add: old_words_def yields_ret)
  with False show ?thesis by blast
next
  case True
  note szs = acc_sizes [OF assms(1), of off]
  have o: "unat off < 2 ^ 28" using assms(1,2) by auto
  have a0: "unat (acc_off8 off) = 8 * q"
    using unat_acc_off8 [OF o] by (simp add: q_def)
  have "unat (acc_off8 off) + 8 \<le> 2 ^ 28"
    using o unfolding a0 q_def by simp
  from whole_word_read [OF this a0] obtain h1 where
    r0: "yields (unm_nic_pci_mem_read_2M miu_bus direct (acc_off8 off) 8) h (Some (dram h UNM_CRB_DDR_NET (of_nat (8 * q)))) h1"
    "dram h1 = dram h" by blast
  show ?thesis
  proof (cases "acc_sz1 off sz = 0")
    case z: True
    have "yields (old_words miu_bus direct off sz) h (Some (dram h UNM_CRB_DDR_NET (of_nat (8 * q)), 0)) h1"
      unfolding old_words_def if_P [OF True]
      by (rule yields_bind [OF r0(1)]) (simp add: szs(4) z yields_ret)
    with r0(2) z show ?thesis by blast
  next
    case nz: False
    have a1: "unat (acc_off8 off + 8) = 8 * (q + 1)"
      using a0 o by (simp add: unat_word_ariths q_def)
    have "8 * q + 8 < unat off + sz"
      using szs(3) szs(6) [OF nz] nz mult_div_mod_eq [of 8 "unat off"]
      unfolding q_def acc_off0_mod by linarith
    then have "unat (acc_off8 off + 8) + 8 \<le> 2 ^ 28"
      using assms(2) unfolding a1 by simp
    from whole_word_read [OF this a1] obtain h2 where
      r1: "yields (unm_nic_pci_mem_read_2M miu_bus direct (acc_off8 off + 8) 8) h1 (Some (dram h UNM_CRB_DDR_NET (of_nat (8 * (q + 1))))) h2"
      "dram h2 = dram h" using r0(2) by metis
    have "yields (old_words miu_bus direct off sz) h
        (Some (dram h UNM_CRB_DDR_NET (of_nat (8 * q)), dram h UNM_CRB_DDR_NET (of_nat (8 * (q + 1))))) h2"
    proof -
      let ?k = "\<lambda>r1. ret (case r1 of None \<Rightarrow> None | Some word1 \<Rightarrow> Some (dram h UNM_CRB_DDR_NET (of_nat (8 * q)), word1))"
      have "yields (State_Monad.bind (unm_nic_pci_mem_read_2M miu_bus direct (acc_off8 off + 8) 8) ?k) h1
          (Some (dram h UNM_CRB_DDR_NET (of_nat (8 * q)), dram h UNM_CRB_DDR_NET (of_nat (8 * (q + 1))))) h2"
        by (rule yields_bind [OF r1(1)]) (simp only: option.case yields_ret)
      moreover have "\<not> acc_loop off sz < 2" using szs(4) nz by simp
      ultimately show ?thesis
        unfolding old_words_def if_P [OF True]
        by (intro yields_bind [OF r0(1)]) (simp only: option.case if_False)
    qed
    with r1(2) show ?thesis by blast
  qed
qed

text \<open>Which words a write leaves behind.\<close>

lemma mem_write_effect:
  assumes "sz \<in> {1, 2, 4, 8}" "unat off + sz \<le> 2 ^ 28"
  defines "q \<equiv> unat off div 8"
  shows "\<exists>h' w0 w1. yields (unm_nic_pci_mem_write_2M miu_bus direct direct' off data sz) h 0 h' \<and>
    (acc_off0 off \<noteq> 0 \<or> sz \<noteq> 8 \<longrightarrow> w0 = dram h UNM_CRB_DDR_NET (of_nat (8 * q))) \<and>
    (acc_sz1 off sz \<noteq> 0 \<longrightarrow> w1 = dram h UNM_CRB_DDR_NET (of_nat (8 * (q + 1)))) \<and>
    dram h' = (dram h)(UNM_CRB_DDR_NET :=
      (if acc_sz1 off sz = 0
       then (dram h UNM_CRB_DDR_NET)(of_nat (8 * q) := merge0 off sz (cut sz data) w0)
       else (dram h UNM_CRB_DDR_NET)(of_nat (8 * q) := merge0 off sz (cut sz data) w0,
                                     of_nat (8 * (q + 1)) := merge1 off sz (cut sz data) w1)))"
proof -
  note szs = acc_sizes [OF assms(1), of off]
  let ?B = UNM_CRB_DDR_NET
  have B: "?B \<in> {UNM_CRB_DDR_NET, UNM_CRB_QDR_NET}" by simp
  obtain h1 w0 w1 where old: "yields (old_words miu_bus direct off sz) h (Some (w0, w1)) h1" "dram h1 = dram h"
    "acc_off0 off \<noteq> 0 \<or> sz \<noteq> 8 \<longrightarrow> w0 = dram h ?B (of_nat (8 * q)) \<and>
       (acc_sz1 off sz \<noteq> 0 \<longrightarrow> w1 = dram h ?B (of_nat (8 * (q + 1))))"
    using old_words_effect [OF assms(1,2)] unfolding q_def by blast
  have partial: "acc_sz1 off sz \<noteq> 0 \<Longrightarrow> acc_off0 off \<noteq> 0 \<or> sz \<noteq> 8"
    using assms(1) by (auto simp: acc_sz1_def acc_sz0_def)
  let ?m0 = "merge0 off sz (cut sz data) w0" and ?m1 = "merge1 off sz (cut sz data) w1"
  obtain h2 where wr0: "yields (agent_write miu_bus ?B (ucast (acc_off8 off)) ?m0) h1 True h2"
    "dram h2 = (dram h)(?B := (dram h ?B)(of_nat (8 * q) := ?m0))"
    using agent_write_effect [OF B, of "ucast (acc_off8 off)" ?m0 h1] old(2)
    unfolding acc_word0 aligned_word q_def by auto
  have start: "unm_nic_pci_mem_write_2M miu_bus direct direct' off data sz = mem_write_agent miu_bus direct ?B off data sz"
    by (simp add: unm_nic_pci_mem_write_2M_def ddr_range [OF assms(1,2)])
  show ?thesis
  proof (cases "acc_sz1 off sz = 0")
    case True
    have "yields (mem_write_agent miu_bus direct ?B off data sz) h 0 h2"
      unfolding mem_write_agent_def
    proof (rule yields_bind [OF old(1)], simp only: option.case prod.case Let_def, rule yields_bind [OF wr0(1)])
    qed (simp add: szs(4) True yields_ret)
    with start wr0(2) old(3) True show ?thesis by auto
  next
    case False
    obtain h3 where wr1: "yields (agent_write miu_bus ?B (ucast (acc_off8 off + 8)) ?m1) h2 True h3"
      "dram h3 = (dram h2)(?B := (dram h2 ?B)(of_nat (8 * (q + 1)) := ?m1))"
      using agent_write_effect [OF B, of "ucast (acc_off8 off + 8)" ?m1 h2]
      unfolding acc_word1 aligned_word q_def by auto
    have "yields (do { ok1 \<leftarrow> agent_write miu_bus ?B (ucast (acc_off8 off + 8)) ?m1; ret (if ok1 then 0 else - 1 :: int) }) h2 0 h3"
      by (rule yields_bind [OF wr1(1)]) (simp add: yields_ret)
    then have "yields (mem_write_agent miu_bus direct ?B off data sz) h 0 h3"
      unfolding mem_write_agent_def
    proof (intro yields_bind [OF old(1)], simp only: option.case prod.case Let_def, intro yields_bind [OF wr0(1)])
    qed (simp add: szs(4) False)
    moreover have "dram h3 = (dram h)(?B := (dram h ?B)(of_nat (8 * q) := ?m0, of_nat (8 * (q + 1)) := ?m1))"
      unfolding wr1(2) wr0(2) by simp
    ultimately show ?thesis
      using start old(3) partial False
      by (intro exI [of _ h3], rule_tac exI [of _ w0], rule_tac exI [of _ w1]) (simp add: fun_upd_def)
  qed
qed
lemma word_index_inj:
  assumes "i < 8 * 2 ^ 32" "j < 2 ^ 29"
  shows "of_nat (8 * (i div 64)) = (of_nat (8 * j) :: u32) \<longleftrightarrow> i div 64 = j"
proof
  assume e: "of_nat (8 * (i div 64)) = (of_nat (8 * j) :: u32)"
  have u: "unat (of_nat n :: u32) = n" if "n < 2 ^ 32" for n
    using that by (simp add: unat_of_nat)
  have "8 * (i div 64) < 2 ^ 32" using assms(1) by simp
  moreover have "8 * j < 2 ^ 32" using assms(2) by simp
  ultimately have "8 * (i div 64) = 8 * j"
    using arg_cong [OF e, of unat] u by metis
  then show "i div 64 = j" by simp
qed simp

text \<open>Bit \<open>i\<close> of memory after one word has been replaced.\<close>

lemma mem_bit_upd:
  assumes "i < 8 * 2 ^ 32" "j < 2 ^ 29" "dram h' = (dram h)(base := (m :: u32 \<Rightarrow> u64)(of_nat (8 * j) := w))"
  shows "mem_bit base h' i = (if i div 64 = j then bit w (i mod 64) else bit (m (of_nat (8 * (i div 64)))) (i mod 64))"
  using assms(3) word_index_inj [OF assms(1,2)] by (simp add: mem_bit_def)

lemma bit_address:
  fixes i :: nat
  assumes "i div 64 = q" "n div 8 = q" "a + s \<le> 8" "a = n mod 8"
  shows "8 * a \<le> i mod 64 \<and> i mod 64 < 8 * (a + s) \<longleftrightarrow> 8 * n \<le> i \<and> i < 8 * (n + s)"
    "8 * n \<le> i \<Longrightarrow> i mod 64 - 8 * a = i - 8 * n"
proof -
  have i: "i = 64 * q + i mod 64" using assms(1) mult_div_mod_eq [of 64 i] by simp
  have n: "n = 8 * q + a" using assms(2,4) mult_div_mod_eq [of 8 n] by simp
  have "8 * a \<le> i mod 64 \<longleftrightarrow> 8 * n \<le> i" "i mod 64 < 8 * (a + s) \<longleftrightarrow> i < 8 * (n + s)"
  proof -
    have "(8 * a \<le> r \<longleftrightarrow> 8 * n \<le> i) \<and> (r < 8 * (a + s) \<longleftrightarrow> i < 8 * (n + s))"
      if "i = 64 * q + r" for r
      unfolding that n by auto
    from this [OF i] show "8 * a \<le> i mod 64 \<longleftrightarrow> 8 * n \<le> i" "i mod 64 < 8 * (a + s) \<longleftrightarrow> i < 8 * (n + s)"
      by blast+
  qed
  then show "8 * a \<le> i mod 64 \<and> i mod 64 < 8 * (a + s) \<longleftrightarrow> 8 * n \<le> i \<and> i < 8 * (n + s)"
    by simp
  show "8 * n \<le> i \<Longrightarrow> i mod 64 - 8 * a = i - 8 * n"
    using i n by linarith
qed

text \<open>
  C34 A read of 1, 2, 4 or 8 bytes anywhere in network memory, through a test agent that is never busy, returns exactly those
  bytes, in little-endian order and zero-extended, whatever their alignment, and changes no memory.
\<close>

theorem mem_read_returns_bytes:
  assumes "sz \<in> {1, 2, 4, 8}" "unat off + sz \<le> 2 ^ 28"
  shows "\<exists>h' v. yields (unm_nic_pci_mem_read_2M miu_bus direct off sz) h (Some v) h' \<and> dram h' = dram h \<and>
    (\<forall>k. bit v k \<longleftrightarrow> k < 8 * sz \<and> mem_bit UNM_CRB_DDR_NET h (8 * unat off + k))"
  by (rule mem_read_effect [OF assms])

text \<open>
  A write of 1, 2, 4 or 8 bytes that lies within one aligned 8-byte word of network memory
  replaces exactly those bytes.
\<close>

theorem mem_write_within_word:
  assumes "sz \<in> {1, 2, 4, 8}" "unat off + sz \<le> 2 ^ 28" "unat off mod 8 + sz \<le> 8"
  shows "\<exists>h'. yields (unm_nic_pci_mem_write_2M miu_bus direct direct' off data sz) h 0 h' \<and>
    (\<forall>i < 8 * 2 ^ 32. mem_bit UNM_CRB_DDR_NET h' i =
       (if 8 * unat off \<le> i \<and> i < 8 * (unat off + sz) then bit data (i - 8 * unat off)
        else mem_bit UNM_CRB_DDR_NET h i))"
proof -
  let ?q = "unat off div 8" and ?B = UNM_CRB_DDR_NET
  note szs = acc_sizes [OF assms(1), of off]
  have z: "acc_sz1 off sz = 0" and s0: "acc_sz0 off sz = sz"
    using assms(3) by (auto simp: acc_sz1_def acc_sz0_def acc_off0_mod)
  have q: "?q < 2 ^ 29" using assms by auto
  obtain h' w0 where h': "yields (unm_nic_pci_mem_write_2M miu_bus direct direct' off data sz) h 0 h'"
    "acc_off0 off \<noteq> 0 \<or> sz \<noteq> 8 \<longrightarrow> w0 = dram h ?B (of_nat (8 * ?q))"
    "dram h' = (dram h)(?B := (dram h ?B)(of_nat (8 * ?q) := merge0 off sz (cut sz data) w0))"
    using mem_write_effect [OF assms(1,2), of direct direct' data h] unfolding if_P [OF z] by blast
  have "mem_bit ?B h' i = (if 8 * unat off \<le> i \<and> i < 8 * (unat off + sz) then bit data (i - 8 * unat off)
        else mem_bit ?B h i)" if i: "i < 8 * 2 ^ 32" for i
  proof (cases "i div 64 = ?q")
    case False
    have "i div 64 = ?q" if "8 * unat off \<le> i" "i < 8 * (unat off + sz)"
    proof (rule div_nat_eqI)
      show "64 * ?q \<le> i" using that(1) mult_div_mod_eq [of 8 "unat off"] by linarith
      show "i < 64 * Suc ?q" 
      proof -
        have "j < 64 * Suc d" if "j < 8 * (n + sz)" "m + sz \<le> 8" "8 * d + m = n" for j n m d :: nat
          using that by auto
        from this [OF that(2) assms(3) mult_div_mod_eq] show ?thesis .
      qed
    qed
    with False have out: "\<not> (8 * unat off \<le> i \<and> i < 8 * (unat off + sz))" by blast
    from False mem_bit_upd [OF i q h'(3)] show ?thesis
      unfolding if_not_P [OF out] by (simp add: mem_bit_def)
  next
    case True
    have inside: "8 * acc_off0 off \<le> i mod 64 \<and> i mod 64 < 8 * (acc_off0 off + sz) \<longleftrightarrow>
        8 * unat off \<le> i \<and> i < 8 * (unat off + sz)"
      "8 * unat off \<le> i \<Longrightarrow> i mod 64 - 8 * acc_off0 off = i - 8 * unat off"
      using bit_address [OF True refl, of "acc_off0 off" sz] assms(3) by (simp_all add: acc_off0_mod)
    have whole: "acc_off0 off = 0 \<and> sz = 8 \<Longrightarrow> 8 * unat off \<le> i \<and> i < 8 * (unat off + sz)"
      using inside(1) by auto
    have "mem_bit ?B h' i = bit (merge0 off sz (cut sz data) w0) (i mod 64)"
      using mem_bit_upd [OF i q h'(3)] True by simp
    also have "\<dots> = (if 8 * unat off \<le> i \<and> i < 8 * (unat off + sz) then bit data (i - 8 * unat off)
        else bit w0 (i mod 64))"
      unfolding merge0_bits [OF assms(1)] s0 inside(1) using inside(2) by simp
    finally show ?thesis
      using whole h'(2) True by (cases "8 * unat off \<le> i \<and> i < 8 * (unat off + sz)") (auto simp: mem_bit_def)
  qed
  with h'(1) show ?thesis by blast
qed

text \<open>
  A write that straddles two aligned words is wrong in the second one: the mask that should
  clear the bytes being written clears all the others instead. The bytes written there are the
  bitwise or of old and new contents, and the rest of that word becomes zero.
\<close>

theorem mem_write_straddling:
  assumes "sz \<in> {2, 4, 8}" "unat off + sz \<le> 2 ^ 28" "unat off mod 8 + sz > 8"
  shows "\<exists>h'. yields (unm_nic_pci_mem_write_2M miu_bus direct direct' off data sz) h 0 h' \<and>
    (\<forall>i. i div 64 = unat off div 8 + 1 \<longrightarrow> mem_bit UNM_CRB_DDR_NET h' i \<longleftrightarrow>
       i < 8 * (unat off + sz) \<and> (mem_bit UNM_CRB_DDR_NET h i \<or> bit data (i - 8 * unat off)))"
proof -
  let ?q = "unat off div 8" and ?B = UNM_CRB_DDR_NET
  have sz: "sz \<in> {1, 2, 4, 8}" using assms(1) by auto
  note szs = acc_sizes [OF sz, of off]
  have nz: "acc_sz1 off sz \<noteq> 0"
    using assms(3) by (auto simp: acc_sz1_def acc_sz0_def acc_off0_mod)
  have q: "?q < 2 ^ 28" using assms by auto
  obtain h' w0 w1 where h': "yields (unm_nic_pci_mem_write_2M miu_bus direct direct' off data sz) h 0 h'"
    "acc_sz1 off sz \<noteq> 0 \<longrightarrow> w1 = dram h ?B (of_nat (8 * (?q + 1)))"
    "dram h' = (dram h)(?B := ((dram h ?B)(of_nat (8 * ?q) := merge0 off sz (cut sz data) w0))
       (of_nat (8 * (?q + 1)) := merge1 off sz (cut sz data) w1))"
    using mem_write_effect [OF sz assms(2), of direct direct' data h] unfolding if_not_P [OF nz] by blast
  have "mem_bit ?B h' i \<longleftrightarrow> i < 8 * (unat off + sz) \<and> (mem_bit ?B h i \<or> bit data (i - 8 * unat off))"
    if iq: "i div 64 = ?q + 1" for i
  proof -
    have i: "i < 8 * 2 ^ 32" using q iq by auto
    have q1: "?q + 1 < 2 ^ 29" using q by simp
    have "(r < 8 * s1 \<longleftrightarrow> i < 8 * (n + sz)) \<and> 8 * s0 + r = i - 8 * n"
      if "s0 + s1 = sz" "m + s0 = 8" "64 * (d + 1) + r = i" "8 * d + m = n" for r s0 s1 n m d
      using that by auto
    from this [OF szs(3) szs(6) [OF nz, unfolded acc_off0_mod] mult_div_mod_eq [of 64 i, unfolded iq] mult_div_mod_eq]
    have j: "i mod 64 < 8 * acc_sz1 off sz \<longleftrightarrow> i < 8 * (unat off + sz)"
      "8 * acc_sz0 off sz + i mod 64 = i - 8 * unat off" by blast+
    from mem_bit_upd [OF i q1 h'(3)] iq h'(2) nz show ?thesis
      by (simp add: merge1_bits [OF sz] j mem_bit_def)
  qed
  with h'(1) show ?thesis by blast
qed

lemma unat_acc_off8_mod: "unat (acc_off8 off) = 8 * (unat off div 8) mod 2 ^ 32"
proof -
  have le: "unat (acc_off8 off) \<le> 0xfffffff8"
    using word_and_le1 [of off "0xfffffff8"] by (simp add: acc_off8_def word_le_nat_alt)
  have "unat (ucast (acc_off8 off) :: u32) = unat (acc_off8 off) mod 2 ^ 32"
    by (simp add: unsigned_ucast_eq take_bit_eq_mod)
  then have "unat (acc_off8 off) = unat (ucast (acc_off8 off) :: u32)"
    using le by simp
  also have "\<dots> = 8 * (unat off div 8) mod 2 ^ 32"
    unfolding acc_word0 by (simp add: unat_of_nat take_bit_eq_mod del: of_nat_mult)
  finally show ?thesis .
qed

lemma qdr_word: "8 * ((0x300000000 + n) div 8) = 0x300000000 + 8 * (n div 8)" for n :: nat
  by presburger

text \<open>
  A partial write to queue (QDR) memory merges the new bytes with the wrong old ones: the
  aligned address is cut to 32 bits before the old word is read, so it is read from the network
  (DDR) memory at the same low address, and its bytes replace the neighbours of the bytes written.
\<close>

theorem mem_write_qdr_partial:
  assumes "sz \<in> {1, 2, 4}" "unat off = 0x300000000 + n" "n < 0x4000000" "n mod 8 + sz \<le> 8"
  shows "\<exists>h'. yields (unm_nic_pci_mem_write_2M miu_bus direct direct' off data sz) h 0 h' \<and>
    (\<forall>k < 64. bit (dram h' UNM_CRB_QDR_NET (of_nat (8 * (n div 8)))) k =
       (if 8 * (n mod 8) \<le> k \<and> k < 8 * (n mod 8 + sz) then bit data (k - 8 * (n mod 8))
        else bit (dram h UNM_CRB_DDR_NET (of_nat (8 * (n div 8)))) k))"
proof -
  have sz: "sz \<in> {1, 2, 4, 8}" and ne: "sz \<noteq> 8 \<or> acc_off0 off \<noteq> 0" using assms(1) by auto
  note szs = acc_sizes [OF sz, of off]
  have o0: "acc_off0 off = n mod 8"
    unfolding acc_off0_mod assms(2) by presburger
  have z: "acc_sz1 off sz = 0" and s0: "acc_sz0 off sz = sz"
    using assms(4) by (auto simp: acc_sz1_def acc_sz0_def o0)
  have a0: "unat (acc_off8 off) = 8 * (n div 8)"
  proof -
    have "(0x300000000 + x) mod 2 ^ 32 = x" if "x < 2 ^ 32" for x :: nat
      using that mod_mult_self3 [of 3 "2 ^ 32" x] by simp
    from this [of "8 * (n div 8)"] show ?thesis
      using assms(3) unfolding unat_acc_off8_mod assms(2) qdr_word by simp
  qed
  then have "unat (acc_off8 off) + 8 \<le> 2 ^ 28" using assms(3) by simp
  from whole_word_read [OF this a0] obtain h1 where
    r0: "yields (unm_nic_pci_mem_read_2M miu_bus direct (acc_off8 off) 8) h (Some (dram h UNM_CRB_DDR_NET (of_nat (8 * (n div 8))))) h1"
    "dram h1 = dram h" by blast
  let ?w = "dram h UNM_CRB_DDR_NET (of_nat (8 * (n div 8)))"
  let ?m = "merge0 off sz (cut sz data) ?w"
  have old: "yields (old_words miu_bus direct off sz) h (Some (?w, 0)) h1"
    unfolding old_words_def if_P [OF ne]
    by (rule yields_bind [OF r0(1)]) (simp add: szs(4) z yields_ret)
  have ad: "ucast (acc_off8 off) = (of_nat (8 * (n div 8)) :: u32)"
  proof -
    have "ucast (acc_off8 off) = (of_nat (unat (acc_off8 off)) :: u32)" by simp
    then show ?thesis unfolding a0 .
  qed
  have B: "UNM_CRB_QDR_NET \<in> {UNM_CRB_DDR_NET, UNM_CRB_QDR_NET}" by simp
  obtain h2 where wr0: "yields (agent_write miu_bus UNM_CRB_QDR_NET (ucast (acc_off8 off)) ?m) h1 True h2"
    "dram h2 = (dram h)(UNM_CRB_QDR_NET := (dram h UNM_CRB_QDR_NET)(of_nat (8 * (n div 8)) := ?m))"
    using agent_write_effect [OF B, of "ucast (acc_off8 off)" ?m h1] r0(2)
    unfolding ad aligned_word by auto
  have "in_qdr off"
    using assms(2,3) by (simp add: in_qdr_def UNM_ADDR_QDR_NET_def NX_P3_ADDR_QDR_NET_MAX_def word_le_nat_alt)
  then have start: "unm_nic_pci_mem_write_2M miu_bus direct direct' off data sz = mem_write_agent miu_bus direct UNM_CRB_QDR_NET off data sz"
    by (simp add: unm_nic_pci_mem_write_2M_def)
  have "yields (mem_write_agent miu_bus direct UNM_CRB_QDR_NET off data sz) h 0 h2"
    unfolding mem_write_agent_def
  proof (rule yields_bind [OF old], simp only: option.case prod.case Let_def, rule yields_bind [OF wr0(1)])
  qed (simp add: szs(4) z yields_ret)
  moreover have "bit (dram h2 UNM_CRB_QDR_NET (of_nat (8 * (n div 8)))) k =
       (if 8 * (n mod 8) \<le> k \<and> k < 8 * (n mod 8 + sz) then bit data (k - 8 * (n mod 8)) else bit ?w k)" for k
    unfolding wr0(2) fun_upd_same merge0_bits [OF sz] o0 s0 by (rule refl)
  ultimately show ?thesis unfolding start by blast
qed

subsection \<open>Accesses to a memory of ones\<close>

definition ones :: miu where
  "ones = \<lparr>mregs = \<lambda>_. 0, dram = \<lambda>base _. if base = UNM_CRB_DDR_NET then - 1 else 0\<rparr>"

abbreviation no_read :: "u64 \<Rightarrow> nat \<Rightarrow> (miu, u64 option) io" where "no_read \<equiv> \<lambda>_ _. ret None"
abbreviation no_write :: "u64 \<Rightarrow> u64 \<Rightarrow> nat \<Rightarrow> (miu, int) io" where "no_write \<equiv> \<lambda>_ _ _. ret (- 1)"

lemma ones_bit: "mem_bit UNM_CRB_DDR_NET ones i"
  by (simp add: mem_bit_def ones_def)

theorem mem_read_returns_bytes_witness:
  "\<exists>h' v. yields (unm_nic_pci_mem_read_2M miu_bus no_read 0x16 4) ones (Some v) h' \<and> bit v 31 \<and> \<not> bit v 32"
proof -
  have "(4 :: nat) \<in> {1, 2, 4, 8}" "unat (0x16 :: u64) + 4 \<le> 2 ^ 28" by simp_all
  from mem_read_returns_bytes [OF this, of no_read ones] obtain h' v where
    "yields (unm_nic_pci_mem_read_2M miu_bus no_read 0x16 4) ones (Some v) h'"
    "\<forall>k. bit v k \<longleftrightarrow> k < 8 * 4 \<and> mem_bit UNM_CRB_DDR_NET ones (8 * unat (0x16 :: u64) + k)" by blast
  then show ?thesis using ones_bit by (intro exI [of _ h'] exI [of _ v]) simp
qed

theorem mem_write_within_word_witness:
  "\<exists>h'. yields (unm_nic_pci_mem_write_2M miu_bus no_read no_write 0x13 0 2) ones 0 h' \<and>
     mem_bit UNM_CRB_DDR_NET h' 151 \<and> \<not> mem_bit UNM_CRB_DDR_NET h' 152 \<and>
     \<not> mem_bit UNM_CRB_DDR_NET h' 167 \<and> mem_bit UNM_CRB_DDR_NET h' 168"
proof -
  have "(2 :: nat) \<in> {1, 2, 4, 8}" "unat (0x13 :: u64) + 2 \<le> 2 ^ 28" "unat (0x13 :: u64) mod 8 + 2 \<le> 8" by simp_all
  from mem_write_within_word [OF this, of no_read no_write 0 ones] obtain h' where
    h': "yields (unm_nic_pci_mem_write_2M miu_bus no_read no_write 0x13 0 2) ones 0 h'"
    "\<And>i. i < 8 * 2 ^ 32 \<Longrightarrow> mem_bit UNM_CRB_DDR_NET h' i =
       (if 8 * unat (0x13 :: u64) \<le> i \<and> i < 8 * (unat (0x13 :: u64) + 2) then bit (0 :: u64) (i - 8 * unat (0x13 :: u64))
        else mem_bit UNM_CRB_DDR_NET ones i)" by blast
  show ?thesis
    using h'(1) h'(2) [of 151] h'(2) [of 152] h'(2) [of 167] h'(2) [of 168] ones_bit
    by (intro exI [of _ h']) simp
qed

theorem mem_write_straddling_witness:
  "\<exists>h'. yields (unm_nic_pci_mem_write_2M miu_bus no_read no_write 0x16 0 4) ones 0 h' \<and>
     mem_bit UNM_CRB_DDR_NET h' (8 * 0x18) \<and> \<not> mem_bit UNM_CRB_DDR_NET h' (8 * 0x1a)"
proof -
  have "(4 :: nat) \<in> {2, 4, 8}" "unat (0x16 :: u64) + 4 \<le> 2 ^ 28" "8 < unat (0x16 :: u64) mod 8 + 4" by simp_all
  from mem_write_straddling [OF this, of no_read no_write 0 ones] obtain h' where
    h': "yields (unm_nic_pci_mem_write_2M miu_bus no_read no_write 0x16 0 4) ones 0 h'"
    "\<And>i. i div 64 = unat (0x16 :: u64) div 8 + 1 \<Longrightarrow> mem_bit UNM_CRB_DDR_NET h' i \<longleftrightarrow>
       i < 8 * (unat (0x16 :: u64) + 4) \<and> (mem_bit UNM_CRB_DDR_NET ones i \<or> bit (0 :: u64) (i - 8 * unat (0x16 :: u64)))" by blast
  show ?thesis
    using h'(1) h'(2) [of "8 * 0x18"] h'(2) [of "8 * 0x1a"] ones_bit
    by (intro exI [of _ h']) simp
qed

theorem mem_write_qdr_partial_witness:
  "\<exists>h'. yields (unm_nic_pci_mem_write_2M miu_bus no_read no_write 0x300000000 0 4) ones 0 h' \<and>
     \<not> bit (dram ones UNM_CRB_QDR_NET 0) 32 \<and> bit (dram h' UNM_CRB_QDR_NET 0) 32"
proof -
  have "(4 :: nat) \<in> {1, 2, 4}" "unat (0x300000000 :: u64) = 0x300000000 + 0" "(0 :: nat) < 0x4000000" "(0 :: nat) mod 8 + 4 \<le> 8"
    by simp_all
  from mem_write_qdr_partial [OF this, of no_read no_write 0 ones] obtain h' where
    "yields (unm_nic_pci_mem_write_2M miu_bus no_read no_write 0x300000000 0 4) ones 0 h'"
    "\<forall>k < 64. bit (dram h' UNM_CRB_QDR_NET (of_nat (8 * (0 div 8)))) k =
       (if 8 * (0 mod 8) \<le> k \<and> k < 8 * (0 mod 8 + 4) then bit (0 :: u64) (k - 8 * (0 mod 8))
        else bit (dram ones UNM_CRB_DDR_NET (of_nat (8 * (0 div 8)))) k)" by blast
  then show ?thesis
    by (intro exI [of _ h']) (simp add: ones_def UNM_CRB_QDR_NET_def UNM_CRB_DDR_NET_def UNM_PCI_CRB_WINDOW_def)
qed

end
