(* ===== verification/FwCmd.thy ===== *)
theory FwCmd
  imports Rom
begin

text \<open>
  The register command interface to the firmware (\<open>driver/nxhal.c\<close>): the API semaphore, issuing a
  command and polling for its response, and the commands that carry their arguments and
  answers in registers. The host is little-endian, so the byte-order conversions are the
  identity. The counterpart is \<open>fw_bus\<close>, a firmware that answers commands after a number of polls.
\<close>

subsection \<open>Registers, commands and codes\<close>

definition UNM_NIC_REG :: "u64 \<Rightarrow> u64" where "UNM_NIC_REG x = UNM_CAM_RAM 0x200 + x"
definition NX_CDRP_CRB_OFFSET :: u64 where "NX_CDRP_CRB_OFFSET = UNM_NIC_REG 0x18"
definition NX_ARG1_CRB_OFFSET :: u64 where "NX_ARG1_CRB_OFFSET = UNM_NIC_REG 0x1c"
definition NX_ARG2_CRB_OFFSET :: u64 where "NX_ARG2_CRB_OFFSET = UNM_NIC_REG 0x20"
definition NX_ARG3_CRB_OFFSET :: u64 where "NX_ARG3_CRB_OFFSET = UNM_NIC_REG 0x24"
definition NX_SIGN_CRB_OFFSET :: u64 where "NX_SIGN_CRB_OFFSET = UNM_NIC_REG 0x28"
definition PCIE_SEM5_LOCK :: u64 where "PCIE_SEM5_LOCK = 0x1c028"
definition PCIE_SEM5_UNLOCK :: u64 where "PCIE_SEM5_UNLOCK = 0x1c02c"
definition NX_OS_CRB_RETRY_COUNT :: nat where "NX_OS_CRB_RETRY_COUNT = 4000"
definition NXHAL_VERSION :: u32 where "NXHAL_VERSION = 1"

definition NX_CDRP_CMD_BIT :: u32 where "NX_CDRP_CMD_BIT = 0x80000000"
definition NX_CDRP_RSP_OK :: u32 where "NX_CDRP_RSP_OK = 1"
definition NX_CDRP_RSP_FAIL :: u32 where "NX_CDRP_RSP_FAIL = 2"
definition NX_CDRP_RSP_TIMEOUT :: u32 where "NX_CDRP_RSP_TIMEOUT = 3"
definition NX_CDRP_IS_RSP :: "u32 \<Rightarrow> bool" where "NX_CDRP_IS_RSP rsp \<longleftrightarrow> rsp AND NX_CDRP_CMD_BIT = 0"
definition NX_CDRP_FORM_CMD :: "u32 \<Rightarrow> u32" where "NX_CDRP_FORM_CMD cmd = NX_CDRP_CMD_BIT OR cmd"
definition NX_CDRP_SIGNATURE_MAKE :: "u32 \<Rightarrow> u32 \<Rightarrow> u32" where
  "NX_CDRP_SIGNATURE_MAKE pcifn version =
     (pcifn AND 0xff) OR push_bit 8 (version AND 0xff) OR push_bit 16 0xcafe"

type_synonym nx_rcode = u32

definition NX_RCODE_SUCCESS :: nx_rcode where "NX_RCODE_SUCCESS = 0"
definition NX_RCODE_NO_HOST_MEM :: nx_rcode where "NX_RCODE_NO_HOST_MEM = 1"
definition NX_RCODE_INVALID_ARGS :: nx_rcode where "NX_RCODE_INVALID_ARGS = 6"
definition NX_RCODE_INVALID_STATE :: nx_rcode where "NX_RCODE_INVALID_STATE = 8"
definition NX_RCODE_TIMEOUT :: nx_rcode where "NX_RCODE_TIMEOUT = 17"
definition NX_RCODE_CMD_FAILED :: nx_rcode where "NX_RCODE_CMD_FAILED = 18"
definition NX_RCODE_MAX_EXCEEDED :: nx_rcode where "NX_RCODE_MAX_EXCEEDED = 20"

lemmas rcodes = NX_RCODE_SUCCESS_def NX_RCODE_NO_HOST_MEM_def NX_RCODE_INVALID_ARGS_def
  NX_RCODE_INVALID_STATE_def NX_RCODE_TIMEOUT_def NX_RCODE_CMD_FAILED_def NX_RCODE_MAX_EXCEEDED_def

lemmas cdrp_addrs = rom_addrs UNM_NIC_REG_def NX_CDRP_CRB_OFFSET_def NX_ARG1_CRB_OFFSET_def
  NX_ARG2_CRB_OFFSET_def NX_ARG3_CRB_OFFSET_def NX_SIGN_CRB_OFFSET_def PCIE_SEM5_LOCK_def
  PCIE_SEM5_UNLOCK_def

abbreviation SEM5_L :: u64 where "SEM5_L \<equiv> UNM_PCIE_REG PCIE_SEM5_LOCK"
abbreviation SEM5_U :: u64 where "SEM5_U \<equiv> UNM_PCIE_REG PCIE_SEM5_UNLOCK"

subsection \<open>The operating-system layer\<close>

text \<open>The first two take a 32-bit register number.\<close>

definition nx_os_nic_reg_read_w0 :: "'h bus \<Rightarrow> u32 \<Rightarrow> ('h, u32) io" where
  "nx_os_nic_reg_read_w0 B index = NXRD32 B (ucast index)"

definition nx_os_nic_reg_write_w0 :: "'h bus \<Rightarrow> u32 \<Rightarrow> u32 \<Rightarrow> ('h, unit) io" where
  "nx_os_nic_reg_write_w0 B index val = NXWR32 B (ucast index) val"

definition nx_os_nic_reg_read_w1 :: "'h bus \<Rightarrow> u64 \<Rightarrow> ('h, u32) io" where
  "nx_os_nic_reg_read_w1 B off = NXRD32 B off"

definition nx_os_nic_reg_write_w1 :: "'h bus \<Rightarrow> u64 \<Rightarrow> u32 \<Rightarrow> ('h, unit) io" where
  "nx_os_nic_reg_write_w1 B off val = NXWR32 B off val"

subsection \<open>The API semaphore\<close>

definition api_lock :: "'h bus \<Rightarrow> ('h, int) io" where
  "api_lock B = do {
     ok \<leftarrow> sem_wait B SEM5_L NX_OS_CRB_RETRY_COUNT;
     ret (if ok then 0 else - 1) }"

definition api_unlock :: "'h bus \<Rightarrow> ('h, int) io" where
  "api_unlock B = do { v \<leftarrow> nx_os_nic_reg_read_w0 B (ucast SEM5_U); ret 0 }"

subsection \<open>Commands\<close>

text \<open>\<open>n\<close> more reads may find the command still pending; the one after them runs into the retry
  limit and counts as a timeout whatever it finds.\<close>

fun poll_loop :: "'h bus \<Rightarrow> nat \<Rightarrow> ('h, u32) io" where
  "poll_loop B 0 = do { raw \<leftarrow> nx_os_nic_reg_read_w1 B NX_CDRP_CRB_OFFSET; ret NX_CDRP_RSP_TIMEOUT }"
| "poll_loop B (Suc n) = do {
     raw \<leftarrow> nx_os_nic_reg_read_w1 B NX_CDRP_CRB_OFFSET;
     if NX_CDRP_IS_RSP raw then ret raw else poll_loop B n }"

definition poll_rsp :: "'h bus \<Rightarrow> ('h, u32) io" where
  "poll_rsp B = poll_loop B NX_OS_CRB_RETRY_COUNT"

definition issue_cmd :: "'h bus \<Rightarrow> u32 \<Rightarrow> u32 \<Rightarrow> u32 \<Rightarrow> u32 \<Rightarrow> u32 \<Rightarrow> u32 \<Rightarrow> ('h, nx_rcode) io" where
  "issue_cmd B pci_fn version arg1 arg2 arg3 cmd = do {
     locked \<leftarrow> api_lock B;
     if locked \<noteq> 0 then ret NX_RCODE_TIMEOUT
     else do {
       rcode \<leftarrow> do {
         nx_os_nic_reg_write_w1 B NX_SIGN_CRB_OFFSET (NX_CDRP_SIGNATURE_MAKE pci_fn version);
         nx_os_nic_reg_write_w1 B NX_ARG1_CRB_OFFSET arg1;
         nx_os_nic_reg_write_w1 B NX_ARG2_CRB_OFFSET arg2;
         nx_os_nic_reg_write_w1 B NX_ARG3_CRB_OFFSET arg3;
         nx_os_nic_reg_write_w1 B NX_CDRP_CRB_OFFSET (NX_CDRP_FORM_CMD cmd);
         rsp \<leftarrow> poll_rsp B;
         (if rsp = NX_CDRP_RSP_TIMEOUT then ret NX_RCODE_TIMEOUT
          else if rsp = NX_CDRP_RSP_FAIL then nx_os_nic_reg_read_w1 B NX_ARG1_CRB_OFFSET
          else ret NX_RCODE_SUCCESS) };
       api_unlock B;
       ret rcode } }"

subsection \<open>Commands with arguments and answers in registers\<close>

text \<open>\<open>if_ok\<close>: the answer is read when the command succeeded; the \<open>READ_MAX\<close> queries from rules on
  read \<open>ARG1\<close> in any case.\<close>

definition if_ok :: "nx_rcode \<Rightarrow> ('h, 'a) io \<Rightarrow> ('h, nx_rcode \<times> 'a option) io" where
  "if_ok rcode m = (if rcode \<noteq> NX_RCODE_SUCCESS then ret (rcode, None) else do { x \<leftarrow> m; ret (rcode, Some x) })"

definition nx_fw_cmd_submit_capabilities ::
    "'h bus \<Rightarrow> u32 \<Rightarrow> u32 \<times> u32 \<times> u32 \<Rightarrow> ('h, nx_rcode \<times> (u32 \<times> u32 \<times> u32) option) io" where
  "nx_fw_cmd_submit_capabilities B pci_func inp = (case inp of (in0, in1, in2) \<Rightarrow> do {
     rcode \<leftarrow> issue_cmd B pci_func NXHAL_VERSION in0 in1 in2 1;
     if_ok rcode (do {
       c0 \<leftarrow> nx_os_nic_reg_read_w1 B NX_ARG1_CRB_OFFSET;
       c1 \<leftarrow> nx_os_nic_reg_read_w1 B NX_ARG2_CRB_OFFSET;
       c2 \<leftarrow> nx_os_nic_reg_read_w1 B NX_ARG3_CRB_OFFSET;
       ret (c0, c1, c2) }) })"

definition nx_fw_cmd_get_toe_license :: "'h bus \<Rightarrow> u32 \<Rightarrow> ('h, nx_rcode \<times> u32 option) io" where
  "nx_fw_cmd_get_toe_license B pci_func = do {
     rcode \<leftarrow> issue_cmd B pci_func NXHAL_VERSION 0 0 0 0x1d;
     if_ok rcode (nx_os_nic_reg_read_w1 B NX_ARG2_CRB_OFFSET) }"

definition nx_fw_cmd_query_phy :: "'h bus \<Rightarrow> u32 \<Rightarrow> u32 \<Rightarrow> ('h, nx_rcode \<times> u32 option) io" where
  "nx_fw_cmd_query_phy B pci_func reg = do {
     rcode \<leftarrow> issue_cmd B pci_func NXHAL_VERSION reg 0 0 0x13;
     if_ok rcode (nx_os_nic_reg_read_w1 B NX_ARG1_CRB_OFFSET) }"

definition nx_fw_cmd_set_phy :: "'h bus \<Rightarrow> u32 \<Rightarrow> u32 \<Rightarrow> u32 \<Rightarrow> ('h, nx_rcode) io" where
  "nx_fw_cmd_set_phy B pci_func reg val = issue_cmd B pci_func NXHAL_VERSION reg val 0 0x14"

definition nx_fw_cmd_query_hw_reg :: "'h bus \<Rightarrow> u32 \<Rightarrow> u32 \<Rightarrow> u32 \<Rightarrow> ('h, nx_rcode \<times> u32 option) io" where
  "nx_fw_cmd_query_hw_reg B pci_func reg offset_unit = do {
     rcode \<leftarrow> issue_cmd B pci_func NXHAL_VERSION reg offset_unit 0 0x15;
     if_ok rcode (nx_os_nic_reg_read_w1 B NX_ARG1_CRB_OFFSET) }"

definition nx_fw_cmd_get_flow_ctl :: "'h bus \<Rightarrow> u32 \<Rightarrow> u32 \<Rightarrow> ('h, nx_rcode \<times> u32 option) io" where
  "nx_fw_cmd_get_flow_ctl B pci_func is_tx = do {
     rcode \<leftarrow> issue_cmd B pci_func NXHAL_VERSION is_tx 0 0 0x16;
     if_ok rcode (nx_os_nic_reg_read_w1 B NX_ARG1_CRB_OFFSET) }"

definition nx_fw_cmd_set_flow_ctl :: "'h bus \<Rightarrow> u32 \<Rightarrow> u32 \<Rightarrow> u32 \<Rightarrow> ('h, nx_rcode) io" where
  "nx_fw_cmd_set_flow_ctl B pci_func is_tx val = issue_cmd B pci_func NXHAL_VERSION is_tx val 0 0x17"

text \<open>The first two queries never store a maximum.\<close>

definition nx_fw_cmd_query_max_rds_per_ctx :: "'h bus \<Rightarrow> u32 \<Rightarrow> ('h, nx_rcode) io" where
  "nx_fw_cmd_query_max_rds_per_ctx B pci_func = issue_cmd B pci_func NXHAL_VERSION 0 0 0 2"

definition nx_fw_cmd_query_max_sds_per_ctx :: "'h bus \<Rightarrow> u32 \<Rightarrow> ('h, nx_rcode) io" where
  "nx_fw_cmd_query_max_sds_per_ctx B pci_func = issue_cmd B pci_func NXHAL_VERSION 0 0 0 3"

definition nx_fw_cmd_query_max_rules_per_ctx :: "'h bus \<Rightarrow> u32 \<Rightarrow> ('h, nx_rcode \<times> u32) io" where
  "nx_fw_cmd_query_max_rules_per_ctx B pci_func = do {
     rcode \<leftarrow> issue_cmd B pci_func NXHAL_VERSION 0 0 0 4;
     mx \<leftarrow> nx_os_nic_reg_read_w1 B NX_ARG1_CRB_OFFSET;
     ret (rcode, mx) }"

definition nx_fw_cmd_query_max_rx_ctx :: "'h bus \<Rightarrow> u32 \<Rightarrow> ('h, nx_rcode \<times> u32) io" where
  "nx_fw_cmd_query_max_rx_ctx B pci_func = do {
     rcode \<leftarrow> issue_cmd B pci_func NXHAL_VERSION 0 0 0 5;
     mx \<leftarrow> nx_os_nic_reg_read_w1 B NX_ARG1_CRB_OFFSET;
     ret (rcode, mx) }"

definition nx_fw_cmd_query_max_tx_ctx :: "'h bus \<Rightarrow> u32 \<Rightarrow> ('h, nx_rcode \<times> u32) io" where
  "nx_fw_cmd_query_max_tx_ctx B pci_func = do {
     rcode \<leftarrow> issue_cmd B pci_func NXHAL_VERSION 0 0 0 6;
     mx \<leftarrow> nx_os_nic_reg_read_w1 B NX_ARG1_CRB_OFFSET;
     ret (rcode, mx) }"

definition nx_fw_cmd_query_max_mtu :: "'h bus \<Rightarrow> u32 \<Rightarrow> ('h, nx_rcode \<times> u32) io" where
  "nx_fw_cmd_query_max_mtu B pci_func = do {
     rcode \<leftarrow> issue_cmd B pci_func NXHAL_VERSION 0 0 0 0x18;
     mx \<leftarrow> nx_os_nic_reg_read_w1 B NX_ARG1_CRB_OFFSET;
     ret (rcode, mx) }"

definition nx_fw_cmd_query_max_lro :: "'h bus \<Rightarrow> u32 \<Rightarrow> ('h, nx_rcode \<times> u32) io" where
  "nx_fw_cmd_query_max_lro B pci_func = do {
     rcode \<leftarrow> issue_cmd B pci_func NXHAL_VERSION 0 0 0 0x19;
     mx \<leftarrow> nx_os_nic_reg_read_w1 B NX_ARG1_CRB_OFFSET;
     ret (rcode, mx) }"

definition nx_fw_cmd_query_max_lro_per_board :: "'h bus \<Rightarrow> u32 \<Rightarrow> ('h, nx_rcode \<times> u32) io" where
  "nx_fw_cmd_query_max_lro_per_board B pci_func = do {
     rcode \<leftarrow> issue_cmd B pci_func NXHAL_VERSION 0 0 0 0x1e;
     mx \<leftarrow> nx_os_nic_reg_read_w1 B NX_ARG1_CRB_OFFSET;
     ret (rcode, mx) }"

definition nx_fw_cmd_set_gbe_port :: "'h bus \<Rightarrow> u32 \<Rightarrow> u32 \<Rightarrow> u32 \<Rightarrow> u32 \<Rightarrow> ('h, nx_rcode) io" where
  "nx_fw_cmd_set_gbe_port B pci_func speed duplex autoneg =
     issue_cmd B pci_func NXHAL_VERSION speed duplex autoneg 0x1f"

text \<open>The receive context is its firmware handle; \<^const>\<open>None\<close> is a null context or device.\<close>

definition nx_fw_cmd_set_mtu :: "'h bus \<Rightarrow> u32 option \<Rightarrow> u32 \<Rightarrow> u32 \<Rightarrow> ('h, nx_rcode) io" where
  "nx_fw_cmd_set_mtu B ctx pci_func mtu =
     (case ctx of None \<Rightarrow> ret NX_RCODE_INVALID_ARGS
      | Some context_id \<Rightarrow> issue_cmd B pci_func NXHAL_VERSION context_id mtu 0 0x12)"

definition nx_fw_cmd_configure_toe :: "'h bus \<Rightarrow> u32 option \<Rightarrow> u32 \<Rightarrow> u32 \<Rightarrow> ('h, nx_rcode) io" where
  "nx_fw_cmd_configure_toe B ctx pci_func op_code =
     (case ctx of None \<Rightarrow> ret NX_RCODE_INVALID_ARGS
      | Some context_id \<Rightarrow> issue_cmd B pci_func NXHAL_VERSION context_id op_code 0 0x1a)"

definition nx_fw_cmd_query_pexq :: "'h bus \<Rightarrow> u32 \<Rightarrow> ('h, nx_rcode \<times> u32 \<times> u32) io" where
  "nx_fw_cmd_query_pexq B pci_func = do {
     rcode \<leftarrow> issue_cmd B pci_func NXHAL_VERSION 0 0 0 0x1c;
     pexq_length \<leftarrow> nx_os_nic_reg_read_w1 B NX_ARG1_CRB_OFFSET;
     pexq_fc_array_size \<leftarrow> nx_os_nic_reg_read_w1 B NX_ARG2_CRB_OFFSET;
     ret (rcode, pexq_length, pexq_fc_array_size) }"

subsection \<open>The semaphore is balanced\<close>

lemma api_lock_changes:
  assumes "sem_bus B SEM5_L"
  shows "changes SEM5_L SEM5_U (\<lambda>r. if r = 0 then 1 else 0) (api_lock B)"
  unfolding api_lock_def
proof (rule changes_bind [OF sem_wait_changes [OF assms]])
  show "SEM5_L \<noteq> SEM5_U" by (simp add: cdrp_addrs)
  show "changes SEM5_L SEM5_U (\<lambda>y. (if y = 0 then 1 else 0) - (if ok then 1 else 0)) (ret (if ok then 0 else - 1 :: int))" for ok
    by (rule changes_ret) simp
qed

lemma ucast_SEM5_U: "ucast (ucast SEM5_U :: u32) = SEM5_U"
  by (simp add: cdrp_addrs)

lemma api_unlock_changes: "changes SEM5_L SEM5_U (\<lambda>_. - 1) (api_unlock B)"
  unfolding api_unlock_def nx_os_nic_reg_read_w0_def ucast_SEM5_U
  by (rule changes_bind [OF release_rd]) (auto intro: changes_ret simp: cdrp_addrs)

interpretation api: hw_lock SEM5_L SEM5_U "api_lock (sem_fix SEM5_L B)" "api_unlock (sem_fix SEM5_L B)"
  for B :: "'h bus"
  by unfold_locales (rule api_lock_changes [OF sem_fix_bus] api_unlock_changes)+

lemma cdrp_regs_not_sem:
  "NX_CDRP_CRB_OFFSET \<noteq> SEM5_L" "NX_CDRP_CRB_OFFSET \<noteq> SEM5_U" "NX_ARG1_CRB_OFFSET \<noteq> SEM5_L"
  "NX_ARG1_CRB_OFFSET \<noteq> SEM5_U" "NX_ARG2_CRB_OFFSET \<noteq> SEM5_L" "NX_ARG2_CRB_OFFSET \<noteq> SEM5_U"
  "NX_ARG3_CRB_OFFSET \<noteq> SEM5_L" "NX_ARG3_CRB_OFFSET \<noteq> SEM5_U"
  by (simp_all add: cdrp_addrs)

lemma neutral_read_w1:
  "off \<noteq> SEM5_L \<Longrightarrow> off \<noteq> SEM5_U \<Longrightarrow> neutral SEM5_L SEM5_U (nx_os_nic_reg_read_w1 B off)"
  by (simp add: nx_os_nic_reg_read_w1_def neutral_rd)

lemma neutral_write_w1: "c () = 0 \<Longrightarrow> changes SEM5_L SEM5_U c (nx_os_nic_reg_write_w1 B off v)"
  by (simp add: nx_os_nic_reg_write_w1_def changes_wr)

lemma neutral_poll_loop: "neutral SEM5_L SEM5_U (poll_loop B n)"
proof (induction n)
  case 0
  show ?case
    unfolding poll_loop.simps
    by (intro neutral_bind neutral_read_w1 cdrp_regs_not_sem changes_ret) simp
next
  case (Suc n)
  show ?case
    unfolding poll_loop.simps
    by (intro neutral_bind neutral_read_w1 cdrp_regs_not_sem changes_if changes_ret Suc) simp
qed

lemma neutral_issue_cmd_fix:
  "neutral SEM5_L SEM5_U (issue_cmd (sem_fix SEM5_L B) pci_fn version arg1 arg2 arg3 cmd)"
  unfolding issue_cmd_def poll_rsp_def
  by (rule api.protect [where f = "\<lambda>x. x"], intro neutral_bind neutral_write_w1 neutral_poll_loop
      changes_if changes_ret neutral_read_w1 cdrp_regs_not_sem; simp)

lemma neutral_issue_cmd:
  "sem_bus B SEM5_L \<Longrightarrow> neutral SEM5_L SEM5_U (issue_cmd B pci_fn version arg1 arg2 arg3 cmd)"
  using neutral_issue_cmd_fix [of B pci_fn version arg1 arg2 arg3 cmd] by (simp add: sem_fix_id)

lemma neutral_if_ok: "neutral SEM5_L SEM5_U m \<Longrightarrow> neutral SEM5_L SEM5_U (if_ok rcode m)"
  unfolding if_ok_def by (intro changes_if changes_ret neutral_bind; simp)

subsection \<open>The sequence of accesses\<close>

lemma sem_wait_log:
  "\<exists>vs. log (snd (run_state (sem_wait B L n) d)) = log d @ map (Rd L) vs"
proof (induction n arbitrary: d)
  case 0
  show ?case by (auto simp: io_simps intro: exI [of _ "[v]" for v])
next
  case (Suc n)
  let ?v = "fst (bus_rd B L (hw d))"
  let ?d = "d\<lparr>hw := snd (bus_rd B L (hw d)), log := log d @ [Rd L ?v]\<rparr>"
  obtain vs where "log (snd (run_state (sem_wait B L n) ?d)) = log ?d @ map (Rd L) vs"
    using Suc.IH by blast
  then have "log (snd (run_state (sem_wait B L n) ?d)) = log d @ map (Rd L) (?v # vs)" by simp
  moreover have "log ?d = log d @ map (Rd L) [?v]" by simp
  ultimately show ?case
    by (simp only: sem_wait.simps run_bind run_NXRD32 prod.case run_state_if run_ret snd_conv split: if_split) blast
qed

definition pending :: "u32 list \<Rightarrow> bool" where
  "pending rs \<longleftrightarrow> list_all (\<lambda>x. \<not> NX_CDRP_IS_RSP x) rs"

lemma poll_loop_log:
  "\<exists>rs. log (snd (run_state (poll_loop B n) d)) = log d @ map (Rd NX_CDRP_CRB_OFFSET) rs \<and>
     rs \<noteq> [] \<and> length rs \<le> n + 1 \<and> pending (butlast rs) \<and>
     fst (run_state (poll_loop B n) d) = (if length rs = n + 1 then NX_CDRP_RSP_TIMEOUT else last rs)"
proof (induction n arbitrary: d)
  case 0
  show ?case
    by (rule exI [of _ "[fst (bus_rd B NX_CDRP_CRB_OFFSET (hw d))]"])
      (simp add: io_simps nx_os_nic_reg_read_w1_def pending_def)
next
  case (Suc n)
  let ?v = "fst (bus_rd B NX_CDRP_CRB_OFFSET (hw d))"
  let ?d = "d\<lparr>hw := snd (bus_rd B NX_CDRP_CRB_OFFSET (hw d)), log := log d @ [Rd NX_CDRP_CRB_OFFSET ?v]\<rparr>"
  show ?case
  proof (cases "NX_CDRP_IS_RSP ?v")
    case True
    then show ?thesis
      by (intro exI [of _ "[?v]"]) (simp add: io_simps nx_os_nic_reg_read_w1_def pending_def)
  next
    case False
    obtain rs where rs: "log (snd (run_state (poll_loop B n) ?d)) = log ?d @ map (Rd NX_CDRP_CRB_OFFSET) rs"
      "rs \<noteq> []" "length rs \<le> n + 1" "pending (butlast rs)"
      "fst (run_state (poll_loop B n) ?d) = (if length rs = n + 1 then NX_CDRP_RSP_TIMEOUT else last rs)"
      using Suc.IH by blast
    have run: "run_state (poll_loop B (Suc n)) d = run_state (poll_loop B n) ?d"
      using False by (simp add: io_simps nx_os_nic_reg_read_w1_def)
    show ?thesis
      unfolding run using rs False
      by (intro exI [of _ "?v # rs"]) (simp add: pending_def)
  qed
qed

lemma snd_run_bind: "snd (run_state (State_Monad.bind m f) d) = snd (run_state (f (fst (run_state m d))) (snd (run_state m d)))"
  and fst_run_bind: "fst (run_state (State_Monad.bind m f) d) = fst (run_state (f (fst (run_state m d))) (snd (run_state m d)))"
  by (simp_all add: run_bind case_prod_beta)

text \<open>
  The accesses of a command are, in this order: attempts at the semaphore; if it was got, the
  signature, the three arguments and the command word, one write each; reads of the response
  register, all but the last still pending, at most 4001 of them; a read of the failure code
  exactly after a failure response, which then is the result; and the release of the semaphore. The
  command register is written once and never cleared.
\<close>

theorem issue_cmd_sequence:
  "\<exists>ls. fst (run_state (issue_cmd B fn ver a1 a2 a3 cmd) d) = NX_RCODE_TIMEOUT \<and>
          log (snd (run_state (issue_cmd B fn ver a1 a2 a3 cmd) d)) = log d @ map (Rd SEM5_L) ls
     \<or> (\<exists>rs u. log (snd (run_state (issue_cmd B fn ver a1 a2 a3 cmd) d)) = log d @ map (Rd SEM5_L) ls @
            [Wr NX_SIGN_CRB_OFFSET (NX_CDRP_SIGNATURE_MAKE fn ver), Wr NX_ARG1_CRB_OFFSET a1,
             Wr NX_ARG2_CRB_OFFSET a2, Wr NX_ARG3_CRB_OFFSET a3,
             Wr NX_CDRP_CRB_OFFSET (NX_CDRP_FORM_CMD cmd)] @ map (Rd NX_CDRP_CRB_OFFSET) rs @
            (if length rs < 4001 \<and> last rs = NX_CDRP_RSP_FAIL
             then [Rd NX_ARG1_CRB_OFFSET (fst (run_state (issue_cmd B fn ver a1 a2 a3 cmd) d))] else []) @
            [Rd SEM5_U u] \<and>
          rs \<noteq> [] \<and> length rs \<le> 4001 \<and> pending (butlast rs) \<and>
          (if length rs = 4001 \<or> last rs = NX_CDRP_RSP_TIMEOUT
           then fst (run_state (issue_cmd B fn ver a1 a2 a3 cmd) d) = NX_RCODE_TIMEOUT
           else last rs = NX_CDRP_RSP_FAIL \<or>
                fst (run_state (issue_cmd B fn ver a1 a2 a3 cmd) d) = NX_RCODE_SUCCESS))"
proof -
  obtain ok d1 where w: "run_state (sem_wait B SEM5_L NX_OS_CRB_RETRY_COUNT) d = (ok, d1)"
    by (cases "run_state (sem_wait B SEM5_L NX_OS_CRB_RETRY_COUNT) d")
  obtain ls where ls: "log d1 = log d @ map (Rd SEM5_L) ls"
    using sem_wait_log [of B SEM5_L NX_OS_CRB_RETRY_COUNT d] w by auto
  show ?thesis
  proof (cases ok)
    case False
    with w ls show ?thesis
      by (intro exI [of _ ls]) (simp add: issue_cmd_def api_lock_def run_bind run_ret)
  next
    case True
    let ?cmds = "[(NX_SIGN_CRB_OFFSET, NX_CDRP_SIGNATURE_MAKE fn ver), (NX_ARG1_CRB_OFFSET, a1),
       (NX_ARG2_CRB_OFFSET, a2), (NX_ARG3_CRB_OFFSET, a3), (NX_CDRP_CRB_OFFSET, NX_CDRP_FORM_CMD cmd)]"
    let ?d2 = "snd (run_state (write_all B ?cmds) d1)"
    have log2: "log ?d2 = log d1 @ map (\<lambda>(a, v). Wr a v) ?cmds"
      by (simp add: io_simps)
    obtain rsp d3 where p: "run_state (poll_loop B NX_OS_CRB_RETRY_COUNT) ?d2 = (rsp, d3)"
      by (cases "run_state (poll_loop B NX_OS_CRB_RETRY_COUNT) ?d2")
    obtain rs where rs: "log d3 = log ?d2 @ map (Rd NX_CDRP_CRB_OFFSET) rs"
      "rs \<noteq> []" "length rs \<le> 4001" "pending (butlast rs)"
      "rsp = (if length rs = 4001 then NX_CDRP_RSP_TIMEOUT else last rs)"
      using poll_loop_log [of B NX_OS_CRB_RETRY_COUNT ?d2] p by (auto simp: NX_OS_CRB_RETRY_COUNT_def)
    let ?tail = "do { rcode \<leftarrow> (if rsp = NX_CDRP_RSP_TIMEOUT then ret NX_RCODE_TIMEOUT
          else if rsp = NX_CDRP_RSP_FAIL then nx_os_nic_reg_read_w1 B NX_ARG1_CRB_OFFSET
          else ret NX_RCODE_SUCCESS); api_unlock B; ret rcode }"
    have run: "run_state (issue_cmd B fn ver a1 a2 a3 cmd) d = run_state ?tail d3"
      using True w p
      by (simp add: issue_cmd_def api_lock_def poll_rsp_def io_simps nx_os_nic_reg_write_w1_def split: prod.split)
    have ne: "NX_CDRP_RSP_TIMEOUT \<noteq> NX_CDRP_RSP_FAIL"
      by (simp add: NX_CDRP_RSP_TIMEOUT_def NX_CDRP_RSP_FAIL_def)
    have fail: "rsp = NX_CDRP_RSP_FAIL \<longleftrightarrow> length rs < 4001 \<and> last rs = NX_CDRP_RSP_FAIL"
      "rsp = NX_CDRP_RSP_TIMEOUT \<longleftrightarrow> length rs = 4001 \<or> last rs = NX_CDRP_RSP_TIMEOUT"
      using rs(3,5) ne by auto
    have tail: "\<exists>u. log (snd (run_state ?tail d3)) = log d3 @
        (if rsp = NX_CDRP_RSP_FAIL then [Rd NX_ARG1_CRB_OFFSET (fst (run_state ?tail d3))] else []) @ [Rd SEM5_U u]"
      "if rsp = NX_CDRP_RSP_TIMEOUT then fst (run_state ?tail d3) = NX_RCODE_TIMEOUT
       else rsp = NX_CDRP_RSP_FAIL \<or> fst (run_state ?tail d3) = NX_RCODE_SUCCESS"
      using ne by (auto simp: io_simps api_unlock_def nx_os_nic_reg_read_w0_def ucast_SEM5_U nx_os_nic_reg_read_w1_def)
    obtain r d4 where rd: "run_state (issue_cmd B fn ver a1 a2 a3 cmd) d = (r, d4)" "run_state ?tail d3 = (r, d4)"
      using run by (cases "run_state ?tail d3") auto
    obtain u where u: "log d4 = log d3 @ (if rsp = NX_CDRP_RSP_FAIL then [Rd NX_ARG1_CRB_OFFSET r] else []) @ [Rd SEM5_U u]"
      using tail(1) unfolding rd(2) fst_conv snd_conv by blast
    have res: "if rsp = NX_CDRP_RSP_TIMEOUT then r = NX_RCODE_TIMEOUT
       else rsp = NX_CDRP_RSP_FAIL \<or> r = NX_RCODE_SUCCESS"
      using tail(2) unfolding rd(2) fst_conv .
    show ?thesis
      unfolding rd(1) fst_conv snd_conv
    proof (rule exI [of _ ls], rule disjI2, rule exI [of _ rs], rule exI [of _ u], intro conjI)
      show "rs \<noteq> []" "length rs \<le> 4001" "pending (butlast rs)" by (rule rs)+
      show "log d4 = log d @ map (Rd SEM5_L) ls @
            [Wr NX_SIGN_CRB_OFFSET (NX_CDRP_SIGNATURE_MAKE fn ver), Wr NX_ARG1_CRB_OFFSET a1,
             Wr NX_ARG2_CRB_OFFSET a2, Wr NX_ARG3_CRB_OFFSET a3,
             Wr NX_CDRP_CRB_OFFSET (NX_CDRP_FORM_CMD cmd)] @ map (Rd NX_CDRP_CRB_OFFSET) rs @
            (if length rs < 4001 \<and> last rs = NX_CDRP_RSP_FAIL then [Rd NX_ARG1_CRB_OFFSET r] else []) @ [Rd SEM5_U u]"
        unfolding u rs(1) log2 ls fail(1) by simp
      show "if length rs = 4001 \<or> last rs = NX_CDRP_RSP_TIMEOUT then r = NX_RCODE_TIMEOUT
           else last rs = NX_CDRP_RSP_FAIL \<or> r = NX_RCODE_SUCCESS"
        using res unfolding fail by (auto split: if_splits)
    qed
  qed
qed
subsection \<open>A firmware that answers\<close>

text \<open>
  The firmware keeps the registers; a command word starts it, the response register shows the
  command for \<open>k\<close> more reads, and then the response and the answers \<open>F\<close> computes from signature,
  command word, arguments and the rest of the machine (\<open>fenv\<close>: the memory it can reach by DMA).
\<close>

record 's fw =
  fregs :: "u64 \<Rightarrow> u32"
  fbusy :: nat
  fenv :: 's

type_synonym 's firmware =
  "u32 \<Rightarrow> u32 \<Rightarrow> u32 \<times> u32 \<times> u32 \<Rightarrow> 's \<Rightarrow> (u32 \<times> u32 \<times> u32 \<times> u32) \<times> 's"

definition fw_finish :: "'s firmware \<Rightarrow> 's fw \<Rightarrow> 's fw" where
  "fw_finish F h = (case F (fregs h NX_SIGN_CRB_OFFSET) (fregs h NX_CDRP_CRB_OFFSET)
       (fregs h NX_ARG1_CRB_OFFSET, fregs h NX_ARG2_CRB_OFFSET, fregs h NX_ARG3_CRB_OFFSET) (fenv h) of
     ((rsp, r1, r2, r3), e) \<Rightarrow>
       h\<lparr>fregs := (fregs h)(NX_CDRP_CRB_OFFSET := rsp, NX_ARG1_CRB_OFFSET := r1,
           NX_ARG2_CRB_OFFSET := r2, NX_ARG3_CRB_OFFSET := r3), fenv := e\<rparr>)"

definition fw_bus :: "'s firmware \<Rightarrow> nat \<Rightarrow> 's fw bus" where
  "fw_bus F k =
     \<lparr>bus_rd = \<lambda>a h.
        if a = SEM5_L then (1, h)
        else if a = NX_CDRP_CRB_OFFSET \<and> \<not> NX_CDRP_IS_RSP (fregs h a) then
          (if fbusy h = 0 then (fregs (fw_finish F h) a, fw_finish F h)
           else (fregs h a, h\<lparr>fbusy := fbusy h - 1\<rparr>))
        else (fregs h a, h),
      bus_wr = \<lambda>a v h. if a = NX_CDRP_CRB_OFFSET then h\<lparr>fregs := (fregs h)(a := v), fbusy := k\<rparr>
                       else h\<lparr>fregs := (fregs h)(a := v)\<rparr>\<rparr>"

lemma cdrp_distinct:
  "NX_CDRP_CRB_OFFSET \<noteq> NX_ARG1_CRB_OFFSET" "NX_CDRP_CRB_OFFSET \<noteq> NX_ARG2_CRB_OFFSET"
  "NX_CDRP_CRB_OFFSET \<noteq> NX_ARG3_CRB_OFFSET" "NX_CDRP_CRB_OFFSET \<noteq> NX_SIGN_CRB_OFFSET"
  "NX_ARG1_CRB_OFFSET \<noteq> NX_ARG2_CRB_OFFSET" "NX_ARG1_CRB_OFFSET \<noteq> NX_ARG3_CRB_OFFSET"
  "NX_ARG2_CRB_OFFSET \<noteq> NX_ARG3_CRB_OFFSET" "NX_ARG1_CRB_OFFSET \<noteq> NX_SIGN_CRB_OFFSET"
  "NX_ARG2_CRB_OFFSET \<noteq> NX_SIGN_CRB_OFFSET" "NX_ARG3_CRB_OFFSET \<noteq> NX_SIGN_CRB_OFFSET"
  by (simp_all add: cdrp_addrs)

lemma sem5_distinct: "SEM5_L \<noteq> SEM5_U" "SEM5_U \<noteq> NX_CDRP_CRB_OFFSET"
  by (simp_all add: cdrp_addrs)

lemma form_cmd_pending: "\<not> NX_CDRP_IS_RSP (NX_CDRP_FORM_CMD cmd)"
proof -
  have "bit (NX_CDRP_FORM_CMD cmd AND NX_CDRP_CMD_BIT) 31"
    by (simp add: NX_CDRP_FORM_CMD_def NX_CDRP_CMD_BIT_def bit_simps)
  then show ?thesis
    by (auto simp: NX_CDRP_IS_RSP_def)
qed

lemma yields_read_w1:
  "bus_rd B a h = (v, h') \<Longrightarrow> yields (nx_os_nic_reg_read_w1 B a) h v h'"
  unfolding nx_os_nic_reg_read_w1_def by (rule yields_rd)

lemma yields_api_lock: "yields (api_lock (fw_bus F k)) h 0 h"
proof -
  have "yields (sem_wait (fw_bus F k) SEM5_L NX_OS_CRB_RETRY_COUNT) h True h"
    by (simp add: yields_def NX_OS_CRB_RETRY_COUNT_def eval_nat_numeral(3) [of "num.Bit0 n" for n] fw_bus_def run_bind run_NXRD32 run_ret numeral_eq_Suc)
  then show ?thesis
    unfolding api_lock_def by (rule yields_bind) (simp add: yields_ret)
qed

lemma yields_api_unlock: "yields (api_unlock (fw_bus F k)) h 0 h"
  unfolding api_unlock_def nx_os_nic_reg_read_w0_def ucast_SEM5_U
  by (rule yields_bind [OF yields_rd yields_ret]) (simp add: fw_bus_def sem5_distinct sem5_distinct [symmetric])

lemma poll_answered:
  assumes "\<not> NX_CDRP_IS_RSP (fregs h NX_CDRP_CRB_OFFSET)"
    "NX_CDRP_IS_RSP (fregs (fw_finish F h) NX_CDRP_CRB_OFFSET)" "fbusy h < n"
  shows "yields (poll_loop (fw_bus F k) n) h (fregs (fw_finish F h) NX_CDRP_CRB_OFFSET)
           (fw_finish F (h\<lparr>fbusy := 0\<rparr>))"
  using assms
proof (induction n arbitrary: h)
  case 0
  then show ?case by simp
next
  case (Suc n)
  have fin: "fregs (fw_finish F (h\<lparr>fbusy := b\<rparr>)) = fregs (fw_finish F h)" for h b
    by (simp add: fw_finish_def split: prod.split)
  show ?case
  proof (cases "fbusy h")
    case 0
    then have h0: "h\<lparr>fbusy := 0\<rparr> = h" by simp
    have "bus_rd (fw_bus F k) NX_CDRP_CRB_OFFSET h = (fregs (fw_finish F h) NX_CDRP_CRB_OFFSET, fw_finish F h)"
      using Suc.prems 0 by (simp add: fw_bus_def cdrp_regs_not_sem)
    from Suc.prems(2) show ?thesis
      unfolding h0 poll_loop.simps
      by (intro yields_bind [OF yields_read_w1 [OF \<open>bus_rd _ _ h = _\<close>]]) (simp add: yields_ret)
  next
    case (Suc b)
    let ?h = "h\<lparr>fbusy := b\<rparr>"
    have rd: "bus_rd (fw_bus F k) NX_CDRP_CRB_OFFSET h = (fregs h NX_CDRP_CRB_OFFSET, ?h)"
      using Suc.prems(1) Suc by (simp add: fw_bus_def cdrp_regs_not_sem)
    have "yields (poll_loop (fw_bus F k) n) ?h (fregs (fw_finish F ?h) NX_CDRP_CRB_OFFSET) (fw_finish F (?h\<lparr>fbusy := 0\<rparr>))"
      using Suc.prems Suc by (intro Suc.IH) (simp_all add: fin)
    then show ?thesis
      unfolding poll_loop.simps using Suc.prems(1)
      by (intro yields_bind [OF yields_read_w1 [OF rd]]) (simp add: fin)
  qed
qed

lemma poll_late:
  assumes "\<not> NX_CDRP_IS_RSP (fregs h NX_CDRP_CRB_OFFSET)" "n \<le> fbusy h"
  shows "\<exists>h'. yields (poll_loop (fw_bus F k) n) h NX_CDRP_RSP_TIMEOUT h'"
  using assms
proof (induction n arbitrary: h)
  case 0
  show ?case
    unfolding poll_loop.simps
    by (rule exI, rule yields_bind [OF yields_read_w1 yields_ret], rule prod.collapse [symmetric])
next
  case (Suc n)
  let ?h = "h\<lparr>fbusy := fbusy h - 1\<rparr>"
  have rd: "bus_rd (fw_bus F k) NX_CDRP_CRB_OFFSET h = (fregs h NX_CDRP_CRB_OFFSET, ?h)"
    using Suc.prems by (simp add: fw_bus_def cdrp_regs_not_sem)
  have "\<exists>h'. yields (poll_loop (fw_bus F k) n) ?h NX_CDRP_RSP_TIMEOUT h'"
    using Suc.prems by (intro Suc.IH) simp_all
  then obtain h' where "yields (poll_loop (fw_bus F k) n) ?h NX_CDRP_RSP_TIMEOUT h'" ..
  then have "yields (poll_loop (fw_bus F k) (Suc n)) h NX_CDRP_RSP_TIMEOUT h'"
    unfolding poll_loop.simps using Suc.prems(1)
    by (intro yields_bind [OF yields_read_w1 [OF rd]]) simp
  then show ?case by blast
qed

text \<open>The registers once a command has been written.\<close>

definition fw_started :: "nat \<Rightarrow> (u64 \<times> u32) list \<Rightarrow> u32 \<Rightarrow> 's fw \<Rightarrow> 's fw" where
  "fw_started k args w h =
     \<lparr>fregs = (fold (\<lambda>(a, v) r. r(a := v)) args (fregs h))(NX_CDRP_CRB_OFFSET := w), fbusy = k,
      fenv = fenv h\<rparr>"

definition cmd_writes :: "u32 \<Rightarrow> u32 \<Rightarrow> u32 \<Rightarrow> u32 \<Rightarrow> u32 \<Rightarrow> (u64 \<times> u32) list" where
  "cmd_writes fn ver a1 a2 a3 =
     [(NX_SIGN_CRB_OFFSET, NX_CDRP_SIGNATURE_MAKE fn ver), (NX_ARG1_CRB_OFFSET, a1),
      (NX_ARG2_CRB_OFFSET, a2), (NX_ARG3_CRB_OFFSET, a3)]"

lemma yields_write_w1:
  "yields (nx_os_nic_reg_write_w1 B a v) h () (bus_wr B a v h)"
  unfolding nx_os_nic_reg_write_w1_def by (rule yields_wr)

lemma issue_cmd_split:
  "issue_cmd B fn ver a1 a2 a3 cmd = do {
     locked \<leftarrow> api_lock B;
     if locked \<noteq> 0 then ret NX_RCODE_TIMEOUT
     else do {
       rcode \<leftarrow> do {
         write_all B (cmd_writes fn ver a1 a2 a3 @ [(NX_CDRP_CRB_OFFSET, NX_CDRP_FORM_CMD cmd)]);
         rsp \<leftarrow> poll_rsp B;
         (if rsp = NX_CDRP_RSP_TIMEOUT then ret NX_RCODE_TIMEOUT
          else if rsp = NX_CDRP_RSP_FAIL then nx_os_nic_reg_read_w1 B NX_ARG1_CRB_OFFSET
          else ret NX_RCODE_SUCCESS) };
       api_unlock B;
       ret rcode } }"
  by (simp add: issue_cmd_def cmd_writes_def nx_os_nic_reg_write_w1_def ret_def cong: if_cong)

lemma started_writes:
  "fold (\<lambda>(a, v). bus_wr (fw_bus F k) a v)
     (cmd_writes fn ver a1 a2 a3 @ [(NX_CDRP_CRB_OFFSET, w)]) h =
   fw_started k (cmd_writes fn ver a1 a2 a3) w h"
  by (cases h) (simp add: cmd_writes_def fw_started_def fw_bus_def cdrp_distinct cdrp_distinct [symmetric])

lemma yields_started:
  "yields (write_all (fw_bus F k) (cmd_writes fn ver a1 a2 a3 @ [(NX_CDRP_CRB_OFFSET, w)])) h ()
     (fw_started k (cmd_writes fn ver a1 a2 a3) w h)"
  by (subst started_writes [symmetric]) (rule yields_write_all)

lemma started_finish:
  "F (NX_CDRP_SIGNATURE_MAKE fn ver) w (a1, a2, a3) (fenv h) = ((rsp, r1, r2, r3), e) \<Longrightarrow>
   fw_finish F (fw_started k (cmd_writes fn ver a1 a2 a3) w h) =
     \<lparr>fregs = (fregs (fw_started k (cmd_writes fn ver a1 a2 a3) w h))
        (NX_CDRP_CRB_OFFSET := rsp, NX_ARG1_CRB_OFFSET := r1, NX_ARG2_CRB_OFFSET := r2, NX_ARG3_CRB_OFFSET := r3),
      fbusy = k, fenv = e\<rparr>"
  by (simp add: fw_finish_def fw_started_def cmd_writes_def cdrp_distinct cdrp_distinct [symmetric])

definition rsp_code :: "u32 \<Rightarrow> u32 \<Rightarrow> nx_rcode" where
  "rsp_code rsp r1 = (if rsp = NX_CDRP_RSP_TIMEOUT then NX_RCODE_TIMEOUT
     else if rsp = NX_CDRP_RSP_FAIL then r1 else NX_RCODE_SUCCESS)"

lemma issue_cmd_yields:
  assumes "yields (poll_rsp (fw_bus F k)) (fw_started k (cmd_writes fn ver a1 a2 a3) (NX_CDRP_FORM_CMD cmd) h) rsp h'"
    "fregs h' NX_ARG1_CRB_OFFSET = r1"
  shows "yields (issue_cmd (fw_bus F k) fn ver a1 a2 a3 cmd) h (rsp_code rsp r1) h'"
proof -
  have rd: "bus_rd (fw_bus F k) NX_ARG1_CRB_OFFSET h' = (r1, h')"
    using assms(2) by (simp add: fw_bus_def cdrp_distinct [symmetric] cdrp_regs_not_sem)
  have "yields (if rsp = NX_CDRP_RSP_TIMEOUT then ret NX_RCODE_TIMEOUT
          else if rsp = NX_CDRP_RSP_FAIL then nx_os_nic_reg_read_w1 (fw_bus F k) NX_ARG1_CRB_OFFSET
          else ret NX_RCODE_SUCCESS) h' (rsp_code rsp r1) h'"
    using yields_read_w1 [OF rd] by (simp add: rsp_code_def yields_ret)
  then show ?thesis
    unfolding issue_cmd_split
    by (intro yields_bind [OF yields_api_lock])
      (simp only: simp_thms if_False if_True not_True_eq_False not_False_eq_True, rule yields_bind,
        rule yields_bind, rule yields_started, rule yields_bind, rule assms(1), assumption,
        rule yields_bind, rule yields_api_unlock, rule yields_ret)
qed

lemma issue_cmd_fw:
  assumes "F (NX_CDRP_SIGNATURE_MAKE fn ver) (NX_CDRP_FORM_CMD cmd) (a1, a2, a3) (fenv h) = ((rsp, r1, r2, r3), e)"
    "NX_CDRP_IS_RSP rsp"
  shows "\<exists>h'. yields (issue_cmd (fw_bus F k) fn ver a1 a2 a3 cmd) h
           (if k < 4000 then rsp_code rsp r1 else NX_RCODE_TIMEOUT) h' \<and>
         (4000 \<le> k \<or> (fregs h' NX_ARG1_CRB_OFFSET, fregs h' NX_ARG2_CRB_OFFSET, fregs h' NX_ARG3_CRB_OFFSET,
            fenv h') = (r1, r2, r3, e))"
proof -
  let ?s = "fw_started k (cmd_writes fn ver a1 a2 a3) (NX_CDRP_FORM_CMD cmd) h"
  note fin = started_finish [where F = F and w = "NX_CDRP_FORM_CMD cmd", OF assms(1), of k]
  have p: "\<not> NX_CDRP_IS_RSP (fregs ?s NX_CDRP_CRB_OFFSET)" "fbusy ?s = k"
    by (simp_all add: fw_started_def form_cmd_pending)
  show ?thesis
  proof (cases "k < 4000")
    case True
    let ?f = "fw_finish F (?s\<lparr>fbusy := 0\<rparr>)"
    have rsp: "fregs (fw_finish F ?s) NX_CDRP_CRB_OFFSET = rsp"
      by (simp add: fin cdrp_distinct)
    have regs: "(fregs ?f NX_ARG1_CRB_OFFSET, fregs ?f NX_ARG2_CRB_OFFSET, fregs ?f NX_ARG3_CRB_OFFSET, fenv ?f) = (r1, r2, r3, e)"
      using started_finish [where F = F and w = "NX_CDRP_FORM_CMD cmd", OF assms(1), of 0] by (simp add: fw_started_def cdrp_distinct)
    have "yields (poll_rsp (fw_bus F k)) ?s rsp ?f"
      using poll_answered [of ?s F NX_OS_CRB_RETRY_COUNT k] p rsp assms(2) True
      by (simp add: poll_rsp_def NX_OS_CRB_RETRY_COUNT_def)
    from issue_cmd_yields [OF this] regs True show ?thesis by auto
  next
    case False
    then obtain h' where "yields (poll_rsp (fw_bus F k)) ?s NX_CDRP_RSP_TIMEOUT h'"
      using poll_late [of ?s NX_OS_CRB_RETRY_COUNT F k] p
      by (auto simp: poll_rsp_def NX_OS_CRB_RETRY_COUNT_def)
    from issue_cmd_yields [OF this refl] False show ?thesis by (auto simp: rsp_code_def)
  qed
qed

text \<open>
  C13 A command comes back with the firmware's answer: with firmware that answers after k more reads
  of the response register, fewer than 4000, the result is success, or the code the firmware put
  in the first argument register when it reported failure, and the answers are in the argument
  registers; when it takes longer, the result is a timeout.
\<close>

theorem issue_cmd_answer:
  assumes "F (NX_CDRP_SIGNATURE_MAKE fn ver) (NX_CDRP_FORM_CMD cmd) (a1, a2, a3) (fenv h) = ((rsp, r1, r2, r3), e)"
    "NX_CDRP_IS_RSP rsp"
  shows "\<exists>h'. yields (issue_cmd (fw_bus F k) fn ver a1 a2 a3 cmd) h
           (if k < 4000 then rsp_code rsp r1 else NX_RCODE_TIMEOUT) h' \<and>
         (4000 \<le> k \<or> (fregs h' NX_ARG1_CRB_OFFSET, fregs h' NX_ARG2_CRB_OFFSET, fregs h' NX_ARG3_CRB_OFFSET,
            fenv h') = (r1, r2, r3, e))"
  using issue_cmd_fw [where F = F, OF assms] .

lemma rsp_ok: "rsp_code NX_CDRP_RSP_OK r = NX_RCODE_SUCCESS"
  by (simp add: rsp_code_def NX_CDRP_RSP_OK_def NX_CDRP_RSP_TIMEOUT_def NX_CDRP_RSP_FAIL_def)

definition echo_fw :: "unit firmware" where
  "echo_fw sig cmd args e = (case args of (a1, a2, a3) \<Rightarrow>
     (if a3 = 7 then (NX_CDRP_RSP_FAIL, 5, 0, 0) else (NX_CDRP_RSP_OK, a1 + 1, a2, a3), e))"

lemma issue_cmd_answer_witness:
  "(\<exists>h'. yields (issue_cmd (fw_bus echo_fw 10) 0 1 2 3 4 5) \<lparr>fregs = \<lambda>_. 0, fbusy = 0, fenv = ()\<rparr> NX_RCODE_SUCCESS h' \<and>
      (fregs h' NX_ARG1_CRB_OFFSET, fregs h' NX_ARG2_CRB_OFFSET, fregs h' NX_ARG3_CRB_OFFSET) = (3, 3, 4)) \<and>
   (\<exists>h'. yields (issue_cmd (fw_bus echo_fw 10) 0 1 2 3 7 5) \<lparr>fregs = \<lambda>_. 0, fbusy = 0, fenv = ()\<rparr> 5 h')"
proof -
  let ?h = "\<lparr>fregs = \<lambda>_. 0, fbusy = 0, fenv = ()\<rparr>"
  have 1: "echo_fw (NX_CDRP_SIGNATURE_MAKE 0 1) (NX_CDRP_FORM_CMD 5) (2, 3, 4) (fenv ?h) = ((NX_CDRP_RSP_OK, 3, 3, 4), ())"
    by (simp add: echo_fw_def)
  have 2: "echo_fw (NX_CDRP_SIGNATURE_MAKE 0 1) (NX_CDRP_FORM_CMD 5) (2, 3, 7) (fenv ?h) = ((NX_CDRP_RSP_FAIL, 5, 0, 0), ())"
    by (simp add: echo_fw_def)
  have r: "NX_CDRP_IS_RSP NX_CDRP_RSP_OK" "NX_CDRP_IS_RSP NX_CDRP_RSP_FAIL"
    by (simp_all add: NX_CDRP_IS_RSP_def NX_CDRP_CMD_BIT_def NX_CDRP_RSP_OK_def NX_CDRP_RSP_FAIL_def)
  have f: "rsp_code NX_CDRP_RSP_FAIL 5 = 5"
    by (simp add: rsp_code_def NX_CDRP_RSP_TIMEOUT_def NX_CDRP_RSP_FAIL_def)
  show ?thesis
    using issue_cmd_answer [where F = echo_fw and cmd = 5, OF 1 r(1), of 10]
      issue_cmd_answer [where F = echo_fw and cmd = 5, OF 2 r(2), of 10] f
    by (auto simp: rsp_ok)
qed

subsection \<open>The answer is read without the semaphore\<close>

lemma issue_cmd_success_log:
  assumes "fst (run_state (issue_cmd B fn ver a1 a2 a3 cmd) d) = NX_RCODE_SUCCESS"
  shows "\<exists>l u. log (snd (run_state (issue_cmd B fn ver a1 a2 a3 cmd) d)) = l @ [Rd SEM5_U u]"
proof -
  obtain locked d1 where l: "run_state (api_lock B) d = (locked, d1)"
    by (cases "run_state (api_lock B) d")
  let ?body = "do {
         write_all B (cmd_writes fn ver a1 a2 a3 @ [(NX_CDRP_CRB_OFFSET, NX_CDRP_FORM_CMD cmd)]);
         rsp \<leftarrow> poll_rsp B;
         (if rsp = NX_CDRP_RSP_TIMEOUT then ret NX_RCODE_TIMEOUT
          else if rsp = NX_CDRP_RSP_FAIL then nx_os_nic_reg_read_w1 B NX_ARG1_CRB_OFFSET
          else ret NX_RCODE_SUCCESS) }"
  obtain r d2 where b: "run_state ?body d1 = (r, d2)" by (cases "run_state ?body d1")
  have "locked = 0"
    using assms l by (auto simp: issue_cmd_def run_bind run_ret rcodes split: if_splits)
  with l b have "run_state (issue_cmd B fn ver a1 a2 a3 cmd) d = run_state (do { api_unlock B; ret r }) d2"
    by (simp only: issue_cmd_split run_bind prod.case if_False simp_thms)
  then show ?thesis
    by (simp add: io_simps api_unlock_def nx_os_nic_reg_read_w0_def ucast_SEM5_U)
qed

text \<open>
  The answer of a query is read after the semaphore has been given back: another function of the
  card may have issued its own command by then, and its arguments or answer are what is returned.
\<close>

theorem query_reads_after_release:
  assumes "fst (run_state (nx_fw_cmd_query_phy B fn reg) d) = (rcode, Some v)"
  shows "\<exists>l u. log (snd (run_state (nx_fw_cmd_query_phy B fn reg) d)) =
           l @ [Rd SEM5_U u, Rd NX_ARG1_CRB_OFFSET v]"
proof -
  obtain r d1 where i: "run_state (issue_cmd B fn NXHAL_VERSION reg 0 0 0x13) d = (r, d1)"
    by (cases "run_state (issue_cmd B fn NXHAL_VERSION reg 0 0 0x13) d")
  with assms have r: "r = NX_RCODE_SUCCESS"
    by (auto simp: nx_fw_cmd_query_phy_def if_ok_def io_simps split: if_splits)
  with issue_cmd_success_log [of B fn NXHAL_VERSION reg 0 0 "0x13" d] i
  obtain l u where "log d1 = l @ [Rd SEM5_U u]" by auto
  with i r assms show ?thesis
    by (auto simp: nx_fw_cmd_query_phy_def if_ok_def io_simps nx_os_nic_reg_read_w1_def)
qed

definition ex_fw :: "unit fw dev" where
  "ex_fw = \<lparr>hw = \<lparr>fregs = \<lambda>_. 0, fbusy = 0, fenv = ()\<rparr>, log = []\<rparr>"

lemma echo_query: "fst (run_state (nx_fw_cmd_query_phy (fw_bus echo_fw 0) 0 1) ex_fw) = (NX_RCODE_SUCCESS, Some 2)"
proof -
  let ?h = "\<lparr>fregs = \<lambda>_. 0, fbusy = 0, fenv = ()\<rparr>"
  have e: "echo_fw (NX_CDRP_SIGNATURE_MAKE 0 NXHAL_VERSION) (NX_CDRP_FORM_CMD 0x13) (1, 0, 0) (fenv ?h) = ((NX_CDRP_RSP_OK, 2, 0, 0), ())"
    by (simp add: echo_fw_def)
  let ?w = "fw_started 0 (cmd_writes 0 NXHAL_VERSION 1 0 0) (NX_CDRP_FORM_CMD 0x13) ?h"
  note fin = started_finish [where F = echo_fw and w = "NX_CDRP_FORM_CMD 0x13", OF e, of 0]
  have r: "NX_CDRP_IS_RSP NX_CDRP_RSP_OK"
    by (simp add: NX_CDRP_IS_RSP_def NX_CDRP_CMD_BIT_def NX_CDRP_RSP_OK_def)
  have p: "\<not> NX_CDRP_IS_RSP (fregs ?w NX_CDRP_CRB_OFFSET)" "fbusy ?w = 0"
    by (simp_all add: fw_started_def form_cmd_pending)
  have w0: "?w\<lparr>fbusy := 0\<rparr> = ?w" by (simp add: fw_started_def)
  have "yields (poll_rsp (fw_bus echo_fw 0)) ?w NX_CDRP_RSP_OK (fw_finish echo_fw ?w)"
    using poll_answered [of ?w echo_fw NX_OS_CRB_RETRY_COUNT 0] p r
    by (simp add: poll_rsp_def NX_OS_CRB_RETRY_COUNT_def w0) (simp add: fin cdrp_distinct)
  from issue_cmd_yields [OF this refl]
  have i: "yields (issue_cmd (fw_bus echo_fw 0) 0 NXHAL_VERSION 1 0 0 0x13) ?h NX_RCODE_SUCCESS (fw_finish echo_fw ?w)"
    by (simp add: rsp_ok)
  have a: "bus_rd (fw_bus echo_fw 0) NX_ARG1_CRB_OFFSET (fw_finish echo_fw ?w) = (2, fw_finish echo_fw ?w)"
    by (simp add: fw_bus_def cdrp_distinct [symmetric] cdrp_regs_not_sem) (simp add: fin cdrp_distinct)
  have "yields (nx_fw_cmd_query_phy (fw_bus echo_fw 0) 0 1) ?h (NX_RCODE_SUCCESS, Some 2) (fw_finish echo_fw ?w)"
    unfolding nx_fw_cmd_query_phy_def
    by (rule yields_bind [OF i]) (simp add: if_ok_def, rule yields_bind [OF yields_read_w1 [OF a] yields_ret])
  then show ?thesis
    unfolding yields_def ex_fw_def by (metis fst_conv)
qed

lemma query_reads_after_release_witness:
  "\<exists>l u. fst (run_state (nx_fw_cmd_query_phy (fw_bus echo_fw 0) 0 1) ex_fw) = (NX_RCODE_SUCCESS, Some 2) \<and>
     log (snd (run_state (nx_fw_cmd_query_phy (fw_bus echo_fw 0) 0 1) ex_fw)) = l @ [Rd SEM5_U u, Rd NX_ARG1_CRB_OFFSET 2]"
  using query_reads_after_release [OF echo_query] echo_query by (simp add: ex_fw_def)

subsection \<open>Lock discipline\<close>

text \<open>
  The life of the API semaphore during one request, read off the accesses: not taken yet, held, given back; or misused. It is
  misused if it is taken, or asked for, when it has been taken before, given back when it is not held, or if a register is
  written, or the command register polled, while it is not held.
\<close>

datatype sem_phase = Untaken | Held | Returned | Misused

fun phase_step :: "access \<Rightarrow> sem_phase \<Rightarrow> sem_phase" where
  "phase_step (Rd a v) Untaken =
     (if a = SEM5_L then (if v = 1 then Held else Untaken) else if a = SEM5_U \<or> a = NX_CDRP_CRB_OFFSET then Misused else Untaken)"
| "phase_step (Rd a v) Held = (if a = SEM5_L then Misused else if a = SEM5_U then Returned else Held)"
| "phase_step (Rd a v) Returned = (if a = SEM5_L \<or> a = SEM5_U \<or> a = NX_CDRP_CRB_OFFSET then Misused else Returned)"
| "phase_step (Wr a v) p = (if p = Held then Held else Misused)"
| "phase_step e Misused = Misused"

text \<open>\<open>moves m p Q\<close>: whatever the card does, from phase \<open>p\<close> the program ends with a result and a phase that satisfy \<open>Q\<close>.\<close>

definition moves :: "('h, 'a) io \<Rightarrow> sem_phase \<Rightarrow> ('a \<Rightarrow> sem_phase \<Rightarrow> bool) \<Rightarrow> bool" where
  "moves m p Q \<longleftrightarrow> (\<forall>d. \<exists>es. log (snd (run_state m d)) = log d @ es \<and> Q (fst (run_state m d)) (fold phase_step es p))"

lemma moves_ret: "Q x p \<Longrightarrow> moves (ret x) p Q"
  by (simp add: moves_def run_ret)

lemma moves_rd: "(\<And>h. Q (fst (bus_rd B a h)) (phase_step (Rd a (fst (bus_rd B a h))) p)) \<Longrightarrow> moves (NXRD32 B a) p Q"
  by (auto simp: moves_def run_NXRD32)

lemma moves_wr: "Q () (phase_step (Wr a v) p) \<Longrightarrow> moves (NXWR32 B a v) p Q"
  by (auto simp: moves_def run_NXWR32)

lemma moves_bind:
  assumes "moves m p R" "\<And>x q. R x q \<Longrightarrow> moves (f x) q Q"
  shows "moves (State_Monad.bind m f) p Q"
  unfolding moves_def
proof
  fix d
  obtain x d1 where r: "run_state m d = (x, d1)" by (metis surj_pair)
  then obtain es where e: "log d1 = log d @ es" "R x (fold phase_step es p)"
    using assms(1) unfolding moves_def by (metis fst_conv snd_conv)
  obtain es' where "log (snd (run_state (f x) d1)) = log d1 @ es'" "Q (fst (run_state (f x) d1)) (fold phase_step es' (fold phase_step es p))"
    using assms(2) [OF e(2)] unfolding moves_def by blast
  then show "\<exists>es. log (snd (run_state (State_Monad.bind m f) d)) = log d @ es \<and>
      Q (fst (run_state (State_Monad.bind m f) d)) (fold phase_step es p)"
    using r e(1) by (intro exI [of _ "es @ es'"]) (simp add: run_bind)
qed

lemma moves_if: "(b \<Longrightarrow> moves m p Q) \<Longrightarrow> (\<not> b \<Longrightarrow> moves m' p Q) \<Longrightarrow> moves (if b then m else m') p Q"
  by simp

lemma moves_mono: "moves m p R \<Longrightarrow> (\<And>x q. R x q \<Longrightarrow> Q x q) \<Longrightarrow> moves m p Q"
  unfolding moves_def by meson

lemma moves_read_w1:
  "\<lbrakk>off \<noteq> SEM5_L; off \<noteq> SEM5_U; off \<noteq> NX_CDRP_CRB_OFFSET \<or> p = Held; p \<noteq> Misused\<rbrakk> \<Longrightarrow> moves (nx_os_nic_reg_read_w1 B off) p (\<lambda>_ q. q = p)"
  unfolding nx_os_nic_reg_read_w1_def by (rule moves_rd) (cases p; auto)

lemma moves_write_w1: "moves (nx_os_nic_reg_write_w1 B off v) Held (\<lambda>_ q. q = Held)"
  unfolding nx_os_nic_reg_write_w1_def by (rule moves_wr) simp

lemma moves_api_lock:
  assumes "sem_bus B SEM5_L"
  shows "moves (api_lock B) Untaken (\<lambda>r q. q = (if r = 0 then Held else Untaken))"
proof -
  have "moves (sem_wait B SEM5_L n) Untaken (\<lambda>ok q. q = (if ok then Held else Untaken))" for n
  proof (induction n)
    case 0
    show ?case unfolding sem_wait.simps
      by (rule moves_bind [OF moves_rd [where Q = "\<lambda>v q. q = (if v = 1 then Held else Untaken)"]]) (simp_all add: moves_ret)
  next
    case (Suc n)
    show ?case unfolding sem_wait.simps
    proof (rule moves_bind [OF moves_rd [where Q = "\<lambda>v q. v \<in> {0, 1} \<and> q = (if v = 1 then Held else Untaken)"]])
      fix v q assume v: "v \<in> {0, 1 :: u32} \<and> q = (if v = 1 then Held else Untaken)"
      show "moves (if v = 1 then ret True else if v \<noteq> 0 then ret True else sem_wait B SEM5_L n) q (\<lambda>ok q. q = (if ok then Held else Untaken))"
      proof (cases "v = 1")
        case True
        then show ?thesis using v by (simp add: moves_ret)
      next
        case False
        then have "v = 0" "q = Untaken" using v by auto
        then show ?thesis using Suc.IH by (simp only: zero_neq_one if_False simp_thms)
      qed
    next
      fix h
      have "fst (bus_rd B SEM5_L h) = 0 \<or> fst (bus_rd B SEM5_L h) = 1" using assms unfolding sem_bus_def by (rule spec)
      then show "fst (bus_rd B SEM5_L h) \<in> {0, 1} \<and>
          phase_step (Rd SEM5_L (fst (bus_rd B SEM5_L h))) Untaken = (if fst (bus_rd B SEM5_L h) = 1 then Held else Untaken)"
        unfolding phase_step.simps by (elim disjE) (simp_all only: insert_iff simp_thms if_True if_False refl zero_neq_one)
    qed
  qed
  then show ?thesis unfolding api_lock_def by (rule moves_bind) (auto intro: moves_ret)
qed

lemma moves_api_unlock: "moves (api_unlock B) Held (\<lambda>_ q. q = Returned)"
  unfolding api_unlock_def nx_os_nic_reg_read_w0_def ucast_SEM5_U
  by (rule moves_bind [OF moves_rd [where Q = "\<lambda>_ q. q = Returned"]]) (use sem5_distinct in \<open>auto intro: moves_ret\<close>)

lemma moves_poll_loop: "moves (poll_loop B n) Held (\<lambda>_ q. q = Held)"
proof (induction n)
  case 0
  show ?case unfolding poll_loop.simps
    by (rule moves_bind [OF moves_read_w1]) (auto intro: moves_ret simp: cdrp_regs_not_sem)
next
  case (Suc n)
  show ?case unfolding poll_loop.simps
    by (rule moves_bind [OF moves_read_w1]) (auto intro: moves_ret Suc.IH simp: cdrp_regs_not_sem)
qed

text \<open>A request: the semaphore ends returned, or was never taken and the result says timeout.\<close>

definition once :: "('a \<Rightarrow> nx_rcode) \<Rightarrow> 'a \<Rightarrow> sem_phase \<Rightarrow> bool" where
  "once f x q \<longleftrightarrow> q = Returned \<or> q = Untaken \<and> f x = NX_RCODE_TIMEOUT"

lemma moves_issue_cmd:
  assumes "sem_bus B SEM5_L"
  shows "moves (issue_cmd B pci_fn version arg1 arg2 arg3 cmd) Untaken (once (\<lambda>r. r))"
proof -
  let ?H = "\<lambda>_ q. q = Held"
  have w: "moves (nx_os_nic_reg_write_w1 B off v) q ?H" if "q = Held" for off v q using that moves_write_w1 by simp
  have p: "moves (poll_rsp B) q ?H" if "q = Held" for q using that moves_poll_loop by (simp add: poll_rsp_def)
  have r: "moves (nx_os_nic_reg_read_w1 B NX_ARG1_CRB_OFFSET) q ?H" if "q = Held" for q
    using that moves_read_w1 [of NX_ARG1_CRB_OFFSET q B] cdrp_regs_not_sem by simp
  have u: "moves (api_unlock B) q (\<lambda>_ q. q = Returned)" if "q = Held" for q using that moves_api_unlock by simp
  show ?thesis
    unfolding issue_cmd_def
  proof (rule moves_bind [OF moves_api_lock [OF assms]], rule moves_if)
    fix l q assume "q = (if l = 0 then Held else Untaken)" "\<not> l \<noteq> (0 :: int)"
    then have "q = Held" by simp
    then show "moves (do {
        rcode \<leftarrow> do {
          nx_os_nic_reg_write_w1 B NX_SIGN_CRB_OFFSET (NX_CDRP_SIGNATURE_MAKE pci_fn version);
          nx_os_nic_reg_write_w1 B NX_ARG1_CRB_OFFSET arg1;
          nx_os_nic_reg_write_w1 B NX_ARG2_CRB_OFFSET arg2;
          nx_os_nic_reg_write_w1 B NX_ARG3_CRB_OFFSET arg3;
          nx_os_nic_reg_write_w1 B NX_CDRP_CRB_OFFSET (NX_CDRP_FORM_CMD cmd);
          rsp \<leftarrow> poll_rsp B;
          (if rsp = NX_CDRP_RSP_TIMEOUT then ret NX_RCODE_TIMEOUT
           else if rsp = NX_CDRP_RSP_FAIL then nx_os_nic_reg_read_w1 B NX_ARG1_CRB_OFFSET
           else ret NX_RCODE_SUCCESS) };
        api_unlock B;
        ret rcode }) q (once (\<lambda>r. r))"
      by (intro moves_bind [where R = ?H] moves_bind [where R = "\<lambda>_ q. q = Returned"] moves_if w p r u)
        (auto intro: moves_ret simp: once_def)
  qed (auto intro: moves_ret simp: once_def)
qed

text \<open>After the request a command only reads argument registers, which needs no semaphore.\<close>

lemma args_not_command:
  "NX_ARG1_CRB_OFFSET \<noteq> NX_CDRP_CRB_OFFSET" "NX_ARG2_CRB_OFFSET \<noteq> NX_CDRP_CRB_OFFSET" "NX_ARG3_CRB_OFFSET \<noteq> NX_CDRP_CRB_OFFSET"
  by (simp_all add: cdrp_addrs)

lemmas moves_arg =
  moves_read_w1 [OF cdrp_regs_not_sem(3,4) disjI1 [OF args_not_command(1)]]
  moves_read_w1 [OF cdrp_regs_not_sem(5,6) disjI1 [OF args_not_command(2)]]
  moves_read_w1 [OF cdrp_regs_not_sem(7,8) disjI1 [OF args_not_command(3)]]

lemma moves_after_request:
  assumes "moves m Untaken (once f)" "\<And>x q. q \<noteq> Misused \<Longrightarrow> moves (g x) q (\<lambda>y q'. q' = q \<and> f' y = f x)"
  shows "moves (State_Monad.bind m g) Untaken (once f')"
proof (rule moves_bind [OF assms(1)])
  fix x q assume q: "once f x q"
  then have "q \<noteq> Misused" by (auto simp: once_def)
  show "moves (g x) q (once f')" by (rule moves_mono [OF assms(2) [OF \<open>q \<noteq> Misused\<close>]]) (use q in \<open>simp add: once_def\<close>)
qed

lemma moves_if_ok: "moves m q (\<lambda>_ q'. q' = q) \<Longrightarrow> moves (if_ok rcode m) q (\<lambda>y q'. q' = q \<and> fst y = rcode)"
  unfolding if_ok_def by (intro moves_if moves_ret, simp) (rule moves_bind, assumption, rule moves_ret, simp)

lemma moves_arg1_answer:
  assumes "moves m Untaken (once (\<lambda>r. r))"
  shows "moves (State_Monad.bind m (\<lambda>rcode. State_Monad.bind (nx_os_nic_reg_read_w1 B NX_ARG1_CRB_OFFSET) (\<lambda>mx. ret (rcode, mx)))) Untaken (once fst)"
  by (rule moves_after_request [OF assms]) (rule moves_bind [OF moves_arg(1)], assumption, rule moves_ret, simp)

text \<open>
  C30 On a card whose semaphore register gives 0 or 1, and whatever it answers otherwise, a request to the firmware
  (\<open>issue_cmd\<close>) and every command that carries its arguments in registers keeps the lock discipline: the API semaphore is taken at
  most once; if it is taken, it is given back exactly once before the command returns, on success, failure and timeout; registers
  are written, and the command register is polled, only while it is held; and if it could not be taken nothing
  is written, nothing given back, and the result is the timeout code.
\<close>

theorem commands_release_api_lock:
  assumes "sem_bus B SEM5_L"
  shows "moves (issue_cmd B pci_fn version arg1 arg2 arg3 cmd) Untaken (once (\<lambda>r. r)) \<and>
    moves (nx_fw_cmd_submit_capabilities B pci_fn inp) Untaken (once fst) \<and>
    moves (nx_fw_cmd_get_toe_license B pci_fn) Untaken (once fst) \<and>
    moves (nx_fw_cmd_query_phy B pci_fn reg) Untaken (once fst) \<and>
    moves (nx_fw_cmd_set_phy B pci_fn reg val) Untaken (once (\<lambda>r. r)) \<and>
    moves (nx_fw_cmd_query_hw_reg B pci_fn reg unit_no) Untaken (once fst) \<and>
    moves (nx_fw_cmd_get_flow_ctl B pci_fn is_tx) Untaken (once fst) \<and>
    moves (nx_fw_cmd_set_flow_ctl B pci_fn is_tx val) Untaken (once (\<lambda>r. r)) \<and>
    moves (nx_fw_cmd_query_max_rds_per_ctx B pci_fn) Untaken (once (\<lambda>r. r)) \<and>
    moves (nx_fw_cmd_query_max_sds_per_ctx B pci_fn) Untaken (once (\<lambda>r. r)) \<and>
    moves (nx_fw_cmd_query_max_rules_per_ctx B pci_fn) Untaken (once fst) \<and>
    moves (nx_fw_cmd_query_max_rx_ctx B pci_fn) Untaken (once fst) \<and>
    moves (nx_fw_cmd_query_max_tx_ctx B pci_fn) Untaken (once fst) \<and>
    moves (nx_fw_cmd_query_max_mtu B pci_fn) Untaken (once fst) \<and>
    moves (nx_fw_cmd_query_max_lro B pci_fn) Untaken (once fst) \<and>
    moves (nx_fw_cmd_query_max_lro_per_board B pci_fn) Untaken (once fst) \<and>
    moves (nx_fw_cmd_set_gbe_port B pci_fn speed duplex autoneg) Untaken (once (\<lambda>r. r)) \<and>
    moves (nx_fw_cmd_set_mtu B (Some context) pci_fn mtu) Untaken (once (\<lambda>r. r)) \<and>
    moves (nx_fw_cmd_configure_toe B (Some context) pci_fn op_code) Untaken (once (\<lambda>r. r)) \<and>
    moves (nx_fw_cmd_query_pexq B pci_fn) Untaken (once fst)"
proof (intro conjI)
  note n = moves_issue_cmd [OF assms]
  show "moves (nx_fw_cmd_submit_capabilities B pci_fn inp) Untaken (once fst)"
    unfolding nx_fw_cmd_submit_capabilities_def
    by (cases inp) (simp only: prod.case, rule moves_after_request [OF n], rule moves_if_ok,
      intro moves_bind [where R = "\<lambda>_ q'. q' = q" for q] moves_ret, auto intro: moves_arg)
  show "moves (nx_fw_cmd_query_pexq B pci_fn) Untaken (once fst)"
    unfolding nx_fw_cmd_query_pexq_def
    by (rule moves_after_request [OF n]) (rule moves_bind [OF moves_arg(1)], assumption, rule moves_bind [OF moves_arg(2)], simp, rule moves_ret, simp)
  show "moves (nx_fw_cmd_query_max_rules_per_ctx B pci_fn) Untaken (once fst)"
    "moves (nx_fw_cmd_query_max_rx_ctx B pci_fn) Untaken (once fst)"
    "moves (nx_fw_cmd_query_max_tx_ctx B pci_fn) Untaken (once fst)"
    "moves (nx_fw_cmd_query_max_mtu B pci_fn) Untaken (once fst)"
    "moves (nx_fw_cmd_query_max_lro B pci_fn) Untaken (once fst)"
    "moves (nx_fw_cmd_query_max_lro_per_board B pci_fn) Untaken (once fst)"
    unfolding nx_fw_cmd_query_max_rules_per_ctx_def nx_fw_cmd_query_max_rx_ctx_def nx_fw_cmd_query_max_tx_ctx_def
      nx_fw_cmd_query_max_mtu_def nx_fw_cmd_query_max_lro_def nx_fw_cmd_query_max_lro_per_board_def
    by (rule moves_arg1_answer [OF n])+
  show "moves (nx_fw_cmd_get_toe_license B pci_fn) Untaken (once fst)" "moves (nx_fw_cmd_query_phy B pci_fn reg) Untaken (once fst)"
    "moves (nx_fw_cmd_query_hw_reg B pci_fn reg unit_no) Untaken (once fst)" "moves (nx_fw_cmd_get_flow_ctl B pci_fn is_tx) Untaken (once fst)"
    unfolding nx_fw_cmd_get_toe_license_def nx_fw_cmd_query_phy_def nx_fw_cmd_query_hw_reg_def nx_fw_cmd_get_flow_ctl_def
    by (rule moves_after_request [OF n], rule moves_if_ok, erule moves_arg)+
qed (simp_all only: nx_fw_cmd_set_phy_def nx_fw_cmd_set_flow_ctl_def nx_fw_cmd_query_max_rds_per_ctx_def nx_fw_cmd_query_max_sds_per_ctx_def
  nx_fw_cmd_set_gbe_port_def nx_fw_cmd_set_mtu_def nx_fw_cmd_configure_toe_def option.case moves_issue_cmd [OF assms])

lemma commands_release_api_lock_witness:
  "fold phase_step (log (snd (run_state (nx_fw_cmd_query_phy (fw_bus echo_fw 0) 0 1) ex_fw))) Untaken = Returned"
proof -
  have "sem_bus (fw_bus echo_fw 0) SEM5_L" by (simp add: sem_bus_def fw_bus_def)
  from commands_release_api_lock [OF this] have "moves (nx_fw_cmd_query_phy (fw_bus echo_fw 0) 0 1) Untaken (once fst)" by blast
  then obtain es where "log (snd (run_state (nx_fw_cmd_query_phy (fw_bus echo_fw 0) 0 1) ex_fw)) = log ex_fw @ es"
    "once fst (fst (run_state (nx_fw_cmd_query_phy (fw_bus echo_fw 0) 0 1) ex_fw)) (fold phase_step es Untaken)"
    unfolding moves_def by metis
  then show ?thesis unfolding once_def echo_query by (simp add: ex_fw_def rcodes)
qed

end
