(* ===== verification/NicCtx.thy ===== *)
theory NicCtx
  imports FwCmd
begin

text \<open>
  Receive and transmit contexts (\<open>driver/nxhal.c\<close>): the device structure with its slots, allocating
  and freeing contexts and the DMA areas for the requests, and creating and destroying contexts
  with the firmware. The firmware reaches the request and delivers its response by DMA, so host memory is
  part of the machine the card moves; \<open>host_memory\<close> is the access to it.

  The functions run on one device, their \<open>nx_dev\<close>, which is the state here; their tests for a null
  device have no counterpart. Contexts live in a heap from addresses; \<^const>\<open>None\<close> is the null pointer.
  The host is little-endian, and \<open>NX_USE_NEW_ALLOC\<close> is set, as in \<open>include/nxplat.h\<close>.
\<close>

subsection \<open>Host memory\<close>

type_synonym memory = "nat \<Rightarrow> u8"

definition put_le :: "nat \<Rightarrow> nat \<Rightarrow> u64 \<Rightarrow> memory \<Rightarrow> memory" where
  "put_le n a v m = (\<lambda>i. if a \<le> i \<and> i < a + n then ucast (drop_bit (8 * (i - a)) v) else m i)"

fun get_le :: "nat \<Rightarrow> nat \<Rightarrow> memory \<Rightarrow> u64" where
  "get_le 0 a m = 0"
| "get_le (Suc n) a m = ucast (m a) OR push_bit 8 (get_le n (a + 1) m)"

definition nx_os_zero_memory :: "nat \<Rightarrow> nat \<Rightarrow> memory \<Rightarrow> memory" where
  "nx_os_zero_memory a n m = (\<lambda>i. if a \<le> i \<and> i < a + n then 0 else m i)"

abbreviation put16 :: "nat \<Rightarrow> u16 \<Rightarrow> memory \<Rightarrow> memory" where "put16 a v \<equiv> put_le 2 a (ucast v)"
abbreviation put32 :: "nat \<Rightarrow> u32 \<Rightarrow> memory \<Rightarrow> memory" where "put32 a v \<equiv> put_le 4 a (ucast v)"
abbreviation put64 :: "nat \<Rightarrow> u64 \<Rightarrow> memory \<Rightarrow> memory" where "put64 a v \<equiv> put_le 8 a v"
abbreviation get16 :: "nat \<Rightarrow> memory \<Rightarrow> u16" where "get16 a m \<equiv> ucast (get_le 2 a m)"
abbreviation get32 :: "nat \<Rightarrow> memory \<Rightarrow> u32" where "get32 a m \<equiv> ucast (get_le 4 a m)"
abbreviation get64 :: "nat \<Rightarrow> memory \<Rightarrow> u64" where "get64 a m \<equiv> get_le 8 a m"

record 'h host_memory =
  look :: "'h \<Rightarrow> memory"
  store :: "memory \<Rightarrow> 'h \<Rightarrow> 'h"

definition mem_look :: "'h host_memory \<Rightarrow> ('h, memory) io" where
  "mem_look M = State (\<lambda>d. (look M (hw d), d))"

definition mem_store :: "'h host_memory \<Rightarrow> memory \<Rightarrow> ('h, unit) io" where
  "mem_store M m = State (\<lambda>d. ((), d\<lparr>hw := store M m (hw d)\<rparr>))"

subsection \<open>Contexts and the device\<close>

text \<open>Fields that none of the functions here reads or writes (driver data, allocation lengths, the rules
  array, PCI resources) are left out.\<close>

record rds_ring =
  rds_host_phys :: u64
  host_rx_producer :: u32
  rds_buff_size :: u64
  rds_ring_size :: u32
  ring_kind :: u32
  rds_parent_ctx :: "nat option"

record sds_ring =
  sds_host_phys :: u64
  host_sds_consumer :: u32
  interrupt_crb :: u32
  sds_ring_size :: u32
  sds_msi_index :: u16
  sds_parent_ctx :: "nat option"

record rx_ctx =
  rx_this_id :: nat
  rds_rings :: "rds_ring list"
  sds_rings :: "sds_ring list"
  num_rds_rings :: u16
  num_sds_rings :: u16
  num_rules :: u16
  rx_state :: u32
  rx_context_id :: u32
  chaining_allowed :: bool
  multi_context :: bool
  rx_port :: u16
  rx_pci_func :: u16
  num_fn_per_port :: u32

record tx_ctx =
  tx_this_id :: nat
  cds_host_phys :: u64
  cds_ring_size :: u32
  host_tx_producer :: u32
  tx_state :: u32
  dummy_dma_addr :: u64
  cmd_cons_dma_addr :: u64
  tx_context_id :: u32
  tx_pci_func :: u16
  interrupt_ctl :: u16
  tx_msi_index :: u16
  host_pexq_ring_address :: u64
  pexq_card_fc_q :: u64
  pexq_card_fc_address :: u64
  pexq_dbell_number :: u32
  pexq_reflection_offset :: u32
  use_pexq :: u8

record host_nic =
  pci_func :: u16
  rx_ctxs :: "nat option list"
  tx_ctxs :: "nat option list"
  default_rx_ctx :: "nat option"
  default_tx_ctx :: "nat option"
  alloc_rx_ctxs :: u16
  alloc_tx_ctxs :: u16
  active_rx_ctxs :: u16
  active_tx_ctxs :: u16
  rx_ctxs_state :: u32
  rx_heap :: "nat \<Rightarrow> rx_ctx option"
  tx_heap :: "nat \<Rightarrow> tx_ctx option"

definition NX_HOST_CTX_STATE_ALLOCATED :: u32 where "NX_HOST_CTX_STATE_ALLOCATED = 1"
definition NX_HOST_CTX_STATE_MAX :: u32 where "NX_HOST_CTX_STATE_MAX = 5"
definition NX_DESTROY_CTX_NO_FWCMD :: u32 where "NX_DESTROY_CTX_NO_FWCMD = 3"

definition zero_rds :: rds_ring where
  "zero_rds = \<lparr>rds_host_phys = 0, host_rx_producer = 0, rds_buff_size = 0, rds_ring_size = 0,
     ring_kind = 0, rds_parent_ctx = None\<rparr>"

definition zero_sds :: sds_ring where
  "zero_sds = \<lparr>sds_host_phys = 0, host_sds_consumer = 0, interrupt_crb = 0, sds_ring_size = 0,
     sds_msi_index = 0, sds_parent_ctx = None\<rparr>"

subsection \<open>The device structure\<close>

text \<open>\<open>mem\<close> is what \<open>kmalloc\<close> would return: an address, or \<^const>\<open>None\<close> without memory. The
  error of \<open>nx_os_alloc_mem\<close> is the negated errno as an unsigned number.\<close>

definition nx_os_alloc_mem :: "nat option \<Rightarrow> u32 \<times> nat option" where
  "nx_os_alloc_mem mem = (case mem of None \<Rightarrow> (- 12, None) | Some a \<Rightarrow> (0, Some a))"

definition nx_os_dev_alloc :: "nat option \<Rightarrow> u32 \<Rightarrow> u32 \<Rightarrow> u32 \<Rightarrow> nx_rcode \<times> host_nic option" where
  "nx_os_dev_alloc mem func max_rx_ctxs max_tx_ctxs =
     (if fst (nx_os_alloc_mem mem) \<noteq> NX_RCODE_SUCCESS then (NX_RCODE_NO_HOST_MEM, None)
      else (NX_RCODE_SUCCESS, Some
        \<lparr>pci_func = ucast func, rx_ctxs = replicate (unat max_rx_ctxs) None,
         tx_ctxs = replicate (unat max_tx_ctxs) None, default_rx_ctx = None, default_tx_ctx = None,
         alloc_rx_ctxs = ucast max_rx_ctxs, alloc_tx_ctxs = ucast max_tx_ctxs,
         active_rx_ctxs = 0, active_tx_ctxs = 0, rx_ctxs_state = 0,
         rx_heap = \<lambda>_. None, tx_heap = \<lambda>_. None\<rparr>))"

text \<open>The loops over the slots; the shift count of \<open>1 << i\<close> is taken modulo the width, as the
  processor does.\<close>

fun open_rx_from :: "u32 \<Rightarrow> nat \<Rightarrow> nat option list \<Rightarrow> nat option" where
  "open_rx_from st i [] = None"
| "open_rx_from st i (c # cs) =
     (if c = None \<and> st AND push_bit (i mod 32) 1 = 0 then Some i else open_rx_from st (i + 1) cs)"

definition find_open_rx_id :: "host_nic \<Rightarrow> nat option" where
  "find_open_rx_id nic =
     open_rx_from (rx_ctxs_state nic) 0 (take (unat (alloc_rx_ctxs nic)) (rx_ctxs nic))"

fun open_tx_from :: "nat \<Rightarrow> nat option list \<Rightarrow> nat option" where
  "open_tx_from i [] = None"
| "open_tx_from i (c # cs) = (if c = None then Some i else open_tx_from (i + 1) cs)"

definition find_open_tx_id :: "host_nic \<Rightarrow> nat option" where
  "find_open_tx_id nic = open_tx_from 0 (take (unat (alloc_tx_ctxs nic)) (tx_ctxs nic))"

subsection \<open>Allocating and freeing contexts\<close>

definition nx_fw_cmd_create_rx_ctx_alloc ::
    "nat option \<Rightarrow> u32 \<Rightarrow> u32 \<Rightarrow> u32 \<Rightarrow> host_nic \<Rightarrow> nx_rcode \<times> nat option \<times> host_nic" where
  "nx_fw_cmd_create_rx_ctx_alloc mem n_rds n_sds n_rules nic =
     (case find_open_rx_id nic of
        None \<Rightarrow> (NX_RCODE_MAX_EXCEEDED, None, nic)
      | Some slot \<Rightarrow>
          (case nx_os_alloc_mem mem of
             (rcode, None) \<Rightarrow> (NX_RCODE_NO_HOST_MEM, None, nic)
           | (rcode, Some a) \<Rightarrow>
               let ctx = \<lparr>rx_this_id = slot,
                     rds_rings = replicate (unat n_rds) (zero_rds\<lparr>rds_parent_ctx := Some a\<rparr>),
                     sds_rings = replicate (unat n_sds) (zero_sds\<lparr>sds_parent_ctx := Some a\<rparr>),
                     num_rds_rings = ucast n_rds, num_sds_rings = ucast n_sds, num_rules = ucast n_rules,
                     rx_state = NX_HOST_CTX_STATE_ALLOCATED, rx_context_id = 0, chaining_allowed = False,
                     multi_context = False, rx_port = 0, rx_pci_func = pci_func nic, num_fn_per_port = 0\<rparr>
               in (NX_RCODE_SUCCESS, Some a,
                   nic\<lparr>rx_heap := (rx_heap nic)(a \<mapsto> ctx), rx_ctxs := (rx_ctxs nic)[slot := Some a],
                       active_rx_ctxs := active_rx_ctxs nic + 1\<rparr>)))"

text \<open>A context that is not in the heap, or whose slot is outside the array, is the crash.\<close>

definition nx_fw_cmd_create_rx_ctx_free :: "nat option \<Rightarrow> host_nic \<Rightarrow> (nx_rcode \<times> host_nic) option" where
  "nx_fw_cmd_create_rx_ctx_free ctx nic =
     (case ctx of
        None \<Rightarrow> Some (NX_RCODE_SUCCESS, nic)
      | Some a \<Rightarrow>
          (case rx_heap nic a of
             None \<Rightarrow> None
           | Some c \<Rightarrow>
               if rx_this_id c \<ge> length (rx_ctxs nic) then None
               else if rx_ctxs nic ! rx_this_id c \<noteq> Some a \<or> active_rx_ctxs nic < 1
                    then Some (NX_RCODE_CMD_FAILED, nic)
               else Some (NX_RCODE_SUCCESS,
                 nic\<lparr>rx_ctxs := (rx_ctxs nic)[rx_this_id c := None],
                     active_rx_ctxs := active_rx_ctxs nic - 1,
                     rx_heap := (rx_heap nic)(a := None)\<rparr>)))"

definition nx_fw_cmd_create_tx_ctx_alloc ::
    "nat option \<Rightarrow> host_nic \<Rightarrow> nx_rcode \<times> nat option \<times> host_nic" where
  "nx_fw_cmd_create_tx_ctx_alloc mem nic =
     (case find_open_tx_id nic of
        None \<Rightarrow> (NX_RCODE_MAX_EXCEEDED, None, nic)
      | Some slot \<Rightarrow>
          (case nx_os_alloc_mem mem of
             (rcode, None) \<Rightarrow> (NX_RCODE_NO_HOST_MEM, None, nic)
           | (rcode, Some a) \<Rightarrow>
               let ctx = \<lparr>tx_this_id = slot, cds_host_phys = 0, cds_ring_size = 0, host_tx_producer = 0,
                     tx_state = NX_HOST_CTX_STATE_ALLOCATED, dummy_dma_addr = 0, cmd_cons_dma_addr = 0,
                     tx_context_id = 0, tx_pci_func = pci_func nic, interrupt_ctl = 0, tx_msi_index = 0,
                     host_pexq_ring_address = 0, pexq_card_fc_q = 0, pexq_card_fc_address = 0,
                     pexq_dbell_number = 0, pexq_reflection_offset = 0, use_pexq = 0\<rparr>
               in (NX_RCODE_SUCCESS, Some a,
                   nic\<lparr>tx_heap := (tx_heap nic)(a \<mapsto> ctx), tx_ctxs := (tx_ctxs nic)[slot := Some a],
                       active_tx_ctxs := active_tx_ctxs nic + 1\<rparr>)))"

definition nx_fw_cmd_create_tx_ctx_free :: "nat option \<Rightarrow> host_nic \<Rightarrow> (nx_rcode \<times> host_nic) option" where
  "nx_fw_cmd_create_tx_ctx_free ctx nic =
     (case ctx of
        None \<Rightarrow> Some (NX_RCODE_SUCCESS, nic)
      | Some a \<Rightarrow>
          (case tx_heap nic a of
             None \<Rightarrow> None
           | Some c \<Rightarrow>
               if tx_this_id c \<ge> length (tx_ctxs nic) then None
               else if tx_ctxs nic ! tx_this_id c \<noteq> Some a \<or> active_tx_ctxs nic < 1
                    then Some (NX_RCODE_CMD_FAILED, nic)
               else Some (NX_RCODE_SUCCESS,
                 nic\<lparr>tx_ctxs := (tx_ctxs nic)[tx_this_id c := None],
                     active_tx_ctxs := active_tx_ctxs nic - 1,
                     tx_heap := (tx_heap nic)(a := None)\<rparr>)))"

subsection \<open>DMA areas\<close>

text \<open>\<open>dma_answers\<close> are the results of the coming \<open>pci_alloc_consistent\<close> calls, virtual and bus address
  or failure; \<open>dma_live\<close> the areas allocated and not freed.\<close>

record dma_area =
  dma_ptr :: "nat option"
  dma_phys :: u64
  dma_size :: u32

record dma_host =
  dma_mask :: u64
  dma_answers :: "(nat \<times> u64) option list"
  dma_live :: "(nat \<times> u64) list"
  dma_memory :: memory

definition zero_area :: dma_area where
  "zero_area = \<lparr>dma_ptr = None, dma_phys = 0, dma_size = 0\<rparr>"

definition pci_alloc_consistent :: "dma_host \<Rightarrow> (nat \<times> u64) option \<times> dma_host" where
  "pci_alloc_consistent s =
     (case dma_answers s of
        [] \<Rightarrow> (None, s)
      | None # as \<Rightarrow> (None, s\<lparr>dma_answers := as\<rparr>)
      | Some p # as \<Rightarrow> (Some p, s\<lparr>dma_answers := as, dma_live := p # dma_live s\<rparr>))"

text \<open>Freeing the null pointer does nothing.\<close>

definition pci_free_consistent :: "nat option \<Rightarrow> u64 \<Rightarrow> dma_host \<Rightarrow> dma_host" where
  "pci_free_consistent v p s =
     (case v of None \<Rightarrow> s | Some a \<Rightarrow> s\<lparr>dma_live := remove1 (a, p) (dma_live s)\<rparr>)"

text \<open>\<open>old\<close> is what \<open>*paddr\<close> held before: a failing allocation does not store to it.\<close>

definition nx_os_alloc_dma_mem :: "u64 \<Rightarrow> u32 \<Rightarrow> dma_host \<Rightarrow> (nx_rcode \<times> nat option \<times> u64) \<times> dma_host" where
  "nx_os_alloc_dma_mem old len s =
     (case pci_alloc_consistent s of
        (r, s1) \<Rightarrow>
          let vaddr = map_option fst r; paddr = (case r of None \<Rightarrow> old | Some (_, p) \<Rightarrow> p) in
          if paddr + ucast len < dma_mask s1 then ((0, vaddr, paddr), s1)
          else ((NX_RCODE_NO_HOST_MEM, vaddr, paddr), pci_free_consistent vaddr paddr s1))"

definition nx_os_free_dma_mem :: "dma_area \<Rightarrow> dma_host \<Rightarrow> dma_host" where
  "nx_os_free_dma_mem d s = pci_free_consistent (dma_ptr d) (dma_phys d) s"

text \<open>Sizes of the requests and responses, computed in \<open>size_t\<close> and stored in 32 bits.\<close>

definition SIZEOF_HOSTRQ_RX :: "u32 \<Rightarrow> u32 \<Rightarrow> u32" where
  "SIZEOF_HOSTRQ_RX n_rds n_sds = 176 + n_rds * 24 + n_sds * 16"

definition SIZEOF_CARDRSP_RX :: "u32 \<Rightarrow> u32 \<Rightarrow> u32" where
  "SIZEOF_CARDRSP_RX n_rds n_sds = 152 + n_rds * 8 + n_sds * 8"

definition SIZEOF_HOSTRQ_TX :: u32 where "SIZEOF_HOSTRQ_TX = 200"
definition SIZEOF_CARDRSP_TX :: u32 where "SIZEOF_CARDRSP_TX = 144"

text \<open>Zeroing through a null pointer is the crash.\<close>

definition zero_dma_area :: "dma_area \<Rightarrow> dma_host \<Rightarrow> dma_host option" where
  "zero_dma_area d s =
     (case dma_ptr d of
        None \<Rightarrow> None
      | Some a \<Rightarrow> Some (s\<lparr>dma_memory := nx_os_zero_memory a (unat (dma_size d)) (dma_memory s)\<rparr>))"

text \<open>The two allocation functions differ in the sizes only.\<close>

definition ctx_alloc_dma ::
    "u32 \<Rightarrow> u32 \<Rightarrow> dma_host \<Rightarrow> ((nx_rcode \<times> dma_area \<times> dma_area) \<times> dma_host) option" where
  "ctx_alloc_dma rq_size rsp_size s =
     (case nx_os_alloc_dma_mem 0 rq_size s of
        ((rcode, v, p), s1) \<Rightarrow>
          let hostrq = \<lparr>dma_ptr = v, dma_phys = p, dma_size = rq_size\<rparr> in
          if rcode \<noteq> NX_RCODE_SUCCESS then Some ((NX_RCODE_NO_HOST_MEM, hostrq, zero_area), s1)
          else (case nx_os_alloc_dma_mem 0 rsp_size s1 of
             ((rcode', v', p'), s2) \<Rightarrow>
               let hostrsp = \<lparr>dma_ptr = v', dma_phys = p', dma_size = rsp_size\<rparr> in
               if rcode' \<noteq> NX_RCODE_SUCCESS
               then Some ((NX_RCODE_NO_HOST_MEM, zero_area, hostrsp), nx_os_free_dma_mem hostrq s2)
               else (case zero_dma_area hostrq s2 of
                  None \<Rightarrow> None
                | Some s3 \<Rightarrow>
                    (case zero_dma_area hostrsp s3 of
                       None \<Rightarrow> None
                     | Some s4 \<Rightarrow> Some ((NX_RCODE_SUCCESS, hostrq, hostrsp), s4)))))"

definition nx_fw_cmd_create_rx_ctx_alloc_dma ::
    "u32 \<Rightarrow> u32 \<Rightarrow> dma_host \<Rightarrow> ((nx_rcode \<times> dma_area \<times> dma_area) \<times> dma_host) option" where
  "nx_fw_cmd_create_rx_ctx_alloc_dma n_rds n_sds =
     ctx_alloc_dma (SIZEOF_HOSTRQ_RX n_rds n_sds) (SIZEOF_CARDRSP_RX n_rds n_sds)"

definition nx_fw_cmd_create_tx_ctx_alloc_dma ::
    "u32 \<Rightarrow> dma_host \<Rightarrow> ((nx_rcode \<times> dma_area \<times> dma_area) \<times> dma_host) option" where
  "nx_fw_cmd_create_tx_ctx_alloc_dma n_cds = ctx_alloc_dma SIZEOF_HOSTRQ_TX SIZEOF_CARDRSP_TX"

text \<open>Both free functions: each area given is freed and its description zeroed.\<close>

definition free_dma_opt :: "dma_area option \<Rightarrow> dma_host \<Rightarrow> dma_area option \<times> dma_host" where
  "free_dma_opt d s =
     (case d of None \<Rightarrow> (None, s) | Some area \<Rightarrow> (Some zero_area, nx_os_free_dma_mem area s))"

definition nx_fw_cmd_create_rx_ctx_free_dma ::
    "dma_area option \<Rightarrow> dma_area option \<Rightarrow> dma_host \<Rightarrow> (nx_rcode \<times> dma_area option \<times> dma_area option) \<times> dma_host" where
  "nx_fw_cmd_create_rx_ctx_free_dma hostrq hostrsp s =
     (case free_dma_opt hostrq s of
        (rq, s1) \<Rightarrow> (case free_dma_opt hostrsp s1 of (rsp, s2) \<Rightarrow> ((NX_RCODE_SUCCESS, rq, rsp), s2)))"

definition nx_fw_cmd_create_tx_ctx_free_dma ::
    "dma_area option \<Rightarrow> dma_area option \<Rightarrow> dma_host \<Rightarrow> (nx_rcode \<times> dma_area option \<times> dma_area option) \<times> dma_host" where
  "nx_fw_cmd_create_tx_ctx_free_dma hostrq hostrsp s =
     (case free_dma_opt hostrq s of
        (rq, s1) \<Rightarrow> (case free_dma_opt hostrsp s1 of (rsp, s2) \<Rightarrow> ((NX_RCODE_SUCCESS, rq, rsp), s2)))"

subsection \<open>The receive-context request and response\<close>

text \<open>Byte offsets of the fields of \<open>nx_hostrq_rx_ctx_t\<close> and \<open>nx_cardrsp_rx_ctx_t\<close>.\<close>

definition RQ_RX_RSP_ADDR :: nat where "RQ_RX_RSP_ADDR = 0"
definition RQ_RX_CAPS :: nat where "RQ_RX_CAPS = 8"
definition RQ_RX_INT_MODE :: nat where "RQ_RX_INT_MODE = 24"
definition RQ_RX_RDS_MODE :: nat where "RQ_RX_RDS_MODE = 28"
definition RQ_RX_RDS_OFF :: nat where "RQ_RX_RDS_OFF = 32"
definition RQ_RX_SDS_OFF :: nat where "RQ_RX_SDS_OFF = 36"
definition RQ_RX_NUM_RDS :: nat where "RQ_RX_NUM_RDS = 40"
definition RQ_RX_NUM_SDS :: nat where "RQ_RX_NUM_SDS = 42"
definition RQ_RX_DATA :: nat where "RQ_RX_DATA = 176"

definition RSP_RX_RDS_OFF :: nat where "RSP_RX_RDS_OFF = 0"
definition RSP_RX_SDS_OFF :: nat where "RSP_RX_SDS_OFF = 4"
definition RSP_RX_STATE :: nat where "RSP_RX_STATE = 8"
definition RSP_RX_NUM_FN :: nat where "RSP_RX_NUM_FN = 12"
definition RSP_RX_NUM_RDS :: nat where "RSP_RX_NUM_RDS = 16"
definition RSP_RX_NUM_SDS :: nat where "RSP_RX_NUM_SDS = 18"
definition RSP_RX_CONTEXT_ID :: nat where "RSP_RX_CONTEXT_ID = 20"
definition RSP_RX_VIRT_PORT :: nat where "RSP_RX_VIRT_PORT = 23"
definition RSP_RX_DATA :: nat where "RSP_RX_DATA = 152"

lemmas rq_rx_offsets = RQ_RX_RSP_ADDR_def RQ_RX_CAPS_def RQ_RX_INT_MODE_def RQ_RX_RDS_MODE_def
  RQ_RX_RDS_OFF_def RQ_RX_SDS_OFF_def RQ_RX_NUM_RDS_def RQ_RX_NUM_SDS_def RQ_RX_DATA_def

lemmas rsp_rx_offsets = RSP_RX_RDS_OFF_def RSP_RX_SDS_OFF_def RSP_RX_STATE_def RSP_RX_NUM_FN_def
  RSP_RX_NUM_RDS_def RSP_RX_NUM_SDS_def RSP_RX_CONTEXT_ID_def RSP_RX_VIRT_PORT_def RSP_RX_DATA_def

definition NX_CAP0_LEGACY_CONTEXT :: u32 where "NX_CAP0_LEGACY_CONTEXT = 1"
definition NX_CAP0_MULTI_CONTEXT :: u32 where "NX_CAP0_MULTI_CONTEXT = 2"
definition NX_CAP0_LEGACY_MN :: u32 where "NX_CAP0_LEGACY_MN = 4"
definition NX_CAP0_LRO :: u32 where "NX_CAP0_LRO = 0x20"
definition NX_CAP0_LSO :: u32 where "NX_CAP0_LSO = 0x40"
definition NX_CAP0_JUMBO_CONTIGUOUS :: u32 where "NX_CAP0_JUMBO_CONTIGUOUS = 0x80"
definition NX_CAP0_LRO_CONTIGUOUS :: u32 where "NX_CAP0_LRO_CONTIGUOUS = 0x100"
definition NX_CAP0_PEXQ :: u32 where "NX_CAP0_PEXQ = 0x200"
definition NX_HOST_INT_CRB_MODE_SHARED :: u32 where "NX_HOST_INT_CRB_MODE_SHARED = 1"
definition NX_HOST_RDS_CRB_MODE_UNIQUE :: u32 where "NX_HOST_RDS_CRB_MODE_UNIQUE = 0"

definition rx_caps :: "rx_ctx \<Rightarrow> u32" where
  "rx_caps c = NX_CAP0_LEGACY_CONTEXT OR NX_CAP0_LEGACY_MN OR NX_CAP0_LRO OR
     (if multi_context c then NX_CAP0_MULTI_CONTEXT else 0) OR
     (if \<not> chaining_allowed c then NX_CAP0_JUMBO_CONTIGUOUS OR NX_CAP0_LRO_CONTIGUOUS else 0)"

text \<open>The loops that write the ring descriptions. \<open>kind\<close> is \<open>prds_rings->ring_kind\<close>, the kind of the
  first ring, in every turn.\<close>

fun put_rds_rings :: "nat \<Rightarrow> u32 \<Rightarrow> rds_ring list \<Rightarrow> memory \<Rightarrow> memory" where
  "put_rds_rings p kind [] m = m"
| "put_rds_rings p kind (r # rs) m =
     put_rds_rings (p + 24) kind rs
       (put64 (p + 8) (rds_buff_size r) (put32 (p + 20) kind (put32 (p + 16) (rds_ring_size r)
         (put64 p (rds_host_phys r) m))))"

fun put_sds_rings :: "nat \<Rightarrow> sds_ring list \<Rightarrow> memory \<Rightarrow> memory" where
  "put_sds_rings p [] m = m"
| "put_sds_rings p (r # rs) m =
     put_sds_rings (p + 16) rs
       (put16 (p + 12) (sds_msi_index r) (put32 (p + 8) (sds_ring_size r) (put64 p (sds_host_phys r) m)))"

definition rq_sds_off :: "rx_ctx \<Rightarrow> u32" where
  "rq_sds_off c = 0 + 24 * ucast (num_rds_rings c)"

text \<open>The request at \<open>rq\<close>, with the response area at bus address \<open>rsp_phys\<close>. Reading past the arrays of
  rings is the crash.\<close>

definition build_rx_request :: "rx_ctx \<Rightarrow> u64 \<Rightarrow> nat \<Rightarrow> memory \<Rightarrow> memory option" where
  "build_rx_request c rsp_phys rq m =
     (let nr = unat (num_rds_rings c); ns = unat (num_sds_rings c) in
      if nr > length (rds_rings c) \<or> ns > length (sds_rings c) then None
      else
        let m1 = put64 (rq + RQ_RX_RSP_ADDR) rsp_phys m;
            m2 = put32 (rq + RQ_RX_CAPS) (rx_caps c) m1;
            m3 = put32 (rq + RQ_RX_INT_MODE) NX_HOST_INT_CRB_MODE_SHARED m2;
            m4 = put32 (rq + RQ_RX_RDS_MODE) NX_HOST_RDS_CRB_MODE_UNIQUE m3;
            m5 = put16 (rq + RQ_RX_NUM_RDS) (num_rds_rings c) m4;
            m6 = put16 (rq + RQ_RX_NUM_SDS) (num_sds_rings c) m5;
            m7 = put32 (rq + RQ_RX_RDS_OFF) 0 m6;
            m8 = put32 (rq + RQ_RX_SDS_OFF) (rq_sds_off c) m7;
            m9 = put_rds_rings (rq + RQ_RX_DATA) (ring_kind (rds_rings c ! 0)) (take nr (rds_rings c)) m8
        in Some (put_sds_rings (rq + RQ_RX_DATA + unat (rq_sds_off c)) (take ns (sds_rings c)) m9))"

text \<open>The loops over the card's rings; storing past the host's arrays is the crash.\<close>

fun take_rds_rsp :: "memory \<Rightarrow> nat \<Rightarrow> nat \<Rightarrow> nat \<Rightarrow> rds_ring list \<Rightarrow> rds_ring list option" where
  "take_rds_rsp m p i 0 rs = Some rs"
| "take_rds_rsp m p i (Suc n) rs =
     (if i \<ge> length rs then None
      else take_rds_rsp m p (i + 1) n (rs[i := (rs ! i)\<lparr>host_rx_producer := get32 (p + 8 * i) m\<rparr>]))"

fun take_sds_rsp :: "memory \<Rightarrow> nat \<Rightarrow> nat \<Rightarrow> nat \<Rightarrow> sds_ring list \<Rightarrow> sds_ring list option" where
  "take_sds_rsp m p i 0 rs = Some rs"
| "take_sds_rsp m p i (Suc n) rs =
     (if i \<ge> length rs then None
      else take_sds_rsp m p (i + 1) n
        (rs[i := (rs ! i)\<lparr>host_sds_consumer := get32 (p + 8 * i) m, interrupt_crb := get32 (p + 8 * i + 4) m\<rparr>]))"

definition take_rx_response :: "memory \<Rightarrow> nat \<Rightarrow> rx_ctx \<Rightarrow> rx_ctx option" where
  "take_rx_response m rsp c =
     (case take_rds_rsp m (rsp + RSP_RX_DATA + unat (get32 (rsp + RSP_RX_RDS_OFF) m)) 0
             (unat (get16 (rsp + RSP_RX_NUM_RDS) m)) (rds_rings c) of
        None \<Rightarrow> None
      | Some rds \<Rightarrow>
          (case take_sds_rsp m (rsp + RSP_RX_DATA + unat (get32 (rsp + RSP_RX_SDS_OFF) m)) 0
                  (unat (get16 (rsp + RSP_RX_NUM_SDS) m)) (sds_rings c) of
             None \<Rightarrow> None
           | Some sds \<Rightarrow>
               Some (c\<lparr>rds_rings := rds, sds_rings := sds,
                       rx_state := get32 (rsp + RSP_RX_STATE) m,
                       rx_context_id := ucast (get16 (rsp + RSP_RX_CONTEXT_ID) m),
                       rx_port := ucast (m (rsp + RSP_RX_VIRT_PORT)),
                       num_fn_per_port := get32 (rsp + RSP_RX_NUM_FN) m\<rparr>)))"

definition rx_created :: "host_nic \<Rightarrow> nat \<Rightarrow> nx_rcode \<Rightarrow> rx_ctx option \<Rightarrow> (nx_rcode \<times> host_nic) option" where
  "rx_created nic a rcode c' =
     (case c' of
        None \<Rightarrow> None
      | Some c \<Rightarrow>
          Some (rcode, nic\<lparr>rx_heap := (rx_heap nic)(a \<mapsto> c),
            default_rx_ctx := (if default_rx_ctx nic = None then Some a else default_rx_ctx nic)\<rparr>))"

text \<open>\<^const>\<open>None\<close> as a result is a crash.\<close>

definition nx_fw_cmd_create_rx_ctx ::
    "'h bus \<Rightarrow> 'h host_memory \<Rightarrow> nat option \<Rightarrow> dma_area option \<Rightarrow> dma_area option \<Rightarrow> host_nic \<Rightarrow>
     ('h, (nx_rcode \<times> host_nic) option) io" where
  "nx_fw_cmd_create_rx_ctx B M prx_ctx hostrq hostrsp nic =
     (case (prx_ctx, hostrq, hostrsp) of
        (Some a, Some rq, Some rsp) \<Rightarrow>
          (case rx_heap nic a of
             None \<Rightarrow> ret None
           | Some c \<Rightarrow>
               if rx_state c \<noteq> NX_HOST_CTX_STATE_ALLOCATED then ret (Some (NX_RCODE_INVALID_ARGS, nic))
               else (case (dma_ptr rq, dma_ptr rsp) of
                  (Some rq_ptr, Some rsp_ptr) \<Rightarrow> do {
                    m \<leftarrow> mem_look M;
                    (case build_rx_request c (dma_phys rsp) rq_ptr m of
                       None \<Rightarrow> ret None
                     | Some m' \<Rightarrow> do {
                         mem_store M m';
                         rcode \<leftarrow> issue_cmd B (ucast (rx_pci_func c)) NXHAL_VERSION
                           (ucast (drop_bit 32 (dma_phys rq))) (ucast (dma_phys rq)) (dma_size rq) 7;
                         if rcode \<noteq> NX_RCODE_SUCCESS then ret (Some (rcode, nic))
                         else do {
                           m2 \<leftarrow> mem_look M;
                           ret (rx_created nic a rcode (take_rx_response m2 rsp_ptr c)) } }) }
                | _ \<Rightarrow> ret None))
      | _ \<Rightarrow> ret (Some (NX_RCODE_INVALID_ARGS, nic)))"

definition nx_fw_cmd_destroy_rx_ctx ::
    "'h bus \<Rightarrow> nat option \<Rightarrow> u32 \<Rightarrow> host_nic \<Rightarrow> ('h, (nx_rcode \<times> host_nic) option) io" where
  "nx_fw_cmd_destroy_rx_ctx B prx_ctx destroy_cmd nic =
     (case prx_ctx of
        None \<Rightarrow> ret (Some (NX_RCODE_INVALID_ARGS, nic))
      | Some a \<Rightarrow>
          (case rx_heap nic a of
             None \<Rightarrow> ret None
           | Some c \<Rightarrow>
               if rx_state c > NX_HOST_CTX_STATE_MAX then ret (Some (NX_RCODE_INVALID_STATE, nic))
               else do {
                 rcode \<leftarrow>
                   (if destroy_cmd \<noteq> NX_DESTROY_CTX_NO_FWCMD
                    then issue_cmd B (ucast (rx_pci_func c)) NXHAL_VERSION (rx_context_id c) destroy_cmd 0 8
                    else ret NX_RCODE_SUCCESS);
                 ret (Some (rcode,
                   if default_rx_ctx nic = Some a then nic\<lparr>default_rx_ctx := None\<rparr> else nic)) }))"

subsection \<open>The transmit-context request and response\<close>

text \<open>Byte offsets of the fields of \<open>nx_hostrq_tx_ctx_t\<close> and \<open>nx_cardrsp_tx_ctx_t\<close>.\<close>

definition RQ_TX_RSP_ADDR :: nat where "RQ_TX_RSP_ADDR = 0"
definition RQ_TX_CMD_CONS :: nat where "RQ_TX_CMD_CONS = 8"
definition RQ_TX_DUMMY :: nat where "RQ_TX_DUMMY = 16"
definition RQ_TX_CAPS :: nat where "RQ_TX_CAPS = 24"
definition RQ_TX_INT_MODE :: nat where "RQ_TX_INT_MODE = 40"
definition RQ_TX_INT_CTL :: nat where "RQ_TX_INT_CTL = 50"
definition RQ_TX_MSI :: nat where "RQ_TX_MSI = 52"
definition RQ_TX_CDS_PHYS :: nat where "RQ_TX_CDS_PHYS = 56"
definition RQ_TX_CDS_SIZE :: nat where "RQ_TX_CDS_SIZE = 64"
definition RQ_TX_PEXQ :: nat where "RQ_TX_PEXQ = 72"

definition RSP_TX_STATE :: nat where "RSP_TX_STATE = 0"
definition RSP_TX_CONTEXT_ID :: nat where "RSP_TX_CONTEXT_ID = 4"
definition RSP_TX_PRODUCER :: nat where "RSP_TX_PRODUCER = 8"
definition RSP_TX_FC_Q :: nat where "RSP_TX_FC_Q = 16"
definition RSP_TX_FC_ADDR :: nat where "RSP_TX_FC_ADDR = 24"
definition RSP_TX_DBELL :: nat where "RSP_TX_DBELL = 32"
definition RSP_TX_REFLECTION :: nat where "RSP_TX_REFLECTION = 36"

lemmas rq_tx_offsets = RQ_TX_RSP_ADDR_def RQ_TX_CMD_CONS_def RQ_TX_DUMMY_def RQ_TX_CAPS_def
  RQ_TX_INT_MODE_def RQ_TX_INT_CTL_def RQ_TX_MSI_def RQ_TX_CDS_PHYS_def RQ_TX_CDS_SIZE_def RQ_TX_PEXQ_def

definition tx_caps :: "tx_ctx \<Rightarrow> u32" where
  "tx_caps c = NX_CAP0_LEGACY_CONTEXT OR NX_CAP0_LEGACY_MN OR NX_CAP0_LSO OR
     (if use_pexq c = 1 then NX_CAP0_PEXQ else 0)"

text \<open>The capabilities are or-ed into what the area holds.\<close>

definition build_tx_request :: "tx_ctx \<Rightarrow> u64 \<Rightarrow> nat \<Rightarrow> memory \<Rightarrow> memory" where
  "build_tx_request c rsp_phys rq m =
     (let m1 = put64 (rq + RQ_TX_RSP_ADDR) rsp_phys m;
          m2 = put32 (rq + RQ_TX_CAPS) (get32 (rq + RQ_TX_CAPS) m1 OR tx_caps c) m1;
          m3 = put32 (rq + RQ_TX_INT_MODE) NX_HOST_INT_CRB_MODE_SHARED m2;
          m4 = put16 (rq + RQ_TX_INT_CTL) (interrupt_ctl c) m3;
          m5 = put16 (rq + RQ_TX_MSI) (tx_msi_index c) m4;
          m6 = put64 (rq + RQ_TX_DUMMY) (dummy_dma_addr c) m5;
          m7 = put64 (rq + RQ_TX_CMD_CONS) (cmd_cons_dma_addr c) m6;
          m8 = put64 (rq + RQ_TX_CDS_PHYS) (cds_host_phys c) m7;
          m9 = put32 (rq + RQ_TX_CDS_SIZE) (cds_ring_size c) m8
      in if use_pexq c = 1 then put64 (rq + RQ_TX_PEXQ) (host_pexq_ring_address c) m9 else m9)"

definition take_tx_response :: "memory \<Rightarrow> nat \<Rightarrow> tx_ctx \<Rightarrow> tx_ctx" where
  "take_tx_response m rsp c =
     (let c1 = c\<lparr>host_tx_producer := get32 (rsp + RSP_TX_PRODUCER) m,
                 tx_state := get32 (rsp + RSP_TX_STATE) m,
                 tx_context_id := ucast (get16 (rsp + RSP_TX_CONTEXT_ID) m)\<rparr>
      in if use_pexq c = 1
         then c1\<lparr>pexq_card_fc_q := get64 (rsp + RSP_TX_FC_Q) m,
                 pexq_card_fc_address := get64 (rsp + RSP_TX_FC_ADDR) m,
                 pexq_dbell_number := get32 (rsp + RSP_TX_DBELL) m,
                 pexq_reflection_offset := get32 (rsp + RSP_TX_REFLECTION) m\<rparr>
         else c1)"

definition nx_fw_cmd_create_tx_ctx ::
    "'h bus \<Rightarrow> 'h host_memory \<Rightarrow> nat option \<Rightarrow> dma_area option \<Rightarrow> dma_area option \<Rightarrow> host_nic \<Rightarrow>
     ('h, (nx_rcode \<times> host_nic) option) io" where
  "nx_fw_cmd_create_tx_ctx B M ptx_ctx hostrq hostrsp nic =
     (case (ptx_ctx, hostrq, hostrsp) of
        (Some a, Some rq, Some rsp) \<Rightarrow>
          (case tx_heap nic a of
             None \<Rightarrow> ret None
           | Some c \<Rightarrow>
               if tx_state c \<noteq> NX_HOST_CTX_STATE_ALLOCATED then ret (Some (NX_RCODE_INVALID_ARGS, nic))
               else (case (dma_ptr rq, dma_ptr rsp) of
                  (Some rq_ptr, Some rsp_ptr) \<Rightarrow> do {
                    m \<leftarrow> mem_look M;
                    mem_store M (build_tx_request c (dma_phys rsp) rq_ptr m);
                    rcode \<leftarrow> issue_cmd B (ucast (tx_pci_func c)) NXHAL_VERSION
                      (ucast (drop_bit 32 (dma_phys rq))) (ucast (dma_phys rq)) (dma_size rq) 9;
                    if rcode \<noteq> NX_RCODE_SUCCESS then ret (Some (rcode, nic))
                    else do {
                      m2 \<leftarrow> mem_look M;
                      ret (Some (rcode, nic\<lparr>tx_heap := (tx_heap nic)(a \<mapsto> take_tx_response m2 rsp_ptr c),
                        default_tx_ctx := (if default_tx_ctx nic = None then Some a else default_tx_ctx nic)\<rparr>)) } }
                | _ \<Rightarrow> ret None))
      | _ \<Rightarrow> ret (Some (NX_RCODE_INVALID_ARGS, nic)))"

definition nx_fw_cmd_destroy_tx_ctx ::
    "'h bus \<Rightarrow> nat option \<Rightarrow> u32 \<Rightarrow> host_nic \<Rightarrow> ('h, (nx_rcode \<times> host_nic) option) io" where
  "nx_fw_cmd_destroy_tx_ctx B ptx_ctx destroy_cmd nic =
     (case ptx_ctx of
        None \<Rightarrow> ret (Some (NX_RCODE_INVALID_ARGS, nic))
      | Some a \<Rightarrow>
          (case tx_heap nic a of
             None \<Rightarrow> ret None
           | Some c \<Rightarrow>
               if tx_state c > NX_HOST_CTX_STATE_MAX then ret (Some (NX_RCODE_INVALID_STATE, nic))
               else do {
                 rcode \<leftarrow>
                   (if destroy_cmd \<noteq> NX_DESTROY_CTX_NO_FWCMD
                    then issue_cmd B (ucast (tx_pci_func c)) NXHAL_VERSION (tx_context_id c) destroy_cmd 0 10
                    else ret NX_RCODE_SUCCESS);
                 ret (Some (rcode,
                   if default_tx_ctx nic = Some a then nic\<lparr>default_tx_ctx := None\<rparr> else nic)) }))"

subsection \<open>Function attributes\<close>

record func_attrib =
  fenable :: u64
  pvport :: "u8 list"
  freq :: u64

definition read_func_attrib :: "nat \<Rightarrow> memory \<Rightarrow> func_attrib" where
  "read_func_attrib p m =
     \<lparr>fenable = get64 p m, pvport = map (\<lambda>i. m (p + 8 + i)) [0..<64], freq = get64 (p + 72) m\<rparr>"

text \<open>\<open>old\<close> is what the uninitialised local's bus address holds; the DMA bookkeeping is threaded beside
  the machine. The attributes are copied whatever the command's result.\<close>

definition nx_fw_cmd_func_attrib ::
    "'h bus \<Rightarrow> 'h host_memory \<Rightarrow> u32 \<Rightarrow> u64 \<Rightarrow> dma_host \<Rightarrow>
     ('h, ((nx_rcode \<times> func_attrib option) \<times> dma_host) option) io" where
  "nx_fw_cmd_func_attrib B M func old s =
     (case nx_os_alloc_dma_mem old 80 s of
        ((rc, v, taddr), s1) \<Rightarrow>
          if rc \<noteq> NX_RCODE_SUCCESS then ret (Some ((NX_RCODE_NO_HOST_MEM, None), s1))
          else do {
            rcode \<leftarrow> issue_cmd B func NXHAL_VERSION (ucast (drop_bit 32 taddr)) (ucast taddr) 0 0x1b;
            (case v of
               None \<Rightarrow> ret None
             | Some p \<Rightarrow> do {
                 m \<leftarrow> mem_look M;
                 ret (Some ((rcode, Some (read_func_attrib p m)),
                            nx_os_free_dma_mem \<lparr>dma_ptr = v, dma_phys = taddr, dma_size = 80\<rparr> s1)) }) })"

subsection \<open>Slots and contexts stay in step\<close>

text \<open>What the receive and the transmit tables promise a client: \<open>held\<close> are the addresses of live
  contexts, allocation adds the address the allocator gave or changes nothing, and freeing a live
  context succeeds.\<close>

locale ctx_table =
  fixes inv :: "'n \<Rightarrow> bool"
    and held :: "'n \<Rightarrow> nat set"
    and alloc :: "nat option \<Rightarrow> 'n \<Rightarrow> nx_rcode \<times> nat option \<times> 'n"
    and free :: "nat option \<Rightarrow> 'n \<Rightarrow> (nx_rcode \<times> 'n) option"
  assumes alloc_law: "inv n \<Longrightarrow> (\<And>a. mem = Some a \<Longrightarrow> a \<notin> held n) \<Longrightarrow> alloc mem n = (rc, r, n') \<Longrightarrow>
      inv n' \<and> (case r of None \<Rightarrow> rc \<noteq> NX_RCODE_SUCCESS \<and> n' = n
                        | Some b \<Rightarrow> rc = NX_RCODE_SUCCESS \<and> mem = Some b \<and> held n' = insert b (held n))"
    and free_law: "inv n \<Longrightarrow> a \<in> held n \<Longrightarrow>
      \<exists>n'. free (Some a) n = Some (NX_RCODE_SUCCESS, n') \<and> inv n' \<and> held n' = held n - {a}"

datatype ctx_op = Ctx_alloc "nat option" | Ctx_free nat

text \<open>A client that allocates, with an allocator that never hands out an address in use, and frees
  the \<open>k\<close>-th context it holds.\<close>

fun ctx_run ::
    "('n \<Rightarrow> nat set) \<Rightarrow> (nat option \<Rightarrow> 'n \<Rightarrow> nx_rcode \<times> nat option \<times> 'n) \<Rightarrow>
     (nat option \<Rightarrow> 'n \<Rightarrow> (nx_rcode \<times> 'n) option) \<Rightarrow> ctx_op list \<Rightarrow> nat list \<times> 'n \<Rightarrow> (nat list \<times> 'n) option" where
  "ctx_run held alloc free [] s = Some s"
| "ctx_run held alloc free (Ctx_alloc mem # ops) (out, n) =
     (case alloc (case mem of Some a \<Rightarrow> if a \<in> held n then None else Some a | None \<Rightarrow> None) n of
        (rc, Some a, n') \<Rightarrow> ctx_run held alloc free ops (a # out, n')
      | (rc, None, n') \<Rightarrow> ctx_run held alloc free ops (out, n'))"
| "ctx_run held alloc free (Ctx_free k # ops) (out, n) =
     (if k < length out
      then (case free (Some (out ! k)) n of
              Some (rc, n') \<Rightarrow>
                if rc = NX_RCODE_SUCCESS then ctx_run held alloc free ops (remove1 (out ! k) out, n') else None
            | None \<Rightarrow> None)
      else ctx_run held alloc free ops (out, n))"

context ctx_table
begin

lemma run_safe:
  "inv n \<Longrightarrow> distinct out \<Longrightarrow> held n = set out \<Longrightarrow>
   \<exists>out' n'. ctx_run held alloc free ops (out, n) = Some (out', n') \<and> inv n' \<and> distinct out' \<and> held n' = set out'"
proof (induction ops arbitrary: out n)
  case Nil
  then show ?case by auto
next
  case (Cons op ops)
  show ?case
  proof (cases op)
    case (Ctx_alloc mem)
    let ?mem = "case mem of Some a \<Rightarrow> if a \<in> held n then None else Some a | None \<Rightarrow> None"
    obtain rc r n' where a: "alloc ?mem n = (rc, r, n')" by (cases "alloc ?mem n")
    have f: "?mem = Some b \<Longrightarrow> b \<notin> held n" for b by (auto split: option.splits if_splits)
    have l: "inv n' \<and> (case r of None \<Rightarrow> rc \<noteq> NX_RCODE_SUCCESS \<and> n' = n
        | Some b \<Rightarrow> rc = NX_RCODE_SUCCESS \<and> ?mem = Some b \<and> held n' = insert b (held n))"
      by (rule alloc_law [OF Cons.prems(1) f a])
    show ?thesis
    proof (cases r)
      case None
      with l a Ctx_alloc Cons.IH [of n out] Cons.prems show ?thesis by simp
    next
      case (Some b)
      with l f [of b] Cons.prems have "inv n'" "distinct (b # out)" "held n' = set (b # out)" by simp_all
      from Cons.IH [OF this] Some a Ctx_alloc show ?thesis by simp
    qed
  next
    case (Ctx_free k)
    show ?thesis
    proof (cases "k < length out")
      case True
      then have "out ! k \<in> held n" using Cons.prems(3) by simp
      from free_law [OF Cons.prems(1) this] obtain n' where
        n': "free (Some (out ! k)) n = Some (NX_RCODE_SUCCESS, n')" "inv n'" "held n' = held n - {out ! k}" by blast
      have "distinct (remove1 (out ! k) out)" "held n' = set (remove1 (out ! k) out)"
        using Cons.prems(2,3) n'(3) by (simp_all add: set_remove1_eq distinct_remove1)
      from Cons.IH [OF n'(2) this] n'(1) Ctx_free True show ?thesis by simp
    next
      case False
      with Ctx_free Cons.IH [OF Cons.prems] show ?thesis by simp
    qed
  qed
qed

end

text \<open>The invariant of a table of slots against the heap of its contexts: each context sits in the slot
  it names, each used slot holds a context, unused room follows the allocated slots, and the
  counter is the number of used slots.\<close>

definition slots_ok :: "nat option list \<Rightarrow> u16 \<Rightarrow> u16 \<Rightarrow> (nat \<Rightarrow> 'c option) \<Rightarrow> ('c \<Rightarrow> nat) \<Rightarrow> bool" where
  "slots_ok slots n_alloc active heap this_id \<longleftrightarrow>
     unat n_alloc \<le> length slots \<and>
     (\<forall>a c. heap a = Some c \<longrightarrow> this_id c < unat n_alloc \<and> slots ! this_id c = Some a) \<and>
     (\<forall>i a. i < length slots \<longrightarrow> slots ! i = Some a \<longrightarrow> (\<exists>c. heap a = Some c \<and> this_id c = i)) \<and>
     finite (dom heap) \<and> unat active = card (dom heap)"

lemma slots_card:
  assumes "slots_ok slots n active heap this_id"
  shows "card (dom heap) = card {i. i < unat n \<and> slots ! i \<noteq> None}"
proof (rule bij_betw_same_card)
  have 1: "heap a = Some c \<Longrightarrow> this_id c < unat n \<and> slots ! this_id c = Some a" for a c
    using assms by (simp add: slots_ok_def)
  have 2: "i < unat n \<Longrightarrow> slots ! i = Some a \<Longrightarrow> \<exists>c. heap a = Some c \<and> this_id c = i" for i a
    using assms by (simp add: slots_ok_def)
  have inj: "inj_on (\<lambda>a. this_id (the (heap a))) (dom heap)"
  proof (rule inj_onI)
    fix a b
    assume "a \<in> dom heap" "b \<in> dom heap" and e: "this_id (the (heap a)) = this_id (the (heap b))"
    then obtain c d where "heap a = Some c" "heap b = Some d" by auto
    with 1 [of a c] 1 [of b d] e show "a = b" by simp
  qed
  have "(\<lambda>a. this_id (the (heap a))) ` dom heap = {i. i < unat n \<and> slots ! i \<noteq> None}"
  proof
    show "(\<lambda>a. this_id (the (heap a))) ` dom heap \<subseteq> {i. i < unat n \<and> slots ! i \<noteq> None}"
      using 1 by fastforce
    show "{i. i < unat n \<and> slots ! i \<noteq> None} \<subseteq> (\<lambda>a. this_id (the (heap a))) ` dom heap"
    proof
      fix i
      assume "i \<in> {i. i < unat n \<and> slots ! i \<noteq> None}"
      then obtain a where "i < unat n" "slots ! i = Some a" by auto
      then obtain c where "heap a = Some c" "this_id c = i" using 2 by blast
      then show "i \<in> (\<lambda>a. this_id (the (heap a))) ` dom heap" by force
    qed
  qed
  with inj show "bij_betw (\<lambda>a. this_id (the (heap a))) (dom heap) {i. i < unat n \<and> slots ! i \<noteq> None}"
    by (simp add: bij_betw_def)
qed

lemma slots_add:
  assumes ok: "slots_ok slots n active heap this_id"
    and i: "i < unat n" "slots ! i = None" "this_id c = i" and fresh: "a \<notin> dom heap"
  shows "slots_ok (slots[i := Some a]) n (active + 1) (heap(a \<mapsto> c)) this_id"
proof -
  have len: "unat n \<le> length slots" and fin: "finite (dom heap)" "unat active = card (dom heap)"
    and 1: "\<And>b d. heap b = Some d \<Longrightarrow> this_id d < unat n \<and> slots ! this_id d = Some b"
    and 2: "\<And>j b. j < length slots \<Longrightarrow> slots ! j = Some b \<Longrightarrow> \<exists>d. heap b = Some d \<and> this_id d = j"
    using ok by (auto simp: slots_ok_def)
  have "card {j. j < unat n \<and> slots ! j \<noteq> None} < card {j. j < unat n}"
  proof (rule psubset_card_mono)
    show "{j. j < unat n \<and> slots ! j \<noteq> None} \<subset> {j. j < unat n}"
      using i(1,2) by blast
  qed simp
  then have "card (dom heap) < unat n"
    using slots_card [OF ok] by simp
  moreover have "unat n < 65536"
    by (rule order.strict_trans2 [OF unsigned_less]) simp
  ultimately have act: "unat (active + 1) = card (dom heap) + 1"
    using fin(2) \<open>unat n < 65536\<close> by (simp add: unat_word_ariths)
  have card: "card (dom (heap(a \<mapsto> c))) = card (dom heap) + 1"
    using fin(1) fresh by simp
  show ?thesis
    unfolding slots_ok_def
  proof (intro conjI allI impI)
    show "unat n \<le> length (slots[i := Some a])" using len by simp
    show "finite (dom (heap(a \<mapsto> c)))" using fin(1) by simp
    show "unat (active + 1) = card (dom (heap(a \<mapsto> c)))" using act card by simp
    fix b d
    assume h: "(heap(a \<mapsto> c)) b = Some d"
    show "this_id d < unat n" using h i 1 by (auto split: if_splits)
    show "slots[i := Some a] ! this_id d = Some b"
    proof (cases "b = a")
      case True
      with h i len show ?thesis by simp
    next
      case False
      with h 1 [of b d] i(2) show ?thesis by (cases "this_id d = i") auto
    qed
  next
    fix j b
    assume j: "j < length (slots[i := Some a])" "slots[i := Some a] ! j = Some b"
    show "\<exists>d. (heap(a \<mapsto> c)) b = Some d \<and> this_id d = j"
    proof (cases "j = i")
      case True
      with j i(3) show ?thesis by simp
    next
      case False
      with j obtain d where "heap b = Some d" "this_id d = j" using 2 [of j b] by auto
      with fresh show ?thesis by (intro exI [of _ d]) auto
    qed
  qed
qed

lemma slots_remove:
  assumes ok: "slots_ok slots n active heap this_id" and a: "heap a = Some c"
  shows "slots_ok (slots[this_id c := None]) n (active - 1) (heap(a := None)) this_id"
    and "1 \<le> active" "this_id c < length slots" "slots ! this_id c = Some a"
proof -
  have len: "unat n \<le> length slots" and fin: "finite (dom heap)" "unat active = card (dom heap)"
    and 1: "\<And>b d. heap b = Some d \<Longrightarrow> this_id d < unat n \<and> slots ! this_id d = Some b"
    and 2: "\<And>j b. j < length slots \<Longrightarrow> slots ! j = Some b \<Longrightarrow> \<exists>d. heap b = Some d \<and> this_id d = j"
    using ok by (auto simp: slots_ok_def)
  have at: "this_id c < unat n" "slots ! this_id c = Some a" using 1 [OF a] by blast+
  show "slots ! this_id c = Some a" by (rule at)
  show "this_id c < length slots" using at(1) len by (rule less_le_trans)
  have pos: "0 < card (dom heap)" using domI [of heap, OF a] fin(1) card_gt_0_iff by blast
  then show "1 \<le> active" using fin(2) by (simp add: word_le_nat_alt)
  then have act: "unat (active - 1) = card (dom heap) - 1"
    using fin(2) by (simp add: unat_sub)
  have card: "card (dom (heap(a := None))) = card (dom heap) - 1"
    using a fin(1) by (simp add: domI)
  show "slots_ok (slots[this_id c := None]) n (active - 1) (heap(a := None)) this_id"
    unfolding slots_ok_def
  proof (intro conjI allI impI)
    show "unat n \<le> length (slots[this_id c := None])" using len by simp
    show "finite (dom (heap(a := None)))" using fin(1) by simp
    show "unat (active - 1) = card (dom (heap(a := None)))" using act card by simp
    fix b d
    assume h: "(heap(a := None)) b = Some d"
    then have b: "b \<noteq> a" "heap b = Some d" by (auto split: if_splits)
    then show "this_id d < unat n" using 1 by blast
    have "this_id d \<noteq> this_id c" using 1 [OF b(2)] at(2) b(1) by force
    then show "slots[this_id c := None] ! this_id d = Some b" using 1 [OF b(2)] by simp
  next
    fix j b
    assume j: "j < length (slots[this_id c := None])" "slots[this_id c := None] ! j = Some b"
    then have ne: "j \<noteq> this_id c" by (cases "j = this_id c") simp_all
    with j have "j < length slots" "slots ! j = Some b" by simp_all
    then obtain d where d: "heap b = Some d" "this_id d = j" using 2 by blast
    with ne a have "b \<noteq> a" by (cases "b = a") simp_all
    with d show "\<exists>d. (heap(a := None)) b = Some d \<and> this_id d = j" by simp
  qed
qed

lemma open_rx_from_spec:
  "open_rx_from st i cs = Some j \<Longrightarrow> i \<le> j \<and> j < i + length cs \<and> cs ! (j - i) = None"
  by (induction st i cs rule: open_rx_from.induct) (auto simp: nth_Cons' split: if_splits)

lemma open_tx_from_spec:
  "open_tx_from i cs = Some j \<Longrightarrow> i \<le> j \<and> j < i + length cs \<and> cs ! (j - i) = None"
  by (induction i cs rule: open_tx_from.induct) (auto simp: nth_Cons' split: if_splits)

definition rx_ok :: "host_nic \<Rightarrow> bool" where
  "rx_ok nic \<longleftrightarrow> slots_ok (rx_ctxs nic) (alloc_rx_ctxs nic) (active_rx_ctxs nic) (rx_heap nic) rx_this_id"

definition tx_ok :: "host_nic \<Rightarrow> bool" where
  "tx_ok nic \<longleftrightarrow> slots_ok (tx_ctxs nic) (alloc_tx_ctxs nic) (active_tx_ctxs nic) (tx_heap nic) tx_this_id"

lemma find_open_rx: "rx_ok nic \<Longrightarrow> find_open_rx_id nic = Some j \<Longrightarrow>
    j < unat (alloc_rx_ctxs nic) \<and> rx_ctxs nic ! j = None"
  by (auto simp: find_open_rx_id_def rx_ok_def slots_ok_def dest!: open_rx_from_spec)

lemma find_open_tx: "tx_ok nic \<Longrightarrow> find_open_tx_id nic = Some j \<Longrightarrow>
    j < unat (alloc_tx_ctxs nic) \<and> tx_ctxs nic ! j = None"
  by (auto simp: find_open_tx_id_def tx_ok_def slots_ok_def dest!: open_tx_from_spec)

lemmas alloc_codes = NX_RCODE_SUCCESS_def NX_RCODE_MAX_EXCEEDED_def NX_RCODE_NO_HOST_MEM_def

lemma rx_alloc_law:
  assumes "rx_ok n" "\<And>a. mem = Some a \<Longrightarrow> a \<notin> dom (rx_heap n)"
    "nx_fw_cmd_create_rx_ctx_alloc mem n_rds n_sds n_rules n = (rc, r, n')"
  shows "rx_ok n' \<and> (case r of None \<Rightarrow> rc \<noteq> NX_RCODE_SUCCESS \<and> n' = n
     | Some b \<Rightarrow> rc = NX_RCODE_SUCCESS \<and> mem = Some b \<and> dom (rx_heap n') = insert b (dom (rx_heap n)))"
proof (cases "find_open_rx_id n")
  case None
  with assms show ?thesis
    by (auto simp: nx_fw_cmd_create_rx_ctx_alloc_def alloc_codes)
next
  case slot: (Some j)
  note s = find_open_rx [OF assms(1) slot]
  show ?thesis
  proof (cases mem)
    case None
    with assms slot show ?thesis
      by (auto simp: nx_fw_cmd_create_rx_ctx_alloc_def nx_os_alloc_mem_def alloc_codes)
  next
    case (Some a)
    with assms slot show ?thesis
      using slots_add [where heap = "rx_heap n" and this_id = rx_this_id, OF assms(1) [unfolded rx_ok_def] conjunct1 [OF s] conjunct2 [OF s], of _ a]
      by (auto simp: nx_fw_cmd_create_rx_ctx_alloc_def nx_os_alloc_mem_def alloc_codes rx_ok_def Let_def)
  qed
qed

lemma tx_alloc_law:
  assumes "tx_ok n" "\<And>a. mem = Some a \<Longrightarrow> a \<notin> dom (tx_heap n)"
    "nx_fw_cmd_create_tx_ctx_alloc mem n = (rc, r, n')"
  shows "tx_ok n' \<and> (case r of None \<Rightarrow> rc \<noteq> NX_RCODE_SUCCESS \<and> n' = n
     | Some b \<Rightarrow> rc = NX_RCODE_SUCCESS \<and> mem = Some b \<and> dom (tx_heap n') = insert b (dom (tx_heap n)))"
proof (cases "find_open_tx_id n")
  case None
  with assms show ?thesis
    by (auto simp: nx_fw_cmd_create_tx_ctx_alloc_def alloc_codes)
next
  case slot: (Some j)
  note s = find_open_tx [OF assms(1) slot]
  show ?thesis
  proof (cases mem)
    case None
    with assms slot show ?thesis
      by (auto simp: nx_fw_cmd_create_tx_ctx_alloc_def nx_os_alloc_mem_def alloc_codes)
  next
    case (Some a)
    with assms slot show ?thesis
      using slots_add [where heap = "tx_heap n" and this_id = tx_this_id, OF assms(1) [unfolded tx_ok_def] conjunct1 [OF s] conjunct2 [OF s], of _ a]
      by (auto simp: nx_fw_cmd_create_tx_ctx_alloc_def nx_os_alloc_mem_def alloc_codes tx_ok_def Let_def)
  qed
qed

lemma rx_free_law:
  assumes "rx_ok n" "a \<in> dom (rx_heap n)"
  shows "\<exists>n'. nx_fw_cmd_create_rx_ctx_free (Some a) n = Some (NX_RCODE_SUCCESS, n') \<and> rx_ok n' \<and>
           dom (rx_heap n') = dom (rx_heap n) - {a}"
proof -
  obtain c where c: "rx_heap n a = Some c" using assms(2) by blast
  note r = slots_remove [OF assms(1) [unfolded rx_ok_def] c]
  have "\<not> active_rx_ctxs n < 1" by (rule leD [OF r(2)])
  with r c show ?thesis by (simp add: nx_fw_cmd_create_rx_ctx_free_def rx_ok_def del: word_less_1)
qed

lemma tx_free_law:
  assumes "tx_ok n" "a \<in> dom (tx_heap n)"
  shows "\<exists>n'. nx_fw_cmd_create_tx_ctx_free (Some a) n = Some (NX_RCODE_SUCCESS, n') \<and> tx_ok n' \<and>
           dom (tx_heap n') = dom (tx_heap n) - {a}"
proof -
  obtain c where c: "tx_heap n a = Some c" using assms(2) by blast
  note r = slots_remove [OF assms(1) [unfolded tx_ok_def] c]
  have "\<not> active_tx_ctxs n < 1" by (rule leD [OF r(2)])
  with r c show ?thesis by (simp add: nx_fw_cmd_create_tx_ctx_free_def tx_ok_def del: word_less_1)
qed

interpretation rx_table: ctx_table rx_ok "\<lambda>n. dom (rx_heap n)"
    "\<lambda>mem. nx_fw_cmd_create_rx_ctx_alloc mem n_rds n_sds n_rules" nx_fw_cmd_create_rx_ctx_free
  for n_rds n_sds n_rules
proof unfold_locales
  fix n mem rc r n' a
  show "rx_ok n \<Longrightarrow> (\<And>a. mem = Some a \<Longrightarrow> a \<notin> dom (rx_heap n)) \<Longrightarrow>
      nx_fw_cmd_create_rx_ctx_alloc mem n_rds n_sds n_rules n = (rc, r, n') \<Longrightarrow>
      rx_ok n' \<and> (case r of None \<Rightarrow> rc \<noteq> NX_RCODE_SUCCESS \<and> n' = n
        | Some b \<Rightarrow> rc = NX_RCODE_SUCCESS \<and> mem = Some b \<and> dom (rx_heap n') = insert b (dom (rx_heap n)))"
    by (rule rx_alloc_law)
  show "rx_ok n \<Longrightarrow> a \<in> dom (rx_heap n) \<Longrightarrow>
      \<exists>n'. nx_fw_cmd_create_rx_ctx_free (Some a) n = Some (NX_RCODE_SUCCESS, n') \<and> rx_ok n' \<and>
           dom (rx_heap n') = dom (rx_heap n) - {a}"
    by (rule rx_free_law)
qed

interpretation tx_table: ctx_table tx_ok "\<lambda>n. dom (tx_heap n)"
    nx_fw_cmd_create_tx_ctx_alloc nx_fw_cmd_create_tx_ctx_free
proof unfold_locales
  fix n mem rc r n' a
  show "tx_ok n \<Longrightarrow> (\<And>a. mem = Some a \<Longrightarrow> a \<notin> dom (tx_heap n)) \<Longrightarrow>
      nx_fw_cmd_create_tx_ctx_alloc mem n = (rc, r, n') \<Longrightarrow>
      tx_ok n' \<and> (case r of None \<Rightarrow> rc \<noteq> NX_RCODE_SUCCESS \<and> n' = n
        | Some b \<Rightarrow> rc = NX_RCODE_SUCCESS \<and> mem = Some b \<and> dom (tx_heap n') = insert b (dom (tx_heap n)))"
    by (rule tx_alloc_law)
  show "tx_ok n \<Longrightarrow> a \<in> dom (tx_heap n) \<Longrightarrow>
      \<exists>n'. nx_fw_cmd_create_tx_ctx_free (Some a) n = Some (NX_RCODE_SUCCESS, n') \<and> tx_ok n' \<and>
           dom (tx_heap n') = dom (tx_heap n) - {a}"
    by (rule tx_free_law)
qed

text \<open>
  C23 The device's tables of contexts: from a fresh device, whatever a client allocates and frees, no
  operation crashes or fails for another reason than full slots or no memory; the live contexts
  are exactly those the client holds, each in the slot it names, and the active counters are
  their numbers.
\<close>

theorem ctx_slots_consistent:
  assumes "nx_os_dev_alloc mem func max_rx max_tx = (rc, Some nic)"
  shows "(\<exists>out n. ctx_run (\<lambda>n. dom (rx_heap n)) (\<lambda>mem. nx_fw_cmd_create_rx_ctx_alloc mem n_rds n_sds n_rules)
             nx_fw_cmd_create_rx_ctx_free ops ([], nic) = Some (out, n) \<and> distinct out \<and>
           dom (rx_heap n) = set out \<and> unat (active_rx_ctxs n) = length out \<and>
           list_all (\<lambda>a. rx_ctxs n ! rx_this_id (the (rx_heap n a)) = Some a) out) \<and>
         (\<exists>out n. ctx_run (\<lambda>n. dom (tx_heap n)) nx_fw_cmd_create_tx_ctx_alloc
             nx_fw_cmd_create_tx_ctx_free ops ([], nic) = Some (out, n) \<and> distinct out \<and>
           dom (tx_heap n) = set out \<and> unat (active_tx_ctxs n) = length out \<and>
           list_all (\<lambda>a. tx_ctxs n ! tx_this_id (the (tx_heap n a)) = Some a) out)"
proof (intro conjI)
  have nic: "rx_heap nic = (\<lambda>_. None)" "tx_heap nic = (\<lambda>_. None)" "active_rx_ctxs nic = 0" "active_tx_ctxs nic = 0"
    "rx_ctxs nic = replicate (unat max_rx) None" "tx_ctxs nic = replicate (unat max_tx) None"
    "alloc_rx_ctxs nic = ucast max_rx" "alloc_tx_ctxs nic = ucast max_tx"
    using assms by (auto simp: nx_os_dev_alloc_def split: if_splits)
  have le: "unat (ucast x :: u16) \<le> unat x" for x :: u32
    by (simp add: unsigned_ucast_eq take_bit_nat_less_eq_self)
  have ok: "rx_ok nic" "tx_ok nic"
    by (simp_all add: rx_ok_def tx_ok_def slots_ok_def nic le)
  from rx_table.run_safe [OF ok(1), of "[]" n_rds n_sds n_rules ops] nic(1) obtain out n where
    r: "ctx_run (\<lambda>n. dom (rx_heap n)) (\<lambda>mem. nx_fw_cmd_create_rx_ctx_alloc mem n_rds n_sds n_rules)
          nx_fw_cmd_create_rx_ctx_free ops ([], nic) = Some (out, n)" "rx_ok n" "distinct out" "dom (rx_heap n) = set out"
    by auto
  have "list_all (\<lambda>a. rx_ctxs n ! rx_this_id (the (rx_heap n a)) = Some a) out"
    using r(2) r(4) by (fastforce simp: list_all_iff rx_ok_def slots_ok_def)
  moreover have "unat (active_rx_ctxs n) = length out"
    using r(2,3,4) by (simp add: rx_ok_def slots_ok_def distinct_card)
  ultimately show "\<exists>out n. ctx_run (\<lambda>n. dom (rx_heap n)) (\<lambda>mem. nx_fw_cmd_create_rx_ctx_alloc mem n_rds n_sds n_rules)
             nx_fw_cmd_create_rx_ctx_free ops ([], nic) = Some (out, n) \<and> distinct out \<and>
           dom (rx_heap n) = set out \<and> unat (active_rx_ctxs n) = length out \<and>
           list_all (\<lambda>a. rx_ctxs n ! rx_this_id (the (rx_heap n a)) = Some a) out"
    using r by blast
  from tx_table.run_safe [OF ok(2), of "[]" ops] nic(2) obtain out n where
    t: "ctx_run (\<lambda>n. dom (tx_heap n)) nx_fw_cmd_create_tx_ctx_alloc
          nx_fw_cmd_create_tx_ctx_free ops ([], nic) = Some (out, n)" "tx_ok n" "distinct out" "dom (tx_heap n) = set out"
    by auto
  have "list_all (\<lambda>a. tx_ctxs n ! tx_this_id (the (tx_heap n a)) = Some a) out"
    using t(2) t(4) by (fastforce simp: list_all_iff tx_ok_def slots_ok_def)
  moreover have "unat (active_tx_ctxs n) = length out"
    using t(2,3,4) by (simp add: tx_ok_def slots_ok_def distinct_card)
  ultimately show "\<exists>out n. ctx_run (\<lambda>n. dom (tx_heap n)) nx_fw_cmd_create_tx_ctx_alloc
             nx_fw_cmd_create_tx_ctx_free ops ([], nic) = Some (out, n) \<and> distinct out \<and>
           dom (tx_heap n) = set out \<and> unat (active_tx_ctxs n) = length out \<and>
           list_all (\<lambda>a. tx_ctxs n ! tx_this_id (the (tx_heap n a)) = Some a) out"
    using t by blast
qed

definition sample_nic :: host_nic where
  "sample_nic = \<lparr>pci_func = 0, rx_ctxs = [None, None], tx_ctxs = [None], default_rx_ctx = None,
     default_tx_ctx = None, alloc_rx_ctxs = 2, alloc_tx_ctxs = 1, active_rx_ctxs = 0, active_tx_ctxs = 0,
     rx_ctxs_state = 0, rx_heap = \<lambda>_. None, tx_heap = \<lambda>_. None\<rparr>"

lemma replicate_numeral: "replicate (numeral k) x = x # replicate (pred_numeral k) x"
  by (simp add: numeral_eq_Suc)

lemma sample_nic_alloc: "nx_os_dev_alloc (Some 8) 0 2 1 = (NX_RCODE_SUCCESS, Some sample_nic)"
  by (simp add: nx_os_dev_alloc_def nx_os_alloc_mem_def alloc_codes sample_nic_def replicate_numeral)

lemma ctx_slots_consistent_witness:
  "\<exists>out n. ctx_run (\<lambda>n. dom (tx_heap n)) nx_fw_cmd_create_tx_ctx_alloc nx_fw_cmd_create_tx_ctx_free
     [Ctx_alloc (Some 64), Ctx_alloc (Some 128), Ctx_free 0] ([], sample_nic) = Some (out, n) \<and>
     unat (active_tx_ctxs n) = length out"
  using ctx_slots_consistent [OF sample_nic_alloc, of 1 1 1 "[Ctx_alloc (Some 64), Ctx_alloc (Some 128), Ctx_free 0]"]
  by blast

subsection \<open>DMA areas are accounted for\<close>

lemma alloc_dma_cases:
  assumes "nx_os_alloc_dma_mem old len s = ((rc, v, p), s')"
  shows "(rc = NX_RCODE_SUCCESS \<and> p + ucast len < dma_mask s \<and>
            (case v of None \<Rightarrow> dma_live s' = dma_live s | Some a \<Rightarrow> dma_live s' = (a, p) # dma_live s)) \<or>
         (rc = NX_RCODE_NO_HOST_MEM \<and> dma_live s' = dma_live s)"
  using assms
  by (auto simp: nx_os_alloc_dma_mem_def pci_alloc_consistent_def pci_free_consistent_def alloc_codes Let_def
      split: list.splits option.splits if_splits)

lemma alloc_dma_mask: "nx_os_alloc_dma_mem old len s = (r, s') \<Longrightarrow> dma_mask s' = dma_mask s"
  by (auto simp: nx_os_alloc_dma_mem_def pci_alloc_consistent_def pci_free_consistent_def Let_def
      split: list.splits option.splits if_splits)

lemma zero_dma_live: "zero_dma_area d s = Some s' \<Longrightarrow> dma_live s' = dma_live s \<and> dma_ptr d \<noteq> None"
  by (auto simp: zero_dma_area_def split: option.splits)

text \<open>
  Allocating the request and response areas leaves no area behind when it fails, and exactly its
  two, both below the DMA mask, when it succeeds. It is not robust against a failing
  \<open>pci_alloc_consistent\<close>: the address test passes on the zeroed bus address, and the null pointer is zeroed
  through.
\<close>

theorem ctx_dma_accounted:
  "(case ctx_alloc_dma rq_size rsp_size s of
      None \<Rightarrow> True
    | Some ((rc, rq, rsp), s') \<Rightarrow>
        (if rc = NX_RCODE_SUCCESS
         then \<exists>a b. dma_ptr rq = Some a \<and> dma_ptr rsp = Some b \<and>
                dma_live s' = (b, dma_phys rsp) # (a, dma_phys rq) # dma_live s \<and>
                dma_phys rq + ucast rq_size < dma_mask s \<and> dma_phys rsp + ucast rsp_size < dma_mask s
         else rc = NX_RCODE_NO_HOST_MEM \<and> dma_live s' = dma_live s)) \<and>
   ctx_alloc_dma rq_size rsp_size \<lparr>dma_mask = dma_mask s, dma_answers = Some p # Some q # as,
     dma_live = dma_live s, dma_memory = dma_memory s\<rparr> \<noteq> None \<and>
   (\<not> ucast rq_size < dma_mask s \<or> \<not> snd q + ucast rsp_size < dma_mask s \<or>
    ctx_alloc_dma rq_size rsp_size \<lparr>dma_mask = dma_mask s, dma_answers = None # Some q # as,
      dma_live = dma_live s, dma_memory = dma_memory s\<rparr> = None)"
proof (intro conjI)
  obtain rc v p s1 where 1: "nx_os_alloc_dma_mem 0 rq_size s = ((rc, v, p), s1)"
    by (metis prod.exhaust)
  obtain rc' v' p' s2 where 2: "nx_os_alloc_dma_mem 0 rsp_size s1 = ((rc', v', p'), s2)"
    by (metis prod.exhaust)
  note c1 = alloc_dma_cases [OF 1] and c2 = alloc_dma_cases [OF 2] and m = alloc_dma_mask [OF 1]
  show "case ctx_alloc_dma rq_size rsp_size s of
      None \<Rightarrow> True
    | Some ((rc, rq, rsp), s') \<Rightarrow>
        (if rc = NX_RCODE_SUCCESS
         then \<exists>a b. dma_ptr rq = Some a \<and> dma_ptr rsp = Some b \<and>
                dma_live s' = (b, dma_phys rsp) # (a, dma_phys rq) # dma_live s \<and>
                dma_phys rq + ucast rq_size < dma_mask s \<and> dma_phys rsp + ucast rsp_size < dma_mask s
         else rc = NX_RCODE_NO_HOST_MEM \<and> dma_live s' = dma_live s)"
  proof (cases "rc = NX_RCODE_SUCCESS \<and> rc' = NX_RCODE_SUCCESS")
    case True
    with c1 c2 m 1 2 show ?thesis
      by (auto simp: ctx_alloc_dma_def Let_def alloc_codes dest!: zero_dma_live split: option.splits)
  next
    case False
    with c1 c2 1 2 show ?thesis
      by (auto simp: ctx_alloc_dma_def Let_def alloc_codes nx_os_free_dma_mem_def pci_free_consistent_def
          split: option.splits)
  qed
  show "ctx_alloc_dma rq_size rsp_size \<lparr>dma_mask = dma_mask s, dma_answers = Some p # Some q # as,
     dma_live = dma_live s, dma_memory = dma_memory s\<rparr> \<noteq> None" for p
    by (auto simp: ctx_alloc_dma_def nx_os_alloc_dma_mem_def pci_alloc_consistent_def Let_def
        zero_dma_area_def alloc_codes split: prod.splits)
  show "\<not> ucast rq_size < dma_mask s \<or> \<not> snd q + ucast rsp_size < dma_mask s \<or>
    ctx_alloc_dma rq_size rsp_size \<lparr>dma_mask = dma_mask s, dma_answers = None # Some q # as,
      dma_live = dma_live s, dma_memory = dma_memory s\<rparr> = None"
    by (cases q) (auto simp: ctx_alloc_dma_def nx_os_alloc_dma_mem_def pci_alloc_consistent_def Let_def
        zero_dma_area_def alloc_codes)
qed

definition sample_host :: dma_host where
  "sample_host = \<lparr>dma_mask = 0x100000000, dma_answers = [], dma_live = [], dma_memory = \<lambda>_. 0\<rparr>"

lemma ctx_dma_accounted_witness:
  "ctx_alloc_dma 240 168 (sample_host\<lparr>dma_answers := [None, Some (512, 512)]\<rparr>) = None \<and>
   ctx_alloc_dma 240 168 (sample_host\<lparr>dma_answers := [Some (128, 128), Some (512, 512)]\<rparr>) \<noteq> None"
  using ctx_dma_accounted [where rq_size = 240 and rsp_size = 168 and s = sample_host and
      p = "(128, 128)" and q = "(512, 512)" and as = "[]"]
  by (simp add: sample_host_def)

subsection \<open>Reading back what was written\<close>

lemma bit_get_le: "bit (get_le n a m) j \<longleftrightarrow> j < 64 \<and> j div 8 < n \<and> bit (m (a + j div 8)) (j mod 8)"
proof (induction n arbitrary: a j)
  case 0
  show ?case by simp
next
  case (Suc n)
  show ?case
  proof (cases "j < 8")
    case True
    then show ?thesis by (auto simp: bit_simps)
  next
    case False
    then obtain i where j: "j = 8 + i" using le_Suc_ex linorder_not_less by blast
    have d: "(8 + i) div 8 = Suc (i div 8)" by simp
    from j Suc.IH [of "a + 1" i] show ?thesis
      by (auto simp: d bit_simps dest: bit_imp_le_length)
  qed
qed

lemma get_le_cong: "(\<And>i. a \<le> i \<Longrightarrow> i < a + n \<Longrightarrow> m i = m' i) \<Longrightarrow> get_le n a m = get_le n a m'"
  by (rule bit_word_eqI) (simp add: bit_get_le cong: conj_cong)

lemma get_put_le_same: "n \<le> 8 \<Longrightarrow> get_le n a (put_le n a v m) = v AND mask (8 * n)"
proof (rule bit_word_eqI)
  fix j
  assume n: "n \<le> 8" and j: "j < LENGTH(64)"
  have "j div 8 < n \<longleftrightarrow> j < 8 * n" by auto
  with j n show "bit (get_le n a (put_le n a v m)) j \<longleftrightarrow> bit (v AND mask (8 * n)) j"
    by (auto simp: bit_get_le put_le_def bit_simps)
qed

lemma get_put_le_other:
  "a + n \<le> b \<or> b + k \<le> a \<Longrightarrow> get_le n a (put_le k b v m) = get_le n a m"
  by (rule get_le_cong) (auto simp: put_le_def)

lemma ucast_mask:
  "ucast ((ucast (v :: u32) :: u64) AND mask 32) = v" "ucast ((ucast (w :: u16) :: u64) AND mask 16) = w"
  "(x :: u64) AND mask 64 = x"
  by (rule bit_word_eqI; auto simp: bit_simps dest: bit_imp_le_length)+

lemmas get_put = get_put_le_same get_put_le_other ucast_mask

lemma put_rds_frame:
  "i < p \<or> p + 24 * length rs \<le> i \<Longrightarrow> put_rds_rings p kind rs m i = m i"
  by (induction rs arbitrary: p m) (auto simp: put_le_def)

lemma put_sds_frame:
  "i < p \<or> p + 16 * length rs \<le> i \<Longrightarrow> put_sds_rings p rs m i = m i"
  by (induction rs arbitrary: p m) (auto simp: put_le_def)

text \<open>The card's reading of a ring description.\<close>

definition rds_at :: "memory \<Rightarrow> nat \<Rightarrow> u64 \<times> u64 \<times> u32 \<times> u32" where
  "rds_at m p = (get64 p m, get64 (p + 8) m, get32 (p + 16) m, get32 (p + 20) m)"

definition sds_at :: "memory \<Rightarrow> nat \<Rightarrow> u64 \<times> u32 \<times> u16" where
  "sds_at m p = (get64 p m, get32 (p + 8) m, get16 (p + 12) m)"

lemma rds_at_cong: "(\<And>i. p \<le> i \<Longrightarrow> i < p + 24 \<Longrightarrow> m i = m' i) \<Longrightarrow> rds_at m p = rds_at m' p"
  unfolding rds_at_def by (intro arg_cong2 [of _ _ _ _ Pair] arg_cong [of _ _ ucast] get_le_cong refl) simp_all

lemma sds_at_cong: "(\<And>i. p \<le> i \<Longrightarrow> i < p + 16 \<Longrightarrow> m i = m' i) \<Longrightarrow> sds_at m p = sds_at m' p"
  unfolding sds_at_def by (intro arg_cong2 [of _ _ _ _ Pair] arg_cong [of _ _ ucast] get_le_cong refl) simp_all

lemma put_rds_read:
  "i < length rs \<Longrightarrow> rds_at (put_rds_rings p kind rs m) (p + 24 * i) =
     (rds_host_phys (rs ! i), rds_buff_size (rs ! i), rds_ring_size (rs ! i), kind)"
proof (induction rs arbitrary: p m i)
  case Nil
  then show ?case by simp
next
  case (Cons r rs)
  show ?case
  proof (cases i)
    case 0
    have "rds_at (put_rds_rings p kind (r # rs) m) p = rds_at (put64 (p + 8) (rds_buff_size r)
        (put32 (p + 20) kind (put32 (p + 16) (rds_ring_size r) (put64 p (rds_host_phys r) m)))) p"
      unfolding put_rds_rings.simps by (rule rds_at_cong) (simp add: put_rds_frame)
    with 0 show ?thesis by (simp add: rds_at_def get_put)
  next
    case (Suc j)
    with Cons.IH [of j "p + 24"] Cons.prems show ?thesis by (simp add: add.assoc add.commute)
  qed
qed

lemma put_sds_read:
  "i < length rs \<Longrightarrow> sds_at (put_sds_rings p rs m) (p + 16 * i) =
     (sds_host_phys (rs ! i), sds_ring_size (rs ! i), sds_msi_index (rs ! i))"
proof (induction rs arbitrary: p m i)
  case Nil
  then show ?case by simp
next
  case (Cons r rs)
  show ?case
  proof (cases i)
    case 0
    have "sds_at (put_sds_rings p (r # rs) m) p = sds_at
        (put16 (p + 12) (sds_msi_index r) (put32 (p + 8) (sds_ring_size r) (put64 p (sds_host_phys r) m))) p"
      unfolding put_sds_rings.simps by (rule sds_at_cong) (simp add: put_sds_frame)
    with 0 show ?thesis by (simp add: sds_at_def get_put)
  next
    case (Suc j)
    with Cons.IH [of j "p + 16"] Cons.prems show ?thesis by (simp add: add.assoc add.commute)
  qed
qed

subsection \<open>The receive-context request as the card reads it\<close>

record rx_request =
  rq_rsp_addr :: u64
  rq_caps :: u32
  rq_rds :: "(u64 \<times> u64 \<times> u32 \<times> u32) list"
  rq_sds :: "(u64 \<times> u32 \<times> u16) list"

definition parse_rx_request :: "memory \<Rightarrow> nat \<Rightarrow> rx_request" where
  "parse_rx_request m rq =
     \<lparr>rq_rsp_addr = get64 (rq + RQ_RX_RSP_ADDR) m, rq_caps = get32 (rq + RQ_RX_CAPS) m,
      rq_rds = map (\<lambda>i. rds_at m (rq + RQ_RX_DATA + unat (get32 (rq + RQ_RX_RDS_OFF) m) + 24 * i))
                 [0..<unat (get16 (rq + RQ_RX_NUM_RDS) m)],
      rq_sds = map (\<lambda>i. sds_at m (rq + RQ_RX_DATA + unat (get32 (rq + RQ_RX_SDS_OFF) m) + 16 * i))
                 [0..<unat (get16 (rq + RQ_RX_NUM_SDS) m)]\<rparr>"

lemma unat_rq_sds_off: "unat (rq_sds_off c) = 24 * unat (num_rds_rings c)"
proof -
  have u: "unat (ucast (num_rds_rings c) :: u32) = unat (num_rds_rings c)"
    by (simp add: unsigned_ucast_eq take_bit_nat_eq_self_iff order.strict_trans2 [OF unsigned_less])
  have "unat (num_rds_rings c) < 65536"
    by (rule order.strict_trans2 [OF unsigned_less]) simp
  then show ?thesis
    by (simp add: rq_sds_off_def unat_word_ariths u)
qed

lemma put_rings_frame:
  "i < p \<Longrightarrow> p \<le> q \<Longrightarrow> put_sds_rings q ss (put_rds_rings p kind rs m) i = m i"
  by (simp add: put_sds_frame put_rds_frame)

lemma get_put_rings:
  "a + n \<le> p \<Longrightarrow> p \<le> q \<Longrightarrow> get_le n a (put_sds_rings q ss (put_rds_rings p kind rs m)) = get_le n a m"
  by (rule get_le_cong) (simp add: put_rings_frame)

text \<open>
  C32 The card reads in the request what the context holds: the address for the response, the
  capabilities, and for each receive and status ring its address, size, buffer size and
  interrupt, except that every receive ring is described with the kind of the first. Nothing outside the
  request area is touched.
\<close>

theorem rx_request_roundtrip:
  assumes "build_rx_request c phys rq m = Some m'"
  shows "parse_rx_request m' rq =
      \<lparr>rq_rsp_addr = phys, rq_caps = rx_caps c,
       rq_rds = map (\<lambda>r. (rds_host_phys r, rds_buff_size r, rds_ring_size r, ring_kind (rds_rings c ! 0)))
                  (take (unat (num_rds_rings c)) (rds_rings c)),
       rq_sds = map (\<lambda>r. (sds_host_phys r, sds_ring_size r, sds_msi_index r))
                  (take (unat (num_sds_rings c)) (sds_rings c))\<rparr> \<and>
    (\<forall>i. rq \<le> i \<and> i < rq + 176 + 24 * unat (num_rds_rings c) + 16 * unat (num_sds_rings c) \<or> m' i = m i)"
proof -
  let ?nr = "unat (num_rds_rings c)" and ?ns = "unat (num_sds_rings c)"
  let ?k = "ring_kind (rds_rings c ! 0)"
  let ?rs = "take ?nr (rds_rings c)" and ?ss = "take ?ns (sds_rings c)"
  let ?p = "rq + RQ_RX_DATA" and ?q = "rq + RQ_RX_DATA + 24 * ?nr"
  have len: "?nr \<le> length (rds_rings c)" "?ns \<le> length (sds_rings c)"
    using assms by (auto simp: build_rx_request_def Let_def split: if_splits)
  define h where "h = put32 (rq + RQ_RX_SDS_OFF) (rq_sds_off c) (put32 (rq + RQ_RX_RDS_OFF) 0
      (put16 (rq + RQ_RX_NUM_SDS) (num_sds_rings c) (put16 (rq + RQ_RX_NUM_RDS) (num_rds_rings c)
      (put32 (rq + RQ_RX_RDS_MODE) NX_HOST_RDS_CRB_MODE_UNIQUE (put32 (rq + RQ_RX_INT_MODE) NX_HOST_INT_CRB_MODE_SHARED
      (put32 (rq + RQ_RX_CAPS) (rx_caps c) (put64 (rq + RQ_RX_RSP_ADDR) phys m)))))))"
  have m': "m' = put_sds_rings ?q ?ss (put_rds_rings ?p ?k ?rs h)"
    using assms len by (simp add: build_rx_request_def Let_def h_def unat_rq_sds_off)
  have g: "get_le n a m' = get_le n a h" if "a + n \<le> ?p" for a n
    unfolding m' by (rule get_put_rings [OF that]) simp
  have hd: "get64 (rq + RQ_RX_RSP_ADDR) m' = phys" "get32 (rq + RQ_RX_CAPS) m' = rx_caps c"
    "get32 (rq + RQ_RX_RDS_OFF) m' = 0" "get32 (rq + RQ_RX_SDS_OFF) m' = rq_sds_off c"
    "get16 (rq + RQ_RX_NUM_RDS) m' = num_rds_rings c" "get16 (rq + RQ_RX_NUM_SDS) m' = num_sds_rings c"
    by (subst g, simp add: rq_rx_offsets, simp add: h_def rq_rx_offsets get_put)+
  have rds: "rds_at m' (?p + 24 * i) = (rds_host_phys (?rs ! i), rds_buff_size (?rs ! i), rds_ring_size (?rs ! i), ?k)"
    if "i < ?nr" for i
  proof -
    have "rds_at m' (?p + 24 * i) = rds_at (put_rds_rings ?p ?k ?rs h) (?p + 24 * i)"
      unfolding m' using that by (intro rds_at_cong put_sds_frame) simp
    then show ?thesis using that len by (simp add: put_rds_read)
  qed
  have sds: "sds_at m' (?q + 16 * i) = (sds_host_phys (?ss ! i), sds_ring_size (?ss ! i), sds_msi_index (?ss ! i))"
    if "i < ?ns" for i
    unfolding m' using that len by (simp add: put_sds_read)
  have "parse_rx_request m' rq =
      \<lparr>rq_rsp_addr = phys, rq_caps = rx_caps c,
       rq_rds = map (\<lambda>i. rds_at m' (?p + 24 * i)) [0..<?nr],
       rq_sds = map (\<lambda>i. sds_at m' (?q + 16 * i)) [0..<?ns]\<rparr>"
    by (simp add: parse_rx_request_def hd unat_rq_sds_off)
  also have "map (\<lambda>i. rds_at m' (?p + 24 * i)) [0..<?nr] =
      map (\<lambda>r. (rds_host_phys r, rds_buff_size r, rds_ring_size r, ?k)) ?rs"
    by (rule nth_equalityI) (use len rds in simp_all)
  also have "map (\<lambda>i. sds_at m' (?q + 16 * i)) [0..<?ns] =
      map (\<lambda>r. (sds_host_phys r, sds_ring_size r, sds_msi_index r)) ?ss"
    by (rule nth_equalityI) (use len sds in simp_all)
  finally have parse: "parse_rx_request m' rq = \<lparr>rq_rsp_addr = phys, rq_caps = rx_caps c,
       rq_rds = map (\<lambda>r. (rds_host_phys r, rds_buff_size r, rds_ring_size r, ?k)) ?rs,
       rq_sds = map (\<lambda>r. (sds_host_phys r, sds_ring_size r, sds_msi_index r)) ?ss\<rparr>" .
  have frame: "m' i = m i" if "i < rq \<or> rq + 176 + 24 * ?nr + 16 * ?ns \<le> i" for i
  proof -
    have "m' i = h i"
      unfolding m' using that len by (auto simp: put_sds_frame put_rds_frame RQ_RX_DATA_def)
    also have "h i = m i"
      unfolding h_def using that by (auto simp: put_le_def rq_rx_offsets)
    finally show ?thesis .
  qed
  have "rq \<le> i \<and> i < rq + 176 + 24 * ?nr + 16 * ?ns \<or> m' i = m i" for i
    using frame [of i] by linarith
  with parse show ?thesis by blast
qed

definition sample_rx :: rx_ctx where
  "sample_rx = \<lparr>rx_this_id = 0,
     rds_rings = [zero_rds\<lparr>rds_host_phys := 0x1000, ring_kind := 0\<rparr>, zero_rds\<lparr>rds_host_phys := 0x2000, ring_kind := 1\<rparr>],
     sds_rings = [zero_sds\<lparr>sds_host_phys := 0x3000\<rparr>], num_rds_rings = 2, num_sds_rings = 1, num_rules = 1,
     rx_state = NX_HOST_CTX_STATE_ALLOCATED, rx_context_id = 0, chaining_allowed = False,
     multi_context = False, rx_port = 0, rx_pci_func = 0, num_fn_per_port = 0\<rparr>"

lemma rx_request_roundtrip_witness:
  "\<exists>m. build_rx_request sample_rx 0x5000 64 (\<lambda>_. 0) = Some m \<and>
     rq_rds (parse_rx_request m 64) = [(0x1000, 0, 0, 0), (0x2000, 0, 0, 0)]"
proof -
  obtain m where m: "build_rx_request sample_rx 0x5000 64 (\<lambda>_. 0) = Some m"
    by (simp add: build_rx_request_def sample_rx_def Let_def)
  from rx_request_roundtrip [OF this] m show ?thesis
    by (simp add: sample_rx_def zero_rds_def)
qed

subsection \<open>The response\<close>

lemma take_rds_rsp_eq:
  "take_rds_rsp m p i n rs =
     (if n = 0 \<or> i + n \<le> length rs
      then Some (map (\<lambda>j. if i \<le> j \<and> j < i + n then (rs ! j)\<lparr>host_rx_producer := get32 (p + 8 * j) m\<rparr> else rs ! j)
                   [0..<length rs])
      else None)"
proof (induction n arbitrary: i rs)
  case 0
  show ?case by (auto intro!: nth_equalityI)
next
  case (Suc n)
  show ?case
    by (auto simp: Suc.IH nth_list_update intro!: nth_equalityI)
qed

lemma take_sds_rsp_eq:
  "take_sds_rsp m p i n rs =
     (if n = 0 \<or> i + n \<le> length rs
      then Some (map (\<lambda>j. if i \<le> j \<and> j < i + n
                        then (rs ! j)\<lparr>host_sds_consumer := get32 (p + 8 * j) m, interrupt_crb := get32 (p + 8 * j + 4) m\<rparr>
                        else rs ! j) [0..<length rs])
      else None)"
proof (induction n arbitrary: i rs)
  case 0
  show ?case by (auto intro!: nth_equalityI)
next
  case (Suc n)
  show ?case
    by (auto simp: Suc.IH nth_list_update intro!: nth_equalityI)
qed

text \<open>The card's answer for a ring, by position.\<close>

definition rsp_producer :: "memory \<Rightarrow> nat \<Rightarrow> nat \<Rightarrow> u32" where
  "rsp_producer m rsp j = get32 (rsp + RSP_RX_DATA + unat (get32 (rsp + RSP_RX_RDS_OFF) m) + 8 * j) m"

definition rsp_consumer :: "memory \<Rightarrow> nat \<Rightarrow> nat \<Rightarrow> u32" where
  "rsp_consumer m rsp j = get32 (rsp + RSP_RX_DATA + unat (get32 (rsp + RSP_RX_SDS_OFF) m) + 8 * j) m"

definition rsp_fits :: "memory \<Rightarrow> nat \<Rightarrow> rx_ctx \<Rightarrow> bool" where
  "rsp_fits m rsp c \<longleftrightarrow> unat (get16 (rsp + RSP_RX_NUM_RDS) m) \<le> length (rds_rings c) \<and>
     unat (get16 (rsp + RSP_RX_NUM_SDS) m) \<le> length (sds_rings c)"

lemma take_rx_response_spec:
  "(if rsp_fits m rsp c
    then \<exists>c'. take_rx_response m rsp c = Some c' \<and> length (rds_rings c') = length (rds_rings c) \<and>
      length (sds_rings c') = length (sds_rings c) \<and>
      rx_state c' = get32 (rsp + RSP_RX_STATE) m \<and> rx_this_id c' = rx_this_id c \<and>
      rx_context_id c' = ucast (get16 (rsp + RSP_RX_CONTEXT_ID) m) \<and>
      (\<forall>j < unat (get16 (rsp + RSP_RX_NUM_RDS) m). rds_rings c' ! j = (rds_rings c ! j)\<lparr>host_rx_producer := rsp_producer m rsp j\<rparr>) \<and>
      (\<forall>j < unat (get16 (rsp + RSP_RX_NUM_SDS) m). host_sds_consumer (sds_rings c' ! j) = rsp_consumer m rsp j)
    else take_rx_response m rsp c = None)"
  by (auto simp: take_rx_response_def rsp_fits_def take_rds_rsp_eq take_sds_rsp_eq rsp_producer_def rsp_consumer_def)
text \<open>
  A response that names more rings than the context has makes the host store past its ring arrays;
  with any other the first rings get the registers the card gave for their positions.
\<close>

theorem rx_response_bounds:
  "(case take_rx_response m rsp c of
      None \<Rightarrow> \<not> rsp_fits m rsp c
    | Some c' \<Rightarrow> rsp_fits m rsp c \<and> rx_state c' = get32 (rsp + RSP_RX_STATE) m \<and>
       rx_context_id c' = ucast (get16 (rsp + RSP_RX_CONTEXT_ID) m) \<and>
       list_all (\<lambda>j. rds_rings c' ! j = (rds_rings c ! j)\<lparr>host_rx_producer := rsp_producer m rsp j\<rparr>)
         [0..<unat (get16 (rsp + RSP_RX_NUM_RDS) m)] \<and>
       list_all (\<lambda>j. host_sds_consumer (sds_rings c' ! j) = rsp_consumer m rsp j)
         [0..<unat (get16 (rsp + RSP_RX_NUM_SDS) m)])"
  using take_rx_response_spec [of m rsp c] by (cases "rsp_fits m rsp c") (auto simp: list_all_iff)

subsection \<open>The exchange with the firmware\<close>

text \<open>The firmware of \<open>fw_bus\<close> with host memory as the rest of its machine.\<close>

definition fw_memory :: "memory fw host_memory" where
  "fw_memory = \<lparr>look = fenv, store = \<lambda>m h. h\<lparr>fenv := m\<rparr>\<rparr>"

lemma yields_look: "yields (mem_look fw_memory) h (fenv h) h"
  by (simp add: yields_def mem_look_def fw_memory_def)

lemma yields_store: "yields (mem_store fw_memory m) h () (h\<lparr>fenv := m\<rparr>)"
  by (simp add: yields_def mem_store_def fw_memory_def)

text \<open>
  C22 Creating a receive context: the request is in memory before the command is issued, and what the
  firmware leaves in memory is read after it has answered. On success the context takes the
  response and becomes the default if there was none; on failure the firmware's code is returned and no
  context changes.
\<close>

theorem create_rx_ctx_exchange:
  assumes "rx_heap nic a = Some c" "rx_state c = NX_HOST_CTX_STATE_ALLOCATED"
    "dma_ptr rq = Some rq_ptr" "dma_ptr rsp = Some rsp_ptr"
    "build_rx_request c (dma_phys rsp) rq_ptr (fenv h) = Some m"
    "F (NX_CDRP_SIGNATURE_MAKE (ucast (rx_pci_func c)) NXHAL_VERSION) (NX_CDRP_FORM_CMD 7)
       (ucast (drop_bit 32 (dma_phys rq)), ucast (dma_phys rq), dma_size rq) m = ((r, r1, r2, r3), m2)"
    "NX_CDRP_IS_RSP r" "k < 4000"
  shows "\<exists>h'. yields (nx_fw_cmd_create_rx_ctx (fw_bus F k) fw_memory (Some a) (Some rq) (Some rsp) nic) h
     (if rsp_code r r1 \<noteq> NX_RCODE_SUCCESS then Some (rsp_code r r1, nic)
      else map_option (\<lambda>c'. (NX_RCODE_SUCCESS, nic\<lparr>rx_heap := (rx_heap nic)(a \<mapsto> c'),
             default_rx_ctx := (if default_rx_ctx nic = None then Some a else default_rx_ctx nic)\<rparr>))
        (take_rx_response m2 rsp_ptr c)) h'"
proof -
  let ?h = "h\<lparr>fenv := m\<rparr>"
  have f: "F (NX_CDRP_SIGNATURE_MAKE (ucast (rx_pci_func c)) NXHAL_VERSION) (NX_CDRP_FORM_CMD 7)
       (ucast (drop_bit 32 (dma_phys rq)), ucast (dma_phys rq), dma_size rq) (fenv ?h) = ((r, r1, r2, r3), m2)"
    using assms(6) by simp
  from issue_cmd_fw [where F = F and h = ?h, OF f assms(7), of k] assms(8) obtain h' where
    i: "yields (issue_cmd (fw_bus F k) (ucast (rx_pci_func c)) NXHAL_VERSION
          (ucast (drop_bit 32 (dma_phys rq))) (ucast (dma_phys rq)) (dma_size rq) 7) ?h (rsp_code r r1) h'"
      "fenv h' = m2" by auto
  let ?res = "if rsp_code r r1 \<noteq> NX_RCODE_SUCCESS then Some (rsp_code r r1, nic)
      else map_option (\<lambda>c'. (NX_RCODE_SUCCESS, nic\<lparr>rx_heap := (rx_heap nic)(a \<mapsto> c'),
             default_rx_ctx := (if default_rx_ctx nic = None then Some a else default_rx_ctx nic)\<rparr>))
        (take_rx_response m2 rsp_ptr c)"
  have tail: "yields (if rsp_code r r1 \<noteq> NX_RCODE_SUCCESS then ret (Some (rsp_code r r1, nic))
      else do { m2 \<leftarrow> mem_look fw_memory; ret (rx_created nic a (rsp_code r r1) (take_rx_response m2 rsp_ptr c)) })
      h' ?res h'"
  proof (cases "rsp_code r r1 = NX_RCODE_SUCCESS")
    case True
    have "yields (do { m2 \<leftarrow> mem_look fw_memory; ret (rx_created nic a (rsp_code r r1) (take_rx_response m2 rsp_ptr c)) })
        h' (rx_created nic a (rsp_code r r1) (take_rx_response (fenv h') rsp_ptr c)) h'"
      by (rule yields_bind [OF yields_look yields_ret])
    moreover have "rx_created nic a (rsp_code r r1) (take_rx_response (fenv h') rsp_ptr c) = ?res"
      using True i(2) by (cases "take_rx_response m2 rsp_ptr c") (simp_all add: rx_created_def)
    ultimately show ?thesis using True by simp
  next
    case False
    then show ?thesis by (simp add: yields_ret)
  qed
  have "yields (nx_fw_cmd_create_rx_ctx (fw_bus F k) fw_memory (Some a) (Some rq) (Some rsp) nic) h ?res h'"
    unfolding nx_fw_cmd_create_rx_ctx_def prod.case option.case assms(1,3,4)
    by (simp only: assms(2) simp_thms if_False, rule yields_bind, rule yields_look,
        simp only: assms(5) option.case, rule yields_bind, rule yields_store, rule yields_bind, rule i(1), rule tail)
  then show ?thesis by blast
qed

text \<open>A firmware that accepts every request and answers with one receive ring, context 9, active.\<close>

definition one_ring_fw :: "memory firmware" where
  "one_ring_fw sig cmd args m = ((NX_CDRP_RSP_OK, 0, 0, 0),
     put16 (512 + RSP_RX_CONTEXT_ID) 9 (put16 (512 + RSP_RX_NUM_SDS) 0 (put16 (512 + RSP_RX_NUM_RDS) 1
       (put32 (512 + RSP_RX_STATE) 2 (put32 (512 + RSP_RX_RDS_OFF) 0 (put32 (512 + RSP_RX_DATA) 0x77 m))))))"

lemma create_rx_ctx_exchange_witness:
  "\<exists>h' nic'. yields (nx_fw_cmd_create_rx_ctx (fw_bus one_ring_fw 5) fw_memory (Some 64)
       (Some \<lparr>dma_ptr = Some 128, dma_phys = 128, dma_size = 240\<rparr>)
       (Some \<lparr>dma_ptr = Some 512, dma_phys = 512, dma_size = 168\<rparr>)
       (sample_nic\<lparr>rx_heap := [64 \<mapsto> sample_rx]\<rparr>)) \<lparr>fregs = \<lambda>_. 0, fbusy = 0, fenv = \<lambda>_. 0\<rparr>
       (Some (NX_RCODE_SUCCESS, nic')) h' \<and>
     map_option rx_context_id (rx_heap nic' 64) = Some 9 \<and>
     map_option (\<lambda>c. host_rx_producer (rds_rings c ! 0)) (rx_heap nic' 64) = Some 0x77 \<and>
     default_rx_ctx nic' = Some 64"
proof -
  let ?nic = "sample_nic\<lparr>rx_heap := [64 \<mapsto> sample_rx]\<rparr>"
  let ?rq = "\<lparr>dma_ptr = Some 128, dma_phys = 128, dma_size = 240\<rparr>"
  let ?rsp = "\<lparr>dma_ptr = Some 512, dma_phys = 512, dma_size = 168\<rparr>"
  let ?h = "\<lparr>fregs = \<lambda>_. 0, fbusy = 0, fenv = (\<lambda>_. 0) :: memory\<rparr>"
  obtain m where m: "build_rx_request sample_rx (dma_phys ?rsp) 128 (fenv ?h) = Some m"
    by (simp add: build_rx_request_def sample_rx_def Let_def)
  obtain m2 where f: "one_ring_fw (NX_CDRP_SIGNATURE_MAKE (ucast (rx_pci_func sample_rx)) NXHAL_VERSION) (NX_CDRP_FORM_CMD 7)
      (ucast (drop_bit 32 (dma_phys ?rq)), ucast (dma_phys ?rq), dma_size ?rq) m = ((NX_CDRP_RSP_OK, 0, 0, 0), m2)"
    "m2 = put16 (512 + RSP_RX_CONTEXT_ID) 9 (put16 (512 + RSP_RX_NUM_SDS) 0 (put16 (512 + RSP_RX_NUM_RDS) 1
       (put32 (512 + RSP_RX_STATE) 2 (put32 (512 + RSP_RX_RDS_OFF) 0 (put32 (512 + RSP_RX_DATA) 0x77 m)))))"
    by (simp add: one_ring_fw_def)
  have s: "rx_heap ?nic 64 = Some sample_rx" "rx_state sample_rx = NX_HOST_CTX_STATE_ALLOCATED"
    "dma_ptr ?rq = Some 128" "dma_ptr ?rsp = Some 512"
    by (simp_all add: sample_rx_def)
  have r: "NX_CDRP_IS_RSP NX_CDRP_RSP_OK"
    by (simp add: NX_CDRP_IS_RSP_def NX_CDRP_CMD_BIT_def NX_CDRP_RSP_OK_def)
  have g: "get16 (512 + RSP_RX_NUM_RDS) m2 = 1" "get16 (512 + RSP_RX_NUM_SDS) m2 = 0"
    "get16 (512 + RSP_RX_CONTEXT_ID) m2 = 9" "get32 (512 + RSP_RX_RDS_OFF) m2 = 0"
    "get32 (512 + RSP_RX_DATA) m2 = 0x77"
    by (simp_all add: f(2) rsp_rx_offsets get_put) (simp_all flip: take_bit_eq_mask)
  obtain c' where c': "take_rx_response m2 512 sample_rx = Some c'"
    "rx_context_id c' = 9" "host_rx_producer (rds_rings c' ! 0) = 0x77"
    using take_rx_response_spec [of m2 512 sample_rx] g
    by (auto simp: rsp_fits_def sample_rx_def rsp_producer_def)
  let ?nic' = "?nic\<lparr>rx_heap := [64 \<mapsto> c'], default_rx_ctx := Some 64\<rparr>"
  have d: "default_rx_ctx ?nic = None" by (simp add: sample_nic_def)
  have u: "?nic\<lparr>rx_heap := (rx_heap ?nic)(64 \<mapsto> c'),
      default_rx_ctx := if default_rx_ctx ?nic = None then Some 64 else default_rx_ctx ?nic\<rparr> = ?nic'"
    by (simp add: d)
  from create_rx_ctx_exchange [where F = one_ring_fw and h = ?h, OF s m f(1) r, of 5]
  have "\<exists>h'. yields (nx_fw_cmd_create_rx_ctx (fw_bus one_ring_fw 5) fw_memory (Some 64) (Some ?rq) (Some ?rsp) ?nic)
      ?h (Some (NX_RCODE_SUCCESS, ?nic')) h'"
    unfolding u c'(1) rsp_ok by (simp only: simp_thms if_False option.map u)
  moreover have "map_option rx_context_id (rx_heap ?nic' 64) = Some 9"
    "map_option (\<lambda>c. host_rx_producer (rds_rings c ! 0)) (rx_heap ?nic' 64) = Some 0x77" "default_rx_ctx ?nic' = Some 64"
    by (simp_all add: c'(2,3))
  ultimately show ?thesis by blast
qed

end
