(* ===== verification/EventWait.thy ===== *)
theory EventWait
  imports Lro NicCtx
begin

text \<open>
  Requests to the firmware over the transmit ring that wait for a reply: the table of completion
  ids and the list of waiters (\<open>nx_os_event_wait_setup\<close>, \<open>nx_os_event_wait\<close>,
  \<open>nx_os_event_wakeup_on_response\<close> of \<open>driver/unm_nic_main.c\<close>) and the request function over them
  (\<open>nx_os_send_nic_request\<close> of \<open>driver/nxhal.c\<close>). A waiter is a local variable of the waiting
  function: \<open>waits\<close> maps the addresses of the live ones to their contents, and the list holds addresses. A
  dereference of a dead one is the crash, \<^const>\<open>None\<close>.
\<close>

subsection \<open>Data\<close>

text \<open>\<open>nx_os_wait_event_t\<close>; \<open>w_rsp_word\<close> is the address the reply goes to.\<close>

record wait_event =
  w_comp_id :: u8
  w_trigger :: bool
  w_active :: bool
  w_rsp_word :: "nat option"

text \<open>The body of a link event, \<open>nic_linkevent_response_t\<close>, without the cable fields, which are only logged.\<close>

record linkevent =
  le_link_speed :: u16
  le_link_status :: u8
  le_module :: u8
  le_full_duplex :: u8
  le_link_autoneg :: u8

record nic_response =
  rsp_opcode :: u8
  rsp_compid :: u8
  rsp_word :: u64
  rsp_link :: linkevent

text \<open>The part of the adapter that requests and responses touch. \<open>lro_rsps\<close> are the responses handed to
  \<open>nx_handle_lro_response\<close>, in order.\<close>

record nic_adapter =
  ad_tx :: tx_adapter
  nx_dev :: host_nic
  portnum :: u16
  fw_v34 :: bool
  wait_bit_map :: "u64 list"
  wait_list :: "nat list"
  waits :: "nat \<Rightarrow> wait_event option"
  words :: "nat \<Rightarrow> u64"
  lro_rsps :: "nic_response list"
  fw_capabilities_1 :: u32
  link_speed :: u16
  duplex_full :: bool
  link_autoneg :: u16
  link_module_type :: u16
  linkup :: u32
  carrier_ok :: bool

definition NX_MAX_COMP_ID :: nat where "NX_MAX_COMP_ID = 256"
definition NIC_REQUEST :: u64 where "NIC_REQUEST = 0x14"
definition NX_NIC_H2C_OPCODE_CONFIG_L2_MAC :: u64 where "NX_NIC_H2C_OPCODE_CONFIG_L2_MAC = 6"
definition UNM_MAC_EVENT :: u64 where "UNM_MAC_EVENT = 1"
definition NX_NIC_C2H_OPCODE_LRO_DELETE_RESPONSE :: u8 where "NX_NIC_C2H_OPCODE_LRO_DELETE_RESPONSE = 134"
definition NX_NIC_C2H_OPCODE_LRO_ADD_FAILURE_RESPONSE :: u8 where "NX_NIC_C2H_OPCODE_LRO_ADD_FAILURE_RESPONSE = 135"
definition NX_NIC_C2H_OPCODE_GET_LINKEVENT_RESPONSE :: u8 where "NX_NIC_C2H_OPCODE_GET_LINKEVENT_RESPONSE = 141"
definition NX_FW_CAPABILITY_LINK_NOTIFICATION :: u32 where "NX_FW_CAPABILITY_LINK_NOTIFICATION = push_bit 5 1"
definition LINKEVENT_FULL_DUPLEX :: u8 where "LINKEVENT_FULL_DUPLEX = 1"

subsection \<open>The request header\<close>

text \<open>Fields of the descriptor's first word and of \<open>nic_req_hdr_t\<close>, the second.\<close>

definition set_opcode :: "u64 \<Rightarrow> cmd_desc \<Rightarrow> cmd_desc" where
  "set_opcode op r = r\<lparr>word0 := put_bits 23 6 op (word0 r)\<rparr>"
definition set_qmsg_type :: "u64 \<Rightarrow> cmd_desc \<Rightarrow> cmd_desc" where
  "set_qmsg_type t r = r\<lparr>word0 := put_bits 58 6 t (word0 r)\<rparr>"
definition hdr_opcode :: "u64 \<Rightarrow> cmd_desc \<Rightarrow> cmd_desc" where
  "hdr_opcode op r = r\<lparr>word1 := put_bits 0 8 op (word1 r)\<rparr>"
definition hdr_comp_id :: "u64 \<Rightarrow> cmd_desc \<Rightarrow> cmd_desc" where
  "hdr_comp_id c r = r\<lparr>word1 := put_bits 8 8 c (word1 r)\<rparr>"
definition hdr_ctxid :: "u64 \<Rightarrow> cmd_desc \<Rightarrow> cmd_desc" where
  "hdr_ctxid c r = r\<lparr>word1 := put_bits 16 16 c (word1 r)\<rparr>"
definition hdr_need_completion :: "u64 \<Rightarrow> cmd_desc \<Rightarrow> cmd_desc" where
  "hdr_need_completion c r = r\<lparr>word1 := put_bits 32 1 c (word1 r)\<rparr>"

subsection \<open>Completion ids and waiters\<close>

text \<open>
  \<open>(uint64_t)(1 << (i & 0x3F))\<close>: the shift is of a 32-bit \<open>int\<close>, so its count is taken modulo 32 by
  the processor (the C standard leaves it undefined), and bit 31 is extended upwards as a sign.
\<close>

definition comp_bit :: "nat \<Rightarrow> u64" where
  "comp_bit i = scast (push_bit (i mod 64 mod 32) (1 :: u32))"

definition comp_index :: "nat \<Rightarrow> nat" where
  "comp_index i = i mod 256 div 64"

text \<open>The search: \<open>n\<close> ids from \<open>i\<close> on.\<close>

fun find_comp_id :: "u64 list \<Rightarrow> nat \<Rightarrow> nat \<Rightarrow> nat option" where
  "find_comp_id m i 0 = None"
| "find_comp_id m i (Suc n) =
     (if comp_bit i AND m ! comp_index i = 0 then Some i else find_comp_id m (i + 1) n)"

text \<open>\<open>w\<close> is the address of the caller's wait event.\<close>

definition nx_os_event_wait_setup ::
    "cmd_desc \<Rightarrow> nat option \<Rightarrow> nat \<Rightarrow> nic_adapter \<Rightarrow> nx_rcode \<times> cmd_desc \<times> nic_adapter" where
  "nx_os_event_wait_setup req rsp w a =
     (let e = \<lparr>w_comp_id = 0, w_trigger = False, w_active = True, w_rsp_word = rsp\<rparr> in
      case find_comp_id (wait_bit_map a) 0 NX_MAX_COMP_ID of
        None \<Rightarrow> (NX_RCODE_CMD_FAILED, req, a\<lparr>waits := (waits a)(w \<mapsto> e)\<rparr>)
      | Some i \<Rightarrow>
          (NX_RCODE_SUCCESS, hdr_comp_id (of_nat i) req,
           a\<lparr>wait_bit_map := (wait_bit_map a)[comp_index i := (wait_bit_map a ! comp_index i) OR comp_bit i],
             waits := (waits a)(w \<mapsto> e\<lparr>w_comp_id := of_nat i\<rparr>),
             wait_list := w # wait_list a\<rparr>))"

text \<open>Waiting: while the thread sleeps for 100 ms the rest of the driver runs, which is \<open>env\<close>.\<close>

function wait_loop ::
    "(int \<Rightarrow> nic_adapter \<Rightarrow> nic_adapter) \<Rightarrow> nat \<Rightarrow> int \<Rightarrow> nic_adapter \<Rightarrow> (nx_rcode \<times> nic_adapter) option" where
  "wait_loop env w limit a =
     (case waits a w of
        None \<Rightarrow> None
      | Some e \<Rightarrow>
          if w_trigger e then Some (NX_RCODE_SUCCESS, a)
          else if limit \<le> 0 then Some (NX_RCODE_TIMEOUT, a)
          else wait_loop env w (limit - 100000) (env limit a))"
  by pat_completeness auto
termination
  by (relation "measure (\<lambda>(env, w, limit, a). nat limit)") auto

declare wait_loop.simps [simp del]

definition nx_os_event_wait ::
    "(int \<Rightarrow> nic_adapter \<Rightarrow> nic_adapter) \<Rightarrow> nat \<Rightarrow> int \<Rightarrow> nic_adapter \<Rightarrow> (nx_rcode \<times> nic_adapter) option" where
  "nx_os_event_wait env w utimelimit a =
     (case wait_loop env w utimelimit a of
        None \<Rightarrow> None
      | Some (rv, b) \<Rightarrow>
          (case waits b w of
             None \<Rightarrow> None
           | Some e \<Rightarrow>
               let i = unat (w_comp_id e) in
               Some (rv, b\<lparr>wait_bit_map := (wait_bit_map b)[comp_index i := (wait_bit_map b ! comp_index i) AND NOT (comp_bit i)],
                           wait_list := remove1 w (wait_list b)\<rparr>)))"

definition nx_nic_get_linkevent_cap :: "nic_adapter \<Rightarrow> u32" where
  "nx_nic_get_linkevent_cap a = fw_capabilities_1 a AND NX_FW_CAPABILITY_LINK_NOTIFICATION"

definition nic_handle_linkevent_response :: "nic_response \<Rightarrow> nic_adapter \<Rightarrow> nic_adapter" where
  "nic_handle_linkevent_response rsp a =
     (let l = rsp_link rsp in
      if nx_nic_get_linkevent_cap a = 0 then a
      else
        let b = a\<lparr>link_speed := le_link_speed l, duplex_full := (le_full_duplex l = LINKEVENT_FULL_DUPLEX),
                  link_autoneg := ucast (le_link_autoneg l), link_module_type := ucast (le_module l)\<rparr>
        in if linkup b \<noteq> ucast (le_link_status l) then
             (let c = b\<lparr>linkup := ucast (le_link_status l)\<rparr> in
              if linkup c = 0 then c\<lparr>carrier_ok := False, ad_tx := (ad_tx c)\<lparr>queue_stopped := True\<rparr>\<rparr>
              else c\<lparr>carrier_ok := True, ad_tx := (ad_tx c)\<lparr>queue_stopped := False\<rparr>\<rparr>)
           else b)"

text \<open>The search through the list of waiters: \<^const>\<open>None\<close> when it meets a dead one.\<close>

fun find_waiter :: "(nat \<Rightarrow> wait_event option) \<Rightarrow> u8 \<Rightarrow> nat list \<Rightarrow> (nat \<times> wait_event) option option" where
  "find_waiter ws compid [] = Some None"
| "find_waiter ws compid (w # l) =
     (case ws w of
        None \<Rightarrow> None
      | Some e \<Rightarrow> if w_comp_id e = compid then Some (Some (w, e)) else find_waiter ws compid l)"

definition nx_os_event_wakeup_on_response :: "nic_response \<Rightarrow> nic_adapter \<Rightarrow> (nx_rcode \<times> nic_adapter) option" where
  "nx_os_event_wakeup_on_response rsp a =
     (if rsp_opcode rsp = NX_NIC_C2H_OPCODE_LRO_DELETE_RESPONSE \<or>
         rsp_opcode rsp = NX_NIC_C2H_OPCODE_LRO_ADD_FAILURE_RESPONSE
      then Some (NX_RCODE_SUCCESS, a\<lparr>lro_rsps := lro_rsps a @ [rsp]\<rparr>)
      else if rsp_opcode rsp = NX_NIC_C2H_OPCODE_GET_LINKEVENT_RESPONSE
      then Some (NX_RCODE_SUCCESS, nic_handle_linkevent_response rsp a)
      else (case find_waiter (waits a) (rsp_compid rsp) (wait_list a) of
        None \<Rightarrow> None
      | Some None \<Rightarrow> Some (NX_RCODE_CMD_FAILED, a)
      | Some (Some (w, e)) \<Rightarrow>
          if \<not> w_active e then Some (NX_RCODE_CMD_FAILED, a)
          else Some (NX_RCODE_SUCCESS,
            a\<lparr>words := (case w_rsp_word e of None \<Rightarrow> words a | Some p \<Rightarrow> (words a)(p := rsp_word rsp)),
              waits := (waits a)(w \<mapsto> e\<lparr>w_trigger := True, w_active := False\<rparr>)\<rparr>)))"

definition nx_os_handle_nic_response :: "nic_response \<Rightarrow> nic_adapter \<Rightarrow> nic_adapter option" where
  "nx_os_handle_nic_response rsp a = map_option snd (nx_os_event_wakeup_on_response rsp a)"

subsection \<open>Sending a request\<close>

definition nx_os_send_cmd_descs ::
    "pend_block option \<Rightarrow> cmd_desc list \<Rightarrow> nic_adapter \<Rightarrow> int \<times> nic_adapter" where
  "nx_os_send_cmd_descs mem req a =
     (case nx_nic_send_cmd_descs mem (ad_tx a) req of (rv, t) \<Rightarrow> (rv, a\<lparr>ad_tx := t\<rparr>))"

text \<open>Copying the body, given as whole words, over \<open>words[0]\<close> on; more than six would overrun the request.\<close>

fun copy_body :: "u64 list \<Rightarrow> cmd_desc \<Rightarrow> cmd_desc option" where
  "copy_body [] r = Some r"
| "copy_body [a] r = Some (r\<lparr>word2 := a\<rparr>)"
| "copy_body [a, b] r = Some (r\<lparr>word2 := a, word3 := b\<rparr>)"
| "copy_body [a, b, c] r = Some (r\<lparr>word2 := a, word3 := b, word4 := c\<rparr>)"
| "copy_body [a, b, c, d] r = Some (r\<lparr>word2 := a, word3 := b, word4 := c, word5 := d\<rparr>)"
| "copy_body [a, b, c, d, e] r = Some (r\<lparr>word2 := a, word3 := b, word4 := c, word5 := d, word6 := e\<rparr>)"
| "copy_body [a, b, c, d, e, f] r =
     Some (r\<lparr>word2 := a, word3 := b, word4 := c, word5 := d, word6 := e, word7 := f\<rparr>)"
| "copy_body (a # b # c # d # e # f # g # xs) r = None"

text \<open>A function's wait event is dead once it has returned.\<close>

definition frame_dies :: "nat \<Rightarrow> nic_adapter \<Rightarrow> nic_adapter" where
  "frame_dies w a = a\<lparr>waits := (waits a)(w := None)\<rparr>"

text \<open>\<open>stack\<close> is the uninitialised request; \<open>w\<close> and \<open>dummy\<close> are the addresses of the locals; \<open>ctx\<close> is
  \<open>prx_ctx->context_id\<close>. The limit is \<open>NX_OS_CRB_RETRY_COUNT * NX_OS_CRB_UDELAY_VALUE\<close>.\<close>

definition send_request_desc :: "cmd_desc \<Rightarrow> u32 \<Rightarrow> u64 \<Rightarrow> u64 \<Rightarrow> cmd_desc" where
  "send_request_desc stack ctx opcode is_sync =
     (let r = (if opcode = NX_NIC_H2C_OPCODE_CONFIG_L2_MAC
               then hdr_opcode UNM_MAC_EVENT (set_opcode NIC_REQUEST stack)
               else hdr_opcode opcode (set_opcode NX_NIC_HOST_REQUEST stack))
      in hdr_need_completion is_sync (hdr_ctxid (ucast ctx) r))"

definition nx_os_send_nic_request ::
    "pend_block option \<Rightarrow> (int \<Rightarrow> nic_adapter \<Rightarrow> nic_adapter) \<Rightarrow> cmd_desc \<Rightarrow> nat \<Rightarrow> nat \<Rightarrow> u32 \<Rightarrow> u64 \<Rightarrow>
     u64 list \<Rightarrow> u64 \<Rightarrow> nat option \<Rightarrow> nic_adapter \<Rightarrow> (nx_rcode \<times> nic_adapter) option" where
  "nx_os_send_nic_request mem env stack w dummy ctx opcode rqbody is_sync rspword a =
     (case copy_body rqbody (send_request_desc stack ctx opcode is_sync) of
        None \<Rightarrow> None
      | Some req \<Rightarrow>
          if is_sync \<noteq> 0 then
            (case nx_os_event_wait_setup req (Some (case rspword of None \<Rightarrow> dummy | Some p \<Rightarrow> p)) w a of
               (rc, req', b) \<Rightarrow>
                 if rc \<noteq> NX_RCODE_SUCCESS then Some (NX_RCODE_CMD_FAILED, frame_dies w b)
                 else (case nx_os_send_cmd_descs mem [req'] b of
                    (rv, c) \<Rightarrow>
                      if rv \<noteq> 0 then Some (NX_RCODE_CMD_FAILED, frame_dies w c)
                      else (case nx_os_event_wait env w 4000000 c of
                              None \<Rightarrow> None
                            | Some (_, d) \<Rightarrow> Some (NX_RCODE_SUCCESS, frame_dies w d))))
          else (case nx_os_send_cmd_descs mem [req] a of
                  (rv, b) \<Rightarrow> Some (if rv \<noteq> 0 then NX_RCODE_CMD_FAILED else NX_RCODE_SUCCESS, b)))"

subsection \<open>Address filter requests\<close>

definition validate_dev_for_cmd :: "host_nic \<Rightarrow> nx_rcode" where
  "validate_dev_for_cmd nic =
     (if active_rx_ctxs nic \<le> 0 \<or> active_tx_ctxs nic \<le> 0 \<or> default_rx_ctx nic = None \<or> default_tx_ctx nic = None
      then NX_RCODE_CMD_FAILED else NX_RCODE_SUCCESS)"

text \<open>\<open>mac_request_t\<close> as a word: operation, tag, then the six bytes of the address.\<close>

definition mac_request :: "u64 \<Rightarrow> u8 list \<Rightarrow> u64" where
  "mac_request op mac = op OR get_le 6 0 (\<lambda>i. mac ! i) * 2 ^ 16"

definition UNM_MAC_ADD :: u64 where "UNM_MAC_ADD = 1"
definition UNM_MAC_DEL :: u64 where "UNM_MAC_DEL = 2"

definition no_env :: "int \<Rightarrow> nic_adapter \<Rightarrow> nic_adapter" where "no_env i a = a"

text \<open>These two do not wait, so there is no environment and no local that matters.\<close>

definition nx_os_pf_add_l2_mac ::
    "pend_block option \<Rightarrow> cmd_desc \<Rightarrow> u32 \<Rightarrow> u8 list \<Rightarrow> nic_adapter \<Rightarrow> (nx_rcode \<times> nic_adapter) option" where
  "nx_os_pf_add_l2_mac mem stack ctx mac a =
     (let rv = validate_dev_for_cmd (nx_dev a) in
      if rv \<noteq> NX_RCODE_SUCCESS then Some (rv, a)
      else nx_os_send_nic_request mem no_env stack 0 0 ctx NX_NIC_H2C_OPCODE_CONFIG_L2_MAC
             [mac_request UNM_MAC_ADD mac] 0 None a)"

definition nx_os_pf_remove_l2_mac ::
    "pend_block option \<Rightarrow> cmd_desc \<Rightarrow> u32 \<Rightarrow> u8 list \<Rightarrow> nic_adapter \<Rightarrow> (nx_rcode \<times> nic_adapter) option" where
  "nx_os_pf_remove_l2_mac mem stack ctx mac a =
     (let rv = validate_dev_for_cmd (nx_dev a) in
      if rv \<noteq> NX_RCODE_SUCCESS then Some (rv, a)
      else nx_os_send_nic_request mem no_env stack 0 0 ctx NX_NIC_H2C_OPCODE_CONFIG_L2_MAC
             [mac_request UNM_MAC_DEL mac] 0 None a)"

subsection \<open>Completion ids are unique\<close>

lemma bit_comp_bit: "bit (comp_bit i) j \<longleftrightarrow> j < 64 \<and> min 31 j = i mod 32"
proof -
  have "i mod 64 mod 32 = i mod 32" by (simp add: mod_mod_cancel)
  then show ?thesis
    by (auto simp: comp_bit_def bit_signed_iff bit_simps possible_bit_def)
qed

lemma comp_bit_disjoint: "comp_bit i AND m = 0 \<longleftrightarrow> (\<forall>j < 64. min 31 j = i mod 32 \<longrightarrow> \<not> bit m j)"
  by (auto simp: bit_eq_iff bit_simps bit_comp_bit dest: bit_imp_le_length)

definition cid :: "nic_adapter \<Rightarrow> nat \<Rightarrow> nat" where
  "cid a w = unat (w_comp_id (the (waits a w)))"

text \<open>Live waiters, ids below 32 in their group of 64, no two alike, and the bit map marks exactly
  what the ids occupy: bit 31 with all above it for the last.\<close>

definition wait_inv :: "nic_adapter \<Rightarrow> bool" where
  "wait_inv a \<longleftrightarrow> length (wait_bit_map a) = 4 \<and> distinct (wait_list a) \<and>
     (\<forall>w \<in> set (wait_list a). waits a w \<noteq> None \<and> cid a w < 256 \<and> cid a w mod 64 < 32) \<and>
     inj_on (cid a) (set (wait_list a)) \<and>
     (\<forall>g < 4. \<forall>j < 64. bit (wait_bit_map a ! g) j \<longleftrightarrow>
        (\<exists>w \<in> set (wait_list a). cid a w div 64 = g \<and> min 31 j = cid a w mod 32))"

lemma find_comp_id_spec:
  "find_comp_id m i n = Some r \<Longrightarrow> i \<le> r \<and> r < i + n \<and> comp_bit r AND m ! comp_index r = 0 \<and>
     (\<forall>k. i \<le> k \<and> k < r \<longrightarrow> comp_bit k AND m ! comp_index k \<noteq> 0)"
  by (induction m i n rule: find_comp_id.induct) (auto split: if_splits, metis Suc_leI le_eq_less_or_eq)

lemma find_comp_id_none:
  "find_comp_id m i n = None \<Longrightarrow> i \<le> k \<Longrightarrow> k < i + n \<Longrightarrow> comp_bit k AND m ! comp_index k \<noteq> 0"
proof (induction m i n rule: find_comp_id.induct)
  case (2 m i n)
  then show ?case by (cases "k = i") (auto split: if_splits)
qed simp

lemma comp_bit_alias: "comp_bit (k - 32) = comp_bit k" if "k mod 64 \<ge> 32"
proof -
  have "k \<ge> 32" using that mod_less_eq_dividend [of k 64] by linarith
  then have "(k - 32) mod 32 = k mod 32" by (metis le_add_diff_inverse2 mod_add_self2)
  then show ?thesis by (intro bit_word_eqI) (simp add: bit_comp_bit)
qed

lemma comp_index_alias: "k < 256 \<Longrightarrow> k mod 64 \<ge> 32 \<Longrightarrow> comp_index (k - 32) = comp_index k"
proof -
  assume k: "k < 256" "k mod 64 \<ge> 32"
  have "k - 32 = (k mod 64 - 32) + 64 * (k div 64)"
    using k(2) div_mult_mod_eq [of k 64] by linarith
  then have "(k - 32) div 64 = (k mod 64 - 32) div 64 + k div 64"
    by (metis add.commute div_mult_self2 zero_neq_numeral)
  moreover have "k mod 64 - 32 < 64" by (simp add: less_imp_diff_less)
  ultimately show "comp_index (k - 32) = comp_index k"
    using k(1) by (simp add: comp_index_def)
qed

lemma found_id:
  assumes "find_comp_id m 0 NX_MAX_COMP_ID = Some i"
  shows "i < 256 \<and> i mod 64 < 32 \<and> comp_bit i AND m ! comp_index i = 0"
proof -
  from find_comp_id_spec [OF assms] have s: "i < 256" "comp_bit i AND m ! comp_index i = 0"
    "\<And>k. k < i \<Longrightarrow> comp_bit k AND m ! comp_index k \<noteq> 0"
    by (auto simp: NX_MAX_COMP_ID_def)
  have "i mod 64 < 32"
  proof (rule ccontr)
    assume "\<not> i mod 64 < 32"
    then have ge: "i mod 64 \<ge> 32" by simp
    then have "i \<ge> 32" using mod_less_eq_dividend [of i 64] by linarith
    then have "comp_bit (i - 32) AND m ! comp_index (i - 32) \<noteq> 0" by (intro s(3)) simp
    with s(2) show False using comp_bit_alias [OF ge] comp_index_alias [OF s(1) ge] by simp
  qed
  with s show ?thesis by blast
qed

lemma id_of_group: "i < 256 \<Longrightarrow> i mod 64 < 32 \<Longrightarrow> i = 64 * (i div 64) + i mod 32" for i :: nat
proof -
  assume "i < 256" "i mod 64 < 32"
  then have "i mod 32 = i mod 64" using mod_mod_cancel [of 32 64 i] by simp
  then show ?thesis using div_mult_mod_eq [of i 64] by simp
qed

lemma setup_inv:
  assumes inv: "wait_inv a" and dead: "waits a w = None"
    and s: "nx_os_event_wait_setup req rsp w a = (NX_RCODE_SUCCESS, req', a')"
  shows "wait_inv a' \<and> wait_list a' = w # wait_list a"
proof -
  obtain i where i: "find_comp_id (wait_bit_map a) 0 NX_MAX_COMP_ID = Some i"
    using s by (cases "find_comp_id (wait_bit_map a) 0 NX_MAX_COMP_ID")
      (auto simp: nx_os_event_wait_setup_def rcodes)
  note f = found_id [OF i]
  have a': "a' = a\<lparr>wait_bit_map := (wait_bit_map a)[comp_index i := (wait_bit_map a ! comp_index i) OR comp_bit i],
             waits := (waits a)(w \<mapsto> \<lparr>w_comp_id = of_nat i, w_trigger = False, w_active = True, w_rsp_word = rsp\<rparr>),
             wait_list := w # wait_list a\<rparr>"
    using s i by (simp add: nx_os_event_wait_setup_def)
  have g: "comp_index i = i div 64" "i div 64 < 4" using f by (auto simp: comp_index_def)
  have u: "unat (of_nat i :: u8) = i" using f by (simp add: unat_of_nat)
  have notin: "w \<notin> set (wait_list a)" using inv dead by (auto simp: wait_inv_def)
  have cw: "cid a' w = i" by (simp add: cid_def a' u)
  have co: "cid a' v = cid a v" if "v \<in> set (wait_list a)" for v
    using that notin by (auto simp: cid_def a')
  have ids: "cid a v < 256" "cid a v mod 64 < 32" if "v \<in> set (wait_list a)" for v
    using inv that by (auto simp: wait_inv_def)
  have fresh: "cid a v \<noteq> i" if "v \<in> set (wait_list a)" for v
  proof
    assume e: "cid a v = i"
    have "\<exists>j < 64. min 31 j = i mod 32" by (intro exI [of _ "i mod 32"]) auto
    then obtain j where j: "j < 64" "min 31 j = i mod 32" by blast
    then have "bit (wait_bit_map a ! (i div 64)) j" using inv g(2) that e by (auto simp: wait_inv_def)
    with f j g show False by (simp add: comp_bit_disjoint)
  qed
  have "wait_inv a'"
    unfolding wait_inv_def
  proof (intro conjI)
    show "length (wait_bit_map a') = 4" using inv by (simp add: wait_inv_def a')
    show "distinct (wait_list a')" using inv notin by (simp add: wait_inv_def a')
    show "\<forall>v \<in> set (wait_list a'). waits a' v \<noteq> None \<and> cid a' v < 256 \<and> cid a' v mod 64 < 32"
      using inv f cw co by (auto simp: wait_inv_def a')
    have "inj_on (cid a') (set (wait_list a))"
      using inv co by (auto simp: wait_inv_def inj_on_def)
    moreover have "cid a' v \<noteq> i" if "v \<in> set (wait_list a)" for v
      using co [OF that] fresh [OF that] by simp
    then have "cid a' w \<notin> cid a' ` set (wait_list a)" by (auto simp: cw)
    ultimately show "inj_on (cid a') (set (wait_list a'))" by (auto simp: a')
    show "\<forall>g < 4. \<forall>j < 64. bit (wait_bit_map a' ! g) j \<longleftrightarrow>
        (\<exists>v \<in> set (wait_list a'). cid a' v div 64 = g \<and> min 31 j = cid a' v mod 32)"
    proof (intro allI impI)
      fix h j :: nat
      assume h: "h < 4" and j: "j < 64"
      have "bit (wait_bit_map a' ! h) j \<longleftrightarrow>
          bit (wait_bit_map a ! h) j \<or> (h = i div 64 \<and> min 31 j = i mod 32)"
        using inv h j g by (auto simp: wait_inv_def a' nth_list_update bit_simps bit_comp_bit)
      also have "\<dots> \<longleftrightarrow> (\<exists>v \<in> set (wait_list a). cid a v div 64 = h \<and> min 31 j = cid a v mod 32) \<or>
          (h = i div 64 \<and> min 31 j = i mod 32)"
        using inv h j by (auto simp: wait_inv_def)
      also have "\<dots> \<longleftrightarrow> (\<exists>v \<in> set (wait_list a'). cid a' v div 64 = h \<and> min 31 j = cid a' v mod 32)"
        using co cw by (auto simp: a')
      finally show "bit (wait_bit_map a' ! h) j \<longleftrightarrow>
          (\<exists>v \<in> set (wait_list a'). cid a' v div 64 = h \<and> min 31 j = cid a' v mod 32)" .
    qed
  qed
  then show ?thesis by (simp add: a')
qed

lemma wait_inv_update:
  assumes "wait_inv a" "wait_bit_map b = wait_bit_map a" "wait_list b = wait_list a"
    "\<And>w. w \<in> set (wait_list a) \<Longrightarrow> map_option w_comp_id (waits b w) = map_option w_comp_id (waits a w)"
  shows "wait_inv b"
proof -
  have "cid b w = cid a w \<and> (waits b w = None) = (waits a w = None)" if "w \<in> set (wait_list a)" for w
    using assms(4) [OF that] assms(1) that by (cases "waits a w"; cases "waits b w") (auto simp: cid_def wait_inv_def)
  moreover from this have "inj_on (cid b) (set (wait_list a)) = inj_on (cid a) (set (wait_list a))"
    by (intro inj_on_cong) simp
  ultimately show ?thesis
    using assms(1-3) unfolding wait_inv_def by (simp cong: ball_cong bex_cong)
qed

lemma find_waiter_spec:
  "find_waiter ws c l = Some (Some (w, e)) \<Longrightarrow> w \<in> set l \<and> ws w = Some e \<and> w_comp_id e = c"
  by (induction l) (auto split: option.splits if_splits)

lemma linkevent_waits:
  "waits (nic_handle_linkevent_response rsp a) = waits a"
  "wait_list (nic_handle_linkevent_response rsp a) = wait_list a"
  "wait_bit_map (nic_handle_linkevent_response rsp a) = wait_bit_map a"
  by (simp_all add: nic_handle_linkevent_response_def Let_def)

lemma wakeup_inv:
  assumes "wait_inv a" "nx_os_event_wakeup_on_response rsp a = Some (rc, a')"
  shows "wait_inv a' \<and> wait_list a' = wait_list a"
proof -
  have "wait_bit_map a' = wait_bit_map a \<and> wait_list a' = wait_list a \<and>
      (\<forall>w. map_option w_comp_id (waits a' w) = map_option w_comp_id (waits a w))"
    using assms(2)
    by (auto simp: nx_os_event_wakeup_on_response_def linkevent_waits
        split: if_splits option.splits prod.splits dest!: find_waiter_spec)
  with wait_inv_update [OF assms(1), of a'] show ?thesis by blast
qed

lemma finish_inv:
  assumes inv: "wait_inv a" and w: "w \<in> set (wait_list a)"
    and f: "nx_os_event_wait env w 0 a = Some (rv, b)"
  shows "wait_inv (frame_dies w b) \<and> wait_list (frame_dies w b) = remove1 w (wait_list a)"
proof -
  obtain e where e: "waits a w = Some e" using inv w by (auto simp: wait_inv_def)
  let ?i = "unat (w_comp_id e)" and ?c = "frame_dies w b"
  have i: "cid a w = ?i" "?i < 256" "?i mod 64 < 32" using inv w e by (auto simp: cid_def wait_inv_def)
  have g: "comp_index ?i = ?i div 64" "?i div 64 < 4" using i(2) by (auto simp: comp_index_def)
  have c: "?c = a\<lparr>wait_bit_map := (wait_bit_map a)[comp_index ?i := (wait_bit_map a ! comp_index ?i) AND NOT (comp_bit ?i)],
                  wait_list := remove1 w (wait_list a), waits := (waits a)(w := None)\<rparr>"
    using f e by (auto simp: nx_os_event_wait_def wait_loop.simps [of env w 0 a] frame_dies_def Let_def split: if_splits)
  have set: "set (wait_list ?c) = set (wait_list a) - {w}"
    using inv by (simp add: c wait_inv_def)
  have co: "cid ?c v = cid a v" if "v \<in> set (wait_list ?c)" for v
    using that set by (auto simp: cid_def c)
  have other: "cid a v div 64 \<noteq> ?i div 64 \<or> cid a v mod 32 \<noteq> ?i mod 32" if "v \<in> set (wait_list a) - {w}" for v
  proof -
    have v: "cid a v < 256" "cid a v mod 64 < 32" "cid a v \<noteq> ?i"
      using inv that w i(1) by (auto simp: wait_inv_def inj_on_def)
    with id_of_group [OF v(1,2)] id_of_group [OF i(2,3)] show ?thesis by metis
  qed
  have "wait_inv ?c"
    unfolding wait_inv_def
  proof (intro conjI)
    show "length (wait_bit_map ?c) = 4" using inv by (simp add: wait_inv_def c)
    show "distinct (wait_list ?c)" using inv by (simp add: wait_inv_def c)
    show "\<forall>v \<in> set (wait_list ?c). waits ?c v \<noteq> None \<and> cid ?c v < 256 \<and> cid ?c v mod 64 < 32"
      using inv co set by (auto simp: wait_inv_def c)
    show "inj_on (cid ?c) (set (wait_list ?c))"
      using inv co set by (auto simp: wait_inv_def inj_on_def)
    show "\<forall>g < 4. \<forall>j < 64. bit (wait_bit_map ?c ! g) j \<longleftrightarrow>
        (\<exists>v \<in> set (wait_list ?c). cid ?c v div 64 = g \<and> min 31 j = cid ?c v mod 32)"
    proof (intro allI impI)
      fix h j :: nat
      assume h: "h < 4" and j: "j < 64"
      have "bit (wait_bit_map ?c ! h) j \<longleftrightarrow>
          bit (wait_bit_map a ! h) j \<and> \<not> (h = ?i div 64 \<and> min 31 j = ?i mod 32)"
        using inv h j g by (auto simp: wait_inv_def c nth_list_update bit_simps bit_comp_bit)
      also have "\<dots> \<longleftrightarrow> (\<exists>v \<in> set (wait_list a). cid a v div 64 = h \<and> min 31 j = cid a v mod 32) \<and>
          \<not> (h = ?i div 64 \<and> min 31 j = ?i mod 32)"
        using inv h j by (auto simp: wait_inv_def)
      also have "\<dots> \<longleftrightarrow> (\<exists>v \<in> set (wait_list a) - {w}. cid a v div 64 = h \<and> min 31 j = cid a v mod 32)"
        using other i(1) by (auto, metis)
      also have "\<dots> \<longleftrightarrow> (\<exists>v \<in> set (wait_list ?c). cid ?c v div 64 = h \<and> min 31 j = cid ?c v mod 32)"
        using co set by auto
      finally show "bit (wait_bit_map ?c ! h) j \<longleftrightarrow>
          (\<exists>v \<in> set (wait_list ?c). cid ?c v div 64 = h \<and> min 31 j = cid ?c v mod 32)" .
    qed
  qed
  then show ?thesis by (simp add: c)
qed

subsection \<open>The waiters as a state machine\<close>

text \<open>The steps of requests that are sent and of replies: a waiter is set up, a response comes in, a
  waiter finishes, with its reply or by timeout, and returns.\<close>

inductive wait_step :: "nic_adapter \<Rightarrow> nic_adapter \<Rightarrow> bool" where
  wait_starts: "waits a w = None \<Longrightarrow> nx_os_event_wait_setup req rsp w a = (NX_RCODE_SUCCESS, req', a') \<Longrightarrow> wait_step a a'"
| wait_answered: "nx_os_event_wakeup_on_response r a = Some (rc, a') \<Longrightarrow> wait_step a a'"
| wait_ends: "w \<in> set (wait_list a) \<Longrightarrow> nx_os_event_wait env w 0 a = Some (rv, b) \<Longrightarrow> wait_step a (frame_dies w b)"

lemma wait_step_inv: "wait_step a b \<Longrightarrow> wait_inv a \<Longrightarrow> wait_inv b"
proof (induction rule: wait_step.induct)
  case (wait_starts a w req rsp req' a')
  then show ?case using setup_inv by blast
next
  case (wait_answered r a rc a')
  then show ?case using wakeup_inv by blast
next
  case (wait_ends w a env rv b)
  then show ?case using finish_inv by blast
qed

lemma wait_steps_inv: "wait_step\<^sup>*\<^sup>* a b \<Longrightarrow> wait_inv a \<Longrightarrow> wait_inv b"
proof (induction rule: rtranclp_induct)
  case base
  then show ?case .
next
  case (step y z)
  show ?case by (rule wait_step_inv [OF step.hyps(2) step.IH [OF step.prems]])
qed

lemma wait_inv_fresh: "wait_bit_map a = [0, 0, 0, 0] \<Longrightarrow> wait_list a = [] \<Longrightarrow> wait_inv a"
proof -
  assume m: "wait_bit_map a = [0, 0, 0, 0]" and l: "wait_list a = []"
  have "[0, 0, 0, 0 :: u64] ! g = 0" if "g < 4" for g
    using that by (simp add: nth_Cons')
  with m l show "wait_inv a" by (simp add: wait_inv_def)
qed

lemma wait_inv_finds:
  assumes "wait_inv a" "w \<in> set (wait_list a)"
  shows "\<exists>e. waits a w = Some e \<and> find_waiter (waits a) (w_comp_id e) (wait_list a) = Some (Some (w, e))"
proof -
  have live: "\<forall>v \<in> set (wait_list a). waits a v \<noteq> None" and inj: "inj_on (cid a) (set (wait_list a))"
    using assms(1) by (auto simp: wait_inv_def)
  obtain e where e: "waits a w = Some e" using live assms(2) by blast
  have "find_waiter (waits a) (w_comp_id e) l = Some (Some (w, e))" if "set l \<subseteq> set (wait_list a)" "w \<in> set l" for l
    using that
  proof (induction l)
    case Nil
    then show ?case by simp
  next
    case (Cons v l)
    show ?case
    proof (cases "v = w")
      case True
      then show ?thesis using e by simp
    next
      case False
      obtain f where f: "waits a v = Some f" using live Cons.prems(1) by auto
      have "cid a v \<noteq> cid a w" using inj False Cons.prems assms(2) by (auto simp: inj_on_def)
      then have "w_comp_id f \<noteq> w_comp_id e" using e f by (auto simp: cid_def)
      with Cons False f show ?thesis by simp
    qed
  qed
  with e assms(2) show ?thesis by blast
qed

lemma full_when_none:
  assumes inv: "wait_inv a" and none: "find_comp_id (wait_bit_map a) 0 NX_MAX_COMP_ID = None"
  shows "length (wait_list a) = 128"
proof -
  let ?S = "{i. i < 256 \<and> i mod 64 < (32::nat)}"
  have "cid a ` set (wait_list a) = ?S"
  proof
    show "cid a ` set (wait_list a) \<subseteq> ?S" using inv by (auto simp: wait_inv_def)
    show "?S \<subseteq> cid a ` set (wait_list a)"
    proof
      fix i
      assume "i \<in> ?S"
      then have i: "i < 256" "i mod 64 < 32" by auto
      have "comp_bit i AND wait_bit_map a ! comp_index i \<noteq> 0"
        using find_comp_id_none [OF none, of i] i by (simp add: NX_MAX_COMP_ID_def)
      then obtain j where j: "j < 64" "min 31 j = i mod 32" "bit (wait_bit_map a ! (i div 64)) j"
        using i(1) by (auto simp: comp_bit_disjoint comp_index_def)
      then obtain w where w: "w \<in> set (wait_list a)" "cid a w div 64 = i div 64" "min 31 j = cid a w mod 32"
        using inv i(1) by (auto simp: wait_inv_def)
      have "cid a w = i"
        using inv w j id_of_group [of "cid a w"] id_of_group [OF i] by (auto simp: wait_inv_def)
      with w show "i \<in> cid a ` set (wait_list a)" by blast
    qed
  qed
  moreover have "inj_on (cid a) (set (wait_list a))" "distinct (wait_list a)"
    using inv by (auto simp: wait_inv_def)
  ultimately have "length (wait_list a) = card ?S"
    by (metis card_image distinct_card)
  also have "?S = (\<lambda>(g, k). 64 * g + k) ` ({..<4} \<times> {..<32})"
  proof
    show "?S \<subseteq> (\<lambda>(g, k). 64 * g + k) ` ({..<4} \<times> {..<32})"
    proof
      fix i
      assume "i \<in> ?S"
      then have "i = (\<lambda>(g, k). 64 * g + k) (i div 64, i mod 64)" "(i div 64, i mod 64) \<in> {..<4} \<times> {..<32}"
        by auto
      then show "i \<in> (\<lambda>(g, k). 64 * g + k) ` ({..<4} \<times> {..<32})" by blast
    qed
  qed auto
  also have "card \<dots> = card ({..<4::nat} \<times> {..<32::nat})"
  proof (rule card_image, rule inj_onI)
    fix x y :: "nat \<times> nat"
    assume "x \<in> {..<4} \<times> {..<32}" "y \<in> {..<4} \<times> {..<32}"
      and e: "(\<lambda>(g, k). 64 * g + k) x = (\<lambda>(g, k). 64 * g + k) y"
    then have "snd x < 64" "snd y < 64" by auto
    moreover have "64 * fst x + snd x = 64 * fst y + snd y" using e by (simp add: case_prod_beta)
    then have "(64 * fst x + snd x) div 64 = (64 * fst y + snd y) div 64"
      "(64 * fst x + snd x) mod 64 = (64 * fst y + snd y) mod 64" by simp_all
    ultimately show "x = y" by (simp add: prod_eq_iff)
  qed
  finally show ?thesis by simp
qed

text \<open>
  C16 In every state reachable from an empty table by requests and responses, waiters have different
  completion ids, a response is given to the waiter whose id it carries and to no other, and a
  new waiter is refused only when there are 128: the 32-bit shift loses half of the 256 ids but
  never gives one to two waiters.
\<close>

theorem completion_ids_unique:
  assumes "wait_step\<^sup>*\<^sup>* a0 a" "wait_bit_map a0 = [0, 0, 0, 0]" "wait_list a0 = []"
  shows "distinct (map (cid a) (wait_list a)) \<and>
    list_all (\<lambda>w. find_waiter (waits a) (w_comp_id (the (waits a w))) (wait_list a) = Some (Some (w, the (waits a w))))
      (wait_list a) \<and>
    (fst (nx_os_event_wait_setup req rsp w a) = NX_RCODE_SUCCESS \<or> length (wait_list a) = 128)"
proof (intro conjI)
  have inv: "wait_inv a" by (rule wait_steps_inv [OF assms(1) wait_inv_fresh [OF assms(2,3)]])
  then show "distinct (map (cid a) (wait_list a))" by (simp add: wait_inv_def distinct_map)
  show "list_all (\<lambda>w. find_waiter (waits a) (w_comp_id (the (waits a w))) (wait_list a) =
      Some (Some (w, the (waits a w)))) (wait_list a)"
    using wait_inv_finds [OF inv] by (fastforce simp: list_all_iff)
  show "fst (nx_os_event_wait_setup req rsp w a) = NX_RCODE_SUCCESS \<or> length (wait_list a) = 128"
    using full_when_none [OF inv]
    by (cases "find_comp_id (wait_bit_map a) 0 NX_MAX_COMP_ID") (auto simp: nx_os_event_wait_setup_def Let_def)
qed

subsection \<open>Waiting for the reply\<close>

text \<open>Response to request: the environment does nothing for \<open>k\<close> turns and then delivers the response.\<close>

definition reply_env :: "int \<Rightarrow> nic_response \<Rightarrow> int \<Rightarrow> nic_adapter \<Rightarrow> nic_adapter" where
  "reply_env at r limit a = (if limit = at then (case nx_os_event_wakeup_on_response r a of None \<Rightarrow> a | Some (_, b) \<Rightarrow> b) else a)"

lemma wait_loop_reply:
  assumes "waits a w = Some e" "\<not> w_trigger e" "w_active e"
    "find_waiter (waits a) (rsp_compid r) (wait_list a) = Some (Some (w, e))"
    "rsp_opcode r \<notin> {NX_NIC_C2H_OPCODE_LRO_DELETE_RESPONSE, NX_NIC_C2H_OPCODE_LRO_ADD_FAILURE_RESPONSE,
       NX_NIC_C2H_OPCODE_GET_LINKEVENT_RESPONSE}"
    "0 < at"
  shows "wait_loop (reply_env at r) w (at + 100000 * int k) a = Some (NX_RCODE_SUCCESS,
     a\<lparr>words := (case w_rsp_word e of None \<Rightarrow> words a | Some p \<Rightarrow> (words a)(p := rsp_word r)),
       waits := (waits a)(w \<mapsto> e\<lparr>w_trigger := True, w_active := False\<rparr>)\<rparr>)"
proof (induction k)
  case 0
  then show ?case
    using assms
    by (subst wait_loop.simps, subst wait_loop.simps)
      (simp add: reply_env_def nx_os_event_wakeup_on_response_def)
next
  case (Suc k)
  have "wait_loop (reply_env at r) w (at + 100000 * int (Suc k)) a =
      wait_loop (reply_env at r) w (at + 100000 * int k) a"
    using assms by (subst wait_loop.simps) (simp add: reply_env_def algebra_simps)
  with Suc.IH show ?case by simp
qed

definition plain_response :: "nic_response \<Rightarrow> bool" where
  "plain_response r \<longleftrightarrow> rsp_opcode r \<notin> {NX_NIC_C2H_OPCODE_LRO_DELETE_RESPONSE,
     NX_NIC_C2H_OPCODE_LRO_ADD_FAILURE_RESPONSE, NX_NIC_C2H_OPCODE_GET_LINKEVENT_RESPONSE}"

lemma comp_id_restored:
  assumes "comp_bit i AND m ! comp_index i = 0" "comp_index i < length m"
  shows "m[comp_index i := (m ! comp_index i OR comp_bit i) AND NOT (comp_bit i)] = m"
proof -
  have "(m ! comp_index i OR comp_bit i) AND NOT (comp_bit i) = m ! comp_index i"
    using assms(1) by (auto simp: bit_eq_iff bit_simps dest: bit_imp_le_length)
  then show ?thesis by simp
qed

lemma setup_eq:
  "find_comp_id (wait_bit_map a) 0 NX_MAX_COMP_ID = Some i \<Longrightarrow>
   nx_os_event_wait_setup req rsp w a = (NX_RCODE_SUCCESS, hdr_comp_id (of_nat i) req,
     a\<lparr>wait_bit_map := (wait_bit_map a)[comp_index i := (wait_bit_map a ! comp_index i) OR comp_bit i],
       waits := (waits a)(w \<mapsto> \<lparr>w_comp_id = of_nat i, w_trigger = False, w_active = True, w_rsp_word = rsp\<rparr>),
       wait_list := w # wait_list a\<rparr>)"
  by (simp add: nx_os_event_wait_setup_def)

text \<open>
  C17 A request that waits gets its reply: the request carries the id of its waiter, and when a response
  with that id comes in within the time limit the call returns success with the response word
  stored and the waiter table as it was before.
\<close>

theorem sync_request_completes:
  assumes "wait_inv a" "waits a w = None"
    "find_comp_id (wait_bit_map a) 0 NX_MAX_COMP_ID = Some i"
    "copy_body body (send_request_desc stack ctx opcode 1) = Some req"
    "nx_nic_send_cmd_descs mem (ad_tx a) [hdr_comp_id (of_nat i) req] = (0, t)"
    "rsp_compid r = of_nat i" "plain_response r" "k < 40"
  shows "nx_os_send_nic_request mem (reply_env (4000000 - 100000 * int k) r) stack w dummy ctx opcode body 1 (Some p) a =
    Some (NX_RCODE_SUCCESS, a\<lparr>ad_tx := t, words := (words a)(p := rsp_word r)\<rparr>)"
proof -
  let ?at = "4000000 - 100000 * int k"
  let ?e = "\<lparr>w_comp_id = of_nat i, w_trigger = False, w_active = True, w_rsp_word = Some p\<rparr>"
  let ?m = "(wait_bit_map a)[comp_index i := (wait_bit_map a ! comp_index i) OR comp_bit i]"
  let ?c = "a\<lparr>wait_bit_map := ?m, waits := (waits a)(w \<mapsto> ?e), wait_list := w # wait_list a, ad_tx := t\<rparr>"
  note f = found_id [OF assms(3)]
  have len: "length (wait_bit_map a) = 4" using assms(1) by (simp add: wait_inv_def)
  have g: "comp_index i < 4" using f by (auto simp: comp_index_def)
  have u: "unat (of_nat i :: u8) = i" using f by (simp add: unat_of_nat)
  have loop: "wait_loop (reply_env ?at r) w (?at + 100000 * int k) ?c = Some (NX_RCODE_SUCCESS,
     ?c\<lparr>words := (case w_rsp_word ?e of None \<Rightarrow> words ?c | Some p \<Rightarrow> (words ?c)(p := rsp_word r)),
       waits := (waits ?c)(w \<mapsto> ?e\<lparr>w_trigger := True, w_active := False\<rparr>)\<rparr>)"
    by (rule wait_loop_reply) (use assms in \<open>simp_all add: plain_response_def\<close>)
  have restored: "(wait_bit_map a)[comp_index i := (wait_bit_map a ! comp_index i OR comp_bit i) AND NOT (comp_bit i)] = wait_bit_map a"
    by (rule comp_id_restored) (use f g len in auto)
  have "nx_os_event_wait (reply_env ?at r) w 4000000 ?c = Some (NX_RCODE_SUCCESS,
      a\<lparr>ad_tx := t, words := (words a)(p := rsp_word r),
        waits := (waits a)(w \<mapsto> ?e\<lparr>w_trigger := True, w_active := False\<rparr>)\<rparr>)"
    using loop g len by (simp add: nx_os_event_wait_def u restored)
  moreover have "(waits a)(w := None) = waits a" using assms(2) by auto
  ultimately show ?thesis
    using assms(4,5) by (simp add: nx_os_send_nic_request_def setup_eq [OF assms(3)] nx_os_send_cmd_descs_def frame_dies_def)
qed

text \<open>
  C38 A waiting request that cannot be queued fails, but leaves its waiter on the list: the id stays
  taken for good, and the next ordinary response that comes in follows the pointer to the waiter, a
  local variable of a function that has returned.
\<close>

theorem failed_request_dangles:
  assumes "find_comp_id (wait_bit_map a) 0 NX_MAX_COMP_ID = Some i"
    "copy_body body (send_request_desc stack ctx opcode 1) = Some req"
    "nx_nic_send_cmd_descs mem (ad_tx a) [hdr_comp_id (of_nat i) req] = (rv, t)" "rv \<noteq> 0" "plain_response r"
  shows "\<exists>b. nx_os_send_nic_request mem env stack w dummy ctx opcode body 1 rspword a = Some (NX_RCODE_CMD_FAILED, b) \<and>
    wait_list b = w # wait_list a \<and> waits b w = None \<and> nx_os_event_wakeup_on_response r b = None"
  using assms
  by (simp add: nx_os_send_nic_request_def setup_eq nx_os_send_cmd_descs_def frame_dies_def
      nx_os_event_wakeup_on_response_def plain_response_def)

text \<open>An adapter with an empty ring and no waiters.\<close>

definition sample_nic_adapter :: "tx_adapter \<Rightarrow> nic_adapter" where
  "sample_nic_adapter t = \<lparr>ad_tx = t, nx_dev = sample_nic, portnum = 0, fw_v34 = False,
     wait_bit_map = [0, 0, 0, 0], wait_list = [], waits = \<lambda>_. None, words = \<lambda>_. 0, lro_rsps = [],
     fw_capabilities_1 = 0, link_speed = 0, duplex_full = False, link_autoneg = 0, link_module_type = 0,
     linkup = 0, carrier_ok = False\<rparr>"

lemma sample_first_id: "find_comp_id (wait_bit_map (sample_nic_adapter t)) 0 NX_MAX_COMP_ID = Some 0"
proof -
  have "NX_MAX_COMP_ID = Suc 255" by (simp add: NX_MAX_COMP_ID_def)
  show ?thesis unfolding \<open>NX_MAX_COMP_ID = _\<close> find_comp_id.simps by (simp add: sample_nic_adapter_def comp_index_def)
qed

definition sample_response :: "u64 \<Rightarrow> nic_response" where
  "sample_response v = \<lparr>rsp_opcode = 136, rsp_compid = 0, rsp_word = v, rsp_link =
     \<lparr>le_link_speed = 0, le_link_status = 0, le_module = 0, le_full_duplex = 0, le_link_autoneg = 0\<rparr>\<rparr>"

lemma sample_plain: "plain_response (sample_response v)"
  by (simp add: plain_response_def sample_response_def NX_NIC_C2H_OPCODE_LRO_DELETE_RESPONSE_def
      NX_NIC_C2H_OPCODE_LRO_ADD_FAILURE_RESPONSE_def NX_NIC_C2H_OPCODE_GET_LINKEVENT_RESPONSE_def)

lemma sync_request_completes_witness:
  "\<exists>b. nx_os_send_nic_request None (reply_env (4000000 - 100000 * int 3) (sample_response 99)) zero_desc 5 6 0 8
      [1, 2] 1 (Some 7) (sample_nic_adapter sample_adapter) = Some (NX_RCODE_SUCCESS, b) \<and> words b 7 = 99 \<and> wait_list b = []"
proof -
  let ?a = "sample_nic_adapter sample_adapter"
  have inv: "wait_inv ?a" by (rule wait_inv_fresh) (simp_all add: sample_nic_adapter_def)
  obtain req where req: "copy_body [1, 2] (send_request_desc zero_desc 0 8 1) = Some req" by simp
  obtain t where t: "nx_nic_send_cmd_descs None (ad_tx ?a) [hdr_comp_id (of_nat 0) req] = (0, t)"
    by (simp add: sample_nic_adapter_def nx_nic_send_cmd_descs_def unm_get_pending_cmd_desc_cnt_def ring_full_def
        sample_adapter_def MAX_PENDING_DESC_BLOCK_SIZE_def)
  have s: "waits ?a 5 = None" "rsp_compid (sample_response 99) = of_nat 0" "3 < (40 :: nat)"
    "wait_list ?a = []" "rsp_word (sample_response 99) = 99"
    by (simp_all add: sample_nic_adapter_def sample_response_def)
  show ?thesis
    unfolding sync_request_completes [OF inv s(1) sample_first_id req t s(2) sample_plain s(3)]
    using s by simp
qed

text \<open>A ring without software buffers, as before the device is opened, refuses every request.\<close>

lemma failed_request_dangles_witness:
  "\<exists>b. nx_os_send_nic_request None no_env zero_desc 5 6 0 8 [1, 2] 1 (Some 7)
      (sample_nic_adapter (sample_adapter\<lparr>cmd_buf_arr := None\<rparr>)) = Some (NX_RCODE_CMD_FAILED, b) \<and>
    nx_os_event_wakeup_on_response (sample_response 99) b = None"
proof -
  let ?a = "sample_nic_adapter (sample_adapter\<lparr>cmd_buf_arr := None\<rparr>)"
  obtain req where req: "copy_body [1, 2] (send_request_desc zero_desc 0 8 1) = Some req" by simp
  obtain t where t: "nx_nic_send_cmd_descs None (ad_tx ?a) [hdr_comp_id (of_nat 0) req] = (- 1, t)"
    by (simp add: sample_nic_adapter_def nx_nic_send_cmd_descs_def)
  have "(- 1 :: int) \<noteq> 0" by simp
  from failed_request_dangles [OF sample_first_id req t this sample_plain] show ?thesis by blast
qed

lemma completion_ids_unique_witness:
  "\<exists>a. wait_step\<^sup>*\<^sup>* (sample_nic_adapter sample_adapter) a \<and> length (wait_list a) = 1 \<and> distinct (map (cid a) (wait_list a))"
proof -
  let ?a0 = "sample_nic_adapter sample_adapter"
  obtain a where a: "nx_os_event_wait_setup zero_desc None 5 ?a0 = (NX_RCODE_SUCCESS, hdr_comp_id (of_nat 0) zero_desc, a)"
    "wait_list a = [5]"
    using setup_eq [OF sample_first_id, of zero_desc None 5 sample_adapter] by (simp add: sample_nic_adapter_def)
  have "waits ?a0 5 = None" by (simp add: sample_nic_adapter_def)
  from wait_starts [OF this a(1)] have st: "wait_step\<^sup>*\<^sup>* ?a0 a" by blast
  have "wait_bit_map ?a0 = [0, 0, 0, 0]" "wait_list ?a0 = []" by (simp_all add: sample_nic_adapter_def)
  from completion_ids_unique [OF st this, of zero_desc None 0] st a(2) show ?thesis by force
qed

end
