(* ===== verification/NicReq.thy ===== *)
theory NicReq
  imports EventWait
begin

text \<open>
  The configuration requests the driver sends to the firmware over the transmit ring: receive
  hashing, packets for unknown addresses, IP addresses, bridging, link events, network statistics
  (\<open>driver/unm_nic_main.c\<close>), interrupt coalescing (\<open>driver/unm_nic_ethtool.c\<close>), loopback, LED and
  licence (\<open>driver/unm_nic_tool.c\<close>), SNMP statistics (\<open>driver/unm_nic_snmp.c\<close>). Each function has its
  request as a pure function of the uninitialised stack memory the descriptor starts from, and the
  firmware's reading of requests, \<open>decode_request\<close>, is written from the layouts of \<open>include/nic_cmn.h\<close>.
\<close>

subsection \<open>Opcodes\<close>

definition NX_NIC_H2C_OPCODE_CONFIG_RSS :: u64 where "NX_NIC_H2C_OPCODE_CONFIG_RSS = 1"
definition NX_NIC_H2C_OPCODE_CONFIG_INTR_COALESCE :: u64 where "NX_NIC_H2C_OPCODE_CONFIG_INTR_COALESCE = 3"
definition NX_NIC_H2C_OPCODE_CONFIG_LED :: u64 where "NX_NIC_H2C_OPCODE_CONFIG_LED = 4"
definition NX_NIC_H2C_OPCODE_GET_SNMP_STATS :: u64 where "NX_NIC_H2C_OPCODE_GET_SNMP_STATS = 8"
definition NX_NIC_H2C_OPCODE_PROXY_SET_VPORT_MISS_MODE :: u64 where "NX_NIC_H2C_OPCODE_PROXY_SET_VPORT_MISS_MODE = 12"
definition NX_NIC_H2C_OPCODE_GET_FINGER_PRINT_REQUEST :: u64 where "NX_NIC_H2C_OPCODE_GET_FINGER_PRINT_REQUEST = 13"
definition NX_NIC_H2C_OPCODE_INSTALL_LICENSE_REQUEST :: u64 where "NX_NIC_H2C_OPCODE_INSTALL_LICENSE_REQUEST = 14"
definition NX_NIC_H2C_OPCODE_GET_LICENSE_CAPABILITY_REQUEST :: u64 where "NX_NIC_H2C_OPCODE_GET_LICENSE_CAPABILITY_REQUEST = 15"
definition NX_NIC_H2C_OPCODE_GET_NET_STATS_REQUEST :: u64 where "NX_NIC_H2C_OPCODE_GET_NET_STATS_REQUEST = 16"
definition NX_NIC_H2C_OPCODE_CONFIG_IPADDR :: u64 where "NX_NIC_H2C_OPCODE_CONFIG_IPADDR = 18"
definition NX_NIC_H2C_OPCODE_CONFIG_LOOPBACK :: u64 where "NX_NIC_H2C_OPCODE_CONFIG_LOOPBACK = 19"
definition NX_NIC_H2C_OPCODE_GET_LINKEVENT :: u64 where "NX_NIC_H2C_OPCODE_GET_LINKEVENT = 21"
definition NX_NIC_H2C_OPCODE_CONFIG_BRIDGING :: u64 where "NX_NIC_H2C_OPCODE_CONFIG_BRIDGING = 23"
definition UNM_MSGTYPE_NIC_REQUEST :: u64 where "UNM_MSGTYPE_NIC_REQUEST = 0x1f"
definition RSS_HASHTYPE_IP_TCP :: u64 where "RSS_HASHTYPE_IP_TCP = 3"
definition NX_STATS_DMA_ONE_TIME :: u64 where "NX_STATS_DMA_ONE_TIME = 0"
definition NX_STATS_DMA_START_PERIODIC :: u64 where "NX_STATS_DMA_START_PERIODIC = 1"
definition NX_STATS_DMA_STOP_PERIODIC :: u64 where "NX_STATS_DMA_STOP_PERIODIC = 2"

lemmas opcode_defs =
  NX_NIC_H2C_OPCODE_CONFIG_RSS_def NX_NIC_H2C_OPCODE_CONFIG_INTR_COALESCE_def NX_NIC_H2C_OPCODE_CONFIG_LED_def
  NX_NIC_H2C_OPCODE_GET_SNMP_STATS_def NX_NIC_H2C_OPCODE_PROXY_SET_VPORT_MISS_MODE_def
  NX_NIC_H2C_OPCODE_GET_FINGER_PRINT_REQUEST_def NX_NIC_H2C_OPCODE_INSTALL_LICENSE_REQUEST_def
  NX_NIC_H2C_OPCODE_GET_LICENSE_CAPABILITY_REQUEST_def NX_NIC_H2C_OPCODE_GET_NET_STATS_REQUEST_def
  NX_NIC_H2C_OPCODE_CONFIG_IPADDR_def NX_NIC_H2C_OPCODE_CONFIG_LOOPBACK_def NX_NIC_H2C_OPCODE_GET_LINKEVENT_def
  NX_NIC_H2C_OPCODE_CONFIG_BRIDGING_def

text \<open>The header that most requests start with: what is not assigned stays as the stack had it.\<close>

definition host_request :: "u64 \<Rightarrow> u16 \<Rightarrow> cmd_desc \<Rightarrow> cmd_desc" where
  "host_request op port r = hdr_ctxid (ucast port) (hdr_opcode op (set_opcode NX_NIC_HOST_REQUEST r))"

definition send_one :: "pend_block option \<Rightarrow> cmd_desc \<Rightarrow> nic_adapter \<Rightarrow> int \<times> nic_adapter" where
  "send_one mem req a = nx_os_send_cmd_descs mem [req] a"

subsection \<open>Requests of the main driver\<close>

definition rss_key :: "u64 list" where
  "rss_key = [0xbeac01fa6a42b73b, 0x8030f20c77cb2da3, 0xae7b30b4d0ca2bcb, 0x43a38fb04167253d, 0x255b0ec26d5a56da]"

definition rss_request :: "cmd_desc \<Rightarrow> u16 \<Rightarrow> int \<Rightarrow> cmd_desc" where
  "rss_request stack port enable =
     (let r = hdr_need_completion 0 (hdr_comp_id 1 (host_request NX_NIC_H2C_OPCODE_CONFIG_RSS port stack)) in
      r\<lparr>word2 := put_bits 48 16 7 (put_bits 9 1 0 (put_bits 8 1 (if enable \<noteq> 0 then 1 else 0)
                   (put_bits 6 2 RSS_HASHTYPE_IP_TCP (put_bits 4 2 RSS_HASHTYPE_IP_TCP (word2 r))))),
        word3 := rss_key ! 0, word4 := rss_key ! 1, word5 := rss_key ! 2, word6 := rss_key ! 3,
        word7 := rss_key ! 4\<rparr>)"

definition nx_config_rss :: "pend_block option \<Rightarrow> cmd_desc \<Rightarrow> int \<Rightarrow> nic_adapter \<Rightarrow> int \<times> nic_adapter" where
  "nx_config_rss mem stack enable a = send_one mem (rss_request stack (portnum a) enable) a"

definition vport_miss_request :: "cmd_desc \<Rightarrow> u16 \<Rightarrow> int \<Rightarrow> cmd_desc" where
  "vport_miss_request stack port mode =
     (let r = hdr_comp_id 0 (host_request NX_NIC_H2C_OPCODE_PROXY_SET_VPORT_MISS_MODE port stack) in
      r\<lparr>word2 := put_bits 0 32 (of_int mode) (word2 r)\<rparr>)"

definition nx_p3_set_vport_miss_mode :: "pend_block option \<Rightarrow> cmd_desc \<Rightarrow> int \<Rightarrow> nic_adapter \<Rightarrow> int \<times> nic_adapter" where
  "nx_p3_set_vport_miss_mode mem stack mode a = send_one mem (vport_miss_request stack (portnum a) mode) a"

definition ipaddr_request :: "cmd_desc \<Rightarrow> u16 \<Rightarrow> u32 \<Rightarrow> int \<Rightarrow> cmd_desc" where
  "ipaddr_request stack port ip cmd =
     (let r = hdr_comp_id 0 (host_request NX_NIC_H2C_OPCODE_CONFIG_IPADDR port stack) in
      r\<lparr>word2 := of_int cmd, word3 := put_bits 0 32 (ucast ip) (word3 r)\<rparr>)"

definition nx_config_ipaddr :: "pend_block option \<Rightarrow> cmd_desc \<Rightarrow> u32 \<Rightarrow> int \<Rightarrow> nic_adapter \<Rightarrow> int \<times> nic_adapter" where
  "nx_config_ipaddr mem stack ip cmd a = send_one mem (ipaddr_request stack (portnum a) ip cmd) a"

definition bridging_request :: "cmd_desc \<Rightarrow> u16 \<Rightarrow> int \<Rightarrow> cmd_desc" where
  "bridging_request stack port enable =
     (let r = hdr_comp_id 0 (host_request NX_NIC_H2C_OPCODE_CONFIG_BRIDGING port stack) in
      r\<lparr>word2 := put_bits 0 8 (of_int enable) (word2 r)\<rparr>)"

definition nic_config_bdg :: "pend_block option \<Rightarrow> cmd_desc \<Rightarrow> int \<Rightarrow> nic_adapter \<Rightarrow> int \<times> nic_adapter" where
  "nic_config_bdg mem stack enable a = send_one mem (bridging_request stack (portnum a) enable) a"

definition linkevent_req :: "cmd_desc \<Rightarrow> u16 \<Rightarrow> int \<Rightarrow> int \<Rightarrow> cmd_desc" where
  "linkevent_req stack port async_enable linkevent_request =
     (let r = hdr_comp_id 0 (host_request NX_NIC_H2C_OPCODE_GET_LINKEVENT port stack) in
      r\<lparr>word2 := put_bits 8 8 (of_int linkevent_request) (put_bits 0 8 (of_int async_enable) (word2 r))\<rparr>)"

definition nic_linkevent_request ::
    "pend_block option \<Rightarrow> cmd_desc \<Rightarrow> int \<Rightarrow> int \<Rightarrow> nic_adapter \<Rightarrow> int \<times> nic_adapter" where
  "nic_linkevent_request mem stack async_enable linkevent_request a =
     send_one mem (linkevent_req stack (portnum a) async_enable linkevent_request) a"

text \<open>Statistics; the context is \<open>rx_ctxs[0]\<close>, whose absence is a crash.\<close>

definition net_stats_request :: "u32 \<Rightarrow> u64 \<Rightarrow> u32 \<Rightarrow> int \<Rightarrow> int \<Rightarrow> int \<Rightarrow> cmd_desc" where
  "net_stats_request ctx daddr64 dsize interval reset stop_dma =
     (let r = hdr_ctxid (ucast ctx) (hdr_opcode NX_NIC_H2C_OPCODE_GET_NET_STATS_REQUEST
                (set_opcode NX_NIC_HOST_REQUEST zero_desc)) in
      if reset \<noteq> 0 then r\<lparr>word3 := put_bits 40 8 1 (word3 r)\<rparr>
      else
        let r = r\<lparr>word3 := put_bits 40 8 0 (word3 r)\<rparr> in
        if stop_dma \<noteq> 0 then r\<lparr>word3 := put_bits 32 8 NX_STATS_DMA_STOP_PERIODIC (word3 r)\<rparr>
        else
          let r = r\<lparr>word2 := daddr64, word3 := put_bits 16 16 (ucast dsize) (word3 r)\<rparr> in
          if interval \<noteq> 0 then
            (let r = hdr_comp_id 0 (r\<lparr>word3 := put_bits 32 8 NX_STATS_DMA_START_PERIODIC (word3 r)\<rparr>) in
             r\<lparr>word3 := put_bits 0 16 (of_int interval) (word3 r)\<rparr>)
          else hdr_comp_id 1 (r\<lparr>word3 := put_bits 32 8 NX_STATS_DMA_ONE_TIME (word3 r)\<rparr>))"

definition nx_host_get_net_stats ::
    "pend_block option \<Rightarrow> u64 \<Rightarrow> u32 \<Rightarrow> int \<Rightarrow> int \<Rightarrow> int \<Rightarrow> nic_adapter \<Rightarrow> (int \<times> nic_adapter) option" where
  "nx_host_get_net_stats mem daddr64 dsize interval reset stop_dma a =
     (if fw_v34 a then Some (0, a)
      else (case rx_ctxs (nx_dev a) ! 0 of
          None \<Rightarrow> None
        | Some c \<Rightarrow>
            (case rx_heap (nx_dev a) c of
               None \<Rightarrow> None
             | Some x \<Rightarrow> Some (send_one mem
                 (net_stats_request (rx_context_id x) daddr64 dsize interval reset stop_dma) a))))"

subsection \<open>Interrupt coalescing\<close>

record coal_times =
  rx_packets :: u16
  rx_time_us :: u16
  tx_packets :: u16
  tx_time_us :: u16

text \<open>\<open>nx_nic_intr_coalesce_t\<close> without its header; \<open>periodic\<close> is the word of \<open>periodic_intr\<close>.\<close>

record intr_coalesce =
  stats_time_us :: u16
  rate_sample_time :: u16
  coal_flags :: u16
  coal_rsvd_1 :: u16
  low_threshold :: u32
  high_threshold :: u32
  normal :: coal_times
  low_times :: coal_times
  high_times :: coal_times
  periodic :: u64

definition coal_times_word :: "coal_times \<Rightarrow> u64" where
  "coal_times_word t = put_bits 48 16 (ucast (tx_time_us t)) (put_bits 32 16 (ucast (tx_packets t))
     (put_bits 16 16 (ucast (rx_time_us t)) (put_bits 0 16 (ucast (rx_packets t)) 0)))"

text \<open>\<open>chdr\<close> is the header in \<open>adapter->coal\<close>, which the copy brings along.\<close>

definition coalesce_request :: "cmd_desc \<Rightarrow> u16 \<Rightarrow> u64 \<Rightarrow> intr_coalesce \<Rightarrow> cmd_desc" where
  "coalesce_request stack port chdr c =
     (let r = stack\<lparr>word1 := chdr,
            word2 := put_bits 48 16 (ucast (coal_rsvd_1 c)) (put_bits 32 16 (ucast (coal_flags c))
                       (put_bits 16 16 (ucast (rate_sample_time c)) (put_bits 0 16 (ucast (stats_time_us c)) 0))),
            word3 := put_bits 32 32 (ucast (high_threshold c)) (put_bits 0 32 (ucast (low_threshold c)) 0),
            word4 := coal_times_word (normal c), word5 := coal_times_word (low_times c),
            word6 := coal_times_word (high_times c), word7 := periodic c\<rparr>
      in hdr_need_completion 0 (hdr_comp_id 0 (host_request NX_NIC_H2C_OPCODE_CONFIG_INTR_COALESCE port r)))"

record coal_adapter =
  nic :: nic_adapter
  port_up :: bool
  coal_hdr :: u64
  coal :: intr_coalesce

definition nx_nic_config_intr_coalesce :: "pend_block option \<Rightarrow> cmd_desc \<Rightarrow> coal_adapter \<Rightarrow> int \<times> coal_adapter" where
  "nx_nic_config_intr_coalesce mem stack a =
     (case send_one mem (coalesce_request stack (portnum (nic a)) (coal_hdr a) (coal a)) (nic a) of
        (rv, b) \<Rightarrow> (rv, a\<lparr>nic := b\<rparr>))"

text \<open>The fields of \<open>struct ethtool_coalesce\<close>; \<open>others\<close> lists those that must be zero, in the order of the test.\<close>

record ethtool_coalesce =
  rx_coalesce_usecs :: u32
  rx_max_coalesced_frames :: u32
  tx_coalesce_usecs :: u32
  tx_max_coalesced_frames :: u32
  others :: "u32 list"

definition EINVAL :: int where "EINVAL = 22"
definition NX_NIC_INTR_DEFAULT :: u16 where "NX_NIC_INTR_DEFAULT = 4"
definition NX_DEFAULT_INTR_COALESCE_RX_TIME_US :: u16 where "NX_DEFAULT_INTR_COALESCE_RX_TIME_US = 3"
definition NX_DEFAULT_INTR_COALESCE_RX_PACKETS :: u16 where "NX_DEFAULT_INTR_COALESCE_RX_PACKETS = 256"

definition coalesce_refused :: "ethtool_coalesce \<Rightarrow> bool" where
  "coalesce_refused e \<longleftrightarrow>
     rx_coalesce_usecs e > 0xffff \<or> rx_max_coalesced_frames e > 0xffff \<or>
     tx_coalesce_usecs e > 0xffff \<or> tx_max_coalesced_frames e > 0xffff \<or> list_ex (\<lambda>x. x \<noteq> 0) (others e)"

definition nx_ethtool_set_intr_coalesce ::
    "pend_block option \<Rightarrow> cmd_desc \<Rightarrow> ethtool_coalesce \<Rightarrow> coal_adapter \<Rightarrow> int \<times> coal_adapter" where
  "nx_ethtool_set_intr_coalesce mem stack e a =
     (if \<not> port_up a then (- EINVAL, a)
      else if coalesce_refused e then (- EINVAL, a)
      else
        let c = coal a;
            c = (if rx_coalesce_usecs e = 0 \<or> rx_max_coalesced_frames e = 0
                 then c\<lparr>coal_flags := NX_NIC_INTR_DEFAULT,
                        normal := (normal c)\<lparr>rx_time_us := NX_DEFAULT_INTR_COALESCE_RX_TIME_US,
                                             rx_packets := NX_DEFAULT_INTR_COALESCE_RX_PACKETS\<rparr>\<rparr>
                 else c\<lparr>coal_flags := 0,
                        normal := (normal c)\<lparr>rx_time_us := ucast (rx_coalesce_usecs e),
                                             rx_packets := ucast (rx_max_coalesced_frames e)\<rparr>\<rparr>);
            c = c\<lparr>normal := (normal c)\<lparr>tx_time_us := ucast (tx_coalesce_usecs e),
                                       tx_packets := ucast (tx_max_coalesced_frames e)\<rparr>\<rparr>
        in (0, snd (nx_nic_config_intr_coalesce mem stack (a\<lparr>coal := c\<rparr>))))"

definition nx_ethtool_get_intr_coalesce :: "ethtool_coalesce \<Rightarrow> coal_adapter \<Rightarrow> int \<times> ethtool_coalesce" where
  "nx_ethtool_get_intr_coalesce e a =
     (if \<not> port_up a then (- EINVAL, e)
      else (0, e\<lparr>rx_coalesce_usecs := ucast (rx_time_us (normal (coal a))),
                 tx_coalesce_usecs := ucast (tx_time_us (normal (coal a))),
                 rx_max_coalesced_frames := ucast (rx_packets (normal (coal a))),
                 tx_max_coalesced_frames := ucast (tx_packets (normal (coal a)))\<rparr>))"

subsection \<open>Diagnostics\<close>

definition loopback_request :: "cmd_desc \<Rightarrow> u16 \<Rightarrow> int \<Rightarrow> cmd_desc" where
  "loopback_request stack port flag =
     (let r = (set_opcode NX_NIC_HOST_REQUEST stack)\<lparr>word1 := 0, word2 := 0, word3 := 0, word4 := 0, word5 := 0, word6 := 0, word7 := 0\<rparr>;
          r = hdr_need_completion 0 (hdr_ctxid (ucast port) (hdr_comp_id 1 (hdr_opcode NX_NIC_H2C_OPCODE_CONFIG_LOOPBACK r)))
      in r\<lparr>word2 := put_bits 0 32 (if flag \<noteq> 0 then 1 else 0) (word2 r)\<rparr>)"

definition unm_set_fw_loopback :: "pend_block option \<Rightarrow> cmd_desc \<Rightarrow> int \<Rightarrow> nic_adapter \<Rightarrow> int \<times> nic_adapter" where
  "unm_set_fw_loopback mem stack flag a = send_one mem (loopback_request stack (portnum a) flag) a"

text \<open>\<open>nx_nic_led_config_t\<close>: header, then context, rate and state, then nine reserved words.\<close>

record led_config =
  led_hdr :: u64
  led_ctx_id :: u32
  blink_rate :: u32
  blink_state :: u32
  led_rsvd :: "u32 list"

definition two32 :: "u32 \<Rightarrow> u32 \<Rightarrow> u64" where
  "two32 l h = put_bits 32 32 (ucast h) (put_bits 0 32 (ucast l) 0)"

definition led_request :: "cmd_desc \<Rightarrow> u16 \<Rightarrow> led_config \<Rightarrow> cmd_desc" where
  "led_request stack port p =
     (let r = (set_opcode NX_NIC_HOST_REQUEST stack)\<lparr>word1 := led_hdr p,
            word2 := two32 (led_ctx_id p) (blink_rate p), word3 := two32 (blink_state p) (led_rsvd p ! 0),
            word4 := two32 (led_rsvd p ! 1) (led_rsvd p ! 2), word5 := two32 (led_rsvd p ! 3) (led_rsvd p ! 4),
            word6 := two32 (led_rsvd p ! 5) (led_rsvd p ! 6), word7 := two32 (led_rsvd p ! 7) (led_rsvd p ! 8)\<rparr>
      in hdr_need_completion 0 (hdr_ctxid (ucast port) (hdr_comp_id 1 (hdr_opcode NX_NIC_H2C_OPCODE_CONFIG_LED r))))"

definition unm_nic_led_config :: "pend_block option \<Rightarrow> cmd_desc \<Rightarrow> led_config \<Rightarrow> nic_adapter \<Rightarrow> int \<times> nic_adapter" where
  "unm_nic_led_config mem stack param a = send_one mem (led_request stack (portnum a) param) a"

subsection \<open>Requests answered by DMA\<close>

text \<open>
  The licence and SNMP requests name a memory area of the host that the firmware fills before it
  responds. The area is \<open>n\<close> words of \<^const>\<open>words\<close> from \<open>buf\<close> on, \<open>pa\<close> is its bus address.
\<close>

definition clear_area :: "nat \<Rightarrow> nat \<Rightarrow> nic_adapter \<Rightarrow> nic_adapter" where
  "clear_area buf n a = a\<lparr>words := \<lambda>i. if buf \<le> i \<and> i < buf + n then 0 else words a i\<rparr>"

definition read_area :: "nat \<Rightarrow> nat \<Rightarrow> nic_adapter \<Rightarrow> u64 list" where
  "read_area buf n a = map (words a) [buf..<buf + n]"

definition dma_request :: "u64 \<Rightarrow> u16 \<Rightarrow> u64 \<Rightarrow> u32 \<Rightarrow> cmd_desc" where
  "dma_request op port pa sz =
     (let r = host_request op port (set_qmsg_type UNM_MSGTYPE_NIC_REQUEST zero_desc) in
      r\<lparr>word2 := pa, word3 := put_bits 0 32 (ucast sz) (put_bits 32 16 (ucast port) (word3 r))\<rparr>)"

definition finger_print_request :: "u16 \<Rightarrow> u64 \<Rightarrow> u64 \<Rightarrow> u32 \<Rightarrow> cmd_desc" where
  "finger_print_request port pa time sz =
     (let r = host_request NX_NIC_H2C_OPCODE_GET_FINGER_PRINT_REQUEST port
                (set_qmsg_type UNM_MSGTYPE_NIC_REQUEST zero_desc) in
      r\<lparr>word2 := pa, word4 := put_bits 0 32 (ucast sz) (put_bits 32 16 (ucast port) (word4 r)), word3 := time\<rparr>)"

text \<open>Sizes in words of the areas: \<open>nx_finger_print_t\<close>, \<open>nx_install_license_t\<close>, \<open>nx_license_capabilities_t\<close>.\<close>

definition FINGER_PRINT_WORDS :: nat where "FINGER_PRINT_WORDS = 129"
definition LICENSE_WORDS :: nat where "LICENSE_WORDS = 129"
definition CAPABILITIES_WORDS :: nat where "CAPABILITIES_WORDS = 9"

text \<open>Set up the waiter at \<open>w\<close>, send, wait: the reply's code, or the first failure. A waiter is dead afterwards.\<close>

definition ask_and_wait ::
    "pend_block option \<Rightarrow> (int \<Rightarrow> nic_adapter \<Rightarrow> nic_adapter) \<Rightarrow> nat \<Rightarrow> cmd_desc \<Rightarrow> int \<Rightarrow> nic_adapter \<Rightarrow>
     (int \<times> nic_adapter) option" where
  "ask_and_wait mem env w req limit a =
     (case nx_os_event_wait_setup req None w a of
        (rc, req', b) \<Rightarrow>
          if rc \<noteq> NX_RCODE_SUCCESS then Some (uint rc, frame_dies w b)
          else (case send_one mem req' b of
             (rv, c) \<Rightarrow>
               if rv \<noteq> 0 then Some (rv, frame_dies w c)
               else (case nx_os_event_wait env w limit c of
                       None \<Rightarrow> None
                     | Some (rc', d) \<Rightarrow> Some (uint rc', frame_dies w d))))"

definition nx_get_lic_finger_print ::
    "pend_block option \<Rightarrow> (int \<Rightarrow> nic_adapter \<Rightarrow> nic_adapter) \<Rightarrow> nat \<Rightarrow> nat \<Rightarrow> u64 \<Rightarrow> u64 \<Rightarrow> nic_adapter \<Rightarrow>
     (int \<times> u64 list option \<times> nic_adapter) option" where
  "nx_get_lic_finger_print mem env w buf pa now a =
     (if fw_v34 a then Some (- 1, None, a)
      else (case ask_and_wait mem env w
                   (finger_print_request (portnum a) pa now (of_nat (8 * FINGER_PRINT_WORDS)))
                   5000 (clear_area buf FINGER_PRINT_WORDS a) of
              None \<Rightarrow> None
            | Some (rv, b) \<Rightarrow>
                if rv \<noteq> 0 then Some (rv, None, b)
                else Some (rv, Some (read_area buf FINGER_PRINT_WORDS b), b)))"

definition nx_install_license :: "pend_block option \<Rightarrow> u64 \<Rightarrow> nic_adapter \<Rightarrow> int \<times> nic_adapter" where
  "nx_install_license mem pa a =
     (if fw_v34 a then (- 1, a)
      else send_one mem (dma_request NX_NIC_H2C_OPCODE_INSTALL_LICENSE_REQUEST (portnum a) pa
             (of_nat (8 * LICENSE_WORDS))) a)"

definition nx_get_capabilty_request ::
    "pend_block option \<Rightarrow> (int \<Rightarrow> nic_adapter \<Rightarrow> nic_adapter) \<Rightarrow> nat \<Rightarrow> nat \<Rightarrow> u64 \<Rightarrow> nic_adapter \<Rightarrow>
     (int \<times> u64 list option \<times> nic_adapter) option" where
  "nx_get_capabilty_request mem env w buf pa a =
     (if fw_v34 a then Some (- 1, None, a)
      else (case ask_and_wait mem env w
                   (dma_request NX_NIC_H2C_OPCODE_GET_LICENSE_CAPABILITY_REQUEST (portnum a) pa
                      (of_nat (8 * CAPABILITIES_WORDS)))
                   5000 (clear_area buf CAPABILITIES_WORDS a) of
              None \<Rightarrow> None
            | Some (rv, b) \<Rightarrow>
                if rv \<noteq> 0 then Some (rv, None, b)
                else Some (rv, Some (read_area buf CAPABILITIES_WORDS b), b)))"

text \<open>The statistics area has \<open>n\<close> words; its old contents are the answer when the request fails.\<close>

definition nx_get_snmp_ether_stats ::
    "pend_block option \<Rightarrow> (int \<Rightarrow> nic_adapter \<Rightarrow> nic_adapter) \<Rightarrow> nat \<Rightarrow> nat \<Rightarrow> nat \<Rightarrow> u64 \<Rightarrow> nic_adapter \<Rightarrow>
     (u64 list \<times> nic_adapter) option" where
  "nx_get_snmp_ether_stats mem env w buf n pa a =
     (let old = read_area buf n a in
      case ask_and_wait mem env w
             (dma_request NX_NIC_H2C_OPCODE_GET_SNMP_STATS (portnum a) pa (of_nat (8 * n)))
             500000 (clear_area buf n a) of
        None \<Rightarrow> None
      | Some (rv, b) \<Rightarrow> if rv \<noteq> 0 then Some (old, b) else Some (read_area buf n b, b))"

subsection \<open>How the firmware reads a request\<close>

text \<open>
  One constructor per layout, with every field of it but the reserved ones; the first argument is the context. With the command
  the firmware reads two more fields of the header: the id the answer is to carry and the flag that asks for an answer.
\<close>

datatype host_command =
    RSS_Config u16 u64 u64 u64 u64 u64 u64 "u64 list"
  | Coalesce u16 intr_coalesce
  | LED u16 u32 u32 u32
  | DMA_Query u64 u16 u64 u32 u16
  | Vport_Miss u16 u32
  | Finger_Print u16 u64 u64 u32 u16
  | Net_Stats u16 u64 u16 u16 u8 u8
  | IP_Config u16 u64 u32
  | Loopback u16 u32
  | Link_Event u16 u8 u8
  | Bridging u16 u8

definition times_of :: "u64 \<Rightarrow> coal_times" where
  "times_of w = \<lparr>rx_packets = ucast (get_bits 0 16 w), rx_time_us = ucast (get_bits 16 16 w),
     tx_packets = ucast (get_bits 32 16 w), tx_time_us = ucast (get_bits 48 16 w)\<rparr>"

definition coalesce_of :: "cmd_desc \<Rightarrow> intr_coalesce" where
  "coalesce_of d = \<lparr>stats_time_us = ucast (get_bits 0 16 (word2 d)), rate_sample_time = ucast (get_bits 16 16 (word2 d)),
     coal_flags = ucast (get_bits 32 16 (word2 d)), coal_rsvd_1 = ucast (get_bits 48 16 (word2 d)),
     low_threshold = ucast (get_bits 0 32 (word3 d)), high_threshold = ucast (get_bits 32 32 (word3 d)),
     normal = times_of (word4 d), low_times = times_of (word5 d), high_times = times_of (word6 d), periodic = word7 d\<rparr>"

definition decode_request :: "cmd_desc \<Rightarrow> (u64 \<times> u64 \<times> host_command) option" where
  "decode_request d =
     (let op = get_bits 0 8 (word1 d); ctx = ucast (get_bits 16 16 (word1 d));
          command = (\<lambda>c. Some (get_bits 8 8 (word1 d), get_bits 32 1 (word1 d), c)) in
      if get_bits 23 6 (word0 d) \<noteq> NX_NIC_HOST_REQUEST then None
      else if op = NX_NIC_H2C_OPCODE_CONFIG_RSS then
        command (RSS_Config ctx (get_bits 0 4 (word2 d)) (get_bits 4 2 (word2 d)) (get_bits 6 2 (word2 d)) (get_bits 8 1 (word2 d))
                (get_bits 9 1 (word2 d)) (get_bits 48 16 (word2 d)) [word3 d, word4 d, word5 d, word6 d, word7 d])
      else if op = NX_NIC_H2C_OPCODE_CONFIG_INTR_COALESCE then command (Coalesce ctx (coalesce_of d))
      else if op = NX_NIC_H2C_OPCODE_CONFIG_LED then
        command (LED ctx (ucast (get_bits 0 32 (word2 d))) (ucast (get_bits 32 32 (word2 d))) (ucast (get_bits 0 32 (word3 d))))
      else if op \<in> {NX_NIC_H2C_OPCODE_GET_SNMP_STATS, NX_NIC_H2C_OPCODE_INSTALL_LICENSE_REQUEST,
                    NX_NIC_H2C_OPCODE_GET_LICENSE_CAPABILITY_REQUEST} then
        command (DMA_Query op ctx (word2 d) (ucast (get_bits 0 32 (word3 d))) (ucast (get_bits 32 16 (word3 d))))
      else if op = NX_NIC_H2C_OPCODE_PROXY_SET_VPORT_MISS_MODE then
        command (Vport_Miss ctx (ucast (get_bits 0 32 (word2 d))))
      else if op = NX_NIC_H2C_OPCODE_GET_FINGER_PRINT_REQUEST then
        command (Finger_Print ctx (word2 d) (word3 d) (ucast (get_bits 0 32 (word4 d))) (ucast (get_bits 32 16 (word4 d))))
      else if op = NX_NIC_H2C_OPCODE_GET_NET_STATS_REQUEST then
        command (Net_Stats ctx (word2 d) (ucast (get_bits 0 16 (word3 d))) (ucast (get_bits 16 16 (word3 d)))
                (ucast (get_bits 32 8 (word3 d))) (ucast (get_bits 40 8 (word3 d))))
      else if op = NX_NIC_H2C_OPCODE_CONFIG_IPADDR then command (IP_Config ctx (word2 d) (ucast (get_bits 0 32 (word3 d))))
      else if op = NX_NIC_H2C_OPCODE_CONFIG_LOOPBACK then command (Loopback ctx (ucast (get_bits 0 32 (word2 d))))
      else if op = NX_NIC_H2C_OPCODE_GET_LINKEVENT then
        command (Link_Event ctx (ucast (get_bits 0 8 (word2 d))) (ucast (get_bits 8 8 (word2 d))))
      else if op = NX_NIC_H2C_OPCODE_CONFIG_BRIDGING then command (Bridging ctx (ucast (get_bits 0 8 (word2 d))))
      else None)"

lemma of_int_down: "LENGTH('b) \<le> LENGTH('a) \<Longrightarrow> (ucast (of_int m :: 'a::len word) :: 'b::len word) = of_int m"
  by transfer (simp add: take_bit_take_bit min_def)

lemma up_down: "LENGTH('a) \<le> LENGTH('b) \<Longrightarrow> (ucast (ucast (x :: 'a::len word) :: 'b::len word) :: 'a word) = x"
  by (rule bit_word_eqI) (auto simp: bit_simps dest: bit_imp_le_length)

lemma cut8: "ucast ((x :: u64) AND mask 8) = (ucast x :: u8)"
  and cut16: "ucast ((x :: u64) AND mask 16) = (ucast x :: u16)"
  and cut32: "ucast ((x :: u64) AND mask 32) = (ucast x :: u32)"
  by (rule bit_word_eqI; simp add: bit_simps)+

lemmas fields = get_put_same get_put_other cut8 cut16 cut32 up_down of_int_down

text \<open>The literals that occur as values of fields.\<close>

lemma field_literals:
  "(0x13 :: u64) AND mask 6 = 0x13" "(0 :: u64) AND mask n = 0" "(1 :: u64) AND mask 1 = 1"
  "(3 :: u64) AND mask 2 = 3" "(7 :: u64) AND mask 16 = 7"
  by (simp_all add: mask_eq_exp_minus_1)

lemma opcode_fields:
  "(1 :: u64) AND mask 8 = 1" "(3 :: u64) AND mask 8 = 3" "(4 :: u64) AND mask 8 = 4" "(8 :: u64) AND mask 8 = 8"
  "(12 :: u64) AND mask 8 = 12" "(13 :: u64) AND mask 8 = 13" "(14 :: u64) AND mask 8 = 14" "(15 :: u64) AND mask 8 = 15"
  "(16 :: u64) AND mask 8 = 16" "(18 :: u64) AND mask 8 = 18" "(19 :: u64) AND mask 8 = 19" "(21 :: u64) AND mask 8 = 21"
  "(23 :: u64) AND mask 8 = 23"
  by (simp_all add: mask_eq_exp_minus_1)

lemma header_fields:
  "get_bits 23 6 (word0 (host_request op port r)) = NX_NIC_HOST_REQUEST"
  "get_bits 0 8 (word1 (host_request op port r)) = op AND mask 8"
  "ucast (get_bits 16 16 (word1 (host_request op port r))) = port"
  "get_bits 8 8 (word1 (host_request op port r)) = get_bits 8 8 (word1 r)"
  "get_bits 32 1 (word1 (host_request op port r)) = get_bits 32 1 (word1 r)"
  "word2 (host_request op port r) = word2 r" "word3 (host_request op port r) = word3 r"
  "word4 (host_request op port r) = word4 r" "word5 (host_request op port r) = word5 r"
  "word6 (host_request op port r) = word6 r" "word7 (host_request op port r) = word7 r"
  by (simp_all add: host_request_def hdr_ctxid_def hdr_opcode_def set_opcode_def fields NX_NIC_HOST_REQUEST_def field_literals)

lemma zero_fields: "get_bits lo n (0 :: u64) = 0"
  by (simp add: get_bits_def)

lemma rss_decodes:
  "decode_request (rss_request stack port enable) =
     Some (1, 0, RSS_Config port (get_bits 0 4 (word2 stack)) RSS_HASHTYPE_IP_TCP RSS_HASHTYPE_IP_TCP (of_bool (enable \<noteq> 0)) 0 7 rss_key)"
  by (simp add: decode_request_def rss_request_def Let_def hdr_comp_id_def hdr_need_completion_def header_fields
      fields opcode_defs opcode_fields field_literals RSS_HASHTYPE_IP_TCP_def rss_key_def)

lemma proxy_decodes:
  "decode_request (vport_miss_request stack port mode) = Some (0, get_bits 32 1 (word1 stack), Vport_Miss port (of_int mode))"
  "decode_request (ipaddr_request stack port ip cmd) = Some (0, get_bits 32 1 (word1 stack), IP_Config port (of_int cmd) ip)"
  "decode_request (bridging_request stack port enable) = Some (0, get_bits 32 1 (word1 stack), Bridging port (of_int enable))"
  "decode_request (linkevent_req stack port async get) = Some (0, get_bits 32 1 (word1 stack), Link_Event port (of_int async) (of_int get))"
  by (simp_all add: decode_request_def vport_miss_request_def ipaddr_request_def bridging_request_def linkevent_req_def
      Let_def hdr_comp_id_def header_fields fields opcode_defs opcode_fields field_literals del: One_nat_def)

lemma dma_query_decodes:
  "op \<in> {NX_NIC_H2C_OPCODE_GET_SNMP_STATS, NX_NIC_H2C_OPCODE_INSTALL_LICENSE_REQUEST,
      NX_NIC_H2C_OPCODE_GET_LICENSE_CAPABILITY_REQUEST} \<Longrightarrow>
   decode_request (dma_request op port pa sz) = Some (0, 0, DMA_Query op port pa sz port)"
  by (auto simp: decode_request_def dma_request_def Let_def header_fields header_fields [simplified] fields opcode_defs opcode_fields
      set_qmsg_type_def zero_desc_def zero_fields)

lemma finger_print_decodes:
  "decode_request (finger_print_request port pa now sz) = Some (0, 0, Finger_Print port pa now sz port)"
  by (simp add: decode_request_def finger_print_request_def Let_def header_fields fields opcode_defs opcode_fields set_qmsg_type_def
      zero_desc_def zero_fields del: One_nat_def)

lemmas hdr_defs = hdr_comp_id_def hdr_need_completion_def hdr_ctxid_def hdr_opcode_def set_opcode_def

lemma times_decode: "times_of (coal_times_word t) = t"
  by (simp add: times_of_def coal_times_word_def fields)

lemma coalesce_decodes:
  "decode_request (coalesce_request stack port chdr c) = Some (0, 0, Coalesce port c)"
  by (simp add: decode_request_def coalesce_request_def coalesce_of_def times_decode Let_def hdr_comp_id_def hdr_need_completion_def
      header_fields fields opcode_defs opcode_fields field_literals)

lemma loopback_decodes: "decode_request (loopback_request stack port flag) = Some (1, 0, Loopback port (of_bool (flag \<noteq> 0)))"
  by (simp add: decode_request_def loopback_request_def Let_def hdr_defs fields NX_NIC_HOST_REQUEST_def
      opcode_defs opcode_fields field_literals)

lemma led_decodes:
  "decode_request (led_request stack port p) = Some (1, 0, LED port (led_ctx_id p) (blink_rate p) (blink_state p))"
  by (simp add: decode_request_def led_request_def Let_def hdr_defs two32_def fields NX_NIC_HOST_REQUEST_def
      opcode_defs opcode_fields field_literals)

lemma net_stats_decodes:
  "decode_request (net_stats_request ctx addr len interval reset stop) =
     Some (of_bool (reset = 0 \<and> stop = 0 \<and> interval = 0), 0,
           if reset \<noteq> 0 then Net_Stats (ucast ctx) 0 0 0 0 1
           else if stop \<noteq> 0 then Net_Stats (ucast ctx) 0 0 0 2 0
           else if interval \<noteq> 0 then Net_Stats (ucast ctx) addr (of_int interval) (ucast len) 1 0
           else Net_Stats (ucast ctx) addr 0 (ucast len) 0 0)"
proof -
  have c: "ucast (ucast ctx :: u64) = (ucast ctx :: u16)" "ucast (ucast len :: u64) = (ucast len :: u16)"
    by (rule bit_word_eqI; auto simp: bit_simps dest: bit_imp_le_length)+
  show ?thesis
    by (simp add: decode_request_def net_stats_request_def Let_def hdr_defs zero_desc_def c zero_fields fields NX_NIC_HOST_REQUEST_def
        opcode_defs opcode_fields field_literals NX_STATS_DMA_STOP_PERIODIC_def NX_STATS_DMA_START_PERIODIC_def
        NX_STATS_DMA_ONE_TIME_def)
qed


text \<open>
  The completion flag of four requests is never assigned: the firmware reads whatever the stack held
  there, while the requests that assign it ask for no completion.
\<close>

theorem completion_flag_unset:
  "list_all (\<lambda>r. get_bits 32 1 (word1 r) = get_bits 32 1 (word1 stack))
     [vport_miss_request stack port mode, ipaddr_request stack port ip cmd, bridging_request stack port enable,
      linkevent_req stack port async get] \<and>
   list_all (\<lambda>r. get_bits 32 1 (word1 r) = 0)
     [rss_request stack port enable, loopback_request stack port enable, led_request stack port led,
      coalesce_request stack port chdr c]"
  by (simp add: vport_miss_request_def ipaddr_request_def bridging_request_def linkevent_req_def rss_request_def
      loopback_request_def led_request_def coalesce_request_def Let_def host_request_def hdr_defs fields field_literals)

subsection \<open>Coalescing parameters\<close>

lemma small_value: "(v :: u32) \<le> 0xffff \<Longrightarrow> ucast (ucast v :: u16) = v"
proof -
  assume "v \<le> 0xffff"
  then have "uint v < 65536" by (simp add: word_le_def)
  then have u: "take_bit 16 (uint v) = uint v" by (simp add: take_bit_eq_mod)
  have t: "take_bit 16 v = v"
    by (rule word_uint_eqI) (simp only: unsigned_take_bit_eq u)
  have "i < 16" if "bit v i" for i
    using that t by (metis bit_take_bit_iff)
  then show ?thesis by (intro bit_word_eqI) (auto simp: bit_simps dest: bit_imp_le_length)
qed

text \<open>
  Setting the coalescing parameters: refused, with nothing changed, unless the port is up and every value
  fits and is supported; otherwise the values read back are those set, or the receive defaults
  where a receive value was zero, and the firmware is sent exactly the stored parameters. The
  answer is success even if that request could not be sent.
\<close>

theorem coalesce_set_get:
  "(case nx_ethtool_set_intr_coalesce mem stack e a of (rv, b) \<Rightarrow>
      if port_up a \<and> \<not> coalesce_refused e then
        rv = 0 \<and>
        nx_ethtool_get_intr_coalesce e0 b = (0, e0\<lparr>
          rx_coalesce_usecs := (if rx_coalesce_usecs e = 0 \<or> rx_max_coalesced_frames e = 0 then 3 else rx_coalesce_usecs e),
          rx_max_coalesced_frames := (if rx_coalesce_usecs e = 0 \<or> rx_max_coalesced_frames e = 0 then 256 else rx_max_coalesced_frames e),
          tx_coalesce_usecs := tx_coalesce_usecs e, tx_max_coalesced_frames := tx_max_coalesced_frames e\<rparr>) \<and>
        nic b = snd (send_one mem (coalesce_request stack (portnum (nic a)) (coal_hdr a) (coal b)) (nic a))
      else rv = - EINVAL \<and> b = a)"
proof (cases "port_up a \<and> \<not> coalesce_refused e")
  case False
  then show ?thesis by (auto simp: nx_ethtool_set_intr_coalesce_def)
next
  case True
  then have v: "ucast (ucast (rx_coalesce_usecs e) :: u16) = rx_coalesce_usecs e"
    "ucast (ucast (rx_max_coalesced_frames e) :: u16) = rx_max_coalesced_frames e"
    "ucast (ucast (tx_coalesce_usecs e) :: u16) = tx_coalesce_usecs e"
    "ucast (ucast (tx_max_coalesced_frames e) :: u16) = tx_max_coalesced_frames e"
    by (auto simp: coalesce_refused_def intro!: small_value)
  show ?thesis
    using True
    by (auto simp: nx_ethtool_set_intr_coalesce_def nx_nic_config_intr_coalesce_def nx_ethtool_get_intr_coalesce_def
        Let_def v NX_DEFAULT_INTR_COALESCE_RX_TIME_US_def NX_DEFAULT_INTR_COALESCE_RX_PACKETS_def split: prod.splits)
qed

subsection \<open>Queries answered by DMA\<close>

definition fill_area :: "nat \<Rightarrow> u64 list \<Rightarrow> nic_adapter \<Rightarrow> nic_adapter" where
  "fill_area buf vs a = a\<lparr>words := \<lambda>i. if buf \<le> i \<and> i < buf + length vs then vs ! (i - buf) else words a i\<rparr>"

text \<open>The firmware fills the area and responds in the first turn of the wait.\<close>

definition dma_reply :: "nat \<Rightarrow> u64 list \<Rightarrow> nic_response \<Rightarrow> int \<Rightarrow> nic_adapter \<Rightarrow> nic_adapter" where
  "dma_reply buf vs r limit a =
     (case nx_os_event_wakeup_on_response r (fill_area buf vs a) of None \<Rightarrow> a | Some (_, b) \<Rightarrow> b)"

lemma area_facts:
  "length vs = n \<Longrightarrow> fill_area buf vs (clear_area buf n a) = fill_area buf vs a"
  "length vs = n \<Longrightarrow> read_area buf n (fill_area buf vs a) = vs"
  by (auto simp: fill_area_def clear_area_def read_area_def fun_eq_iff intro!: nth_equalityI)

lemma clear_area_fields:
  "waits (clear_area buf n a) = waits a" "wait_list (clear_area buf n a) = wait_list a"
  "wait_bit_map (clear_area buf n a) = wait_bit_map a" "ad_tx (clear_area buf n a) = ad_tx a"
  "fw_v34 (clear_area buf n a) = fw_v34 a" "portnum (clear_area buf n a) = portnum a"
  "(clear_area buf n a)\<lparr>ad_tx := t\<rparr> = clear_area buf n (a\<lparr>ad_tx := t\<rparr>)"
  by (simp_all add: clear_area_def cong: if_cong)

lemma wait_inv_clear: "wait_inv a \<Longrightarrow> wait_inv (clear_area buf n a)"
  by (rule wait_inv_update) (simp_all add: clear_area_fields)

lemma wait_loop_timeout:
  "waits a w = Some e \<Longrightarrow> \<not> w_trigger e \<Longrightarrow> wait_loop no_env w limit a = Some (NX_RCODE_TIMEOUT, a)"
proof (induction "nat limit" arbitrary: limit rule: less_induct)
  case less
  show ?case
  proof (cases "limit \<le> 0")
    case True
    with less.prems show ?thesis by (subst wait_loop.simps) simp
  next
    case False
    then have "nat (limit - 100000) < nat limit" by simp
    from less.hyps [OF this less.prems] less.prems False show ?thesis
      by (subst wait_loop.simps) (simp add: no_env_def)
  qed
qed

lemma ask_and_wait_outcomes:
  assumes "wait_inv a" "waits a w = None"
    "find_comp_id (wait_bit_map a) 0 NX_MAX_COMP_ID = Some i"
    "nx_nic_send_cmd_descs mem (ad_tx a) [hdr_comp_id (of_nat i) req] = (0, t)" "0 < limit"
  shows "rsp_compid r = of_nat i \<Longrightarrow> plain_response r \<Longrightarrow>
      ask_and_wait mem (dma_reply buf vs r) w req limit a = Some (0, fill_area buf vs (a\<lparr>ad_tx := t\<rparr>))"
    and "ask_and_wait mem no_env w req limit a = Some (17, a\<lparr>ad_tx := t\<rparr>)"
proof -
  let ?e = "\<lparr>w_comp_id = of_nat i, w_trigger = False, w_active = True, w_rsp_word = None\<rparr>"
  let ?m = "(wait_bit_map a)[comp_index i := (wait_bit_map a ! comp_index i) OR comp_bit i]"
  let ?c = "a\<lparr>wait_bit_map := ?m, waits := (waits a)(w \<mapsto> ?e), wait_list := w # wait_list a, ad_tx := t\<rparr>"
  note f = found_id [OF assms(3)]
  have len: "length (wait_bit_map a) = 4" using assms(1) by (simp add: wait_inv_def)
  have g: "comp_index i < 4" using f by (auto simp: comp_index_def)
  have u: "unat (of_nat i :: u8) = i" using f by (simp add: unat_of_nat)
  have restored: "(wait_bit_map a)[comp_index i := (wait_bit_map a ! comp_index i OR comp_bit i) AND NOT (comp_bit i)] = wait_bit_map a"
    by (rule comp_id_restored) (use f g len in auto)
  have dead: "(waits a)(w := None) = waits a" using assms(2) by auto
  note run = ask_and_wait_def setup_eq [OF assms(3)] send_one_def nx_os_send_cmd_descs_def assms(4) nx_os_event_wait_def
    frame_dies_def u restored dead
  {
    assume r: "rsp_compid r = of_nat i" "plain_response r"
    have "wait_loop (dma_reply buf vs r) w limit ?c = Some (NX_RCODE_SUCCESS,
        (fill_area buf vs ?c)\<lparr>waits := (waits ?c)(w \<mapsto> ?e\<lparr>w_trigger := True, w_active := False\<rparr>)\<rparr>)"
      using assms(5) r
      by (subst wait_loop.simps, subst wait_loop.simps)
        (simp add: dma_reply_def nx_os_event_wakeup_on_response_def plain_response_def fill_area_def)
    then show "ask_and_wait mem (dma_reply buf vs r) w req limit a = Some (0, fill_area buf vs (a\<lparr>ad_tx := t\<rparr>))"
      using g len by (simp add: run) (simp add: NX_RCODE_SUCCESS_def fill_area_def u restored dead cong: if_cong)
  }
  have "wait_loop no_env w limit ?c = Some (NX_RCODE_TIMEOUT, ?c)"
    by (rule wait_loop_timeout [where e = ?e]) simp_all
  then show "ask_and_wait mem no_env w req limit a = Some (17, a\<lparr>ad_tx := t\<rparr>)"
    using g len by (simp add: run) (simp add: NX_RCODE_TIMEOUT_def)
qed

text \<open>
  A licence query returns what the firmware put into the DMA area, if it responds in the first turn,
  the only one the limit allows, and a timeout otherwise, with the area cleared. Either way the
  table of waiters is as it was.
\<close>

theorem finger_print_answered:
  assumes "wait_inv a" "waits a w = None" "\<not> fw_v34 a"
    "find_comp_id (wait_bit_map a) 0 NX_MAX_COMP_ID = Some i"
    "nx_nic_send_cmd_descs mem (ad_tx a) [hdr_comp_id (of_nat i) (finger_print_request (portnum a) pa now 1032)] = (0, t)"
    "rsp_compid r = of_nat i" "plain_response r" "length vs = 129"
  shows "nx_get_lic_finger_print mem (dma_reply buf vs r) w buf pa now a =
      Some (0, Some vs, fill_area buf vs (a\<lparr>ad_tx := t\<rparr>)) \<and>
    nx_get_lic_finger_print mem no_env w buf pa now a = Some (17, None, clear_area buf 129 (a\<lparr>ad_tx := t\<rparr>))"
proof -
  have o: "ask_and_wait mem (dma_reply buf vs r) w (finger_print_request (portnum a) pa now 1032) 5000 (clear_area buf 129 a) =
      Some (0, fill_area buf vs ((clear_area buf 129 a)\<lparr>ad_tx := t\<rparr>))"
    "ask_and_wait mem no_env w (finger_print_request (portnum a) pa now 1032) 5000 (clear_area buf 129 a) =
      Some (17, (clear_area buf 129 a)\<lparr>ad_tx := t\<rparr>)"
    using ask_and_wait_outcomes [of "clear_area buf 129 a" w i mem "finger_print_request (portnum a) pa now 1032" t 5000]
      assms by (simp_all add: wait_inv_clear clear_area_fields)
  show ?thesis
    using o assms(3,8)
    by (simp add: nx_get_lic_finger_print_def FINGER_PRINT_WORDS_def clear_area_fields area_facts)
qed

lemma finger_print_answered_witness:
  "\<exists>b. nx_get_lic_finger_print None (dma_reply 100 (replicate 129 7) (sample_response 0)) 5 100 0x1000 0
      (sample_nic_adapter sample_adapter) = Some (0, Some (replicate 129 7), b) \<and> wait_list b = []"
proof -
  let ?a = "sample_nic_adapter sample_adapter"
  have inv: "wait_inv ?a" by (rule wait_inv_fresh) (simp_all add: sample_nic_adapter_def)
  obtain t where t: "nx_nic_send_cmd_descs None (ad_tx ?a) [hdr_comp_id (of_nat 0) (finger_print_request (portnum ?a) 0x1000 0 1032)] = (0, t)"
    by (simp add: sample_nic_adapter_def nx_nic_send_cmd_descs_def unm_get_pending_cmd_desc_cnt_def ring_full_def
        sample_adapter_def MAX_PENDING_DESC_BLOCK_SIZE_def)
  have s: "waits ?a 5 = None" "\<not> fw_v34 ?a" "rsp_compid (sample_response 0) = of_nat 0" "wait_list ?a = []"
    by (simp_all add: sample_nic_adapter_def sample_response_def)
  show ?thesis
    using finger_print_answered [OF inv s(1,2) sample_first_id t s(3) sample_plain, of "replicate 129 7" 100] s(4)
    by (simp add: fill_area_def)
qed

end
