(* ===== verification/MacFilter.thy ===== *)
theory MacFilter
  imports NicReq "HOL-Library.Sublist"
begin

text \<open>
  Address filters of the P3 cards, \<open>driver/unm_nic_main.c\<close>: the list of addresses the card accepts
  (\<open>nx_nic_p3_add_mac\<close>, \<open>nx_nic_p3_set_multi\<close>, \<open>nx_nic_p3_free_mac_list\<close>) and the filter rules of
  single receive contexts (\<open>nx_nic_multictx_set_rx_rule\<close>, \<open>nx_nic_multictx_remove_rx_rule\<close>). The
  card's side, a set of addresses changed by the requests it gets, is the abstract state.
\<close>

type_synonym mac = "u8 list"

subsection \<open>The address list\<close>

text \<open>The three lists of \<open>nx_nic_p3_set_multi\<close>; \<open>kcalls\<close> counts allocations, of which the \<open>n\<close>-th succeeds if \<open>ok n\<close>.\<close>

record mac_lists =
  m_list :: "mac list"
  m_add :: "mac list"
  m_del :: "mac list"
  kcalls :: nat

definition nx_nic_p3_add_mac :: "(nat \<Rightarrow> bool) \<Rightarrow> mac \<Rightarrow> mac_lists \<Rightarrow> int \<times> mac_lists" where
  "nx_nic_p3_add_mac ok addr s =
     (if addr \<in> set (m_del s) then (0, s\<lparr>m_del := remove1 addr (m_del s), m_list := addr # m_list s\<rparr>)
      else if addr \<in> set (m_list s) then (0, s)
      else if \<not> ok (kcalls s) then (- 1, s\<lparr>kcalls := kcalls s + 1\<rparr>)
      else (0, s\<lparr>m_add := addr # m_add s, kcalls := kcalls s + 1\<rparr>))"

fun add_macs :: "(nat \<Rightarrow> bool) \<Rightarrow> mac list \<Rightarrow> mac_lists \<Rightarrow> mac_lists" where
  "add_macs ok [] s = s"
| "add_macs ok (m # ms) s = add_macs ok ms (snd (nx_nic_p3_add_mac ok m s))"

text \<open>The part of \<open>struct net_device\<close> that the functions read.\<close>

record netdev =
  nd_flags :: u32
  mc_count :: int
  mc_list :: "mac list"

record p3_adapter =
  pnic :: nic_adapter
  p3_list :: "mac list"
  own_mac :: mac
  max_mc_count :: int
  p3_promisc :: u32

definition IFF_PROMISC :: u32 where "IFF_PROMISC = 0x100"
definition IFF_ALLMULTI :: u32 where "IFF_ALLMULTI = 0x200"
definition VPORT_MISS_MODE_DROP :: int where "VPORT_MISS_MODE_DROP = 0"
definition VPORT_MISS_MODE_ACCEPT_ALL :: int where "VPORT_MISS_MODE_ACCEPT_ALL = 1"
definition VPORT_MISS_MODE_ACCEPT_MULTI :: int where "VPORT_MISS_MODE_ACCEPT_MULTI = 2"
definition bcast_addr :: mac where "bcast_addr = replicate 6 0xff"

text \<open>
  \<open>adapter->nx_dev->rx_ctxs[0]\<close> and its context id. The filter functions test the device first and only
  then dereference the context, so that a null context is a crash only on a device that is ready.
\<close>

definition rx0_context :: "nic_adapter \<Rightarrow> u32 option" where
  "rx0_context a = (case rx_ctxs (nx_dev a) ! 0 of
      None \<Rightarrow> None
    | Some c \<Rightarrow> map_option rx_context_id (rx_heap (nx_dev a) c))"

definition on_rx0 ::
    "(u32 \<Rightarrow> nic_adapter \<Rightarrow> (nx_rcode \<times> nic_adapter) option) \<Rightarrow> nic_adapter \<Rightarrow> (nx_rcode \<times> nic_adapter) option" where
  "on_rx0 f a =
     (case rx0_context a of
        Some c \<Rightarrow> f c a
      | None \<Rightarrow> if validate_dev_for_cmd (nx_dev a) \<noteq> NX_RCODE_SUCCESS then f 0 a else None)"

text \<open>One request per address, results dropped. \<open>mem\<close> and \<open>stk\<close> give each send its block and its stack memory.\<close>

fun send_removes ::
    "(nat \<Rightarrow> pend_block option) \<Rightarrow> (nat \<Rightarrow> cmd_desc) \<Rightarrow> nat \<Rightarrow> mac list \<Rightarrow> nic_adapter \<Rightarrow> nic_adapter option" where
  "send_removes mem stk n [] a = Some a"
| "send_removes mem stk n (m # ms) a =
     (case on_rx0 (\<lambda>ctx. nx_os_pf_remove_l2_mac (mem n) (stk n) ctx m) a of
        None \<Rightarrow> None
      | Some (_, b) \<Rightarrow> send_removes mem stk (n + 1) ms b)"

fun send_adds ::
    "(nat \<Rightarrow> pend_block option) \<Rightarrow> (nat \<Rightarrow> cmd_desc) \<Rightarrow> nat \<Rightarrow> mac list \<Rightarrow> nic_adapter \<Rightarrow> mac list \<Rightarrow>
     (nic_adapter \<times> mac list) option" where
  "send_adds mem stk n [] a l = Some (a, l)"
| "send_adds mem stk n (m # ms) a l =
     (case on_rx0 (\<lambda>ctx. nx_os_pf_add_l2_mac (mem n) (stk n) ctx m) a of
        None \<Rightarrow> None
      | Some (_, b) \<Rightarrow> send_adds mem stk (n + 1) ms b (m # l))"

text \<open>The addresses asked for and the mode for all others.\<close>

definition wanted :: "netdev \<Rightarrow> p3_adapter \<Rightarrow> mac list \<times> int" where
  "wanted dev a =
     (let always = [own_mac a, bcast_addr] in
      if nd_flags dev AND IFF_PROMISC \<noteq> 0 then (always, VPORT_MISS_MODE_ACCEPT_ALL)
      else if nd_flags dev AND IFF_ALLMULTI \<noteq> 0 \<or> mc_count dev > max_mc_count a
      then (always, VPORT_MISS_MODE_ACCEPT_MULTI)
      else if mc_count dev > 0 then (always @ mc_list dev, VPORT_MISS_MODE_DROP)
      else (always, VPORT_MISS_MODE_DROP))"

definition nx_nic_p3_set_multi ::
    "(nat \<Rightarrow> bool) \<Rightarrow> (nat \<Rightarrow> pend_block option) \<Rightarrow> (nat \<Rightarrow> cmd_desc) \<Rightarrow> netdev \<Rightarrow> p3_adapter \<Rightarrow> p3_adapter option" where
  "nx_nic_p3_set_multi ok mem stk dev a =
     (case wanted dev a of (addrs, mode) \<Rightarrow>
        let s = add_macs ok addrs \<lparr>m_list = [], m_add = [], m_del = p3_list a, kcalls = 0\<rparr>;
            b = snd (nx_p3_set_vport_miss_mode (mem 0) (stk 0) mode (pnic a))
        in case send_removes mem stk 1 (m_del s) b of
             None \<Rightarrow> None
           | Some c \<Rightarrow>
               (case send_adds mem stk (1 + length (m_del s)) (m_add s) c (m_list s) of
                  None \<Rightarrow> None
                | Some (d, l) \<Rightarrow>
                    Some (a\<lparr>pnic := d, p3_list := l, p3_promisc := nd_flags dev AND (IFF_PROMISC OR IFF_ALLMULTI)\<rparr>)))"

definition unm_nic_p3_macaddr_set ::
    "(nat \<Rightarrow> bool) \<Rightarrow> (nat \<Rightarrow> pend_block option) \<Rightarrow> (nat \<Rightarrow> cmd_desc) \<Rightarrow> netdev \<Rightarrow> p3_adapter \<Rightarrow> (int \<times> p3_adapter) option" where
  "unm_nic_p3_macaddr_set ok mem stk dev a = map_option (Pair 0) (nx_nic_p3_set_multi ok mem stk dev a)"

definition nx_nic_p3_free_mac_list :: "p3_adapter \<Rightarrow> p3_adapter" where
  "nx_nic_p3_free_mac_list a = a\<lparr>p3_list := []\<rparr>"

subsection \<open>Filter rules of a context\<close>

record rx_rule =
  rule_id :: nat
  rule_active :: bool
  rule_mac :: mac

text \<open>\<open>rules ctx\<close> is the rule array of that context, \<open>num_rules\<close> entries long; \<open>saved_rules\<close> has one entry per context.\<close>

record rule_adapter =
  rnic :: nic_adapter
  rules :: "nat \<Rightarrow> rx_rule list"
  active_rx_rules :: "nat \<Rightarrow> u16"
  saved_rules :: "rx_rule list"

text \<open>The context with that id. The test lets through \<open>alloc_rx_ctxs\<close> itself and negative ids, which index
  outside the array of contexts: the crash.\<close>

definition ctx_of :: "int \<Rightarrow> nic_adapter \<Rightarrow> rx_ctx option option" where
  "ctx_of ctx_id a =
     (if ctx_id < 0 \<or> length (rx_ctxs (nx_dev a)) \<le> nat ctx_id then None
      else Some (case rx_ctxs (nx_dev a) ! nat ctx_id of None \<Rightarrow> None | Some c \<Rightarrow> rx_heap (nx_dev a) c))"

definition free_rule :: "rx_rule list \<Rightarrow> nat option" where
  "free_rule rs = find (\<lambda>i. \<not> rule_active (rs ! i)) [0..<length rs]"

definition nx_nic_multictx_set_rx_rule ::
    "pend_block option \<Rightarrow> cmd_desc \<Rightarrow> int \<Rightarrow> mac \<Rightarrow> rule_adapter \<Rightarrow> (int \<times> rule_adapter) option" where
  "nx_nic_multictx_set_rx_rule mem stack ctx_id addr a =
     (if fw_v34 (rnic a) then Some (- 1, a)
      else if ctx_id > int (unat (alloc_rx_ctxs (nx_dev (rnic a)))) then Some (- 1, a)
      else case ctx_of ctx_id (rnic a) of
        None \<Rightarrow> None
      | Some None \<Rightarrow> Some (- 1, a)
      | Some (Some c) \<Rightarrow>
          let i = nat ctx_id in
          if active_rx_rules a i \<ge> num_rules c then Some (- 1, a)
          else (case free_rule (rules a i) of
              None \<Rightarrow> Some (- 1, a)
            | Some r \<Rightarrow>
                let b = a\<lparr>rules := (rules a)(i := (rules a i)[r := (rules a i ! r)\<lparr>rule_id := r\<rparr>])\<rparr> in
                (case nx_os_pf_add_l2_mac mem stack (rx_context_id c) addr (rnic b) of
                   None \<Rightarrow> None
                 | Some (rv, n) \<Rightarrow>
                     let b = b\<lparr>rnic := n\<rparr> in
                     if rv = 0 then
                       (let x = (rules b i ! r)\<lparr>rule_active := True, rule_mac := addr\<rparr> in
                        if length (saved_rules b) \<le> i then None
                        else Some (int r,
                          b\<lparr>rules := (rules b)(i := (rules b i)[r := x]), saved_rules := (saved_rules b)[i := x],
                            active_rx_rules := (active_rx_rules b)(i := active_rx_rules b i + 1)\<rparr>))
                     else Some (- 1, b))))"

definition nx_nic_multictx_remove_rx_rule ::
    "pend_block option \<Rightarrow> cmd_desc \<Rightarrow> int \<Rightarrow> int \<Rightarrow> rule_adapter \<Rightarrow> (int \<times> rule_adapter) option" where
  "nx_nic_multictx_remove_rx_rule mem stack ctx_id rid a =
     (if fw_v34 (rnic a) then Some (- 1, a)
      else if ctx_id > int (unat (alloc_rx_ctxs (nx_dev (rnic a)))) then Some (- 1, a)
      else case ctx_of ctx_id (rnic a) of
        None \<Rightarrow> None
      | Some None \<Rightarrow> Some (- 1, a)
      | Some (Some c) \<Rightarrow>
          let i = nat ctx_id in
          if rid \<ge> int (unat (num_rules c)) then Some (- 1, a)
          else if rid < 0 \<or> length (rules a i) \<le> nat rid then None
          else
            let x = rules a i ! nat rid in
            if \<not> rule_active x then Some (- 1, a)
            else (case nx_os_pf_remove_l2_mac mem stack (rx_context_id c) (rule_mac x) (rnic a) of
                None \<Rightarrow> None
              | Some (rv, n) \<Rightarrow>
                  let b = a\<lparr>rnic := n\<rparr> in
                  if rv = 0 then
                    Some (0, b\<lparr>rules := (rules b)(i := (rules b i)[nat rid := x\<lparr>rule_active := False\<rparr>]),
                              active_rx_rules := (active_rx_rules b)(i := active_rx_rules b i - 1)\<rparr>)
                  else Some (- 1, b)))"

subsection \<open>The card's side\<close>

text \<open>What the firmware does to its set of addresses with one command; commands of other kinds leave it alone.\<close>

definition request_mac :: "cmd_desc \<Rightarrow> mac" where
  "request_mac d = map (\<lambda>i. ucast (drop_bit (16 + 8 * i) (word2 d))) [0..<6]"

definition apply_request :: "cmd_desc \<Rightarrow> mac set \<Rightarrow> mac set" where
  "apply_request d F =
     (if get_bits 23 6 (word0 d) = NIC_REQUEST \<and> get_bits 0 8 (word1 d) = UNM_MAC_EVENT then
        if get_bits 0 8 (word2 d) = UNM_MAC_ADD then insert (request_mac d) F
        else if get_bits 0 8 (word2 d) = UNM_MAC_DEL then F - {request_mac d}
        else F
      else F)"

definition mac_desc :: "cmd_desc \<Rightarrow> u32 \<Rightarrow> u64 \<Rightarrow> mac \<Rightarrow> cmd_desc" where
  "mac_desc stack ctx op m = (send_request_desc stack ctx NX_NIC_H2C_OPCODE_CONFIG_L2_MAC 0)\<lparr>word2 := mac_request op m\<rparr>"

lemma mac_request_bits:
  assumes "length m = 6"
  shows "bit (mac_request op m) j \<longleftrightarrow> bit op j \<or> (16 \<le> j \<and> j < 64 \<and> bit (m ! ((j - 16) div 8)) ((j - 16) mod 8))"
proof -
  have "get_le 6 0 (\<lambda>i. m ! i) * 2 ^ 16 = push_bit 16 (get_le 6 0 (\<lambda>i. m ! i))" by (simp add: push_bit_eq_mult)
  moreover have "j < 64" if "bit op j" using that bit_imp_le_length by fastforce
  ultimately show ?thesis
    by (auto simp: mac_request_def bit_simps bit_get_le)
qed

lemma mac_desc_reads:
  assumes "length m = 6" "op = 1 \<or> op = 2"
  shows "get_bits 23 6 (word0 (mac_desc stack ctx op m)) = NIC_REQUEST"
    "get_bits 0 8 (word1 (mac_desc stack ctx op m)) = UNM_MAC_EVENT"
    "get_bits 0 8 (word2 (mac_desc stack ctx op m)) = op"
    "request_mac (mac_desc stack ctx op m) = m"
proof -
  have lits: "(0x14 :: u64) AND mask 6 = 0x14" "(1 :: u64) AND mask 8 = 1" "(2 :: u64) AND mask 8 = 2"
    by (simp_all add: mask_eq_exp_minus_1)
  show "get_bits 23 6 (word0 (mac_desc stack ctx op m)) = NIC_REQUEST"
    "get_bits 0 8 (word1 (mac_desc stack ctx op m)) = UNM_MAC_EVENT"
    by (simp_all add: mac_desc_def send_request_desc_def hdr_defs fields NIC_REQUEST_def UNM_MAC_EVENT_def lits)
  have m8: "op AND mask 8 = op" using assms(2) lits by auto
  have o: "j < 8" if "bit op j" for j
    using that by (subst (asm) m8 [symmetric]) (simp add: bit_and_iff bit_mask_iff)
  show "get_bits 0 8 (word2 (mac_desc stack ctx op m)) = op"
    by (intro bit_word_eqI) (auto simp: mac_desc_def bit_get_bits mac_request_bits [OF assms(1)] dest: o)
  show "request_mac (mac_desc stack ctx op m) = m"
  proof (rule nth_equalityI)
    fix i
    assume "i < length (request_mac (mac_desc stack ctx op m))"
    then have i: "i < 6" by (simp add: request_mac_def)
    have "ucast (drop_bit (16 + 8 * i) (mac_request op m)) = m ! i"
    proof (rule bit_word_eqI)
      fix j
      assume j: "j < LENGTH(8)"
      have "\<not> bit op (16 + 8 * i + j)" using o [of "16 + 8 * i + j"] by auto
      moreover have "(8 * i + j) div 8 = i" "(8 * i + j) mod 8 = j" using j by auto
      ultimately show "bit (ucast (drop_bit (16 + 8 * i) (mac_request op m)) :: u8) j = bit (m ! i) j"
        using i j by (simp add: bit_simps mac_request_bits [OF assms(1)] add.assoc)
    qed
    then show "request_mac (mac_desc stack ctx op m) ! i = m ! i"
      using i by (simp add: request_mac_def mac_desc_def)
  qed (simp add: request_mac_def assms(1))
qed

lemma apply_mac_desc:
  "length m = 6 \<Longrightarrow> apply_request (mac_desc stack ctx UNM_MAC_ADD m) F = insert m F"
  "length m = 6 \<Longrightarrow> apply_request (mac_desc stack ctx UNM_MAC_DEL m) F = F - {m}"
  by (simp_all add: apply_request_def mac_desc_reads UNM_MAC_ADD_def UNM_MAC_DEL_def)

lemma apply_vport: "apply_request (vport_miss_request stack port mode) F = F"
proof -
  have "get_bits 23 6 (word0 (vport_miss_request stack port mode)) = NX_NIC_HOST_REQUEST"
    by (simp add: vport_miss_request_def Let_def hdr_comp_id_def header_fields)
  then show ?thesis by (simp add: apply_request_def NX_NIC_HOST_REQUEST_def NIC_REQUEST_def)
qed

subsection \<open>Counting addresses\<close>

lemma add_mac_counts:
  assumes "\<forall>n. ok n" "s' = snd (nx_nic_p3_add_mac ok w s)"
  shows "count (mset (m_del s')) m = count (mset (m_del s)) m - of_bool (m = w)"
    "count (mset (m_list s')) m = count (mset (m_list s)) m + of_bool (m = w \<and> count (mset (m_del s)) m \<noteq> 0)"
    "count (mset (m_add s')) m = count (mset (m_add s)) m +
       of_bool (m = w \<and> count (mset (m_del s)) m = 0 \<and> count (mset (m_list s)) m = 0)"
proof -
  have zero: "x \<notin> set xs \<Longrightarrow> count (mset xs) x = 0" for x :: mac and xs by (simp add: count_mset_0_iff)
  show "count (mset (m_del s')) m = count (mset (m_del s)) m - of_bool (m = w)"
    "count (mset (m_list s')) m = count (mset (m_list s)) m + of_bool (m = w \<and> count (mset (m_del s)) m \<noteq> 0)"
    "count (mset (m_add s')) m = count (mset (m_add s)) m +
       of_bool (m = w \<and> count (mset (m_del s)) m = 0 \<and> count (mset (m_list s)) m = 0)"
    using assms by (auto simp: nx_nic_p3_add_mac_def zero)
qed

lemma count_step:
  fixes d :: nat
  assumes "d1 = d - of_bool p" "l1 = l + of_bool (p \<and> d \<noteq> 0)" "a1 = a + of_bool (p \<and> d = 0 \<and> l = 0)"
  shows "d1 - k = d - (of_bool p + k)" "l1 + min d1 k = l + min d (of_bool p + k)"
    "a1 + (if d1 = 0 \<and> l1 = 0 then k else 0) = a + (if d = 0 \<and> l = 0 then of_bool p + k else 0)"
  using assms by (cases p; cases d; simp)+

lemma add_macs_counts:
  assumes "\<forall>n. ok n"
  shows "count (mset (m_del (add_macs ok ws s))) m = count (mset (m_del s)) m - count (mset ws) m \<and>
    count (mset (m_list (add_macs ok ws s))) m =
      count (mset (m_list s)) m + min (count (mset (m_del s)) m) (count (mset ws) m) \<and>
    count (mset (m_add (add_macs ok ws s))) m = count (mset (m_add s)) m +
      (if count (mset (m_del s)) m = 0 \<and> count (mset (m_list s)) m = 0 then count (mset ws) m else 0)"
proof (induction ws arbitrary: s)
  case (Cons w ws)
  let ?s = "snd (nx_nic_p3_add_mac ok w s)"
  have e: "add_macs ok (w # ws) s = add_macs ok ws ?s" by simp
  have k: "count (mset (w # ws)) m = of_bool (m = w) + count (mset ws) m" by simp
  show ?case
    unfolding e k count_step [OF add_mac_counts [OF assms refl, of w s m], symmetric] by (rule Cons.IH)
qed simp

subsection \<open>Sending the filter requests\<close>

lemma send_descs_cases:
  assumes "ring_inv (ad_tx a)" "pend_mem_ok mem"
  shows "\<exists>rv t. nx_os_send_cmd_descs mem ds a = (rv, a\<lparr>ad_tx := t\<rparr>) \<and> ring_inv t \<and>
    (rv = 0 \<and> tx_stream t = tx_stream (ad_tx a) @ ds \<or> rv \<noteq> 0 \<and> tx_stream t = tx_stream (ad_tx a))"
proof -
  obtain rv t where s: "nx_nic_send_cmd_descs mem (ad_tx a) ds = (rv, t)" by (cases "nx_nic_send_cmd_descs mem (ad_tx a) ds")
  have "\<forall>b. mem = Some b \<longrightarrow> blk_array b" using assms(2) by (simp add: pend_mem_ok_def)
  from send_cases [OF assms(1) this s] show ?thesis
    by (intro exI [of _ rv] exI [of _ t]) (auto simp: nx_os_send_cmd_descs_def s tx_stream_def)
qed

definition sends :: "u64 \<Rightarrow> cmd_desc \<Rightarrow> u32 \<Rightarrow> mac \<Rightarrow> nic_adapter \<Rightarrow> (nx_rcode \<times> nic_adapter) option \<Rightarrow> bool" where
  "sends op stack ctx m a r \<longleftrightarrow>
     (\<exists>rc t. r = Some (rc, a\<lparr>ad_tx := t\<rparr>) \<and> ring_inv t \<and>
       (rc = 0 \<and> tx_stream t = tx_stream (ad_tx a) @ [mac_desc stack ctx op m] \<or> rc \<noteq> 0 \<and> tx_stream t = tx_stream (ad_tx a)))"

lemma pf_sends:
  assumes "validate_dev_for_cmd (nx_dev a) = NX_RCODE_SUCCESS" "ring_inv (ad_tx a)" "pend_mem_ok mem"
  shows "sends UNM_MAC_ADD stack ctx m a (nx_os_pf_add_l2_mac mem stack ctx m a)"
    "sends UNM_MAC_DEL stack ctx m a (nx_os_pf_remove_l2_mac mem stack ctx m a)"
proof -
  have d: "(send_request_desc stack ctx NX_NIC_H2C_OPCODE_CONFIG_L2_MAC 0)\<lparr>word2 := mac_request op m\<rparr> = mac_desc stack ctx op m" for op
    by (simp add: mac_desc_def)
  have s: "sends op stack ctx m a (nx_os_send_nic_request mem no_env stack 0 0 ctx NX_NIC_H2C_OPCODE_CONFIG_L2_MAC
      [mac_request op m] 0 None a)" for op
  proof -
    obtain rv t where t: "nx_os_send_cmd_descs mem [mac_desc stack ctx op m] a = (rv, a\<lparr>ad_tx := t\<rparr>)" "ring_inv t"
      "rv = 0 \<and> tx_stream t = tx_stream (ad_tx a) @ [mac_desc stack ctx op m] \<or> rv \<noteq> 0 \<and> tx_stream t = tx_stream (ad_tx a)"
      using send_descs_cases [OF assms(2,3)] by blast
    have "nx_os_send_nic_request mem no_env stack 0 0 ctx NX_NIC_H2C_OPCODE_CONFIG_L2_MAC [mac_request op m] 0 None a =
        Some (if rv \<noteq> 0 then NX_RCODE_CMD_FAILED else NX_RCODE_SUCCESS, a\<lparr>ad_tx := t\<rparr>)"
      by (simp add: nx_os_send_nic_request_def d t(1))
    then show ?thesis using t(2,3) by (auto simp: sends_def rcodes)
  qed
  show "sends UNM_MAC_ADD stack ctx m a (nx_os_pf_add_l2_mac mem stack ctx m a)"
    "sends UNM_MAC_DEL stack ctx m a (nx_os_pf_remove_l2_mac mem stack ctx m a)"
    using s assms(1) by (simp_all add: nx_os_pf_add_l2_mac_def nx_os_pf_remove_l2_mac_def)
qed

fun mac_descs :: "u64 \<Rightarrow> (nat \<Rightarrow> cmd_desc) \<Rightarrow> u32 \<Rightarrow> nat \<Rightarrow> mac list \<Rightarrow> cmd_desc list" where
  "mac_descs op stk c n [] = []"
| "mac_descs op stk c n (m # ms) = mac_desc (stk n) c op m # mac_descs op stk c (n + 1) ms"

lemma length_mac_descs [simp]: "length (mac_descs op stk c n ms) = length ms"
  by (induction ms arbitrary: n) auto

lemma apply_mac_descs:
  "\<forall>m \<in> set ms. length m = 6 \<Longrightarrow> fold apply_request (mac_descs UNM_MAC_DEL stk c n ms) F = F - set ms"
  "\<forall>m \<in> set ms. length m = 6 \<Longrightarrow> fold apply_request (mac_descs UNM_MAC_ADD stk c n ms) F = F \<union> set ms"
  by (induction ms arbitrary: n F) (auto simp: apply_mac_desc)

text \<open>A device ready for requests.\<close>

definition ready :: "u32 \<Rightarrow> nic_adapter \<Rightarrow> bool" where
  "ready c a \<longleftrightarrow> validate_dev_for_cmd (nx_dev a) = NX_RCODE_SUCCESS \<and> rx0_context a = Some c \<and> ring_inv (ad_tx a)"

lemma ready_ad_tx: "ready c a \<Longrightarrow> ring_inv t \<Longrightarrow> ready c (a\<lparr>ad_tx := t\<rparr>)"
  by (simp add: ready_def rx0_context_def cong: option.case_cong)

lemma send_removes_spec:
  assumes "ready c a" "\<forall>n. pend_mem_ok (mem n)"
  shows "\<exists>t cs. send_removes mem stk n ms a = Some (a\<lparr>ad_tx := t\<rparr>) \<and> ring_inv t \<and>
    tx_stream t = tx_stream (ad_tx a) @ cs \<and> subseq cs (mac_descs UNM_MAC_DEL stk c n ms)"
  using assms(1)
proof (induction ms arbitrary: n a)
  case Nil
  then show ?case by (auto simp: ready_def intro!: exI [of _ "ad_tx a"])
next
  case (Cons m ms)
  have r: "validate_dev_for_cmd (nx_dev a) = NX_RCODE_SUCCESS" "rx0_context a = Some c" "ring_inv (ad_tx a)"
    using Cons.prems by (auto simp: ready_def)
  obtain rc t where t: "nx_os_pf_remove_l2_mac (mem n) (stk n) c m a = Some (rc, a\<lparr>ad_tx := t\<rparr>)" "ring_inv t"
    "rc = 0 \<and> tx_stream t = tx_stream (ad_tx a) @ [mac_desc (stk n) c UNM_MAC_DEL m] \<or> rc \<noteq> 0 \<and> tx_stream t = tx_stream (ad_tx a)"
    using pf_sends(2) [OF r(1,3), of "mem n" "stk n" c m] assms(2) unfolding sends_def by blast
  obtain u cs where u: "send_removes mem stk (n + 1) ms (a\<lparr>ad_tx := t\<rparr>) = Some (a\<lparr>ad_tx := u\<rparr>)" "ring_inv u"
    "tx_stream u = tx_stream t @ cs" "subseq cs (mac_descs UNM_MAC_DEL stk c (n + 1) ms)"
    using Cons.IH [OF ready_ad_tx [OF Cons.prems t(2)], of "n + 1"] by auto
  have "send_removes mem stk n (m # ms) a = Some (a\<lparr>ad_tx := u\<rparr>)"
    using u(1) by (simp add: on_rx0_def r(2) t(1))
  moreover from t(3) have "\<exists>cs. tx_stream u = tx_stream (ad_tx a) @ cs \<and> subseq cs (mac_descs UNM_MAC_DEL stk c n (m # ms))"
  proof (elim disjE conjE)
    assume "tx_stream t = tx_stream (ad_tx a) @ [mac_desc (stk n) c UNM_MAC_DEL m]"
    then show ?thesis using u(3,4) by (intro exI [of _ "mac_desc (stk n) c UNM_MAC_DEL m # cs"]) simp
  next
    assume "tx_stream t = tx_stream (ad_tx a)"
    then show ?thesis using u(3,4) by (intro exI [of _ cs]) (simp add: list_emb_Cons)
  qed
  ultimately show ?case using u(2) by blast
qed

lemma send_adds_spec:
  assumes "ready c a" "\<forall>n. pend_mem_ok (mem n)"
  shows "\<exists>t cs. send_adds mem stk n ms a l = Some (a\<lparr>ad_tx := t\<rparr>, rev ms @ l) \<and> ring_inv t \<and>
    tx_stream t = tx_stream (ad_tx a) @ cs \<and> subseq cs (mac_descs UNM_MAC_ADD stk c n ms)"
  using assms(1)
proof (induction ms arbitrary: n a l)
  case Nil
  then show ?case by (auto simp: ready_def intro!: exI [of _ "ad_tx a"])
next
  case (Cons m ms)
  have r: "validate_dev_for_cmd (nx_dev a) = NX_RCODE_SUCCESS" "rx0_context a = Some c" "ring_inv (ad_tx a)"
    using Cons.prems by (auto simp: ready_def)
  obtain rc t where t: "nx_os_pf_add_l2_mac (mem n) (stk n) c m a = Some (rc, a\<lparr>ad_tx := t\<rparr>)" "ring_inv t"
    "rc = 0 \<and> tx_stream t = tx_stream (ad_tx a) @ [mac_desc (stk n) c UNM_MAC_ADD m] \<or> rc \<noteq> 0 \<and> tx_stream t = tx_stream (ad_tx a)"
    using pf_sends(1) [OF r(1,3), of "mem n" "stk n" c m] assms(2) unfolding sends_def by blast
  obtain u cs where u: "send_adds mem stk (n + 1) ms (a\<lparr>ad_tx := t\<rparr>) (m # l) = Some (a\<lparr>ad_tx := u\<rparr>, rev ms @ m # l)"
    "ring_inv u" "tx_stream u = tx_stream t @ cs" "subseq cs (mac_descs UNM_MAC_ADD stk c (n + 1) ms)"
    using Cons.IH [OF ready_ad_tx [OF Cons.prems t(2)], of "n + 1" "m # l"] by auto
  have "send_adds mem stk n (m # ms) a l = Some (a\<lparr>ad_tx := u\<rparr>, rev ms @ m # l)"
    using u(1) by (simp add: on_rx0_def r(2) t(1))
  moreover from t(3) have "\<exists>cs. tx_stream u = tx_stream (ad_tx a) @ cs \<and> subseq cs (mac_descs UNM_MAC_ADD stk c n (m # ms))"
  proof (elim disjE conjE)
    assume "tx_stream t = tx_stream (ad_tx a) @ [mac_desc (stk n) c UNM_MAC_ADD m]"
    then show ?thesis using u(3,4) by (intro exI [of _ "mac_desc (stk n) c UNM_MAC_ADD m # cs"]) simp
  next
    assume "tx_stream t = tx_stream (ad_tx a)"
    then show ?thesis using u(3,4) by (intro exI [of _ cs]) (simp add: list_emb_Cons)
  qed
  ultimately show ?case using u(2) by auto
qed

lemma vport_sends:
  assumes "ready c a" "pend_mem_ok mem"
  shows "\<exists>t cs. snd (nx_p3_set_vport_miss_mode mem stack mode a) = a\<lparr>ad_tx := t\<rparr> \<and> ring_inv t \<and>
    tx_stream t = tx_stream (ad_tx a) @ cs \<and> subseq cs [vport_miss_request stack (portnum a) mode]"
proof -
  have "ring_inv (ad_tx a)" using assms(1) by (simp add: ready_def)
  from send_descs_cases [OF this assms(2), of "[vport_miss_request stack (portnum a) mode]"]
  obtain rv t where t: "nx_os_send_cmd_descs mem [vport_miss_request stack (portnum a) mode] a = (rv, a\<lparr>ad_tx := t\<rparr>)"
    "ring_inv t" "\<exists>cs. tx_stream t = tx_stream (ad_tx a) @ cs \<and> subseq cs [vport_miss_request stack (portnum a) mode]"
    by (auto intro: exI [of _ "[]"])
  then show ?thesis by (auto simp: nx_p3_set_vport_miss_mode_def send_one_def)
qed

definition lists_after :: "mac list \<Rightarrow> mac list \<Rightarrow> mac_lists" where
  "lists_after ws old = add_macs (\<lambda>_. True) ws \<lparr>m_list = [], m_add = [], m_del = old, kcalls = 0\<rparr>"

lemma all_allocate: "\<forall>n. ok n \<Longrightarrow> add_macs ok ws \<lparr>m_list = [], m_add = [], m_del = old, kcalls = 0\<rparr> = lists_after ws old"
proof -
  assume "\<forall>n. ok n"
  then have "ok = (\<lambda>_. True)" by auto
  then show ?thesis by (simp add: lists_after_def)
qed

lemma lists_after_counts:
  "count (mset (m_del (lists_after ws old))) m = count (mset old) m - count (mset ws) m"
  "count (mset (m_list (lists_after ws old))) m = min (count (mset old) m) (count (mset ws) m)"
  "count (mset (m_add (lists_after ws old))) m = (if m \<in> set old then 0 else count (mset ws) m)"
  using add_macs_counts [of "\<lambda>_. True" ws "\<lparr>m_list = [], m_add = [], m_del = old, kcalls = 0\<rparr>" m]
  by (simp_all add: lists_after_def)

text \<open>The requests of one call, in order, if all are accepted.\<close>

definition all_requests :: "(nat \<Rightarrow> cmd_desc) \<Rightarrow> u32 \<Rightarrow> u16 \<Rightarrow> mac list \<Rightarrow> int \<Rightarrow> mac list \<Rightarrow> cmd_desc list" where
  "all_requests stk c port ws mode old =
     vport_miss_request (stk 0) port mode # mac_descs UNM_MAC_DEL stk c 1 (m_del (lists_after ws old)) @
     mac_descs UNM_MAC_ADD stk c (1 + length (m_del (lists_after ws old))) (m_add (lists_after ws old))"

lemma set_multi_spec:
  assumes "ready c (pnic a)" "\<forall>n. pend_mem_ok (mem n)" "\<forall>n. ok n" "wanted dev a = (ws, mode)"
  shows "\<exists>a' cs. nx_nic_p3_set_multi ok mem stk dev a = Some a' \<and> ready c (pnic a') \<and>
    p3_list a' = rev (m_add (lists_after ws (p3_list a))) @ m_list (lists_after ws (p3_list a)) \<and>
    own_mac a' = own_mac a \<and> max_mc_count a' = max_mc_count a \<and>
    tx_stream (ad_tx (pnic a')) = tx_stream (ad_tx (pnic a)) @ cs \<and>
    subseq cs (all_requests stk c (portnum (pnic a)) ws mode (p3_list a))"
proof -
  let ?s = "lists_after ws (p3_list a)" and ?n = "pnic a"
  obtain t1 c1 where v: "snd (nx_p3_set_vport_miss_mode (mem 0) (stk 0) mode ?n) = ?n\<lparr>ad_tx := t1\<rparr>" "ring_inv t1"
    "tx_stream t1 = tx_stream (ad_tx ?n) @ c1" "subseq c1 [vport_miss_request (stk 0) (portnum ?n) mode]"
    using vport_sends [OF assms(1), of "mem 0" "stk 0" mode] assms(2) by blast
  have r1: "ready c (?n\<lparr>ad_tx := t1\<rparr>)" by (rule ready_ad_tx [OF assms(1) v(2)])
  obtain t2 c2 where d: "send_removes mem stk 1 (m_del ?s) (?n\<lparr>ad_tx := t1\<rparr>) = Some (?n\<lparr>ad_tx := t2\<rparr>)" "ring_inv t2"
    "tx_stream t2 = tx_stream t1 @ c2" "subseq c2 (mac_descs UNM_MAC_DEL stk c 1 (m_del ?s))"
    using send_removes_spec [OF r1 assms(2), of stk 1 "m_del ?s"] by auto
  have r2: "ready c (?n\<lparr>ad_tx := t2\<rparr>)" by (rule ready_ad_tx [OF assms(1) d(2)])
  obtain t3 c3 where e: "send_adds mem stk (1 + length (m_del ?s)) (m_add ?s) (?n\<lparr>ad_tx := t2\<rparr>) (m_list ?s) =
      Some (?n\<lparr>ad_tx := t3\<rparr>, rev (m_add ?s) @ m_list ?s)" "ring_inv t3"
    "tx_stream t3 = tx_stream t2 @ c3" "subseq c3 (mac_descs UNM_MAC_ADD stk c (1 + length (m_del ?s)) (m_add ?s))"
    using send_adds_spec [OF r2 assms(2), of stk "1 + length (m_del ?s)" "m_add ?s" "m_list ?s"] by auto
  let ?a = "a\<lparr>pnic := ?n\<lparr>ad_tx := t3\<rparr>, p3_list := rev (m_add ?s) @ m_list ?s,
      p3_promisc := nd_flags dev AND (IFF_PROMISC OR IFF_ALLMULTI)\<rparr>"
  have "nx_nic_p3_set_multi ok mem stk dev a = Some ?a"
    unfolding nx_nic_p3_set_multi_def assms(4) prod.case all_allocate [OF assms(3)] Let_def v(1) d(1) e(1) option.case ..
  moreover have "subseq (c1 @ c2 @ c3) ([vport_miss_request (stk 0) (portnum ?n) mode] @
      mac_descs UNM_MAC_DEL stk c 1 (m_del ?s) @ mac_descs UNM_MAC_ADD stk c (1 + length (m_del ?s)) (m_add ?s))"
    by (intro list_emb_append_mono v(4) d(4) e(4))
  then have "subseq (c1 @ c2 @ c3) (all_requests stk c (portnum ?n) ws mode (p3_list a))"
    by (simp add: all_requests_def)
  moreover have "ready c (pnic ?a)" using ready_ad_tx [OF assms(1) e(2)] by simp
  moreover have "tx_stream (ad_tx (pnic ?a)) = tx_stream (ad_tx ?n) @ c1 @ c2 @ c3" using v(3) d(3) e(3) by simp
  ultimately show ?thesis by (intro exI [of _ ?a] exI [of _ "c1 @ c2 @ c3"]) simp
qed

lemma set_count: "x \<in> set xs \<longleftrightarrow> 0 < count (mset xs) x"
  by simp

lemma lists_after_sets:
  "set (m_add (lists_after ws old)) = set ws - set old"
  "set (m_list (lists_after ws old)) = set ws \<inter> set old"
  "set (m_del (lists_after ws old)) = {m. count (mset ws) m < count (mset old) m}"
  unfolding set_eq_iff by (simp_all only: set_count lists_after_counts Int_iff Diff_iff mem_Collect_eq) auto

lemma all_requests_effect:
  assumes "\<forall>m \<in> set old \<union> set ws. length m = 6"
  shows "fold apply_request (all_requests stk c port ws mode old) F =
    F - {m. count (mset ws) m < count (mset old) m} \<union> (set ws - set old)"
proof -
  have "\<forall>m \<in> set (m_del (lists_after ws old)). length m = 6"
    using assms unfolding lists_after_sets by (metis (mono_tags, lifting) UnI1 gr_implies_not0 mem_Collect_eq not_gr_zero set_count)
  moreover have "\<forall>m \<in> set (m_add (lists_after ws old)). length m = 6"
    using assms unfolding lists_after_sets by blast
  ultimately show ?thesis
    by (simp add: all_requests_def apply_vport apply_mac_descs) (simp add: lists_after_sets)
qed

text \<open>The addresses removed: each listed one that is not wanted, once, if the list has no duplicates; and those added: each wanted one that is
  not listed, as often as it is wanted.\<close>

lemma lists_after_requests:
  assumes "distinct old"
  shows "distinct (m_del (lists_after ws old))" "set (m_del (lists_after ws old)) = set old - set ws"
    "mset (m_add (lists_after ws old)) = mset (filter (\<lambda>w. w \<notin> set old) ws)"
proof -
  have c: "count (mset old) m \<le> 1" for m using assms by (simp add: distinct_count_atmost_1)
  have "count (mset (m_del (lists_after ws old))) m \<le> 1" for m
    unfolding lists_after_counts using c [of m] by linarith
  then show "distinct (m_del (lists_after ws old))"
    by (simp add: distinct_count_atmost_1) (metis One_nat_def count_eq_zero_iff le_Suc_eq le_zero_eq set_mset_mset)
  show "set (m_del (lists_after ws old)) = set old - set ws"
    unfolding lists_after_sets set_eq_iff Diff_iff set_count using c by (metis (mono_tags, lifting) mem_Collect_eq le_zero_eq less_one linorder_not_less order_less_le_trans)
  show "mset (m_add (lists_after ws old)) = mset (filter (\<lambda>w. w \<notin> set old) ws)"
    by (rule multiset_eqI) (simp add: lists_after_counts)
qed

text \<open>What is wanted: the own address and the broadcast address always, and the multicast addresses of the device unless it is
  promiscuous, accepts all multicast, or has more of them than the card can filter.\<close>

lemma wanted_addresses:
  assumes "wanted dev a = (ws, mode)"
  shows "own_mac a \<in> set ws" "replicate 6 0xff \<in> set ws"
    "nd_flags dev AND IFF_PROMISC = 0 \<Longrightarrow> nd_flags dev AND IFF_ALLMULTI = 0 \<Longrightarrow> 0 < mc_count dev \<Longrightarrow> mc_count dev \<le> max_mc_count a \<Longrightarrow>
      set ws = {own_mac a, replicate 6 0xff} \<union> set (mc_list dev)"
  using assms by (auto simp: wanted_def bcast_addr_def numeral_eq_Suc Let_def split: if_splits)

text \<open>
  C18 Setting the address filter (\<open>nx_nic_p3_set_multi\<close>) on a device ready for requests, when no allocation fails, starting
  from a list without duplicates, all addresses having six bytes. The list then holds exactly the wanted addresses, whatever became
  of the requests; these are the own address, the broadcast address, and the multicast addresses of the device if it is
  neither promiscuous nor accepts all multicast nor has too many of them. The requests queued, some of which may have been
  refused, are in this order: the mode; one removal of each listed address that is not wanted; and one addition for each time an
  address that is not listed is wanted, so an address wanted twice is requested (and listed) twice. If none was
  refused, the card, whose set was the old list, has exactly the wanted set.
\<close>

theorem p3_filter_synchronised:
  assumes "ready c (pnic a)" "\<forall>n. pend_mem_ok (mem n)" "\<forall>n. ok n" "wanted dev a = (ws, mode)"
    "distinct (p3_list a)" "\<forall>m \<in> set (p3_list a) \<union> set ws. length m = 6"
  shows "\<exists>a' cs dels adds. nx_nic_p3_set_multi ok mem stk dev a = Some a' \<and> ready c (pnic a') \<and>
    set (p3_list a') = set ws \<and> (distinct ws \<longrightarrow> distinct (p3_list a')) \<and>
    {own_mac a, replicate 6 0xff} \<subseteq> set ws \<and>
    (nd_flags dev AND IFF_PROMISC = 0 \<and> nd_flags dev AND IFF_ALLMULTI = 0 \<and> 0 < mc_count dev \<and> mc_count dev \<le> max_mc_count a \<longrightarrow>
       set ws = {own_mac a, replicate 6 0xff} \<union> set (mc_list dev)) \<and>
    tx_stream (ad_tx (pnic a')) = tx_stream (ad_tx (pnic a)) @ cs \<and>
    distinct dels \<and> set dels = set (p3_list a) - set ws \<and> mset adds = mset (filter (\<lambda>w. w \<notin> set (p3_list a)) ws) \<and>
    subseq cs (vport_miss_request (stk 0) (portnum (pnic a)) mode #
      mac_descs UNM_MAC_DEL stk c 1 dels @ mac_descs UNM_MAC_ADD stk c (1 + length dels) adds) \<and>
    (length cs = 1 + length dels + length adds \<longrightarrow> fold apply_request cs (set (p3_list a)) = set ws)"
proof -
  let ?old = "p3_list a" and ?all = "all_requests stk c (portnum (pnic a)) ws mode (p3_list a)"
  let ?s = "lists_after ws ?old"
  have c: "count (mset ?old) m \<le> 1" for m using assms(5) by (simp add: distinct_count_atmost_1)
  obtain a' cs where a': "nx_nic_p3_set_multi ok mem stk dev a = Some a'" "ready c (pnic a')"
    "p3_list a' = rev (m_add ?s) @ m_list ?s"
    "tx_stream (ad_tx (pnic a')) = tx_stream (ad_tx (pnic a)) @ cs" "subseq cs ?all"
    using set_multi_spec [OF assms(1-4)] by blast
  have s: "set (p3_list a') = set ws" by (auto simp: a'(3) lists_after_sets)
  have d: "distinct (p3_list a')" if "distinct ws"
  proof -
    have "count (mset ws) m \<le> 1" for m using that by (simp add: distinct_count_atmost_1)
    then have "count (mset (m_add ?s)) m \<le> 1" "count (mset (m_list ?s)) m \<le> 1" for m
      unfolding lists_after_counts using c by (auto simp: min_le_iff_disj)
    then have "distinct (m_add ?s)" "distinct (m_list ?s)"
      by (metis distinct_count_atmost_1 count_eq_zero_iff le_Suc_eq le_zero_eq set_mset_mset One_nat_def)+
    then show ?thesis by (auto simp: a'(3) lists_after_sets)
  qed
  have "{m. count (mset ws) m < count (mset ?old) m} = set ?old - set ws"
    using lists_after_requests(2) [OF assms(5)] by (simp add: lists_after_sets)
  then have "fold apply_request ?all (set ?old) = set ws"
    unfolding all_requests_effect [OF assms(6)] by auto
  moreover have "cs = ?all" if "length cs = 1 + length (m_del ?s) + length (m_add ?s)"
    using a'(5) by (rule subseq_same_length) (simp add: that all_requests_def)
  ultimately have f: "length cs = 1 + length (m_del ?s) + length (m_add ?s) \<longrightarrow> fold apply_request cs (set ?old) = set ws" by blast
  show ?thesis
    using a' s d f wanted_addresses [OF assms(4)] lists_after_requests [OF assms(5)]
    by (intro exI [of _ a'] exI [of _ cs] exI [of _ "m_del ?s"] exI [of _ "m_add ?s"])
      (simp add: all_requests_def del: replicate.simps replicate_numeral)
qed

text \<open>
  A duplicate in the list comes from wanting an address twice that was not listed, which the search of
  \<open>nx_nic_p3_add_mac\<close> does not notice because it skips the list of new entries. If an address is
  listed more often than it is wanted, the spare entry is removed on the card: the address stays
  in the list, but the card no longer accepts it.
\<close>

theorem duplicate_entry_removes_filter:
  assumes "ready c (pnic a)" "\<forall>n. pend_mem_ok (mem n)" "\<forall>n. ok n" "wanted dev a = (ws, mode)"
    "\<forall>m \<in> set (p3_list a) \<union> set ws. length m = 6"
  shows "\<exists>a' cs. nx_nic_p3_set_multi ok mem stk dev a = Some a' \<and>
    tx_stream (ad_tx (pnic a')) = tx_stream (ad_tx (pnic a)) @ cs \<and>
    (m \<notin> set (p3_list a) \<longrightarrow> count_list (p3_list a') m = count_list ws m) \<and>
    (m \<in> set ws \<and> count_list ws m < count_list (p3_list a) m \<and>
     length cs = length (all_requests stk c (portnum (pnic a)) ws mode (p3_list a)) \<longrightarrow>
       m \<in> set (p3_list a') \<and> m \<notin> fold apply_request cs F)"
proof -
  let ?old = "p3_list a" and ?all = "all_requests stk c (portnum (pnic a)) ws mode (p3_list a)"
  obtain a' cs where a': "nx_nic_p3_set_multi ok mem stk dev a = Some a'"
    "p3_list a' = rev (m_add (lists_after ws ?old)) @ m_list (lists_after ws ?old)"
    "tx_stream (ad_tx (pnic a')) = tx_stream (ad_tx (pnic a)) @ cs" "subseq cs ?all"
    using set_multi_spec [OF assms(1-4)] by blast
  have n: "count (mset (p3_list a')) m = count (mset ws) m" if "m \<notin> set ?old"
  proof -
    have "count (mset ?old) m = 0" using that by (simp add: count_mset_0_iff)
    then show ?thesis unfolding a'(2) mset_append plus_multiset.rep_eq mset_rev lists_after_counts by (simp only: that) simp
  qed
  have l: "m \<in> set (p3_list a')" if "m \<in> set ws" using that by (auto simp: a'(2) lists_after_sets)
  have "cs = ?all" if "length cs = length ?all" using a'(4) that by (rule subseq_same_length)
  moreover have "m \<notin> fold apply_request ?all F" if "m \<in> set ws" "count (mset ws) m < count (mset ?old) m"
  proof -
    have "m \<in> set ?old" using that(2) unfolding set_count by linarith
    then show ?thesis using that unfolding all_requests_effect [OF assms(5)] by auto
  qed
  ultimately show ?thesis
    using a'(1,3) n l by (intro exI [of _ a'] exI [of _ cs]) (auto simp: count_mset [symmetric])
qed

text \<open>A ready device.\<close>

definition ready_nic :: nic_adapter where
  "ready_nic = (sample_nic_adapter sample_adapter)\<lparr>nx_dev := sample_nic\<lparr>rx_ctxs := [Some 4, None],
     default_rx_ctx := Some 4, default_tx_ctx := Some 8, active_rx_ctxs := 1, active_tx_ctxs := 1,
     rx_heap := (\<lambda>_. None)(4 \<mapsto> sample_rx)\<rparr>\<rparr>"

definition sample_p3 :: "mac list \<Rightarrow> p3_adapter" where
  "sample_p3 l = \<lparr>pnic = ready_nic, p3_list = l, own_mac = [2, 0, 0, 0, 0, 1], max_mc_count = 38, p3_promisc = 0\<rparr>"

lemma sample_ready: "ready 0 (pnic (sample_p3 l))"
  by (simp add: ready_def validate_dev_for_cmd_def rx0_context_def sample_p3_def ready_nic_def sample_nic_adapter_def
      sample_nic_def sample_rx_def rcodes sample_inv)

lemma p3_filter_synchronised_witness:
  "\<exists>a'. nx_nic_p3_set_multi (\<lambda>_. True) (\<lambda>_. None) (\<lambda>_. zero_desc) \<lparr>nd_flags = 0, mc_count = 1, mc_list = [[1, 0, 0x5e, 0, 0, 1]]\<rparr>
      (sample_p3 [bcast_addr]) = Some a' \<and> set (p3_list a') = {[2, 0, 0, 0, 0, 1], bcast_addr, [1, 0, 0x5e, 0, 0, 1]}"
proof -
  let ?dev = "\<lparr>nd_flags = 0, mc_count = 1, mc_list = [[1, 0, 0x5e, 0, 0, 1]]\<rparr>"
  have w: "wanted ?dev (sample_p3 [bcast_addr]) =
      ([[2, 0, 0, 0, 0, 1], bcast_addr, [1, 0, 0x5e, 0, 0, 1]], VPORT_MISS_MODE_DROP)"
    by (simp add: wanted_def sample_p3_def)
  have "\<forall>n :: nat. pend_mem_ok ((\<lambda>_. None) n)" "\<forall>n :: nat. (\<lambda>_. True) n" by (simp_all add: pend_mem_ok_def)
  moreover have "distinct (p3_list (sample_p3 [bcast_addr]))"
    "\<forall>m \<in> set (p3_list (sample_p3 [bcast_addr])) \<union> set [[2, 0, 0, 0, 0, 1], bcast_addr, [1, 0, 0x5e, 0, 0, 1]]. length m = 6"
    by (simp_all add: sample_p3_def bcast_addr_def)
  ultimately have h: "\<forall>n :: nat. pend_mem_ok ((\<lambda>_. None) n)" "\<forall>n :: nat. (\<lambda>_. True) n" "distinct (p3_list (sample_p3 [bcast_addr]))"
    "\<forall>m \<in> set (p3_list (sample_p3 [bcast_addr])) \<union> set [[2, 0, 0, 0, 0, 1], bcast_addr, [1, 0, 0x5e, 0, 0, 1]]. length m = 6"
    by simp_all
  obtain a' where "nx_nic_p3_set_multi (\<lambda>_. True) (\<lambda>_. None) (\<lambda>_. zero_desc) ?dev (sample_p3 [bcast_addr]) = Some a'"
    "set (p3_list a') = set [[2, 0, 0, 0, 0, 1], bcast_addr, [1, 0, 0x5e, 0, 0, 1]]"
    using p3_filter_synchronised [OF sample_ready h(1,2) w h(3,4), of "\<lambda>_. zero_desc"] by (elim exE conjE) (rule that)
  then show ?thesis by auto
qed

lemma duplicate_entry_removes_filter_witness:
  "\<exists>a'. nx_nic_p3_set_multi (\<lambda>_. True) (\<lambda>_. None) (\<lambda>_. zero_desc) \<lparr>nd_flags = 0, mc_count = 1, mc_list = [bcast_addr]\<rparr>
      (sample_p3 []) = Some a' \<and> count_list (p3_list a') bcast_addr = 2"
proof -
  let ?dev = "\<lparr>nd_flags = 0, mc_count = 1, mc_list = [bcast_addr]\<rparr>"
  have w: "wanted ?dev (sample_p3 []) = ([[2, 0, 0, 0, 0, 1], bcast_addr, bcast_addr], VPORT_MISS_MODE_DROP)"
    by (simp add: wanted_def sample_p3_def)
  have "\<forall>n. pend_mem_ok None" "\<forall>n::nat. True" by (simp_all add: pend_mem_ok_def)
  moreover have "\<forall>m \<in> set (p3_list (sample_p3 [])) \<union> set [[2, 0, 0, 0, 0, 1], bcast_addr, bcast_addr]. length m = 6"
    by (simp add: sample_p3_def bcast_addr_def)
  ultimately obtain a' where a': "nx_nic_p3_set_multi (\<lambda>_. True) (\<lambda>_. None) (\<lambda>_. zero_desc) ?dev (sample_p3 []) = Some a'"
    "bcast_addr \<notin> set (p3_list (sample_p3 [])) \<longrightarrow>
       count_list (p3_list a') bcast_addr = count_list [[2, 0, 0, 0, 0, 1], bcast_addr, bcast_addr] bcast_addr"
    using duplicate_entry_removes_filter [OF sample_ready _ _ w, of "\<lambda>_. None" "\<lambda>_. True" "\<lambda>_. zero_desc" bcast_addr] by blast
  have "count_list [[2, 0, 0, 0, 0, 1], bcast_addr, bcast_addr] bcast_addr = 2"
    by (simp add: bcast_addr_def replicate_numeral)
  with a' show ?thesis by (simp add: sample_p3_def)
qed

subsection \<open>Rules are counted\<close>

lemma count_activate:
  assumes "r < length xs" "\<not> P (xs ! r)" "P x"
  shows "length (filter P (xs[r := x])) = Suc (length (filter P xs))"
proof -
  have "xs = take r xs @ xs ! r # drop (Suc r) xs" using assms(1) by (rule id_take_nth_drop)
  then have "length (filter P xs) = length (filter P (take r xs @ xs ! r # drop (Suc r) xs))" by simp
  with assms show ?thesis by (simp add: upd_conv_take_nth_drop)
qed

lemma count_deactivate:
  assumes "r < length xs" "P (xs ! r)" "\<not> P x"
  shows "Suc (length (filter P (xs[r := x]))) = length (filter P xs)"
proof -
  have "xs = take r xs @ xs ! r # drop (Suc r) xs" using assms(1) by (rule id_take_nth_drop)
  then have "length (filter P xs) = length (filter P (take r xs @ xs ! r # drop (Suc r) xs))" by simp
  with assms show ?thesis by (simp add: upd_conv_take_nth_drop)
qed

lemma count_same:
  assumes "r < length xs" "P (xs ! r) = P x"
  shows "length (filter P (xs[r := x])) = length (filter P xs)"
proof -
  have "xs = take r xs @ xs ! r # drop (Suc r) xs" using assms(1) by (rule id_take_nth_drop)
  then have "length (filter P xs) = length (filter P (take r xs @ xs ! r # drop (Suc r) xs))" by simp
  with assms show ?thesis by (simp add: upd_conv_take_nth_drop)
qed

text \<open>The rule array of context \<open>i\<close> has \<open>n\<close> entries and the counter says how many are active.\<close>

definition rule_inv :: "u16 \<Rightarrow> nat \<Rightarrow> rule_adapter \<Rightarrow> bool" where
  "rule_inv n i a \<longleftrightarrow> length (rules a i) = unat n \<and> unat (active_rx_rules a i) = length (filter rule_active (rules a i))"

lemma free_rule_spec: "free_rule rs = Some r \<Longrightarrow> r < length rs \<and> \<not> rule_active (rs ! r) \<and> (\<forall>j < r. rule_active (rs ! j))"
  unfolding free_rule_def find_Some_iff by (metis diff_zero length_upt less_trans nth_upt plus_nat.add_0)

lemma u16_inc: "unat (x :: u16) < unat (n :: u16) \<Longrightarrow> unat (x + 1) = unat x + 1"
proof -
  assume "unat x < unat n"
  moreover have "unat n < 2 ^ 16" using unsigned_less [of n, where ?'a = nat] by simp
  ultimately show ?thesis by (simp add: unat_word_ariths)
qed

lemma u16_dec: "0 < unat (x :: u16) \<Longrightarrow> Suc (unat (x - 1)) = unat x"
  by (metis Suc_pred' gr0_implies_Suc unat_eq_0 unat_minus_one unsigned_0 less_irrefl)

lemma set_rule_spec:
  assumes "nx_nic_multictx_set_rx_rule mem stack ctx_id addr a = Some (rv, a')"
    "ctx_of ctx_id (rnic a) = Some (Some c)" "rule_inv (num_rules c) (nat ctx_id) a"
  shows "rule_inv (num_rules c) (nat ctx_id) a' \<and> (\<forall>j. j \<noteq> nat ctx_id \<longrightarrow> rules a' j = rules a j \<and> active_rx_rules a' j = active_rx_rules a j) \<and>
    (rv = - 1 \<and> map rule_active (rules a' (nat ctx_id)) = map rule_active (rules a (nat ctx_id)) \<or>
     0 \<le> rv \<and> free_rule (rules a (nat ctx_id)) = Some (nat rv) \<and>
     rules a' (nat ctx_id) = (rules a (nat ctx_id))[nat rv := \<lparr>rule_id = nat rv, rule_active = True, rule_mac = addr\<rparr>])"
proof -
  let ?i = "nat ctx_id"
  consider (refused) "rv = - 1" "a' = a"
    | (sent) r b rc where "free_rule (rules a ?i) = Some r" "\<not> num_rules c \<le> active_rx_rules a ?i"
      "nx_os_pf_add_l2_mac mem stack (rx_context_id c) addr (rnic a) = Some (rc, b)"
      "rc = 0 \<and> rv = int r \<and> ?i < length (saved_rules a) \<and>
         a' = a\<lparr>rnic := b, rules := (rules a)(?i := (rules a ?i)[r := \<lparr>rule_id = r, rule_active = True, rule_mac = addr\<rparr>]),
                saved_rules := (saved_rules a)[?i := \<lparr>rule_id = r, rule_active = True, rule_mac = addr\<rparr>],
                active_rx_rules := (active_rx_rules a)(?i := active_rx_rules a ?i + 1)\<rparr> \<or>
       rc \<noteq> 0 \<and> rv = - 1 \<and> a' = a\<lparr>rnic := b, rules := (rules a)(?i := (rules a ?i)[r := (rules a ?i ! r)\<lparr>rule_id := r\<rparr>])\<rparr>"
  proof -
    have len: "r < length (rules a ?i)" if "free_rule (rules a ?i) = Some r" for r using free_rule_spec [OF that] by simp
    have full: "x\<lparr>rule_id := r, rule_active := True, rule_mac := m\<rparr> = \<lparr>rule_id = r, rule_active = True, rule_mac = m\<rparr>" for x :: rx_rule and r m
      by (cases x) simp
    show thesis
      using assms(1,2) refused sent
      by (auto simp: nx_nic_multictx_set_rx_rule_def Let_def len full split: if_splits option.splits prod.splits)
  qed
  then show ?thesis
  proof cases
    case refused
    then show ?thesis using assms(3) by simp
  next
    case sent
    have r: "r < length (rules a ?i)" "\<not> rule_active (rules a ?i ! r)" using free_rule_spec [OF sent(1)] by auto
    have lt: "unat (active_rx_rules a ?i) < unat (num_rules c)"
      using sent(2) by (simp add: word_le_nat_alt)
    from sent(4) show ?thesis
    proof (elim disjE conjE)
      assume "rc = 0" "rv = int r" and a': "a' = a\<lparr>rnic := b,
          rules := (rules a)(?i := (rules a ?i)[r := \<lparr>rule_id = r, rule_active = True, rule_mac = addr\<rparr>]),
          saved_rules := (saved_rules a)[?i := \<lparr>rule_id = r, rule_active = True, rule_mac = addr\<rparr>],
          active_rx_rules := (active_rx_rules a)(?i := active_rx_rules a ?i + 1)\<rparr>"
      then show ?thesis
        using assms(3) r sent(1) u16_inc [OF lt] by (simp add: rule_inv_def count_activate)
    next
      assume "rc \<noteq> 0" "rv = - 1" and a': "a' = a\<lparr>rnic := b, rules := (rules a)(?i := (rules a ?i)[r := (rules a ?i ! r)\<lparr>rule_id := r\<rparr>])\<rparr>"
      moreover have "(map rule_active (rules a ?i))[r := rule_active (rules a ?i ! r)] = map rule_active (rules a ?i)"
        using r(1) by (metis list_update_id map_update)
      ultimately show ?thesis
        using assms(3) r by (simp add: rule_inv_def count_same map_update)
    qed
  qed
qed

lemma remove_rule_spec:
  assumes "nx_nic_multictx_remove_rx_rule mem stack ctx_id rid a = Some (rv, a')"
    "ctx_of ctx_id (rnic a) = Some (Some c)" "rule_inv (num_rules c) (nat ctx_id) a"
  shows "rule_inv (num_rules c) (nat ctx_id) a' \<and> (\<forall>j. j \<noteq> nat ctx_id \<longrightarrow> rules a' j = rules a j \<and> active_rx_rules a' j = active_rx_rules a j) \<and>
    (rv = - 1 \<and> rules a' = rules a \<or>
     rv = 0 \<and> rule_active (rules a (nat ctx_id) ! nat rid) \<and>
     rules a' (nat ctx_id) = (rules a (nat ctx_id))[nat rid := (rules a (nat ctx_id) ! nat rid)\<lparr>rule_active := False\<rparr>])"
proof -
  let ?i = "nat ctx_id" and ?r = "nat rid"
  consider (refused) b where "rv = - 1" "a' = a\<lparr>rnic := b\<rparr>"
    | (removed) b where "rv = 0" "?r < length (rules a ?i)" "rule_active (rules a ?i ! ?r)"
      "a' = a\<lparr>rnic := b, rules := (rules a)(?i := (rules a ?i)[?r := (rules a ?i ! ?r)\<lparr>rule_active := False\<rparr>]),
              active_rx_rules := (active_rx_rules a)(?i := active_rx_rules a ?i - 1)\<rparr>"
  proof -
    let ?d = "(rv = - 1 \<and> a' = a) \<or>
      (\<exists>b. rv = - 1 \<and> a' = a\<lparr>rnic := b\<rparr>) \<or>
      (\<exists>b. rv = 0 \<and> ?r < length (rules a ?i) \<and> rule_active (rules a ?i ! ?r) \<and>
         a' = a\<lparr>rnic := b, rules := (rules a)(?i := (rules a ?i)[?r := (rules a ?i ! ?r)\<lparr>rule_active := False\<rparr>]),
              active_rx_rules := (active_rx_rules a)(?i := active_rx_rules a ?i - 1)\<rparr>)"
    have ?d
      using assms(1,2) by (simp add: nx_nic_multictx_remove_rx_rule_def Let_def split: if_splits option.splits prod.splits) auto
    moreover have "rv = - 1 \<Longrightarrow> a' = a \<Longrightarrow> thesis" using refused [of "rnic a"] by simp
    ultimately show thesis using refused removed by blast
  qed
  then show ?thesis
  proof cases
    case refused
    then show ?thesis using assms(3) by (simp add: rule_inv_def)
  next
    case removed
    have dec: "Suc (length (filter rule_active ((rules a ?i)[?r := (rules a ?i ! ?r)\<lparr>rule_active := False\<rparr>]))) =
        length (filter rule_active (rules a ?i))"
      by (rule count_deactivate) (use removed in auto)
    then have "0 < unat (active_rx_rules a ?i)" using assms(3) unfolding rule_inv_def by (metis zero_less_Suc)
    from u16_dec [OF this] show ?thesis using removed assms(3) dec by (simp add: rule_inv_def)
  qed
qed

inductive rule_step :: "int \<Rightarrow> rx_ctx \<Rightarrow> rule_adapter \<Rightarrow> rule_adapter \<Rightarrow> bool" for ctx_id :: int and c :: rx_ctx where
  rule_set: "ctx_of ctx_id (rnic a) = Some (Some c) \<Longrightarrow>
    nx_nic_multictx_set_rx_rule mem stack ctx_id addr a = Some (rv, a') \<Longrightarrow> rule_step ctx_id c a a'"
| rule_removed: "ctx_of ctx_id (rnic a) = Some (Some c) \<Longrightarrow>
    nx_nic_multictx_remove_rx_rule mem stack ctx_id rid a = Some (rv, a') \<Longrightarrow> rule_step ctx_id c a a'"

lemma rule_steps_inv:
  "(rule_step ctx_id c)\<^sup>*\<^sup>* a b \<Longrightarrow> rule_inv (num_rules c) (nat ctx_id) a \<Longrightarrow> rule_inv (num_rules c) (nat ctx_id) b"
proof (induction rule: rtranclp_induct)
  case base
  then show ?case .
next
  case (step y z)
  from step.hyps(2) show ?case
  proof cases
    case (rule_set mem stack addr rv)
    then show ?thesis using set_rule_spec step.IH [OF step.prems] by blast
  next
    case (rule_removed mem stack rid rv)
    then show ?thesis using remove_rule_spec step.IH [OF step.prems] by blast
  qed
qed

text \<open>
  Filter rules of a context: after any sequence of rules set and removed, accepted or refused, the
  counter of active rules is their number. A rule set next goes into the first free entry and
  displaces no active rule; when all are active it is refused with nothing sent or changed.
\<close>

theorem rules_counted:
  assumes "(rule_step ctx_id c)\<^sup>*\<^sup>* a0 a" "rule_inv (num_rules c) (nat ctx_id) a0"
    "ctx_of ctx_id (rnic a) = Some (Some c)"
  shows "unat (active_rx_rules a (nat ctx_id)) = length (filter rule_active (rules a (nat ctx_id))) \<and>
    (case nx_nic_multictx_set_rx_rule mem stack ctx_id addr a of
       None \<Rightarrow> True
     | Some (rv, a') \<Rightarrow>
         if length (filter rule_active (rules a (nat ctx_id))) = unat (num_rules c) then rv = - 1 \<and> a' = a
         else rv = - 1 \<and> map rule_active (rules a' (nat ctx_id)) = map rule_active (rules a (nat ctx_id)) \<or>
           free_rule (rules a (nat ctx_id)) = Some (nat rv) \<and>
           rules a' (nat ctx_id) = (rules a (nat ctx_id))[nat rv := \<lparr>rule_id = nat rv, rule_active = True, rule_mac = addr\<rparr>])"
proof -
  have inv: "rule_inv (num_rules c) (nat ctx_id) a" by (rule rule_steps_inv [OF assms(1,2)])
  have full: "rv = - 1 \<and> a' = a"
    if "nx_nic_multictx_set_rx_rule mem stack ctx_id addr a = Some (rv, a')"
      "length (filter rule_active (rules a (nat ctx_id))) = unat (num_rules c)" for rv a'
  proof -
    have "active_rx_rules a (nat ctx_id) = num_rules c" using inv that(2) by (simp add: rule_inv_def word_unat_eq_iff)
    then show ?thesis using that(1) assms(3)
      by (auto simp: nx_nic_multictx_set_rx_rule_def split: if_splits)
  qed
  have count: "unat (active_rx_rules a (nat ctx_id)) = length (filter rule_active (rules a (nat ctx_id)))"
    using inv by (simp add: rule_inv_def)
  show ?thesis
  proof (cases "nx_nic_multictx_set_rx_rule mem stack ctx_id addr a")
    case None
    then show ?thesis by (simp add: count)
  next
    case (Some p)
    then obtain rv a' where p: "nx_nic_multictx_set_rx_rule mem stack ctx_id addr a = Some (rv, a')" by (cases p) simp
    from full [OF this] set_rule_spec [OF this assms(3) inv] show ?thesis
      unfolding p count option.case prod.case by metis
  qed
qed

definition sample_rules :: rule_adapter where
  "sample_rules = \<lparr>rnic = ready_nic, rules = \<lambda>_. [\<lparr>rule_id = 0, rule_active = False, rule_mac = []\<rparr>],
     active_rx_rules = \<lambda>_. 0, saved_rules = [\<lparr>rule_id = 0, rule_active = False, rule_mac = []\<rparr>]\<rparr>"

lemma rules_counted_witness:
  "unat (active_rx_rules sample_rules 0) = 0 \<and>
   (case nx_nic_multictx_set_rx_rule None zero_desc 0 [2, 0, 0, 0, 0, 9] sample_rules of
      None \<Rightarrow> True
    | Some (rv, a') \<Rightarrow> rv = - 1 \<or> nat rv = 0)"
proof -
  have i: "rule_inv (num_rules sample_rx) (nat 0) sample_rules"
    by (simp add: rule_inv_def sample_rules_def sample_rx_def)
  have c: "ctx_of 0 (rnic sample_rules) = Some (Some sample_rx)"
    by (simp add: ctx_of_def sample_rules_def ready_nic_def sample_nic_adapter_def sample_nic_def)
  have f: "free_rule (rules sample_rules (nat 0)) = Some 0" by (simp add: free_rule_def sample_rules_def)
  show ?thesis
    using rules_counted [OF rtranclp.rtrancl_refl i c, where mem = None and stack = zero_desc and addr = "[2, 0, 0, 0, 0, 9]"] f
    by (auto simp: sample_rules_def split: option.splits prod.splits if_splits)
qed

end
