(* ===== verification/RxBuf.thy ===== *)
theory RxBuf
  imports TxRing "HOL-Library.Multiset"
begin

text \<open>
  Receive buffers, \<open>driver/unm_nic_main.c\<close>: each receive descriptor ring has an array of buffers
  that travel between the card, the free lists of the status rings and the ring's own free list
  (\<open>initialize_adapter_sw\<close>, \<open>nx_alloc_rx_skb\<close>, \<open>process_rxbuffer\<close>, \<open>nx_post_rx_descriptors\<close>,
  \<open>nx_post_freed_rxbufs\<close>, \<open>unm_post_rx_buffers\<close>, \<open>nx_free_rx_resources\<close>). Buffers are named by their
  index in the array; lists of buffers are lists of indices. There is one receive context.
\<close>

subsection \<open>Data\<close>

text \<open>\<open>struct unm_rx_buffer\<close>; the \<open>lro_\<close> fields are only ever cleared.\<close>

record rx_buffer =
  b_skb :: "nat option"
  b_dma :: u64
  b_ref :: u16
  b_busy :: bool

record rcv_desc =
  rd_ref :: u16
  rd_flags :: u16
  rd_len :: u32
  rd_addr :: u64

text \<open>A ring: \<open>nx_host_rds_ring_t\<close> and \<open>rds_host_ring_t\<close>. \<open>rh_free_count\<close> is the separate count of the list
  \<open>rh_free\<close>; \<open>rh_reg\<close> lists the values written to the producer register.\<close>

record rds_host =
  rh_descs :: "rcv_desc list"
  rh_size :: u32
  rh_buff_size :: u32
  rh_dma_size :: u32
  rh_producer :: nat
  rh_buf_arr :: "rx_buffer list"
  rh_failures :: int
  rh_posting :: bool
  rh_free :: "nat list"
  rh_free_count :: u32
  rh_reg :: "u32 list"
  rh_no_rcv :: u64
  rh_rxbytes :: u64
  rh_badskb :: u64

text \<open>A status ring: descriptors (two words each), consumer, and a free list with its count for each receive ring.\<close>

record sds_host =
  sh_descs :: "(u64 \<times> u64) list"
  sh_consumer :: u32
  sh_free :: "nat list list"
  sh_free_count :: "u32 list"
  sh_count :: u64
  sh_polled :: u64
  sh_reg :: "u32 list"

text \<open>What happens to socket buffers: unmapped; given to the stack, with the length put, the bytes pulled, and whether
  the checksum is taken as verified (\<open>Lro_stack\<close> with the descriptor its headers are adjusted by, \<open>Lro_chain\<close> with the
  buffers chained behind it); freed; offered to a callback; examined for a new LRO flow. Also the messages handed to
  the handlers, and the halt on a missing buffer.\<close>

datatype rx_event =
    Unmap u64
  | Stack nat u32 u32 bool
  | Lro_stack nat u32 u32 "u64 \<times> u64"
  | Lro_chain nat u32 u32 "(nat \<times> u32 \<times> u32) list"
  | Kfree nat
  | Callback u64 nat
  | Lro_inspect nat u32 u32
  | Message u64 "u64 list"
  | Halt

record rx_adapter =
  ra_rds :: "rds_host list"
  ra_sds :: "sds_host list"
  ra_allocs :: nat
  ra_events :: "rx_event list"
  ra_rx_csum :: bool
  ra_running :: bool
  ra_badskb :: u64
  ra_csummed :: u64
  ra_fail_imm :: u64
  ra_fail_def :: u64
  ra_no_rcv :: u64
  ra_rxbytes :: u64
  ra_uphappy :: u64
  ra_lro_enabled :: bool
  ra_lro_contiguous :: u64
  ra_lro_bufsize :: "u64 list"
  ra_lro_chained :: u64
  ra_lro_accum :: "u64 list"
  ra_crunch :: u64
  ra_max_rx_desc :: u32

definition RX_POST_THRES :: u32 where "RX_POST_THRES = 4"
definition STATUS_CKSUM_OK :: u64 where "STATUS_CKSUM_OK = 2"
definition ENOMEM :: int where "ENOMEM = 12"

definition emit :: "rx_event \<Rightarrow> rx_adapter \<Rightarrow> rx_adapter" where
  "emit e a = a\<lparr>ra_events := ra_events a @ [e]\<rparr>"

definition set_rds :: "nat \<Rightarrow> rds_host \<Rightarrow> rx_adapter \<Rightarrow> rx_adapter" where
  "set_rds r h a = a\<lparr>ra_rds := (ra_rds a)[r := h]\<rparr>"

definition set_sds :: "nat \<Rightarrow> sds_host \<Rightarrow> rx_adapter \<Rightarrow> rx_adapter" where
  "set_sds k s a = a\<lparr>ra_sds := (ra_sds a)[k := s]\<rparr>"

subsection \<open>Allocation\<close>

text \<open>
  \<open>al n\<close> is the outcome of the \<open>n\<close>-th allocation: the bus address of the mapped data, or \<^const>\<open>None\<close> when there is
  no memory or the mapping fails, in which case nothing is kept. The socket buffer is named \<open>n\<close>.
\<close>

definition nx_alloc_rx_skb :: "(nat \<Rightarrow> u64 option) \<Rightarrow> nat \<Rightarrow> nat \<Rightarrow> rds_host \<Rightarrow> int \<times> rds_host" where
  "nx_alloc_rx_skb al n i h =
     (case al n of
        None \<Rightarrow> (- ENOMEM, h)
      | Some d \<Rightarrow> (0, h\<lparr>rh_buf_arr := (rh_buf_arr h)[i := (rh_buf_arr h ! i)\<lparr>b_skb := Some n, b_busy := True, b_dma := d\<rparr>]\<rparr>))"

text \<open>Set-up of one ring: every buffer numbered, without memory, on the free list. The count is added to.\<close>

definition init_rds :: "rds_host \<Rightarrow> rds_host" where
  "init_rds h =
     h\<lparr>rh_producer := 0, rh_failures := 0,
       rh_buf_arr := map (\<lambda>i. (rh_buf_arr h ! i)\<lparr>b_ref := of_nat i, b_busy := False, b_skb := None\<rparr>) [0..<unat (rh_size h)]
                     @ drop (unat (rh_size h)) (rh_buf_arr h),
       rh_free := [0..<unat (rh_size h)],
       rh_free_count := rh_free_count h + rh_size h\<rparr>"

definition initialize_adapter_sw :: "rx_adapter \<Rightarrow> rx_adapter" where
  "initialize_adapter_sw a = a\<lparr>ra_rds := map init_rds (ra_rds a)\<rparr>"

subsection \<open>Posting\<close>

definition write_desc :: "nat \<Rightarrow> nat \<Rightarrow> rds_host \<Rightarrow> rds_host" where
  "write_desc p i h =
     h\<lparr>rh_descs := (rh_descs h)[p := (rh_descs h ! p)\<lparr>rd_addr := b_dma (rh_buf_arr h ! i),
        rd_ref := b_ref (rh_buf_arr h ! i), rd_len := rh_dma_size h\<rparr>]\<rparr>"

text \<open>The loop: the buffers left, producer, how many were posted, ring, allocations made, failures met.\<close>

fun post_loop ::
    "(nat \<Rightarrow> u64 option) \<Rightarrow> nat list \<Rightarrow> nat \<Rightarrow> rds_host \<Rightarrow> nat \<Rightarrow> nat list \<times> nat \<times> nat \<times> rds_host \<times> nat \<times> u64" where
  "post_loop al [] p h n = ([], p, 0, h, n, 0)"
| "post_loop al (i # fs) p h n =
     (let (rv, h', n') =
        (if b_skb (rh_buf_arr h ! i) = None then
           (case nx_alloc_rx_skb al n i h of (rv, h') \<Rightarrow>
              (rv, if rv = 0 \<and> rh_failures h' > 0 then h'\<lparr>rh_failures := rh_failures h' - 1\<rparr> else h', n + 1))
         else (0, h, n))
      in if rv \<noteq> 0 then (i # fs, p, 0, h', n', 1)
         else (case post_loop al fs (get_next_index p (unat (rh_size h))) (write_desc p i h') n' of
                 (rest, q, c, h'', m, f) \<Rightarrow> (rest, q, c + 1, h'', m, f)))"

text \<open>\<open>nx_post_rx_descriptors\<close> on a private list of free buffers with its count.\<close>

definition nx_post_rx_descriptors ::
    "(nat \<Rightarrow> u64 option) \<Rightarrow> nat \<Rightarrow> nat list \<times> u32 \<Rightarrow> rx_adapter \<Rightarrow> nat \<times> rx_adapter" where
  "nx_post_rx_descriptors al r fl a =
     (let h = ra_rds a ! r in
      case post_loop al (fst fl) (rh_producer h) h (ra_allocs a) of
        (rest, p, c, h, n, f) \<Rightarrow>
          let cnt = snd fl - of_nat c;
              h = (if rest \<noteq> [] then h\<lparr>rh_free := rh_free h @ rest, rh_free_count := rh_free_count h + cnt\<rparr> else h);
              h = h\<lparr>rh_producer := p\<rparr>;
              h = (if c \<noteq> 0 then h\<lparr>rh_reg := rh_reg h @ [(of_nat p - 1) AND (rh_size h - 1)]\<rparr> else h);
              h = h\<lparr>rh_posting := False\<rparr>
          in (c, (set_rds r h a)\<lparr>ra_allocs := n, ra_fail_def := ra_fail_def a + f\<rparr>))"

text \<open>The part under the lock in \<open>nx_post_freed_rxbufs\<close>: what status ring \<open>k\<close> freed joins the ring's list, and unless
  another thread is posting the whole list is taken, to be posted outside the lock.\<close>

definition collect_freed :: "nat \<Rightarrow> nat \<Rightarrow> rx_adapter \<Rightarrow> (nat list \<times> u32) option \<times> rx_adapter" where
  "collect_freed k r a =
     (let h = ra_rds a ! r; s = ra_sds a ! k in
      if rh_free_count h = 0 \<and> sh_free_count s ! r = 0 then (None, a)
      else
        let (h, s) = (if sh_free s ! r \<noteq> [] then
              (h\<lparr>rh_free := rh_free h @ sh_free s ! r, rh_free_count := rh_free_count h + sh_free_count s ! r\<rparr>,
               s\<lparr>sh_free := (sh_free s)[r := []], sh_free_count := (sh_free_count s)[r := 0]\<rparr>)
            else (h, s))
        in if \<not> rh_posting h \<and> rh_free_count h \<noteq> 0 then
             (Some (rh_free h, rh_free_count h),
              set_rds r (h\<lparr>rh_free := [], rh_free_count := 0, rh_posting := True\<rparr>) (set_sds k s a))
           else (None, set_rds r h (set_sds k s a)))"

fun post_freed_from :: "(nat \<Rightarrow> u64 option) \<Rightarrow> nat \<Rightarrow> nat list \<Rightarrow> rx_adapter \<Rightarrow> rx_adapter" where
  "post_freed_from al k [] a = a"
| "post_freed_from al k (r # rs) a =
     post_freed_from al k rs
       (case collect_freed k r a of
          (None, b) \<Rightarrow> b
        | (Some fl, b) \<Rightarrow> snd (nx_post_rx_descriptors al r fl b))"

definition nx_post_freed_rxbufs :: "(nat \<Rightarrow> u64 option) \<Rightarrow> nat \<Rightarrow> rx_adapter \<Rightarrow> rx_adapter" where
  "nx_post_freed_rxbufs al k a = post_freed_from al k [0..<length (ra_rds a)] a"

text \<open>\<open>unm_post_rx_buffers\<close>: likewise from the ring's own list.\<close>

definition take_free :: "nat \<Rightarrow> rx_adapter \<Rightarrow> (nat list \<times> u32) option \<times> rx_adapter" where
  "take_free r a =
     (let h = ra_rds a ! r in
      if rh_posting h \<or> rh_free h = [] then (None, a)
      else (Some (rh_free h, rh_free_count h),
            set_rds r (h\<lparr>rh_free := [], rh_free_count := 0, rh_posting := True\<rparr>) a))"

definition unm_post_rx_buffers :: "(nat \<Rightarrow> u64 option) \<Rightarrow> nat \<Rightarrow> rx_adapter \<Rightarrow> nat \<times> rx_adapter" where
  "unm_post_rx_buffers al r a =
     (case take_free r a of
        (None, b) \<Rightarrow> (0, b)
      | (Some fl, b) \<Rightarrow> nx_post_rx_descriptors al r fl b)"

subsection \<open>Taking a received buffer\<close>

text \<open>A buffer goes to the free list of status ring \<open>k\<close>.\<close>

definition put_freed :: "nat \<Rightarrow> nat \<Rightarrow> nat \<Rightarrow> rx_adapter \<Rightarrow> rx_adapter" where
  "put_freed k r i a =
     (let s = ra_sds a ! k in
      set_sds k (s\<lparr>sh_free_count := (sh_free_count s)[r := sh_free_count s ! r + 1],
                  sh_free := (sh_free s)[r := sh_free s ! r @ [i]]\<rparr>) a)"

text \<open>
  \<open>process_rxbuffer\<close>: the socket buffer of the packet, or \<^const>\<open>None\<close> (the C null) when there is none, which stops the
  card; an index outside the array is the crash. A new buffer is allocated at once if possible.
\<close>

definition process_rxbuffer ::
    "(nat \<Rightarrow> u64 option) \<Rightarrow> nat \<Rightarrow> nat \<Rightarrow> u64 \<Rightarrow> nat \<Rightarrow> rx_adapter \<Rightarrow> ((nat \<times> bool) option \<times> rx_adapter) option" where
  "process_rxbuffer al k r csum_status i a =
     (let h = ra_rds a ! r in
      if length (rh_buf_arr h) \<le> i then None
      else
        let b = rh_buf_arr h ! i; a = emit (Unmap (b_dma b)) a in
        (case b_skb b of
           None \<Rightarrow>
             Some (None, (set_rds r (h\<lparr>rh_badskb := rh_badskb h + 1\<rparr>) (emit Halt a))\<lparr>ra_badskb := ra_badskb a + 1\<rparr>)
         | Some skb \<Rightarrow>
             let s = ra_sds a ! k;
                 a = set_sds k (s\<lparr>sh_count := sh_count s + 1\<rparr>) a;
                 good = (ra_rx_csum a \<and> csum_status = STATUS_CKSUM_OK);
                 a = (if good then a\<lparr>ra_csummed := ra_csummed a + 1\<rparr> else a);
                 h = h\<lparr>rh_buf_arr := (rh_buf_arr h)[i := b\<lparr>b_skb := None, b_busy := False\<rparr>]\<rparr>
             in (case nx_alloc_rx_skb al (ra_allocs a) i h of
                   (rv, h) \<Rightarrow>
                     let (h, a) = (if rv \<noteq> 0 then (h\<lparr>rh_failures := rh_failures h + 1\<rparr>, a\<lparr>ra_fail_imm := ra_fail_imm a + 1\<rparr>)
                                   else (h, a))
                     in Some (Some (skb, good), put_freed k r i (set_rds r h (a\<lparr>ra_allocs := ra_allocs a + 1\<rparr>))))))"

text \<open>The way out when buffers are scarce: the buffer is posted again with its packet unread.\<close>

definition low_on_buffers :: "rds_host \<Rightarrow> bool" where
  "low_on_buffers h \<longleftrightarrow> rh_size h - of_int (rh_failures h) < RX_POST_THRES"

definition repost_buffer :: "nat \<Rightarrow> nat \<Rightarrow> nat \<Rightarrow> rx_adapter \<Rightarrow> rx_adapter option" where
  "repost_buffer k r i a =
     (let h = ra_rds a ! r in
      if length (rh_buf_arr h) \<le> i then None
      else Some (put_freed k r i
             (set_rds r (h\<lparr>rh_buf_arr := (rh_buf_arr h)[i := (rh_buf_arr h ! i)\<lparr>b_busy := True\<rparr>]\<rparr>) a)))"


subsection \<open>Tear-down\<close>

fun free_bufs :: "rx_buffer list \<Rightarrow> rx_event list" where
  "free_bufs [] = []"
| "free_bufs (b # bs) =
     (if \<not> b_busy b then free_bufs bs
      else Unmap (b_dma b) # (case b_skb b of None \<Rightarrow> [] | Some s \<Rightarrow> [Kfree s]) @ free_bufs bs)"

definition nx_free_rx_resources :: "rx_adapter \<Rightarrow> rx_adapter" where
  "nx_free_rx_resources a =
     a\<lparr>ra_events := ra_events a @ concat (map (\<lambda>h. free_bufs (take (unat (rh_size h)) (rh_buf_arr h))) (ra_rds a))\<rparr>"

subsection \<open>The posting loop\<close>

definition null_skbs :: "rds_host \<Rightarrow> nat" where
  "null_skbs h = length (filter (\<lambda>b. b_skb b = None) (rh_buf_arr h))"

text \<open>What holds of the buffers and descriptors of a ring at all times.\<close>

definition rds_ok :: "rds_host \<Rightarrow> bool" where
  "rds_ok h \<longleftrightarrow> 0 < unat (rh_size h) \<and> unat (rh_size h) \<le> 65536 \<and> length (rh_buf_arr h) = unat (rh_size h) \<and>
     length (rh_descs h) = unat (rh_size h) \<and> rh_producer h < unat (rh_size h) \<and>
     (\<forall>i < unat (rh_size h). b_ref (rh_buf_arr h ! i) = of_nat i \<and>
        (b_busy (rh_buf_arr h ! i) \<longleftrightarrow> b_skb (rh_buf_arr h ! i) \<noteq> None)) \<and>
     0 \<le> rh_failures h \<and> rh_failures h \<le> int (null_skbs h)"

lemma filter_update_split:
  assumes "i < length xs"
  shows "length (filter P (xs[i := x])) + of_bool (P (xs ! i)) = length (filter P xs) + of_bool (P x)"
proof -
  have "xs = take i xs @ xs ! i # drop (Suc i) xs" using assms by (rule id_take_nth_drop)
  then have "length (filter P xs) = length (filter P (take i xs @ xs ! i # drop (Suc i) xs))" by simp
  with assms show ?thesis by (simp add: upd_conv_take_nth_drop)
qed

lemma null_skbs_update:
  "i < length (rh_buf_arr h) \<Longrightarrow>
   null_skbs (h\<lparr>rh_buf_arr := (rh_buf_arr h)[i := b]\<rparr>) + of_bool (b_skb (rh_buf_arr h ! i) = None) =
     null_skbs h + of_bool (b_skb b = None)"
  using filter_update_split [of i "rh_buf_arr h" "\<lambda>b. b_skb b = None" b] by (simp add: null_skbs_def)

text \<open>One turn of the loop: buffer \<open>i\<close>, with memory if that can be had.\<close>

definition post_one :: "(nat \<Rightarrow> u64 option) \<Rightarrow> nat \<Rightarrow> rds_host \<Rightarrow> nat \<Rightarrow> int \<times> rds_host \<times> nat" where
  "post_one al i h n =
     (if b_skb (rh_buf_arr h ! i) = None then
        (case nx_alloc_rx_skb al n i h of (rv, h') \<Rightarrow>
           (rv, if rv = 0 \<and> rh_failures h' > 0 then h'\<lparr>rh_failures := rh_failures h' - 1\<rparr> else h', n + 1))
      else (0, h, n))"

lemma post_loop_Cons:
  "post_loop al (i # fs) p h n =
     (let (rv, h', n') = post_one al i h n
      in if rv \<noteq> 0 then (i # fs, p, 0, h', n', 1)
         else (case post_loop al fs (get_next_index p (unat (rh_size h))) (write_desc p i h') n' of
                 (rest, q, c, h'', m, f) \<Rightarrow> (rest, q, c + 1, h'', m, f)))"
  by (simp add: post_one_def)

declare post_loop.simps(2) [simp del]

lemma post_one_spec:
  assumes "rds_ok h" "i < unat (rh_size h)" "post_one al i h n = (rv, h', n')"
  shows "rds_ok h' \<and> rh_size h' = rh_size h \<and> rh_free h' = rh_free h \<and> rh_free_count h' = rh_free_count h \<and>
    rh_reg h' = rh_reg h \<and> rh_descs h' = rh_descs h \<and> rh_producer h' = rh_producer h \<and> rh_posting h' = rh_posting h \<and>
    rh_dma_size h' = rh_dma_size h \<and> n \<le> n' \<and>
    (\<forall>j. j \<noteq> i \<longrightarrow> rh_buf_arr h' ! j = rh_buf_arr h ! j) \<and>
    (if rv = 0 then b_skb (rh_buf_arr h' ! i) \<noteq> None
     else h' = h \<and> b_skb (rh_buf_arr h ! i) = None \<and> n' = n + 1 \<and> al n = None)"
proof (cases "b_skb (rh_buf_arr h ! i)")
  case (Some s)
  then show ?thesis using assms by (simp add: post_one_def)
next
  case None
  show ?thesis
  proof (cases "al n")
    case fail: None
    then show ?thesis using assms None by (auto simp: post_one_def nx_alloc_rx_skb_def ENOMEM_def)
  next
    case (Some d)
    let ?b = "(rh_buf_arr h ! i)\<lparr>b_skb := Some n, b_busy := True, b_dma := d\<rparr>"
    let ?h = "h\<lparr>rh_buf_arr := (rh_buf_arr h)[i := ?b]\<rparr>"
    have len: "i < length (rh_buf_arr h)" using assms(1,2) by (simp add: rds_ok_def)
    have nul: "null_skbs ?h + 1 = null_skbs h" using null_skbs_update [OF len, of ?b] None by simp
    have r: "rv = 0" "n' = n + 1" "h' = (if rh_failures h > 0 then ?h\<lparr>rh_failures := rh_failures h - 1\<rparr> else ?h)"
      using assms(3) None Some by (auto simp: post_one_def nx_alloc_rx_skb_def)
    have "null_skbs (?h\<lparr>rh_failures := x\<rparr>) = null_skbs ?h" for x by (simp add: null_skbs_def)
    then have "rds_ok h'"
      using assms(1) nul len unfolding r(3) by (auto simp: rds_ok_def nth_list_update)
    then show ?thesis using r len by simp
  qed
qed

lemma write_desc_ok: "rds_ok h \<Longrightarrow> rds_ok (write_desc p i h)"
  by (simp add: rds_ok_def write_desc_def null_skbs_def)

lemma write_desc_fields [simp]:
  "rh_size (write_desc p i h) = rh_size h" "rh_free (write_desc p i h) = rh_free h"
  "rh_free_count (write_desc p i h) = rh_free_count h" "rh_reg (write_desc p i h) = rh_reg h"
  "rh_producer (write_desc p i h) = rh_producer h" "rh_posting (write_desc p i h) = rh_posting h"
  "rh_dma_size (write_desc p i h) = rh_dma_size h" "rh_buf_arr (write_desc p i h) = rh_buf_arr h"
  by (simp_all add: write_desc_def)

lemma post_loop_spec:
  assumes "rds_ok h" "\<forall>i \<in> set fs. i < unat (rh_size h)" "p < unat (rh_size h)"
    "post_loop al fs p h n = (rest, q, c, h', m, f)"
  shows "rds_ok h' \<and> rest = drop c fs \<and> c \<le> length fs \<and> q = (p + c) mod unat (rh_size h) \<and>
    rh_size h' = rh_size h \<and> rh_free h' = rh_free h \<and> rh_free_count h' = rh_free_count h \<and>
    rh_reg h' = rh_reg h \<and> rh_producer h' = rh_producer h \<and> rh_posting h' = rh_posting h \<and> rh_dma_size h' = rh_dma_size h \<and>
    (\<forall>j. j \<notin> set (take c fs) \<longrightarrow> rh_buf_arr h' ! j = rh_buf_arr h ! j) \<and>
    (\<forall>j. b_skb (rh_buf_arr h ! j) \<noteq> None \<longrightarrow> rh_buf_arr h' ! j = rh_buf_arr h ! j) \<and>
    (\<forall>j \<in> set (take c fs). b_skb (rh_buf_arr h' ! j) \<noteq> None) \<and>
    f = of_bool (c < length fs) \<and>
    (c < length fs \<longrightarrow> 0 < m \<and> al (m - 1) = None \<and> b_skb (rh_buf_arr h' ! (fs ! c)) = None)"
  using assms
proof (induction fs arbitrary: p h n c rest q h' m f)
  case Nil
  then show ?case by simp
next
  case (Cons i fs)
  obtain rv h1 n1 where one: "post_one al i h n = (rv, h1, n1)" by (cases "post_one al i h n") auto
  have i: "i < unat (rh_size h)" using Cons.prems(2) by simp
  note s = post_one_spec [OF Cons.prems(1) i one]
  show ?case
  proof (cases "rv = 0")
    case False
    then have "rest = i # fs" "q = p" "c = 0" "h' = h" "m = n + 1" "f = 1" "al n = None" "b_skb (rh_buf_arr h ! i) = None"
      using Cons.prems(4) one s by (auto simp: post_loop_Cons)
    then show ?thesis using Cons.prems by simp
  next
    case True
    let ?p = "get_next_index p (unat (rh_size h))" and ?h = "write_desc p i h1"
    obtain c' where l: "post_loop al fs ?p ?h n1 = (rest, q, c', h', m, f)" and c: "c = c' + 1"
      using Cons.prems(4) True one by (auto simp: post_loop_Cons split: prod.splits)
    have p: "?p = (p + 1) mod unat (rh_size h)" "?p < unat (rh_size h)"
      using Cons.prems(3) get_next_index_mod get_next_index_less by auto
    have ok: "rds_ok ?h" using s write_desc_ok by blast
    have bnd: "\<forall>i \<in> set fs. i < unat (rh_size ?h)" "?p < unat (rh_size ?h)" using Cons.prems(2) s p by simp_all
    note IH = Cons.IH [OF ok bnd l]
    have q: "q = (p + c) mod unat (rh_size h)" using IH s p(1) c by (simp add: mod_add_left_eq)
    have keep: "rh_buf_arr h' ! j = rh_buf_arr h1 ! j" if "b_skb (rh_buf_arr h1 ! j) \<noteq> None" for j
      using IH that by simp
    have i': "b_skb (rh_buf_arr h1 ! i) \<noteq> None" using s True by simp
    have same: "b_skb (rh_buf_arr h ! i) \<noteq> None \<Longrightarrow> h1 = h" using one by (auto simp: post_one_def)
    have old: "rh_buf_arr h' ! j = rh_buf_arr h ! j" if "b_skb (rh_buf_arr h ! j) \<noteq> None" for j
      using keep [of j] that s same by (cases "j = i") auto
    have new: "b_skb (rh_buf_arr h' ! j) \<noteq> None" if "j \<in> set (take c (i # fs))" for j
      using that IH c keep [OF i'] i' by (cases "j = i") auto
    have frame: "rh_buf_arr h' ! j = rh_buf_arr h ! j" if "j \<notin> set (take c (i # fs))" for j
      using that IH s c by auto
    show ?thesis
      using IH s c q old new frame by (simp add: drop_Cons')
  qed
qed


text \<open>The descriptors written are consecutive, one per buffer posted; the rest of the ring is left alone.\<close>

definition desc_for :: "rds_host \<Rightarrow> nat \<Rightarrow> rcv_desc \<Rightarrow> bool" where
  "desc_for h i d \<longleftrightarrow> rd_addr d = b_dma (rh_buf_arr h ! i) \<and> rd_ref d = b_ref (rh_buf_arr h ! i) \<and> rd_len d = rh_dma_size h"

lemma post_loop_descs:
  assumes "rds_ok h" "\<forall>i \<in> set fs. i < unat (rh_size h)" "p < unat (rh_size h)" "length fs \<le> unat (rh_size h)"
    "post_loop al fs p h n = (rest, q, c, h', m, f)"
  shows "(\<forall>k < c. desc_for h' (fs ! k) (rh_descs h' ! ((p + k) mod unat (rh_size h)))) \<and>
    (\<forall>x < unat (rh_size h). (\<forall>k < c. x \<noteq> (p + k) mod unat (rh_size h)) \<longrightarrow> rh_descs h' ! x = rh_descs h ! x)"
  using assms
proof (induction fs arbitrary: p h n c rest q h' m f)
  case Nil
  then show ?case by simp
next
  case (Cons i fs)
  let ?N = "unat (rh_size h)"
  obtain rv h1 n1 where one: "post_one al i h n = (rv, h1, n1)" by (cases "post_one al i h n") auto
  have i: "i < ?N" using Cons.prems(2) by simp
  note s = post_one_spec [OF Cons.prems(1) i one]
  show ?case
  proof (cases "rv = 0")
    case False
    then show ?thesis using Cons.prems(5) one s by (auto simp: post_loop_Cons)
  next
    case True
    let ?p = "get_next_index p ?N" and ?h = "write_desc p i h1"
    obtain c' where l: "post_loop al fs ?p ?h n1 = (rest, q, c', h', m, f)" and c: "c = c' + 1"
      using Cons.prems(5) True one by (auto simp: post_loop_Cons split: prod.splits)
    have p: "?p = (p + 1) mod ?N" "?p < ?N"
      using Cons.prems(3) get_next_index_mod get_next_index_less by auto
    have ok: "rds_ok ?h" using s write_desc_ok by blast
    have bnd: "\<forall>i \<in> set fs. i < unat (rh_size ?h)" "?p < unat (rh_size ?h)" "length fs \<le> unat (rh_size ?h)"
      using Cons.prems(2,4) s p by simp_all
    note IH = Cons.IH [OF ok bnd l]
    note L = post_loop_spec [OF ok bnd(1,2) l]
    have slot: "(?p + k) mod ?N = (p + Suc k) mod ?N" for k by (simp add: p(1) mod_add_left_eq)
    have c': "c' < ?N" using L Cons.prems(4) by simp
    have apart: "p \<noteq> (p + Suc k) mod ?N" if "k < c'" for k
      using ring_index_inject [of 0 "Suc k" ?N p] that c' Cons.prems(3) by simp
    have "rds_ok h1" "rh_size h1 = rh_size h" using s by blast+
    then have len: "p < length (rh_descs h1)" using Cons.prems(3) unfolding rds_ok_def by simp
    have first: "rh_descs h' ! p = rh_descs ?h ! p" using IH Cons.prems(3) s apart slot by simp
    have i': "b_skb (rh_buf_arr ?h ! i) \<noteq> None" using s True by simp
    have "rh_buf_arr h' ! i = rh_buf_arr h1 ! i" using L i' by simp
    then have "desc_for h' i (rh_descs h' ! p)"
      using len L unfolding first by (simp add: desc_for_def) (simp add: write_desc_def)
    then have descs: "desc_for h' ((i # fs) ! k) (rh_descs h' ! ((p + k) mod ?N))" if "k < c" for k
      using IH that c Cons.prems(3) s slot by (cases k) auto
    have rest: "rh_descs h' ! x = rh_descs h ! x" if "x < ?N" "\<forall>k < c. x \<noteq> (p + k) mod ?N" for x
    proof -
      have "x \<noteq> p" using that(2) c Cons.prems(3) by (metis add.right_neutral mod_less zero_less_Suc Suc_eq_plus1)
      moreover have "\<forall>k < c'. x \<noteq> (?p + k) mod ?N" 
      proof (intro allI impI)
        fix k
        assume "k < c'"
        then have "Suc k < c" using c by simp
        then have "x \<noteq> (p + Suc k) mod ?N" using that(2) by blast
        then show "x \<noteq> (?p + k) mod ?N" by (simp only: slot not_False_eq_True)
      qed
      ultimately show ?thesis using IH that(1) s by (simp add: write_desc_def)
    qed
    show ?thesis using descs rest by blast
  qed
qed


subsection \<open>Where the buffers are\<close>

text \<open>
  One ring as the invariant sees it: the ring, the free list of each status ring with its count, the list
  being posted outside the lock, and, as history, the buffers that are the card's own.
\<close>

definition view_ok :: "rds_host \<Rightarrow> (nat list \<times> u32) list \<Rightarrow> (nat list \<times> u32) option \<Rightarrow> nat list \<Rightarrow> bool" where
  "view_ok h fs pv own \<longleftrightarrow> rds_ok h \<and>
     mset (rh_free h @ concat (map fst fs) @ (case pv of None \<Rightarrow> [] | Some fl \<Rightarrow> fst fl) @ own) = mset [0..<unat (rh_size h)] \<and>
     (\<forall>i \<in> set own. b_skb (rh_buf_arr h ! i) \<noteq> None) \<and>
     rh_free_count h = of_nat (length (rh_free h)) \<and> list_all (\<lambda>f. snd f = of_nat (length (fst f))) fs \<and>
     (case pv of None \<Rightarrow> \<not> rh_posting h | Some fl \<Rightarrow> rh_posting h \<and> snd fl = of_nat (length (fst fl)))"

lemma mset_concat_update:
  "k < length xs \<Longrightarrow> mset (concat (map f (xs[k := x]))) + mset (f (xs ! k)) = mset (concat (map f xs)) + mset (f x)"
proof (induction xs arbitrary: k)
  case (Cons y xs)
  show ?case
  proof (cases k)
    case 0
    show ?thesis by (simp add: 0 union_commute union_lcomm)
  next
    case (Suc j)
    have "j < length xs" using Cons.prems Suc by simp
    have "mset (concat (map f ((y # xs)[k := x]))) + mset (f ((y # xs) ! k)) =
        mset (f y) + (mset (concat (map f (xs[j := x]))) + mset (f (xs ! j)))"
      by (simp add: Suc union_assoc)
    also have "\<dots> = mset (f y) + (mset (concat (map f xs)) + mset (f x))"
      by (simp only: Cons.IH [OF \<open>j < length xs\<close>])
    finally show ?thesis by (simp add: union_assoc)
  qed
qed simp

lemma list_all_update: "list_all P xs \<Longrightarrow> P x \<Longrightarrow> list_all P (xs[k := x])"
  using set_update_subset_insert [of xs k x] by (auto simp: list_all_iff)

lemma view_in_range:
  assumes "view_ok h fs pv own"
  shows "set (rh_free h) \<union> set (concat (map fst fs)) \<union> (case pv of None \<Rightarrow> {} | Some fl \<Rightarrow> set (fst fl)) \<union> set own = {..<unat (rh_size h)}"
    "length (rh_free h) + length (concat (map fst fs)) + (case pv of None \<Rightarrow> 0 | Some fl \<Rightarrow> length (fst fl)) + length own = unat (rh_size h)"
    "distinct own"
proof -
  let ?l = "rh_free h @ concat (map fst fs) @ (case pv of None \<Rightarrow> [] | Some fl \<Rightarrow> fst fl) @ own"
  have m: "mset ?l = mset [0..<unat (rh_size h)]" using assms by (simp add: view_ok_def)
  from mset_eq_setD [OF m] show "set (rh_free h) \<union> set (concat (map fst fs)) \<union> (case pv of None \<Rightarrow> {} | Some fl \<Rightarrow> set (fst fl)) \<union> set own = {..<unat (rh_size h)}"
    by (auto split: option.splits)
  from mset_eq_length [OF m] show "length (rh_free h) + length (concat (map fst fs)) + (case pv of None \<Rightarrow> 0 | Some fl \<Rightarrow> length (fst fl)) + length own = unat (rh_size h)"
    by (auto split: option.splits)
  have "distinct ?l" using m by (metis distinct_upt mset_eq_imp_distinct_iff)
  then show "distinct own" by simp
qed

lemma count_zero: "length xs \<le> 65536 \<Longrightarrow> (of_nat (length xs) :: u32) = 0 \<longleftrightarrow> xs = []"
proof -
  assume "length xs \<le> 65536"
  then have "unat (of_nat (length xs) :: u32) = length xs" by (simp add: unat_of_nat)
  then show ?thesis by (metis length_0_conv unat_eq_0 of_nat_0 list.size(3))
qed

text \<open>Receiving: the buffer loses its packet, gets new memory or not, and goes to a free list.\<close>

lemma received_rds_ok:
  assumes "rds_ok h" "i < unat (rh_size h)" "b_skb (rh_buf_arr h ! i) = Some s"
    "nx_alloc_rx_skb al n i (h\<lparr>rh_buf_arr := (rh_buf_arr h)[i := (rh_buf_arr h ! i)\<lparr>b_skb := None, b_busy := False\<rparr>]\<rparr>) = (rv, h')"
  shows "rds_ok (if rv \<noteq> 0 then h'\<lparr>rh_failures := rh_failures h' + 1\<rparr> else h') \<and>
    rh_size h' = rh_size h \<and> rh_free h' = rh_free h \<and> rh_free_count h' = rh_free_count h \<and> rh_posting h' = rh_posting h \<and>
    (\<forall>j. j \<noteq> i \<longrightarrow> rh_buf_arr h' ! j = rh_buf_arr h ! j)"
proof -
  have len: "i < length (rh_buf_arr h)" using assms(1,2) by (simp add: rds_ok_def)
  let ?b = "(rh_buf_arr h ! i)\<lparr>b_skb := None, b_busy := False\<rparr>"
  let ?h = "h\<lparr>rh_buf_arr := (rh_buf_arr h)[i := ?b]\<rparr>"
  have nf: "null_skbs (x\<lparr>rh_failures := y\<rparr>) = null_skbs x" for x y by (simp add: null_skbs_def)
  show ?thesis
  proof (cases "al n")
    case None
    then have r: "rv = - 12" "h' = ?h" using assms(4) by (simp_all add: nx_alloc_rx_skb_def ENOMEM_def)
    have "null_skbs ?h = null_skbs h + 1" using null_skbs_update [OF len, of ?b] assms(3) by simp
    then show ?thesis using assms(1) r len by (auto simp: rds_ok_def nf nth_list_update)
  next
    case (Some d)
    let ?c = "?b\<lparr>b_skb := Some n, b_busy := True, b_dma := d\<rparr>"
    have r: "rv = 0" "h' = h\<lparr>rh_buf_arr := (rh_buf_arr h)[i := ?c]\<rparr>"
      using assms(4) Some len by (simp_all add: nx_alloc_rx_skb_def)
    have "null_skbs (h\<lparr>rh_buf_arr := (rh_buf_arr h)[i := ?c]\<rparr>) = null_skbs h"
      using null_skbs_update [OF len, of ?c] assms(3) by simp
    then show ?thesis using assms(1) r len by (auto simp: rds_ok_def nth_list_update)
  qed
qed

lemma view_freed:
  assumes "view_ok h fs pv own" "i \<in> set own" "k < length fs" "rds_ok h'"
    "rh_size h' = rh_size h" "rh_free h' = rh_free h" "rh_free_count h' = rh_free_count h" "rh_posting h' = rh_posting h"
    "\<forall>j. j \<noteq> i \<longrightarrow> rh_buf_arr h' ! j = rh_buf_arr h ! j"
  shows "view_ok h' (fs[k := (fst (fs ! k) @ [i], snd (fs ! k) + 1)]) pv (remove1 i own)"
proof -
  have "mset (concat (map fst (fs[k := (fst (fs ! k) @ [i], snd (fs ! k) + 1)]))) = mset (concat (map fst fs)) + {#i#}"
    using mset_concat_update [OF assms(3), of fst "(fst (fs ! k) @ [i], snd (fs ! k) + 1)"] by simp
  moreover obtain rest where "mset own = add_mset i rest" "mset (remove1 i own) = rest"
    using assms(2) by (metis insert_DiffM mset_remove1 set_mset_mset)
  moreover have "b_skb (rh_buf_arr h' ! j) \<noteq> None" if "j \<in> set (remove1 i own)" for j
  proof -
    have "j \<noteq> i" "j \<in> set own" using that view_in_range(3) [OF assms(1)] by (auto simp: set_remove1_eq)
    then show ?thesis using assms(1,9) by (simp add: view_ok_def)
  qed
  moreover have "snd (fs ! k) = of_nat (length (fst (fs ! k)))" using assms(1,3) by (simp add: view_ok_def list_all_length)
  ultimately show ?thesis
    using assms(1,4-8) unfolding view_ok_def
    by (auto simp: list_all_update simp del: mset_remove1 split: option.splits)
qed

lemma view_splice:
  assumes "view_ok h fs pv own" "k < length fs"
  shows "view_ok (h\<lparr>rh_free := rh_free h @ fst (fs ! k), rh_free_count := rh_free_count h + snd (fs ! k)\<rparr>) (fs[k := ([], 0)]) pv own"
proof -
  have "mset (concat (map fst (fs[k := ([], 0)]))) + mset (fst (fs ! k)) = mset (concat (map fst fs))"
    using mset_concat_update [OF assms(2), of fst "([], 0)"] by simp
  moreover have "snd (fs ! k) = of_nat (length (fst (fs ! k)))" using assms by (simp add: view_ok_def list_all_length)
  moreover have "null_skbs (h\<lparr>rh_free := x, rh_free_count := y\<rparr>) = null_skbs h" for x y by (simp add: null_skbs_def)
  ultimately show ?thesis
    using assms(1) unfolding view_ok_def rds_ok_def
    by (auto simp: list_all_update ac_simps split: option.splits)
qed

lemma view_take:
  assumes "view_ok h fs pv own" "\<not> rh_posting h"
  shows "view_ok (h\<lparr>rh_free := [], rh_free_count := 0, rh_posting := True\<rparr>) fs (Some (rh_free h, rh_free_count h)) own"
proof -
  have "pv = None" using assms by (auto simp: view_ok_def split: option.splits)
  moreover have "null_skbs (h\<lparr>rh_free := [], rh_free_count := 0, rh_posting := True\<rparr>) = null_skbs h" by (simp add: null_skbs_def)
  ultimately show ?thesis
    using assms(1) unfolding view_ok_def rds_ok_def by (auto simp: ac_simps)
qed

lemma view_posted:
  assumes "view_ok h fs (Some fl) own" "post_loop al (fst fl) (rh_producer h) h n = (rest, p, c, h1, m, f)"
    "h2 = (if rest \<noteq> [] then h1\<lparr>rh_free := rh_free h1 @ rest, rh_free_count := rh_free_count h1 + (snd fl - of_nat c)\<rparr> else h1)"
    "h' = h2\<lparr>rh_producer := p, rh_reg := reg, rh_posting := False\<rparr>"
  shows "view_ok h' fs None (own @ take c (fst fl))"
proof -
  have ok: "rds_ok h" and pn: "rh_producer h < unat (rh_size h)" using assms(1) by (auto simp: view_ok_def rds_ok_def)
  have b: "\<forall>i \<in> set (fst fl). i < unat (rh_size h)" using view_in_range(1) [OF assms(1)] by auto
  note L = post_loop_spec [OF ok b pn assms(2)]
  have pc: "p < unat (rh_size h)" using L pn by simp
  have nn: "null_skbs (x\<lparr>rh_producer := y, rh_reg := z, rh_posting := w\<rparr>) = null_skbs x"
    "null_skbs (x\<lparr>rh_free := u, rh_free_count := v\<rparr>) = null_skbs x" for x y z w u v
    by (simp_all add: null_skbs_def)
  have ok': "rds_ok h'" using L pc unfolding assms(3,4) rds_ok_def by (auto simp: nn)
  have cnt: "snd fl - of_nat c = of_nat (length rest)"
    using assms(1) L by (simp add: view_ok_def of_nat_diff)
  have split: "mset (fst fl) = mset (take c (fst fl)) + mset rest"
    using L by (metis append_take_drop_id mset_append)
  have free: "rh_free h' = rh_free h @ rest" "rh_free_count h' = of_nat (length (rh_free h @ rest))" "rh_size h' = rh_size h"
    "\<not> rh_posting h'" "rh_buf_arr h' = rh_buf_arr h1"
    using assms(1) L cnt unfolding assms(3,4) by (auto simp: view_ok_def)
  have skb: "\<forall>i \<in> set (own @ take c (fst fl)). b_skb (rh_buf_arr h' ! i) \<noteq> None"
    using assms(1) L by (auto simp: view_ok_def free(5))
  show ?thesis
    using assms(1) ok' skb free split unfolding view_ok_def by (auto simp: ac_simps)
qed


text \<open>The free lists of the status rings for receive ring \<open>r\<close>.\<close>

definition frees :: "nat \<Rightarrow> rx_adapter \<Rightarrow> (nat list \<times> u32) list" where
  "frees r a = map (\<lambda>s. (sh_free s ! r, sh_free_count s ! r)) (ra_sds a)"

definition rx_shape :: "rx_adapter \<Rightarrow> bool" where
  "rx_shape a \<longleftrightarrow> (\<forall>s \<in> set (ra_sds a). length (sh_free s) = length (ra_rds a) \<and> length (sh_free_count s) = length (ra_rds a))"

lemma emit_sel [simp]:
  "ra_rds (emit e a) = ra_rds a" "ra_sds (emit e a) = ra_sds a" "ra_allocs (emit e a) = ra_allocs a"
  "ra_rx_csum (emit e a) = ra_rx_csum a" "ra_fail_def (emit e a) = ra_fail_def a"
  by (simp_all add: emit_def)

lemma set_rds_sel [simp]:
  "ra_rds (set_rds r h a) = (ra_rds a)[r := h]" "ra_sds (set_rds r h a) = ra_sds a" "ra_allocs (set_rds r h a) = ra_allocs a"
  by (simp_all add: set_rds_def)

lemma set_sds_sel [simp]:
  "ra_rds (set_sds k s a) = ra_rds a" "ra_sds (set_sds k s a) = (ra_sds a)[k := s]" "ra_allocs (set_sds k s a) = ra_allocs a"
  by (simp_all add: set_sds_def)

lemma rx_shape_cong: "ra_sds b = ra_sds a \<Longrightarrow> length (ra_rds b) = length (ra_rds a) \<Longrightarrow> rx_shape b = rx_shape a"
  by (simp add: rx_shape_def)

lemma frees_cong: "ra_sds b = ra_sds a \<Longrightarrow> frees r b = frees r a"
  by (simp add: frees_def)

lemma rx_shape_nth: "rx_shape a \<Longrightarrow> k < length (ra_sds a) \<Longrightarrow>
    length (sh_free (ra_sds a ! k)) = length (ra_rds a) \<and> length (sh_free_count (ra_sds a ! k)) = length (ra_rds a)"
  by (simp add: rx_shape_def)

lemma frees_update:
  "k < length (ra_sds a) \<Longrightarrow> frees r (set_sds k s a) = (frees r a)[k := (sh_free s ! r, sh_free_count s ! r)]"
  by (simp add: frees_def map_update)

lemma length_frees [simp]: "length (frees r a) = length (ra_sds a)"
  by (simp add: frees_def)

lemma frees_nth: "k < length (ra_sds a) \<Longrightarrow> frees r a ! k = (sh_free (ra_sds a ! k) ! r, sh_free_count (ra_sds a ! k) ! r)"
  by (simp add: frees_def)

lemma rx_shape_set_sds:
  assumes "rx_shape a" "length (sh_free s) = length (ra_rds a)" "length (sh_free_count s) = length (ra_rds a)"
  shows "rx_shape (set_sds k s a)"
  using assms set_update_subset_insert [of "ra_sds a" k s] by (auto simp: rx_shape_def)

lemma put_freed_spec:
  assumes "rx_shape a" "k < length (ra_sds a)" "r < length (ra_rds a)"
  shows "ra_rds (put_freed k r i a) = ra_rds a" "length (ra_sds (put_freed k r i a)) = length (ra_sds a)"
    "rx_shape (put_freed k r i a)"
    "frees r (put_freed k r i a) = (frees r a)[k := (fst (frees r a ! k) @ [i], snd (frees r a ! k) + 1)]"
    "t \<noteq> r \<Longrightarrow> frees t (put_freed k r i a) = frees t a"
proof -
  let ?s = "ra_sds a ! k"
  have l: "length (sh_free ?s) = length (ra_rds a)" "length (sh_free_count ?s) = length (ra_rds a)"
    using rx_shape_nth [OF assms(1,2)] by auto
  show "ra_rds (put_freed k r i a) = ra_rds a" "length (ra_sds (put_freed k r i a)) = length (ra_sds a)"
    by (simp_all add: put_freed_def Let_def)
  show "rx_shape (put_freed k r i a)"
    unfolding put_freed_def Let_def by (rule rx_shape_set_sds) (simp_all add: assms l)
  show "frees r (put_freed k r i a) = (frees r a)[k := (fst (frees r a ! k) @ [i], snd (frees r a ! k) + 1)]"
    using assms l by (simp add: put_freed_def Let_def frees_update frees_nth)
  show "frees t (put_freed k r i a) = frees t a" if "t \<noteq> r"
  proof -
    have "frees t (put_freed k r i a) = (frees t a)[k := frees t a ! k]"
      using assms l that by (simp add: put_freed_def Let_def frees_update frees_nth)
    then show ?thesis by simp
  qed
qed

text \<open>What taking a received packet does to the rings, when the buffer has one.\<close>

lemma process_rxbuffer_spec:
  assumes "rx_shape a" "k < length (ra_sds a)" "r < length (ra_rds a)"
    "i < length (rh_buf_arr (ra_rds a ! r))" "b_skb (rh_buf_arr (ra_rds a ! r) ! i) = Some skb"
    "process_rxbuffer al k r cs i a = Some (res, a')"
  obtains rv h where
    "res = Some (skb, ra_rx_csum a \<and> cs = STATUS_CKSUM_OK)"
    "nx_alloc_rx_skb al (ra_allocs a) i ((ra_rds a ! r)\<lparr>rh_buf_arr := (rh_buf_arr (ra_rds a ! r))[i :=
       (rh_buf_arr (ra_rds a ! r) ! i)\<lparr>b_skb := None, b_busy := False\<rparr>]\<rparr>) = (rv, h)"
    "ra_rds a' = (ra_rds a)[r := if rv \<noteq> 0 then h\<lparr>rh_failures := rh_failures h + 1\<rparr> else h]"
    "length (ra_sds a') = length (ra_sds a)" "rx_shape a'"
    "frees r a' = (frees r a)[k := (fst (frees r a ! k) @ [i], snd (frees r a ! k) + 1)]"
    "\<And>t. t \<noteq> r \<Longrightarrow> frees t a' = frees t a"
proof -
  let ?h = "(ra_rds a ! r)\<lparr>rh_buf_arr := (rh_buf_arr (ra_rds a ! r))[i :=
       (rh_buf_arr (ra_rds a ! r) ! i)\<lparr>b_skb := None, b_busy := False\<rparr>]\<rparr>"
  obtain rv h where al: "nx_alloc_rx_skb al (ra_allocs a) i ?h = (rv, h)" by (cases "nx_alloc_rx_skb al (ra_allocs a) i ?h") auto
  let ?h' = "if rv \<noteq> 0 then h\<lparr>rh_failures := rh_failures h + 1\<rparr> else h"
  have "\<exists>b. ra_rds b = (ra_rds a)[r := ?h'] \<and> (\<exists>n. ra_sds b = (ra_sds a)[k := (ra_sds a ! k)\<lparr>sh_count := n\<rparr>]) \<and>
      a' = put_freed k r i b \<and> res = Some (skb, ra_rx_csum a \<and> cs = STATUS_CKSUM_OK)"
    using assms(4-6) al by (cases "rv = 0"; cases "ra_rx_csum a \<and> cs = STATUS_CKSUM_OK")
      (force simp: process_rxbuffer_def Let_def emit_def set_sds_def set_rds_def)+
  then obtain b n where b: "ra_rds b = (ra_rds a)[r := ?h']" "ra_sds b = (ra_sds a)[k := (ra_sds a ! k)\<lparr>sh_count := n\<rparr>]"
    "a' = put_freed k r i b" "res = Some (skb, ra_rx_csum a \<and> cs = STATUS_CKSUM_OK)" by blast
  have fr: "frees t b = frees t a" for t
  proof -
    have "frees t b = (frees t a)[k := frees t a ! k]" using assms(2) unfolding frees_def b(2) by (simp add: map_update)
    then show ?thesis by simp
  qed
  have sh: "rx_shape b"
  proof -
    have "rx_shape (set_sds k ((ra_sds a ! k)\<lparr>sh_count := n\<rparr>) a)"
      by (rule rx_shape_set_sds) (use assms(1,2) rx_shape_nth in auto)
    then show ?thesis using b(1,2) rx_shape_cong [of b "set_sds k ((ra_sds a ! k)\<lparr>sh_count := n\<rparr>) a"] by simp
  qed
  have k: "k < length (ra_sds b)" "r < length (ra_rds b)" using assms(2,3) b by simp_all
  note P = put_freed_spec [OF sh k, where i = i]
  show ?thesis
    by (rule that [OF b(4) al]) (use P b fr in auto)
qed


lemma collect_freed_spec:
  assumes "rx_shape a" "k < length (ra_sds a)" "r < length (ra_rds a)"
    "view_ok (ra_rds a ! r) (frees r a) pv own" "collect_freed k r a = (res, a')"
  shows "length (ra_rds a') = length (ra_rds a) \<and> length (ra_sds a') = length (ra_sds a) \<and> rx_shape a' \<and>
    (\<forall>t. t \<noteq> r \<longrightarrow> ra_rds a' ! t = ra_rds a ! t \<and> frees t a' = frees t a) \<and>
    (case res of None \<Rightarrow> view_ok (ra_rds a' ! r) (frees r a') pv own
     | Some fl \<Rightarrow> pv = None \<and> view_ok (ra_rds a' ! r) (frees r a') (Some fl) own)"
proof -
  let ?h = "ra_rds a ! r" and ?s = "ra_sds a ! k"
  have l: "length (sh_free ?s) = length (ra_rds a)" "length (sh_free_count ?s) = length (ra_rds a)"
    using rx_shape_nth [OF assms(1,2)] by auto
  show ?thesis
  proof (cases "rh_free_count ?h = 0 \<and> sh_free_count ?s ! r = 0")
    case True
    then show ?thesis using assms by (auto simp: collect_freed_def Let_def)
  next
    case False
    obtain h s where hs: "(if sh_free ?s ! r \<noteq> [] then
              (?h\<lparr>rh_free := rh_free ?h @ sh_free ?s ! r, rh_free_count := rh_free_count ?h + sh_free_count ?s ! r\<rparr>,
               ?s\<lparr>sh_free := (sh_free ?s)[r := []], sh_free_count := (sh_free_count ?s)[r := 0]\<rparr>)
            else (?h, ?s)) = (h, s)" by (metis surj_pair)
    have "view_ok h (frees r (set_sds k s a)) pv own \<and> length (sh_free s) = length (ra_rds a) \<and>
        length (sh_free_count s) = length (ra_rds a) \<and> rh_posting h = rh_posting ?h \<and>
        (\<forall>t. t \<noteq> r \<longrightarrow> sh_free s ! t = sh_free ?s ! t \<and> sh_free_count s ! t = sh_free_count ?s ! t)"
    proof (cases "sh_free ?s ! r = []")
      case True
      then have "h = ?h" "s = ?s" using hs by auto
      moreover have "(frees r a)[k := (sh_free ?s ! r, sh_free_count ?s ! r)] = frees r a"
        using assms(2) frees_nth [of k a r] by (metis list_update_id)
      ultimately show ?thesis using assms l by (simp add: frees_update)
    next
      case F: False
      then have h: "h = ?h\<lparr>rh_free := rh_free ?h @ sh_free ?s ! r, rh_free_count := rh_free_count ?h + sh_free_count ?s ! r\<rparr>"
        "s = ?s\<lparr>sh_free := (sh_free ?s)[r := []], sh_free_count := (sh_free_count ?s)[r := 0]\<rparr>" using hs by auto
      have "view_ok h ((frees r a)[k := ([], 0)]) pv own"
        using view_splice [OF assms(4), of k] assms(2) frees_nth [of k a r] h by simp
      then show ?thesis using assms(2,3) l h by (simp add: frees_update)
    qed
    note V = this
    have sh: "rx_shape (set_sds k s a)" using assms(1) V rx_shape_set_sds by blast
    have other: "frees t (set_sds k s a) = frees t a" if "t \<noteq> r" for t
    proof -
      have "frees t (set_sds k s a) = (frees t a)[k := frees t a ! k]"
        using V that assms(2) by (simp add: frees_update frees_nth)
      then show ?thesis by simp
    qed
    have fr: "frees t (set_rds r x b) = frees t b" for t x b by (rule frees_cong) simp
    have shr: "rx_shape (set_rds r x (set_sds k s a))" for x
      using sh rx_shape_cong [of "set_rds r x (set_sds k s a)" "set_sds k s a"] by simp
    show ?thesis
    proof (cases "\<not> rh_posting h \<and> rh_free_count h \<noteq> 0")
      case True
      then have r: "res = Some (rh_free h, rh_free_count h)"
        "a' = set_rds r (h\<lparr>rh_free := [], rh_free_count := 0, rh_posting := True\<rparr>) (set_sds k s a)"
        using assms(5) False hs by (auto simp: collect_freed_def Let_def split: prod.splits)
      have "pv = None" using True V by (auto simp: view_ok_def split: option.splits)
      then show ?thesis using view_take [OF conjunct1 [OF V]] True r sh shr other assms(3) by (simp add: fr)
    next
      case F: False
      then have r: "res = None" "a' = set_rds r h (set_sds k s a)"
        using assms(5) False hs by (auto simp: collect_freed_def Let_def split: prod.splits)
      then show ?thesis using V sh shr other assms(3) by (simp add: fr)
    qed
  qed
qed

lemma take_free_spec:
  assumes "r < length (ra_rds a)" "view_ok (ra_rds a ! r) (frees r a) pv own" "take_free r a = (res, a')"
  shows "length (ra_rds a') = length (ra_rds a) \<and> ra_sds a' = ra_sds a \<and> (\<forall>t. t \<noteq> r \<longrightarrow> ra_rds a' ! t = ra_rds a ! t) \<and>
    (case res of None \<Rightarrow> a' = a | Some fl \<Rightarrow> pv = None \<and> view_ok (ra_rds a' ! r) (frees r a') (Some fl) own)"
proof (cases "rh_posting (ra_rds a ! r) \<or> rh_free (ra_rds a ! r) = []")
  case True
  then show ?thesis using assms(3) by (auto simp: take_free_def Let_def)
next
  case False
  then have r: "res = Some (rh_free (ra_rds a ! r), rh_free_count (ra_rds a ! r))"
    "a' = set_rds r ((ra_rds a ! r)\<lparr>rh_free := [], rh_free_count := 0, rh_posting := True\<rparr>) a"
    using assms(3) by (auto simp: take_free_def Let_def)
  have "pv = None" using False assms(2) by (auto simp: view_ok_def split: option.splits)
  moreover have "frees r a' = frees r a" by (rule frees_cong) (simp add: r)
  ultimately show ?thesis using view_take [OF assms(2)] False r assms(1) by simp
qed

lemma nx_post_spec:
  assumes "r < length (ra_rds a)" "view_ok (ra_rds a ! r) (frees r a) (Some fl) own" "nx_post_rx_descriptors al r fl a = (c, a')"
  shows "length (ra_rds a') = length (ra_rds a) \<and> ra_sds a' = ra_sds a \<and> (\<forall>t. t \<noteq> r \<longrightarrow> ra_rds a' ! t = ra_rds a ! t) \<and>
    view_ok (ra_rds a' ! r) (frees r a') None (own @ take c (fst fl))"
proof -
  let ?h = "ra_rds a ! r"
  obtain rest p c' h1 m f where l: "post_loop al (fst fl) (rh_producer ?h) ?h (ra_allocs a) = (rest, p, c', h1, m, f)"
    by (metis prod_cases6)
  let ?h2 = "if rest \<noteq> [] then h1\<lparr>rh_free := rh_free h1 @ rest, rh_free_count := rh_free_count h1 + (snd fl - of_nat c')\<rparr> else h1"
  let ?reg = "if c' \<noteq> 0 then rh_reg h1 @ [(of_nat p - 1) AND (rh_size h1 - 1)] else rh_reg h1"
  have r: "c = c' \<and> ra_rds a' = (ra_rds a)[r := ?h2\<lparr>rh_producer := p, rh_reg := ?reg, rh_posting := False\<rparr>] \<and> ra_sds a' = ra_sds a"
    using assms(3) l by (cases "rest = []"; cases "c' = 0") (auto simp: nx_post_rx_descriptors_def Let_def)
  have "frees r a' = frees r a" by (rule frees_cong) (simp add: r)
  then show ?thesis
    using view_posted [OF assms(2) l refl refl, of ?reg] r assms(1) by simp
qed

subsection \<open>The life of the buffers\<close>

text \<open>
  The adapter with the history the code does not keep: which buffers of each ring the card has (in the order
  posted), and the list a thread is posting outside the lock.
\<close>

record rx_hist =
  hx :: rx_adapter
  hcard :: "nat \<Rightarrow> nat list"
  hpriv :: "nat \<Rightarrow> (nat list \<times> u32) option"

text \<open>
  The steps: the card returns any buffer it has, which is received or posted again; a thread collects what
  was freed, or takes the free list, under the lock; it posts what it took, outside the lock, in one step: the
  flag keeps other posters out, and what is received meanwhile concerns buffers the thread does not have.
\<close>

inductive rx_step :: "(nat \<Rightarrow> u64 option) \<Rightarrow> rx_hist \<Rightarrow> rx_hist \<Rightarrow> bool" for al where
  rx_received: "r < length (ra_rds (hx s)) \<Longrightarrow> k < length (ra_sds (hx s)) \<Longrightarrow> i \<in> set (hcard s r) \<Longrightarrow>
    process_rxbuffer al k r cs i (hx s) = Some (res, a') \<Longrightarrow>
    rx_step al s (s\<lparr>hx := a', hcard := (hcard s)(r := remove1 i (hcard s r))\<rparr>)"
| rx_reposted: "r < length (ra_rds (hx s)) \<Longrightarrow> k < length (ra_sds (hx s)) \<Longrightarrow> i \<in> set (hcard s r) \<Longrightarrow>
    repost_buffer k r i (hx s) = Some a' \<Longrightarrow>
    rx_step al s (s\<lparr>hx := a', hcard := (hcard s)(r := remove1 i (hcard s r))\<rparr>)"
| rx_collected: "r < length (ra_rds (hx s)) \<Longrightarrow> k < length (ra_sds (hx s)) \<Longrightarrow> collect_freed k r (hx s) = (res, a') \<Longrightarrow>
    rx_step al s (s\<lparr>hx := a', hpriv := (if res = None then hpriv s else (hpriv s)(r := res))\<rparr>)"
| rx_taken: "r < length (ra_rds (hx s)) \<Longrightarrow> take_free r (hx s) = (res, a') \<Longrightarrow>
    rx_step al s (s\<lparr>hx := a', hpriv := (if res = None then hpriv s else (hpriv s)(r := res))\<rparr>)"
| rx_posted: "r < length (ra_rds (hx s)) \<Longrightarrow> hpriv s r = Some fl \<Longrightarrow> nx_post_rx_descriptors al r fl (hx s) = (c, a') \<Longrightarrow>
    rx_step al s (s\<lparr>hx := a', hcard := (hcard s)(r := hcard s r @ take c (fst fl)), hpriv := (hpriv s)(r := None)\<rparr>)"

definition rx_inv :: "rx_hist \<Rightarrow> bool" where
  "rx_inv s \<longleftrightarrow> rx_shape (hx s) \<and>
     (\<forall>r < length (ra_rds (hx s)). view_ok (ra_rds (hx s) ! r) (frees r (hx s)) (hpriv s r) (hcard s r))"

lemma rx_invI:
  assumes "rx_inv s" "rx_shape a'" "r < length (ra_rds (hx s))" "length (ra_rds a') = length (ra_rds (hx s))"
    "\<And>t. t \<noteq> r \<Longrightarrow> t < length (ra_rds (hx s)) \<Longrightarrow> ra_rds a' ! t = ra_rds (hx s) ! t"
    "\<And>t. t \<noteq> r \<Longrightarrow> frees t a' = frees t (hx s)"
    "\<And>t. t \<noteq> r \<Longrightarrow> p' t = hpriv s t" "\<And>t. t \<noteq> r \<Longrightarrow> c' t = hcard s t"
    "view_ok (ra_rds a' ! r) (frees r a') (p' r) (c' r)"
  shows "rx_inv (s\<lparr>hx := a', hcard := c', hpriv := p'\<rparr>)"
  unfolding rx_inv_def
proof (simp add: assms(2,4), intro allI impI)
  fix t
  assume "t < length (ra_rds (hx s))"
  then show "view_ok (ra_rds a' ! t) (frees t a') (p' t) (c' t)"
    using assms(1,3,5-9) by (cases "t = r") (auto simp: rx_inv_def)
qed


lemma repost_buffer_spec:
  assumes "rx_shape a" "k < length (ra_sds a)" "r < length (ra_rds a)"
    "view_ok (ra_rds a ! r) (frees r a) pv own" "i \<in> set own" "repost_buffer k r i a = Some a'"
  shows "length (ra_rds a') = length (ra_rds a) \<and> length (ra_sds a') = length (ra_sds a) \<and> rx_shape a' \<and>
    (\<forall>t. t \<noteq> r \<longrightarrow> ra_rds a' ! t = ra_rds a ! t \<and> frees t a' = frees t a) \<and>
    view_ok (ra_rds a' ! r) (frees r a') pv (remove1 i own)"
proof -
  let ?h = "ra_rds a ! r"
  let ?h' = "?h\<lparr>rh_buf_arr := (rh_buf_arr ?h)[i := (rh_buf_arr ?h ! i)\<lparr>b_busy := True\<rparr>]\<rparr>"
  have ok: "rds_ok ?h" and skb: "b_skb (rh_buf_arr ?h ! i) \<noteq> None" using assms(4,5) by (auto simp: view_ok_def)
  have i: "i < unat (rh_size ?h)" using view_in_range(1) [OF assms(4)] assms(5) by auto
  then have len: "i < length (rh_buf_arr ?h)" using ok by (simp add: rds_ok_def)
  have b: "(rh_buf_arr ?h)[i := (rh_buf_arr ?h ! i)\<lparr>b_busy := True\<rparr>] = rh_buf_arr ?h"
    using ok i skb by (intro list_update_same_conv [THEN iffD2, OF len]) (simp add: rds_ok_def)
  have a': "a' = put_freed k r i (set_rds r ?h' a)" using assms(6) len by (simp add: repost_buffer_def Let_def)
  let ?a = "set_rds r ?h' a"
  have sh: "rx_shape ?a" using assms(1) rx_shape_cong [of ?a a] by simp
  have fr: "frees t ?a = frees t a" for t by (rule frees_cong) simp
  have kr: "k < length (ra_sds ?a)" "r < length (ra_rds ?a)" using assms(2,3) by simp_all
  note P = put_freed_spec [OF sh kr, where i = i]
  have "view_ok ?h' ((frees r a)[k := (fst (frees r a ! k) @ [i], snd (frees r a ! k) + 1)]) pv (remove1 i own)"
    by (rule view_freed [OF assms(4,5)]) (use assms(2) ok b in \<open>auto simp: rds_ok_def null_skbs_def\<close>)
  then show ?thesis using P a' fr assms(2,3) by simp
qed

lemma rx_step_inv: "rx_step al s s' \<Longrightarrow> rx_inv s \<Longrightarrow> rx_inv s'"
proof (induction rule: rx_step.induct)
  case (rx_received r s k i cs res a')
  let ?h = "ra_rds (hx s) ! r"
  have sh: "rx_shape (hx s)" and v: "view_ok ?h (frees r (hx s)) (hpriv s r) (hcard s r)"
    using rx_received by (auto simp: rx_inv_def)
  then obtain skb where skb: "b_skb (rh_buf_arr ?h ! i) = Some skb" using rx_received(3) by (auto simp: view_ok_def)
  have ok: "rds_ok ?h" using v by (simp add: view_ok_def)
  have i: "i < unat (rh_size ?h)" using view_in_range(1) [OF v] rx_received(3) by auto
  then have len: "i < length (rh_buf_arr ?h)" using ok by (simp add: rds_ok_def)
  obtain rv h where P: "nx_alloc_rx_skb al (ra_allocs (hx s)) i (?h\<lparr>rh_buf_arr := (rh_buf_arr ?h)[i :=
       (rh_buf_arr ?h ! i)\<lparr>b_skb := None, b_busy := False\<rparr>]\<rparr>) = (rv, h)"
    "ra_rds a' = (ra_rds (hx s))[r := if rv \<noteq> 0 then h\<lparr>rh_failures := rh_failures h + 1\<rparr> else h]"
    "length (ra_sds a') = length (ra_sds (hx s))" "rx_shape a'"
    "frees r a' = (frees r (hx s))[k := (fst (frees r (hx s) ! k) @ [i], snd (frees r (hx s) ! k) + 1)]"
    "\<And>t. t \<noteq> r \<Longrightarrow> frees t a' = frees t (hx s)"
    using process_rxbuffer_spec [OF sh rx_received(2,1) len skb rx_received(4)] by metis
  note R = received_rds_ok [OF ok i skb P(1)]
  have "view_ok (if rv \<noteq> 0 then h\<lparr>rh_failures := rh_failures h + 1\<rparr> else h)
      ((frees r (hx s))[k := (fst (frees r (hx s) ! k) @ [i], snd (frees r (hx s) ! k) + 1)]) (hpriv s r) (remove1 i (hcard s r))"
    by (rule view_freed [OF v rx_received(3)]) (use R rx_received(2) in auto)
  then have "rx_inv (s\<lparr>hx := a', hcard := (hcard s)(r := remove1 i (hcard s r)), hpriv := hpriv s\<rparr>)"
    using P rx_received(1) by (intro rx_invI [OF rx_received(5), of _ r]) simp_all
  then show ?case by simp
next
  case (rx_reposted r s k i a')
  have sh: "rx_shape (hx s)" and v: "view_ok (ra_rds (hx s) ! r) (frees r (hx s)) (hpriv s r) (hcard s r)"
    using rx_reposted by (auto simp: rx_inv_def)
  note R = repost_buffer_spec [OF sh rx_reposted(2,1) v rx_reposted(3,4)]
  have "rx_inv (s\<lparr>hx := a', hcard := (hcard s)(r := remove1 i (hcard s r)), hpriv := hpriv s\<rparr>)"
    using R rx_reposted(1) by (intro rx_invI [OF rx_reposted(5), of _ r]) simp_all
  then show ?case by simp
next
  case (rx_collected r s k res a')
  have sh: "rx_shape (hx s)" and v: "view_ok (ra_rds (hx s) ! r) (frees r (hx s)) (hpriv s r) (hcard s r)"
    using rx_collected by (auto simp: rx_inv_def)
  note R = collect_freed_spec [OF sh rx_collected(2,1) v rx_collected(3)]
  have "rx_inv (s\<lparr>hx := a', hcard := hcard s, hpriv := if res = None then hpriv s else (hpriv s)(r := res)\<rparr>)"
    using R rx_collected(1) by (intro rx_invI [OF rx_collected(4), of _ r]) (auto split: option.splits)
  then show ?case by simp
next
  case (rx_taken r s res a')
  have sh: "rx_shape (hx s)" and v: "view_ok (ra_rds (hx s) ! r) (frees r (hx s)) (hpriv s r) (hcard s r)"
    using rx_taken by (auto simp: rx_inv_def)
  note R = take_free_spec [OF rx_taken(1) v rx_taken(2)]
  have fr: "frees t a' = frees t (hx s)" for t by (rule frees_cong) (use R in simp)
  have sh': "rx_shape a'" using sh R rx_shape_cong by metis
  have v': "view_ok (ra_rds a' ! r) (frees r a') ((if res = None then hpriv s else (hpriv s)(r := res)) r) (hcard s r)"
    using R v by (cases res) auto
  have "rx_inv (s\<lparr>hx := a', hcard := hcard s, hpriv := if res = None then hpriv s else (hpriv s)(r := res)\<rparr>)"
    using R rx_taken(1) fr sh' v' by (intro rx_invI [OF rx_taken(3), of _ r]) auto
  then show ?case by simp
next
  case (rx_posted r s fl c a')
  have sh: "rx_shape (hx s)" and v: "view_ok (ra_rds (hx s) ! r) (frees r (hx s)) (Some fl) (hcard s r)"
    using rx_posted by (auto simp: rx_inv_def)
  note R = nx_post_spec [OF rx_posted(1) v rx_posted(3)]
  have fr: "frees t a' = frees t (hx s)" for t by (rule frees_cong) (use R in simp)
  have sh': "rx_shape a'" using sh R rx_shape_cong by metis
  have "rx_inv (s\<lparr>hx := a', hcard := (hcard s)(r := hcard s r @ take c (fst fl)), hpriv := (hpriv s)(r := None)\<rparr>)"
    using R rx_posted(1) fr sh' by (intro rx_invI [OF rx_posted(4), of _ r]) simp_all
  then show ?case by simp
qed

text \<open>A new adapter: arrays of the rings' sizes, nothing on any list.\<close>

definition new_adapter :: "rx_adapter \<Rightarrow> bool" where
  "new_adapter a \<longleftrightarrow>
     list_all (\<lambda>h. 0 < unat (rh_size h) \<and> unat (rh_size h) \<le> 65536 \<and> length (rh_buf_arr h) = unat (rh_size h) \<and>
       length (rh_descs h) = unat (rh_size h) \<and> rh_free_count h = 0 \<and> \<not> rh_posting h) (ra_rds a) \<and>
     list_all (\<lambda>s. sh_free s = replicate (length (ra_rds a)) [] \<and> sh_free_count s = replicate (length (ra_rds a)) 0) (ra_sds a)"

definition rx_start :: "rx_adapter \<Rightarrow> rx_hist" where
  "rx_start a = \<lparr>hx = initialize_adapter_sw a, hcard = (\<lambda>_. []), hpriv = (\<lambda>_. None)\<rparr>"

definition rx_reachable :: "(nat \<Rightarrow> u64 option) \<Rightarrow> rx_adapter \<Rightarrow> rx_hist \<Rightarrow> bool" where
  "rx_reachable al a = (rx_step al)\<^sup>*\<^sup>* (rx_start a)"

lemma rx_start_inv:
  assumes "new_adapter a"
  shows "rx_inv (rx_start a)"
proof -
  let ?b = "initialize_adapter_sw a"
  have s: "sh_free s = replicate (length (ra_rds a)) []" "sh_free_count s = replicate (length (ra_rds a)) 0" if "s \<in> set (ra_sds a)" for s
    using assms that by (auto simp: new_adapter_def list_all_iff)
  have "view_ok (init_rds (ra_rds a ! r)) (frees r ?b) None []" if r: "r < length (ra_rds a)" for r
  proof -
    let ?h = "ra_rds a ! r"
    have h: "0 < unat (rh_size ?h)" "unat (rh_size ?h) \<le> 65536" "length (rh_buf_arr ?h) = unat (rh_size ?h)"
      "length (rh_descs ?h) = unat (rh_size ?h)" "rh_free_count ?h = 0" "\<not> rh_posting ?h"
      using assms r by (auto simp: new_adapter_def list_all_length)
    have "frees r ?b = map (\<lambda>s. ([], 0)) (ra_sds a)"
      unfolding frees_def by (rule map_cong) (simp_all add: initialize_adapter_sw_def s r)
    then have "concat (map fst (frees r ?b)) = []" "list_all (\<lambda>f. snd f = of_nat (length (fst f))) (frees r ?b)"
      by (auto simp: list_all_iff)
    then show ?thesis using h by (simp add: view_ok_def rds_ok_def init_rds_def)
  qed
  then show ?thesis using s by (auto simp: rx_inv_def rx_start_def rx_shape_def initialize_adapter_sw_def)
qed

lemma rx_reachable_inv: "rx_reachable al a s \<Longrightarrow> new_adapter a \<Longrightarrow> rx_inv s"
proof -
  assume "rx_reachable al a s" "new_adapter a"
  from this(1) have "(rx_step al)\<^sup>*\<^sup>* (rx_start a) s" by (simp add: rx_reachable_def)
  then show "rx_inv s"
  proof (induction rule: rtranclp_induct)
    case base
    show ?case by (rule rx_start_inv) fact
  next
    case (step y z)
    then show ?case using rx_step_inv by blast
  qed
qed


subsection \<open>Properties\<close>

text \<open>C7 Every receive buffer is at all times in exactly one place: on the ring's free list, on the free list of
  one status ring, on the list a thread is posting, or with the card; the counts of the lists are right; what
  the card has, has memory; a list is being posted exactly when the posting flag is set, so never two at once.\<close>

theorem rx_buffers_conserved:
  assumes "rx_reachable al a s" "new_adapter a" "r < length (ra_rds (hx s))"
  shows "case ra_rds (hx s) ! r of h \<Rightarrow>
    mset (rh_free h @ concat (map (\<lambda>k. sh_free k ! r) (ra_sds (hx s))) @ (case hpriv s r of None \<Rightarrow> [] | Some fl \<Rightarrow> fst fl) @ hcard s r) =
      mset [0..<unat (rh_size h)] \<and>
    rh_free_count h = of_nat (length (rh_free h)) \<and>
    list_all (\<lambda>k. sh_free_count k ! r = of_nat (length (sh_free k ! r))) (ra_sds (hx s)) \<and>
    list_all (\<lambda>i. b_skb (rh_buf_arr h ! i) \<noteq> None) (hcard s r) \<and> (hpriv s r \<noteq> None \<longleftrightarrow> rh_posting h)"
proof -
  have "view_ok (ra_rds (hx s) ! r) (frees r (hx s)) (hpriv s r) (hcard s r)"
    using rx_reachable_inv [OF assms(1,2)] assms(3) by (simp add: rx_inv_def)
  then show ?thesis
    by (auto simp: view_ok_def frees_def list_all_iff comp_def split: option.splits)
qed

definition ex_rx :: rx_adapter where
  "ex_rx = \<lparr>ra_rds = [\<lparr>rh_descs = replicate 2 \<lparr>rd_ref = 0, rd_flags = 0, rd_len = 0, rd_addr = 0\<rparr>, rh_size = 2, rh_buff_size = 2048,
      rh_dma_size = 1760, rh_producer = 0, rh_buf_arr = replicate 2 \<lparr>b_skb = None, b_dma = 0, b_ref = 0, b_busy = False\<rparr>,
      rh_failures = 0, rh_posting = False, rh_free = [], rh_free_count = 0, rh_reg = [], rh_no_rcv = 0, rh_rxbytes = 0, rh_badskb = 0\<rparr>],
    ra_sds = [\<lparr>sh_descs = replicate 4 (0, 0), sh_consumer = 0, sh_free = [[]], sh_free_count = [0], sh_count = 0, sh_polled = 0, sh_reg = []\<rparr>],
    ra_allocs = 0, ra_events = [], ra_rx_csum = True, ra_running = True, ra_badskb = 0, ra_csummed = 0, ra_fail_imm = 0, ra_fail_def = 0,
    ra_no_rcv = 0, ra_rxbytes = 0, ra_uphappy = 0, ra_lro_enabled = False,
    ra_lro_contiguous = 0, ra_lro_bufsize = replicate 16 0, ra_lro_chained = 0, ra_lro_accum = replicate 10 0, ra_crunch = 0,
    ra_max_rx_desc = 4\<rparr>"

definition ex_mem :: "nat \<Rightarrow> u64 option" where
  "ex_mem n = Some (of_nat n * 4096)"

lemma ex_rx_new: "new_adapter ex_rx"
  by (simp add: new_adapter_def ex_rx_def)

definition ex_taken :: rx_hist where
  "ex_taken = (case take_free 0 (hx (rx_start ex_rx)) of (fl, b) \<Rightarrow> (rx_start ex_rx)\<lparr>hx := b, hpriv := (hpriv (rx_start ex_rx))(0 := fl)\<rparr>)"

definition ex_posted :: rx_hist where
  "ex_posted = (case nx_post_rx_descriptors ex_mem 0 ([0, 1], 2) (hx ex_taken) of (c, b) \<Rightarrow>
     ex_taken\<lparr>hx := b, hcard := (hcard ex_taken)(0 := take c [0, 1]), hpriv := (hpriv ex_taken)(0 := None)\<rparr>)"

lemma ex_rx_lengths: "length (ra_rds (hx (rx_start ex_rx))) = 1" "length (ra_sds (hx (rx_start ex_rx))) = 1"
  "rh_size (ra_rds (hx (rx_start ex_rx)) ! 0) = 2"
  by (simp_all add: rx_start_def initialize_adapter_sw_def ex_rx_def init_rds_def)

lemma ex_take: "take_free 0 (hx (rx_start ex_rx)) =
    (Some ([0, 1], 2), set_rds 0 ((ra_rds (hx (rx_start ex_rx)) ! 0)\<lparr>rh_free := [], rh_free_count := 0, rh_posting := True\<rparr>) (hx (rx_start ex_rx)))"
  by (simp add: take_free_def Let_def rx_start_def initialize_adapter_sw_def ex_rx_def init_rds_def upt_rec)

lemma ex_taken_sel: "length (ra_rds (hx ex_taken)) = 1" "length (ra_sds (hx ex_taken)) = 1"
  "rh_size (ra_rds (hx ex_taken) ! 0) = 2" "hpriv ex_taken 0 = Some ([0, 1], 2)" "hcard ex_taken 0 = []"
  using ex_rx_lengths by (simp_all add: ex_taken_def ex_take) (simp_all add: rx_start_def)

lemma ex_taken_step: "rx_step ex_mem (rx_start ex_rx) ex_taken"
  using rx_taken [of 0 "rx_start ex_rx" "fst (take_free 0 (hx (rx_start ex_rx)))" "snd (take_free 0 (hx (rx_start ex_rx)))" ex_mem] ex_rx_lengths
  by (simp add: ex_taken_def ex_take)

lemma post_lengths:
  assumes "nx_post_rx_descriptors al r fl a = (c, b)"
  shows "length (ra_rds b) = length (ra_rds a) \<and> ra_sds b = ra_sds a"
proof -
  obtain x where x: "post_loop al (fst fl) (rh_producer (ra_rds a ! r)) (ra_rds a ! r) (ra_allocs a) = x" by simp
  show ?thesis using assms x by (cases x) (auto simp: nx_post_rx_descriptors_def Let_def)
qed

lemma ex_posted_step: "rx_step ex_mem ex_taken ex_posted"
proof -
  obtain c b where p: "nx_post_rx_descriptors ex_mem 0 ([0, 1], 2) (hx ex_taken) = (c, b)" by (metis surj_pair)
  show ?thesis
    using rx_posted [of 0 ex_taken "([0, 1], 2)" ex_mem c b] p ex_taken_sel by (simp add: ex_posted_def)
qed

lemma ex_posted_reachable: "rx_reachable ex_mem ex_rx ex_posted"
  using ex_taken_step ex_posted_step by (simp add: rx_reachable_def)

lemma ex_posted_sel: "length (ra_rds (hx ex_posted)) = 1" "length (ra_sds (hx ex_posted)) = 1" "hcard ex_posted 0 = [0, 1]"
proof -
  let ?a = "hx ex_taken"
  obtain c b where p: "nx_post_rx_descriptors ex_mem 0 ([0, 1], 2) ?a = (c, b)" by (metis surj_pair)
  show "length (ra_rds (hx ex_posted)) = 1" "length (ra_sds (hx ex_posted)) = 1"
    using post_lengths [OF p] p ex_taken_sel by (simp_all add: ex_posted_def)
  have "rx_inv ex_taken" using ex_taken_step rx_step_inv rx_start_inv [OF ex_rx_new] by blast
  then have ok: "rds_ok (ra_rds ?a ! 0)" using ex_taken_sel by (simp add: rx_inv_def view_ok_def)
  obtain rest q c' h m f where l: "post_loop ex_mem [0, 1] (rh_producer (ra_rds ?a ! 0)) (ra_rds ?a ! 0) (ra_allocs ?a) = (rest, q, c', h, m, f)"
    by (metis prod_cases6)
  have "c' = 2" using post_loop_spec [OF ok _ _ l] ok ex_taken_sel(3) by (fastforce simp: ex_mem_def rds_ok_def)
  moreover have "c = c'" using p l by (auto simp: nx_post_rx_descriptors_def Let_def)
  ultimately show "hcard ex_posted 0 = [0, 1]" using p by (simp add: ex_posted_def)
qed

theorem rx_buffers_conserved_witness:
  "list_all (\<lambda>i. b_skb (rh_buf_arr (ra_rds (hx ex_posted) ! 0) ! i) \<noteq> None) (hcard ex_posted 0) \<and> hcard ex_posted 0 = [0, 1]"
  using rx_buffers_conserved [OF ex_posted_reachable ex_rx_new, of 0] ex_posted_sel by simp

text \<open>A buffer the card returns always has its packet: the receive path never meets the null socket buffer for
  which it would halt, the packet it hands up is the one of that buffer, and the buffer goes to the free list of
  the status ring with its count, whether or not memory for the next packet can be had.\<close>

theorem received_packet_present:
  assumes "rx_reachable al a s" "new_adapter a" "r < length (ra_rds (hx s))" "k < length (ra_sds (hx s))" "i \<in> set (hcard s r)"
  shows "case process_rxbuffer al k r cs i (hx s) of
      Some (Some p, b) \<Rightarrow> Some (fst p) = b_skb (rh_buf_arr (ra_rds (hx s) ! r) ! i) \<and>
        sh_free (ra_sds b ! k) ! r = sh_free (ra_sds (hx s) ! k) ! r @ [i] \<and>
        b_skb (rh_buf_arr (ra_rds b ! r) ! i) = map_option (\<lambda>d. ra_allocs (hx s)) (al (ra_allocs (hx s)))
    | x \<Rightarrow> False"
proof -
  let ?a = "hx s" and ?h = "ra_rds (hx s) ! r"
  have sh: "rx_shape ?a" and v: "view_ok ?h (frees r ?a) (hpriv s r) (hcard s r)"
    using rx_reachable_inv [OF assms(1,2)] assms(3) by (simp_all add: rx_inv_def)
  obtain skb where skb: "b_skb (rh_buf_arr ?h ! i) = Some skb" using v assms(5) by (auto simp: view_ok_def)
  have "i < unat (rh_size ?h)" using view_in_range(1) [OF v] assms(5) by auto
  then have len: "i < length (rh_buf_arr ?h)" using v by (simp add: view_ok_def rds_ok_def)
  obtain res b where p: "process_rxbuffer al k r cs i ?a = Some (res, b)"
    using len skb by (fastforce simp: process_rxbuffer_def Let_def split: prod.splits)
  show ?thesis
  proof (rule process_rxbuffer_spec [OF sh assms(4,3) len skb p])
    fix rv h
    assume r: "res = Some (skb, ra_rx_csum ?a \<and> cs = STATUS_CKSUM_OK)"
      and al: "nx_alloc_rx_skb al (ra_allocs ?a) i (?h\<lparr>rh_buf_arr := (rh_buf_arr ?h)[i := (rh_buf_arr ?h ! i)\<lparr>b_skb := None, b_busy := False\<rparr>]\<rparr>) = (rv, h)"
      and rds: "ra_rds b = (ra_rds ?a)[r := if rv \<noteq> 0 then h\<lparr>rh_failures := rh_failures h + 1\<rparr> else h]"
      and l: "length (ra_sds b) = length (ra_sds ?a)"
      and f: "frees r b = (frees r ?a)[k := (fst (frees r ?a ! k) @ [i], snd (frees r ?a ! k) + 1)]"
    have "fst (frees r b ! k) = fst (frees r ?a ! k) @ [i]" using f assms(4) by simp
    then have "sh_free (ra_sds b ! k) ! r = sh_free (ra_sds ?a ! k) ! r @ [i]" using assms(4) l by (simp add: frees_nth)
    moreover have "b_skb (rh_buf_arr (ra_rds b ! r) ! i) = map_option (\<lambda>d. ra_allocs ?a) (al (ra_allocs ?a))"
      using al rds assms(3) len by (auto simp: nx_alloc_rx_skb_def split: option.splits)
    ultimately show ?thesis using p r skb by simp
  qed
qed

theorem received_packet_present_witness:
  "case process_rxbuffer ex_mem 0 0 2 1 (hx ex_posted) of
      Some (Some p, b) \<Rightarrow> Some (fst p) = b_skb (rh_buf_arr (ra_rds (hx ex_posted) ! 0) ! 1) \<and>
        sh_free (ra_sds b ! 0) ! 0 = sh_free (ra_sds (hx ex_posted) ! 0) ! 0 @ [1] \<and>
        b_skb (rh_buf_arr (ra_rds b ! 0) ! 1) = map_option (\<lambda>d. ra_allocs (hx ex_posted)) (ex_mem (ra_allocs (hx ex_posted)))
    | x \<Rightarrow> False"
  using received_packet_present [OF ex_posted_reachable ex_rx_new, of 0 0 1 2] ex_posted_sel by simp

text \<open>C25 Posting a list of buffers gives the card the longest prefix for which memory can be had: descriptor by
  descriptor from the producer on, each with the bus address, the index and the size of its buffer; the rest goes
  to the end of the free list with its count; the register gets the index of the last descriptor written, or
  nothing when there is none; the posting flag is dropped.\<close>

theorem posting_fills_consecutive_descriptors:
  assumes "r < length (ra_rds a)" "rds_ok (ra_rds a ! r)" "list_all (\<lambda>i. i < unat (rh_size (ra_rds a ! r))) fs"
    "length fs \<le> unat (rh_size (ra_rds a ! r))" "n = of_nat (length fs)"
  shows "case nx_post_rx_descriptors al r (fs, n) a of (c, b) \<Rightarrow> case (ra_rds a ! r, ra_rds b ! r) of (h, h') \<Rightarrow>
    c \<le> length fs \<and> (c = length fs \<or> (0 < ra_allocs b \<and> al (ra_allocs b - 1) = None)) \<and>
    list_all (\<lambda>k. desc_for h' (fs ! k) (rh_descs h' ! ((rh_producer h + k) mod unat (rh_size h)))) [0..<c] \<and>
    rh_producer h' = (rh_producer h + c) mod unat (rh_size h) \<and> rh_free h' = rh_free h @ drop c fs \<and>
    rh_free_count h' = rh_free_count h + of_nat (length fs - c) \<and>
    rh_reg h' = rh_reg h @ (if c = 0 then [] else [(of_nat (rh_producer h') - 1) AND (rh_size h - 1)]) \<and> \<not> rh_posting h'"
proof -
  let ?h = "ra_rds a ! r"
  obtain rest p c h1 m f where l: "post_loop al fs (rh_producer ?h) ?h (ra_allocs a) = (rest, p, c, h1, m, f)"
    by (metis prod_cases6)
  have b: "\<forall>i \<in> set fs. i < unat (rh_size ?h)" using assms(3) by (simp add: list_all_iff)
  have pn: "rh_producer ?h < unat (rh_size ?h)" using assms(2) by (simp add: rds_ok_def)
  note L = post_loop_spec [OF assms(2) b pn l] and D = post_loop_descs [OF assms(2) b pn assms(4) l]
  let ?h2 = "if rest \<noteq> [] then h1\<lparr>rh_free := rh_free h1 @ rest, rh_free_count := rh_free_count h1 + (n - of_nat c)\<rparr> else h1"
  let ?reg = "if c \<noteq> 0 then rh_reg h1 @ [(of_nat p - 1) AND (rh_size h1 - 1)] else rh_reg h1"
  let ?h3 = "?h2\<lparr>rh_producer := p, rh_reg := ?reg, rh_posting := False\<rparr>"
  obtain b where pb: "nx_post_rx_descriptors al r (fs, n) a = (c, b)" "ra_rds b = (ra_rds a)[r := ?h3]" "ra_allocs b = m"
    using l by (cases "rest = []"; cases "c = 0") (auto simp: nx_post_rx_descriptors_def Let_def)
  have n: "n - of_nat c = of_nat (length fs - c)" using L assms(5) by (simp add: of_nat_diff)
  have "list_all (\<lambda>k. desc_for ?h3 (fs ! k) (rh_descs ?h3 ! ((rh_producer ?h + k) mod unat (rh_size ?h)))) [0..<c]"
    using D by (auto simp: list_all_iff desc_for_def)
  moreover have "ra_rds b ! r = ?h3" using pb(2) assms(1) by simp
  moreover have "rh_free ?h3 = rh_free ?h @ drop c fs" "rh_free_count ?h3 = rh_free_count ?h + of_nat (length fs - c)"
    using L n by (cases "rest = []"; simp)+
  moreover have "rh_producer ?h3 = (rh_producer ?h + c) mod unat (rh_size ?h)" "\<not> rh_posting ?h3"
    "rh_reg ?h3 = rh_reg ?h @ (if c = 0 then [] else [(of_nat p - 1) AND (rh_size ?h - 1)])" "rh_producer ?h3 = p"
    using L by auto
  moreover have "c \<le> length fs \<and> (c = length fs \<or> (0 < m \<and> al (m - 1) = None))" using L by linarith
  ultimately show ?thesis unfolding pb(1,3) prod.case by simp
qed


theorem posting_fills_consecutive_descriptors_witness:
  "case nx_post_rx_descriptors ex_mem 0 ([1, 0], 2) (initialize_adapter_sw ex_rx) of (c, b) \<Rightarrow> c \<le> 2 \<and> \<not> rh_posting (ra_rds b ! 0)"
proof -
  let ?a = "initialize_adapter_sw ex_rx"
  have "rx_inv (rx_start ex_rx)" and l: "length (ra_rds ?a) = 1" and z: "rh_size (ra_rds ?a ! 0) = 2"
    using rx_start_inv [OF ex_rx_new] ex_rx_lengths by (simp_all add: rx_start_def)
  then have ok: "rds_ok (ra_rds ?a ! 0)" by (simp add: rx_inv_def rx_start_def view_ok_def)
  obtain c b where p: "nx_post_rx_descriptors ex_mem 0 ([1, 0], 2) ?a = (c, b)" by (metis surj_pair)
  have "0 < length (ra_rds ?a)" "list_all (\<lambda>i. i < unat (rh_size (ra_rds ?a ! 0))) [1, 0]" "length [1, 0::nat] \<le> unat (rh_size (ra_rds ?a ! 0))"
    "2 = of_nat (length [1, 0::nat])" using l z by simp_all
  from posting_fills_consecutive_descriptors [OF this(1) ok this(2-4), of ex_mem]
  have "c \<le> length [1, 0::nat] \<and> \<not> rh_posting (ra_rds b ! 0)" unfolding p prod.case by blast
  then show ?thesis unfolding p prod.case by simp
qed

text \<open>Tear-down unmaps and frees exactly the socket buffers the receive buffers hold: the state of a buffer says
  whether it has one, so none is leaked and none that was given away is touched.\<close>

theorem tear_down_frees_held_buffers:
  assumes "rx_reachable al a s" "new_adapter a"
  shows "ra_events (nx_free_rx_resources (hx s)) = ra_events (hx s) @
    concat (map (\<lambda>h. concat (map (\<lambda>b. case b_skb b of None \<Rightarrow> [] | Some p \<Rightarrow> [Unmap (b_dma b), Kfree p]) (rh_buf_arr h))) (ra_rds (hx s)))"
proof -
  have f: "free_bufs bs = concat (map (\<lambda>b. case b_skb b of None \<Rightarrow> [] | Some p \<Rightarrow> [Unmap (b_dma b), Kfree p]) bs)"
    if "\<forall>b \<in> set bs. b_busy b \<longleftrightarrow> b_skb b \<noteq> None" for bs
    using that by (induction bs) (auto split: option.splits)
  have "free_bufs (take (unat (rh_size h)) (rh_buf_arr h)) =
      concat (map (\<lambda>b. case b_skb b of None \<Rightarrow> [] | Some p \<Rightarrow> [Unmap (b_dma b), Kfree p]) (rh_buf_arr h))"
    if h: "h \<in> set (ra_rds (hx s))" for h
  proof -
    have ok: "rds_ok h"
      using rx_reachable_inv [OF assms] h by (auto simp: rx_inv_def view_ok_def in_set_conv_nth)
    then have "\<forall>b \<in> set (rh_buf_arr h). b_busy b \<longleftrightarrow> b_skb b \<noteq> None" by (auto simp: rds_ok_def in_set_conv_nth)
    then show ?thesis using f ok by (simp add: rds_ok_def)
  qed
  then show ?thesis by (simp add: nx_free_rx_resources_def cong: map_cong)
qed

theorem tear_down_frees_held_buffers_witness:
  "\<exists>evs. ra_events (nx_free_rx_resources (hx ex_posted)) = ra_events (hx ex_posted) @ evs"
  using tear_down_frees_held_buffers [OF ex_posted_reachable ex_rx_new] by blast

end
