(* ===== verification/RxRing.thy ===== *)
theory RxRing
  imports RxBuf
begin

text \<open>
  The receive status ring, \<open>driver/unm_nic_main.c\<close>: \<open>unm_process_rcv_ring\<close> reads the status descriptors the card has
  written and dispatches them to \<open>unm_process_rcv\<close> (one packet), \<open>unm_process_lro_contiguous\<close> (a packet aggregated in
  one buffer), \<open>unm_process_lro\<close> (a packet aggregated over several buffers) or the message handlers. A result
  \<^const>\<open>None\<close> is a crash: a \<open>BUG\<close>, or an access outside an array.

  Not in the model: the contents of packets other than the headers \<open>lro2_adjust_skb\<close> and \<open>lro_adjust_head_skb\<close> rewrite,
  the capture buffer of the loopback test, and the effects of the handlers, which are events here.
\<close>

subsection \<open>Status descriptors\<close>

type_synonym sdesc = "u64 \<times> u64"

definition sd_field :: "nat \<Rightarrow> nat \<Rightarrow> u64 \<Rightarrow> nat" where
  "sd_field lo n w = unat (take_bit n (drop_bit lo w))"

definition sd_port :: "sdesc \<Rightarrow> nat" where "sd_port d = sd_field 0 4 (fst d)"
definition sd_status :: "sdesc \<Rightarrow> u64" where "sd_status d = take_bit 4 (drop_bit 4 (fst d))"
definition sd_type :: "sdesc \<Rightarrow> nat" where "sd_type d = sd_field 8 4 (fst d)"
definition sd_totalLength :: "sdesc \<Rightarrow> nat" where "sd_totalLength d = sd_field 12 16 (fst d)"
definition sd_referenceHandle :: "sdesc \<Rightarrow> nat" where "sd_referenceHandle d = sd_field 28 16 (fst d)"
definition sd_prot :: "sdesc \<Rightarrow> nat" where "sd_prot d = sd_field 44 4 (fst d)"
definition sd_pkt_offset :: "sdesc \<Rightarrow> nat" where "sd_pkt_offset d = sd_field 48 5 (fst d)"
definition sd_descCnt :: "sdesc \<Rightarrow> nat" where "sd_descCnt d = sd_field 53 3 (fst d)"
definition sd_owner :: "sdesc \<Rightarrow> nat" where "sd_owner d = sd_field 56 2 (fst d)"
definition sd_opcode :: "sdesc \<Rightarrow> nat" where "sd_opcode d = sd_field 58 6 (fst d)"
definition sd_hashValue :: "sdesc \<Rightarrow> u32" where "sd_hashValue d = ucast (snd d)"

text \<open>\<open>tnic_rxbuff_t\<close>, \<open>nx_lro2_hdr_desc_t\<close>, \<open>nx_lro_hdr_desc_t\<close>, \<open>nx_lro_frags_desc_t\<close>.\<close>

definition tn_ring_type :: "sdesc \<Rightarrow> nat" where "tn_ring_type d = sd_field 40 4 (fst d)"
definition tn_ref_handle :: "sdesc \<Rightarrow> nat" where "tn_ref_handle d = sd_field 32 16 (snd d)"
definition tn_len :: "sdesc \<Rightarrow> nat" where "tn_len d = sd_field 48 16 (snd d)"

definition lro_ref_handle :: "sdesc \<Rightarrow> nat" where "lro_ref_handle d = sd_field 0 16 (fst d)"
definition lro_length :: "sdesc \<Rightarrow> nat" where "lro_length d = sd_field 16 16 (fst d)"
definition lro_l2_hdr_offset :: "sdesc \<Rightarrow> nat" where "lro_l2_hdr_offset d = sd_field 32 8 (fst d)"
definition lro2_l4_hdr_offset :: "sdesc \<Rightarrow> nat" where "lro2_l4_hdr_offset d = sd_field 40 8 (fst d)"
definition lro2_timestamp :: "sdesc \<Rightarrow> bool" where "lro2_timestamp d = bit (fst d) 48"
definition lro2_type :: "sdesc \<Rightarrow> nat" where "lro2_type d = sd_field 49 3 (fst d)"
definition lro_psh :: "sdesc \<Rightarrow> bool" where "lro_psh d = bit (fst d) 52"
definition lro2_seq_number :: "sdesc \<Rightarrow> u32" where "lro2_seq_number d = ucast (snd d)"
definition lro1_data_offset :: "sdesc \<Rightarrow> nat" where "lro1_data_offset d = sd_field 40 8 (fst d)"
definition lro1_count :: "sdesc \<Rightarrow> nat" where "lro1_count d = sd_field 0 8 (snd d)"
definition lro1_type :: "sdesc \<Rightarrow> nat" where "lro1_type d = sd_field 12 4 (snd d)"

definition lro_frags :: "sdesc \<Rightarrow> (nat \<times> nat) list" where
  "lro_frags d = map (\<lambda>(w, o'). (sd_field o' 16 w, sd_field (o' + 16) 16 w)) [(fst d, 0), (fst d, 32), (snd d, 0), (snd d, 32)]"

definition STATUS_OWNER_HOST :: nat where "STATUS_OWNER_HOST = 1"
definition STATUS_OWNER_PHANTOM :: u64 where "STATUS_OWNER_PHANTOM = 2"
definition UNM_MSGTYPE_TNIC_GLOBAL_BUFFERS :: nat where "UNM_MSGTYPE_TNIC_GLOBAL_BUFFERS = 0x01"
definition UNM_MSGTYPE_NIC_SYN_OFFLOAD :: nat where "UNM_MSGTYPE_NIC_SYN_OFFLOAD = 0x03"
definition UNM_MSGTYPE_NIC_RXPKT_DESC :: nat where "UNM_MSGTYPE_NIC_RXPKT_DESC = 0x04"
definition UNM_MSGTYPE_CAPTURE :: nat where "UNM_MSGTYPE_CAPTURE = 0x08"
definition UNM_MSGTYPE_NIC_LRO_CHAINED :: nat where "UNM_MSGTYPE_NIC_LRO_CHAINED = 0x11"
definition UNM_MSGTYPE_NIC_LRO_CONTIGUOUS :: nat where "UNM_MSGTYPE_NIC_LRO_CONTIGUOUS = 0x12"
definition NX_PROT_NIC_ICMP :: nat where "NX_PROT_NIC_ICMP = 2"
definition NX_LRO_CHECK_INTVL :: u64 where "NX_LRO_CHECK_INTVL = 0x7ff"
definition NX_MAX_PKTS_PER_LRO :: nat where "NX_MAX_PKTS_PER_LRO = 10"
definition NX_1K_PER_LRO :: nat where "NX_1K_PER_LRO = 16"
definition TCP_HDR_SIZE :: nat where "TCP_HDR_SIZE = 20"
definition TCP_TS_OPTION_SIZE :: nat where "TCP_TS_OPTION_SIZE = 12"
definition TCP_TS_HDR_SIZE :: nat where "TCP_TS_HDR_SIZE = TCP_HDR_SIZE + TCP_TS_OPTION_SIZE"
definition ETH_HLEN :: u32 where "ETH_HLEN = 14"
definition VLAN_HLEN :: u32 where "VLAN_HLEN = 4"

text \<open>The descriptor's test \<open>owner & STATUS_OWNER_HOST\<close>, and handing it back.\<close>

definition host_owned :: "sdesc \<Rightarrow> bool" where
  "host_owned d \<longleftrightarrow> bit (fst d) 56"

definition release_desc :: "sdesc \<Rightarrow> sdesc" where
  "release_desc d = ((fst d AND NOT (push_bit 56 3)) OR push_bit 56 STATUS_OWNER_PHANTOM, snd d)"

text \<open>
  What surrounds the ring: the outcome of allocations; which packets carry a VLAN tag; whether the stack accepts a
  packet; which handlers are registered and what they answer for a packet; the opcodes the firmware uses.
\<close>

record rx_env =
  re_alloc :: "nat \<Rightarrow> u64 option"
  re_vlan :: "nat \<Rightarrow> bool"
  re_up :: "nat \<Rightarrow> bool"
  re_registered :: "nat \<Rightarrow> bool"
  re_answer :: "nat \<Rightarrow> nat \<Rightarrow> int"
  re_rx_desc :: nat
  re_sync_offload :: nat

subsection \<open>One packet\<close>

definition count_packet :: "nat \<Rightarrow> u64 \<Rightarrow> rx_adapter \<Rightarrow> rx_adapter" where
  "count_packet r len a =
     (let h = ra_rds a ! r in
      (set_rds r (h\<lparr>rh_no_rcv := rh_no_rcv h + 1, rh_rxbytes := rh_rxbytes h + len\<rparr>) a)
        \<lparr>ra_no_rcv := ra_no_rcv a + 1, ra_rxbytes := ra_rxbytes a + len\<rparr>)"

text \<open>A received packet on its way up, from \<open>skb_put\<close> on.\<close>

definition tell :: "bool \<Rightarrow> rx_event \<Rightarrow> rx_adapter \<Rightarrow> rx_adapter" where
  "tell c x a = (if c then emit x a else a)"

definition deliver_packet :: "rx_env \<Rightarrow> nat \<Rightarrow> sdesc \<Rightarrow> nat \<Rightarrow> nat \<Rightarrow> bool \<Rightarrow> rx_adapter \<Rightarrow> rx_adapter" where
  "deliver_packet e r d len skb good a =
     (let put = (if of_nat len < rh_buff_size (ra_rds a ! r) then of_nat len else rh_buff_size (ra_rds a ! r)) in
      if \<not> ra_running a then emit (Kfree skb) a
      else
        let syn = (sd_opcode d = re_sync_offload e \<and> re_registered e UNM_MSGTYPE_NIC_SYN_OFFLOAD);
            cap = (sd_opcode d \<noteq> re_sync_offload e \<and> sd_opcode d = UNM_MSGTYPE_CAPTURE);
            a = tell syn (Callback (of_nat UNM_MSGTYPE_NIC_SYN_OFFLOAD) skb) a;
            a = tell cap (Callback (of_nat UNM_MSGTYPE_CAPTURE) skb) a
        in if (syn \<and> re_answer e UNM_MSGTYPE_NIC_SYN_OFFLOAD skb = 0) \<or> (cap \<and> re_answer e UNM_MSGTYPE_CAPTURE skb \<noteq> 0) then
             count_packet r (of_nat len) (emit (Kfree skb) a)
           else
             let a = tell (sd_prot d = NX_PROT_NIC_ICMP \<and> sd_opcode d = UNM_MSGTYPE_NIC_RXPKT_DESC) (Callback (of_nat NX_PROT_NIC_ICMP) skb) a;
                 a = tell (ra_uphappy a AND NX_LRO_CHECK_INTVL = 0 \<and> ra_lro_enabled a \<and> ra_rx_csum a)
                       (Lro_inspect skb (sd_hashValue d) (of_nat (sd_port d))) a;
                 a = emit (Stack skb put (of_nat (sd_pkt_offset d)) good) a
             in count_packet r (of_nat len) (a\<lparr>ra_uphappy := ra_uphappy a + of_bool (re_up e skb)\<rparr>))"

definition unm_process_rcv :: "rx_env \<Rightarrow> nat \<Rightarrow> sdesc \<Rightarrow> rx_adapter \<Rightarrow> rx_adapter option" where
  "unm_process_rcv e k d a =
     (let tnic = (sd_opcode d = UNM_MSGTYPE_TNIC_GLOBAL_BUFFERS);
          index = (if tnic then tn_ref_handle d else sd_referenceHandle d);
          r = (if tnic then tn_ring_type d else sd_type d);
          len = (if tnic then tn_len d else sd_totalLength d)
      in if length (ra_rds a) \<le> r then Some a
         else if unat (rh_size (ra_rds a ! r)) < index then Some a
         else if low_on_buffers (ra_rds a ! r) then repost_buffer k r index a
         else (case process_rxbuffer (re_alloc e) k r (sd_status d) index a of
             None \<Rightarrow> None
           | Some (None, a) \<Rightarrow> None
           | Some (Some (skb, good), a) \<Rightarrow>
               Some (if tnic then
                       (if re_registered e UNM_MSGTYPE_TNIC_GLOBAL_BUFFERS
                        then emit (Callback (of_nat UNM_MSGTYPE_TNIC_GLOBAL_BUFFERS) skb) a
                        else emit (Kfree skb) a)
                     else deliver_packet e r d len skb good a)))"

subsection \<open>Aggregated packets\<close>

text \<open>\<open>unm_process_lro_contiguous\<close>. \<open>put_len\<close> is what is left after the link header has been taken off.\<close>

definition stack_len :: "rx_env \<Rightarrow> nat \<Rightarrow> u32 \<Rightarrow> u32 \<Rightarrow> u32" where
  "stack_len e skb put pull = put - pull - (if re_vlan e skb then VLAN_HLEN else 0) - ETH_HLEN"

definition unm_process_lro_contiguous :: "rx_env \<Rightarrow> nat \<Rightarrow> sdesc \<Rightarrow> rx_adapter \<Rightarrow> rx_adapter option" where
  "unm_process_lro_contiguous e k d a =
     (let r = lro2_type d in
      if r \<noteq> 1 then Some a
      else if length (ra_rds a) \<le> r then None
      else
        let idx = min (lro_length d div 1024) (NX_1K_PER_LRO - 1);
            a = a\<lparr>ra_lro_contiguous := ra_lro_contiguous a + 1,
                  ra_lro_bufsize := (ra_lro_bufsize a)[idx := ra_lro_bufsize a ! idx + 1]\<rparr>;
            h = ra_rds a ! r
        in if low_on_buffers h then
             let a = a\<lparr>ra_crunch := ra_crunch a + 1\<rparr> in
             if unat (rh_size h) \<le> lro_ref_handle d then None else repost_buffer k r (lro_ref_handle d) a
           else (case process_rxbuffer (re_alloc e) k r STATUS_CKSUM_OK (lro_ref_handle d) a of
               None \<Rightarrow> None
             | Some (None, a) \<Rightarrow> None
             | Some (Some (skb, good), a) \<Rightarrow>
                 let put = of_nat (lro2_l4_hdr_offset d + (if lro2_timestamp d then TCP_TS_HDR_SIZE else TCP_HDR_SIZE) + lro_length d);
                     pull = of_nat (lro_l2_hdr_offset d)
                 in Some (if \<not> ra_running a then emit (Kfree skb) a
                          else count_packet r (ucast (stack_len e skb put pull)) (emit (Lro_stack skb put pull d) a))))"

text \<open>The loop over the fragments of a chained packet: \<open>None\<close> is a bad handle or a missing packet.\<close>

fun lro_chain ::
    "rx_env \<Rightarrow> nat \<Rightarrow> nat \<Rightarrow> nat \<Rightarrow> (nat \<times> nat) list \<Rightarrow> nat \<Rightarrow> rx_adapter \<Rightarrow> ((nat \<times> u32 \<times> u32) list \<times> u32 \<times> rx_adapter) option" where
  "lro_chain e k r off [] n a = Some ([], 0, a)"
| "lro_chain e k r off (f # fs) n a =
     (if n = 0 then Some ([], 0, a)
      else if unat (rh_size (ra_rds a ! r)) \<le> fst f then None
      else (case process_rxbuffer (re_alloc e) k r STATUS_CKSUM_OK (fst f) a of
          None \<Rightarrow> None
        | Some (None, a) \<Rightarrow> None
        | Some (Some (skb, good), a) \<Rightarrow>
            (case lro_chain e k r off fs (n - 1) a of
               None \<Rightarrow> None
             | Some (ps, tot, a) \<Rightarrow> Some ((skb, of_nat (off + snd f), of_nat off) # ps, of_nat (snd f) + tot, a))))"

definition unm_process_lro :: "rx_env \<Rightarrow> nat \<Rightarrow> sdesc \<Rightarrow> sdesc list \<Rightarrow> rx_adapter \<Rightarrow> rx_adapter option" where
  "unm_process_lro e k d ds a =
     (let n = lro1_count d; r = lro1_type d in
      if r \<noteq> 0 then Some a
      else if length (ra_rds a) \<le> r \<or> n = 0 then None
      else
        let a = a\<lparr>ra_lro_chained := ra_lro_chained a + 1\<rparr>;
            a = (if n \<le> NX_MAX_PKTS_PER_LRO then a\<lparr>ra_lro_accum := (ra_lro_accum a)[n - 1 := ra_lro_accum a ! (n - 1) + 1]\<rparr> else a)
        in (case process_rxbuffer (re_alloc e) k r STATUS_CKSUM_OK (lro_ref_handle d) a of
              None \<Rightarrow> None
            | Some (None, a) \<Rightarrow> None
            | Some (Some (skb, good), a) \<Rightarrow>
                let put = of_nat (lro1_data_offset d + lro_length d); pull = of_nat (lro_l2_hdr_offset d) in
                (case lro_chain e k r (lro1_data_offset d) (concat (map lro_frags ds)) (n - 1) a of
                   None \<Rightarrow> None
                 | Some (ps, tot, a) \<Rightarrow>
                     Some (if \<not> ra_running a then emit (Kfree skb) a
                           else (emit (Lro_chain skb put pull ps) a)
                             \<lparr>ra_no_rcv := ra_no_rcv a + 1,
                              ra_rxbytes := ra_rxbytes a + ucast (put - pull - ETH_HLEN + tot)\<rparr>))))"

subsection \<open>Headers of an aggregated packet\<close>

text \<open>
  \<open>lro2_adjust_skb\<close> and \<open>lro_adjust_head_skb\<close> on the bytes from the IP header on; \<open>csum\<close> is the kernel's
  \<open>ip_fast_csum\<close> over the IP header.
\<close>

definition be16 :: "u16 \<Rightarrow> u8 list" where
  "be16 v = [ucast (drop_bit 8 v), ucast v]"

definition be32 :: "u32 \<Rightarrow> u8 list" where
  "be32 v = [ucast (drop_bit 24 v), ucast (drop_bit 16 v), ucast (drop_bit 8 v), ucast v]"

definition get16 :: "u8 list \<Rightarrow> nat \<Rightarrow> u16" where
  "get16 bs i = push_bit 8 (ucast (bs ! i)) OR ucast (bs ! (i + 1))"

definition put_bytes :: "nat \<Rightarrow> u8 list \<Rightarrow> u8 list \<Rightarrow> u8 list" where
  "put_bytes i vs bs = take i bs @ vs @ drop (i + length vs) bs"

definition ip_hlen :: "u8 list \<Rightarrow> nat" where
  "ip_hlen bs = unat (bs ! 0 AND 0x0F) * 4"

definition tcp_hlen :: "u8 list \<Rightarrow> nat" where
  "tcp_hlen bs = unat (drop_bit 4 (bs ! (ip_hlen bs + 12))) * 4"

definition set_tot_len :: "(u8 list \<Rightarrow> u16) \<Rightarrow> u16 \<Rightarrow> u8 list \<Rightarrow> u8 list" where
  "set_tot_len csum len bs =
     (let bs = put_bytes 10 (be16 0) (put_bytes 2 (be16 len) bs)
      in put_bytes 10 (be16 (csum (take (ip_hlen bs) bs))) bs)"

definition set_psh :: "bool \<Rightarrow> u8 list \<Rightarrow> u8 list" where
  "set_psh p bs = (let i = ip_hlen bs + 13 in bs[i := (if p then bs ! i OR 8 else bs ! i AND NOT 8)])"

definition lro2_adjust_skb :: "(u8 list \<Rightarrow> u16) \<Rightarrow> sdesc \<Rightarrow> u8 list \<Rightarrow> u8 list" where
  "lro2_adjust_skb csum d bs =
     (let bs = set_tot_len csum (of_nat (ip_hlen bs + tcp_hlen bs + lro_length d)) bs
      in put_bytes (ip_hlen bs + 4) (be32 (lro2_seq_number d)) (set_psh (lro_psh d) bs))"

text \<open>\<open>tail\<close> is the last buffer from its TCP header on: its acknowledgement, and its timestamps if there are options,
  replace the head's.\<close>

definition lro_adjust_head_skb :: "(u8 list \<Rightarrow> u16) \<Rightarrow> sdesc \<Rightarrow> u16 \<Rightarrow> u8 list \<Rightarrow> u8 list \<Rightarrow> u8 list" where
  "lro_adjust_head_skb csum d incr tail bs =
     (let bs = set_psh (lro_psh d) (set_tot_len csum (get16 bs 2 + incr) bs);
          th = ip_hlen bs;
          bs = put_bytes (th + 8) (take 4 (drop 8 tail)) bs
      in if 20 < tcp_hlen bs then put_bytes (th + TCP_HDR_SIZE) (take TCP_TS_OPTION_SIZE (drop TCP_HDR_SIZE tail)) bs else bs)"

subsection \<open>The ring\<close>

definition sds_desc :: "nat \<Rightarrow> u32 \<Rightarrow> rx_adapter \<Rightarrow> sdesc" where
  "sds_desc k c a = sh_descs (ra_sds a ! k) ! unat c"

definition release_at :: "nat \<Rightarrow> u32 \<Rightarrow> rx_adapter \<Rightarrow> rx_adapter" where
  "release_at k c a =
     (let s = ra_sds a ! k in set_sds k (s\<lparr>sh_descs := (sh_descs s)[unat c := release_desc (sh_descs s ! unat c)]\<rparr>) a)"

definition next_consumer :: "rx_adapter \<Rightarrow> u32 \<Rightarrow> u32" where
  "next_consumer a c = (c + 1) AND (ra_max_rx_desc a - 1)"

text \<open>Reads and releases the \<open>n\<close> descriptors behind the consumer; also the consumer they leave.\<close>

fun take_descs :: "nat \<Rightarrow> nat \<Rightarrow> u32 \<Rightarrow> rx_adapter \<Rightarrow> sdesc list \<times> u32 \<times> rx_adapter" where
  "take_descs k 0 c a = ([], c, a)"
| "take_descs k (Suc n) c a =
     (let c = next_consumer a c; d = sds_desc k c a in
      case take_descs k n c (release_at k c a) of (ds, c', a') \<Rightarrow> (d # ds, c', a'))"

text \<open>
  One turn of the loop. \<open>Wait\<close>: the message at the consumer is not complete yet. \<open>Next\<close>: it has been dealt with, and
  the consumer is at its last descriptor, which is still to be released.
\<close>

datatype ring_turn =
    Wait nat
  | Next u32 rx_adapter

definition ring_turn :: "rx_env \<Rightarrow> nat \<Rightarrow> nat \<Rightarrow> u32 \<Rightarrow> rx_adapter \<Rightarrow> ring_turn option" where
  "ring_turn e k cnt c a =
     (let d = sds_desc k c a; op' = sd_opcode d; n = sd_descCnt d in
      if \<not> host_owned d then Some (Wait cnt)
      else if op' = re_rx_desc e \<or> op' = re_sync_offload e \<or> op' = UNM_MSGTYPE_TNIC_GLOBAL_BUFFERS then
        map_option (Next c) (unm_process_rcv e k d a)
      else if op' = UNM_MSGTYPE_NIC_LRO_CONTIGUOUS then
        map_option (Next c) (unm_process_lro_contiguous e k d a)
      else if op' = UNM_MSGTYPE_NIC_LRO_CHAINED then
        (if \<not> host_owned (sds_desc k ((c + (of_nat n - 1)) AND (ra_max_rx_desc a - 1)) a) then Some (Wait (if cnt \<noteq> 0 then 1 else 0))
         else (case take_descs k (n - 2) c (release_at k c a) of
             (ds, c', a') \<Rightarrow> map_option (Next (next_consumer a c')) (unm_process_lro e k d ds a')))
      else if 1 < n then
        (if \<not> host_owned (sds_desc k ((c + of_nat n - 1) AND (ra_max_rx_desc a - 1)) a) then Some (Wait cnt)
         else if 5 < n then None
         else (case take_descs k (n - 2) c (release_at k c a) of
             (ds, c', a') \<Rightarrow> Some (Next (next_consumer a c')
               (emit (Message (fst d) (snd d # concat (map (\<lambda>x. [fst x, snd x]) ds))) a'))))
      else Some (Next c (emit (Message (fst d) [fst d, snd d]) a)))"

text \<open>The loop, with the turns that are left; the result is the count, the consumer and the adapter.\<close>

fun ring_loop :: "rx_env \<Rightarrow> nat \<Rightarrow> nat \<Rightarrow> nat \<Rightarrow> u32 \<Rightarrow> rx_adapter \<Rightarrow> (nat \<times> u32 \<times> rx_adapter) option" where
  "ring_loop e k 0 cnt c a = Some (cnt, c, a)"
| "ring_loop e k (Suc m) cnt c a =
     (case ring_turn e k cnt c a of
        None \<Rightarrow> None
      | Some (Wait cnt) \<Rightarrow> Some (cnt, c, a)
      | Some (Next c a) \<Rightarrow> ring_loop e k m (cnt + 1) (next_consumer a c) (release_at k c a))"

definition unm_process_rcv_ring :: "rx_env \<Rightarrow> nat \<Rightarrow> nat \<Rightarrow> rx_adapter \<Rightarrow> (nat \<times> rx_adapter) option" where
  "unm_process_rcv_ring e k max' a =
     (let s = ra_sds a ! k in
      case ring_loop e k max' 0 (sh_consumer s) (set_sds k (s\<lparr>sh_polled := sh_polled s + 1\<rparr>) a) of
        None \<Rightarrow> None
      | Some (cnt, c, a) \<Rightarrow>
          let a = nx_post_freed_rxbufs (re_alloc e) k a; s = ra_sds a ! k
          in Some (cnt, if cnt \<noteq> 0 then set_sds k (s\<lparr>sh_consumer := c, sh_reg := sh_reg s @ [c]\<rparr>) a else a))"


subsection \<open>The ring as a queue of messages\<close>

text \<open>
  What the ring holds from the consumer on, as a function of the descriptors alone: the complete messages, each its
  first descriptor and those behind it that are read, with the consumer and the descriptors they leave.
\<close>

fun take_list :: "u32 \<Rightarrow> nat \<Rightarrow> u32 \<Rightarrow> sdesc list \<Rightarrow> sdesc list \<times> u32 \<times> sdesc list" where
  "take_list mx 0 c D = ([], c, D)"
| "take_list mx (Suc n) c D =
     (let c = (c + 1) AND (mx - 1) in
      case take_list mx n c (D[unat c := release_desc (D ! unat c)]) of (ds, c', D') \<Rightarrow> (D ! unat c # ds, c', D'))"

definition single_desc :: "rx_env \<Rightarrow> sdesc \<Rightarrow> bool" where
  "single_desc e d \<longleftrightarrow> sd_opcode d \<in> {re_rx_desc e, re_sync_offload e, UNM_MSGTYPE_TNIC_GLOBAL_BUFFERS, UNM_MSGTYPE_NIC_LRO_CONTIGUOUS} \<or>
     (sd_opcode d \<noteq> UNM_MSGTYPE_NIC_LRO_CHAINED \<and> sd_descCnt d \<le> 1)"

fun ring_parse :: "rx_env \<Rightarrow> u32 \<Rightarrow> nat \<Rightarrow> u32 \<Rightarrow> sdesc list \<Rightarrow> (sdesc \<times> sdesc list) list \<times> u32 \<times> sdesc list" where
  "ring_parse e mx 0 c D = ([], c, D)"
| "ring_parse e mx (Suc m) c D =
     (let d = D ! unat c in
      if \<not> host_owned d then ([], c, D)
      else if single_desc e d then
        (case ring_parse e mx m ((c + 1) AND (mx - 1)) (D[unat c := release_desc d]) of (ms, c', D') \<Rightarrow> ((d, []) # ms, c', D'))
      else if \<not> host_owned (D ! unat ((c + of_nat (sd_descCnt d) - 1) AND (mx - 1))) then ([], c, D)
      else (case take_list mx (sd_descCnt d - 2) c (D[unat c := release_desc d]) of (ds, c1, D1) \<Rightarrow>
        let c2 = (c1 + 1) AND (mx - 1) in
        case ring_parse e mx m ((c2 + 1) AND (mx - 1)) (D1[unat c2 := release_desc (D1 ! unat c2)]) of
          (ms, c', D') \<Rightarrow> ((d, ds) # ms, c', D')))"

text \<open>What the driver does with one message, and with a sequence of them.\<close>

definition dispatch :: "rx_env \<Rightarrow> nat \<Rightarrow> sdesc \<times> sdesc list \<Rightarrow> rx_adapter \<Rightarrow> rx_adapter option" where
  "dispatch e k msg a =
     (case msg of (d, ds) \<Rightarrow>
        if sd_opcode d = re_rx_desc e \<or> sd_opcode d = re_sync_offload e \<or> sd_opcode d = UNM_MSGTYPE_TNIC_GLOBAL_BUFFERS
        then unm_process_rcv e k d a
        else if sd_opcode d = UNM_MSGTYPE_NIC_LRO_CONTIGUOUS then unm_process_lro_contiguous e k d a
        else if sd_opcode d = UNM_MSGTYPE_NIC_LRO_CHAINED then unm_process_lro e k d ds a
        else if 5 < sd_descCnt d then None
        else if 1 < sd_descCnt d then Some (emit (Message (fst d) (snd d # concat (map (\<lambda>x. [fst x, snd x]) ds))) a)
        else Some (emit (Message (fst d) [fst d, snd d]) a))"

fun dispatch_all :: "rx_env \<Rightarrow> nat \<Rightarrow> (sdesc \<times> sdesc list) list \<Rightarrow> rx_adapter \<Rightarrow> rx_adapter option" where
  "dispatch_all e k [] a = Some a"
| "dispatch_all e k (msg # ms) a = (case dispatch e k msg a of None \<Rightarrow> None | Some b \<Rightarrow> dispatch_all e k ms b)"

definition set_descs :: "nat \<Rightarrow> sdesc list \<Rightarrow> rx_adapter \<Rightarrow> rx_adapter" where
  "set_descs k D a = set_sds k ((ra_sds a ! k)\<lparr>sh_descs := D\<rparr>) a"

lemma set_descs_sel [simp]:
  "ra_rds (set_descs k D a) = ra_rds a" "length (ra_sds (set_descs k D a)) = length (ra_sds a)"
  "ra_allocs (set_descs k D a) = ra_allocs a" "ra_rx_csum (set_descs k D a) = ra_rx_csum a" "ra_running (set_descs k D a) = ra_running a"
  "ra_max_rx_desc (set_descs k D a) = ra_max_rx_desc a" "ra_uphappy (set_descs k D a) = ra_uphappy a"
  "ra_lro_enabled (set_descs k D a) = ra_lro_enabled a"
  by (simp_all add: set_descs_def set_sds_def)

lemma set_descs_nth [simp]: "k < length (ra_sds a) \<Longrightarrow> ra_sds (set_descs k D a) ! k = (ra_sds a ! k)\<lparr>sh_descs := D\<rparr>"
  by (simp add: set_descs_def)

lemma set_descs_twice [simp]: "k < length (ra_sds a) \<Longrightarrow> set_descs k D' (set_descs k D a) = set_descs k D' a"
  by (simp add: set_descs_def set_sds_def)

lemma set_descs_same: "set_descs k (sh_descs (ra_sds a ! k)) a = a"
  by (simp add: set_descs_def set_sds_def)

lemma sds_desc_set [simp]: "k < length (ra_sds a) \<Longrightarrow> sds_desc k c (set_descs k D a) = D ! unat c"
  by (simp add: sds_desc_def)

lemma release_at_set: "k < length (ra_sds a) \<Longrightarrow>
    release_at k c (set_descs k D a) = set_descs k (D[unat c := release_desc (D ! unat c)]) a"
  by (simp add: release_at_def set_descs_def set_sds_def Let_def)

lemma take_descs_set: "k < length (ra_sds a) \<Longrightarrow> mx = ra_max_rx_desc a \<Longrightarrow>
    take_descs k n c (set_descs k D a) = (case take_list mx n c D of (ds, c', D') \<Rightarrow> (ds, c', set_descs k D' a))"
  by (induction n arbitrary: c D) (simp_all add: Let_def next_consumer_def release_at_set split: prod.splits)

text \<open>Dealing with a message neither reads nor writes the descriptors.\<close>

lemma emit_set_descs [simp]: "emit x (set_descs k D a) = set_descs k D (emit x a)"
  by (simp add: emit_def set_descs_def set_sds_def)

lemma tell_set_descs [simp]: "tell c x (set_descs k D a) = set_descs k D (tell c x a)"
  by (simp add: tell_def)

lemma tell_sel [simp]:
  "ra_rds (tell c x a) = ra_rds a" "ra_sds (tell c x a) = ra_sds a" "ra_uphappy (tell c x a) = ra_uphappy a"
  "ra_lro_enabled (tell c x a) = ra_lro_enabled a" "ra_rx_csum (tell c x a) = ra_rx_csum a" "ra_running (tell c x a) = ra_running a"
  by (simp_all add: tell_def emit_def)

lemma set_rds_set_descs [simp]: "set_rds r h (set_descs k D a) = set_descs k D (set_rds r h a)"
  by (simp add: set_rds_def set_descs_def set_sds_def)

lemma sh_descs_outwards:
  "s\<lparr>sh_descs := D, sh_free_count := x\<rparr> = s\<lparr>sh_free_count := x, sh_descs := D\<rparr>"
  "s\<lparr>sh_descs := D, sh_free := y\<rparr> = s\<lparr>sh_free := y, sh_descs := D\<rparr>"
  "s\<lparr>sh_descs := D, sh_count := z\<rparr> = s\<lparr>sh_count := z, sh_descs := D\<rparr>"
  by (cases s; simp)+

lemma put_freed_set_descs [simp]: "k < length (ra_sds a) \<Longrightarrow> put_freed k r i (set_descs k D a) = set_descs k D (put_freed k r i a)"
  by (simp add: put_freed_def set_descs_def set_sds_def Let_def sh_descs_outwards)

lemma count_packet_set_descs [simp]: "count_packet r n (set_descs k D a) = set_descs k D (count_packet r n a)"
  by (simp add: count_packet_def set_rds_def set_descs_def set_sds_def Let_def)

lemma count_set_descs [simp]:
  "(set_descs k D a)\<lparr>ra_uphappy := x\<rparr> = set_descs k D (a\<lparr>ra_uphappy := x\<rparr>)"
  by (simp add: set_descs_def set_sds_def)

lemma length_sds [simp]: "length (ra_sds (emit x a)) = length (ra_sds a)" "length (ra_sds (set_rds r h a)) = length (ra_sds a)"
    "length (ra_sds (put_freed k r i a)) = length (ra_sds a)" "length (ra_sds (count_packet r n a)) = length (ra_sds a)"
  by (simp_all add: put_freed_def count_packet_def Let_def set_rds_def)

lemma process_rxbuffer_set_descs:
  "k < length (ra_sds a) \<Longrightarrow>
   process_rxbuffer al k r cs i (set_descs k D a) = map_option (\<lambda>(x, b). (x, set_descs k D b)) (process_rxbuffer al k r cs i a)"
  by (auto simp: process_rxbuffer_def Let_def emit_def set_rds_def set_descs_def set_sds_def put_freed_def sh_descs_outwards
      split: option.split prod.split)

lemma process_rxbuffer_length:
  "process_rxbuffer al k r cs i a = Some (x, b) \<Longrightarrow> length (ra_sds b) = length (ra_sds a) \<and> ra_max_rx_desc b = ra_max_rx_desc a"
  by (auto simp: process_rxbuffer_def Let_def emit_def set_rds_def set_sds_def put_freed_def split: option.splits prod.splits if_splits)

lemma repost_set_descs:
  "k < length (ra_sds a) \<Longrightarrow> repost_buffer k r i (set_descs k D a) = map_option (set_descs k D) (repost_buffer k r i a)"
  by (simp add: repost_buffer_def Let_def)

lemma repost_length: "repost_buffer k r i a = Some b \<Longrightarrow> length (ra_sds b) = length (ra_sds a) \<and> ra_max_rx_desc b = ra_max_rx_desc a"
  by (auto simp: repost_buffer_def Let_def put_freed_def set_rds_def set_sds_def split: if_splits)

lemma deliver_packet_set_descs:
  "k < length (ra_sds a) \<Longrightarrow> deliver_packet e r d n skb good (set_descs k D a) = set_descs k D (deliver_packet e r d n skb good a)"
  by (simp add: deliver_packet_def Let_def)

lemma unm_process_rcv_set_descs:
  "k < length (ra_sds a) \<Longrightarrow> unm_process_rcv e k d (set_descs k D a) = map_option (set_descs k D) (unm_process_rcv e k d a)"
  by (auto simp: unm_process_rcv_def Let_def repost_set_descs process_rxbuffer_set_descs deliver_packet_set_descs process_rxbuffer_length
      split: option.splits)

lemma lro_counts_set_descs [simp]:
  "(set_descs k D a)\<lparr>ra_lro_contiguous := x1\<rparr> = set_descs k D (a\<lparr>ra_lro_contiguous := x1\<rparr>)"
  "(set_descs k D a)\<lparr>ra_lro_bufsize := x2\<rparr> = set_descs k D (a\<lparr>ra_lro_bufsize := x2\<rparr>)"
  "(set_descs k D a)\<lparr>ra_crunch := x3\<rparr> = set_descs k D (a\<lparr>ra_crunch := x3\<rparr>)"
  "(set_descs k D a)\<lparr>ra_lro_chained := x3\<rparr> = set_descs k D (a\<lparr>ra_lro_chained := x3\<rparr>)"
  "(set_descs k D a)\<lparr>ra_lro_accum := x2\<rparr> = set_descs k D (a\<lparr>ra_lro_accum := x2\<rparr>)"
  "(set_descs k D a)\<lparr>ra_no_rcv := x1\<rparr> = set_descs k D (a\<lparr>ra_no_rcv := x1\<rparr>)"
  "(set_descs k D a)\<lparr>ra_rxbytes := x1\<rparr> = set_descs k D (a\<lparr>ra_rxbytes := x1\<rparr>)"
  by (simp_all add: set_descs_def set_sds_def)

lemma lro_counts_sel [simp]:
  "ra_lro_contiguous (set_descs k D a) = ra_lro_contiguous a" "ra_lro_bufsize (set_descs k D a) = ra_lro_bufsize a"
  "ra_crunch (set_descs k D a) = ra_crunch a" "ra_lro_chained (set_descs k D a) = ra_lro_chained a"
  "ra_lro_accum (set_descs k D a) = ra_lro_accum a" "ra_no_rcv (set_descs k D a) = ra_no_rcv a" "ra_rxbytes (set_descs k D a) = ra_rxbytes a"
  by (simp_all add: set_descs_def set_sds_def)

lemma unm_process_lro_contiguous_set_descs:
  "k < length (ra_sds a) \<Longrightarrow>
   unm_process_lro_contiguous e k d (set_descs k D a) = map_option (set_descs k D) (unm_process_lro_contiguous e k d a)"
  by (auto simp: unm_process_lro_contiguous_def Let_def repost_set_descs process_rxbuffer_set_descs process_rxbuffer_length
      split: option.splits)

lemma lro_chain_set_descs:
  "k < length (ra_sds a) \<Longrightarrow>
   lro_chain e k r off fs n (set_descs k D a) = map_option (\<lambda>(ps, t, b). (ps, t, set_descs k D b)) (lro_chain e k r off fs n a)"
proof (induction fs arbitrary: n a)
  case (Cons f fs)
  show ?case
  proof (cases "n = 0 \<or> unat (rh_size (ra_rds a ! r)) \<le> fst f")
    case True
    then show ?thesis by auto
  next
    case False
    show ?thesis
    proof (cases "process_rxbuffer (re_alloc e) k r STATUS_CKSUM_OK (fst f) a")
      case None
      then show ?thesis using False Cons.prems by (simp add: process_rxbuffer_set_descs)
    next
      case (Some x)
      obtain p b where x: "x = (p, b)" by (metis surj_pair)
      have "k < length (ra_sds b)" using process_rxbuffer_length Some x Cons.prems by metis
      from Cons.IH [OF this] show ?thesis
        using False Cons.prems Some x by (simp add: process_rxbuffer_set_descs split: option.split prod.split)
    qed
  qed
qed simp

lemma unm_process_lro_set_descs:
  "k < length (ra_sds a) \<Longrightarrow> unm_process_lro e k d ds (set_descs k D a) = map_option (set_descs k D) (unm_process_lro e k d ds a)"
  by (auto simp: unm_process_lro_def Let_def process_rxbuffer_set_descs process_rxbuffer_length lro_chain_set_descs
      split: option.splits)

lemma dispatch_set_descs:
  "k < length (ra_sds a) \<Longrightarrow> dispatch e k msg (set_descs k D a) = map_option (set_descs k D) (dispatch e k msg a)"
  by (cases msg) (simp add: dispatch_def unm_process_rcv_set_descs unm_process_lro_contiguous_set_descs unm_process_lro_set_descs)

lemma deliver_packet_length [simp]:
  "length (ra_sds (deliver_packet e r d n skb good a)) = length (ra_sds a)" "ra_max_rx_desc (deliver_packet e r d n skb good a) = ra_max_rx_desc a"
  by (simp_all add: deliver_packet_def Let_def tell_def emit_def count_packet_def set_rds_def)

lemma emit_max [simp]: "ra_max_rx_desc (emit x a) = ra_max_rx_desc a"
  by (simp add: emit_def)

lemma count_packet_max [simp]: "ra_max_rx_desc (count_packet r n a) = ra_max_rx_desc a"
  by (simp add: count_packet_def Let_def set_rds_def)

lemma unm_process_rcv_length:
  "unm_process_rcv e k d a = Some b \<Longrightarrow> length (ra_sds b) = length (ra_sds a) \<and> ra_max_rx_desc b = ra_max_rx_desc a"
  by (auto simp: unm_process_rcv_def Let_def dest!: process_rxbuffer_length repost_length split: if_splits option.splits)

lemma unm_process_lro_contiguous_length:
  "unm_process_lro_contiguous e k d a = Some b \<Longrightarrow> length (ra_sds b) = length (ra_sds a) \<and> ra_max_rx_desc b = ra_max_rx_desc a"
  by (auto simp: unm_process_lro_contiguous_def Let_def dest!: process_rxbuffer_length repost_length split: if_splits option.splits)

lemma lro_chain_length:
  "lro_chain e k r off fs n a = Some (ps, t, b) \<Longrightarrow> length (ra_sds b) = length (ra_sds a) \<and> ra_max_rx_desc b = ra_max_rx_desc a"
proof (induction fs arbitrary: n a ps t)
  case (Cons f fs)
  show ?case
  proof (cases "n = 0")
    case False
    then obtain x c ps' t' where p: "process_rxbuffer (re_alloc e) k r STATUS_CKSUM_OK (fst f) a = Some (Some x, c)"
      "lro_chain e k r off fs (n - 1) c = Some (ps', t', b)"
      using Cons.prems by (auto split: if_splits option.splits prod.splits)
    then show ?thesis using Cons.IH process_rxbuffer_length by metis
  qed (use Cons.prems in simp)
qed simp

lemma unm_process_lro_length:
  "unm_process_lro e k d ds a = Some b \<Longrightarrow> length (ra_sds b) = length (ra_sds a) \<and> ra_max_rx_desc b = ra_max_rx_desc a"
  by (auto simp: unm_process_lro_def Let_def dest!: process_rxbuffer_length lro_chain_length split: if_splits option.splits)

lemma dispatch_length: "dispatch e k msg a = Some b \<Longrightarrow> length (ra_sds b) = length (ra_sds a) \<and> ra_max_rx_desc b = ra_max_rx_desc a"
  by (cases msg) (auto simp: dispatch_def dest: unm_process_rcv_length unm_process_lro_contiguous_length unm_process_lro_length split: if_splits)

text \<open>One turn of the loop in these terms.\<close>

lemma ring_turn_wait:
  assumes "k < length (ra_sds a)" "\<not> host_owned (D ! unat c)"
  shows "ring_turn e k cnt c (set_descs k D a) = Some (Wait cnt)"
  using assms by (simp add: ring_turn_def Let_def)

lemma ring_turn_single:
  assumes "k < length (ra_sds a)" "host_owned (D ! unat c)" "single_desc e (D ! unat c)"
  shows "ring_turn e k cnt c (set_descs k D a) = map_option (\<lambda>b. Next c (set_descs k D b)) (dispatch e k (D ! unat c, []) a)"
  using assms unfolding ring_turn_def dispatch_def Let_def single_desc_def
  by (auto simp: unm_process_rcv_set_descs unm_process_lro_contiguous_set_descs option.map_comp comp_def)

lemma ring_turn_incomplete:
  assumes "k < length (ra_sds a)" "host_owned (D ! unat c)" "\<not> single_desc e (D ! unat c)"
    "\<not> host_owned (D ! unat ((c + of_nat (sd_descCnt (D ! unat c)) - 1) AND (ra_max_rx_desc a - 1)))"
  shows "ring_turn e k cnt c (set_descs k D a) = Some (Wait cnt) \<or>
    ring_turn e k cnt c (set_descs k D a) = Some (Wait (if cnt \<noteq> 0 then 1 else 0))"
  using assms unfolding ring_turn_def Let_def single_desc_def by (auto simp: add_diff_eq)

lemma ring_turn_multi:
  assumes "k < length (ra_sds a)" "host_owned (D ! unat c)" "\<not> single_desc e (D ! unat c)"
    "host_owned (D ! unat ((c + of_nat (sd_descCnt (D ! unat c)) - 1) AND (ra_max_rx_desc a - 1)))"
    "take_list (ra_max_rx_desc a) (sd_descCnt (D ! unat c) - 2) c (D[unat c := release_desc (D ! unat c)]) = (ds, c1, D1)"
  shows "ring_turn e k cnt c (set_descs k D a) =
    map_option (\<lambda>b. Next ((c1 + 1) AND (ra_max_rx_desc a - 1)) (set_descs k D1 b)) (dispatch e k (D ! unat c, ds) a)"
  using assms unfolding ring_turn_def dispatch_def Let_def single_desc_def
  by (auto simp: unm_process_lro_set_descs option.map_comp comp_def release_at_set take_descs_set next_consumer_def add_diff_eq)

lemma ring_loop_refines:
  assumes "k < length (ra_sds a)" "ring_parse e (ra_max_rx_desc a) m c D = (ms, c', D')"
  shows "\<exists>cnt'. (cnt' = cnt + length ms \<or> cnt' = 1 \<and> 0 < cnt + length ms) \<and>
    ring_loop e k m cnt c (set_descs k D a) = map_option (\<lambda>b. (cnt', c', set_descs k D' b)) (dispatch_all e k ms a)"
  using assms
proof (induction m arbitrary: cnt c D a ms c' D')
  case 0
  then show ?case by auto
next
  case (Suc m)
  let ?d = "D ! unat c" and ?mx = "ra_max_rx_desc a"
  consider (free) "\<not> host_owned ?d" | (single) "host_owned ?d" "single_desc e ?d"
    | (wait) "host_owned ?d" "\<not> single_desc e ?d" "\<not> host_owned (D ! unat ((c + of_nat (sd_descCnt ?d) - 1) AND (?mx - 1)))"
    | (multi) "host_owned ?d" "\<not> single_desc e ?d" "host_owned (D ! unat ((c + of_nat (sd_descCnt ?d) - 1) AND (?mx - 1)))"
    by blast
  then show ?case
  proof cases
    case free
    then show ?thesis using Suc.prems by (auto simp: ring_turn_wait)
  next
    case wait
    then show ?thesis using Suc.prems ring_turn_incomplete [of k a D c e cnt] by (auto simp: Let_def)
  next
    case single
    let ?c = "(c + 1) AND (?mx - 1)" and ?D = "D[unat c := release_desc ?d]"
    obtain ms' where p: "ring_parse e ?mx m ?c ?D = (ms', c', D')" "ms = (?d, []) # ms'"
      using Suc.prems single by (auto simp: Let_def split: prod.splits)
    show ?thesis
    proof (cases "dispatch e k (?d, []) a")
      case None
      then show ?thesis using Suc.prems(1) single p by (auto simp: ring_turn_single)
    next
      case (Some b)
      have b: "k < length (ra_sds b)" "ra_max_rx_desc b = ?mx" using dispatch_length [OF Some] Suc.prems(1) by auto
      obtain cnt' where I: "cnt' = (cnt + 1) + length ms' \<or> cnt' = 1 \<and> 0 < (cnt + 1) + length ms'"
        "ring_loop e k m (cnt + 1) ?c (set_descs k ?D b) = map_option (\<lambda>b. (cnt', c', set_descs k D' b)) (dispatch_all e k ms' b)"
        using Suc.IH [OF b(1), of ?c ?D ms' c' D' "cnt + 1"] p(1) b(2) by auto
      have "ring_loop e k (Suc m) cnt c (set_descs k D a) = ring_loop e k m (cnt + 1) ?c (set_descs k ?D b)"
        using Suc.prems(1) single Some b by (simp add: ring_turn_single release_at_set next_consumer_def)
      then show ?thesis using I p(2) Some by (intro exI [of _ cnt']) auto
    qed
  next
    case multi
    obtain ds c1 D1 where t: "take_list ?mx (sd_descCnt ?d - 2) c (D[unat c := release_desc ?d]) = (ds, c1, D1)"
      by (metis prod_cases3)
    let ?c2 = "(c1 + 1) AND (?mx - 1)"
    let ?c = "(?c2 + 1) AND (?mx - 1)" and ?D = "D1[unat ?c2 := release_desc (D1 ! unat ?c2)]"
    obtain ms' where p: "ring_parse e ?mx m ?c ?D = (ms', c', D')" "ms = (?d, ds) # ms'"
      using Suc.prems multi t by (auto simp: Let_def split: prod.splits)
    show ?thesis
    proof (cases "dispatch e k (?d, ds) a")
      case None
      then show ?thesis using Suc.prems(1) p ring_turn_multi [OF Suc.prems(1) multi t] by auto
    next
      case (Some b)
      have b: "k < length (ra_sds b)" "ra_max_rx_desc b = ?mx" using dispatch_length [OF Some] Suc.prems(1) by auto
      obtain cnt' where I: "cnt' = (cnt + 1) + length ms' \<or> cnt' = 1 \<and> 0 < (cnt + 1) + length ms'"
        "ring_loop e k m (cnt + 1) ?c (set_descs k ?D b) = map_option (\<lambda>b. (cnt', c', set_descs k D' b)) (dispatch_all e k ms' b)"
        using Suc.IH [OF b(1), of ?c ?D ms' c' D' "cnt + 1"] p(1) b(2) by auto
      have "ring_loop e k (Suc m) cnt c (set_descs k D a) = ring_loop e k m (cnt + 1) ?c (set_descs k ?D b)"
        using ring_turn_multi [OF Suc.prems(1) multi t] Some b by (simp add: release_at_set next_consumer_def)
      then show ?thesis using I p(2) Some by (intro exI [of _ cnt']) auto
    qed
  qed
qed

subsection \<open>The buffers behind the descriptors\<close>

text \<open>Adapters that differ in counters, events and descriptors only.\<close>

definition ring_core :: "rds_host \<Rightarrow> rds_host" where
  "ring_core h = h\<lparr>rh_no_rcv := 0, rh_rxbytes := 0\<rparr>"

definition same_bufs :: "rx_adapter \<Rightarrow> rx_adapter \<Rightarrow> bool" where
  "same_bufs a b \<longleftrightarrow> map ring_core (ra_rds a) = map ring_core (ra_rds b) \<and>
     map (\<lambda>s. (sh_free s, sh_free_count s)) (ra_sds a) = map (\<lambda>s. (sh_free s, sh_free_count s)) (ra_sds b)"

lemma same_bufs_refl [simp]: "same_bufs a a"
  by (simp add: same_bufs_def)

lemma same_bufs_trans: "same_bufs a b \<Longrightarrow> same_bufs b c \<Longrightarrow> same_bufs a c"
  by (simp add: same_bufs_def)

lemma same_bufsI: "ra_rds b = ra_rds a \<Longrightarrow> ra_sds b = ra_sds a \<Longrightarrow> same_bufs a b"
  by (simp add: same_bufs_def)

lemma same_bufs_length: "same_bufs a b \<Longrightarrow> length (ra_rds b) = length (ra_rds a) \<and> length (ra_sds b) = length (ra_sds a)"
  by (auto simp: same_bufs_def dest: map_eq_imp_length_eq)

lemma view_ok_core: "view_ok (ring_core h) = view_ok h"
  by (intro ext) (simp add: view_ok_def rds_ok_def ring_core_def null_skbs_def cong: option.case_cong)

lemma rx_inv_same:
  assumes "rx_inv s" "same_bufs (hx s) b"
  shows "rx_inv (s\<lparr>hx := b\<rparr>)"
proof -
  let ?f = "\<lambda>s. (sh_free s, sh_free_count s)"
  have l: "length (ra_rds b) = length (ra_rds (hx s))" and f: "map ?f (ra_sds b) = map ?f (ra_sds (hx s))"
    using assms(2) same_bufs_length [OF assms(2)] by (simp_all add: same_bufs_def)
  have fr: "frees r b = frees r (hx s)" for r
  proof -
    have "frees r x = map (\<lambda>(u, v). (u ! r, v ! r)) (map ?f (ra_sds x))" for x by (simp add: frees_def comp_def)
    then show ?thesis by (simp only: f)
  qed
  have core: "ring_core (ra_rds b ! r) = ring_core (ra_rds (hx s) ! r)" if "r < length (ra_rds (hx s))" for r
  proof -
    have "map ring_core (ra_rds b) ! r = map ring_core (ra_rds (hx s)) ! r" using assms(2) by (simp add: same_bufs_def)
    then show ?thesis using that l by simp
  qed
  have sh: "rx_shape b"
  proof -
    have e: "rx_shape x \<longleftrightarrow> (\<forall>p \<in> set (map ?f (ra_sds x)). length (fst p) = length (ra_rds x) \<and> length (snd p) = length (ra_rds x))" for x
      by (simp add: rx_shape_def)
    have "rx_shape (hx s)" using assms(1) by (simp add: rx_inv_def)
    then show ?thesis unfolding e f l .
  qed
  have v: "view_ok (ra_rds b ! r) = view_ok (ra_rds (hx s) ! r)" if "r < length (ra_rds (hx s))" for r
    unfolding view_ok_core [of "ra_rds b ! r", symmetric] core [OF that] by (rule view_ok_core)
  show ?thesis
    using assms(1) sh by (simp add: rx_inv_def l fr v)
qed

lemma same_bufs_emit [simp]: "same_bufs a (emit x a)" "same_bufs a (tell c x a)"
  by (simp_all add: same_bufsI)

lemma same_bufs_count [simp]: "same_bufs a (count_packet r n a)"
proof (cases "r < length (ra_rds a)")
  case True
  then have "map ring_core ((ra_rds a)[r := (ra_rds a ! r)\<lparr>rh_no_rcv := x, rh_rxbytes := y\<rparr>]) = map ring_core (ra_rds a)" for x y
    by (simp add: map_update list_update_same_conv ring_core_def)
  then show ?thesis by (simp add: same_bufs_def count_packet_def Let_def)
qed (simp add: same_bufs_def count_packet_def Let_def not_less list_update_beyond)

lemma same_bufs_deliver: "same_bufs a (deliver_packet e r d n skb good a)"
proof -
  have "same_bufs x (x\<lparr>ra_uphappy := y\<rparr>)" for x y by (simp add: same_bufsI)
  then show ?thesis
    unfolding deliver_packet_def Let_def
    by (auto intro!: same_bufs_trans [OF _ same_bufs_count] same_bufsI split del: if_split split: if_split)
qed

definition remove_handles :: "(nat \<times> nat) list \<Rightarrow> (nat \<Rightarrow> nat list) \<Rightarrow> nat \<Rightarrow> nat list" where
  "remove_handles hs hc = fold (\<lambda>(r, i) hc. hc(r := remove1 i (hc r))) hs hc"

text \<open>The state after the buffers \<open>hs\<close> have come back from the card.\<close>

definition came_back :: "rx_hist \<Rightarrow> (nat \<times> nat) list \<Rightarrow> rx_adapter \<Rightarrow> bool" where
  "came_back s hs b \<longleftrightarrow> rx_inv (s\<lparr>hx := b, hcard := remove_handles hs (hcard s)\<rparr>) \<and>
     length (ra_rds b) = length (ra_rds (hx s)) \<and> length (ra_sds b) = length (ra_sds (hx s))"

lemma hx_hcard: "s\<lparr>hcard := x, hx := y\<rparr> = s\<lparr>hx := y, hcard := x\<rparr>"
  by (cases s) simp

lemma came_back_same: "came_back s hs b \<Longrightarrow> same_bufs b c \<Longrightarrow> came_back s hs c"
  using rx_inv_same [of "s\<lparr>hx := b, hcard := remove_handles hs (hcard s)\<rparr>" c] same_bufs_length [of b c]
  by (simp add: came_back_def hx_hcard)

lemma came_back_trans:
  "came_back s hs b \<Longrightarrow> came_back (s\<lparr>hx := b, hcard := remove_handles hs (hcard s)\<rparr>) hs' c \<Longrightarrow> came_back s (hs @ hs') c"
  by (simp add: came_back_def remove_handles_def)

lemma came_back_received:
  assumes "rx_inv s" "r < length (ra_rds (hx s))" "k < length (ra_sds (hx s))" "i \<in> set (hcard s r)" "same_bufs (hx s) a"
  shows "\<exists>skb good b. process_rxbuffer al k r cs i a = Some (Some (skb, good), b) \<and> came_back s [(r, i)] b"
proof -
  let ?s = "s\<lparr>hx := a\<rparr>"
  have inv: "rx_inv ?s" and l: "length (ra_rds a) = length (ra_rds (hx s))" "length (ra_sds a) = length (ra_sds (hx s))"
    using rx_inv_same same_bufs_length assms(1,5) by auto
  then have sh: "rx_shape a" and v: "view_ok (ra_rds a ! r) (frees r a) (hpriv s r) (hcard s r)"
    using assms(2) by (auto simp: rx_inv_def)
  obtain skb where skb: "b_skb (rh_buf_arr (ra_rds a ! r) ! i) = Some skb" using v assms(4) by (auto simp: view_ok_def)
  have "i < unat (rh_size (ra_rds a ! r))" using view_in_range(1) [OF v] assms(4) by auto
  then have len: "i < length (rh_buf_arr (ra_rds a ! r))" using v by (simp add: view_ok_def rds_ok_def)
  obtain res b where p: "process_rxbuffer al k r cs i a = Some (res, b)"
    using len skb by (fastforce simp: process_rxbuffer_def Let_def split: prod.splits)
  have kr: "k < length (ra_sds a)" "r < length (ra_rds a)" using assms l by simp_all
  have q: "res = Some (skb, ra_rx_csum a \<and> cs = STATUS_CKSUM_OK) \<and> length (ra_sds b) = length (ra_sds a) \<and>
      length (ra_rds b) = length (ra_rds a)"
    by (rule process_rxbuffer_spec [OF sh kr len skb p]) simp
  have "rx_step al ?s (?s\<lparr>hx := b, hcard := (hcard ?s)(r := remove1 i (hcard ?s r))\<rparr>)"
    using kr assms(4) p by (intro rx_received [of r _ k i al cs res b]) simp_all
  from rx_step_inv [OF this inv] show ?thesis
    using p q l by (simp add: came_back_def remove_handles_def)
qed

lemma came_back_reposted:
  assumes "rx_inv s" "r < length (ra_rds (hx s))" "k < length (ra_sds (hx s))" "i \<in> set (hcard s r)" "same_bufs (hx s) a"
  shows "\<exists>b. repost_buffer k r i a = Some b \<and> came_back s [(r, i)] b"
proof -
  let ?s = "s\<lparr>hx := a\<rparr>"
  have inv: "rx_inv ?s" and l: "length (ra_rds a) = length (ra_rds (hx s))" "length (ra_sds a) = length (ra_sds (hx s))"
    using rx_inv_same same_bufs_length assms(1,5) by auto
  then have sh: "rx_shape a" and v: "view_ok (ra_rds a ! r) (frees r a) (hpriv s r) (hcard s r)"
    using assms(2) by (auto simp: rx_inv_def)
  have "i < unat (rh_size (ra_rds a ! r))" using view_in_range(1) [OF v] assms(4) by auto
  then have "i < length (rh_buf_arr (ra_rds a ! r))" using v by (simp add: view_ok_def rds_ok_def)
  then obtain b where p: "repost_buffer k r i a = Some b" by (simp add: repost_buffer_def Let_def)
  have kr: "k < length (ra_sds a)" "r < length (ra_rds a)" using assms l by simp_all
  have "rx_step undefined ?s (?s\<lparr>hx := b, hcard := (hcard ?s)(r := remove1 i (hcard ?s r))\<rparr>)"
    using kr assms(4) p by (intro rx_reposted [of r _ k i b]) simp_all
  from rx_step_inv [OF this inv] show ?thesis
    using p l repost_buffer_spec [OF sh kr v assms(4) p] by (simp add: came_back_def remove_handles_def)
qed

text \<open>
  The buffers a message returns, in the order they are taken, and the messages the card may send an adapter with \<open>nr\<close>
  receive rings.
\<close>

definition packet_msg :: "rx_env \<Rightarrow> sdesc \<Rightarrow> bool" where
  "packet_msg e d \<longleftrightarrow> sd_opcode d = re_rx_desc e \<or> sd_opcode d = re_sync_offload e \<or> sd_opcode d = UNM_MSGTYPE_TNIC_GLOBAL_BUFFERS"

definition packet_ref :: "sdesc \<Rightarrow> nat \<times> nat" where
  "packet_ref d = (if sd_opcode d = UNM_MSGTYPE_TNIC_GLOBAL_BUFFERS then (tn_ring_type d, tn_ref_handle d)
     else (sd_type d, sd_referenceHandle d))"

definition msg_handles :: "rx_env \<Rightarrow> sdesc \<times> sdesc list \<Rightarrow> (nat \<times> nat) list" where
  "msg_handles e msg =
     (case msg of (d, ds) \<Rightarrow>
        if packet_msg e d then [packet_ref d]
        else if sd_opcode d = UNM_MSGTYPE_NIC_LRO_CONTIGUOUS then [(1, lro_ref_handle d)]
        else if sd_opcode d = UNM_MSGTYPE_NIC_LRO_CHAINED
        then (0, lro_ref_handle d) # map (\<lambda>f. (0, fst f)) (take (lro1_count d - 1) (concat (map lro_frags ds)))
        else [])"

definition msg_ok :: "rx_env \<Rightarrow> nat \<Rightarrow> sdesc \<times> sdesc list \<Rightarrow> bool" where
  "msg_ok e nr msg =
     (case msg of (d, ds) \<Rightarrow>
        if packet_msg e d then fst (packet_ref d) < nr
        else if sd_opcode d = UNM_MSGTYPE_NIC_LRO_CONTIGUOUS then lro2_type d = 1 \<and> 1 < nr
        else if sd_opcode d = UNM_MSGTYPE_NIC_LRO_CHAINED then lro1_type d = 0 \<and> 0 < nr \<and> 0 < lro1_count d
        else sd_descCnt d \<le> 5)"

definition on_card :: "(nat \<times> nat) list \<Rightarrow> rx_hist \<Rightarrow> bool" where
  "on_card hs s \<longleftrightarrow> distinct hs \<and> list_all (\<lambda>(r, i). i \<in> set (hcard s r)) hs"

lemma remove_handles_keeps: "i \<in> set (hc r) \<Longrightarrow> (r, i) \<notin> set hs \<Longrightarrow> i \<in> set (remove_handles hs hc r)"
proof (induction hs arbitrary: hc)
  case (Cons x hs)
  obtain t j where x: "x = (t, j)" by (metis surj_pair)
  have "i \<in> set ((hc(t := remove1 j (hc t))) r)" using Cons.prems x by (auto simp: in_set_remove1)
  then have "i \<in> set (remove_handles hs (hc(t := remove1 j (hc t))) r)" by (rule Cons.IH) (use Cons.prems(2) in simp)
  then show ?case using x by (simp add: remove_handles_def)
qed (simp add: remove_handles_def)

lemma on_card_append:
  "on_card (hs @ hs') s \<Longrightarrow> on_card hs s \<and> on_card hs' (s\<lparr>hx := b, hcard := remove_handles hs (hcard s)\<rparr>)"
  using remove_handles_keeps by (fastforce simp: on_card_def list_all_iff)

lemma on_card_less:
  assumes "rx_inv s" "r < length (ra_rds (hx s))" "i \<in> set (hcard s r)"
  shows "i < unat (rh_size (ra_rds (hx s) ! r))"
  using assms view_in_range(1) [of "ra_rds (hx s) ! r" "frees r (hx s)" "hpriv s r" "hcard s r"] by (auto simp: rx_inv_def)

lemma packet_safe:
  assumes "rx_inv s" "k < length (ra_sds (hx s))" "packet_ref d = (r, i)" "r < length (ra_rds (hx s))" "i \<in> set (hcard s r)"
  shows "\<exists>b. unm_process_rcv e k d (hx s) = Some b \<and> came_back s [(r, i)] b"
proof -
  have i: "\<not> unat (rh_size (ra_rds (hx s) ! r)) < i" using on_card_less [OF assms(1,4,5)] by simp
  obtain skb good b where p: "process_rxbuffer (re_alloc e) k r (sd_status d) i (hx s) = Some (Some (skb, good), b)" "came_back s [(r, i)] b"
    using came_back_received [OF assms(1,4,2,5) same_bufs_refl] by blast
  obtain c where q: "repost_buffer k r i (hx s) = Some c" "came_back s [(r, i)] c"
    using came_back_reposted [OF assms(1,4,2,5) same_bufs_refl] by blast
  have cb: "came_back s [(r, i)] (emit x b)" "came_back s [(r, i)] (deliver_packet e r d n skb good b)" for x n
    using came_back_same [OF p(2)] same_bufs_deliver by auto
  show ?thesis
    using assms(3,4) i p(1) q cb unfolding unm_process_rcv_def Let_def packet_ref_def
    by (cases "sd_opcode d = UNM_MSGTYPE_TNIC_GLOBAL_BUFFERS"; cases "low_on_buffers (ra_rds (hx s) ! r)") auto
qed

lemma contiguous_safe:
  assumes "rx_inv s" "k < length (ra_sds (hx s))" "lro2_type d = 1" "1 < length (ra_rds (hx s))" "lro_ref_handle d \<in> set (hcard s 1)"
  shows "\<exists>b. unm_process_lro_contiguous e k d (hx s) = Some b \<and> came_back s [(1, lro_ref_handle d)] b"
proof -
  let ?i = "lro_ref_handle d"
  have i: "\<not> unat (rh_size (ra_rds (hx s) ! 1)) \<le> ?i" using on_card_less [OF assms(1,4,5)] by simp
  let ?n = "min (lro_length d div 1024) (NX_1K_PER_LRO - 1)"
  let ?a = "(hx s)\<lparr>ra_lro_contiguous := ra_lro_contiguous (hx s) + 1,
    ra_lro_bufsize := (ra_lro_bufsize (hx s))[?n := ra_lro_bufsize (hx s) ! ?n + 1]\<rparr>"
  let ?c = "?a\<lparr>ra_crunch := ra_crunch (hx s) + 1\<rparr>"
  have ac: "same_bufs (hx s) ?a" "same_bufs (hx s) ?c" by (rule same_bufsI; simp)+
  obtain skb good b where p: "process_rxbuffer (re_alloc e) k 1 STATUS_CKSUM_OK ?i ?a = Some (Some (skb, good), b)" "came_back s [(1, ?i)] b"
    using came_back_received [OF assms(1,4,2,5) ac(1)] by blast
  obtain x where q: "repost_buffer k 1 ?i ?c = Some x" "came_back s [(1, ?i)] x"
    using came_back_reposted [OF assms(1,4,2,5) ac(2)] by blast
  have "same_bufs b (emit y b)" "same_bufs b (count_packet r n (emit y b))" for y r n
    using same_bufs_trans [OF _ same_bufs_count] by simp_all
  then have cb: "came_back s [(1, ?i)] (emit y b)" "came_back s [(1, ?i)] (count_packet r n (emit y b))" for y r n
    using came_back_same [OF p(2)] by blast+
  show ?thesis
  proof (cases "low_on_buffers (ra_rds (hx s) ! 1)")
    case True
    then show ?thesis using assms(3,4) i q unfolding unm_process_lro_contiguous_def Let_def by simp
  next
    case False
    then show ?thesis using assms(3,4) p(1) cb unfolding unm_process_lro_contiguous_def Let_def by simp
  qed
qed

lemma chain_safe:
  assumes "rx_inv s" "k < length (ra_sds (hx s))" "0 < length (ra_rds (hx s))" "on_card (map (\<lambda>f. (0, fst f)) (take n fs)) s"
  shows "\<exists>ps t b. lro_chain e k 0 off fs n (hx s) = Some (ps, t, b) \<and> came_back s (map (\<lambda>f. (0, fst f)) (take n fs)) b"
  using assms
proof (induction fs arbitrary: n s)
  case Nil
  then show ?case by (simp add: came_back_def remove_handles_def)
next
  case (Cons f fs)
  show ?case
  proof (cases n)
    case 0
    then show ?thesis using Cons.prems by (simp add: came_back_def remove_handles_def)
  next
    case (Suc m)
    have f: "fst f \<in> set (hcard s 0)" using Cons.prems(4) Suc by (simp add: on_card_def)
    obtain skb good b where p: "process_rxbuffer (re_alloc e) k 0 STATUS_CKSUM_OK (fst f) (hx s) = Some (Some (skb, good), b)"
        "came_back s [(0, fst f)] b"
      using came_back_received [OF Cons.prems(1,3,2) f same_bufs_refl] by blast
    let ?s = "s\<lparr>hx := b, hcard := remove_handles [(0, fst f)] (hcard s)\<rparr>"
    have s: "rx_inv ?s" "k < length (ra_sds (hx ?s))" "0 < length (ra_rds (hx ?s))" using p(2) Cons.prems by (simp_all add: came_back_def)
    have "on_card ([(0, fst f)] @ map (\<lambda>f. (0, fst f)) (take m fs)) s" using Cons.prems(4) Suc by simp
    then have "on_card (map (\<lambda>f. (0, fst f)) (take m fs)) ?s" using on_card_append by blast
    from Cons.IH [OF s this] obtain ps t c where
      "lro_chain e k 0 off fs m b = Some (ps, t, c)" "came_back ?s (map (\<lambda>f. (0, fst f)) (take m fs)) c" by auto
    then show ?thesis
      using came_back_trans [OF p(2)] p(1) Suc on_card_less [OF Cons.prems(1,3) f] by fastforce
  qed
qed

lemma chained_safe:
  assumes "rx_inv s" "k < length (ra_sds (hx s))" "0 < length (ra_rds (hx s))" "lro1_type d = 0" "0 < lro1_count d"
    "on_card ((0, lro_ref_handle d) # map (\<lambda>f. (0, fst f)) (take (lro1_count d - 1) (concat (map lro_frags ds)))) s"
  shows "\<exists>b. unm_process_lro e k d ds (hx s) = Some b \<and>
    came_back s ((0, lro_ref_handle d) # map (\<lambda>f. (0, fst f)) (take (lro1_count d - 1) (concat (map lro_frags ds)))) b"
proof -
  let ?i = "lro_ref_handle d" and ?n = "lro1_count d" and ?fs = "concat (map lro_frags ds)"
  let ?b = "(hx s)\<lparr>ra_lro_chained := ra_lro_chained (hx s) + 1\<rparr>"
  let ?a = "if ?n \<le> NX_MAX_PKTS_PER_LRO then ?b\<lparr>ra_lro_accum := (ra_lro_accum ?b)[?n - 1 := ra_lro_accum ?b ! (?n - 1) + 1]\<rparr> else ?b"
  have same: "same_bufs (hx s) ?a" by (rule same_bufsI; simp)
  have i: "?i \<in> set (hcard s 0)" using assms(6) by (simp add: on_card_def)
  obtain skb good b where p: "process_rxbuffer (re_alloc e) k 0 STATUS_CKSUM_OK ?i ?a = Some (Some (skb, good), b)" "came_back s [(0, ?i)] b"
    using came_back_received [OF assms(1,3,2) i same] by blast
  let ?s = "s\<lparr>hx := b, hcard := remove_handles [(0, ?i)] (hcard s)\<rparr>"
  have s: "rx_inv ?s" "k < length (ra_sds (hx ?s))" "0 < length (ra_rds (hx ?s))" using p(2) assms(2,3) by (simp_all add: came_back_def)
  have "on_card ([(0, ?i)] @ map (\<lambda>f. (0, fst f)) (take (?n - 1) ?fs)) s" using assms(6) by simp
  then have "on_card (map (\<lambda>f. (0, fst f)) (take (?n - 1) ?fs)) ?s" using on_card_append by blast
  from chain_safe [OF s this, where e = e and off = "lro1_data_offset d"] obtain ps t c where
    q: "lro_chain e k 0 (lro1_data_offset d) ?fs (?n - 1) b = Some (ps, t, c)"
      "came_back ?s (map (\<lambda>f. (0, fst f)) (take (?n - 1) ?fs)) c" by auto
  have c: "came_back s ((0, ?i) # map (\<lambda>f. (0, fst f)) (take (?n - 1) ?fs)) c" using came_back_trans [OF p(2) q(2)] by simp
  let ?put = "of_nat (lro1_data_offset d + lro_length d) :: u32" and ?pull = "of_nat (lro_l2_hdr_offset d) :: u32"
  let ?e = "emit (Lro_chain skb ?put ?pull ps) c"
  let ?c = "if \<not> ra_running c then emit (Kfree skb) c
    else ?e\<lparr>ra_no_rcv := ra_no_rcv c + 1, ra_rxbytes := ra_rxbytes c + ucast (?put - ?pull - ETH_HLEN + t)\<rparr>"
  have "unm_process_lro e k d ds (hx s) = Some ?c"
    using assms(3-5) p(1) q(1) unfolding unm_process_lro_def Let_def by simp
  moreover have "same_bufs c ?c" by (rule same_bufsI; simp)
  ultimately show ?thesis using came_back_same [OF c] by blast
qed

lemma dispatch_safe:
  assumes "rx_inv s" "k < length (ra_sds (hx s))" "msg_ok e (length (ra_rds (hx s))) msg" "on_card (msg_handles e msg) s"
  shows "\<exists>b. dispatch e k msg (hx s) = Some b \<and> came_back s (msg_handles e msg) b"
proof -
  obtain d ds where m: "msg = (d, ds)" by (metis surj_pair)
  show ?thesis
  proof (cases "packet_msg e d")
    case True
    obtain r i where ri: "packet_ref d = (r, i)" by (metis surj_pair)
    have "r < length (ra_rds (hx s))" "i \<in> set (hcard s r)"
      using assms(3,4) True ri by (simp_all add: m msg_ok_def msg_handles_def on_card_def)
    from packet_safe [OF assms(1,2) ri this] show ?thesis
      using True ri by (simp add: m dispatch_def msg_handles_def packet_msg_def)
  next
    case np: False
    then have np': "\<not> (sd_opcode d = re_rx_desc e \<or> sd_opcode d = re_sync_offload e \<or> sd_opcode d = UNM_MSGTYPE_TNIC_GLOBAL_BUFFERS)"
      by (simp add: packet_msg_def)
    show ?thesis
    proof (cases "sd_opcode d = UNM_MSGTYPE_NIC_LRO_CONTIGUOUS")
      case True
      have "lro2_type d = 1" "1 < length (ra_rds (hx s))" "lro_ref_handle d \<in> set (hcard s 1)"
        using assms(3,4) np True by (simp_all add: m msg_ok_def msg_handles_def on_card_def)
      from contiguous_safe [OF assms(1,2) this] show ?thesis
        using np np' True by (simp add: m dispatch_def msg_handles_def)
    next
      case nc: False
      show ?thesis
      proof (cases "sd_opcode d = UNM_MSGTYPE_NIC_LRO_CHAINED")
        case True
        then show ?thesis using chained_safe [OF assms(1,2)] assms(3,4) np np' nc by (simp add: m dispatch_def msg_handles_def msg_ok_def)
      next
        case False
        have "came_back s [] (hx s)" using assms(1) by (simp add: came_back_def remove_handles_def)
        then have "came_back s [] (emit x (hx s))" for x using came_back_same same_bufs_emit(1) by blast
        then show ?thesis using assms(3) False np np' nc by (simp add: m dispatch_def msg_handles_def msg_ok_def)
      qed
    qed
  qed
qed

lemma dispatch_all_safe:
  assumes "rx_inv s" "k < length (ra_sds (hx s))" "list_all (msg_ok e (length (ra_rds (hx s)))) ms" "on_card (concat (map (msg_handles e) ms)) s"
  shows "\<exists>b. dispatch_all e k ms (hx s) = Some b \<and> came_back s (concat (map (msg_handles e) ms)) b"
  using assms
proof (induction ms arbitrary: s)
  case Nil
  then show ?case by (simp add: came_back_def remove_handles_def)
next
  case (Cons x ms)
  let ?h = "msg_handles e x" and ?hs = "concat (map (msg_handles e) ms)"
  have on: "on_card ?h s" using Cons.prems(4) on_card_append [of ?h ?hs s] by simp
  have ok: "msg_ok e (length (ra_rds (hx s))) x" using Cons.prems(3) by simp
  from dispatch_safe [OF Cons.prems(1,2) ok on] obtain b where b: "dispatch e k x (hx s) = Some b" "came_back s ?h b" by blast
  let ?s = "s\<lparr>hx := b, hcard := remove_handles ?h (hcard s)\<rparr>"
  have s: "rx_inv ?s" "k < length (ra_sds (hx ?s))" "list_all (msg_ok e (length (ra_rds (hx ?s)))) ms" "on_card ?hs ?s"
    using b(2) Cons.prems on_card_append [of ?h ?hs s b] by (simp_all add: came_back_def)
  from Cons.IH [OF s] obtain c where "dispatch_all e k ms b = Some c" "came_back ?s ?hs c" by auto
  then show ?case using b came_back_trans by fastforce
qed

subsection \<open>Properties\<close>

text \<open>
  What the card promises of the ring, without reference to the loop that reads it. Seen from the consumer on, cyclically, the ring is a
  list of descriptors. A message that is complete is a run of them: as many as its first one says, the first and the last of them
  owned by the host. What is behind the messages is not ready if the descriptor there is the card's, or the last one of a message that
  begins there.
\<close>

definition ring_view :: "sdesc list \<Rightarrow> u32 \<Rightarrow> sdesc list" where
  "ring_view D c = rotate (unat c) D"

definition whole_message :: "rx_env \<Rightarrow> sdesc list \<Rightarrow> bool" where
  "whole_message e m \<longleftrightarrow> m \<noteq> [] \<and> host_owned (hd m) \<and> host_owned (last m) \<and>
     (if single_desc e (hd m) then length m = 1 else length m = sd_descCnt (hd m) \<and> 2 \<le> length m)"

definition read_message :: "sdesc list \<Rightarrow> sdesc \<times> sdesc list" where
  "read_message m = (hd m, butlast (tl m))"

definition not_ready :: "rx_env \<Rightarrow> sdesc list \<Rightarrow> bool" where
  "not_ready e v \<longleftrightarrow> \<not> host_owned (hd v) \<or>
     \<not> single_desc e (hd v) \<and> 1 \<le> sd_descCnt (hd v) \<and> sd_descCnt (hd v) \<le> length v \<and> \<not> host_owned (v ! (sd_descCnt (hd v) - 1))"

text \<open>A descriptor handed back to the card: the owner field says so, the rest is as it was.\<close>

definition handed_back :: "sdesc \<Rightarrow> sdesc \<Rightarrow> bool" where
  "handed_back d d' \<longleftrightarrow> sd_owner d' = 2 \<and> snd d' = snd d \<and> (\<forall>n. n \<noteq> 56 \<and> n \<noteq> 57 \<longrightarrow> bit (fst d') n = bit (fst d) n)"

lemma bit_release: "bit (fst (release_desc d)) n \<longleftrightarrow> (if n = 57 then True else n \<noteq> 56 \<and> bit (fst d) n)"
proof -
  have m: "(3 :: u64) = mask 2" "(2 :: u64) = push_bit 1 1" by (simp_all add: mask_eq_exp_minus_1)
  have 3: "bit (push_bit 56 (3 :: u64)) n \<longleftrightarrow> n = 56 \<or> n = 57"
    unfolding m(1) bit_push_bit_iff bit_mask_iff by auto
  have 2: "bit (push_bit 56 (2 :: u64)) n \<longleftrightarrow> n = 57"
    unfolding m(2) bit_push_bit_iff bit_1_iff by auto
  show ?thesis
    unfolding release_desc_def STATUS_OWNER_PHANTOM_def fst_conv bit_or_iff bit_and_iff bit_not_iff 3 2
    using bit_imp_le_length [of "fst d" n] by (auto simp: possible_bit_word)
qed

lemma release_hands_back: "handed_back d (release_desc d)"
proof -
  have "take_bit 2 (drop_bit 56 (fst (release_desc d))) = (push_bit 1 1 :: u64)"
    by (rule bit_word_eqI) (auto simp: bit_take_bit_iff bit_drop_bit_eq bit_release bit_push_bit_iff less_Suc_eq numeral_2_eq_2)
  then have "sd_owner (release_desc d) = 2" by (simp add: sd_owner_def sd_field_def)
  moreover have "snd (release_desc d) = snd d" by (simp add: release_desc_def)
  ultimately show ?thesis by (simp add: handed_back_def bit_release)
qed

lemma release_not_owned: "\<not> host_owned (release_desc d)"
  by (simp add: host_owned_def bit_release)

subsection \<open>Reading on in a ring of a power of two\<close>

lemma unat_masked: "mx = 2 ^ j \<Longrightarrow> j < 32 \<Longrightarrow> unat (x AND (mx - 1)) = unat x mod 2 ^ j" for x mx :: u32
  by (simp flip: take_bit_eq_mask mask_eq_exp_minus_1 take_bit_eq_mod add: unsigned_take_bit_eq)

lemma unat_next:
  fixes c mx :: u32
  assumes "mx = 2 ^ j" "j < 32"
  shows "unat ((c + of_nat k) AND (mx - 1)) = (unat c + k) mod 2 ^ j"
proof -
  have d: "(2 :: nat) ^ j dvd 2 ^ 32" using assms(2) by (intro le_imp_power_dvd) simp
  have "unat (c + of_nat k) mod 2 ^ j = ((unat c + k mod 2 ^ 32) mod 2 ^ 32) mod 2 ^ j"
    by (simp add: unat_word_ariths unat_of_nat)
  also have "\<dots> = (unat c + k mod 2 ^ 32) mod 2 ^ j" using d by (simp add: mod_mod_cancel)
  also have "\<dots> = (unat c + k) mod 2 ^ j" using d by (metis mod_add_right_eq mod_mod_cancel)
  finally show ?thesis by (simp add: unat_masked [OF assms])
qed

lemma view_step:
  assumes "mx = 2 ^ j" "j < 32" "length D = 2 ^ j" "unat c < 2 ^ j" "ring_view D c = d # rest"
  shows "D ! unat c = d \<and> ring_view (D[unat c := y]) ((c + 1) AND (mx - 1)) = rest @ [y] \<and> unat ((c + 1) AND (mx - 1)) < 2 ^ j"
proof -
  let ?m = "unat c"
  have n: "unat ((c + 1) AND (mx - 1)) = (?m + 1) mod 2 ^ j" using unat_next [OF assms(1,2), of c 1] by simp
  have v: "ring_view D c = drop ?m D @ take ?m D" using assms(3,4) by (simp add: ring_view_def rotate_drop_take)
  have c: "drop ?m D = D ! ?m # drop (Suc ?m) D" using assms(3,4) by (simp add: Cons_nth_drop_Suc)
  have d: "D ! ?m = d" "rest = drop (Suc ?m) D @ take ?m D" using assms(5) unfolding v c by simp_all
  have "ring_view (D[?m := y]) ((c + 1) AND (mx - 1)) = rotate (Suc ?m) (D[?m := y])"
    unfolding ring_view_def n using assms(3) by (subst (2) rotate_conv_mod) simp
  also have "\<dots> = rest @ [y]"
  proof (cases "Suc ?m = 2 ^ j")
    case True
    then have "D[?m := y] = take ?m D @ [y]" using assms(3) by (simp add: upd_conv_take_nth_drop)
    moreover have "drop (Suc ?m) D = []" using True assms(3) by simp
    ultimately show ?thesis using True assms(3) d(2) by (simp add: rotate_drop_take)
  next
    case False
    then have l: "Suc ?m < 2 ^ j" using assms(4) by simp
    then show ?thesis using assms(3,4) d(2)
      by (simp add: rotate_drop_take upd_conv_take_nth_drop)
  qed
  finally show ?thesis using d(1) n by simp
qed

lemma view_nth:
  assumes "mx = 2 ^ j" "j < 32" "length D = 2 ^ j" "1 \<le> k" "k \<le> 2 ^ j"
  shows "D ! unat ((c + of_nat k - 1) AND (mx - 1)) = ring_view D c ! (k - 1)"
proof -
  have "c + of_nat k - 1 = c + of_nat (k - 1)" using assms(4) by (cases k) simp_all
  then have "unat ((c + of_nat k - 1) AND (mx - 1)) = (unat c + (k - 1)) mod 2 ^ j"
    by (simp only: unat_next [OF assms(1,2)])
  then show ?thesis using assms(3-5) by (simp add: ring_view_def nth_rotate)
qed

lemma take_list_view:
  assumes "mx = 2 ^ j" "j < 32" "length D = 2 ^ j" "ring_view D ((c + 1) AND (mx - 1)) = ys @ zs"
  shows "\<exists>c' D'. take_list mx (length ys) c D = (ys, c', D') \<and> length D' = 2 ^ j \<and>
    unat ((c' + 1) AND (mx - 1)) = (unat c + length ys + 1) mod 2 ^ j \<and> ring_view D' ((c' + 1) AND (mx - 1)) = zs @ map release_desc ys"
  using assms(3,4)
proof (induction ys arbitrary: c D zs)
  case Nil
  then show ?case using unat_next [OF assms(1,2), of c 1] by simp
next
  case (Cons y ys)
  let ?c = "(c + 1) AND (mx - 1)"
  have lt: "unat ?c < 2 ^ j" using unat_next [OF assms(1,2), of c 1] by simp
  have v: "D ! unat ?c = y" "ring_view (D[unat ?c := release_desc y]) ((?c + 1) AND (mx - 1)) = (ys @ zs) @ [release_desc y]"
    using view_step [OF assms(1,2) Cons.prems(1) lt, of y "ys @ zs" "release_desc y"] Cons.prems(2) by simp_all
  obtain c' D' where I: "take_list mx (length ys) ?c (D[unat ?c := release_desc y]) = (ys, c', D')" "length D' = 2 ^ j"
      "unat ((c' + 1) AND (mx - 1)) = (unat ?c + length ys + 1) mod 2 ^ j" "ring_view D' ((c' + 1) AND (mx - 1)) = (zs @ [release_desc y]) @ map release_desc ys"
    using Cons.IH [of "D[unat ?c := release_desc y]" ?c "zs @ [release_desc y]"] Cons.prems(1) v(2) by auto
  moreover have "(unat ?c + length ys + 1) mod 2 ^ j = (unat c + length (y # ys) + 1) mod 2 ^ j"
    using unat_next [OF assms(1,2), of c 1] mod_add_left_eq [of "unat c + 1" "2 ^ j" "length ys + 1"] by simp
  ultimately show ?case using v(1) by (simp add: Let_def)
qed

text \<open>The loop, reading a ring that holds the given messages.\<close>

lemma ring_parse_layout:
  assumes "mx = 2 ^ j" "j < 32" "length D = 2 ^ j" "unat c < 2 ^ j" "ring_view D c = concat Ms @ rest" "list_all (whole_message e) Ms"
    "length Ms \<le> n" "length Ms < n \<longrightarrow> not_ready e (rest @ map release_desc (concat Ms))"
  shows "\<exists>c' D'. ring_parse e mx n c D = (map read_message Ms, c', D') \<and> length D' = 2 ^ j \<and>
    unat c' = (unat c + length (concat Ms)) mod 2 ^ j \<and> ring_view D' c' = rest @ map release_desc (concat Ms)"
  using assms(3-)
proof (induction Ms arbitrary: n c D rest)
  case Nil
  show ?case
  proof (cases n)
    case 0
    then show ?thesis using Nil by simp
  next
    case (Suc m)
    have v: "ring_view D c = rest" "not_ready e rest" using Nil Suc by simp_all
    have ne: "rest \<noteq> []" using arg_cong [OF v(1), of length] Nil(1) by (auto simp: ring_view_def)
    then obtain d r where r: "rest = d # r" by (cases rest) auto
    have d: "D ! unat c = d" using view_step [OF assms(1,2) Nil(1,2), of d r d] v(1) r by simp
    have ln: "length rest = 2 ^ j" using arg_cong [OF v(1), of length] Nil(1) by (simp add: ring_view_def)
    have "ring_parse e mx (Suc m) c D = ([], c, D)"
    proof (cases "host_owned d")
      case False
      then show ?thesis by (simp add: Let_def d)
    next
      case True
      then have w: "\<not> single_desc e d" "1 \<le> sd_descCnt d" "sd_descCnt d \<le> 2 ^ j" "\<not> host_owned (rest ! (sd_descCnt d - 1))"
        using v(2) r ln by (auto simp: not_ready_def)
      then have "\<not> host_owned (D ! unat ((c + of_nat (sd_descCnt d) - 1) AND (mx - 1)))"
        using view_nth [OF assms(1,2) Nil(1), of "sd_descCnt d" c] v(1) by simp
      then show ?thesis using True w(1) by (simp add: Let_def d)
    qed
    then show ?thesis using Nil Suc v(1) by simp
  qed
next
  case (Cons M Ms)
  obtain m where n: "n = Suc m" using Cons.prems(5) by (cases n) auto
  have M: "whole_message e M" "list_all (whole_message e) Ms" using Cons.prems(4) by simp_all
  obtain d ds where d: "M = d # ds" using M(1) by (cases M) (auto simp: whole_message_def)
  have v: "ring_view D c = d # ds @ concat Ms @ rest" using Cons.prems(3) d by simp
  note st = view_step [OF assms(1,2) Cons.prems(1,2) v]
  have h: "D ! unat c = d" "host_owned d" using st [of d] M(1) d by (simp_all add: whole_message_def)
  have IH: "\<exists>c' D'. ring_parse e mx m c1 D1 = (map read_message Ms, c', D') \<and> length D' = 2 ^ j \<and>
      unat c' = (unat c1 + length (concat Ms)) mod 2 ^ j \<and> ring_view D' c' = rest @ map release_desc (concat (M # Ms))"
    if "length D1 = 2 ^ j" "unat c1 < 2 ^ j" "ring_view D1 c1 = (concat Ms @ rest) @ map release_desc M" for c1 D1
    using Cons.IH [OF that(1,2), of "rest @ map release_desc M" m] that(3) M(2) Cons.prems(5,6) n by simp
  show ?case
  proof (cases "single_desc e d")
    case True
    then have ds: "ds = []" using M(1) d by (simp add: whole_message_def)
    let ?D = "D[unat c := release_desc d]" and ?c = "(c + 1) AND (mx - 1)"
    obtain c' D' where r: "ring_parse e mx m ?c ?D = (map read_message Ms, c', D')" "length D' = 2 ^ j"
        "unat c' = (unat ?c + length (concat Ms)) mod 2 ^ j" "ring_view D' c' = rest @ map release_desc (concat (M # Ms))"
      using IH [of ?D ?c] st [of "release_desc d"] Cons.prems(1) d ds by auto
    have "unat c' = (unat c + length (concat (M # Ms))) mod 2 ^ j"
      using r(3) unat_next [OF assms(1,2), of c 1] d ds by (simp add: mod_simps)
    then show ?thesis using r True h n d ds by (simp add: Let_def read_message_def)
  next
    case False
    then have l: "sd_descCnt d = length M" "2 \<le> length M" "host_owned (last M)" using M(1) d by (simp_all add: whole_message_def)
    define ys z where "ys = butlast ds" and "z = last ds"
    have ds: "ds = ys @ [z]" using l(2) d by (cases ds) (simp_all add: ys_def z_def)
    have ly: "length ys = sd_descCnt d - 2" using l(1) d ds by simp
    have ln: "length M \<le> 2 ^ j"
      using arg_cong [OF v, of length] Cons.prems(1) d by (simp add: ring_view_def)
    have "ring_view D c ! (length M - 1) = last M" unfolding v using d ds by (simp add: nth_append)
    then have ow: "host_owned (D ! unat ((c + of_nat (sd_descCnt d) - 1) AND (mx - 1)))"
      using view_nth [OF assms(1,2) Cons.prems(1), of "length M" c] l ln by simp
    let ?D = "D[unat c := release_desc d]"
    have "length ?D = 2 ^ j" "ring_view ?D ((c + 1) AND (mx - 1)) = ys @ z # (concat Ms @ rest) @ [release_desc d]"
      using st [of "release_desc d"] Cons.prems(1) ds by simp_all
    from take_list_view [OF assms(1,2) this] obtain c1 D1 where t: "take_list mx (length ys) c ?D = (ys, c1, D1)" "length D1 = 2 ^ j"
        "unat ((c1 + 1) AND (mx - 1)) = (unat c + length ys + 1) mod 2 ^ j"
        "ring_view D1 ((c1 + 1) AND (mx - 1)) = z # (concat Ms @ rest) @ release_desc d # map release_desc ys" by auto
    let ?c2 = "(c1 + 1) AND (mx - 1)"
    let ?c3 = "(?c2 + 1) AND (mx - 1)" and ?D2 = "D1[unat ?c2 := release_desc (D1 ! unat ?c2)]"
    have lt: "unat ?c2 < 2 ^ j" using t(3) by simp
    note st2 = view_step [OF assms(1,2) t(2) lt t(4)]
    have "ring_view ?D2 ?c3 = (concat Ms @ rest) @ map release_desc M" "unat ?c3 < 2 ^ j" "length ?D2 = 2 ^ j"
      using st2 [of "release_desc z"] t(2) d ds by simp_all
    then obtain c' D' where r: "ring_parse e mx m ?c3 ?D2 = (map read_message Ms, c', D')" "length D' = 2 ^ j"
        "unat c' = (unat ?c3 + length (concat Ms)) mod 2 ^ j" "ring_view D' c' = rest @ map release_desc (concat (M # Ms))"
      using IH [of ?D2 ?c3] by auto
    have "unat ?c3 = (unat c + length M) mod 2 ^ j"
      using unat_next [OF assms(1,2), of ?c2 1] t(3) d ds by (simp add: mod_simps add_ac)
    then have "unat c' = (unat c + length (concat (M # Ms))) mod 2 ^ j" using r(3) by (simp add: mod_simps add_ac)
    moreover have "ring_parse e mx (Suc m) c D = (map read_message (M # Ms), c', D')"
      using r(1) False h ow t(1) ly d ds by (simp add: Let_def read_message_def)
    ultimately show ?thesis using r n by blast
  qed
qed


text \<open>The receive routine in terms of the messages parsed.\<close>

lemma receive_ring_by_parse:
  assumes "k < length (ra_sds a)" "ring_parse e (ra_max_rx_desc a) n (sh_consumer (ra_sds a ! k)) (sh_descs (ra_sds a ! k)) = (ms, c, D)"
  shows "case dispatch_all e k ms (set_sds k ((ra_sds a ! k)\<lparr>sh_polled := sh_polled (ra_sds a ! k) + 1\<rparr>) a) of
      None \<Rightarrow> unm_process_rcv_ring e k n a = None
    | Some b \<Rightarrow> (let b' = nx_post_freed_rxbufs (re_alloc e) k (set_descs k D b) in
        \<exists>cnt. (cnt = length ms \<or> cnt = 1 \<and> 0 < length ms) \<and>
          unm_process_rcv_ring e k n a = Some (cnt, if ms = [] then b'
            else set_sds k ((ra_sds b' ! k)\<lparr>sh_consumer := c, sh_reg := sh_reg (ra_sds b' ! k) @ [c]\<rparr>) b'))"
proof -
  let ?s = "ra_sds a ! k"
  let ?a = "set_sds k (?s\<lparr>sh_polled := sh_polled ?s + 1\<rparr>) a"
  have k: "k < length (ra_sds ?a)" and D: "set_descs k (sh_descs ?s) ?a = ?a" and mx: "ra_max_rx_desc ?a = ra_max_rx_desc a"
    using assms(1) by (simp_all add: set_descs_def set_sds_def)
  obtain cnt where c: "cnt = length ms \<or> cnt = 1 \<and> 0 < length ms"
    "ring_loop e k n 0 (sh_consumer ?s) ?a = map_option (\<lambda>b. (cnt, c, set_descs k D b)) (dispatch_all e k ms ?a)"
    using ring_loop_refines [OF k, of e n "sh_consumer ?s" "sh_descs ?s" ms c D 0] assms(2) D mx by auto
  then have "cnt = 0 \<longleftrightarrow> ms = []" by auto
  then show ?thesis
    using c by (auto simp: unm_process_rcv_ring_def Let_def split: option.split)
qed

lemma not_ready_append: "v \<noteq> [] \<Longrightarrow> not_ready e v \<Longrightarrow> not_ready e (v @ w)"
  by (auto simp: not_ready_def nth_append hd_append)

lemma all_taken_not_ready: "xs \<noteq> [] \<Longrightarrow> not_ready e (map release_desc xs)"
  by (cases xs) (simp_all add: not_ready_def release_not_owned)

text \<open>C11 The receive routine handles exactly the complete messages the ring holds from the consumer on, at most \<open>n\<close> of them, in order
  and each once, whatever they do to the rest of the driver. Their descriptors, and no others, are handed back: read on from the new
  consumer, the ring shows what was behind the messages, unchanged, and then the messages' descriptors with the owner field set to the
  card and all other bits as they were. The consumer moves by the number of these descriptors, and is stored and written to the card if
  there was any message. The ring is of a power of two; the messages are of one descriptor, or of two or more as their count says
  (\<open>whole_message\<close>); behind them the ring is used up, or the next message is not ready.\<close>

theorem receive_ring_handles_messages_in_order:
  assumes "k < length (ra_sds a)" "ra_max_rx_desc a = 2 ^ j" "j < 32" "length (sh_descs (ra_sds a ! k)) = 2 ^ j" "unat (sh_consumer (ra_sds a ! k)) < 2 ^ j"
    "ring_view (sh_descs (ra_sds a ! k)) (sh_consumer (ra_sds a ! k)) = concat Ms @ rest" "list_all (whole_message e) Ms"
    "length Ms \<le> n" "length Ms = n \<or> rest = [] \<or> not_ready e rest"
  shows "case dispatch_all e k (map read_message Ms) (set_sds k ((ra_sds a ! k)\<lparr>sh_polled := sh_polled (ra_sds a ! k) + 1\<rparr>) a) of
      None \<Rightarrow> unm_process_rcv_ring e k n a = None
    | Some b \<Rightarrow> (\<exists>c D ds cnt. unat c = (unat (sh_consumer (ra_sds a ! k)) + length (concat Ms)) mod 2 ^ j \<and>
        ring_view D c = rest @ ds \<and> list_all2 handed_back (concat Ms) ds \<and> (cnt = length Ms \<or> cnt = 1 \<and> 0 < length Ms) \<and>
        (let b' = nx_post_freed_rxbufs (re_alloc e) k (set_descs k D b) in
          unm_process_rcv_ring e k n a = Some (cnt, if Ms = [] then b'
            else set_sds k ((ra_sds b' ! k)\<lparr>sh_consumer := c, sh_reg := sh_reg (ra_sds b' ! k) @ [c]\<rparr>) b')))"
proof -
  let ?s = "ra_sds a ! k"
  have "not_ready e (rest @ map release_desc (concat Ms))" if "length Ms < n"
  proof (cases "rest = []")
    case True
    then have "length (concat Ms) = 2 ^ j" using arg_cong [OF assms(6), of length] assms(4) by (simp add: ring_view_def)
    then have "concat Ms \<noteq> []" by (metis list.size(3) power_not_zero zero_neq_numeral)
    then show ?thesis using True all_taken_not_ready [of "concat Ms"] by simp
  next
    case False
    then show ?thesis using assms(9) that not_ready_append by auto
  qed
  then obtain c D where p: "ring_parse e (ra_max_rx_desc a) n (sh_consumer ?s) (sh_descs ?s) = (map read_message Ms, c, D)"
      "unat c = (unat (sh_consumer ?s) + length (concat Ms)) mod 2 ^ j" "ring_view D c = rest @ map release_desc (concat Ms)"
    using ring_parse_layout [OF assms(2-8)] by blast
  have h: "list_all2 handed_back (concat Ms) (map release_desc (concat Ms))"
    by (simp add: list_all2_map2 list_all2_same release_hands_back)
  show ?thesis
  proof (cases "dispatch_all e k (map read_message Ms) (set_sds k (?s\<lparr>sh_polled := sh_polled ?s + 1\<rparr>) a)")
    case None
    then show ?thesis using receive_ring_by_parse [OF assms(1) p(1)] by simp
  next
    case (Some b)
    obtain cnt where "cnt = length Ms \<or> cnt = 1 \<and> 0 < length Ms"
        "let b' = nx_post_freed_rxbufs (re_alloc e) k (set_descs k D b) in
          unm_process_rcv_ring e k n a = Some (cnt, if Ms = [] then b'
            else set_sds k ((ra_sds b' ! k)\<lparr>sh_consumer := c, sh_reg := sh_reg (ra_sds b' ! k) @ [c]\<rparr>) b')"
      using receive_ring_by_parse [OF assms(1) p(1)] Some by (auto simp: Let_def)
    then show ?thesis unfolding Some option.case using p(2,3) h by blast
  qed
qed

definition ex_env :: rx_env where
  "ex_env = \<lparr>re_alloc = ex_mem, re_vlan = (\<lambda>_. False), re_up = (\<lambda>_. True), re_registered = (\<lambda>_. False), re_answer = (\<lambda>_ _. 0),
    re_rx_desc = 4, re_sync_offload = 3\<rparr>"

text \<open>A packet of 100 bytes in buffer 1, of opcode 4, in a descriptor the host owns; and the adapter with it.\<close>

definition ex_desc :: sdesc where
  "ex_desc = (push_bit 58 4 OR push_bit 56 1 OR push_bit 53 1 OR push_bit 28 1 OR push_bit 12 100 OR push_bit 4 2, 0)"

definition ex_adapter :: rx_adapter where
  "ex_adapter = set_descs 0 [ex_desc, (0, 0), (0, 0), (0, 0)] (hx ex_posted)"

lemma ex_desc_fields: "host_owned ex_desc" "sd_opcode ex_desc = 4" "sd_type ex_desc = 0" "sd_referenceHandle ex_desc = 1"
  "sd_totalLength ex_desc = 100"
  by (simp_all add: ex_desc_def host_owned_def sd_opcode_def sd_type_def sd_referenceHandle_def sd_totalLength_def sd_field_def
      bit_simps push_bit_eq_mult drop_bit_eq_div take_bit_eq_mod)

definition ex_message :: sdesc where
  "ex_message = (push_bit 58 0x20 OR push_bit 56 1 OR push_bit 53 1, 7)"

lemma ex_message_fields: "host_owned ex_message" "sd_opcode ex_message = 0x20" "sd_descCnt ex_message = 1"
  by (simp_all add: ex_message_def host_owned_def sd_opcode_def sd_descCnt_def sd_field_def bit_simps push_bit_eq_mult drop_bit_eq_div take_bit_eq_mod)

theorem receive_ring_handles_messages_in_order_witness:
  "case dispatch_all ex_env 0 [(ex_message, [])] (set_sds 0 ((ra_sds (set_descs 0 [ex_message, (0, 0), (0, 0), (0, 0)] ex_rx) ! 0)\<lparr>sh_polled := 1\<rparr>)
        (set_descs 0 [ex_message, (0, 0), (0, 0), (0, 0)] ex_rx)) of
      None \<Rightarrow> False
    | Some b \<Rightarrow> (\<exists>cnt b'. unm_process_rcv_ring ex_env 0 3 (set_descs 0 [ex_message, (0, 0), (0, 0), (0, 0)] ex_rx) = Some (cnt, b') \<and> cnt = 1)"
proof -
  let ?D = "[ex_message, (0, 0), (0, 0), (0, 0)]"
  let ?a = "set_descs 0 ?D ex_rx"
  have l: "0 < length (ra_sds ex_rx)" "sh_consumer (ra_sds ex_rx ! 0) = 0" "ra_max_rx_desc ex_rx = 4" "sh_polled (ra_sds ex_rx ! 0) = 0"
    by (simp_all add: ex_rx_def)
  have s: "single_desc ex_env ex_message" "\<not> host_owned (0, 0)"
    using ex_message_fields by (simp_all add: single_desc_def UNM_MSGTYPE_NIC_LRO_CHAINED_def host_owned_def)
  have d: "dispatch_all ex_env 0 [(ex_message, [])] b = Some (emit (Message (fst ex_message) [fst ex_message, snd ex_message]) b)" for b
    using ex_message_fields by (simp add: dispatch_def ex_env_def UNM_MSGTYPE_TNIC_GLOBAL_BUFFERS_def UNM_MSGTYPE_NIC_LRO_CONTIGUOUS_def
        UNM_MSGTYPE_NIC_LRO_CHAINED_def)
  have "ring_view (sh_descs (ra_sds ?a ! 0)) (sh_consumer (ra_sds ?a ! 0)) = concat [[ex_message]] @ [(0, 0), (0, 0), (0, 0)]"
      "list_all (whole_message ex_env) [[ex_message]]" "length [[ex_message]] = 3 \<or> [(0, 0), (0, 0), (0, 0)] = [] \<or> not_ready ex_env [(0, 0), (0, 0), (0, 0)]"
      "0 < length (ra_sds ?a)" "ra_max_rx_desc ?a = 2 ^ 2" "length (sh_descs (ra_sds ?a ! 0)) = 2 ^ 2" "unat (sh_consumer (ra_sds ?a ! 0)) < 2 ^ 2"
    using l s ex_message_fields by (simp_all add: ring_view_def whole_message_def not_ready_def)
  moreover have rm: "map read_message [[ex_message]] = [(ex_message, [])]" by (simp add: read_message_def)
  ultimately show ?thesis
    using receive_ring_handles_messages_in_order [of 0 ?a 2 "[[ex_message]]" "[(0, 0), (0, 0), (0, 0)]" ex_env 3]
    unfolding rm d by (auto simp: Let_def)
qed

lemma map_update_same: "k < length xs \<Longrightarrow> f y = f (xs ! k) \<Longrightarrow> map f (xs[k := y]) = map f xs"
  by (metis list_update_id map_update)

lemma receive_ring_ok:
  assumes "rx_reachable al a0 s" "new_adapter a0" "same_bufs (hx s) a" "k < length (ra_sds a)"
    "ring_parse e (ra_max_rx_desc a) n (sh_consumer (ra_sds a ! k)) (sh_descs (ra_sds a ! k)) = (ms, c, D)"
    "list_all (msg_ok e (length (ra_rds a))) ms" "on_card (concat (map (msg_handles e) ms)) s"
  shows "unm_process_rcv_ring e k n a \<noteq> None \<and>
    (\<exists>b. dispatch_all e k ms (set_sds k ((ra_sds a ! k)\<lparr>sh_polled := sh_polled (ra_sds a ! k) + 1\<rparr>) a) = Some b \<and>
      rx_inv (s\<lparr>hx := b, hcard := remove_handles (concat (map (msg_handles e) ms)) (hcard s)\<rparr>))"
proof -
  let ?s = "ra_sds a ! k"
  let ?a = "set_sds k (?s\<lparr>sh_polled := sh_polled ?s + 1\<rparr>) a"
  let ?h = "s\<lparr>hx := ?a\<rparr>"
  have "same_bufs a ?a" using map_update_same [OF assms(4), of "\<lambda>s. (sh_free s, sh_free_count s)"] by (simp add: same_bufs_def)
  then have "rx_inv ?h" using rx_inv_same rx_reachable_inv [OF assms(1,2)] assms(3) same_bufs_trans by blast
  moreover have "k < length (ra_sds (hx ?h))" "list_all (msg_ok e (length (ra_rds (hx ?h)))) ms" "on_card (concat (map (msg_handles e) ms)) ?h"
    using assms(4,6,7) by (simp_all add: on_card_def)
  ultimately obtain b where b: "dispatch_all e k ms ?a = Some b" "came_back ?h (concat (map (msg_handles e) ms)) b"
    using dispatch_all_safe by force
  have k: "k < length (ra_sds ?a)" and D: "set_descs k (sh_descs ?s) ?a = ?a" and mx: "ra_max_rx_desc ?a = ra_max_rx_desc a"
    using assms(4) by (simp_all add: set_descs_def set_sds_def)
  obtain cnt where "ring_loop e k n 0 (sh_consumer ?s) ?a = Some (cnt, c, set_descs k D b)"
    using ring_loop_refines [OF k, of e n "sh_consumer ?s" "sh_descs ?s" ms c D 0] assms(5) b(1) D mx by auto
  then have "unm_process_rcv_ring e k n a \<noteq> None" by (simp add: unm_process_rcv_ring_def Let_def)
  then show ?thesis using b by (simp add: came_back_def)
qed

lemma ex_posted_ring: "ra_sds (hx ex_posted) = ra_sds ex_rx" "ra_max_rx_desc (hx ex_posted) = 4"
proof -
  obtain c b where p: "nx_post_rx_descriptors ex_mem 0 ([0, 1], 2) (hx ex_taken) = (c, b)" by (metis surj_pair)
  have t: "ra_sds (hx ex_taken) = ra_sds ex_rx" "ra_max_rx_desc (hx ex_taken) = 4"
    by (simp_all add: ex_taken_def ex_take set_rds_def) (simp_all add: rx_start_def initialize_adapter_sw_def ex_rx_def)
  show "ra_sds (hx ex_posted) = ra_sds ex_rx" using post_lengths [OF p] p t by (simp add: ex_posted_def)
  have "ra_max_rx_desc b = ra_max_rx_desc (hx ex_taken)"
  proof -
    obtain x where x: "post_loop ex_mem [0, 1] (rh_producer (ra_rds (hx ex_taken) ! 0)) (ra_rds (hx ex_taken) ! 0) (ra_allocs (hx ex_taken)) = x" by simp
    show ?thesis using p x by (cases x) (auto simp: nx_post_rx_descriptors_def Let_def set_rds_def)
  qed
  then show "ra_max_rx_desc (hx ex_posted) = 4" using p t by (simp add: ex_posted_def)
qed

lemma ex_adapter_ready:
  "0 < length (ra_sds ex_adapter)" "same_bufs (hx ex_posted) ex_adapter"
  "ring_parse ex_env (ra_max_rx_desc ex_adapter) 4 (sh_consumer (ra_sds ex_adapter ! 0)) (sh_descs (ra_sds ex_adapter ! 0)) =
      ([(ex_desc, [])], 1, [release_desc ex_desc, (0, 0), (0, 0), (0, 0)])"
  "list_all (msg_ok ex_env (length (ra_rds ex_adapter))) [(ex_desc, [])]"
  "on_card (concat (map (msg_handles ex_env) [(ex_desc, [])])) ex_posted"
proof -
  have l: "0 < length (ra_sds (hx ex_posted))" "sh_consumer (ra_sds (hx ex_posted) ! 0) = 0"
    using ex_posted_ring by (simp_all add: ex_rx_def)
  have s: "single_desc ex_env ex_desc" "\<not> host_owned (0, 0)" "packet_msg ex_env ex_desc" "packet_ref ex_desc = (0, 1)"
    using ex_desc_fields by (simp_all add: single_desc_def ex_env_def host_owned_def packet_msg_def packet_ref_def UNM_MSGTYPE_TNIC_GLOBAL_BUFFERS_def)
  show "0 < length (ra_sds ex_adapter)" using l by (simp add: ex_adapter_def)
  show "ring_parse ex_env (ra_max_rx_desc ex_adapter) 4 (sh_consumer (ra_sds ex_adapter ! 0)) (sh_descs (ra_sds ex_adapter ! 0)) =
      ([(ex_desc, [])], 1, [release_desc ex_desc, (0, 0), (0, 0), (0, 0)])"
    using l s ex_desc_fields ex_posted_ring by (simp add: ex_adapter_def eval_nat_numeral Let_def)
  show "same_bufs (hx ex_posted) ex_adapter"
    using map_update_same [OF l(1), of "\<lambda>s. (sh_free s, sh_free_count s)"] by (simp add: ex_adapter_def same_bufs_def set_descs_def)
  show "list_all (msg_ok ex_env (length (ra_rds ex_adapter))) [(ex_desc, [])]"
    using s ex_posted_sel by (simp add: msg_ok_def ex_adapter_def)
  show "on_card (concat (map (msg_handles ex_env) [(ex_desc, [])])) ex_posted"
    using s ex_posted_sel by (simp add: msg_handles_def on_card_def)
qed

text \<open>C10 As long as the card returns only buffers it has, each once, in messages of a permitted form, the receive routine
  never crashes, whatever else the ring holds; and the buffers returned are where they belong: the conservation of
  buffers holds of the state in which the messages have been handled.\<close>

theorem receive_ring_never_crashes:
  assumes "rx_reachable al a0 s" "new_adapter a0" "same_bufs (hx s) a" "k < length (ra_sds a)"
    "ring_parse e (ra_max_rx_desc a) n (sh_consumer (ra_sds a ! k)) (sh_descs (ra_sds a ! k)) = (ms, c, D)"
    "list_all (msg_ok e (length (ra_rds a))) ms" "on_card (concat (map (msg_handles e) ms)) s"
  shows "unm_process_rcv_ring e k n a \<noteq> None \<and>
    (\<exists>b. dispatch_all e k ms (set_sds k ((ra_sds a ! k)\<lparr>sh_polled := sh_polled (ra_sds a ! k) + 1\<rparr>) a) = Some b \<and>
      rx_inv (s\<lparr>hx := b, hcard := remove_handles (concat (map (msg_handles e) ms)) (hcard s)\<rparr>))"
  using assms by (rule receive_ring_ok)

theorem receive_ring_never_crashes_witness:
  "unm_process_rcv_ring ex_env 0 4 ex_adapter \<noteq> None \<and> ex_adapter = set_descs 0 [ex_desc, (0, 0), (0, 0), (0, 0)] (hx ex_posted)"
  using receive_ring_never_crashes [OF ex_posted_reachable ex_rx_new ex_adapter_ready(2,1,3,4,5)] by (simp add: ex_adapter_def)

text \<open>The test of a packet's buffer index lets the index equal to the size of the ring through, and the driver then
  reads behind the array of buffers.\<close>

theorem index_equal_to_ring_size_crashes:
  assumes "sd_opcode d \<noteq> UNM_MSGTYPE_TNIC_GLOBAL_BUFFERS" "sd_type d < length (ra_rds a)"
    "length (rh_buf_arr (ra_rds a ! sd_type d)) = unat (rh_size (ra_rds a ! sd_type d))"
    "sd_referenceHandle d = unat (rh_size (ra_rds a ! sd_type d))"
  shows "unm_process_rcv e k d a = None"
  using assms by (simp add: unm_process_rcv_def repost_buffer_def process_rxbuffer_def Let_def)

definition bad_desc :: sdesc where
  "bad_desc = (push_bit 58 4 OR push_bit 56 1 OR push_bit 53 1 OR push_bit 28 2, 0)"

theorem index_equal_to_ring_size_crashes_witness:
  "unm_process_rcv ex_env 0 bad_desc ex_rx = None \<and> host_owned bad_desc"
proof -
  have f: "sd_opcode bad_desc = 4" "sd_type bad_desc = 0" "sd_referenceHandle bad_desc = 2"
    by (simp_all add: bad_desc_def sd_opcode_def sd_type_def sd_referenceHandle_def sd_field_def
      push_bit_eq_mult drop_bit_eq_div take_bit_eq_mod)
  have r: "length (ra_rds ex_rx) = 1" "length (rh_buf_arr (ra_rds ex_rx ! 0)) = 2" "rh_size (ra_rds ex_rx ! 0) = 2"
    by (simp_all add: ex_rx_def)
  have "unm_process_rcv ex_env 0 bad_desc ex_rx = None"
    using index_equal_to_ring_size_crashes [of bad_desc ex_rx ex_env 0] f r by (simp add: UNM_MSGTYPE_TNIC_GLOBAL_BUFFERS_def)
  then show ?thesis by (simp add: bad_desc_def host_owned_def bit_simps)
qed

lemma length_put_bytes [simp]: "i + length vs \<le> length bs \<Longrightarrow> length (put_bytes i vs bs) = length bs"
  by (simp add: put_bytes_def)

lemma nth_put_bytes:
  "i + length vs \<le> length bs \<Longrightarrow> j < length bs \<Longrightarrow>
   put_bytes i vs bs ! j = (if i \<le> j \<and> j < i + length vs then vs ! (j - i) else bs ! j)"
  by (auto simp: put_bytes_def nth_append min_def)

lemma length_be16 [simp]: "length (be16 v) = 2"
  by (simp add: be16_def)

lemma length_be32 [simp]: "length (be32 v) = 4"
  by (simp add: be32_def)

lemma get16_be16: "get16 (be16 v) 0 = v"
  by (rule bit_word_eqI) (auto simp: get16_def be16_def bit_simps)

lemma get16_put_bytes:
  assumes "i + 2 \<le> length bs"
  shows "get16 (put_bytes i (be16 v) bs) i = v"
proof -
  have "get16 (put_bytes i (be16 v) bs) i = get16 (be16 v) 0"
    using assms by (simp add: get16_def nth_put_bytes)
  then show ?thesis by (simp add: get16_be16)
qed

text \<open>Setting the length: the two fields, and nothing else.\<close>

lemma set_tot_len_nth:
  assumes "20 \<le> length bs" "j < length bs" "j \<notin> {2, 3, 10, 11}"
  shows "set_tot_len csum v bs ! j = bs ! j"
  using assms by (auto simp: set_tot_len_def Let_def nth_put_bytes)

lemma set_tot_len_length [simp]: "20 \<le> length bs \<Longrightarrow> length (set_tot_len csum v bs) = length bs"
  by (simp add: set_tot_len_def Let_def)

lemma set_tot_len_fields:
  assumes "20 \<le> length bs"
  shows "get16 (set_tot_len csum v bs) 2 = v"
    "get16 (set_tot_len csum v bs) 10 = csum (take (ip_hlen bs) (put_bytes 10 (be16 0) (set_tot_len csum v bs)))"
proof -
  let ?b = "put_bytes 10 (be16 0) (put_bytes 2 (be16 v) bs)"
  have "0 < length bs" using assms by linarith
  then have h: "ip_hlen ?b = ip_hlen bs" using assms by (simp add: ip_hlen_def nth_put_bytes del: length_greater_0_conv)
  have s: "set_tot_len csum v bs = put_bytes 10 (be16 (csum (take (ip_hlen bs) ?b))) ?b"
    by (simp add: set_tot_len_def Let_def h)
  have "get16 (set_tot_len csum v bs) 2 = get16 (put_bytes 2 (be16 v) bs) 2"
    using assms by (simp add: s get16_def nth_put_bytes)
  then show "get16 (set_tot_len csum v bs) 2 = v" using assms by (simp add: get16_put_bytes)
  have "put_bytes 10 (be16 0) (set_tot_len csum v bs) = ?b"
    using assms by (intro nth_equalityI) (simp_all add: s nth_put_bytes)
  then show "get16 (set_tot_len csum v bs) 10 = csum (take (ip_hlen bs) (put_bytes 10 (be16 0) (set_tot_len csum v bs)))"
    unfolding s using assms by (simp add: get16_put_bytes)
qed

text \<open>The headers of a packet aggregated in one buffer: the IP length covers headers and data, the IP checksum is that of
  the header with its own field zero, sequence number and push flag are the descriptor's, and no other byte changes.\<close>

theorem lro2_headers_adjusted:
  assumes "20 \<le> ip_hlen bs" "ip_hlen bs + 20 \<le> length bs"
  shows "case lro2_adjust_skb csum d bs of r \<Rightarrow>
    length r = length bs \<and> get16 r 2 = of_nat (ip_hlen bs + tcp_hlen bs + lro_length d) \<and>
    get16 r 10 = csum (take (ip_hlen bs) (put_bytes 10 (be16 0) r)) \<and>
    take 4 (drop (ip_hlen bs + 4) r) = be32 (lro2_seq_number d) \<and> bit (r ! (ip_hlen bs + 13)) 3 = lro_psh d \<and>
    list_all (\<lambda>j. r ! j = bs ! j)
      (filter (\<lambda>j. j \<notin> {2, 3, 10, 11, ip_hlen bs + 13} \<and> (j < ip_hlen bs + 4 \<or> ip_hlen bs + 8 \<le> j)) [0..<length bs])"
proof -
  define v where v: "v = (of_nat (ip_hlen bs + tcp_hlen bs + lro_length d) :: u16)"
  let ?h = "ip_hlen bs" and ?t = "set_tot_len csum v bs"
  let ?q = "set_psh (lro_psh d) ?t"
  let ?r = "put_bytes (?h + 4) (be32 (lro2_seq_number d)) ?q"
  have len: "20 \<le> length bs" "length ?t = length bs" "length ?q = length bs" "length ?r = length bs" using assms by (simp_all add: set_psh_def Let_def)
  have pos: "0 < length bs" using len by linarith
  have ht: "ip_hlen ?t = ?h" using len(1) pos unfolding ip_hlen_def by (simp add: set_tot_len_nth del: length_greater_0_conv)
  have hq: "ip_hlen ?q = ?h"
  proof -
    have "?q ! 0 = ?t ! 0" using assms len by (simp add: set_psh_def Let_def ht)
    then show ?thesis using ht by (simp add: ip_hlen_def)
  qed
  have r: "lro2_adjust_skb csum d bs = ?r" unfolding lro2_adjust_skb_def Let_def v [symmetric] ht by (rule refl)
  have low: "?r ! j = ?t ! j" if "j < ?h" for j
    using that assms len by (simp add: nth_put_bytes set_psh_def Let_def ht)
  have "get16 ?r 2 = get16 ?t 2" "get16 ?r 10 = get16 ?t 10" using assms low by (simp_all add: get16_def)
  moreover have "take ?h (put_bytes 10 (be16 0) ?r) = take ?h (put_bytes 10 (be16 0) ?t)"
    using assms len low by (intro nth_equalityI) (simp_all add: nth_put_bytes)
  moreover have "take 4 (drop (?h + 4) ?r) = be32 (lro2_seq_number d)"
    using assms len by (simp add: put_bytes_def)
  moreover have "bit (?r ! (?h + 13)) 3 = lro_psh d"
    using assms len by (simp add: nth_put_bytes set_psh_def Let_def ht bit_simps)
  moreover have "?r ! j = bs ! j" if "j < length bs" "j \<notin> {2, 3, 10, 11, ?h + 13}" "j < ?h + 4 \<or> ?h + 8 \<le> j" for j
    using that assms len by (auto simp: nth_put_bytes set_psh_def Let_def ht set_tot_len_nth)
  ultimately show ?thesis
    using set_tot_len_fields [OF len(1), of csum v] len(4) unfolding r v [symmetric] by (simp add: list_all_iff)
qed

theorem lro2_headers_adjusted_witness:
  "get16 (lro2_adjust_skb (\<lambda>bs. of_nat (length bs)) (push_bit 16 1000, 5) (0x45 # replicate 31 0 @ [0x50] @ replicate 7 0)) 2 = 1040"
proof -
  let ?bs = "0x45 # replicate 31 0 @ [0x50] @ replicate 7 0 :: u8 list"
  have h: "ip_hlen ?bs = 20" "tcp_hlen ?bs = 20" "lro_length (push_bit 16 1000, 5) = 1000"
    by (simp_all add: ip_hlen_def tcp_hlen_def lro_length_def sd_field_def push_bit_eq_mult drop_bit_eq_div take_bit_eq_mod nth_append nth_Cons')
  then show ?thesis using lro2_headers_adjusted [of ?bs "\<lambda>bs. of_nat (length bs)" "(push_bit 16 1000, 5)"] by simp
qed

end
