(* ===== verification/HwAccess.thy ===== *)
theory HwAccess
  imports CrbMap
begin

text \<open>
  Register access through the PCI aperture, \<open>driver/unm_nic_hw.c\<close>. Registers are named by their offset in a map of
  128M. Cards with a 128M (or 32M) BAR show half of the register space at a time, selected by a window register:
  outside the access routines window 1 is selected, and a register of window 0 is reached by switching, under the
  writer lock (\<open>unm_nic_hw_read_wx_128M\<close> and the like). Cards with a 2M BAR show some registers at fixed places
  (\<open>crb_128M_2M_map\<close>); the others are reached through a movable window of 64K, under a lock shared by the functions
  of the card (\<open>unm_nic_hw_read_wx_2M\<close> and the like).

  Accesses, locks and mappings are logged. The PCI bus, the pages mapped on demand and the spinning of the read-back
  loop (a fuel) are parameters. A result \<^const>\<open>None\<close> is a \<open>BUG\<close>, or a loop that does not end within the fuel.
\<close>

subsection \<open>The machine\<close>

record 'h pci_bus =
  pci_rd :: "nat \<Rightarrow> u64 \<Rightarrow> 'h \<Rightarrow> u64 \<times> 'h"
  pci_wr :: "nat \<Rightarrow> u64 \<Rightarrow> u64 \<Rightarrow> 'h \<Rightarrow> 'h"

datatype hw_event =
    PciRd nat u64 u64
  | PciWr nat u64 u64
  | RdLock
  | RdUnlock
  | WrLock
  | WrUnlock
  | Map u64
  | Unmap u64

record 'h nic =
  hw_dev :: 'h
  hw_log :: "hw_event list"
  curr_window :: u32
  crb_win :: u32

text \<open>The adapter's fixed data: bases of the mapped ranges, function and port number; \<open>hc_len0\<close> is \<open>ahw.pci_len0\<close>,
  \<open>hc_bar0\<close> the bus address of BAR 0, \<open>hc_ioremap\<close> what the kernel maps a page at, if it can.\<close>

record hw_conf =
  hc_base0 :: u64
  hc_base1 :: u64
  hc_base2 :: u64
  hc_first_start :: u64
  hc_first_end :: u64
  hc_func :: u64
  hc_portnum :: u32
  hc_len0 :: u64
  hc_bar0 :: u64
  hc_ioremap :: "u64 \<Rightarrow> u64 \<Rightarrow> u64 option"

definition note_hw :: "hw_event \<Rightarrow> 'h nic \<Rightarrow> 'h nic" where
  "note_hw e s = s\<lparr>hw_log := hw_log s @ [e]\<rparr>"

definition p_rd :: "'h pci_bus \<Rightarrow> nat \<Rightarrow> u64 \<Rightarrow> 'h nic \<Rightarrow> u64 \<times> 'h nic" where
  "p_rd B n a s = (case pci_rd B n a (hw_dev s) of (v, h) \<Rightarrow> (v, note_hw (PciRd n a v) (s\<lparr>hw_dev := h\<rparr>)))"

definition p_wr :: "'h pci_bus \<Rightarrow> nat \<Rightarrow> u64 \<Rightarrow> u64 \<Rightarrow> 'h nic \<Rightarrow> 'h nic" where
  "p_wr B n a v s = note_hw (PciWr n a v) (s\<lparr>hw_dev := pci_wr B n a v (hw_dev s)\<rparr>)"

subsection \<open>Addresses\<close>

definition UNM_CRB_PCIX_HOST :: u64 where "UNM_CRB_PCIX_HOST = UNM_PCI_CRB_WINDOW 0"
definition UNM_CRB_PCIX_HOST2 :: u64 where "UNM_CRB_PCIX_HOST2 = UNM_PCI_CRB_WINDOW 32"
definition UNM_CRB_MAX :: u64 where "UNM_CRB_MAX = UNM_PCI_CRB_WINDOW 64"
definition UNM_PCI_DIRECT_CRB :: u64 where "UNM_PCI_DIRECT_CRB = 0x04400000"
definition UNM_PCI_CAMQM :: u64 where "UNM_PCI_CAMQM = 0x04800000"
definition UNM_PCI_CAMQM_MAX :: u64 where "UNM_PCI_CAMQM_MAX = 0x04ffffff"
definition UNM_PCI_CAMQM_2M_END :: u64 where "UNM_PCI_CAMQM_2M_END = 0x04800800"
definition UNM_PCI_CAMQM_2M_BASE :: u64 where "UNM_PCI_CAMQM_2M_BASE = 0x000ff800"
definition CRB_WINDOW_2M :: u64 where "CRB_WINDOW_2M = 0x130060"
definition CRB_INDIRECT_2M :: u64 where "CRB_INDIRECT_2M = 0x1e0000"
definition SECOND_PAGE_GROUP_START :: u64 where "SECOND_PAGE_GROUP_START = 0x6000000"
definition SECOND_PAGE_GROUP_END :: u64 where "SECOND_PAGE_GROUP_END = 0x68BC000"
definition THIRD_PAGE_GROUP_START :: u64 where "THIRD_PAGE_GROUP_START = 0x70E4000"
definition THIRD_PAGE_GROUP_END :: u64 where "THIRD_PAGE_GROUP_END = 0x8000000"
definition PCIE_SEM7_LOCK :: u64 where "PCIE_SEM7_LOCK = 0x1c038"
definition PCIE_SEM7_UNLOCK :: u64 where "PCIE_SEM7_UNLOCK = 0x1c03c"
definition UNM_CRB_WIN_LOCK_ID :: u64 where "UNM_CRB_WIN_LOCK_ID = UNM_CAM_RAM 0x124"
definition PCIX_CRB_WINDOW_F0 :: u64 where "PCIX_CRB_WINDOW_F0 = 0x10210"
definition PCIX_CRB_WINDOW_F4 :: u64 where "PCIX_CRB_WINDOW_F4 = 0x102ac"

definition PCIE_CRB_WINDOW_REG :: "u64 \<Rightarrow> u64" where
  "PCIE_CRB_WINDOW_REG f = (if f < 4 then PCIX_CRB_WINDOW_F0 + 0x20 * f else PCIX_CRB_WINDOW_F4 + 0x10 * (f - 4))"

definition PCI_OFFSET_SECOND_RANGE :: "hw_conf \<Rightarrow> u64 \<Rightarrow> u64" where
  "PCI_OFFSET_SECOND_RANGE C off = hc_base1 C + off - SECOND_PAGE_GROUP_START"

definition pci_base_offset :: "hw_conf \<Rightarrow> u64 \<Rightarrow> u64" where
  "pci_base_offset C off =
     (if off < hc_first_end C \<and> hc_first_start C \<le> off then hc_base0 C + off
      else if off < SECOND_PAGE_GROUP_END \<and> SECOND_PAGE_GROUP_START \<le> off then hc_base1 C + off - SECOND_PAGE_GROUP_START
      else if off < THIRD_PAGE_GROUP_END \<and> THIRD_PAGE_GROUP_START \<le> off then hc_base2 C + off - THIRD_PAGE_GROUP_START
      else 0)"

definition ADDR_IN_WINDOW1 :: "u64 \<Rightarrow> bool" where
  "ADDR_IN_WINDOW1 off \<longleftrightarrow> UNM_CRB_PCIX_HOST2 < off \<and> off < UNM_CRB_MAX"

definition CRB_NORMAL :: "u64 \<Rightarrow> u64" where
  "CRB_NORMAL off = off - UNM_CRB_PCIX_HOST2 + UNM_CRB_PCIX_HOST"

text \<open>The valid sub-blocks of \<open>crb_128M_2M_map\<close>: block and sub-block, start and end in the 128M map, start in the 2M map.\<close>

definition crb_128M_2M_map :: "((u64 \<times> u64) \<times> (u64 \<times> u64 \<times> u64)) list" where
  "crb_128M_2M_map =
    [((1, 0), (0x100000, 0x102000, 0x120000)),
     ((1, 1), (0x110000, 0x120000, 0x130000)),
     ((1, 2), (0x120000, 0x122000, 0x124000)),
     ((1, 3), (0x130000, 0x132000, 0x126000)),
     ((1, 4), (0x140000, 0x142000, 0x128000)),
     ((1, 5), (0x150000, 0x152000, 0x12a000)),
     ((1, 6), (0x160000, 0x170000, 0x110000)),
     ((1, 7), (0x170000, 0x172000, 0x12e000)),
     ((1, 14), (0x1e0000, 0x1e0800, 0x122000)),
     ((2, 0), (0x200000, 0x210000, 0x180000)),
     ((4, 0), (0x400000, 0x401000, 0x169000)),
     ((5, 0), (0x500000, 0x510000, 0x140000)),
     ((6, 0), (0x600000, 0x610000, 0x1c0000)),
     ((7, 0), (0x700000, 0x704000, 0x1b8000)),
     ((8, 0), (0x800000, 0x802000, 0x170000)),
     ((8, 15), (0x8f0000, 0x8f2000, 0x172000)),
     ((9, 0), (0x900000, 0x902000, 0x174000)),
     ((9, 15), (0x9f0000, 0x9f2000, 0x176000)),
     ((10, 15), (0xaf0000, 0xaf2000, 0x17a000)),
     ((11, 15), (0xbf0000, 0xbf2000, 0x17e000)),
     ((12, 0), (0xc00000, 0xc04000, 0x1d4000)),
     ((13, 0), (0xd00000, 0xd04000, 0x1a4000)),
     ((14, 0), (0xe00000, 0xe04000, 0x1a0000)),
     ((15, 0), (0xf00000, 0xf01000, 0x164000)),
     ((17, 0), (0x1100000, 0x1101000, 0x160000)),
     ((18, 0), (0x1200000, 0x1201000, 0x161000)),
     ((19, 0), (0x1300000, 0x1301000, 0x162000)),
     ((20, 0), (0x1400000, 0x1401000, 0x163000)),
     ((21, 0), (0x1500000, 0x1501000, 0x165000)),
     ((22, 0), (0x1600000, 0x1601000, 0x166000)),
     ((29, 0), (0x1d00000, 0x1d10000, 0x190000)),
     ((30, 0), (0x1e00000, 0x1e01000, 0x16a000)),
     ((31, 0), (0x1f00000, 0x1f10000, 0x150000)),
     ((33, 0), (0x2100000, 0x2102000, 0x120000)),
     ((33, 1), (0x2110000, 0x2120000, 0x130000)),
     ((33, 2), (0x2120000, 0x2122000, 0x124000)),
     ((33, 3), (0x2130000, 0x2132000, 0x126000)),
     ((33, 4), (0x2140000, 0x2142000, 0x128000)),
     ((33, 5), (0x2150000, 0x2152000, 0x12a000)),
     ((33, 6), (0x2160000, 0x2170000, 0x110000)),
     ((33, 7), (0x2170000, 0x2172000, 0x12e000)),
     ((34, 0), (0x2200000, 0x2204000, 0x1b0000)),
     ((40, 0), (0x2800000, 0x2804000, 0x1a4000)),
     ((41, 0), (0x2900000, 0x2901000, 0x16b000)),
     ((42, 0), (0x2a00000, 0x2a00400, 0x1ac400)),
     ((43, 0), (0x2b00000, 0x2b00400, 0x1ac800)),
     ((44, 0), (0x2c00000, 0x2c00400, 0x1acc00)),
     ((45, 0), (0x2d00000, 0x2d00400, 0x1ad000)),
     ((46, 0), (0x2e00000, 0x2e00400, 0x1ad400)),
     ((47, 0), (0x2f00000, 0x2f00400, 0x1ad800)),
     ((48, 0), (0x3000000, 0x3000400, 0x1adc00)),
     ((50, 0), (0x3200000, 0x3204000, 0x1d4000)),
     ((51, 0), (0x3300000, 0x3304000, 0x1a0000)),
     ((53, 0), (0x3500000, 0x3500400, 0x1ac000)),
     ((54, 0), (0x3600000, 0x3600400, 0x1ae000)),
     ((55, 0), (0x3700000, 0x3700400, 0x1ae400)),
     ((56, 0), (0x3800000, 0x3804000, 0x1d0000)),
     ((57, 0), (0x3900000, 0x3904000, 0x1b4000)),
     ((58, 0), (0x3a00000, 0x3a04000, 0x1d8000)),
     ((61, 0), (0x3d00000, 0x3d04000, 0x1dc000)),
     ((62, 0), (0x3e00000, 0x3e01000, 0x167000)),
     ((63, 0), (0x3f00000, 0x3f01000, 0x168000))]"

definition crb_hub_agt :: "u64 list" where
  "crb_hub_agt =
     [0, hub_agt 0x0e 0x73, hub_agt 0x05 0x15, hub_agt 0x05 0x25,
      0, hub_agt 0x01 0x50, hub_agt 0x03 0x31, hub_agt 0x01 0x66,
      hub_agt 0x01 0x60, hub_agt 0x01 0x61, hub_agt 0x01 0x62, hub_agt 0x01 0x63,
      hub_agt 0x08 0x20, hub_agt 0x08 0x17, hub_agt 0x08 0x21, hub_agt 0x06 0x4b,
      hub_agt 0x08 0x05, hub_agt 0x06 0x40, hub_agt 0x06 0x41, hub_agt 0x06 0x42,
      hub_agt 0x06 0x43, hub_agt 0x06 0x45, hub_agt 0x06 0x44, hub_agt 0x07 0x40,
      hub_agt 0x07 0x41, hub_agt 0x07 0x42, hub_agt 0x07 0x43, 0,
      hub_agt 0x07 0x44, hub_agt 0x08 0x10, 0, hub_agt 0x01 0x51,
      0, hub_agt 0x0e 0x73, hub_agt 0x08 0x16, 0,
      0, 0, 0, 0,
      hub_agt 0x08 0x17, 0, hub_agt 0x01 0x09, hub_agt 0x0e 0x0a,
      hub_agt 0x0e 0x0b, hub_agt 0x0e 0x0c, hub_agt 0x01 0x0d, hub_agt 0x01 0x0e,
      hub_agt 0x0e 0x0f, hub_agt 0x08 0x05, hub_agt 0x08 0x20, hub_agt 0x08 0x21,
      0, hub_agt 0x01 0x08, hub_agt 0x01 0x11, hub_agt 0x0e 0x12,
      hub_agt 0x08 0x06, 0, hub_agt 0x0e 0x18, hub_agt 0x03 0x19,
      hub_agt 0x03 0x29, 0, hub_agt 0x06 0x46, 0]"

definition CRB_BLK :: "u64 \<Rightarrow> u64" where "CRB_BLK off = drop_bit 20 off AND 0x3f"
definition CRB_SUBBLK :: "u64 \<Rightarrow> u64" where "CRB_SUBBLK off = drop_bit 16 off AND 0xf"

definition CRB_HI :: "u64 \<Rightarrow> u32" where
  "CRB_HI off = push_bit 20 (ucast (crb_hub_agt ! unat (CRB_BLK off))) OR (ucast off AND 0xf0000)"

subsection \<open>The window of the 128M map\<close>

fun window_wait :: "'h pci_bus \<Rightarrow> u64 \<Rightarrow> u64 \<Rightarrow> nat \<Rightarrow> 'h nic \<Rightarrow> 'h nic option" where
  "window_wait B a v 0 s = None"
| "window_wait B a v (Suc n) s = (case p_rd B 4 a s of (x, s) \<Rightarrow> if x = v then Some s else window_wait B a v n s)"

text \<open>The window register of the function, in the range that bypasses the register bus.\<close>

definition window_reg :: "hw_conf \<Rightarrow> u64" where
  "window_reg C = PCI_OFFSET_SECOND_RANGE C (UNM_PCIE_REG (PCIE_CRB_WINDOW_REG (hc_func C)))"

definition unm_nic_pci_change_crbwindow_128M ::
    "'h pci_bus \<Rightarrow> hw_conf \<Rightarrow> nat \<Rightarrow> u32 \<Rightarrow> 'h nic \<Rightarrow> 'h nic option" where
  "unm_nic_pci_change_crbwindow_128M B C n w s =
     (if curr_window s = w then Some s
      else
        let v = push_bit 25 (ucast (w AND 1)) in
        (case window_wait B (window_reg C) v n (p_wr B 4 (window_reg C) v s) of
           None \<Rightarrow> None
         | Some s \<Rightarrow> Some (s\<lparr>curr_window := w\<rparr>)))"

definition unm_nic_hw_read_wx_128M :: "'h pci_bus \<Rightarrow> hw_conf \<Rightarrow> nat \<Rightarrow> u64 \<Rightarrow> 'h nic \<Rightarrow> (u32 \<times> 'h nic) option" where
  "unm_nic_hw_read_wx_128M B C n off s =
     (if ADDR_IN_WINDOW1 off then
        let addr = pci_base_offset C (CRB_NORMAL off); s = note_hw RdLock s in
        if addr = 0 then Some (1, note_hw RdUnlock s)
        else (case p_rd B 4 addr s of (v, s) \<Rightarrow> Some (ucast v, note_hw RdUnlock s))
      else
        let addr = pci_base_offset C off in
        (case unm_nic_pci_change_crbwindow_128M B C n 0 (note_hw WrLock s) of
           None \<Rightarrow> None
         | Some s \<Rightarrow>
             if addr = 0 then map_option (\<lambda>s. (1, note_hw WrUnlock s)) (unm_nic_pci_change_crbwindow_128M B C n 1 s)
             else (case p_rd B 4 addr s of
               (v, s) \<Rightarrow> map_option (\<lambda>s. (ucast v, note_hw WrUnlock s)) (unm_nic_pci_change_crbwindow_128M B C n 1 s))))"

definition unm_nic_hw_write_wx_128M :: "'h pci_bus \<Rightarrow> hw_conf \<Rightarrow> nat \<Rightarrow> u64 \<Rightarrow> u32 \<Rightarrow> 'h nic \<Rightarrow> (int \<times> 'h nic) option" where
  "unm_nic_hw_write_wx_128M B C n off d s =
     (if ADDR_IN_WINDOW1 off then
        let addr = pci_base_offset C (CRB_NORMAL off); s = note_hw RdLock s in
        if addr = 0 then Some (1, note_hw RdUnlock s)
        else Some (0, note_hw RdUnlock (p_wr B 4 addr (ucast d) s))
      else
        let addr = pci_base_offset C off in
        (case unm_nic_pci_change_crbwindow_128M B C n 0 (note_hw WrLock s) of
           None \<Rightarrow> None
         | Some s \<Rightarrow>
             if addr = 0 then map_option (\<lambda>s. (1, note_hw WrUnlock s)) (unm_nic_pci_change_crbwindow_128M B C n 1 s)
             else map_option (\<lambda>s. (0, note_hw WrUnlock s)) (unm_nic_pci_change_crbwindow_128M B C n 1 (p_wr B 4 addr (ucast d) s))))"

text \<open>The immediate accesses use no window and no lock.\<close>

definition unm_nic_pci_write_immediate_128M :: "'h pci_bus \<Rightarrow> hw_conf \<Rightarrow> u64 \<Rightarrow> u32 \<Rightarrow> 'h nic \<Rightarrow> int \<times> 'h nic" where
  "unm_nic_pci_write_immediate_128M B C off d s = (0, p_wr B 4 (PCI_OFFSET_SECOND_RANGE C off) (ucast d) s)"

definition unm_nic_pci_read_immediate_128M :: "'h pci_bus \<Rightarrow> hw_conf \<Rightarrow> u64 \<Rightarrow> 'h nic \<Rightarrow> (int \<times> u32) \<times> 'h nic" where
  "unm_nic_pci_read_immediate_128M B C off s = (case p_rd B 4 (pci_base_offset C off) s of (v, s) \<Rightarrow> ((0, ucast v), s))"

text \<open>\<open>unm_nic_pci_set_crbwindow\<close>: selects the window of an offset and gives the offset in it.\<close>

definition unm_nic_pci_set_crbwindow :: "'h pci_bus \<Rightarrow> hw_conf \<Rightarrow> nat \<Rightarrow> u64 \<Rightarrow> 'h nic \<Rightarrow> (u64 \<times> 'h nic) option" where
  "unm_nic_pci_set_crbwindow B C n off s =
     (if UNM_CRB_PCIX_HOST \<le> off \<and> off < UNM_CRB_DDR_NET then Some (off, s)
      else if UNM_CRB_PCIX_HOST \<le> off \<and> off < UNM_CRB_PCIX_HOST2 then
        (if curr_window s \<noteq> 0 then map_option (Pair off) (unm_nic_pci_change_crbwindow_128M B C n 0 s) else Some (off, s))
      else if UNM_CRB_PCIX_HOST2 < off \<and> off < UNM_CRB_MAX then
        (if curr_window s \<noteq> 1 then map_option (Pair (CRB_NORMAL off)) (unm_nic_pci_change_crbwindow_128M B C n 1 s)
         else Some (CRB_NORMAL off, s))
      else Some (off, s))"

subsection \<open>Accesses of any width\<close>

text \<open>A value of 1, 2, 4 or 8 bytes; otherwise as many words of 8 bytes as fit, one by one.\<close>

fun block_read :: "'h pci_bus \<Rightarrow> u64 \<Rightarrow> nat \<Rightarrow> 'h nic \<Rightarrow> u64 list \<times> 'h nic" where
  "block_read B a 0 s = ([], s)"
| "block_read B a (Suc n) s = (case p_rd B 8 a s of (v, s) \<Rightarrow> case block_read B (a + 8) n s of (vs, s) \<Rightarrow> (v # vs, s))"

fun block_write :: "'h pci_bus \<Rightarrow> u64 \<Rightarrow> u64 list \<Rightarrow> 'h nic \<Rightarrow> 'h nic" where
  "block_write B a [] s = s"
| "block_write B a (v # vs) s = block_write B (a + 8) vs (p_wr B 8 a v s)"

definition read_len :: "'h pci_bus \<Rightarrow> u64 \<Rightarrow> nat \<Rightarrow> 'h nic \<Rightarrow> u64 list \<times> 'h nic" where
  "read_len B a len s =
     (if len \<in> {1, 2, 4, 8} then (case p_rd B len a s of (v, s) \<Rightarrow> ([v], s)) else block_read B a (len div 8) s)"

definition write_len :: "'h pci_bus \<Rightarrow> u64 \<Rightarrow> nat \<Rightarrow> u64 list \<Rightarrow> 'h nic \<Rightarrow> 'h nic" where
  "write_len B a len ds s =
     (if len \<in> {1, 2, 4, 8} then p_wr B len a (hd ds) s else block_write B a (take (len div 8) ds) s)"

definition PAGE_SIZE :: u64 where "PAGE_SIZE = 4096"
definition PAGE_MASK :: u64 where "PAGE_MASK = NOT (PAGE_SIZE - 1)"

text \<open>An offset outside the mapped ranges is mapped for the access, one page or two; also the page to unmap.\<close>

definition map_page :: "hw_conf \<Rightarrow> u64 \<Rightarrow> nat \<Rightarrow> 'h nic \<Rightarrow> (u64 \<times> u64) option \<times> 'h nic" where
  "map_page C off len s =
     (let page = off AND PAGE_MASK;
          size' = (if page \<noteq> (off + of_nat len - 1) AND PAGE_MASK then PAGE_SIZE * 2 else PAGE_SIZE)
      in case hc_ioremap C (hc_bar0 C + page) size' of
           None \<Rightarrow> (None, s)
         | Some p \<Rightarrow> (Some (p + (off AND (PAGE_SIZE - 1)), p), note_hw (Map p) s))"

definition unmap_page :: "u64 option \<Rightarrow> 'h nic \<Rightarrow> 'h nic" where
  "unmap_page m s = (case m of None \<Rightarrow> s | Some p \<Rightarrow> note_hw (Unmap p) s)"

text \<open>Where the access goes: the address and, if a page had to be mapped, the page; and the offset as the routine has it
  afterwards, for it subtracts the start of the register space in place for window 0 only.\<close>

definition ioctl_addr :: "hw_conf \<Rightarrow> u64 \<Rightarrow> nat \<Rightarrow> 'h nic \<Rightarrow> ((u64 \<times> u64 option) option \<times> u64) \<times> 'h nic" where
  "ioctl_addr C off len s =
     (let win1 = ADDR_IN_WINDOW1 off;
          addr = pci_base_offset C (if win1 then CRB_NORMAL off else off);
          o1 = (if win1 then CRB_NORMAL off else off);
          o2 = (if hc_len0 C = 0 then o1 - UNM_PCI_CRBSPACE else o1);
          off' = (if win1 then off else o2)
      in if addr \<noteq> 0 then ((Some (addr, None), off), s)
         else (case map_page C o2 len s of
             (None, s) \<Rightarrow> ((None, off'), s)
           | (Some (a, p), s) \<Rightarrow> ((Some (a, Some p), off'), s)))"

definition ioctl_128M ::
    "'h pci_bus \<Rightarrow> hw_conf \<Rightarrow> nat \<Rightarrow> u64 \<Rightarrow> nat \<Rightarrow> (u64 \<Rightarrow> 'h nic \<Rightarrow> u64 list \<times> 'h nic) \<Rightarrow> 'h nic \<Rightarrow> (u64 list option \<times> 'h nic) option" where
  "ioctl_128M B C n off len f s =
     (case ioctl_addr C off len s of
        ((None, off'), s) \<Rightarrow> Some (None, s)
      | ((Some (addr, m), off'), s) \<Rightarrow>
          (case (if ADDR_IN_WINDOW1 off then Some (note_hw RdLock s)
                 else unm_nic_pci_change_crbwindow_128M B C n 0 (note_hw WrLock s)) of
             None \<Rightarrow> None
           | Some s \<Rightarrow>
               (case f addr s of (vs, s) \<Rightarrow>
                  map_option (\<lambda>s. (Some vs, unmap_page m s))
                    (if ADDR_IN_WINDOW1 off' then Some (note_hw RdUnlock s)
                     else map_option (note_hw WrUnlock) (unm_nic_pci_change_crbwindow_128M B C n 1 s)))))"

definition unm_nic_hw_read_ioctl_128M where
  "unm_nic_hw_read_ioctl_128M B C n off len s = ioctl_128M B C n off len (\<lambda>a. read_len B a len) s"

definition unm_nic_hw_write_ioctl_128M where
  "unm_nic_hw_write_ioctl_128M B C n off ds len s = ioctl_128M B C n off len (\<lambda>a s. ([], write_len B a len ds s)) s"

subsection \<open>The 2M map\<close>

datatype crb_addr =
    Invalid
  | Direct u64
  | Window u64

definition unm_nic_pci_get_crb_addr_2M :: "hw_conf \<Rightarrow> u64 \<Rightarrow> u64 \<Rightarrow> crb_addr" where
  "unm_nic_pci_get_crb_addr_2M C off len =
     (if UNM_CRB_MAX \<le> off then Invalid
      else if UNM_PCI_CAMQM \<le> off \<and> off + len \<le> UNM_PCI_CAMQM_2M_END then
        Direct (off - UNM_PCI_CAMQM + UNM_PCI_CAMQM_2M_BASE + hc_base0 C)
      else if off < UNM_PCI_CRBSPACE then Invalid
      else
        let x = off - UNM_PCI_CRBSPACE in
        (case map_of crb_128M_2M_map (CRB_BLK x, CRB_SUBBLK x) of
           None \<Rightarrow> Window x
         | Some (s, e, t) \<Rightarrow> if s \<le> x \<and> x + len \<le> e then Direct (x + t - s + hc_base0 C) else Window x))"

definition unm_nic_pci_set_crbwindow_2M :: "'h pci_bus \<Rightarrow> hw_conf \<Rightarrow> u64 \<Rightarrow> 'h nic \<Rightarrow> u64 \<times> 'h nic" where
  "unm_nic_pci_set_crbwindow_2M B C off s =
     (let s = s\<lparr>crb_win := CRB_HI off\<rparr>;
          s = p_wr B 4 (CRB_WINDOW_2M + hc_base0 C) (ucast (crb_win s)) s;
          (v, s) = p_rd B 4 (CRB_WINDOW_2M + hc_base0 C) s
      in ((off AND mask 16) + CRB_INDIRECT_2M + hc_base0 C, s))"

text \<open>The lock of the movable window. Its registers are in the fixed part of the map, so they need no window.\<close>

definition direct_2M :: "hw_conf \<Rightarrow> u64 \<Rightarrow> u64" where
  "direct_2M C off = (case unm_nic_pci_get_crb_addr_2M C off 4 of Direct a \<Rightarrow> a | _ \<Rightarrow> 0)"

fun crb_win_wait :: "'h pci_bus \<Rightarrow> hw_conf \<Rightarrow> nat \<Rightarrow> 'h nic \<Rightarrow> bool \<times> 'h nic" where
  "crb_win_wait B C n s =
     (case p_rd B 4 (direct_2M C (UNM_PCIE_REG PCIE_SEM7_LOCK)) s of
        (v, s) \<Rightarrow> if v = 1 then (True, s)
                 else (case n of 0 \<Rightarrow> (False, s) | Suc m \<Rightarrow> if v \<noteq> 0 then (True, s) else crb_win_wait B C m s))"

definition CRB_WIN_LOCK_TIMEOUT :: nat where "CRB_WIN_LOCK_TIMEOUT = 100000000"

definition crb_win_lock :: "'h pci_bus \<Rightarrow> hw_conf \<Rightarrow> 'h nic \<Rightarrow> int \<times> 'h nic" where
  "crb_win_lock B C s =
     (case crb_win_wait B C CRB_WIN_LOCK_TIMEOUT s of
        (ok, s) \<Rightarrow> if ok then (0, p_wr B 4 (direct_2M C UNM_CRB_WIN_LOCK_ID) (ucast (hc_portnum C)) s) else (-1, s))"

definition crb_win_unlock :: "'h pci_bus \<Rightarrow> hw_conf \<Rightarrow> 'h nic \<Rightarrow> 'h nic" where
  "crb_win_unlock B C s = snd (p_rd B 4 (direct_2M C (UNM_PCIE_REG PCIE_SEM7_UNLOCK)) s)"

text \<open>An access through the map: directly, or through the window, whether or not its lock was got.\<close>

definition access_2M :: "'h pci_bus \<Rightarrow> hw_conf \<Rightarrow> u64 \<Rightarrow> nat \<Rightarrow> (u64 \<Rightarrow> 'h nic \<Rightarrow> 'a \<times> 'h nic) \<Rightarrow> 'h nic \<Rightarrow> ('a \<times> 'h nic) option" where
  "access_2M B C off len f s =
     (case unm_nic_pci_get_crb_addr_2M C off (of_nat len) of
        Invalid \<Rightarrow> None
      | Direct a \<Rightarrow> Some (f a s)
      | Window x \<Rightarrow>
          (case crb_win_lock B C (note_hw WrLock s) of (rv, s) \<Rightarrow>
           case unm_nic_pci_set_crbwindow_2M B C x s of (a, s) \<Rightarrow>
           case f a s of (r, s) \<Rightarrow> Some (r, note_hw WrUnlock (crb_win_unlock B C s))))"

definition unm_nic_hw_read_wx_2M :: "'h pci_bus \<Rightarrow> hw_conf \<Rightarrow> u64 \<Rightarrow> 'h nic \<Rightarrow> (u32 \<times> 'h nic) option" where
  "unm_nic_hw_read_wx_2M B C off s = access_2M B C off 4 (\<lambda>a s. case p_rd B 4 a s of (v, s) \<Rightarrow> (ucast v, s)) s"

definition unm_nic_hw_write_wx_2M :: "'h pci_bus \<Rightarrow> hw_conf \<Rightarrow> u64 \<Rightarrow> u32 \<Rightarrow> 'h nic \<Rightarrow> (int \<times> 'h nic) option" where
  "unm_nic_hw_write_wx_2M B C off d s = access_2M B C off 4 (\<lambda>a s. (0, p_wr B 4 a (ucast d) s)) s"

definition unm_nic_hw_read_ioctl_2M where
  "unm_nic_hw_read_ioctl_2M B C off len s = access_2M B C off len (\<lambda>a. read_len B a len) s"

definition unm_nic_hw_write_ioctl_2M where
  "unm_nic_hw_write_ioctl_2M B C off ds len s = access_2M B C off len (\<lambda>a s. (0 :: int, write_len B a len ds s)) s"

definition unm_nic_pci_write_immediate_2M where
  "unm_nic_pci_write_immediate_2M B C off d s = unm_nic_hw_write_wx_2M B C off d s"

definition unm_nic_pci_read_immediate_2M where
  "unm_nic_pci_read_immediate_2M B C off s = map_option (\<lambda>(v, s). ((0 :: int, v), s)) (unm_nic_hw_read_wx_2M B C off s)"


subsection \<open>The map as a translation\<close>

text \<open>The internal address of a register: hub and agent of its block above the offset in the block.\<close>

definition internal_addr :: "u64 \<Rightarrow> u64" where
  "internal_addr x = push_bit 20 (crb_hub_agt ! unat (CRB_BLK x)) OR (x AND 0xfffff)"

text \<open>The table in integers: hub and agent, start, size and start in the 2M map.\<close>

definition row :: "(u64 \<times> u64) \<times> (u64 \<times> u64 \<times> u64) \<Rightarrow> int \<times> int \<times> int \<times> int" where
  "row p = (case p of ((b, _), (s, e, t)) \<Rightarrow> (uint (crb_hub_agt ! unat b), uint s, uint (e - s), uint t))"

lemma rows_eval: "map row crb_128M_2M_map =
    [(0x773, 0x100000, 0x2000, 0x120000), (0x773, 0x110000, 0x10000, 0x130000), (0x773, 0x120000, 0x2000, 0x124000), (0x773, 0x130000, 0x2000, 0x126000), (0x773, 0x140000, 0x2000, 0x128000),
     (0x773, 0x150000, 0x2000, 0x12a000), (0x773, 0x160000, 0x10000, 0x110000), (0x773, 0x170000, 0x2000, 0x12e000), (0x773, 0x1e0000, 0x800, 0x122000), (0x295, 0x200000, 0x10000, 0x180000),
     (0x0, 0x400000, 0x1000, 0x169000), (0xd0, 0x500000, 0x10000, 0x140000), (0x1b1, 0x600000, 0x10000, 0x1c0000), (0xe6, 0x700000, 0x4000, 0x1b8000), (0xe0, 0x800000, 0x2000, 0x170000),
     (0xe0, 0x8f0000, 0x2000, 0x172000), (0xe1, 0x900000, 0x2000, 0x174000), (0xe1, 0x9f0000, 0x2000, 0x176000), (0xe2, 0xaf0000, 0x2000, 0x17a000), (0xe3, 0xbf0000, 0x2000, 0x17e000),
     (0x420, 0xc00000, 0x4000, 0x1d4000), (0x417, 0xd00000, 0x4000, 0x1a4000), (0x421, 0xe00000, 0x4000, 0x1a0000), (0x34b, 0xf00000, 0x1000, 0x164000), (0x340, 0x1100000, 0x1000, 0x160000),
     (0x341, 0x1200000, 0x1000, 0x161000), (0x342, 0x1300000, 0x1000, 0x162000), (0x343, 0x1400000, 0x1000, 0x163000), (0x345, 0x1500000, 0x1000, 0x165000), (0x344, 0x1600000, 0x1000, 0x166000),
     (0x410, 0x1d00000, 0x10000, 0x190000), (0x0, 0x1e00000, 0x1000, 0x16a000), (0xd1, 0x1f00000, 0x10000, 0x150000), (0x773, 0x2100000, 0x2000, 0x120000), (0x773, 0x2110000, 0x10000, 0x130000),
     (0x773, 0x2120000, 0x2000, 0x124000), (0x773, 0x2130000, 0x2000, 0x126000), (0x773, 0x2140000, 0x2000, 0x128000), (0x773, 0x2150000, 0x2000, 0x12a000), (0x773, 0x2160000, 0x10000, 0x110000),
     (0x773, 0x2170000, 0x2000, 0x12e000), (0x416, 0x2200000, 0x4000, 0x1b0000), (0x417, 0x2800000, 0x4000, 0x1a4000), (0x0, 0x2900000, 0x1000, 0x16b000), (0x89, 0x2a00000, 0x400, 0x1ac400),
     (0x70a, 0x2b00000, 0x400, 0x1ac800), (0x70b, 0x2c00000, 0x400, 0x1acc00), (0x70c, 0x2d00000, 0x400, 0x1ad000), (0x8d, 0x2e00000, 0x400, 0x1ad400), (0x8e, 0x2f00000, 0x400, 0x1ad800),
     (0x70f, 0x3000000, 0x400, 0x1adc00), (0x420, 0x3200000, 0x4000, 0x1d4000), (0x421, 0x3300000, 0x4000, 0x1a0000), (0x88, 0x3500000, 0x400, 0x1ac000), (0x91, 0x3600000, 0x400, 0x1ae000),
     (0x712, 0x3700000, 0x400, 0x1ae400), (0x406, 0x3800000, 0x4000, 0x1d0000), (0x0, 0x3900000, 0x4000, 0x1b4000), (0x718, 0x3a00000, 0x4000, 0x1d8000), (0x0, 0x3d00000, 0x4000, 0x1dc000),
     (0x346, 0x3e00000, 0x1000, 0x167000), (0x0, 0x3f00000, 0x1000, 0x168000)]"
  unfolding crb_128M_2M_map_def row_def crb_hub_agt_def by (simp add: hub_agt_def)

text \<open>Entries overlap in the 2M map only when they are the same registers of the same unit.\<close>

definition rows_apart :: "int \<times> int \<times> int \<times> int \<Rightarrow> int \<times> int \<times> int \<times> int \<Rightarrow> bool" where
  "rows_apart p q = (case p of (h, s, z, t) \<Rightarrow> case q of (h', s', z', t') \<Rightarrow>
     if t + z \<le> t' then True else if t' + z' \<le> t then True
     else t = t' \<and> h = h' \<and> s mod 0x100000 = s' mod 0x100000)"

definition row_in_bar :: "int \<times> int \<times> int \<times> int \<Rightarrow> bool" where
  "row_in_bar p = (case p of (h, s, z, t) \<Rightarrow> 0x100000 \<le> t \<and> t + z \<le> 0x1e0000 \<and> s + z \<le> 0x4000000)"

lemma rows_apart: "list_all (\<lambda>p. list_all (rows_apart p) (map row crb_128M_2M_map)) (map row crb_128M_2M_map)"
  unfolding rows_eval by code_simp

lemma rows_in_bar: "list_all row_in_bar (map row crb_128M_2M_map)"
  unfolding rows_eval by code_simp

lemma entry_row:
  assumes "((b, c), (s, e, t)) \<in> set crb_128M_2M_map"
  shows "(uint (crb_hub_agt ! unat b), uint s, uint (e - s), uint t) \<in> set (map row crb_128M_2M_map)"
proof -
  have "row ((b, c), (s, e, t)) \<in> row ` set crb_128M_2M_map" using assms by (rule imageI)
  then show ?thesis by (simp add: row_def)
qed

text \<open>A register that the map shows directly.\<close>

lemma direct_entry:
  assumes "unm_nic_pci_get_crb_addr_2M C off 4 = Direct a" "UNM_PCI_CRBSPACE \<le> off"
  obtains s e t where "((CRB_BLK (off - UNM_PCI_CRBSPACE), CRB_SUBBLK (off - UNM_PCI_CRBSPACE)), (s, e, t)) \<in> set crb_128M_2M_map"
    "uint s \<le> uint (off - UNM_PCI_CRBSPACE)" "uint (off - UNM_PCI_CRBSPACE) + 4 \<le> uint s + uint (e - s)"
    "uint (a - hc_base0 C) = uint (off - UNM_PCI_CRBSPACE) - uint s + uint t" "uint t + uint (e - s) \<le> 0x1e0000"
proof -
  let ?x = "off - UNM_PCI_CRBSPACE"
  have mx: "off < UNM_CRB_MAX" using assms(1) by (auto simp: unm_nic_pci_get_crb_addr_2M_def split: if_splits)
  have o: "uint off < 0xa000000" "0x6000000 \<le> uint off"
    using mx assms(2) by (simp_all add: word_less_def word_le_def UNM_CRB_MAX_def UNM_PCI_CRB_WINDOW_def UNM_PCI_CRBSPACE_def)
  then have "uint (off + 4) = uint off + 4" by (simp add: uint_word_ariths)
  then have c: "\<not> (UNM_PCI_CAMQM \<le> off \<and> off + 4 \<le> UNM_PCI_CAMQM_2M_END)"
    using o by (simp add: word_le_def UNM_PCI_CAMQM_2M_END_def)
  obtain s e t where m: "map_of crb_128M_2M_map (CRB_BLK ?x, CRB_SUBBLK ?x) = Some (s, e, t)" "s \<le> ?x" "?x + 4 \<le> e"
      "a = ?x + t - s + hc_base0 C"
    using assms c by (auto simp: unm_nic_pci_get_crb_addr_2M_def Let_def split: if_splits option.splits)
  note i = map_of_SomeD [OF m(1)]
  have b: "uint s + uint (e - s) \<le> 0x4000000" "0x100000 \<le> uint t" "uint t + uint (e - s) \<le> 0x1e0000"
    using rows_in_bar entry_row [OF i] by (auto simp: list_all_iff row_in_bar_def)
  have x: "uint ?x < 0x4000000"
    using o by (simp add: UNM_PCI_CRBSPACE_def uint_word_ariths)
  have s: "uint s \<le> uint ?x" using m(2) by (simp add: word_le_def)
  have e: "uint ?x + 4 \<le> uint e" using m(3) x by (simp add: word_le_def uint_word_ariths)
  have "uint s \<le> uint e" using s e by linarith
  then have es: "uint (e - s) = uint e - uint s" using uint_sub_lem [of s e] by blast
  have "uint (y + t - s + b - b) = (uint y + uint t - uint s) mod 2 ^ 64" for y b :: u64
    by (simp add: uint_word_ariths mod_simps)
  then have "uint (a - hc_base0 C) = (uint ?x + uint t - uint s) mod 2 ^ 64" unfolding m(4) by blast
  also have "\<dots> = uint ?x - uint s + uint t" 
  proof (subst mod_pos_pos_trivial)
    show "0 \<le> uint ?x + uint t - uint s" using s b(2) by linarith
    have "uint ?x + uint t - uint s < 0x4000000 + 0x1e0000" using x b(3) uint_ge_0 [of s] uint_ge_0 [of "e - s"] by linarith
    then show "uint ?x + uint t - uint s < 2 ^ 64" by simp
  qed simp
  finally show ?thesis using that [OF i s] e es b by simp
qed

text \<open>C35 The places at which a card with a 2M BAR shows registers directly lie in the BAR, below the movable window, and no
  two registers are shown at the same place: offsets that share a place have the same internal address.\<close>

theorem direct_map_is_injective:
  assumes "unm_nic_pci_get_crb_addr_2M C off 4 = Direct a" "unm_nic_pci_get_crb_addr_2M C off' 4 = Direct a"
    "UNM_PCI_CRBSPACE \<le> off" "UNM_PCI_CRBSPACE \<le> off'"
  shows "internal_addr (off - UNM_PCI_CRBSPACE) = internal_addr (off' - UNM_PCI_CRBSPACE) \<and>
    uint (a - hc_base0 C) + 4 \<le> uint CRB_INDIRECT_2M"
proof -
  let ?x = "off - UNM_PCI_CRBSPACE" and ?y = "off' - UNM_PCI_CRBSPACE"
  obtain s e t where x: "((CRB_BLK ?x, CRB_SUBBLK ?x), (s, e, t)) \<in> set crb_128M_2M_map" "uint s \<le> uint ?x"
    "uint ?x + 4 \<le> uint s + uint (e - s)" "uint (a - hc_base0 C) = uint ?x - uint s + uint t" "uint t + uint (e - s) \<le> 0x1e0000"
    using direct_entry [OF assms(1,3)] .
  obtain s' e' t' where y: "((CRB_BLK ?y, CRB_SUBBLK ?y), (s', e', t')) \<in> set crb_128M_2M_map" "uint s' \<le> uint ?y"
    "uint ?y + 4 \<le> uint s' + uint (e' - s')" "uint (a - hc_base0 C) = uint ?y - uint s' + uint t'"
    using direct_entry [OF assms(2,4)] by metis
  have "rows_apart (uint (crb_hub_agt ! unat (CRB_BLK ?x)), uint s, uint (e - s), uint t)
      (uint (crb_hub_agt ! unat (CRB_BLK ?y)), uint s', uint (e' - s'), uint t')"
    using rows_apart entry_row [OF x(1)] entry_row [OF y(1)] unfolding list_all_iff by blast
  then have same: "uint t = uint t'" "uint (crb_hub_agt ! unat (CRB_BLK ?x)) = uint (crb_hub_agt ! unat (CRB_BLK ?y))"
    "uint s mod 0x100000 = uint s' mod 0x100000"
    using x(2-4) y(2-4) unfolding rows_apart_def by (auto split: if_splits)
  have "uint ?x - uint s = uint ?y - uint s'" using x(4) y(4) same(1) by linarith
  then have "(uint s + (uint ?x - uint s)) mod 0x100000 = (uint s' + (uint ?y - uint s')) mod 0x100000"
    using same(3) by (metis mod_add_left_eq)
  then have "uint ?x mod 0x100000 = uint ?y mod 0x100000" by simp
  then have "take_bit 20 (uint ?x) = take_bit 20 (uint ?y)" by (simp add: take_bit_eq_mod)
  then have "uint (take_bit 20 ?x) = uint (take_bit 20 ?y)" by (simp only: unsigned_take_bit_eq)
  then have "take_bit 20 ?x = take_bit 20 ?y" by (rule unsigned_word_eqI)
  then have "?x AND 0xfffff = ?y AND 0xfffff" by (simp add: take_bit_eq_mask mask_eq_exp_minus_1)
  moreover have "crb_hub_agt ! unat (CRB_BLK ?x) = crb_hub_agt ! unat (CRB_BLK ?y)" using same(2) by (rule unsigned_word_eqI)
  ultimately show ?thesis
    using x(3-5) by (simp add: internal_addr_def CRB_INDIRECT_2M_def)
qed

definition ex_conf :: hw_conf where
  "ex_conf = \<lparr>hc_base0 = 0x10000000, hc_base1 = 0x20000000, hc_base2 = 0x30000000, hc_first_start = 0, hc_first_end = 0x100000,
    hc_func = 0, hc_portnum = 0, hc_len0 = 0x8000000, hc_bar0 = 0, hc_ioremap = (\<lambda>_ _. None)\<rparr>"

lemma sem7_direct:
  "unm_nic_pci_get_crb_addr_2M C (UNM_PCIE_REG PCIE_SEM7_LOCK) 4 = Direct (0x13c038 + hc_base0 C)"
  "unm_nic_pci_get_crb_addr_2M C (UNM_PCIE_REG PCIE_SEM7_UNLOCK) 4 = Direct (0x13c03c + hc_base0 C)"
  "unm_nic_pci_get_crb_addr_2M C UNM_CRB_WIN_LOCK_ID 4 = Direct (0x1b2124 + hc_base0 C)"
  by (simp_all add: unm_nic_pci_get_crb_addr_2M_def Let_def UNM_PCIE_REG_def PCIE_SEM7_LOCK_def PCIE_SEM7_UNLOCK_def UNM_CRB_WIN_LOCK_ID_def
      UNM_CAM_RAM_def UNM_CRB_CAM_def UNM_CRB_PCIE_def UNM_PCI_CRB_WINDOW_def UNM_CRB_MAX_def UNM_PCI_CAMQM_def UNM_PCI_CAMQM_2M_END_def
      UNM_PCI_CRBSPACE_def CRB_BLK_def CRB_SUBBLK_def crb_128M_2M_map_def drop_bit_eq_div)

theorem direct_map_is_injective_witness:
  "internal_addr 0x11c038 = internal_addr 0x211c038 \<and> (0x11c038 :: u64) \<noteq> 0x211c038"
proof -
  have o: "unm_nic_pci_get_crb_addr_2M ex_conf 0x611c038 4 = Direct 0x1013c038"
    "unm_nic_pci_get_crb_addr_2M ex_conf 0x811c038 4 = Direct 0x1013c038"
    by (simp_all add: unm_nic_pci_get_crb_addr_2M_def Let_def UNM_PCI_CRB_WINDOW_def UNM_CRB_MAX_def UNM_PCI_CAMQM_def
      UNM_PCI_CAMQM_2M_END_def UNM_PCI_CRBSPACE_def CRB_BLK_def CRB_SUBBLK_def crb_128M_2M_map_def drop_bit_eq_div ex_conf_def)
  show ?thesis using direct_map_is_injective [OF o] by (simp add: UNM_PCI_CRBSPACE_def)
qed

subsection \<open>Access through the 128M map\<close>

text \<open>A window register that reads back what was written to it.\<close>

definition reads_back :: "'h pci_bus \<Rightarrow> u64 \<Rightarrow> bool" where
  "reads_back B a \<longleftrightarrow> (\<forall>v h. pci_rd B 4 a (pci_wr B 4 a v h) = (v, pci_wr B 4 a v h))"

lemma change_window:
  assumes "reads_back B (window_reg C)" "0 < n" "curr_window s \<noteq> w"
  shows "unm_nic_pci_change_crbwindow_128M B C n w s =
    (let v = push_bit 25 (ucast (w AND 1)) in
     Some (s\<lparr>hw_dev := pci_wr B 4 (window_reg C) v (hw_dev s),
       hw_log := hw_log s @ [PciWr 4 (window_reg C) v, PciRd 4 (window_reg C) v], curr_window := w\<rparr>))"
proof -
  obtain m where n: "n = Suc m" using assms(2) gr0_conv_Suc by blast
  show ?thesis
    using assms(1,3) by (simp add: unm_nic_pci_change_crbwindow_128M_def Let_def n p_wr_def p_rd_def note_hw_def reads_back_def)
qed

text \<open>The register shows \<open>v\<close> at one of the next \<open>k\<close> reads; and, a window selected just before is shown within \<open>k\<close> reads.\<close>

fun shows_within :: "'h pci_bus \<Rightarrow> u64 \<Rightarrow> u64 \<Rightarrow> nat \<Rightarrow> 'h \<Rightarrow> bool" where
  "shows_within B a v 0 h = False"
| "shows_within B a v (Suc k) h = (case pci_rd B 4 a h of (x, h) \<Rightarrow> x = v \<or> shows_within B a v k h)"

definition settles :: "'h pci_bus \<Rightarrow> u64 \<Rightarrow> nat \<Rightarrow> bool" where
  "settles B a k \<longleftrightarrow> (\<forall>v h. shows_within B a v k (pci_wr B 4 a v h))"

lemma window_wait_settles:
  assumes "shows_within B a v k (hw_dev s)" "k \<le> n"
  shows "\<exists>xs h. window_wait B a v n s = Some (s\<lparr>hw_dev := h, hw_log := hw_log s @ map (PciRd 4 a) (xs @ [v])\<rparr>) \<and>
    v \<notin> set xs \<and> length xs < k"
  using assms
proof (induction k arbitrary: n s)
  case (Suc k)
  obtain m where n: "n = Suc m" using Suc.prems(2) by (cases n) auto
  obtain x h where x: "pci_rd B 4 a (hw_dev s) = (x, h)" by (metis surj_pair)
  show ?case
  proof (cases "x = v")
    case True
    then show ?thesis using n x by (intro exI [of _ "[]"]) (auto simp: p_rd_def note_hw_def)
  next
    case False
    let ?s = "note_hw (PciRd 4 a x) (s\<lparr>hw_dev := h\<rparr>)"
    have "shows_within B a v k (hw_dev ?s)" using Suc.prems(1) False by (simp add: x note_hw_def)
    then obtain xs h' where w: "window_wait B a v m ?s = Some (?s\<lparr>hw_dev := h', hw_log := hw_log ?s @ map (PciRd 4 a) (xs @ [v])\<rparr>)"
      "v \<notin> set xs" "length xs < k"
      using Suc.IH [of ?s m] Suc.prems(2) n by auto
    then show ?thesis using n x False by (intro exI [of _ "x # xs"]) (auto simp: p_rd_def note_hw_def)
  qed
qed simp

lemma change_window_settles:
  assumes "settles B (window_reg C) k" "k \<le> n" "curr_window s \<noteq> w" "v = push_bit 25 (ucast (w AND 1))"
  shows "\<exists>xs h. unm_nic_pci_change_crbwindow_128M B C n w s = Some (s\<lparr>hw_dev := h,
       hw_log := hw_log s @ PciWr 4 (window_reg C) v # map (PciRd 4 (window_reg C)) (xs @ [v]), curr_window := w\<rparr>) \<and>
    v \<notin> set xs \<and> length xs < k"
proof -
  have "shows_within B (window_reg C) v k (hw_dev (p_wr B 4 (window_reg C) v s))"
    using assms(1) by (simp add: settles_def p_wr_def note_hw_def)
  from window_wait_settles [OF this assms(2)] show ?thesis
    using assms(3,4) by (fastforce simp: unm_nic_pci_change_crbwindow_128M_def p_wr_def note_hw_def Let_def)
qed

text \<open>C36 Reading a register through the 128M map, on a card that shows a window it is asked to select within \<open>k\<close> reads of the
  window register, started with window 1 selected: it returns after that many reads at most (any fuel from \<open>k\<close> on is enough),
  with window 1 selected again. A register of window 1 is read under the reader lock without touching the window register. Any
  other access is made under the writer lock: window 0 is selected, and the window register read until it shows it; then
  comes the access; then window 1 is selected and waited for in the same way, before the lock is dropped. An offset that is not
  mapped is not accessed, and gives 1. (On a card that never shows the window, the routine does not return.)\<close>

theorem read_128M_protocol:
  assumes "settles B (window_reg C) k" "k \<le> n" "curr_window s = 1"
  shows "case unm_nic_hw_read_wx_128M B C n off s of None \<Rightarrow> False
    | Some (v, s') \<Rightarrow> curr_window s' = 1 \<and>
        (let w1 = ADDR_IN_WINDOW1 off; a = pci_base_offset C (if w1 then CRB_NORMAL off else off); r = window_reg C in
         \<exists>x xs ys. v = (if a = 0 then 1 else ucast x) \<and> length xs < max 1 k \<and> length ys < max 1 k \<and> 0 \<notin> set xs \<and> 0x2000000 \<notin> set ys \<and>
           hw_log s' = hw_log s @
             (if w1 then [RdLock] else WrLock # PciWr 4 r 0 # map (PciRd 4 r) (xs @ [0])) @
             (if a = 0 then [] else [PciRd 4 a x]) @
             (if w1 then [RdUnlock] else PciWr 4 r 0x2000000 # map (PciRd 4 r) (ys @ [0x2000000]) @ [WrUnlock]))"
proof (cases "ADDR_IN_WINDOW1 off")
  case True
  then show ?thesis
    using assms(3) by (auto simp: unm_nic_hw_read_wx_128M_def Let_def p_rd_def note_hw_def intro!: exI [of _ "[]"] split: prod.splits)
next
  case False
  let ?a = "pci_base_offset C off" and ?r = "window_reg C"
  have "curr_window (note_hw WrLock s) \<noteq> 0" using assms(3) by (simp add: note_hw_def)
  then obtain xs h where c0: "unm_nic_pci_change_crbwindow_128M B C n 0 (note_hw WrLock s) = Some (s\<lparr>hw_dev := h,
      hw_log := hw_log s @ WrLock # PciWr 4 ?r 0 # map (PciRd 4 ?r) (xs @ [0]), curr_window := 0\<rparr>)" "0 \<notin> set xs" "length xs < k"
    using change_window_settles [OF assms(1,2), of "note_hw WrLock s" 0 0] by (auto simp: note_hw_def)
  let ?s = "s\<lparr>hw_dev := h, hw_log := hw_log s @ WrLock # PciWr 4 ?r 0 # map (PciRd 4 ?r) (xs @ [0]), curr_window := 0\<rparr>"
  have c1: "\<exists>ys h. unm_nic_pci_change_crbwindow_128M B C n 1 t =
      Some (t\<lparr>hw_dev := h, hw_log := hw_log t @ PciWr 4 ?r 0x2000000 # map (PciRd 4 ?r) (ys @ [0x2000000]), curr_window := 1\<rparr>) \<and>
      0x2000000 \<notin> set ys \<and> length ys < k"
    if "curr_window t = 0" for t
    using change_window_settles [OF assms(1,2), of t 1 "0x2000000"] that by (simp add: push_bit_eq_mult)
  show ?thesis
  proof (cases "?a = 0")
    case True
    obtain ys h' where "unm_nic_pci_change_crbwindow_128M B C n 1 ?s =
        Some (?s\<lparr>hw_dev := h', hw_log := hw_log ?s @ PciWr 4 ?r 0x2000000 # map (PciRd 4 ?r) (ys @ [0x2000000]), curr_window := 1\<rparr>)"
      "0x2000000 \<notin> set ys" "length ys < k"
      using c1 [of ?s] by auto
    then have "unm_nic_hw_read_wx_128M B C n off s = Some (1, note_hw WrUnlock
        (?s\<lparr>hw_dev := h', hw_log := hw_log ?s @ PciWr 4 ?r 0x2000000 # map (PciRd 4 ?r) (ys @ [0x2000000]), curr_window := 1\<rparr>))"
      using True False by (simp only: unm_nic_hw_read_wx_128M_def Let_def c0(1) if_False if_True refl prod.case option.case option.map)
    then show ?thesis using True False c0(2,3) \<open>0x2000000 \<notin> set ys\<close> \<open>length ys < k\<close>
      by (simp add: Let_def note_hw_def) (rule exI [of _ xs], simp, rule exI [of _ ys], simp)
  next
    case na: False
    obtain x g where x: "pci_rd B 4 ?a (hw_dev ?s) = (x, g)" by (metis surj_pair)
    let ?t = "note_hw (PciRd 4 ?a x) (?s\<lparr>hw_dev := g\<rparr>)"
    have p: "p_rd B 4 ?a ?s = (x, ?t)" using x by (simp add: p_rd_def)
    have "curr_window ?t = 0" by (simp add: note_hw_def)
    then obtain ys h' where y: "unm_nic_pci_change_crbwindow_128M B C n 1 ?t =
        Some (?t\<lparr>hw_dev := h', hw_log := hw_log ?t @ PciWr 4 ?r 0x2000000 # map (PciRd 4 ?r) (ys @ [0x2000000]), curr_window := 1\<rparr>)"
      "0x2000000 \<notin> set ys" "length ys < k"
      using c1 [of ?t] by auto
    have "unm_nic_hw_read_wx_128M B C n off s = Some (ucast x, note_hw WrUnlock
        (?t\<lparr>hw_dev := h', hw_log := hw_log ?t @ PciWr 4 ?r 0x2000000 # map (PciRd 4 ?r) (ys @ [0x2000000]), curr_window := 1\<rparr>))"
      using False na by (simp only: unm_nic_hw_read_wx_128M_def Let_def c0(1) p y(1) if_False prod.case option.case option.map)
    then show ?thesis using na False c0(2,3) y(2,3)
      by (simp add: Let_def note_hw_def) (rule exI [of _ x], simp, rule exI [of _ xs], simp, rule exI [of _ ys], simp)
  qed
qed

text \<open>If the card never shows window 0, no amount of fuel lets the routine return from its wait under the writer lock.\<close>

lemma window_wait_stuck: "\<forall>h. fst (pci_rd B 4 a h) \<noteq> v \<Longrightarrow> window_wait B a v n s = None"
  by (induction n arbitrary: s) (auto simp: p_rd_def split: prod.splits, metis fst_conv)

lemma read_128M_hangs:
  assumes "\<forall>h. fst (pci_rd B 4 (window_reg C) h) \<noteq> 0" "curr_window s \<noteq> 0" "\<not> ADDR_IN_WINDOW1 off"
  shows "unm_nic_hw_read_wx_128M B C n off s = None"
  using window_wait_stuck [OF assms(1)] assms(2,3)
  by (simp add: unm_nic_hw_read_wx_128M_def unm_nic_pci_change_crbwindow_128M_def note_hw_def Let_def)

text \<open>A card whose window register holds the last value written and whose other registers are all 7.\<close>

definition ex_bus :: "u64 \<Rightarrow> u64 pci_bus" where
  "ex_bus r = \<lparr>pci_rd = (\<lambda>n a h. (if a = r then h else 7, h)), pci_wr = (\<lambda>n a v h. if a = r then v else h)\<rparr>"

definition ex_nic :: "u64 nic" where
  "ex_nic = \<lparr>hw_dev = 0x2000000, hw_log = [], curr_window = 1, crb_win = 0\<rparr>"

theorem read_128M_protocol_witness:
  "case unm_nic_hw_read_wx_128M (ex_bus (window_reg ex_conf)) ex_conf 1 0x6600000 ex_nic of None \<Rightarrow> False
    | Some (v, s') \<Rightarrow> curr_window s' = 1 \<and> hd (hw_log s') = WrLock \<and> last (hw_log s') = WrUnlock"
proof -
  have b: "settles (ex_bus (window_reg ex_conf)) (window_reg ex_conf) (Suc 0)" by (simp add: settles_def ex_bus_def)
  have w: "\<not> ADDR_IN_WINDOW1 0x6600000" by (simp add: ADDR_IN_WINDOW1_def UNM_CRB_PCIX_HOST2_def UNM_PCI_CRB_WINDOW_def)
  have s: "curr_window ex_nic = 1" "hw_log ex_nic = []" by (simp_all add: ex_nic_def)
  show ?thesis
    using read_128M_protocol [OF b _ s(1), of 1 "0x6600000"] w s by (auto simp: Let_def split: option.splits)
qed

subsection \<open>The movable window of the 2M map\<close>

lemma crb_win_wait_refused:
  assumes "\<forall>h. fst (pci_rd B 4 (direct_2M C (UNM_PCIE_REG PCIE_SEM7_LOCK)) h) = 0"
  shows "\<exists>h. crb_win_wait B C n s =
    (False, s\<lparr>hw_dev := h, hw_log := hw_log s @ replicate (Suc n) (PciRd 4 (direct_2M C (UNM_PCIE_REG PCIE_SEM7_LOCK)) 0)\<rparr>)"
proof (induction n arbitrary: s)
  case 0
  obtain v h where r: "pci_rd B 4 (direct_2M C (UNM_PCIE_REG PCIE_SEM7_LOCK)) (hw_dev s) = (v, h)" by (metis surj_pair)
  then have "v = 0" using assms by (metis fst_conv)
  then show ?case using r by (auto simp: p_rd_def note_hw_def)
next
  case (Suc n)
  let ?L = "direct_2M C (UNM_PCIE_REG PCIE_SEM7_LOCK)"
  obtain v h where r: "pci_rd B 4 ?L (hw_dev s) = (v, h)" by (metis surj_pair)
  then have v: "v = 0" using assms by (metis fst_conv)
  obtain h' where "crb_win_wait B C n (note_hw (PciRd 4 ?L 0) (s\<lparr>hw_dev := h\<rparr>)) =
      (False, (note_hw (PciRd 4 ?L 0) (s\<lparr>hw_dev := h\<rparr>))\<lparr>hw_dev := h', hw_log :=
         hw_log (note_hw (PciRd 4 ?L 0) (s\<lparr>hw_dev := h\<rparr>)) @ replicate (Suc n) (PciRd 4 ?L 0)\<rparr>)"
    using Suc by blast
  then show ?case using r v by (auto simp: p_rd_def note_hw_def)
qed

text \<open>C21 The lock of the movable window is not insisted on: on a card whose semaphore is never granted the routine gives up
  waiting, moves the window that another function may be using, makes its access, and releases the semaphore it never
  held.\<close>

theorem window_moved_without_lock:
  assumes "\<forall>h. fst (pci_rd B 4 (direct_2M C (UNM_PCIE_REG PCIE_SEM7_LOCK)) h) = 0"
    "unm_nic_pci_get_crb_addr_2M C off 4 = Window x"
  shows "case unm_nic_hw_write_wx_2M B C off d s of None \<Rightarrow> False
    | Some (rv, s') \<Rightarrow> rv = 0 \<and> (\<exists>y z. hw_log s' = hw_log s @ [WrLock] @
        replicate (Suc CRB_WIN_LOCK_TIMEOUT) (PciRd 4 (direct_2M C (UNM_PCIE_REG PCIE_SEM7_LOCK)) 0) @
        [PciWr 4 (CRB_WINDOW_2M + hc_base0 C) (ucast (CRB_HI x)), PciRd 4 (CRB_WINDOW_2M + hc_base0 C) y,
         PciWr 4 ((x AND mask 16) + CRB_INDIRECT_2M + hc_base0 C) (ucast d),
         PciRd 4 (direct_2M C (UNM_PCIE_REG PCIE_SEM7_UNLOCK)) z, WrUnlock])"
proof -
  obtain h where l: "crb_win_wait B C CRB_WIN_LOCK_TIMEOUT (note_hw WrLock s) =
      (False, (note_hw WrLock s)\<lparr>hw_dev := h, hw_log := hw_log (note_hw WrLock s) @
        replicate (Suc CRB_WIN_LOCK_TIMEOUT) (PciRd 4 (direct_2M C (UNM_PCIE_REG PCIE_SEM7_LOCK)) 0)\<rparr>)"
    using crb_win_wait_refused [OF assms(1)] by blast
  show ?thesis
    using assms(2) l
    by (simp add: unm_nic_hw_write_wx_2M_def access_2M_def crb_win_lock_def unm_nic_pci_set_crbwindow_2M_def crb_win_unlock_def
        p_rd_def p_wr_def note_hw_def Let_def del: replicate_Suc split: prod.splits)
qed

theorem window_moved_without_lock_witness:
  "unm_nic_hw_write_wx_2M \<lparr>pci_rd = (\<lambda>n a h. (0, h)), pci_wr = (\<lambda>n a v h. h)\<rparr> ex_conf 0x6300000 5 ex_nic \<noteq> None"
proof -
  have w: "unm_nic_pci_get_crb_addr_2M ex_conf 0x6300000 4 = Window 0x300000"
    by (simp add: unm_nic_pci_get_crb_addr_2M_def Let_def UNM_PCI_CRB_WINDOW_def UNM_CRB_MAX_def UNM_PCI_CAMQM_def
      UNM_PCI_CAMQM_2M_END_def UNM_PCI_CRBSPACE_def CRB_BLK_def CRB_SUBBLK_def crb_128M_2M_map_def drop_bit_eq_div ex_conf_def)
  show ?thesis using window_moved_without_lock [OF _ w, of "\<lparr>pci_rd = (\<lambda>n a h. (0, h)), pci_wr = (\<lambda>n a v h. h)\<rparr>" ex_nic 5]
    by (auto split: option.splits)
qed
end
