(* ===== verification/MemWin.thy ===== *)
theory MemWin
  imports HwAccess Miu
begin

text \<open>
  Memory behind the PCI aperture, \<open>driver/unm_nic_hw.c\<close>: the windows that select which part of the card's memories the
  aperture shows (\<open>unm_nic_pci_set_window_128M\<close>, \<open>unm_nic_pci_set_window_2M\<close>, \<open>unm_nic_pci_is_same_window\<close>), the access
  through them (\<open>unm_nic_pci_mem_read_direct\<close>, \<open>unm_nic_pci_mem_write_direct\<close>), and the access through the test agent of
  cards with a 128M BAR (\<open>unm_nic_pci_mem_read_128M\<close>, \<open>unm_nic_pci_mem_write_128M\<close>).
\<close>

subsection \<open>Windows\<close>

definition UNM_ADDR_DDR_NET :: u64 where "UNM_ADDR_DDR_NET = 0"
definition UNM_ADDR_OCM0 :: u64 where "UNM_ADDR_OCM0 = 0x200000000"
definition UNM_ADDR_OCM0_MAX :: u64 where "UNM_ADDR_OCM0_MAX = 0x2000fffff"
definition UNM_ADDR_OCM1 :: u64 where "UNM_ADDR_OCM1 = 0x200400000"
definition UNM_ADDR_OCM1_MAX :: u64 where "UNM_ADDR_OCM1_MAX = 0x2004fffff"
definition NX_P2_ADDR_QDR_NET_MAX :: u64 where "NX_P2_ADDR_QDR_NET_MAX = 0x3001fffff"
definition UNM_PCI_DDR_NET :: u64 where "UNM_PCI_DDR_NET = 0"
definition UNM_PCI_QDR_NET :: u64 where "UNM_PCI_QDR_NET = 0x04000000"
definition UNM_PCI_OCM0 :: u64 where "UNM_PCI_OCM0 = 0x05000000"
definition UNM_PCI_OCM1 :: u64 where "UNM_PCI_OCM1 = 0x05100000"
definition UNM_PCI_OCM0_2M :: u64 where "UNM_PCI_OCM0_2M = 0xc0000"
definition PCIX_SN_WINDOW_F0 :: u64 where "PCIX_SN_WINDOW_F0 = 0x10208"
definition PCIX_SN_WINDOW_F4 :: u64 where "PCIX_SN_WINDOW_F4 = 0x102a8"

definition PCIE_SN_WINDOW_REG :: "u64 \<Rightarrow> u64" where
  "PCIE_SN_WINDOW_REG f = (if f < 4 then PCIX_SN_WINDOW_F0 + 0x20 * f else PCIX_SN_WINDOW_F4 + 0x10 * (f - 4))"

definition ADDR_IN_RANGE :: "u64 \<Rightarrow> u64 \<Rightarrow> u64 \<Rightarrow> bool" where
  "ADDR_IN_RANGE a low high \<longleftrightarrow> a \<le> high \<and> low \<le> a"

definition MN_WIN :: "u64 \<Rightarrow> u64" where
  "MN_WIN a = drop_bit 1 (a AND 0x1fc0000) OR (drop_bit 25 a AND 0x3ff)"

definition OCM_WIN :: "u64 \<Rightarrow> u64" where
  "OCM_WIN a = drop_bit 1 (a AND 0x1ff0000) OR (drop_bit 25 a AND 0x3ff)"

definition MS_WIN :: "u64 \<Rightarrow> u64" where
  "MS_WIN a = a AND 0x0ffc0000"

definition GET_MEM_OFFS_2M :: "u64 \<Rightarrow> u64" where
  "GET_MEM_OFFS_2M a = a AND mask 18"

text \<open>The cached window registers, the revision, and the registers of a 2M card that hold the windows.\<close>

record mem_win =
  ddr_mn_window :: u64
  qdr_sn_window :: u64
  mw_p2 :: bool
  mn_win_crb :: u64
  ms_win_crb :: u64

definition qdr_max :: "mem_win \<Rightarrow> u64" where
  "qdr_max m = (if mw_p2 m then NX_P2_ADDR_QDR_NET_MAX else NX_P3_ADDR_QDR_NET_MAX)"

definition sn_window_reg :: "hw_conf \<Rightarrow> u64" where
  "sn_window_reg C = PCI_OFFSET_SECOND_RANGE C (UNM_PCIE_REG (PCIE_SN_WINDOW_REG (hc_func C)))"

definition unm_nic_pci_set_window_128M ::
    "'h pci_bus \<Rightarrow> hw_conf \<Rightarrow> u64 \<Rightarrow> mem_win \<times> 'h nic \<Rightarrow> (u64 \<times> mem_win \<times> 'h nic) option" where
  "unm_nic_pci_set_window_128M B C a st =
     (case st of (m, s) \<Rightarrow>
        if ADDR_IN_RANGE a UNM_ADDR_DDR_NET UNM_ADDR_DDR_NET_MAX then None
        else if ADDR_IN_RANGE a UNM_ADDR_OCM0 UNM_ADDR_OCM0_MAX then Some (a - UNM_ADDR_OCM0 + UNM_PCI_OCM0, m, s)
        else if ADDR_IN_RANGE a UNM_ADDR_OCM1 UNM_ADDR_OCM1_MAX then Some (a - UNM_ADDR_OCM1 + UNM_PCI_OCM1, m, s)
        else if ADDR_IN_RANGE a UNM_ADDR_QDR_NET (qdr_max m) then
          let x = a - UNM_ADDR_QDR_NET; w = drop_bit 22 x AND 0x3f;
              y = x - w * 0x400000 + UNM_PCI_QDR_NET
          in if qdr_sn_window m \<noteq> w
             then Some (y, m\<lparr>qdr_sn_window := w\<rparr>, snd (p_rd B 4 (sn_window_reg C) (p_wr B 4 (sn_window_reg C) (push_bit 22 w) s)))
             else Some (y, m, s)
        else Some (-1, m, s))"

definition unm_nic_pci_set_window_2M ::
    "'h pci_bus \<Rightarrow> hw_conf \<Rightarrow> u64 \<Rightarrow> mem_win \<times> 'h nic \<Rightarrow> (u64 \<times> mem_win \<times> 'h nic) option" where
  "unm_nic_pci_set_window_2M B C a st =
     (let set_win = (\<lambda>crb w s. case unm_nic_hw_write_wx_2M B C (crb OR UNM_PCI_CRBSPACE) (ucast w) s of
                       None \<Rightarrow> None
                     | Some (_, s) \<Rightarrow> map_option snd (unm_nic_hw_read_wx_2M B C (crb OR UNM_PCI_CRBSPACE) s))
      in case st of (m, s) \<Rightarrow>
        if ADDR_IN_RANGE a UNM_ADDR_DDR_NET UNM_ADDR_DDR_NET_MAX then
          map_option (\<lambda>s. (GET_MEM_OFFS_2M a + UNM_PCI_DDR_NET, m\<lparr>ddr_mn_window := MN_WIN a\<rparr>, s)) (set_win (mn_win_crb m) (MN_WIN a) s)
        else if ADDR_IN_RANGE a UNM_ADDR_OCM0 UNM_ADDR_OCM0_MAX then
          let a = (if a AND 0xff800 = 0xff800 then -1 else a) in
          map_option (\<lambda>s. (GET_MEM_OFFS_2M a + UNM_PCI_OCM0_2M, m\<lparr>ddr_mn_window := OCM_WIN a\<rparr>, s)) (set_win (mn_win_crb m) (OCM_WIN a) s)
        else if ADDR_IN_RANGE a UNM_ADDR_QDR_NET NX_P3_ADDR_QDR_NET_MAX then
          map_option (\<lambda>s. (GET_MEM_OFFS_2M a + UNM_PCI_QDR_NET, m\<lparr>qdr_sn_window := MS_WIN a\<rparr>, s)) (set_win (ms_win_crb m) (MS_WIN a) s)
        else Some (-1, m, s))"

definition unm_nic_pci_is_same_window :: "mem_win \<Rightarrow> u64 \<Rightarrow> bool option" where
  "unm_nic_pci_is_same_window m a =
     (if ADDR_IN_RANGE a UNM_ADDR_DDR_NET UNM_ADDR_DDR_NET_MAX then None
      else if ADDR_IN_RANGE a UNM_ADDR_OCM0 UNM_ADDR_OCM0_MAX then Some True
      else if ADDR_IN_RANGE a UNM_ADDR_OCM1 UNM_ADDR_OCM1_MAX then Some True
      else if ADDR_IN_RANGE a UNM_ADDR_QDR_NET (qdr_max m) then
        Some (qdr_sn_window m = drop_bit 22 (a - UNM_ADDR_QDR_NET) AND 0x3f)
      else Some False)"

subsection \<open>Direct access\<close>

text \<open>
  The window is set under the lock; an offset outside the mapped ranges is mapped with the lock dropped and taken
  again. \<open>f\<close> is the access proper; the first component of the result is whether it was made.
\<close>

definition mem_direct ::
    "hw_conf \<Rightarrow> (u64 \<Rightarrow> mem_win \<times> 'h nic \<Rightarrow> (u64 \<times> mem_win \<times> 'h nic) option) \<Rightarrow> (u64 \<Rightarrow> 'h nic \<Rightarrow> 'a \<times> 'h nic) \<Rightarrow>
     u64 \<Rightarrow> nat \<Rightarrow> mem_win \<times> 'h nic \<Rightarrow> ('a option \<times> mem_win \<times> 'h nic) option" where
  "mem_direct C set_window f off len st =
     (case st of (m, s) \<Rightarrow>
      case set_window off (m, note_hw WrLock s) of
        None \<Rightarrow> None
      | Some (start, m, s) \<Rightarrow>
          if start = -1 then Some (None, m, note_hw WrUnlock s)
          else (case unm_nic_pci_is_same_window m (off + of_nat len - 1) of
              None \<Rightarrow> None
            | Some False \<Rightarrow> Some (None, m, note_hw WrUnlock s)
            | Some True \<Rightarrow>
                let addr = pci_base_offset C start in
                (case (if addr \<noteq> 0 then (Some (addr, None), s)
                       else (case map_page C start len (note_hw WrUnlock s) of
                           (None, s) \<Rightarrow> (None, s)
                         | (Some (a, p), s) \<Rightarrow> (Some (a, Some p), note_hw WrLock s))) of
                   (None, s) \<Rightarrow> Some (None, m, s)
                 | (Some (addr, page), s) \<Rightarrow>
                     if len \<in> {1, 2, 4, 8} then
                       (case f addr s of (r, s) \<Rightarrow> Some (Some r, m, unmap_page page (note_hw WrUnlock s)))
                     else Some (None, m, unmap_page page (note_hw WrUnlock s)))))"

definition unm_nic_pci_mem_read_direct where
  "unm_nic_pci_mem_read_direct B C set_window off len st = mem_direct C set_window (p_rd B len) off len st"

definition unm_nic_pci_mem_write_direct where
  "unm_nic_pci_mem_write_direct B C set_window off d len st = mem_direct C set_window (\<lambda>a s. ((), p_wr B len a d s)) off len st"

subsection \<open>The test agent behind a 128M BAR\<close>

text \<open>A program over 32-bit registers, run on the aperture.\<close>

definition raw_bus :: "'h pci_bus \<Rightarrow> 'h bus" where
  "raw_bus B = \<lparr>bus_rd = (\<lambda>a h. case pci_rd B 4 a h of (v, h) \<Rightarrow> (ucast v, h)), bus_wr = (\<lambda>a v h. pci_wr B 4 a (ucast v) h)\<rparr>"

definition pci_event :: "access \<Rightarrow> hw_event" where
  "pci_event e = (case e of Rd a v \<Rightarrow> PciRd 4 a (ucast v) | Wr a v \<Rightarrow> PciWr 4 a (ucast v))"

definition on_pci :: "('h, 'a) io \<Rightarrow> 'h nic \<Rightarrow> 'a \<times> 'h nic" where
  "on_pci p s = (case run_state p \<lparr>hw = hw_dev s, log = []\<rparr> of
     (x, d) \<Rightarrow> (x, s\<lparr>hw_dev := hw d, hw_log := hw_log s @ map pci_event (log d)\<rparr>))"

definition mem_crb_128M :: "hw_conf \<Rightarrow> u64" where
  "mem_crb_128M C = pci_base_offset C UNM_CRB_DDR_NET"

text \<open>In window 0, under the writer lock.\<close>

definition in_window0 :: "'h pci_bus \<Rightarrow> hw_conf \<Rightarrow> nat \<Rightarrow> ('h, 'a) io \<Rightarrow> 'h nic \<Rightarrow> ('a \<times> 'h nic) option" where
  "in_window0 B C n p s =
     (case unm_nic_pci_change_crbwindow_128M B C n 0 (note_hw WrLock s) of
        None \<Rightarrow> None
      | Some s \<Rightarrow> (case on_pci p s of
          (r, s) \<Rightarrow> map_option (\<lambda>s. (r, note_hw WrUnlock s)) (unm_nic_pci_change_crbwindow_128M B C n 1 s)))"

definition unm_nic_pci_mem_read_128M ::
    "'h pci_bus \<Rightarrow> hw_conf \<Rightarrow> nat \<Rightarrow> u64 \<Rightarrow> nat \<Rightarrow> mem_win \<times> 'h nic \<Rightarrow> (u64 option \<times> mem_win \<times> 'h nic) option" where
  "unm_nic_pci_mem_read_128M B C n off len st =
     (if \<not> unm_nic_pci_mem_bound_check off len then
        unm_nic_pci_mem_read_direct B C (unm_nic_pci_set_window_128M B C) off len st
      else (case st of (m, s) \<Rightarrow>
        map_option (\<lambda>(r, s). (r, m, s)) (in_window0 B C n (mem_read_agent (raw_bus B) (mem_crb_128M C) off len) s)))"

text \<open>The words to merge into are read with the routine above, outside the lock.\<close>

definition old_words_128M ::
    "'h pci_bus \<Rightarrow> hw_conf \<Rightarrow> nat \<Rightarrow> u64 \<Rightarrow> nat \<Rightarrow> mem_win \<times> 'h nic \<Rightarrow> ((u64 \<times> u64) option \<times> mem_win \<times> 'h nic) option" where
  "old_words_128M B C n off len st =
     (if len \<noteq> 8 \<or> acc_off0 off \<noteq> 0 then
        (case unm_nic_pci_mem_read_128M B C n (acc_off8 off) 8 st of
           None \<Rightarrow> None
         | Some (None, st) \<Rightarrow> Some (None, st)
         | Some (Some w0, st) \<Rightarrow>
             if acc_loop off len < 2 then Some (Some (w0, 0), st)
             else (case unm_nic_pci_mem_read_128M B C n (acc_off8 off + 8) 8 st of
                 None \<Rightarrow> None
               | Some (None, st) \<Rightarrow> Some (None, st)
               | Some (Some w1, st) \<Rightarrow> Some (Some (w0, w1), st)))
      else Some (Some (0, 0), st))"

definition write_words_128M :: "'h bus \<Rightarrow> u64 \<Rightarrow> u64 \<Rightarrow> nat \<Rightarrow> u64 \<Rightarrow> u64 \<times> u64 \<Rightarrow> ('h, int) io" where
  "write_words_128M B crb off len tmpw w = do {
     ok0 \<leftarrow> agent_write B crb (ucast (acc_off8 off)) (merge0 off len tmpw (fst w));
     if \<not> ok0 then ret (- 1)
     else if acc_loop off len < 2 then ret 0
     else do {
       ok1 \<leftarrow> agent_write B crb (ucast (acc_off8 off + 8)) (merge1 off len tmpw (snd w));
       ret (if ok1 then 0 else - 1) } }"

definition unm_nic_pci_mem_write_128M ::
    "'h pci_bus \<Rightarrow> hw_conf \<Rightarrow> nat \<Rightarrow> u64 \<Rightarrow> u64 \<Rightarrow> nat \<Rightarrow> mem_win \<times> 'h nic \<Rightarrow> (int \<times> mem_win \<times> 'h nic) option" where
  "unm_nic_pci_mem_write_128M B C n off d len st =
     (if \<not> unm_nic_pci_mem_bound_check off len then
        map_option (\<lambda>(r, st). (if r = None then - 1 else 0, st))
          (unm_nic_pci_mem_write_direct B C (unm_nic_pci_set_window_128M B C) off d len st)
      else (case old_words_128M B C n off len st of
          None \<Rightarrow> None
        | Some (None, st) \<Rightarrow> Some (- 1, st)
        | Some (Some w, m, s) \<Rightarrow>
            map_option (\<lambda>(r, s). (r, m, s))
              (in_window0 B C n (write_words_128M (raw_bus B) (mem_crb_128M C) off len (cut len d) w) s)))"

subsection \<open>Access through the test agent\<close>

lemma on_pci_keeps: "on_pci p s = (r, t) \<Longrightarrow> curr_window t = curr_window s"
  by (auto simp: on_pci_def split: prod.splits)

text \<open>On a card whose window register reads back what was written to it, reading memory behind a 128M BAR returns, with register window 1 selected as before; the accesses to the agent are
  made under the writer lock while window 0 is shown, and what is returned is what the agent's read sequence returns, which is
  the sequence of cards with a 2M BAR.\<close>

theorem mem_read_128M_in_window0:
  assumes "reads_back B (window_reg C)" "0 < n" "curr_window s = 1" "unm_nic_pci_mem_bound_check off len"
  shows "case run_state (mem_read_agent (raw_bus B) (mem_crb_128M C) off len)
        \<lparr>hw = pci_wr B 4 (window_reg C) 0 (hw_dev s), log = []\<rparr> of
      (v, d) \<Rightarrow> unm_nic_pci_mem_read_128M B C n off len (m, s) =
        Some (v, m, s\<lparr>hw_dev := pci_wr B 4 (window_reg C) 0x2000000 (hw d),
          hw_log := hw_log s @ [WrLock, PciWr 4 (window_reg C) 0, PciRd 4 (window_reg C) 0] @ map pci_event (log d) @
            [PciWr 4 (window_reg C) 0x2000000, PciRd 4 (window_reg C) 0x2000000, WrUnlock]\<rparr>)"
proof -
  let ?r = "window_reg C" and ?p = "mem_read_agent (raw_bus B) (mem_crb_128M C) off len"
  let ?s = "s\<lparr>hw_dev := pci_wr B 4 ?r 0 (hw_dev s), hw_log := hw_log s @ [WrLock, PciWr 4 ?r 0, PciRd 4 ?r 0], curr_window := 0\<rparr>"
  have c0: "unm_nic_pci_change_crbwindow_128M B C n 0 (note_hw WrLock s) = Some ?s"
    using assms(3) by (subst change_window [OF assms(1,2)]) (simp_all add: note_hw_def)
  obtain v d where d: "run_state ?p \<lparr>hw = hw_dev ?s, log = []\<rparr> = (v, d)" by (metis surj_pair)
  let ?t = "?s\<lparr>hw_dev := hw d, hw_log := hw_log ?s @ map pci_event (log d)\<rparr>"
  have p: "on_pci ?p ?s = (v, ?t)" using d by (simp add: on_pci_def)
  have c1: "unm_nic_pci_change_crbwindow_128M B C n 1 ?t =
      Some (?t\<lparr>hw_dev := pci_wr B 4 ?r 0x2000000 (hw_dev ?t), hw_log := hw_log ?t @ [PciWr 4 ?r 0x2000000, PciRd 4 ?r 0x2000000], curr_window := 1\<rparr>)"
    by (subst change_window [OF assms(1,2)]) (simp_all add: push_bit_eq_mult)
  have "unm_nic_pci_mem_read_128M B C n off len (m, s) = Some (v, m, note_hw WrUnlock (?t\<lparr>hw_dev := pci_wr B 4 ?r 0x2000000 (hw_dev ?t),
      hw_log := hw_log ?t @ [PciWr 4 ?r 0x2000000, PciRd 4 ?r 0x2000000], curr_window := 1\<rparr>))"
    unfolding unm_nic_pci_mem_read_128M_def in_window0_def using assms(4) by (simp only: c0 p c1 prod.case option.case option.map not_not if_False refl) simp
  then show ?thesis using d assms(3) by (cases s) (simp add: note_hw_def)
qed

definition ex_win :: mem_win where
  "ex_win = \<lparr>ddr_mn_window = 0, qdr_sn_window = 0, mw_p2 = True, mn_win_crb = 0, ms_win_crb = 0\<rparr>"

theorem mem_read_128M_in_window0_witness:
  "fst (the (unm_nic_pci_mem_read_128M (ex_bus (window_reg ex_conf)) ex_conf 1 0x1000 8 (ex_win, ex_nic))) =
   fst (run_state (mem_read_agent (raw_bus (ex_bus (window_reg ex_conf))) (mem_crb_128M ex_conf) 0x1000 8) \<lparr>hw = 0, log = []\<rparr>)"
proof -
  have "reads_back (ex_bus (window_reg ex_conf)) (window_reg ex_conf)" by (simp add: reads_back_def ex_bus_def)
  moreover have "curr_window ex_nic = 1" by (simp add: ex_nic_def)
  moreover have "unm_nic_pci_mem_bound_check 0x1000 8" by (simp add: unm_nic_pci_mem_bound_check_def UNM_ADDR_DDR_NET_MAX_def)
  moreover have "pci_wr (ex_bus (window_reg ex_conf)) 4 (window_reg ex_conf) 0 (hw_dev ex_nic) = 0" by (simp add: ex_bus_def)
  ultimately show ?thesis
    using mem_read_128M_in_window0 [of "ex_bus (window_reg ex_conf)" ex_conf 1 ex_nic "0x1000" 8 ex_win] by (auto split: prod.splits)
qed

subsection \<open>Direct access\<close>

text \<open>
  The window of the card's packet memory that the aperture of a 128M BAR shows after the accesses \<open>l\<close>: the number last written
  to the window register, which is in bits 22 to 27, or \<open>w\<close> if there was no write.
\<close>

definition window_after :: "hw_conf \<Rightarrow> u64 \<Rightarrow> hw_event list \<Rightarrow> u64" where
  "window_after C w l =
     fold (\<lambda>e w. case e of PciWr n r d \<Rightarrow> if r = sn_window_reg C then drop_bit 22 d AND 0x3f else w | _ \<Rightarrow> w) l w"

text \<open>Which offset of the aperture shows the byte at the card's address \<open>a\<close>, when the window register shows window \<open>w\<close> and the
  packet memory ends at \<open>mx\<close>.\<close>

definition aperture :: "u64 \<Rightarrow> u64 \<Rightarrow> u64 \<Rightarrow> u64 option" where
  "aperture mx w a =
     (if ADDR_IN_RANGE a UNM_ADDR_OCM0 UNM_ADDR_OCM0_MAX then Some (UNM_PCI_OCM0 + (a - UNM_ADDR_OCM0))
      else if ADDR_IN_RANGE a UNM_ADDR_OCM1 UNM_ADDR_OCM1_MAX then Some (UNM_PCI_OCM1 + (a - UNM_ADDR_OCM1))
      else if ADDR_IN_RANGE a UNM_ADDR_QDR_NET mx \<and> (a - UNM_ADDR_QDR_NET) div 0x400000 = w
      then Some (UNM_PCI_QDR_NET + (a - UNM_ADDR_QDR_NET) mod 0x400000)
      else None)"

text \<open>The driver's copy of the window register is right, or not yet set (-1).\<close>

definition window_known :: "hw_conf \<Rightarrow> u64 \<Rightarrow> mem_win \<Rightarrow> hw_event list \<Rightarrow> bool" where
  "window_known C w m l \<longleftrightarrow> qdr_sn_window m = - 1 \<or> qdr_sn_window m = window_after C w l"

lemmas mem_ranges = UNM_ADDR_DDR_NET_def UNM_ADDR_DDR_NET_MAX_def UNM_ADDR_OCM0_def UNM_ADDR_OCM0_MAX_def UNM_ADDR_OCM1_def
  UNM_ADDR_OCM1_MAX_def UNM_ADDR_QDR_NET_def NX_P2_ADDR_QDR_NET_MAX_def NX_P3_ADDR_QDR_NET_MAX_def UNM_PCI_OCM0_def
  UNM_PCI_OCM1_def UNM_PCI_QDR_NET_def

text \<open>The same over the integers.\<close>

definition aperture_int :: "int \<Rightarrow> int \<Rightarrow> int \<Rightarrow> int option" where
  "aperture_int mx w a =
     (if 0x200000000 \<le> a \<and> a \<le> 0x2000fffff then Some (0x05000000 + (a - 0x200000000))
      else if 0x200400000 \<le> a \<and> a \<le> 0x2004fffff then Some (0x05100000 + (a - 0x200400000))
      else if 0x300000000 \<le> a \<and> a \<le> mx \<and> (a - 0x300000000) div 0x400000 = w
      then Some (0x04000000 + (a - 0x300000000) mod 0x400000)
      else None)"

lemma uint_qdr_max: "uint (qdr_max m) \<in> {0x3001fffff, 0x303ffffff}"
  by (simp add: qdr_max_def mem_ranges)

lemma aperture_int_small: "mx \<le> 0x303ffffff \<Longrightarrow> aperture_int mx w a = Some x \<Longrightarrow> 0 \<le> x \<and> x < 0x6000000"
  by (auto simp: aperture_int_def split: if_splits)

lemma aperture_uint: "map_option uint (aperture (qdr_max m) w a) = aperture_int (uint (qdr_max m)) (uint w) (uint a)"
proof -
  have q: "(a - UNM_ADDR_QDR_NET) div 0x400000 = w \<longleftrightarrow> uint ((a - UNM_ADDR_QDR_NET) div 0x400000) = uint (w)"
    by (simp add: word_uint_eq_iff)
  have d: "uint (a - UNM_ADDR_QDR_NET) = uint a - 0x300000000" if "UNM_ADDR_QDR_NET \<le> a"
    using that by (simp add: uint_sub_if' word_le_def mem_ranges)
  note mx = uint_qdr_max [of m]
  consider "UNM_ADDR_OCM0 \<le> a \<and> a \<le> UNM_ADDR_OCM0_MAX" | "UNM_ADDR_OCM1 \<le> a \<and> a \<le> UNM_ADDR_OCM1_MAX"
    | "UNM_ADDR_QDR_NET \<le> a \<and> a \<le> qdr_max m"
    | "\<not> (UNM_ADDR_OCM0 \<le> a \<and> a \<le> UNM_ADDR_OCM0_MAX)" "\<not> (UNM_ADDR_OCM1 \<le> a \<and> a \<le> UNM_ADDR_OCM1_MAX)"
      "\<not> (UNM_ADDR_QDR_NET \<le> a \<and> a \<le> qdr_max m)" by blast
  then show ?thesis
  proof cases
    case 3
    have r: "0x300000000 \<le> uint a" "uint a \<le> uint (qdr_max m)" using 3 by (simp_all add: word_le_def mem_ranges)
    have e: "uint ((a - UNM_ADDR_QDR_NET) div 0x400000) = (uint a - 0x300000000) div 0x400000"
      "uint ((a - UNM_ADDR_QDR_NET) mod 0x400000) = (uint a - 0x300000000) mod 0x400000"
      using d 3 by (simp_all add: uint_div uint_mod)
    have "0 \<le> (uint a - 0x300000000) mod 0x400000 \<and> (uint a - 0x300000000) mod 0x400000 < 0x400000" by simp
    then have "uint (UNM_PCI_QDR_NET + (a - UNM_ADDR_QDR_NET) mod 0x400000) = 0x04000000 + (uint a - 0x300000000) mod 0x400000"
      by (simp add: uint_word_ariths(1) e mem_ranges(12) mod_pos_pos_trivial)
    moreover have "(a - 0x300000000) div 0x400000 = w \<longleftrightarrow> (uint a - 0x300000000) div 0x400000 = uint (w)"
      using q unfolding e unfolding UNM_ADDR_QDR_NET_def .
    ultimately show ?thesis using 3 r mx by (auto simp: aperture_def ADDR_IN_RANGE_def aperture_int_def word_le_def mem_ranges)
  qed (use mx in \<open>auto simp: aperture_def ADDR_IN_RANGE_def aperture_int_def word_le_def uint_word_ariths mem_ranges\<close>)
qed


text \<open>Within a window neighbouring bytes are shown at neighbouring offsets.\<close>

lemma aperture_int_between:
  assumes "aperture_int mx w a = Some x" "aperture_int mx w (a + k) = Some y" "0 \<le> j" "j \<le> k" "k < 8" "mx \<le> 0x303ffffff"
  shows "aperture_int mx w (a + j) = Some (x + j)"
proof -
  have "(a + j - 0x300000000) div 0x400000 = w \<and> (a + j - 0x300000000) mod 0x400000 = (a - 0x300000000) mod 0x400000 + j"
    if "(a - 0x300000000) div 0x400000 = w" "(a + k - 0x300000000) div 0x400000 = w"
  proof -
    have "(a - 0x300000000) div 0x400000 \<le> (a + j - 0x300000000) div 0x400000" by (rule zdiv_mono1) (use assms in auto)
    moreover have "(a + j - 0x300000000) div 0x400000 \<le> (a + k - 0x300000000) div 0x400000" by (rule zdiv_mono1) (use assms in auto)
    ultimately have "(a + j - 0x300000000) div 0x400000 = w" using that by simp
    then show ?thesis using that by (simp add: minus_div_mult_eq_mod [symmetric])
  qed
  then show ?thesis using assms by (auto simp: aperture_int_def split: if_splits)
qed


lemma uint_add_small: "i < 8 \<Longrightarrow> uint a < 2 ^ 36 \<Longrightarrow> uint (a + of_nat i) = uint a + int i" for a :: u64
proof -
  assume i: "i < 8" and a: "uint a < 2 ^ 36"
  have "i < 2 ^ 64" using i by simp
  then have "uint (of_nat i :: u64) = int i" by (simp add: unsigned_of_nat take_bit_nat_eq_self)
  then show ?thesis using i a uint_ge_0 [of a] by (simp add: uint_word_ariths(1) mod_pos_pos_trivial)
qed

lemma aperture_at:
  assumes "aperture (qdr_max m) w a = Some x" "aperture (qdr_max m) w (a + of_nat k) = Some y" "k < 8" "j \<le> k" "uint a < 2 ^ 36"
  shows "aperture (qdr_max m) w (a + of_nat j) = Some (x + of_nat j)"
proof -
  have u: "uint (a + of_nat i) = uint a + int i" if "i < 8" for i using that assms(5) by (intro uint_add_small) auto
  let ?A = "aperture_int (uint (qdr_max m)) (uint (w))"
  have "?A (uint a) = Some (uint x)" "?A (uint a + int k) = Some (uint y)"
    using aperture_uint [of m w a] aperture_uint [of m w "a + of_nat k"] assms(1-3) u [of k] by simp_all
  then have A: "?A (uint a + int j) = Some (uint x + int j)"
    by (rule aperture_int_between [where k = "int k"]) (use assms(3,4) uint_qdr_max [of m] in auto)
  obtain z where z: "aperture (qdr_max m) w (a + of_nat j) = Some z" "uint z = uint x + int j"
    using aperture_uint [of m w "a + of_nat j"] A u [of j] assms(3,4) by (auto simp del: aperture_uint)
  have "uint (x + of_nat j) = uint x + int j"
    using aperture_int_small [OF _ \<open>?A (uint a) = Some (uint x)\<close>] uint_qdr_max [of m] assms(3,4) by (intro uint_add_small) auto
  then have "z = x + of_nat j" using z(2) by (metis unsigned_word_eqI)
  then show ?thesis using z by simp
qed

lemma qdr_window:
  assumes "ADDR_IN_RANGE a UNM_ADDR_QDR_NET (qdr_max m)"
  shows "drop_bit 22 (a - UNM_ADDR_QDR_NET) AND 0x3f = (a - UNM_ADDR_QDR_NET) div 0x400000"
proof -
  have r: "0x300000000 \<le> uint a" "uint a \<le> uint (qdr_max m)" using assms by (simp_all add: word_le_def ADDR_IN_RANGE_def mem_ranges)
  have d: "uint (a - UNM_ADDR_QDR_NET) = uint a - 0x300000000"
    using r by (simp add: uint_sub_if' mem_ranges)
  have "uint ((a - UNM_ADDR_QDR_NET) div 0x400000) = (uint a - 0x300000000) div 0x400000" using d by (simp add: uint_div)
  also have "\<dots> < 64" using r uint_qdr_max [of m] by auto
  finally have l: "uint ((a - UNM_ADDR_QDR_NET) div 0x400000) < 64" .
  have "drop_bit 22 (a - UNM_ADDR_QDR_NET) AND 0x3f = take_bit 6 ((a - UNM_ADDR_QDR_NET) div 0x400000)"
    by (simp add: drop_bit_eq_div take_bit_eq_mask mask_eq_exp_minus_1)
  also have "\<dots> = (a - UNM_ADDR_QDR_NET) div 0x400000"
    using l by (simp add: word_uint_eq_iff unsigned_take_bit_eq take_bit_int_eq_self)
  finally show ?thesis .
qed

lemma window_after_append: "window_after C w (l @ k) = window_after C (window_after C w l) k"
  by (simp add: window_after_def)

lemma window_after_unselected [simp]:
  "window_after C w [] = w" "window_after C w (WrLock # l) = window_after C w l" "window_after C w (WrUnlock # l) = window_after C w l"
  "window_after C w (PciRd n r d # l) = window_after C w l" "window_after C w (Map p # l) = window_after C w l"
  "window_after C w (Unmap p # l) = window_after C w l"
  by (simp_all add: window_after_def)

lemma window_after_write [simp]: "window_after C w (PciWr n (sn_window_reg C) d # l) = window_after C (drop_bit 22 d AND 0x3f) l"
  by (simp add: window_after_def)

lemma window_field: "w = x AND 0x3f \<Longrightarrow> drop_bit 22 (push_bit 22 w) AND 0x3f = w" for w :: u64
proof -
  assume w: "w = x AND 0x3f"
  have "(0x3f :: u64) = mask 6" by (simp add: mask_eq_exp_minus_1)
  show ?thesis unfolding w \<open>0x3f = mask 6\<close> by (rule bit_word_eqI) (auto simp: bit_and_iff bit_mask_iff bit_drop_bit_eq bit_push_bit_iff)
qed

lemma aperture_unset: "aperture mx (- 1) a = Some y \<Longrightarrow> aperture mx w a = Some y"
proof -
  have "(a - UNM_ADDR_QDR_NET) div 0x400000 \<noteq> - 1"
  proof
    assume "(a - UNM_ADDR_QDR_NET) div 0x400000 = - 1"
    then have "uint ((a - UNM_ADDR_QDR_NET) div 0x400000) = uint (- 1 :: u64)" by simp
    moreover have "uint ((a - UNM_ADDR_QDR_NET) div 0x400000) < 2 ^ 42"
      using uint_bounded [of "a - UNM_ADDR_QDR_NET"] by (simp add: uint_div)
    ultimately show False by (simp add: unsigned_minus_1_eq_mask mask_eq_exp_minus_1)
  qed
  then show "aperture mx (- 1) a = Some y \<Longrightarrow> aperture mx w a = Some y" by (simp add: aperture_def split: if_splits)
qed

lemma known_window:
  assumes "window_known C w m l" "aperture mx (qdr_sn_window m) a = Some y"
  shows "aperture mx (window_after C w l) a = Some y"
proof (cases "qdr_sn_window m = - 1")
  case True
  show ?thesis by (rule aperture_unset) (use assms(2) in \<open>simp only: True\<close>)
next
  case False
  then have "window_after C w l = qdr_sn_window m" using assms(1) unfolding window_known_def by (metis (lifting))
  then show ?thesis using assms(2) by metis
qed

text \<open>Selecting a window writes the register when the copy says it must, and then reads it, and the aperture shows the address
  at the offset returned.\<close>

lemma set_window_128M_shows:
  assumes "unm_nic_pci_set_window_128M B C a (m, s) = Some (y, m', s')" "y \<noteq> - 1" "window_known C w m (hw_log s)"
  shows "\<exists>l. hw_log s' = hw_log s @ l \<and> WrUnlock \<notin> set l \<and> window_known C w m' (hw_log s') \<and>
    aperture (qdr_max m) (qdr_sn_window m') a = Some y \<and> mw_p2 m' = mw_p2 m"
proof -
  have q: "(a - UNM_ADDR_QDR_NET) - (a - UNM_ADDR_QDR_NET) div 0x400000 * 0x400000 = (a - UNM_ADDR_QDR_NET) mod 0x400000"
    by (rule minus_div_mult_eq_mod)
  have n: "\<not> ADDR_IN_RANGE a UNM_ADDR_DDR_NET UNM_ADDR_DDR_NET_MAX" using assms(1) by (auto simp: unm_nic_pci_set_window_128M_def)
  show ?thesis
  proof (cases "ADDR_IN_RANGE a UNM_ADDR_QDR_NET (qdr_max m)")
    case False
    then show ?thesis using assms n by (auto simp: unm_nic_pci_set_window_128M_def aperture_def add.commute split: if_splits)
  next
    case True
    let ?w = "(a - UNM_ADDR_QDR_NET) div 0x400000"
    have A: "aperture (qdr_max m) ?w a = Some y" if "y = UNM_PCI_QDR_NET + (a - UNM_ADDR_QDR_NET) mod 0x400000"
      using True that by (auto simp: aperture_def ADDR_IN_RANGE_def mem_ranges word_le_def)
    have f: "drop_bit 22 (push_bit 22 ?w) AND 0x3f = ?w"
      using window_field [OF qdr_window [OF True, symmetric]] unfolding qdr_window [OF True] .
    obtain v t where t: "p_rd B 4 (sn_window_reg C) (p_wr B 4 (sn_window_reg C) (push_bit 22 ?w) s) = (v, t)" by (metis surj_pair)
    then have l: "hw_log t = hw_log s @ [PciWr 4 (sn_window_reg C) (push_bit 22 ?w), PciRd 4 (sn_window_reg C) v]"
      by (auto simp: p_rd_def p_wr_def note_hw_def split: prod.splits)
    have r: "\<not> ADDR_IN_RANGE a UNM_ADDR_OCM0 UNM_ADDR_OCM0_MAX" "\<not> ADDR_IN_RANGE a UNM_ADDR_OCM1 UNM_ADDR_OCM1_MAX"
      using True by (auto simp: ADDR_IN_RANGE_def mem_ranges word_le_def)
    have e: "Some (y, m', s') = (if qdr_sn_window m \<noteq> ?w
        then Some (?w * 0 + ((a - UNM_ADDR_QDR_NET) mod 0x400000 + UNM_PCI_QDR_NET), m\<lparr>qdr_sn_window := ?w\<rparr>, t)
        else Some ((a - UNM_ADDR_QDR_NET) mod 0x400000 + UNM_PCI_QDR_NET, m, s))"
      using assms(1) n True r unfolding unm_nic_pci_set_window_128M_def Let_def qdr_window [OF True] q prod.case t snd_conv by (simp split: if_splits)
    show ?thesis
    proof (cases "qdr_sn_window m = ?w")
      case True
      then show ?thesis using e A assms(3) by (intro exI [of _ "[]"]) (simp add: add.commute)
    next
      case False
      then have "y = UNM_PCI_QDR_NET + (a - UNM_ADDR_QDR_NET) mod 0x400000" "m' = m\<lparr>qdr_sn_window := ?w\<rparr>" "s' = t"
        using e by (simp_all add: add.commute)
      then show ?thesis using A f l by (intro exI [of _ "[PciWr 4 (sn_window_reg C) (push_bit 22 ?w), PciRd 4 (sn_window_reg C) v]"]) (simp add: window_known_def window_after_append)
    qed
  qed
qed

lemma same_window_shown:
  "unm_nic_pci_is_same_window m a = Some True \<Longrightarrow> \<exists>y. aperture (qdr_max m) (qdr_sn_window m) a = Some y"
  by (auto simp: unm_nic_pci_is_same_window_def aperture_def ADDR_IN_RANGE_def qdr_window split: if_splits)

lemma aperture_range: "aperture (qdr_max m) w a = Some y \<Longrightarrow> uint a < 2 ^ 36"
  using aperture_uint [of m w a] uint_qdr_max [of m] by (auto simp: aperture_int_def split: if_splits)

text \<open>The bus address that reaches an offset of the aperture: in a mapped range, or in a page mapped for the access.\<close>

definition reaches :: "hw_conf \<Rightarrow> u64 \<Rightarrow> u64 \<Rightarrow> bool" where
  "reaches C x a \<longleftrightarrow>
     (if pci_base_offset C x \<noteq> 0 then a = pci_base_offset C x
      else \<exists>n p. hc_ioremap C (hc_bar0 C + (x AND PAGE_MASK)) n = Some p \<and> a = p + (x AND (PAGE_SIZE - 1)))"

lemma mem_direct_made:
  assumes "mem_direct C set_window f off len (m, s) = Some (Some r, m', t)"
  obtains x a l s1 s2 s3 page where "set_window off (m, note_hw WrLock s) = Some (x, m', s1)" "x \<noteq> - 1"
    "unm_nic_pci_is_same_window m' (off + of_nat len - 1) = Some True" "reaches C x a" "len \<in> {1, 2, 4, 8}"
    "hw_log s2 = hw_log s1 @ l" "l = [] \<or> pci_base_offset C x = 0 \<and> (\<exists>p. l = [WrUnlock, Map p, WrLock])"
    "f a s2 = (r, s3)" "t = unmap_page page (note_hw WrUnlock s3)"
proof -
  obtain x m1 s1 where w: "set_window off (m, note_hw WrLock s) = Some (x, m1, s1)"
    using assms by (cases "set_window off (m, note_hw WrLock s)") (auto simp: mem_direct_def)
  have x: "x \<noteq> - 1" using assms w by (auto simp: mem_direct_def)
  have same: "unm_nic_pci_is_same_window m1 (off + of_nat len - 1) = Some True"
    using assms w x by (simp add: mem_direct_def split: option.splits bool.splits)
  define q where "q = (if pci_base_offset C x \<noteq> 0 then (Some (pci_base_offset C x, None), s1)
      else (case map_page C x len (note_hw WrUnlock s1) of
        (None, s) \<Rightarrow> (None, s) | (Some (a, p), s) \<Rightarrow> (Some (a, Some p), note_hw WrLock s)))"
  have e: "(case q of (None, s) \<Rightarrow> Some (None, m1, s)
    | (Some (addr, page), s) \<Rightarrow>
        if len \<in> {1, 2, 4, 8} then (case f addr s of (r, s) \<Rightarrow> Some (Some r, m1, unmap_page page (note_hw WrUnlock s)))
        else Some (None, m1, unmap_page page (note_hw WrUnlock s))) = Some (Some r, m', t)"
    using assms w x same unfolding mem_direct_def q_def by (simp only: prod.case option.case bool.case if_False Let_def)
  obtain a page s2 where q: "q = (Some (a, page), s2)" using e by (auto split: prod.splits option.splits)
  obtain r' s3 where f: "f a s2 = (r', s3)" by (metis surj_pair)
  have fin: "len \<in> {1, 2, 4, 8}" "r' = r" "m1 = m'" "t = unmap_page page (note_hw WrUnlock s3)"
    using e q f by (auto split: if_splits)
  have "reaches C x a \<and> (\<exists>l. hw_log s2 = hw_log s1 @ l \<and> (l = [] \<or> pci_base_offset C x = 0 \<and> (\<exists>p. l = [WrUnlock, Map p, WrLock])))"
    using q unfolding q_def by (auto simp: map_page_def reaches_def Let_def note_hw_def split: option.splits if_splits prod.splits)
  then show ?thesis using that w x same fin f by blast
qed

text \<open>C24 A direct read through a 128M BAR that is made stays inside one window, whenever the driver's copy of the window register
  was right or not yet set before it (and then it is after it): the read is one access of the asked-for width under the
  adapter's lock, at the bus address of the first byte, and at that moment the window register, as last written, shows every byte
  asked for, one behind the other from that place. So an access that would straddle two windows, or leave the memories, is
  refused. Where the place is mapped for good, the lock is not dropped between selecting the window and the access; where a page
  must be mapped for it, it is dropped, and only the absence of other accesses in between makes the statement true.\<close>

theorem direct_read_stays_in_window:
  assumes "unm_nic_pci_mem_read_direct B C (unm_nic_pci_set_window_128M B C) off len (m, s) = Some (Some v, m', t)"
    "window_known C w m (hw_log s)"
  shows "\<exists>x a l post. hw_log t = hw_log s @ WrLock # l @ [PciRd len a v, WrUnlock] @ post \<and> reaches C x a \<and>
    list_all (\<lambda>k. aperture (qdr_max m) (window_after C w (hw_log s @ WrLock # l)) (off + of_nat k) = Some (x + of_nat k)) [0..<len] \<and>
    (pci_base_offset C x \<noteq> 0 \<longrightarrow> WrUnlock \<notin> set l) \<and> window_known C w m' (hw_log t)"
proof -
  obtain x a l2 s1 s2 s3 page where d: "unm_nic_pci_set_window_128M B C off (m, note_hw WrLock s) = Some (x, m', s1)" "x \<noteq> - 1"
    "unm_nic_pci_is_same_window m' (off + of_nat len - 1) = Some True" "reaches C x a" "len \<in> {1, 2, 4, 8}"
    "hw_log s2 = hw_log s1 @ l2" "l2 = [] \<or> pci_base_offset C x = 0 \<and> (\<exists>p. l2 = [WrUnlock, Map p, WrLock])"
    "p_rd B len a s2 = (v, s3)" "t = unmap_page page (note_hw WrUnlock s3)"
    using assms(1) unfolding unm_nic_pci_mem_read_direct_def by (rule mem_direct_made)
  have "window_known C w m (hw_log (note_hw WrLock s))" using assms(2) by (simp add: window_known_def note_hw_def window_after_append)
  then obtain l1 where l1: "hw_log s1 = hw_log s @ WrLock # l1" "WrUnlock \<notin> set l1" "window_known C w m' (hw_log s1)"
    "aperture (qdr_max m) (qdr_sn_window m') off = Some x" "mw_p2 m' = mw_p2 m"
    using set_window_128M_shows [OF d(1,2), of w] by (auto simp: note_hw_def)
  have mx: "qdr_max m' = qdr_max m" using l1(5) by (simp add: qdr_max_def)
  have s2: "hw_log s2 = hw_log s @ WrLock # l1 @ l2" "window_known C w m' (hw_log s2)"
    using d(6,7) l1(1,3) by (auto simp: window_known_def window_after_append)
  have t: "hw_log t = hw_log s2 @ [PciRd len a v, WrUnlock] @ (case page of None \<Rightarrow> [] | Some p \<Rightarrow> [Unmap p])"
    using d(8,9) by (auto simp: p_rd_def note_hw_def unmap_page_def split: prod.splits option.splits)
  have kt: "window_known C w m' (hw_log t)" using s2(2) unfolding t by (auto simp: window_known_def window_after_append split: option.splits)
  have e: "off + of_nat len - 1 = off + of_nat (len - 1)" using d(5) by auto
  obtain y where y: "aperture (qdr_max m) (qdr_sn_window m') (off + of_nat (len - 1)) = Some y"
    using same_window_shown [OF d(3)] e mx by auto
  note A = known_window [OF s2(2) l1(4)] known_window [OF s2(2) y]
  have "aperture (qdr_max m) (window_after C w (hw_log s2)) (off + of_nat k) = Some (x + of_nat k)" if "k < len" for k
    by (rule aperture_at [OF A]) (use that d(5) aperture_range [OF A(1)] in auto)
  then have "list_all (\<lambda>k. aperture (qdr_max m) (window_after C w (hw_log s @ WrLock # l1 @ l2)) (off + of_nat k) = Some (x + of_nat k)) [0..<len]"
    by (simp add: list_all_iff s2(1))
  moreover have "pci_base_offset C x \<noteq> 0 \<longrightarrow> WrUnlock \<notin> set (l1 @ l2)" using l1(2) d(7) by auto
  ultimately show ?thesis using d(4) kt t s2(1)
    by (intro exI [of _ x] exI [of _ a] exI [of _ "l1 @ l2"] exI [of _ "case page of None \<Rightarrow> [] | Some p \<Rightarrow> [Unmap p]"]) simp
qed


definition ex_conf_first :: hw_conf where
  "ex_conf_first = ex_conf\<lparr>hc_first_end := 0x6000000\<rparr>"

theorem direct_read_stays_in_window_witness:
  "\<exists>m t. unm_nic_pci_mem_read_direct (ex_bus 0) ex_conf_first (unm_nic_pci_set_window_128M (ex_bus 0) ex_conf_first) 0x300100010 4
      (ex_win, ex_nic) = Some (Some 7, m, t) \<and>
    (\<exists>x l. list_all (\<lambda>k. aperture (qdr_max ex_win) (window_after ex_conf_first 0 l) (0x300100010 + of_nat k) = Some (x + of_nat k)) [0..<4])"
proof -
  have w: "unm_nic_pci_set_window_128M (ex_bus 0) ex_conf_first 0x300100010 (ex_win, s) = Some (0x4100010, ex_win, s)" for s :: "u64 nic"
    by (simp add: unm_nic_pci_set_window_128M_def ADDR_IN_RANGE_def mem_ranges qdr_max_def ex_win_def drop_bit_eq_div Let_def)
  have e: "unm_nic_pci_is_same_window ex_win 0x300100013 = Some True"
    by (simp add: unm_nic_pci_is_same_window_def ADDR_IN_RANGE_def mem_ranges qdr_max_def ex_win_def drop_bit_eq_div)
  have b: "pci_base_offset ex_conf_first 0x4100010 = 0x14100010" by (simp add: pci_base_offset_def ex_conf_first_def ex_conf_def)
  have rd: "pci_rd (ex_bus 0) 4 0x14100010 h = (7, h)" for h by (simp add: ex_bus_def)
  have k: "window_known ex_conf_first 0 ex_win (hw_log ex_nic)" by (simp add: window_known_def ex_win_def ex_nic_def)
  obtain t where r: "unm_nic_pci_mem_read_direct (ex_bus 0) ex_conf_first (unm_nic_pci_set_window_128M (ex_bus 0) ex_conf_first) 0x300100010 4
      (ex_win, ex_nic) = Some (Some 7, ex_win, t)"
    by (simp add: unm_nic_pci_mem_read_direct_def mem_direct_def w e b p_rd_def rd)
  show ?thesis using direct_read_stays_in_window [OF r k] r by blast
qed

text \<open>The error that the 2M routine notes for the reserved part of the on-chip memory is lost: the address -1 is then
  translated, and the last byte of that memory's range in the BAR is accessed.\<close>

lemma ocm_error_lost:
  assumes "unm_nic_pci_set_window_2M B C a (m, s) = Some (y, m', t)" "ADDR_IN_RANGE a UNM_ADDR_OCM0 UNM_ADDR_OCM0_MAX"
    "a AND 0xff800 = 0xff800"
  shows "y = 0xfffff"
proof -
  have "\<not> ADDR_IN_RANGE a UNM_ADDR_DDR_NET UNM_ADDR_DDR_NET_MAX"
    using assms(2) by (auto simp: ADDR_IN_RANGE_def mem_ranges word_le_def)
  then show ?thesis using assms
    by (simp add: unm_nic_pci_set_window_2M_def Let_def GET_MEM_OFFS_2M_def UNM_PCI_OCM0_2M_def mask_eq_exp_minus_1 split: option.splits prod.splits)
qed

end
