(* ===== verification/TxFrame.thy ===== *)
theory TxFrame
  imports TxRing
begin

text \<open>
  Transmitting a packet, \<open>unm_nic_xmit_frame\<close> of \<open>driver/unm_nic_main.c\<close> and the routines it calls: the checks under the
  transmit lock, the mapping of the packet's linear part and its fragments, the descriptors built in the command ring
  (four buffers each), the offload fields (\<open>nx_nic_check_tso\<close>), the headers of a segmented packet copied into the ring
  (\<open>nx_nic_tso_copy_headers\<close>), the error paths (\<open>netxen_clean_tx_dma_mapping\<close>), and the freeing of what the ring still
  holds when the adapter goes down (\<open>nx_free_tx_resources\<close>).

  The build modelled is the one for Linux with \<open>NX_VLAN_ACCEL\<close> and a kernel later than 2.6.26. The kernel's part is the
  parameter \<^emph>\<open>xmit_env\<close>: the DMA mapping routines, \<open>__pskb_pull_tail\<close>, the state of the carrier and the device's features.
  \<^const>\<open>None\<close> is a crash of the kernel.
\<close>

subsection \<open>Packets\<close>

record sk_frag =
  f_page :: u64
  f_offset :: u64
  f_size :: u32

text \<open>\<open>sk_byte s i\<close> is the byte at \<open>skb->data + i\<close>; \<open>sk_nh\<close> and \<open>sk_th\<close> are the offsets of the network and transport headers;
  \<open>sk_vlan\<close> is the tag kept beside the packet, if any; \<open>sk_gso\<close> is \<open>TSO_SIZE\<close>, 0 for a packet that is not to be segmented.\<close>

record sk_buff =
  sk_id :: nat
  sk_byte :: "int \<Rightarrow> u8"
  sk_len :: u32
  sk_data_len :: u32
  sk_frags :: "sk_frag list"
  sk_gso :: u16
  sk_csum_hw :: bool
  sk_protocol :: u16
  sk_nh :: int
  sk_th :: int
  sk_vlan :: "u16 option"

definition ETH_P_IP :: u16 where "ETH_P_IP = 0x0800"
definition ETH_P_IPV6 :: u16 where "ETH_P_IPV6 = 0x86dd"
definition ETH_P_8021Q :: u16 where "ETH_P_8021Q = 0x8100"
definition IPPROTO_TCP :: u8 where "IPPROTO_TCP = 6"
definition IPPROTO_UDP :: u8 where "IPPROTO_UDP = 17"
definition VLAN_HLEN :: int where "VLAN_HLEN = 4"
definition IP_ALIGNMENT_BYTES :: nat where "IP_ALIGNMENT_BYTES = 2"
definition MAX_BUFFERS_PER_CMD :: nat where "MAX_BUFFERS_PER_CMD = 16"
definition NX_NIC_MAX_SG_PER_TX :: nat where "NX_NIC_MAX_SG_PER_TX = MAX_BUFFERS_PER_CMD - 2"

definition TX_ETHER_PKT :: u64 where "TX_ETHER_PKT = 0x01"
definition TX_TCP_PKT :: u64 where "TX_TCP_PKT = 0x02"
definition TX_UDP_PKT :: u64 where "TX_UDP_PKT = 0x03"
definition TX_TCP_LSO :: u64 where "TX_TCP_LSO = 0x05"
definition TX_TCP_LSO6 :: u64 where "TX_TCP_LSO6 = 0x06"
definition TX_TCPV6_PKT :: u64 where "TX_TCPV6_PKT = 0x0b"
definition TX_UDPV6_PKT :: u64 where "TX_UDPV6_PKT = 0x0c"
definition FLAGS_VLAN_TAGGED :: u64 where "FLAGS_VLAN_TAGGED = 0x10"
definition FLAGS_VLAN_OOB :: u64 where "FLAGS_VLAN_OOB = 0x40"

text \<open>A 16-bit field of the packet in network order.\<close>

definition sk_be16 :: "sk_buff \<Rightarrow> int \<Rightarrow> u16" where
  "sk_be16 s i = push_bit 8 (ucast (sk_byte s i)) OR ucast (sk_byte s (i + 1))"

definition is_packet_tagged :: "sk_buff \<Rightarrow> nat" where
  "is_packet_tagged s = (if sk_be16 s 12 = ETH_P_8021Q then 1 else 0)"

definition PROTO_IS_IP :: "sk_buff \<Rightarrow> nat \<Rightarrow> bool" where
  "PROTO_IS_IP s tagged \<longleftrightarrow> sk_protocol s = ETH_P_IP \<or> tagged \<noteq> 0 \<and> sk_be16 s 16 = ETH_P_IP"

definition PROTO_IS_IPV6 :: "sk_buff \<Rightarrow> nat \<Rightarrow> bool" where
  "PROTO_IS_IPV6 s tagged \<longleftrightarrow> sk_protocol s = ETH_P_IPV6 \<or> tagged \<noteq> 0 \<and> sk_be16 s 16 = ETH_P_IPV6"

definition PROTO_IS_TCP :: "sk_buff \<Rightarrow> bool" where "PROTO_IS_TCP s \<longleftrightarrow> sk_byte s (sk_nh s + 9) = IPPROTO_TCP"
definition PROTO_IS_UDP :: "sk_buff \<Rightarrow> bool" where "PROTO_IS_UDP s \<longleftrightarrow> sk_byte s (sk_nh s + 9) = IPPROTO_UDP"
definition PROTO_IS_TCPV6 :: "sk_buff \<Rightarrow> bool" where "PROTO_IS_TCPV6 s \<longleftrightarrow> sk_byte s (sk_nh s + 6) = IPPROTO_TCP"
definition PROTO_IS_UDPV6 :: "sk_buff \<Rightarrow> bool" where "PROTO_IS_UDPV6 s \<longleftrightarrow> sk_byte s (sk_nh s + 6) = IPPROTO_UDP"

definition NW_HDR_LEN :: "sk_buff \<Rightarrow> int" where "NW_HDR_LEN s = sk_th s - sk_nh s"

definition tcp_doff :: "sk_buff \<Rightarrow> int" where "tcp_doff s = uint (drop_bit 4 (sk_byte s (sk_th s + 12)))"

subsection \<open>Descriptor fields\<close>

definition set_word0 :: "nat \<Rightarrow> nat \<Rightarrow> u64 \<Rightarrow> cmd_desc \<Rightarrow> cmd_desc" where
  "set_word0 lo n v d = d\<lparr>word0 := put_bits lo n v (word0 d)\<rparr>"

definition set_word2 :: "nat \<Rightarrow> nat \<Rightarrow> u64 \<Rightarrow> cmd_desc \<Rightarrow> cmd_desc" where
  "set_word2 lo n v d = d\<lparr>word2 := put_bits lo n v (word2 d)\<rparr>"

definition set_opcode where "set_opcode = set_word0 23 6"
definition d_tcpHdrOffset where "d_tcpHdrOffset d = get_bits 0 8 (word0 d)"
definition d_ipHdrOffset where "d_ipHdrOffset d = get_bits 8 8 (word0 d)"
definition d_flags where "d_flags d = get_bits 16 7 (word0 d)"
definition d_opcode where "d_opcode d = get_bits 23 6 (word0 d)"
definition d_numOfBuffers where "d_numOfBuffers d = get_bits 32 8 (word0 d)"
definition d_totalLength where "d_totalLength d = get_bits 40 24 (word0 d)"
definition d_mss where "d_mss d = get_bits 16 16 (word2 d)"
definition d_totalHdrLength where "d_totalHdrLength d = get_bits 40 8 (word2 d)"

definition or_flags :: "u64 \<Rightarrow> cmd_desc \<Rightarrow> cmd_desc" where
  "or_flags f d = set_word0 16 7 (d_flags d OR f) d"

text \<open>Buffer \<open>k\<close> of a descriptor. The buffers' addresses are not in order: the first is in word 4.\<close>

definition set_buffer :: "nat \<Rightarrow> u64 \<Rightarrow> u32 \<Rightarrow> cmd_desc \<Rightarrow> cmd_desc" where
  "set_buffer k dma len d =
     (let d = d\<lparr>word5 := put_bits (16 * k) 16 (ucast len) (word5 d)\<rparr> in
      if k = 0 then d\<lparr>word4 := dma\<rparr> else if k = 1 then d\<lparr>word1 := dma\<rparr>
      else if k = 2 then d\<lparr>word3 := dma\<rparr> else d\<lparr>word6 := dma\<rparr>)"

subsection \<open>Offload fields\<close>

definition set_offsets :: "sk_buff \<Rightarrow> cmd_desc \<Rightarrow> cmd_desc" where
  "set_offsets s d = set_word0 8 8 (word_of_int (sk_nh s)) (set_word0 0 8 (word_of_int (sk_th s)) d)"

definition nx_nic_check_tso :: "nat \<Rightarrow> sk_buff \<Rightarrow> cmd_desc \<Rightarrow> cmd_desc" where
  "nx_nic_check_tso tagged s d =
     (if d_mss d \<noteq> 0 then
        let d = set_word2 40 8 (word_of_int (14 + int tagged * 4 + NW_HDR_LEN s + tcp_doff s * 4)) d in
        set_offsets s (if PROTO_IS_IP s tagged then set_opcode TX_TCP_LSO d
                       else if PROTO_IS_IPV6 s tagged then set_opcode TX_TCP_LSO6 d else d)
      else if sk_csum_hw s then
        (if PROTO_IS_IP s tagged then
           (if PROTO_IS_TCP s then set_offsets s (set_opcode TX_TCP_PKT d)
            else if PROTO_IS_UDP s then set_offsets s (set_opcode TX_UDP_PKT d) else d)
         else if PROTO_IS_IPV6 s tagged then
           (if PROTO_IS_TCPV6 s then set_offsets s (set_opcode TX_TCPV6_PKT d)
            else if PROTO_IS_UDPV6 s then set_offsets s (set_opcode TX_UDPV6_PKT d) else d)
         else set_offsets s d)
      else set_offsets s d)"

subsection \<open>Descriptors as memory\<close>

definition word_bytes :: "u64 \<Rightarrow> u8 list" where
  "word_bytes w = map (\<lambda>i. ucast (drop_bit (8 * i) w)) [0..<8]"

definition bytes_word :: "u8 list \<Rightarrow> u64" where
  "bytes_word bs = foldr (\<lambda>b w. push_bit 8 w OR ucast b) bs 0"

definition desc_bytes :: "cmd_desc \<Rightarrow> u8 list" where
  "desc_bytes d = word_bytes (word0 d) @ word_bytes (word1 d) @ word_bytes (word2 d) @ word_bytes (word3 d) @
     word_bytes (word4 d) @ word_bytes (word5 d) @ word_bytes (word6 d) @ word_bytes (word7 d)"

definition bytes_desc :: "u8 list \<Rightarrow> cmd_desc" where
  "bytes_desc bs = (let w = (\<lambda>i. bytes_word (take 8 (drop (8 * i) bs))) in
     \<lparr>word0 = w 0, word1 = w 1, word2 = w 2, word3 = w 3, word4 = w 4, word5 = w 5, word6 = w 6, word7 = w 7\<rparr>)"

definition patch_desc :: "nat \<Rightarrow> u8 list \<Rightarrow> cmd_desc \<Rightarrow> cmd_desc" where
  "patch_desc off bs d = bytes_desc (take off (desc_bytes d) @ bs @ drop (off + length bs) (desc_bytes d))"

text \<open>Copying to descriptor \<open>i\<close> of the ring at offset \<open>off\<close>; what does not fit goes to the descriptors behind it in memory, and
  behind the last there is none.\<close>

function copy_to_ring :: "nat \<Rightarrow> nat \<Rightarrow> u8 list \<Rightarrow> cmd_desc list \<Rightarrow> cmd_desc list option" where
  "copy_to_ring i off bs ds =
     (if bs = [] then Some ds
      else if length ds \<le> i \<or> 64 \<le> off then None
      else copy_to_ring (i + 1) 0 (drop (64 - off) bs) (ds[i := patch_desc off (take (64 - off) bs) (ds ! i)]))"
  by pat_completeness auto
termination by (relation "measure (\<lambda>(i, off, bs, ds). length bs)") (auto simp: neq_Nil_conv)

declare copy_to_ring.simps [simp del]

definition on_desc :: "nat \<Rightarrow> (cmd_desc \<Rightarrow> cmd_desc) \<Rightarrow> tx_adapter \<Rightarrow> tx_adapter" where
  "on_desc i f a = a\<lparr>cmdDescHead := (cmdDescHead a)[i := f (cmdDescHead a ! i)]\<rparr>"

definition on_buf :: "nat \<Rightarrow> (cmd_buffer \<Rightarrow> cmd_buffer) \<Rightarrow> tx_adapter \<Rightarrow> tx_adapter" where
  "on_buf i f a = a\<lparr>cmd_buf_arr := map_option (\<lambda>bs. bs[i := f (bs ! i)]) (cmd_buf_arr a)\<rparr>"

definition copy_bytes :: "nat \<Rightarrow> nat \<Rightarrow> u8 list \<Rightarrow> tx_adapter \<Rightarrow> tx_adapter option" where
  "copy_bytes i off bs a = map_option (\<lambda>ds. a\<lparr>cmdDescHead := ds\<rparr>) (copy_to_ring i off bs (cmdDescHead a))"

text \<open>\<open>n\<close> bytes of the packet from \<open>skb->data + i\<close> on.\<close>

definition sk_bytes :: "sk_buff \<Rightarrow> int \<Rightarrow> nat \<Rightarrow> u8 list" where
  "sk_bytes s i n = map (\<lambda>j. sk_byte s (i + int j)) [0..<n]"

definition htons :: "u16 \<Rightarrow> u8 list" where
  "htons v = [ucast (drop_bit 8 v), ucast v]"

subsection \<open>Headers of a segmented packet\<close>

definition FIRST_HDR_LEN :: nat where "FIRST_HDR_LEN = 64 - IP_ALIGNMENT_BYTES"

text \<open>The tag kept beside the packet goes into the descriptor.\<close>

definition set_vlan_oob :: "sk_buff \<Rightarrow> cmd_desc \<Rightarrow> cmd_desc" where
  "set_vlan_oob s d =
     (case sk_vlan s of
        None \<Rightarrow> d
      | Some v \<Rightarrow> (or_flags FLAGS_VLAN_OOB d)\<lparr>word7 := put_bits 48 16 (ucast v) (word7 d)\<rparr>)"

definition grow_headers :: "cmd_desc \<Rightarrow> cmd_desc" where
  "grow_headers d =
     or_flags FLAGS_VLAN_TAGGED
       (set_word0 8 8 (d_ipHdrOffset d + 4) (set_word0 0 8 (d_tcpHdrOffset d + 4) (set_word2 40 8 (d_totalHdrLength d + 4) d)))"

text \<open>The first 62 bytes at most, behind two bytes of padding. A tagged packet's are copied in four steps: the addresses with the
  two bytes before the packet, the type and the tag over what follows them, and the rest.\<close>

definition copy_first :: "sk_buff \<Rightarrow> nat \<Rightarrow> nat \<Rightarrow> tx_adapter \<Rightarrow> tx_adapter option" where
  "copy_first s pos n a =
     (case sk_vlan s of
        None \<Rightarrow> copy_bytes pos IP_ALIGNMENT_BYTES (sk_bytes s 0 n) a
      | Some v \<Rightarrow>
          if n < 16 then None
          else Option.bind (copy_bytes pos 0 (sk_bytes s (- 2) 16) a) (\<lambda>a.
               Option.bind (copy_bytes pos 14 (htons ETH_P_8021Q) a) (\<lambda>a.
               Option.bind (copy_bytes pos 16 (htons v) a) (\<lambda>a.
               copy_bytes pos 18 (sk_bytes s 12 (n - 16)) a))))"

definition nx_nic_tso_copy_headers :: "sk_buff \<Rightarrow> nat \<Rightarrow> nat \<Rightarrow> tx_adapter \<Rightarrow> (nat \<times> tx_adapter) option" where
  "nx_nic_tso_copy_headers s pos saved a =
     (let a = on_desc saved (set_vlan_oob s) a;
          op' = d_opcode (cmdDescHead a ! saved)
      in if op' \<noteq> TX_TCP_LSO \<and> op' \<noteq> TX_TCP_LSO6 then Some (pos, a)
         else
           let a = (if sk_vlan s \<noteq> None then on_desc saved grow_headers a else a);
               hdr_len = unat (d_totalHdrLength (cmdDescHead a ! saved));
               first = min hdr_len FIRST_HDR_LEN;
               pos' = get_next_index pos (MaxTxDescCount a)
           in Option.bind (copy_first s pos first a) (\<lambda>a.
              if hdr_len \<le> FIRST_HDR_LEN then Some (pos', a)
              else Option.bind
                (copy_bytes pos' 0 (sk_bytes s (int first - (if sk_vlan s \<noteq> None then VLAN_HLEN else 0)) (hdr_len - first)) a)
                (\<lambda>a. Some (get_next_index pos' (MaxTxDescCount a), a))))"

subsection \<open>The routine\<close>

text \<open>What surrounds it: \<open>__pskb_pull_tail\<close>, the mapping of a packet's linear part and of fragment \<open>i\<close>, whether the carrier is on, a
  loopback test runs, segmentation and tag insertion are enabled.\<close>

record xmit_env =
  xe_pull :: "sk_buff \<Rightarrow> u32 \<Rightarrow> sk_buff option"
  xe_map_single :: "sk_buff \<Rightarrow> u32 \<Rightarrow> u64 option"
  xe_map_page :: "nat \<Rightarrow> sk_frag \<Rightarrow> u64 option"
  xe_carrier :: bool
  xe_loopback :: bool
  xe_tso :: bool
  xe_hw_vlan :: bool

datatype xmit_event =
    Lock_tx
  | Unlock_tx
  | Map_single u64 u32
  | Map_page u64 u32

record xmit_state =
  xs_tx :: tx_adapter
  xs_portnum :: u16
  xs_txbytes :: u64
  xs_txdropped :: u64
  xs_xmitcalled :: u64
  xs_badskblen :: u64
  xs_log :: "xmit_event list"

datatype xmit_rv = NETDEV_TX_OK | NETDEV_TX_BUSY

definition on_tx :: "(tx_adapter \<Rightarrow> tx_adapter) \<Rightarrow> xmit_state \<Rightarrow> xmit_state" where
  "on_tx f s = s\<lparr>xs_tx := f (xs_tx s)\<rparr>"

definition note_xmit :: "xmit_event \<Rightarrow> xmit_state \<Rightarrow> xmit_state" where
  "note_xmit e s = s\<lparr>xs_log := xs_log s @ [e]\<rparr>"

definition emit_tx :: "tx_event list \<Rightarrow> xmit_state \<Rightarrow> xmit_state" where
  "emit_tx es = on_tx (\<lambda>a. a\<lparr>tx_events := tx_events a @ es\<rparr>)"

definition try_map_skb_data :: "xmit_env \<Rightarrow> sk_buff \<Rightarrow> u32 \<Rightarrow> xmit_state \<Rightarrow> u64 option \<times> xmit_state" where
  "try_map_skb_data e skb n s =
     (case xe_map_single e skb n of None \<Rightarrow> (None, s) | Some d \<Rightarrow> (Some d, note_xmit (Map_single d n) s))"

definition try_map_frag_page :: "xmit_env \<Rightarrow> nat \<Rightarrow> sk_frag \<Rightarrow> xmit_state \<Rightarrow> u64 option \<times> xmit_state" where
  "try_map_frag_page e i f s =
     (case xe_map_page e i f of None \<Rightarrow> (None, s) | Some d \<Rightarrow> (Some d, note_xmit (Map_page d (f_size f)) s))"

text \<open>The first \<open>n\<close> entries of the slot's fragment array are unmapped.\<close>

definition netxen_clean_tx_dma_mapping :: "cmd_buffer \<Rightarrow> nat \<Rightarrow> tx_event list" where
  "netxen_clean_tx_dma_mapping b n =
     Unmap_single (frag_dma (fragArray b ! 0)) (frag_length (fragArray b ! 0)) #
     map (\<lambda>j. Unmap_page (frag_dma (fragArray b ! j)) (frag_length (fragArray b ! j))) [1..<n]"

definition slot_buf :: "nat \<Rightarrow> xmit_state \<Rightarrow> cmd_buffer" where
  "slot_buf i s = the (cmd_buf_arr (xs_tx s)) ! i"

definition set_frag :: "nat \<Rightarrow> u64 \<Rightarrow> u32 \<Rightarrow> cmd_buffer \<Rightarrow> cmd_buffer" where
  "set_frag i dma len b = b\<lparr>fragArray := (fragArray b)[i := \<lparr>frag_dma = dma, frag_length = len\<rparr>]\<rparr>"

text \<open>The loop over the fragments: \<open>i\<close> counts them, \<open>k\<close> the buffers of the descriptor at \<open>pos\<close>. The result tells whether all were
  mapped.\<close>

fun frag_loop :: "xmit_env \<Rightarrow> nat \<Rightarrow> nat \<Rightarrow> nat \<Rightarrow> nat \<Rightarrow> sk_frag list \<Rightarrow> xmit_state \<Rightarrow> (bool \<times> nat \<times> xmit_state) option" where
  "frag_loop e saved i k pos [] s = Some (True, pos, s)"
| "frag_loop e saved i k pos (f # fs) s =
     (let fresh = (k AND 3 = 0);
          k = (if fresh then 0 else k);
          pos = (if fresh then get_next_index pos (MaxTxDescCount (xs_tx s)) else pos);
          s = (if fresh then on_tx (on_desc pos (\<lambda>_. zero_desc)) s else s)
      in case try_map_frag_page e i f s of
           (None, s) \<Rightarrow> Some (False, pos, emit_tx (netxen_clean_tx_dma_mapping (slot_buf saved s) i) s)
         | (Some dma, s) \<Rightarrow>
             if length (fragArray (slot_buf saved s)) \<le> i then None
             else frag_loop e saved (i + 1) (k + 1) pos fs
                    (on_tx (\<lambda>a. on_desc pos (set_buffer k dma (f_size f)) (on_buf saved (set_frag i dma (f_size f)) a)) s))"

definition drop_packet :: "sk_buff \<Rightarrow> xmit_state \<Rightarrow> xmit_state" where
  "drop_packet skb s = emit_tx [Free_skb (sk_id skb)] (s\<lparr>xs_txdropped := xs_txdropped s + 1\<rparr>)"

text \<open>The software slot and the first descriptor before the packet is mapped.\<close>

definition claim_slot :: "sk_buff \<Rightarrow> u16 \<Rightarrow> u16 \<Rightarrow> cmd_buffer \<Rightarrow> cmd_buffer" where
  "claim_slot skb mss port b =
     b\<lparr>cb_mss := ucast mss, cb_totalLength := sk_len skb, cb_skb := Some (sk_id skb), cb_cmd := ucast TX_ETHER_PKT,
       cb_fragCount := Suc (length (sk_frags skb)), cb_port := port\<rparr>"

definition first_desc :: "sk_buff \<Rightarrow> u16 \<Rightarrow> u64 \<Rightarrow> u32 \<Rightarrow> cmd_desc \<Rightarrow> cmd_desc" where
  "first_desc skb port dma len d =
     set_buffer 0 dma len
       (set_word2 36 4 (ucast port) (set_word2 32 4 (ucast port)
         (set_opcode TX_ETHER_PKT
           (set_word0 32 8 (of_nat (Suc (length (sk_frags skb)))) (set_word0 40 24 (ucast (sk_len skb)) d)))))"

definition xmit_post :: "xmit_env \<Rightarrow> nat \<Rightarrow> sk_buff \<Rightarrow> xmit_state \<Rightarrow> xmit_state option" where
  "xmit_post e tagged skb s =
     (let saved = cmdProducer (xs_tx s);
          mss = (if 0 < sk_gso skb \<and> xe_tso e then sk_gso skb else 0);
          len = sk_len skb - sk_data_len skb;
          s = on_tx (\<lambda>a. on_buf saved (claim_slot skb mss (xs_portnum s)) (on_desc saved (\<lambda>_. set_word2 16 16 (ucast mss) zero_desc) a)) s
      in if cmd_buf_arr (xs_tx s) = None then None
         else case try_map_skb_data e skb len s of
           (None, s) \<Rightarrow> Some (drop_packet skb s)
         | (Some dma, s) \<Rightarrow>
             let s = on_tx (\<lambda>a. on_desc saved (first_desc skb (xs_portnum s) dma len) (on_buf saved (set_frag 0 dma len) a)) s
             in (case frag_loop e saved 1 1 saved (sk_frags skb) s of
                  None \<Rightarrow> None
                | Some (False, pos, s) \<Rightarrow> Some (drop_packet skb s)
                | Some (True, pos, s) \<Rightarrow>
                    let pos = get_next_index pos (MaxTxDescCount (xs_tx s));
                        s = on_tx (on_desc saved (nx_nic_check_tso tagged skb)) s;
                        s = (if tagged \<noteq> 0 then on_tx (on_desc saved (or_flags FLAGS_VLAN_TAGGED)) s else s)
                    in (case nx_nic_tso_copy_headers skb pos saved (xs_tx s) of
                          None \<Rightarrow> None
                        | Some (pos, a) \<Rightarrow>
                            Some (s\<lparr>xs_tx := unm_nic_update_cmd_producer (a\<lparr>cmdProducer := pos\<rparr>) pos,
                              xs_txbytes := xs_txbytes s + d_totalLength (cmdDescHead a ! saved),
                              xs_xmitcalled := xs_xmitcalled s + 1\<rparr>))))"

definition xmit_locked :: "xmit_env \<Rightarrow> nat \<Rightarrow> sk_buff \<Rightarrow> xmit_state \<Rightarrow> (xmit_rv \<times> xmit_state) option" where
  "xmit_locked e tagged skb s =
     (if \<not> xe_carrier e \<and> \<not> xe_loopback e then Some (NETDEV_TX_OK, drop_packet skb s)
      else if ring_full (xs_tx s) ((Suc (length (sk_frags skb)) + 3) div 4 + 2) then
        Some (NETDEV_TX_BUSY, on_tx (\<lambda>a. a\<lparr>queue_stopped := True\<rparr>) s)
      else map_option (Pair NETDEV_TX_OK) (xmit_post e tagged skb s))"

text \<open>More fragments than the card takes: the first ones are pulled into the linear part, as many as are too many.\<close>

definition pull_excess :: "xmit_env \<Rightarrow> nat \<Rightarrow> sk_buff \<Rightarrow> sk_buff option" where
  "pull_excess e tagged skb =
     (let n = Suc (length (sk_frags skb)); most = NX_NIC_MAX_SG_PER_TX - tagged in
      if most < n then xe_pull e skb (sum_list (map f_size (take (n - most) (sk_frags skb)))) else Some skb)"

definition unm_nic_xmit_frame :: "xmit_env \<Rightarrow> sk_buff \<Rightarrow> xmit_state \<Rightarrow> (xmit_rv \<times> xmit_state) option" where
  "unm_nic_xmit_frame e skb s =
     (if sk_len skb = 0 then
        Some (NETDEV_TX_OK, emit_tx [Free_skb (sk_id skb)] (s\<lparr>xs_badskblen := xs_badskblen s + 1\<rparr>))
      else
        let tagged = (if xe_hw_vlan e then 0 else is_packet_tagged skb) in
        (case pull_excess e tagged skb of
           None \<Rightarrow> Some (NETDEV_TX_OK, note_xmit Unlock_tx (drop_packet skb s))
         | Some skb \<Rightarrow>
             map_option (\<lambda>(rv, s). (rv, note_xmit Unlock_tx s)) (xmit_locked e tagged skb (note_xmit Lock_tx s))))"

subsection \<open>Going down\<close>

text \<open>The fragments of one slot: entry 0 and the \<open>fragCount\<close> entries behind it, if they have an address.\<close>

definition free_slot :: "cmd_buffer \<Rightarrow> tx_event list \<times> cmd_buffer" where
  "free_slot b =
     (let fs = take (Suc (cb_fragCount b)) (fragArray b);
          un = (\<lambda>j f. if frag_dma f = 0 then []
                  else [if j = (0 :: nat) then Unmap_single (frag_dma f) (frag_length f) else Unmap_page (frag_dma f) (frag_length f)])
      in (concat (map2 un [0..<length fs] fs) @ (case cb_skb b of None \<Rightarrow> [] | Some k \<Rightarrow> [Free_skb k]),
          b\<lparr>fragArray := map (\<lambda>f. f\<lparr>frag_dma := 0\<rparr>) fs @ drop (Suc (cb_fragCount b)) (fragArray b), cb_skb := None\<rparr>))"

definition nx_free_tx_resources :: "tx_adapter \<Rightarrow> tx_adapter" where
  "nx_free_tx_resources a =
     (case cmd_buf_arr a of
        None \<Rightarrow> a
      | Some bs \<Rightarrow>
          let n = MaxTxDescCount a in
          a\<lparr>tx_events := tx_events a @ concat (map (fst \<circ> free_slot) (take n bs)),
            cmd_buf_arr := Some (map (snd \<circ> free_slot) (take n bs) @ drop n bs)\<rparr>)"


subsection \<open>Bytes of a descriptor\<close>

lemma bit_bytes_word:
  "bit (bytes_word bs) n \<longleftrightarrow> n < 64 \<and> n div 8 < length bs \<and> bit (bs ! (n div 8)) (n mod 8)"
proof (induction bs arbitrary: n)
  case Nil
  then show ?case by (simp add: bytes_word_def)
next
  case (Cons b bs)
  have "bytes_word (b # bs) = push_bit 8 (bytes_word bs) OR ucast b" by (simp add: bytes_word_def)
  then have e: "bit (bytes_word (b # bs)) n \<longleftrightarrow> n < 64 \<and> (8 \<le> n \<and> bit (bytes_word bs) (n - 8) \<or> bit b n)"
    by (auto simp: bit_simps dest: bit_imp_le_length)
  show ?case
  proof (cases "n < 8")
    case True
    then show ?thesis using e by simp
  next
    case False
    then have "n = 8 + (n - 8)" by simp
    then obtain m where "n = 8 + m" ..
    moreover have "(8 + m) div 8 = Suc (m div 8)" "(8 + m) mod 8 = m mod 8" by simp_all
    ultimately show ?thesis using e Cons [of m] by (auto dest: bit_imp_le_length)
  qed
qed

lemma length_word_bytes [simp]: "length (word_bytes w) = 8"
  by (simp add: word_bytes_def)

lemma bytes_word_word_bytes [simp]: "bytes_word (word_bytes w) = w"
proof (rule bit_word_eqI)
  fix n assume n: "n < LENGTH(64)"
  then have "n div 8 < 8" by simp
  then show "bit (bytes_word (word_bytes w)) n = bit w n"
    using n by (simp add: bit_bytes_word word_bytes_def bit_simps)
qed

lemma word_bytes_bytes_word [simp]: "length bs = 8 \<Longrightarrow> word_bytes (bytes_word bs) = bs"
  by (rule nth_equalityI) (auto simp: word_bytes_def bit_bytes_word bit_simps intro!: bit_word_eqI)

lemma length_desc_bytes [simp]: "length (desc_bytes d) = 64"
  by (simp add: desc_bytes_def)

lemma bytes_desc_desc_bytes [simp]: "bytes_desc (desc_bytes d) = d"
  by (simp add: bytes_desc_def desc_bytes_def Let_def)

lemma desc_bytes_bytes_desc [simp]:
  assumes "length bs = 64"
  shows "desc_bytes (bytes_desc bs) = bs"
proof -
  have s: "bs = take 8 bs @ take 8 (drop 8 bs) @ take 8 (drop 16 bs) @ take 8 (drop 24 bs) @ take 8 (drop 32 bs) @ take 8 (drop 40 bs) @
      take 8 (drop 48 bs) @ take 8 (drop 56 bs)"
    by (rule nth_equalityI) (use assms in \<open>auto simp: nth_append\<close>)
  have "desc_bytes (bytes_desc bs) = take 8 bs @ take 8 (drop 8 bs) @ take 8 (drop 16 bs) @ take 8 (drop 24 bs) @ take 8 (drop 32 bs) @
      take 8 (drop 40 bs) @ take 8 (drop 48 bs) @ take 8 (drop 56 bs)"
    using assms by (simp add: bytes_desc_def desc_bytes_def Let_def)
  then show ?thesis using s by simp
qed

lemma desc_bytes_patch:
  "off + length bs \<le> 64 \<Longrightarrow> desc_bytes (patch_desc off bs d) = take off (desc_bytes d) @ bs @ drop (off + length bs) (desc_bytes d)"
  by (simp add: patch_desc_def)

lemma copy_to_ring_fits:
  assumes "off + length bs \<le> 64" "i < length ds" "bs \<noteq> []"
  shows "copy_to_ring i off bs ds = Some (ds[i := patch_desc off bs (ds ! i)])"
proof -
  have "off < 64" using assms by (cases bs) auto
  then show ?thesis using assms by (subst copy_to_ring.simps) (simp add: copy_to_ring.simps [of "Suc i"])
qed

lemma copy_bytes_fits:
  "off + length bs \<le> 64 \<Longrightarrow> i < length (cmdDescHead a) \<Longrightarrow> bs \<noteq> [] \<Longrightarrow> copy_bytes i off bs a = Some (on_desc i (patch_desc off bs) a)"
  by (simp add: copy_bytes_def copy_to_ring_fits on_desc_def)


subsection \<open>Writing behind what is in flight\<close>

lemma ring_seg_update_inside:
  assumes "k < m" "m \<le> n" "length xs = n"
  shows "ring_seg n (xs[(c + k) mod n := x]) c m = (ring_seg n xs c m)[k := x]"
proof (rule nth_equalityI)
  fix j assume j: "j < length (ring_seg n (xs[(c + k) mod n := x]) c m)"
  have "(c + k) mod n = (c + j) mod n \<longleftrightarrow> k = j" if "k < n" "j < n"
    using ring_index_inject [of j k n c] ring_index_inject [of k j n c] that by (metis nat_neq_iff)
  moreover have "(c + j) mod n < n" using assms by auto
  ultimately show "ring_seg n (xs[(c + k) mod n := x]) c m ! j = (ring_seg n xs c m)[k := x] ! j"
    using j assms by (auto simp: ring_seg_def nth_list_update)
qed simp

text \<open>\<open>seg a0 ds a\<close>: the ring of \<open>a\<close> holds what was in flight in \<open>a0\<close> and behind it, from the producer on, the descriptors \<open>ds\<close>.\<close>

definition seg :: "tx_adapter \<Rightarrow> cmd_desc list \<Rightarrow> tx_adapter \<Rightarrow> bool" where
  "seg a0 ds a \<longleftrightarrow> length (cmdDescHead a) = MaxTxDescCount a0 \<and> MaxTxDescCount a = MaxTxDescCount a0 \<and>
     lastCmdConsumer a = lastCmdConsumer a0 \<and> pending_cmds a = pending_cmds a0 \<and> cmdProducer a = cmdProducer a0 \<and>
     ring_seg (MaxTxDescCount a0) (cmdDescHead a) (lastCmdConsumer a0) (in_flight a0 + length ds) = ring_contents a0 @ ds"

definition at :: "tx_adapter \<Rightarrow> nat \<Rightarrow> nat" where
  "at a0 j = (cmdProducer a0 + j) mod MaxTxDescCount a0"

lemma at_0: "ring_inv a0 \<Longrightarrow> at a0 0 = cmdProducer a0"
  by (simp add: at_def ring_inv_def)

lemma at_less: "ring_inv a0 \<Longrightarrow> at a0 j < MaxTxDescCount a0"
  by (auto simp: at_def ring_inv_def)

lemma at_Suc: "ring_inv a0 \<Longrightarrow> get_next_index (at a0 j) (MaxTxDescCount a0) = at a0 (Suc j)"
  using at_less [of a0 j] by (simp add: get_next_index_mod at_def mod_simps)

lemma at_consumer: "ring_inv a0 \<Longrightarrow> at a0 j = (lastCmdConsumer a0 + (in_flight a0 + j)) mod MaxTxDescCount a0"
  using producer_eq [of a0] by (metis at_def add.assoc mod_add_left_eq)

lemma seg_nth:
  assumes "seg a0 ds a" "ring_inv a0" "j < length ds"
  shows "cmdDescHead a ! at a0 j = ds ! j"
proof -
  have "(ring_contents a0 @ ds) ! (in_flight a0 + j) = ds ! j" by (simp add: nth_append)
  moreover have "ring_seg (MaxTxDescCount a0) (cmdDescHead a) (lastCmdConsumer a0) (in_flight a0 + length ds) ! (in_flight a0 + j) =
      cmdDescHead a ! at a0 j"
    using assms(3) by (simp add: ring_seg_def at_consumer [OF assms(2)])
  ultimately show ?thesis using assms(1) by (simp add: seg_def)
qed

lemma seg_on_desc:
  assumes "seg a0 ds a" "ring_inv a0" "j < length ds" "in_flight a0 + length ds \<le> MaxTxDescCount a0"
  shows "seg a0 (ds[j := f (ds ! j)]) (on_desc (at a0 j) f a)"
proof -
  let ?n = "MaxTxDescCount a0"
  have e: "cmdDescHead a ! at a0 j = ds ! j" by (rule seg_nth [OF assms(1-3)])
  have "ring_seg ?n ((cmdDescHead a)[at a0 j := f (ds ! j)]) (lastCmdConsumer a0) (in_flight a0 + length ds) =
      (ring_contents a0 @ ds)[in_flight a0 + j := f (ds ! j)]"
    using assms ring_seg_update_inside [of "in_flight a0 + j" "in_flight a0 + length ds" ?n "cmdDescHead a" "lastCmdConsumer a0" "f (ds ! j)"]
    by (simp add: seg_def at_consumer [OF assms(2)])
  then show ?thesis using assms(1) by (simp add: seg_def on_desc_def e list_update_append)
qed

lemma seg_append:
  assumes "seg a0 ds a" "ring_inv a0" "in_flight a0 + length ds < MaxTxDescCount a0"
  shows "seg a0 (ds @ [f (cmdDescHead a ! at a0 (length ds))]) (on_desc (at a0 (length ds)) f a)"
  using assms ring_seg_update_end [of "in_flight a0 + length ds" "MaxTxDescCount a0" "cmdDescHead a" "lastCmdConsumer a0"]
  by (simp add: seg_def on_desc_def at_consumer)

lemma seg_on_buf [simp]: "seg a0 ds (on_buf i f a) = seg a0 ds a"
  by (simp add: seg_def on_buf_def)

lemma seg_self: "ring_inv a0 \<Longrightarrow> seg a0 [] a0"
  by (simp add: seg_def ring_contents_def ring_inv_def)

lemma seg_prefix: "seg a0 (ds @ es) a \<Longrightarrow> seg a0 ds a"
proof -
  assume s: "seg a0 (ds @ es) a"
  have "ring_seg n xs c m = take m (ring_seg n xs c (m + k))" for n and xs :: "cmd_desc list" and c m k
    by (simp add: ring_seg_def take_map)
  from this [of "MaxTxDescCount a0" "cmdDescHead a" "lastCmdConsumer a0" "in_flight a0 + length ds" "length es"] s show ?thesis
    by (simp add: seg_def add.assoc)
qed

text \<open>Moving the producer behind the new descriptors puts them into flight.\<close>

lemma seg_commit:
  assumes "seg a0 ds a" "ring_inv a0" "in_flight a0 + length ds < MaxTxDescCount a0" "bufs_ok a"
    "b = a\<lparr>cmdProducer := at a0 (length ds)\<rparr>"
  shows "ring_inv b \<and> ring_contents b = ring_contents a0 @ ds \<and> in_flight b = in_flight a0 + length ds \<and> pending_cmds b = pending_cmds a0"
proof -
  let ?n = "MaxTxDescCount a0"
  have less: "at a0 (length ds) < ?n" "lastCmdConsumer a0 < ?n" using at_less assms(2) by (auto simp: ring_inv_def)
  have inv: "ring_inv b" using assms(1,2,4,5) less by (simp add: ring_inv_def seg_def bufs_ok_def)
  have "in_flight b = (at a0 (length ds) + ?n - lastCmdConsumer a0) mod ?n"
    using assms(1,5) by (simp add: in_flight_def seg_def)
  also have "\<dots> = in_flight a0 + length ds"
  proof (cases "lastCmdConsumer a0 + (in_flight a0 + length ds) < ?n")
    case True
    then have "at a0 (length ds) + ?n - lastCmdConsumer a0 = in_flight a0 + length ds + ?n" by (simp add: at_consumer [OF assms(2)])
    then show ?thesis using assms(3) by (simp only: mod_add_self2 mod_less)
  next
    case False
    then have "at a0 (length ds) = lastCmdConsumer a0 + (in_flight a0 + length ds) - ?n"
      using less assms(3) by (simp add: at_consumer [OF assms(2)] mod_if)
    then show ?thesis using False assms(3) less by simp
  qed
  finally have fl: "in_flight b = in_flight a0 + length ds" .
  have "ring_contents b = ring_seg ?n (cmdDescHead a) (lastCmdConsumer a0) (in_flight b)"
    using assms(1,5) by (simp add: ring_contents_def seg_def)
  then show ?thesis using inv fl assms(1,5) by (simp add: seg_def)
qed


subsection \<open>The descriptors of a packet\<close>

text \<open>What the mapping routine gives for the fragments from number \<open>i\<close> on, up to the first failure, and whether there was none.\<close>

fun map_frags :: "xmit_env \<Rightarrow> nat \<Rightarrow> sk_frag list \<Rightarrow> (u64 \<times> u32) list \<times> bool" where
  "map_frags e i [] = ([], True)"
| "map_frags e i (f # fs) =
     (case xe_map_page e i f of
        None \<Rightarrow> ([], False)
      | Some d \<Rightarrow> (case map_frags e (i + 1) fs of (bl, ok) \<Rightarrow> ((d, f_size f) # bl, ok)))"

text \<open>Adding buffers to a list of descriptors, the last of which has \<open>k\<close>.\<close>

fun chain :: "nat \<Rightarrow> cmd_desc list \<Rightarrow> (u64 \<times> u32) list \<Rightarrow> cmd_desc list" where
  "chain k ds [] = ds"
| "chain k ds ((d, l) # bl) =
     (if k = 4 then chain 1 (ds @ [set_buffer 0 d l zero_desc]) bl
      else chain (k + 1) (ds[length ds - 1 := set_buffer k d l (ds ! (length ds - 1))]) bl)"

fun set_frags :: "nat \<Rightarrow> (u64 \<times> u32) list \<Rightarrow> cmd_buffer \<Rightarrow> cmd_buffer" where
  "set_frags i [] b = b"
| "set_frags i ((d, l) # bl) b = set_frags (i + 1) bl (set_frag i d l b)"

lemma length_fragArray_set [simp]: "length (fragArray (set_frag i d l b)) = length (fragArray b)"
  by (simp add: set_frag_def)

lemma set_frags_fields [simp]:
  "length (fragArray (set_frags i bl b)) = length (fragArray b)"
  "cb_skb (set_frags i bl b) = cb_skb b" "cb_fragCount (set_frags i bl b) = cb_fragCount b"
  by (induction i bl b rule: set_frags.induct) (simp_all add: set_frag_def)

lemma length_map_frags: "map_frags e i fs = (bl, ok) \<Longrightarrow> length bl \<le> length fs \<and> (ok \<longrightarrow> length bl = length fs)"
  by (induction fs arbitrary: i bl) (auto split: option.splits prod.splits)

lemma low_two: "1 \<le> k \<Longrightarrow> k \<le> 4 \<Longrightarrow> (k AND 3 = 0) = (k = (4 :: nat))"
proof -
  assume "1 \<le> k" "k \<le> 4"
  then have "k = 1 \<or> k = 2 \<or> k = 3 \<or> k = 4" by auto
  then show ?thesis by (elim disjE) simp_all
qed

text \<open>How the adapter looks while a packet is being posted: behind what was in flight the descriptors \<open>ds\<close>, in its slot the buffer
  \<open>b\<close>; everything else is as in \<open>s0\<close>, but for the events \<open>es\<close> and the log \<open>ls\<close>.\<close>

definition tx_same :: "tx_adapter \<Rightarrow> tx_adapter \<Rightarrow> bool" where
  "tx_same a0 a \<longleftrightarrow> crb_addr_cmd_producer a = crb_addr_cmd_producer a0 \<and> reg_writes a = reg_writes a0 \<and>
     xmitfinished a = xmitfinished a0 \<and> queue_stopped a = queue_stopped a0 \<and> tx_running a = tx_running a0 \<and>
     tx_timeout_count a = tx_timeout_count a0"

definition xs_same :: "xmit_state \<Rightarrow> xmit_state \<Rightarrow> bool" where
  "xs_same s0 s \<longleftrightarrow> xs_portnum s = xs_portnum s0 \<and> xs_txbytes s = xs_txbytes s0 \<and> xs_txdropped s = xs_txdropped s0 \<and>
     xs_xmitcalled s = xs_xmitcalled s0 \<and> xs_badskblen s = xs_badskblen s0"

definition posting :: "xmit_state \<Rightarrow> cmd_desc list \<Rightarrow> cmd_buffer \<Rightarrow> tx_event list \<Rightarrow> xmit_event list \<Rightarrow> xmit_state \<Rightarrow> bool" where
  "posting s0 ds b es ls s \<longleftrightarrow> seg (xs_tx s0) ds (xs_tx s) \<and> tx_same (xs_tx s0) (xs_tx s) \<and> xs_same s0 s \<and>
     cmd_buf_arr (xs_tx s) = map_option (\<lambda>bs. bs[cmdProducer (xs_tx s0) := b]) (cmd_buf_arr (xs_tx s0)) \<and>
     tx_events (xs_tx s) = tx_events (xs_tx s0) @ es \<and> xs_log s = xs_log s0 @ ls"

lemmas posting_defs = posting_def tx_same_def xs_same_def on_tx_def on_desc_def on_buf_def note_xmit_def emit_tx_def

lemma posting_slot:
  assumes "posting s0 ds b es ls s" "ring_inv (xs_tx s0)"
  shows "slot_buf (cmdProducer (xs_tx s0)) s = b"
  using assms by (auto simp: posting_def slot_buf_def ring_inv_def)

lemma posting_max: "posting s0 ds b es ls s \<Longrightarrow> MaxTxDescCount (xs_tx s) = MaxTxDescCount (xs_tx s0)"
  by (simp add: posting_def seg_def)

lemma posting_on_desc:
  assumes "posting s0 ds b es ls s" "ring_inv (xs_tx s0)" "j < length ds" "in_flight (xs_tx s0) + length ds \<le> MaxTxDescCount (xs_tx s0)"
  shows "posting s0 (ds[j := f (ds ! j)]) b es ls (on_tx (on_desc (at (xs_tx s0) j) f) s)"
  using seg_on_desc [OF _ assms(2-4), of "xs_tx s" f] assms(1) by (simp add: posting_defs)

lemma posting_append:
  assumes "posting s0 ds b es ls s" "ring_inv (xs_tx s0)" "in_flight (xs_tx s0) + length ds < MaxTxDescCount (xs_tx s0)"
  shows "posting s0 (ds @ [f (cmdDescHead (xs_tx s) ! at (xs_tx s0) (length ds))]) b es ls (on_tx (on_desc (at (xs_tx s0) (length ds)) f) s)"
  using seg_append [OF _ assms(2,3), of "xs_tx s" f] assms(1) by (simp add: posting_defs)

lemma posting_on_buf:
  assumes "posting s0 ds b es ls s" "ring_inv (xs_tx s0)"
  shows "posting s0 ds (f b) es ls (on_tx (on_buf (cmdProducer (xs_tx s0)) f) s)"
  using assms by (auto simp: posting_defs ring_inv_def seg_def)

lemma posting_note: "posting s0 ds b es ls s \<Longrightarrow> posting s0 ds b es (ls @ [l]) (note_xmit l s)"
  by (simp add: posting_defs)

lemma posting_emit: "posting s0 ds b es ls s \<Longrightarrow> posting s0 ds b (es @ es') ls (emit_tx es' s)"
  by (simp add: posting_defs seg_def)

lemma on_tx_twice: "on_tx (\<lambda>a. f (g a)) s = on_tx f (on_tx g s)"
  by (simp add: on_tx_def)


lemma frag_loop_spec:
  assumes "posting s0 ds b es ls s" "ring_inv (xs_tx s0)" "ds \<noteq> []" "1 \<le> k" "k \<le> 4" "i + length fs \<le> length (fragArray b)"
    "in_flight (xs_tx s0) + length ds + (k + length fs - 1) div 4 < MaxTxDescCount (xs_tx s0)" "map_frags e i fs = (bl, ok)"
  shows "\<exists>s' ds'. frag_loop e (cmdProducer (xs_tx s0)) i k (at (xs_tx s0) (length ds - 1)) fs s = Some (ok, at (xs_tx s0) (length ds' - 1), s') \<and>
    posting s0 ds' (set_frags i bl b)
      (es @ (if ok then [] else netxen_clean_tx_dma_mapping (set_frags i bl b) (i + length bl)))
      (ls @ map (\<lambda>(d, l). Map_page d l) bl) s' \<and> (ok \<longrightarrow> ds' = chain k ds bl)"
  using assms
proof (induction fs arbitrary: i k ds b ls s bl)
  case Nil
  then show ?case by (intro exI [of _ s] exI [of _ ds]) simp
next
  case (Cons f fs)
  let ?a = "xs_tx s0" and ?p = "cmdProducer (xs_tx s0)"
  define k' where "k' = (if k = 4 then 0 else k)"
  define ds1 where "ds1 = (if k = 4 then ds @ [zero_desc] else ds)"
  define s1 where "s1 = (if k = 4 then on_tx (on_desc (at ?a (length ds)) (\<lambda>_. zero_desc)) s else s)"
  have fr: "(k AND 3 = 0) = (k = 4)" by (rule low_two [OF Cons.prems(4,5)])
  have nx: "get_next_index (at ?a (length ds - 1)) (MaxTxDescCount (xs_tx s)) = at ?a (length ds)"
  proof -
    have "Suc (length ds - 1) = length ds" using Cons.prems(3) by (cases ds) simp_all
    then show ?thesis using at_Suc [OF Cons.prems(2), of "length ds - 1"] by (simp only: posting_max [OF Cons.prems(1)])
  qed
  have p1: "posting s0 ds1 b es ls s1"
  proof (cases "k = 4")
    case True
    have "in_flight ?a + length ds < MaxTxDescCount ?a" using Cons.prems(7) by linarith
    then show ?thesis using posting_append [OF Cons.prems(1,2), of "\<lambda>_. zero_desc"] True by (simp only: ds1_def s1_def if_True simp_thms)
  qed (use Cons.prems(1) in \<open>simp add: ds1_def s1_def\<close>)
  have ne1: "ds1 \<noteq> []" using Cons.prems(3) by (simp add: ds1_def)
  have pos1: "(if k AND 3 = 0 then get_next_index (at ?a (length ds - 1)) (MaxTxDescCount (xs_tx s)) else at ?a (length ds - 1)) = at ?a (length ds1 - 1)"
    using nx fr by (simp add: ds1_def)
  have s1': "(if k AND 3 = 0 then on_tx (on_desc (at ?a (length ds1 - 1)) (\<lambda>_. zero_desc)) s else s) = s1"
    using fr by (simp add: s1_def ds1_def)
  have k1: "(if k AND 3 = 0 then 0 else k) = k'" using fr by (simp add: k'_def)
  have step: "frag_loop e ?p i k (at ?a (length ds - 1)) (f # fs) s =
     (case try_map_frag_page e i f s1 of
           (None, s) \<Rightarrow> Some (False, at ?a (length ds1 - 1), emit_tx (netxen_clean_tx_dma_mapping (slot_buf ?p s) i) s)
         | (Some dma, s) \<Rightarrow>
             if length (fragArray (slot_buf ?p s)) \<le> i then None
             else frag_loop e ?p (i + 1) (k' + 1) (at ?a (length ds1 - 1)) fs
                    (on_tx (\<lambda>a. on_desc (at ?a (length ds1 - 1)) (set_buffer k' dma (f_size f)) (on_buf ?p (set_frag i dma (f_size f)) a)) s))"
    by (simp only: frag_loop.simps Let_def s1' pos1 k1)
  have room: "in_flight ?a + length ds1 + (k' + length fs) div 4 < MaxTxDescCount ?a"
    using Cons.prems(4,5,7) by (auto simp: ds1_def k'_def)
  show ?case
  proof (cases "xe_map_page e i f")
    case None
    then have m: "bl = []" "\<not> ok" using Cons.prems(8) by auto
    show ?thesis unfolding step
      using None posting_emit [OF p1, of "netxen_clean_tx_dma_mapping b i"] m posting_slot [OF p1 Cons.prems(2)]
      by (intro exI [of _ "emit_tx (netxen_clean_tx_dma_mapping b i) s1"] exI [of _ ds1]) (simp add: try_map_frag_page_def)
  next
    case (Some d)
    obtain bl' where bl': "map_frags e (i + 1) fs = (bl', ok)" "bl = (d, f_size f) # bl'"
      using Cons.prems(8) Some by (auto split: prod.splits)
    let ?s2 = "note_xmit (Map_page d (f_size f)) s1"
    let ?s3 = "on_tx (\<lambda>a. on_desc (at ?a (length ds1 - 1)) (set_buffer k' d (f_size f)) (on_buf ?p (set_frag i d (f_size f)) a)) ?s2"
    let ?b = "set_frag i d (f_size f) b" and ?ds = "ds1[length ds1 - 1 := set_buffer k' d (f_size f) (ds1 ! (length ds1 - 1))]"
    have p2: "posting s0 ds1 b es (ls @ [Map_page d (f_size f)]) ?s2" by (rule posting_note [OF p1])
    have p3: "posting s0 ?ds ?b es (ls @ [Map_page d (f_size f)]) ?s3"
      unfolding on_tx_twice
      by (rule posting_on_desc [OF posting_on_buf [OF p2 Cons.prems(2)] Cons.prems(2)]) (use ne1 room in auto)
    have "\<exists>s' ds'. frag_loop e ?p (i + 1) (k' + 1) (at ?a (length ?ds - 1)) fs ?s3 = Some (ok, at ?a (length ds' - 1), s') \<and>
        posting s0 ds' (set_frags (i + 1) bl' ?b)
          (es @ (if ok then [] else netxen_clean_tx_dma_mapping (set_frags (i + 1) bl' ?b) (i + 1 + length bl')))
          ((ls @ [Map_page d (f_size f)]) @ map (\<lambda>(d, l). Map_page d l) bl') s' \<and> (ok \<longrightarrow> ds' = chain (k' + 1) ?ds bl')"
      by (rule Cons.IH [OF p3 Cons.prems(2) _ _ _ _ _ bl'(1)])
        (use ne1 room Cons.prems(4,5,6) in \<open>auto simp: k'_def\<close>)
    then obtain s' ds' where r: "frag_loop e ?p (i + 1) (k' + 1) (at ?a (length ds1 - 1)) fs ?s3 = Some (ok, at ?a (length ds' - 1), s')"
      "posting s0 ds' (set_frags (i + 1) bl' ?b)
          (es @ (if ok then [] else netxen_clean_tx_dma_mapping (set_frags (i + 1) bl' ?b) (i + 1 + length bl')))
          ((ls @ [Map_page d (f_size f)]) @ map (\<lambda>(d, l). Map_page d l) bl') s'"
      "ok \<longrightarrow> ds' = chain (k' + 1) ?ds bl'" by auto
    have c: "chain (k' + 1) ?ds bl' = chain k ds bl"
      using Cons.prems(3) by (auto simp: bl'(2) k'_def ds1_def)
    have n: "\<not> length (fragArray (slot_buf ?p ?s2)) \<le> i"
      using posting_slot [OF p2 Cons.prems(2)] Cons.prems(6) by simp
    show ?thesis
    proof (intro exI [of _ s'] exI [of _ ds'] conjI)
      show "frag_loop e ?p i k (at ?a (length ds - 1)) (f # fs) s = Some (ok, at ?a (length ds' - 1), s')"
        unfolding step try_map_frag_page_def Some option.case prod.case using n r(1) by (simp only: if_False)
      show "ok \<longrightarrow> ds' = chain k ds bl" using r(3) c by simp
    qed (use r(2) in \<open>cases ok; simp add: bl'(2)\<close>)
  qed
qed


text \<open>The buffers the card finds in descriptors: four in each, the addresses in words 4, 1, 3 and 6.\<close>

definition d_addr :: "nat \<Rightarrow> cmd_desc \<Rightarrow> u64" where
  "d_addr k d = (if k = 0 then word4 d else if k = 1 then word1 d else if k = 2 then word3 d else word6 d)"

definition d_len :: "nat \<Rightarrow> cmd_desc \<Rightarrow> u64" where
  "d_len k d = get_bits (16 * k) 16 (word5 d)"

definition packet_buffers :: "nat \<Rightarrow> cmd_desc list \<Rightarrow> (u64 \<times> u64) list" where
  "packet_buffers n ds = map (\<lambda>j. (d_addr (j mod 4) (ds ! (j div 4)), d_len (j mod 4) (ds ! (j div 4)))) [0..<n]"

lemma set_buffer_get:
  assumes "j < 4" "k < 4"
  shows "d_addr j (set_buffer k a l d) = (if j = k then a else d_addr j d)"
    "d_len j (set_buffer k a l d) = (if j = k then ucast l AND mask 16 else d_len j d)"
proof -
  have "j = 0 \<or> j = 1 \<or> j = 2 \<or> j = 3" "k = 0 \<or> k = 1 \<or> k = 2 \<or> k = 3" using assms by auto
  then show "d_addr j (set_buffer k a l d) = (if j = k then a else d_addr j d)"
    by (auto simp: d_addr_def set_buffer_def Let_def)
  have w: "word5 (set_buffer k a l d) = put_bits (16 * k) 16 (ucast l) (word5 d)" by (simp add: set_buffer_def Let_def)
  show "d_len j (set_buffer k a l d) = (if j = k then ucast l AND mask 16 else d_len j d)"
  proof (cases "j = k")
    case False
    then have "16 * j + 16 \<le> 16 * k \<or> 16 * k + 16 \<le> 16 * j" by auto
    then show ?thesis using False by (simp add: d_len_def w get_put_other)
  qed (use assms in \<open>simp add: d_len_def w get_put_same\<close>)
qed

lemma packet_buffers_Suc:
  "packet_buffers (Suc n) ds = packet_buffers n ds @ [(d_addr (n mod 4) (ds ! (n div 4)), d_len (n mod 4) (ds ! (n div 4)))]"
  by (simp add: packet_buffers_def)

lemma packet_buffers_cong:
  "(\<And>j. j < n \<Longrightarrow> d_addr (j mod 4) (ds ! (j div 4)) = d_addr (j mod 4) (es ! (j div 4)) \<and>
      d_len (j mod 4) (ds ! (j div 4)) = d_len (j mod 4) (es ! (j div 4))) \<Longrightarrow> packet_buffers n ds = packet_buffers n es"
  by (simp add: packet_buffers_def)

lemma packet_buffers_new:
  assumes "n = 4 * length ds"
  shows "packet_buffers (Suc n) (ds @ [set_buffer 0 a l zero_desc]) = packet_buffers n ds @ [(a, ucast l AND mask 16)]"
proof -
  have "packet_buffers n (ds @ [set_buffer 0 a l zero_desc]) = packet_buffers n ds"
    by (rule packet_buffers_cong) (use assms in \<open>auto simp: nth_append\<close>)
  then show ?thesis using assms by (simp add: packet_buffers_Suc set_buffer_get)
qed

lemma packet_buffers_more:
  assumes "n = 4 * (length ds - 1) + k" "ds \<noteq> []" "k < 4"
  shows "packet_buffers (Suc n) (ds[length ds - 1 := set_buffer k a l (ds ! (length ds - 1))]) = packet_buffers n ds @ [(a, ucast l AND mask 16)]"
proof -
  let ?es = "ds[length ds - 1 := set_buffer k a l (ds ! (length ds - 1))]"
  have "packet_buffers n ?es = packet_buffers n ds"
  proof (rule packet_buffers_cong)
    fix j assume "j < n"
    show "d_addr (j mod 4) (?es ! (j div 4)) = d_addr (j mod 4) (ds ! (j div 4)) \<and> d_len (j mod 4) (?es ! (j div 4)) = d_len (j mod 4) (ds ! (j div 4))"
    proof (cases "j div 4 = length ds - 1")
      case True
      have "j mod 4 < k"
      proof -
        have "j = 4 * (j div 4) + j mod 4" by simp
        then show ?thesis using True \<open>j < n\<close> assms(1) by linarith
      qed
      then show ?thesis using True assms by (simp add: set_buffer_get)
    next
      case False
      then show ?thesis by simp
    qed
  qed
  moreover have "n div 4 = length ds - 1" "n mod 4 = k" using assms by auto
  ultimately show ?thesis using assms by (simp add: packet_buffers_Suc set_buffer_get)
qed

lemma chain_buffers:
  assumes "ds \<noteq> []" "1 \<le> k" "k \<le> 4" "n = 4 * (length ds - 1) + k"
  shows "packet_buffers (n + length bl) (chain k ds bl) = packet_buffers n ds @ map (\<lambda>(d, l). (d, ucast l AND mask 16)) bl \<and>
    length (chain k ds bl) = (n + length bl + 3) div 4"
  using assms
proof (induction k ds bl arbitrary: n rule: chain.induct)
  case (1 k ds)
  then have "(4 * (length ds - 1) + k + 3) div 4 = length ds" by (cases ds) auto
  then show ?case using 1 by simp
next
  case (2 k ds d l bl)
  show ?case
  proof (cases "k = 4")
    case True
    then have n: "n = 4 * length ds" using 2(3,6) by (cases ds) auto
    have "packet_buffers (Suc n + length bl) (chain 1 (ds @ [set_buffer 0 d l zero_desc]) bl) =
        packet_buffers (Suc n) (ds @ [set_buffer 0 d l zero_desc]) @ map (\<lambda>(d, l). (d, ucast l AND mask 16)) bl \<and>
        length (chain 1 (ds @ [set_buffer 0 d l zero_desc]) bl) = (Suc n + length bl + 3) div 4"
      by (rule 2(1) [OF True]) (simp_all add: n)
    then show ?thesis using True packet_buffers_new [OF n] by simp
  next
    case False
    let ?es = "ds[length ds - 1 := set_buffer k d l (ds ! (length ds - 1))]"
    have "packet_buffers (Suc n + length bl) (chain (k + 1) ?es bl) =
        packet_buffers (Suc n) ?es @ map (\<lambda>(d, l). (d, ucast l AND mask 16)) bl \<and>
        length (chain (k + 1) ?es bl) = (Suc n + length bl + 3) div 4"
      by (rule 2(2) [OF False]) (use 2(3-6) False in auto)
    then show ?thesis using False packet_buffers_more [OF 2(6,3)] 2(5) by simp
  qed
qed

text \<open>What is set in the first descriptor afterwards leaves the buffers, the length and the count alone.\<close>

definition same_buffers :: "cmd_desc \<Rightarrow> cmd_desc \<Rightarrow> bool" where
  "same_buffers d e \<longleftrightarrow> word1 e = word1 d \<and> word3 e = word3 d \<and> word4 e = word4 d \<and> word5 e = word5 d \<and> word6 e = word6 d \<and>
     d_totalLength e = d_totalLength d \<and> d_numOfBuffers e = d_numOfBuffers d"

lemma same_buffers_refl [simp]: "same_buffers d d"
  by (simp add: same_buffers_def)

lemma same_buffers_trans: "same_buffers c d \<Longrightarrow> same_buffers d e \<Longrightarrow> same_buffers c e"
  by (simp add: same_buffers_def)

lemma same_buffers_set [simp]:
  "lo + n \<le> 32 \<Longrightarrow> same_buffers c (set_word0 lo n v d) = same_buffers c d"
  "same_buffers c (set_word2 lo n v d) = same_buffers c d" "same_buffers c (set_opcode v d) = same_buffers c d"
  "same_buffers c (set_offsets s d) = same_buffers c d" "same_buffers c (or_flags f d) = same_buffers c d"
  "same_buffers c (d\<lparr>word7 := x\<rparr>) = same_buffers c d"
  by (simp_all add: same_buffers_def set_word0_def set_word2_def set_opcode_def set_offsets_def or_flags_def d_totalLength_def d_numOfBuffers_def get_put_other)

lemma same_buffers_offload [simp]:
  "same_buffers c (nx_nic_check_tso tagged s d) = same_buffers c d"
  "same_buffers c (set_vlan_oob s d) = same_buffers c d" "same_buffers c (grow_headers d) = same_buffers c d"
  by (simp_all add: nx_nic_check_tso_def set_vlan_oob_def grow_headers_def Let_def split: option.split)

lemma same_buffers_packet:
  assumes "same_buffers (hd ds) d" "ds \<noteq> []" "n \<le> 4 * length ds"
  shows "packet_buffers n (d # tl ds @ hs) = packet_buffers n ds"
proof (rule packet_buffers_cong)
  fix j assume "j < n"
  then have "j div 4 < length ds" using assms(3) by auto
  then show "d_addr (j mod 4) ((d # tl ds @ hs) ! (j div 4)) = d_addr (j mod 4) (ds ! (j div 4)) \<and>
      d_len (j mod 4) ((d # tl ds @ hs) ! (j div 4)) = d_len (j mod 4) (ds ! (j div 4))"
    using assms(1,2) by (cases ds; cases "j div 4") (auto simp: same_buffers_def d_addr_def d_len_def nth_append)
qed


subsection \<open>The copied headers\<close>

lemma length_sk_bytes [simp]: "length (sk_bytes s i n) = n"
  by (simp add: sk_bytes_def)

lemma length_htons [simp]: "length (htons v) = 2"
  by (simp add: htons_def)

lemma sk_bytes_append: "sk_bytes s i m @ sk_bytes s (i + int m) n = sk_bytes s i (m + n)"
  by (rule nth_equalityI) (auto simp: sk_bytes_def nth_append)

lemma take_sk_bytes: "m \<le> n \<Longrightarrow> take m (sk_bytes s i n) = sk_bytes s i m"
  by (simp add: sk_bytes_def take_map)

lemma drop_sk_bytes: "drop m (sk_bytes s i n) = sk_bytes s (i + int m) (n - m)"
  by (rule nth_equalityI) (auto simp: sk_bytes_def add.assoc)

text \<open>The first \<open>n\<close> bytes of the packet as it goes to the wire: a tag kept beside it stands behind the addresses.\<close>

definition wire_bytes :: "sk_buff \<Rightarrow> nat \<Rightarrow> u8 list" where
  "wire_bytes s n =
     (case sk_vlan s of
        None \<Rightarrow> sk_bytes s 0 n
      | Some v \<Rightarrow> sk_bytes s 0 12 @ htons ETH_P_8021Q @ htons v @ sk_bytes s 12 (n - 16))"

lemma on_desc_twice: "on_desc i f (on_desc i g a) = on_desc i (f \<circ> g) a" if "i < length (cmdDescHead a)"
  using that by (simp add: on_desc_def)

lemma on_desc_fields [simp]:
  "length (cmdDescHead (on_desc i f a)) = length (cmdDescHead a)" "MaxTxDescCount (on_desc i f a) = MaxTxDescCount a"
  by (simp_all add: on_desc_def)

lemma copy_first_spec:
  assumes "i < length (cmdDescHead a)" "0 < n" "n \<le> 62" "sk_vlan s \<noteq> None \<longrightarrow> 16 < n"
  shows "\<exists>f. copy_first s i n a = Some (on_desc i f a) \<and> (\<forall>d. take n (drop 2 (desc_bytes (f d))) = wire_bytes s n)"
proof (cases "sk_vlan s")
  case None
  have "copy_bytes i 2 (sk_bytes s 0 n) a = Some (on_desc i (patch_desc 2 (sk_bytes s 0 n)) a)"
    using assms by (intro copy_bytes_fits) (auto simp: sk_bytes_def)
  then show ?thesis using None assms(3)
    by (intro exI [of _ "patch_desc 2 (sk_bytes s 0 n)"]) (simp add: copy_first_def IP_ALIGNMENT_BYTES_def desc_bytes_patch wire_bytes_def)
next
  case (Some v)
  let ?f1 = "patch_desc 0 (sk_bytes s (- 2) 16)" and ?f2 = "patch_desc 14 (htons ETH_P_8021Q)" and ?f3 = "patch_desc 16 (htons v)"
    and ?f4 = "patch_desc 18 (sk_bytes s 12 (n - 16))"
  have n: "16 < n" using assms(4) Some by simp
  have c: "copy_bytes i 0 (sk_bytes s (- 2) 16) b = Some (on_desc i ?f1 b)" "copy_bytes i 14 (htons ETH_P_8021Q) b = Some (on_desc i ?f2 b)"
    "copy_bytes i 16 (htons v) b = Some (on_desc i ?f3 b)" "copy_bytes i 18 (sk_bytes s 12 (n - 16)) b = Some (on_desc i ?f4 b)"
    if "i < length (cmdDescHead b)" for b
    using that n assms(3) by (auto intro!: copy_bytes_fits simp: sk_bytes_def htons_def)
  have "copy_first s i n a = Some (on_desc i (?f4 \<circ> (?f3 \<circ> (?f2 \<circ> ?f1))) a)"
    using Some n assms(1) by (simp add: copy_first_def c on_desc_twice)
  moreover have "take n (drop 2 (desc_bytes ((?f4 \<circ> (?f3 \<circ> (?f2 \<circ> ?f1))) d))) = wire_bytes s n" for d
  proof -
    let ?S = "sk_bytes s (- 2) 16"
    have d1: "desc_bytes (?f1 d) = ?S @ drop 16 (desc_bytes d)" by (simp add: desc_bytes_patch)
    have d2: "desc_bytes (?f2 (?f1 d)) = take 14 ?S @ htons ETH_P_8021Q @ drop 16 (desc_bytes d)"
      by (simp add: desc_bytes_patch d1)
    have d3: "desc_bytes (?f3 (?f2 (?f1 d))) = take 14 ?S @ htons ETH_P_8021Q @ htons v @ drop 18 (desc_bytes d)"
      by (simp add: desc_bytes_patch d2)
    have d4: "desc_bytes (?f4 (?f3 (?f2 (?f1 d)))) = take 14 ?S @ htons ETH_P_8021Q @ htons v @ sk_bytes s 12 (n - 16) @ drop (n + 2) (desc_bytes d)"
      using n assms(3) by (simp add: desc_bytes_patch d3)
    have "drop 2 (take 14 ?S) = sk_bytes s 0 12" by (simp add: take_sk_bytes drop_sk_bytes)
    then show ?thesis using n by (simp add: d4 wire_bytes_def Some)
  qed
  ultimately show ?thesis by blast
qed

text \<open>Nothing but descriptors changes.\<close>

definition only_descs :: "tx_adapter \<Rightarrow> tx_adapter \<Rightarrow> bool" where
  "only_descs a b \<longleftrightarrow> (\<exists>dh. b = a\<lparr>cmdDescHead := dh\<rparr>)"

lemma only_descs_on_desc: "only_descs a b \<Longrightarrow> only_descs a (on_desc i f b)"
  by (auto simp: only_descs_def on_desc_def)

lemma only_descs_refl: "only_descs a a"
  unfolding only_descs_def by (rule exI [of _ "cmdDescHead a"]) simp

definition is_lso :: "cmd_desc \<Rightarrow> bool" where
  "is_lso d \<longleftrightarrow> d_opcode d = TX_TCP_LSO \<or> d_opcode d = TX_TCP_LSO6"

text \<open>The descriptor and the length of the headers that are copied.\<close>

definition headed :: "sk_buff \<Rightarrow> cmd_desc \<Rightarrow> cmd_desc" where
  "headed s d = (let e = set_vlan_oob s d in if is_lso e \<and> sk_vlan s \<noteq> None then grow_headers e else e)"

definition header_len :: "sk_buff \<Rightarrow> cmd_desc \<Rightarrow> nat" where
  "header_len s d = (if is_lso (set_vlan_oob s d) then unat (d_totalHdrLength (headed s d)) else 0)"

definition header_slots :: "nat \<Rightarrow> nat" where
  "header_slots n = (if n = 0 then 0 else if n \<le> FIRST_HDR_LEN then 1 else 2)"

lemma wire_bytes_split:
  assumes "62 < n"
  shows "wire_bytes s n = wire_bytes s 62 @ sk_bytes s (62 - (if sk_vlan s \<noteq> None then VLAN_HLEN else 0)) (n - 62)"
proof (cases "sk_vlan s")
  case None
  then show ?thesis using assms sk_bytes_append [of s 0 62 "n - 62"] by (simp add: wire_bytes_def)
next
  case (Some v)
  then show ?thesis using assms sk_bytes_append [of s 12 46 "n - 62"] by (simp add: wire_bytes_def VLAN_HLEN_def)
qed

lemma headed_cases:
  "on_desc i (headed s) a =
     (if is_lso (set_vlan_oob s (cmdDescHead a ! i)) \<and> sk_vlan s \<noteq> None then on_desc i grow_headers (on_desc i (set_vlan_oob s) a)
      else on_desc i (set_vlan_oob s) a)" if "i < length (cmdDescHead a)"
  using that by (cases "sk_vlan s") (simp_all add: on_desc_def headed_def Let_def)

lemma copy_headers_spec:
  assumes "seg a0 ds a" "ring_inv a0" "ds \<noteq> []" "in_flight a0 + length ds + 2 < MaxTxDescCount a0"
    "is_lso (set_vlan_oob s (hd ds)) \<Longrightarrow> 16 < header_len s (hd ds) \<and> header_len s (hd ds) \<le> 126"
  shows "\<exists>hs b. nx_nic_tso_copy_headers s (at a0 (length ds)) (cmdProducer a0) a = Some (at a0 (length ds + length hs), b) \<and>
    seg a0 (headed s (hd ds) # tl ds @ hs) b \<and> only_descs a b \<and> length hs = header_slots (header_len s (hd ds)) \<and>
    take (header_len s (hd ds)) (drop 2 (concat (map desc_bytes hs))) = (if hs = [] then [] else wire_bytes s (header_len s (hd ds)))"
proof -
  let ?p = "cmdProducer a0" and ?d = "hd ds" and ?i = "at a0 (length ds)" and ?i' = "at a0 (Suc (length ds))"
  let ?n = "header_len s ?d" and ?ds = "headed s ?d # tl ds" and ?a = "on_desc (cmdProducer a0) (headed s) a"
  have p: "?p < length (cmdDescHead a)" "at a0 0 = ?p" "MaxTxDescCount a = MaxTxDescCount a0"
    using assms(1,2) at_0 by (auto simp: seg_def ring_inv_def)
  have d: "cmdDescHead a ! ?p = ?d" using seg_nth [OF assms(1,2), of 0] assms(3) p(2) by (simp add: hd_conv_nth)
  have s1: "seg a0 ?ds ?a"
    using seg_on_desc [OF assms(1,2), of 0 "headed s"] assms(3,4) p(2) by (cases ds) simp_all
  have hd1: "cmdDescHead ?a ! ?p = headed s ?d" using p(1) d by (simp add: on_desc_def)
  have max1: "MaxTxDescCount ?a = MaxTxDescCount a0" using p(3) by simp
  have o1: "only_descs a ?a" by (rule only_descs_on_desc [OF only_descs_refl])
  have op: "d_opcode (cmdDescHead (on_desc ?p (set_vlan_oob s) a) ! ?p) = d_opcode (set_vlan_oob s ?d)"
    using p(1) d by (simp add: on_desc_def)
  show ?thesis
  proof (cases "is_lso (set_vlan_oob s ?d)")
    case False
    then have n0: "?n = 0" and a1: "?a = on_desc ?p (set_vlan_oob s) a" using d by (simp_all add: header_len_def headed_cases [OF p(1)])
    have "nx_nic_tso_copy_headers s ?i ?p a = Some (?i, ?a)"
      using False op by (simp add: nx_nic_tso_copy_headers_def Let_def is_lso_def a1)
    then show ?thesis using s1 o1 n0 by (intro exI [of _ "[]"] exI [of _ ?a]) (simp add: header_slots_def)
  next
    case True
    have n: "16 < ?n" "?n \<le> 126" using assms(5) True by auto
    have a1: "(if sk_vlan s \<noteq> None then on_desc ?p grow_headers (on_desc ?p (set_vlan_oob s) a) else on_desc ?p (set_vlan_oob s) a) = ?a"
      using True d by (simp add: headed_cases [OF p(1)])
    have hl: "unat (d_totalHdrLength (cmdDescHead ?a ! ?p)) = ?n" using True by (simp add: hd1 header_len_def)
    have nx: "get_next_index ?i (MaxTxDescCount a0) = ?i'" "get_next_index ?i' (MaxTxDescCount a0) = at a0 (Suc (Suc (length ds)))"
      using at_Suc [OF assms(2)] by simp_all
    define m where "m = min ?n FIRST_HDR_LEN"
    have m: "16 < m" "m \<le> 62" using n by (auto simp: m_def FIRST_HDR_LEN_def IP_ALIGNMENT_BYTES_def)
    have ilen: "?i < length (cmdDescHead ?a)" using at_less [OF assms(2)] s1 by (simp add: seg_def)
    obtain f where f: "copy_first s ?i m ?a = Some (on_desc ?i f ?a)" "\<forall>d. take m (drop 2 (desc_bytes (f d))) = wire_bytes s m"
      using copy_first_spec [OF ilen, of m s] m by auto
    let ?h = "f (cmdDescHead ?a ! ?i)"
    have len: "length ?ds = length ds" using assms(3) by (cases ds) simp_all
    have s2: "seg a0 (?ds @ [?h]) (on_desc ?i f ?a)"
      by (rule seg_append [OF s1 assms(2), of f, unfolded len]) (use assms(4) in simp)
    have o2: "only_descs a (on_desc ?i f ?a)" by (rule only_descs_on_desc [OF o1])
    have step: "nx_nic_tso_copy_headers s ?i ?p a =
        (if ?n \<le> FIRST_HDR_LEN then Some (?i', on_desc ?i f ?a)
         else Option.bind (copy_bytes ?i' 0 (sk_bytes s (int m - (if sk_vlan s \<noteq> None then VLAN_HLEN else 0)) (?n - m)) (on_desc ?i f ?a))
           (\<lambda>b. Some (get_next_index ?i' (MaxTxDescCount b), b)))"
      using True unfolding nx_nic_tso_copy_headers_def Let_def op a1 hl max1 nx(1) m_def [symmetric] f(1)
      by (auto simp: is_lso_def)
    show ?thesis
    proof (cases "?n \<le> FIRST_HDR_LEN")
      case le: True
      then have "m = ?n" by (simp add: m_def)
      then show ?thesis using step le s2 o2 f(2) n by (intro exI [of _ "[?h]"] exI [of _ "on_desc ?i f ?a"]) (simp add: header_slots_def)
    next
      case gt: False
      then have m62: "m = 62" "62 < ?n" by (auto simp: m_def FIRST_HDR_LEN_def IP_ALIGNMENT_BYTES_def)
      let ?bs = "sk_bytes s (int m - (if sk_vlan s \<noteq> None then VLAN_HLEN else 0)) (?n - m)" and ?b = "on_desc ?i f ?a"
      let ?h' = "patch_desc 0 ?bs (cmdDescHead ?b ! ?i')"
      have c: "copy_bytes ?i' 0 ?bs ?b = Some (on_desc ?i' (patch_desc 0 ?bs) ?b)"
        by (rule copy_bytes_fits) (use at_less [OF assms(2)] s1 n m62 in \<open>auto simp: seg_def sk_bytes_def\<close>)
      have len2: "length (?ds @ [?h]) = Suc (length ds)" using len by simp
      have s3: "seg a0 ((?ds @ [?h]) @ [?h']) (on_desc ?i' (patch_desc 0 ?bs) ?b)"
        by (rule seg_append [OF s2 assms(2), of "patch_desc 0 ?bs", unfolded len2]) (use assms(4) in simp)
      have r: "nx_nic_tso_copy_headers s ?i ?p a = Some (at a0 (Suc (Suc (length ds))), on_desc ?i' (patch_desc 0 ?bs) ?b)"
        unfolding step c using gt p(3) nx(2) by simp
      have b1: "drop 2 (desc_bytes ?h) = wire_bytes s 62"
      proof -
        have "take 62 (drop 2 (desc_bytes ?h)) = drop 2 (desc_bytes ?h)" by simp
        then show ?thesis using f(2) m62(1) by metis
      qed
      have b2: "take (?n - 62) (desc_bytes ?h') = ?bs" using n m62 by (simp add: desc_bytes_patch)
      have "length (wire_bytes s 62) = 62" using arg_cong [OF b1, of length] by simp
      moreover have "take ?n (drop 2 (concat (map desc_bytes [x, y]))) = wire_bytes s 62 @ take (?n - 62) (desc_bytes y)"
        if "drop 2 (desc_bytes x) = wire_bytes s 62" "length (wire_bytes s 62) = 62" for x y
        using that m62 by simp
      ultimately have "take ?n (drop 2 (concat (map desc_bytes [?h, ?h']))) = wire_bytes s 62 @ ?bs"
        using b1 b2 by metis
      then have "take ?n (drop 2 (concat (map desc_bytes [?h, ?h']))) = wire_bytes s ?n"
        unfolding wire_bytes_split [OF m62(2)] by (simp only: m62(1) of_nat_numeral)
      then show ?thesis using r s3 gt n only_descs_on_desc [OF o2]
        by (intro exI [of _ "[?h, ?h']"] exI [of _ "on_desc ?i' (patch_desc 0 ?bs) ?b"]) (simp add: header_slots_def)
    qed
  qed
qed


subsection \<open>The whole packet\<close>

lemma chain_hd: "ds \<noteq> [] \<Longrightarrow> chain k ds bl \<noteq> [] \<and> word0 (hd (chain k ds bl)) = word0 (hd ds) \<and> word2 (hd (chain k ds bl)) = word2 (hd ds) \<and>
    word7 (hd (chain k ds bl)) = word7 (hd ds)"
proof (induction k ds bl rule: chain.induct)
  case (2 k ds d l bl)
  have w: "word0 (set_buffer j d l x) = word0 x" "word2 (set_buffer j d l x) = word2 x" "word7 (set_buffer j d l x) = word7 x" for j x
    by (simp_all add: set_buffer_def Let_def)
  have "xs \<noteq> [] \<Longrightarrow> word0 (hd (xs[i := set_buffer j d l (xs ! i)])) = word0 (hd xs) \<and> word2 (hd (xs[i := set_buffer j d l (xs ! i)])) = word2 (hd xs) \<and>
      word7 (hd (xs[i := set_buffer j d l (xs ! i)])) = word7 (hd xs)" for xs i j
    by (cases xs; cases i) (simp_all add: w)
  then show ?case using 2 by (cases "k = 4") simp_all
qed simp

text \<open>The descriptors of a packet, before its headers: \<open>dma\<close> is the address of the linear part, \<open>bl\<close> the mapped fragments.\<close>

definition xmit_mss :: "xmit_env \<Rightarrow> sk_buff \<Rightarrow> u16" where
  "xmit_mss e skb = (if 0 < sk_gso skb \<and> xe_tso e then sk_gso skb else 0)"

definition packet_chain :: "xmit_env \<Rightarrow> u16 \<Rightarrow> sk_buff \<Rightarrow> u64 \<Rightarrow> (u64 \<times> u32) list \<Rightarrow> cmd_desc list" where
  "packet_chain e port skb dma bl =
     chain 1 [first_desc skb port dma (sk_len skb - sk_data_len skb) (set_word2 16 16 (ucast (xmit_mss e skb)) zero_desc)] bl"

definition offloaded :: "nat \<Rightarrow> sk_buff \<Rightarrow> cmd_desc \<Rightarrow> cmd_desc" where
  "offloaded tagged skb d = (let d = nx_nic_check_tso tagged skb d in if tagged \<noteq> 0 then or_flags FLAGS_VLAN_TAGGED d else d)"

definition lso_len :: "nat \<Rightarrow> sk_buff \<Rightarrow> int" where
  "lso_len tagged skb = 14 + 4 * int tagged + NW_HDR_LEN skb + 4 * tcp_doff skb + (if sk_vlan skb \<noteq> None then 4 else 0)"

definition segmented :: "xmit_env \<Rightarrow> nat \<Rightarrow> sk_buff \<Rightarrow> bool" where
  "segmented e tagged skb \<longleftrightarrow> xmit_mss e skb \<noteq> 0 \<and> (PROTO_IS_IP skb tagged \<or> PROTO_IS_IPV6 skb tagged)"

text \<open>Headers that fit in two descriptors behind the padding.\<close>

definition headers_fit :: "xmit_env \<Rightarrow> nat \<Rightarrow> sk_buff \<Rightarrow> bool" where
  "headers_fit e tagged skb \<longleftrightarrow> (if segmented e tagged skb then 20 < lso_len tagged skb \<and> lso_len tagged skb \<le> 126 else True)"

lemma ucast_mask_16 [simp]: "(ucast w :: u64) AND mask 16 = ucast w" for w :: u16
  by (rule bit_word_eqI) (auto simp: bit_simps dest: bit_imp_le_length)

lemma field_gets:
  "d_opcode (set_opcode v d) = v AND mask 6" "d_opcode (set_offsets s d) = d_opcode d" "d_opcode (set_word2 lo n v d) = d_opcode d"
  "d_opcode (or_flags f d) = d_opcode d" "d_opcode (d\<lparr>word7 := x\<rparr>) = d_opcode d" "d_opcode (set_buffer k a l d) = d_opcode d"
  "d_mss (set_word2 16 16 v d) = v AND mask 16" "d_mss (set_opcode v d) = d_mss d" "d_mss (set_offsets s d) = d_mss d"
  "lo + n \<le> 16 \<or> 32 \<le> lo \<Longrightarrow> d_mss (set_word2 lo n v d) = d_mss d" "d_mss (set_word0 lo n v d) = d_mss d" "d_mss (set_buffer k a l d) = d_mss d"
  "d_totalHdrLength (set_word2 40 8 v d) = v AND mask 8" "d_totalHdrLength (set_opcode v d) = d_totalHdrLength d"
  "d_totalHdrLength (set_offsets s d) = d_totalHdrLength d" "d_totalHdrLength (or_flags f d) = d_totalHdrLength d"
  "d_totalHdrLength (d\<lparr>word7 := x\<rparr>) = d_totalHdrLength d" "d_totalHdrLength (set_word0 lo n v d) = d_totalHdrLength d"
  by (auto simp: d_opcode_def d_mss_def d_totalHdrLength_def set_opcode_def set_offsets_def set_word0_def set_word2_def or_flags_def
      set_buffer_def Let_def get_put_same get_put_other)

lemma field_gets_oob: "d_opcode (set_vlan_oob s d) = d_opcode d" "d_totalHdrLength (set_vlan_oob s d) = d_totalHdrLength d"
  by (simp_all add: set_vlan_oob_def field_gets split: option.split)

lemma opcodes_mask [simp]:
  "TX_TCP_LSO AND mask 6 = TX_TCP_LSO" "TX_TCP_LSO6 AND mask 6 = TX_TCP_LSO6" "TX_TCP_PKT AND mask 6 = TX_TCP_PKT" "TX_UDP_PKT AND mask 6 = TX_UDP_PKT"
  "TX_TCPV6_PKT AND mask 6 = TX_TCPV6_PKT" "TX_UDPV6_PKT AND mask 6 = TX_UDPV6_PKT" "TX_ETHER_PKT AND mask 6 = TX_ETHER_PKT"
  by (simp_all add: TX_TCP_LSO_def TX_TCP_LSO6_def TX_TCP_PKT_def TX_UDP_PKT_def TX_TCPV6_PKT_def TX_UDPV6_PKT_def TX_ETHER_PKT_def mask_eq_exp_minus_1)

lemma opcodes_ne [simp]:
  "TX_TCP_PKT \<noteq> TX_TCP_LSO" "TX_UDP_PKT \<noteq> TX_TCP_LSO" "TX_TCPV6_PKT \<noteq> TX_TCP_LSO" "TX_UDPV6_PKT \<noteq> TX_TCP_LSO" "TX_ETHER_PKT \<noteq> TX_TCP_LSO"
  "TX_TCP_PKT \<noteq> TX_TCP_LSO6" "TX_UDP_PKT \<noteq> TX_TCP_LSO6" "TX_TCPV6_PKT \<noteq> TX_TCP_LSO6" "TX_UDPV6_PKT \<noteq> TX_TCP_LSO6" "TX_ETHER_PKT \<noteq> TX_TCP_LSO6"
  by (simp_all add: TX_TCP_LSO_def TX_TCP_LSO6_def TX_TCP_PKT_def TX_UDP_PKT_def TX_TCPV6_PKT_def TX_UDPV6_PKT_def TX_ETHER_PKT_def)

lemma packet_chain_fields:
  "d_opcode (hd (packet_chain e port skb dma bl)) = TX_ETHER_PKT" "d_mss (hd (packet_chain e port skb dma bl)) = ucast (xmit_mss e skb)"
  "packet_chain e port skb dma bl \<noteq> []"
  "d_totalLength (hd (packet_chain e port skb dma bl)) = ucast (sk_len skb) AND mask 24"
  "d_numOfBuffers (hd (packet_chain e port skb dma bl)) = of_nat (Suc (length (sk_frags skb))) AND mask 8"
proof -
  let ?d = "first_desc skb port dma (sk_len skb - sk_data_len skb) (set_word2 16 16 (ucast (xmit_mss e skb)) zero_desc)"
  have c: "packet_chain e port skb dma bl \<noteq> []" "word0 (hd (packet_chain e port skb dma bl)) = word0 ?d"
    "word2 (hd (packet_chain e port skb dma bl)) = word2 ?d"
    using chain_hd [of "[?d]" 1 bl] unfolding packet_chain_def by simp_all
  show "packet_chain e port skb dma bl \<noteq> []" by (rule c)
  have "d_opcode ?d = TX_ETHER_PKT" "d_mss ?d = ucast (xmit_mss e skb)"
    by (simp_all add: first_desc_def field_gets)
  then show "d_opcode (hd (packet_chain e port skb dma bl)) = TX_ETHER_PKT" "d_mss (hd (packet_chain e port skb dma bl)) = ucast (xmit_mss e skb)"
    by (simp_all add: d_opcode_def d_mss_def c)
  have w: "word0 ?d = put_bits 23 6 TX_ETHER_PKT (put_bits 32 8 (of_nat (Suc (length (sk_frags skb)))) (put_bits 40 24 (ucast (sk_len skb)) 0))"
    by (simp add: first_desc_def set_buffer_def set_word2_def set_opcode_def set_word0_def zero_desc_def Let_def)
  show "d_totalLength (hd (packet_chain e port skb dma bl)) = ucast (sk_len skb) AND mask 24"
    unfolding d_totalLength_def c w by (simp add: get_put_same get_put_other)
  show "d_numOfBuffers (hd (packet_chain e port skb dma bl)) = of_nat (Suc (length (sk_frags skb))) AND mask 8"
    unfolding d_numOfBuffers_def c w by (simp add: get_put_same get_put_other del: of_nat_Suc)
qed


lemma ucast_16_64: "(ucast (ucast w :: u64) :: u16) = w"
  by (rule bit_word_eqI) (auto simp: bit_simps)

lemma offloaded_lso:
  assumes "d_opcode d = TX_ETHER_PKT" "d_mss d = ucast (xmit_mss e skb)"
  shows "is_lso (set_vlan_oob skb (offloaded tagged skb d)) = segmented e tagged skb"
    "segmented e tagged skb \<Longrightarrow> d_totalHdrLength (offloaded tagged skb d) = word_of_int (14 + int tagged * 4 + NW_HDR_LEN skb + tcp_doff skb * 4) AND mask 8"
proof -
  have m: "d_mss d = 0 \<longleftrightarrow> xmit_mss e skb = 0"
    unfolding assms(2) using ucast_16_64 [of "xmit_mss e skb"] by (metis unsigned_0)
  show "is_lso (set_vlan_oob skb (offloaded tagged skb d)) = segmented e tagged skb"
    using assms(1) m by (auto simp: is_lso_def offloaded_def nx_nic_check_tso_def field_gets field_gets_oob segmented_def Let_def)
  show "d_totalHdrLength (offloaded tagged skb d) = word_of_int (14 + int tagged * 4 + NW_HDR_LEN skb + tcp_doff skb * 4) AND mask 8"
    if "segmented e tagged skb"
    using that m by (auto simp: offloaded_def nx_nic_check_tso_def field_gets segmented_def Let_def)
qed

lemma same_buffers_headed [simp]: "same_buffers c (headed s d) = same_buffers c d"
  by (simp add: headed_def Let_def)

lemma same_buffers_offloaded [simp]: "same_buffers c (offloaded tagged s d) = same_buffers c d"
  by (simp add: offloaded_def Let_def)

lemma grown_len: "d_totalHdrLength (grow_headers d) = (d_totalHdrLength d + 4) AND mask 8"
  by (simp add: grow_headers_def field_gets)

lemma uint_mask_8:
  assumes "0 \<le> n" "n < 256"
  shows "(word_of_int n AND mask 8 :: u64) = word_of_int n" "uint (word_of_int n :: u64) = n"
proof -
  show u: "uint (word_of_int n :: u64) = n" using assms by (simp add: uint_word_of_int mod_pos_pos_trivial)
  have "uint (take_bit 8 (word_of_int n :: u64)) = uint (word_of_int n :: u64)"
    using assms by (simp only: unsigned_take_bit_eq u take_bit_int_eq_self_iff) simp
  then have "take_bit 8 (word_of_int n :: u64) = word_of_int n" by (simp only: word_uint_eq_iff)
  then show "(word_of_int n AND mask 8 :: u64) = word_of_int n" by (simp add: take_bit_eq_mask)
qed

lemma segmented_len:
  assumes "d_opcode d = TX_ETHER_PKT" "d_mss d = ucast (xmit_mss e skb)" "headers_fit e tagged skb"
  shows "header_len skb (offloaded tagged skb d) = (if segmented e tagged skb then nat (lso_len tagged skb) else 0)"
proof (cases "segmented e tagged skb")
  case False
  then show ?thesis using offloaded_lso(1) [OF assms(1,2)] by (simp add: header_len_def)
next
  case True
  let ?n = "14 + int tagged * 4 + NW_HDR_LEN skb + tcp_doff skb * 4" and ?d = "offloaded tagged skb d"
  have lso: "is_lso (set_vlan_oob skb ?d)" using True offloaded_lso(1) [OF assms(1,2)] by simp
  have n: "lso_len tagged skb = ?n + (if sk_vlan skb \<noteq> None then 4 else 0)" by (simp add: lso_len_def)
  have b: "20 < lso_len tagged skb" "lso_len tagged skb \<le> 126" using True assms(3) by (simp_all add: headers_fit_def)
  have n': "0 \<le> ?n" "?n < 256" "?n + 4 < 256" using n b by (auto split: if_splits)
  have t: "d_totalHdrLength ?d = word_of_int ?n"
    using offloaded_lso(2) [OF assms(1,2) True] uint_mask_8(1) [OF n'(1,2)] by simp
  have "d_totalHdrLength (headed skb ?d) = word_of_int (lso_len tagged skb)"
  proof (cases "sk_vlan skb")
    case None
    then show ?thesis using t n by (simp add: headed_def Let_def set_vlan_oob_def)
  next
    case (Some v)
    have "d_totalHdrLength (headed skb ?d) = (word_of_int ?n + 4) AND mask 8"
      using lso Some t by (simp add: headed_def Let_def grown_len field_gets_oob)
    also have "(word_of_int ?n + 4 :: u64) = word_of_int (?n + 4)" by simp
    also have "word_of_int (?n + 4) AND mask 8 = (word_of_int (?n + 4) :: u64)" by (rule uint_mask_8) (use n' in auto)
    finally show ?thesis using n Some by simp
  qed
  then have "unat (d_totalHdrLength (headed skb ?d)) = nat (lso_len tagged skb)"
    using uint_mask_8(2) [of "lso_len tagged skb"] b by (simp add: unat_eq_nat_uint)
  then show ?thesis using True lso by (simp add: header_len_def)
qed


text \<open>Every slot has the array of the C structure.\<close>

definition frag_arrays :: "tx_adapter \<Rightarrow> bool" where
  "frag_arrays a \<longleftrightarrow> (case cmd_buf_arr a of None \<Rightarrow> True | Some bs \<Rightarrow> list_all (\<lambda>b. length (fragArray b) = MAX_BUFFERS_PER_CMD + 1) bs)"

definition slots_for :: "sk_buff \<Rightarrow> nat" where
  "slots_for skb = (Suc (length (sk_frags skb)) + 3) div 4"

text \<open>The slot of the packet once its linear part and the fragments \<open>bl\<close> are mapped.\<close>

definition filled_slot :: "xmit_env \<Rightarrow> u16 \<Rightarrow> sk_buff \<Rightarrow> u64 \<Rightarrow> (u64 \<times> u32) list \<Rightarrow> cmd_buffer \<Rightarrow> cmd_buffer" where
  "filled_slot e port skb dma bl b =
     set_frags 1 bl (set_frag 0 dma (sk_len skb - sk_data_len skb) (claim_slot skb (xmit_mss e skb) port b))"

lemma posting_start:
  assumes "ring_inv (xs_tx s)" "cmd_buf_arr (xs_tx s) = Some bufs"
  shows "posting s [] (bufs ! cmdProducer (xs_tx s)) [] [] s"
  using assms seg_self [OF assms(1)] by (simp add: posting_defs)

lemma xmit_start:
  assumes "ring_inv (xs_tx s)" "cmd_buf_arr (xs_tx s) = Some bufs" "in_flight (xs_tx s) + 1 < MaxTxDescCount (xs_tx s)"
  shows "posting s [set_word2 16 16 (ucast (xmit_mss e skb)) zero_desc] (claim_slot skb (xmit_mss e skb) (xs_portnum s) (bufs ! cmdProducer (xs_tx s))) [] []
    (on_tx (\<lambda>a. on_buf (cmdProducer (xs_tx s)) (claim_slot skb (xmit_mss e skb) (xs_portnum s))
       (on_desc (cmdProducer (xs_tx s)) (\<lambda>_. set_word2 16 16 (ucast (xmit_mss e skb)) zero_desc) a)) s)"
  unfolding on_tx_twice
  using posting_on_buf [OF posting_append [OF posting_start [OF assms(1,2)] assms(1), of "\<lambda>_. set_word2 16 16 (ucast (xmit_mss e skb)) zero_desc"] assms(1)]
    assms(3) at_0 [OF assms(1)] by simp

lemma xmit_post_mapped:
  assumes "ring_inv (xs_tx s)" "frag_arrays (xs_tx s)" "length (sk_frags skb) \<le> MAX_BUFFERS_PER_CMD"
    "in_flight (xs_tx s) + slots_for skb + 2 < MaxTxDescCount (xs_tx s)" "cmd_buf_arr (xs_tx s) = Some bufs"
    "xe_map_single e skb (sk_len skb - sk_data_len skb) = Some dma" "map_frags e 1 (sk_frags skb) = (bl, ok)"
  shows "\<exists>s' ds'. posting s ds' (filled_slot e (xs_portnum s) skb dma bl (bufs ! cmdProducer (xs_tx s)))
      (if ok then [] else netxen_clean_tx_dma_mapping (filled_slot e (xs_portnum s) skb dma bl (bufs ! cmdProducer (xs_tx s))) (Suc (length bl)))
      (Map_single dma (sk_len skb - sk_data_len skb) # map (\<lambda>(d, l). Map_page d l) bl) s' \<and>
    (ok \<longrightarrow> ds' = packet_chain e (xs_portnum s) skb dma bl) \<and>
    xmit_post e tagged skb s =
      (if \<not> ok then Some (drop_packet skb s')
       else let pos = at (xs_tx s) (length ds'); saved = cmdProducer (xs_tx s);
                s = on_tx (on_desc saved (offloaded tagged skb)) s'
            in case nx_nic_tso_copy_headers skb pos saved (xs_tx s) of
                 None \<Rightarrow> None
               | Some (pos, a) \<Rightarrow>
                   Some (s\<lparr>xs_tx := unm_nic_update_cmd_producer (a\<lparr>cmdProducer := pos\<rparr>) pos,
                     xs_txbytes := xs_txbytes s + d_totalLength (cmdDescHead a ! saved), xs_xmitcalled := xs_xmitcalled s + 1\<rparr>))"
proof -
  let ?a = "xs_tx s" and ?p = "cmdProducer (xs_tx s)" and ?n = "sk_len skb - sk_data_len skb" and ?mss = "xmit_mss e skb"
  define s1 where "s1 = on_tx (\<lambda>a. on_buf ?p (claim_slot skb ?mss (xs_portnum s)) (on_desc ?p (\<lambda>_. set_word2 16 16 (ucast ?mss) zero_desc) a)) s"
  define b1 where "b1 = claim_slot skb ?mss (xs_portnum s) (bufs ! ?p)"
  have p1: "posting s [set_word2 16 16 (ucast ?mss) zero_desc] b1 [] [] s1"
    unfolding s1_def b1_def using xmit_start [OF assms(1,5)] assms(4) by simp
  have port: "xs_portnum s1 = xs_portnum s" using p1 by (simp add: posting_def xs_same_def)
  have arr: "cmd_buf_arr (xs_tx s1) \<noteq> None" using p1 assms(5) by (simp add: posting_def)
  define s2 where "s2 = note_xmit (Map_single dma ?n) s1"
  define s3 where "s3 = on_tx (\<lambda>a. on_desc ?p (first_desc skb (xs_portnum s) dma ?n) (on_buf ?p (set_frag 0 dma ?n) a)) s2"
  define d where "d = first_desc skb (xs_portnum s) dma ?n (set_word2 16 16 (ucast ?mss) zero_desc)"
  have p2: "posting s [set_word2 16 16 (ucast ?mss) zero_desc] b1 [] [Map_single dma ?n] s2"
    unfolding s2_def using posting_note [OF p1] by simp
  have p3: "posting s [d] (set_frag 0 dma ?n b1) [] [Map_single dma ?n] s3"
    unfolding s3_def on_tx_twice d_def
    using posting_on_desc [OF posting_on_buf [OF p2 assms(1)] assms(1), of 0 "first_desc skb (xs_portnum s) dma ?n" "set_frag 0 dma ?n"]
      at_0 [OF assms(1)] assms(4) by simp
  have fl: "length (fragArray b1) = MAX_BUFFERS_PER_CMD + 1"
  proof -
    have "?p < length bufs" using assms(1,5) by (auto simp: ring_inv_def)
    then show ?thesis using assms(2,5) by (simp add: frag_arrays_def b1_def claim_slot_def list_all_length)
  qed
  have room: "in_flight ?a + length [d] + (1 + length (sk_frags skb) - 1) div 4 < MaxTxDescCount ?a"
    using assms(4) by (simp add: slots_for_def)
  obtain s4 ds' where l: "frag_loop e ?p 1 1 (at ?a (length [d] - 1)) (sk_frags skb) s3 = Some (ok, at ?a (length ds' - 1), s4)"
    "posting s ds' (set_frags 1 bl (set_frag 0 dma ?n b1))
      ([] @ (if ok then [] else netxen_clean_tx_dma_mapping (set_frags 1 bl (set_frag 0 dma ?n b1)) (1 + length bl)))
      ([Map_single dma ?n] @ map (\<lambda>(d, l). Map_page d l) bl) s4" "ok \<longrightarrow> ds' = chain 1 [d] bl"
    using frag_loop_spec [OF p3 assms(1) _ _ _ _ room assms(7)] assms(3) fl by auto
  have at0: "at ?a (length [d] - 1) = ?p" using at_0 [OF assms(1)] by simp
  have sl: "set_frags 1 bl (set_frag 0 dma ?n b1) = filled_slot e (xs_portnum s) skb dma bl (bufs ! ?p)" by (simp add: filled_slot_def b1_def)
  have nx: "get_next_index (at ?a (length ds' - 1)) (MaxTxDescCount (xs_tx s4)) = at ?a (length ds')" if ok
  proof -
    have "ds' \<noteq> []" using that l(3) packet_chain_fields(3) [of e "xs_portnum s" skb dma bl] by (simp add: packet_chain_def d_def)
    then have "Suc (length ds' - 1) = length ds'" by simp
    then show ?thesis using at_Suc [OF assms(1), of "length ds' - 1"] posting_max [OF l(2)] by metis
  qed
  have off: "(if tagged \<noteq> 0 then on_tx (on_desc ?p (or_flags FLAGS_VLAN_TAGGED)) (on_tx (on_desc ?p (nx_nic_check_tso tagged skb)) s4)
      else on_tx (on_desc ?p (nx_nic_check_tso tagged skb)) s4) = on_tx (on_desc ?p (offloaded tagged skb)) s4"
  proof -
    have "?p < length (cmdDescHead (xs_tx s4))" using l(2) assms(1) by (simp add: posting_def seg_def ring_inv_def)
    moreover have "offloaded tagged skb = (if tagged \<noteq> 0 then or_flags FLAGS_VLAN_TAGGED \<circ> nx_nic_check_tso tagged skb else nx_nic_check_tso tagged skb)"
      by (auto simp: offloaded_def Let_def)
    ultimately show ?thesis by (simp add: on_tx_def on_desc_twice)
  qed
  have "xmit_post e tagged skb s =
      (case frag_loop e ?p 1 1 ?p (sk_frags skb) s3 of
                  None \<Rightarrow> None
                | Some (False, pos, s) \<Rightarrow> Some (drop_packet skb s)
                | Some (True, pos, s) \<Rightarrow>
                    let pos = get_next_index pos (MaxTxDescCount (xs_tx s));
                        s = on_tx (on_desc ?p (nx_nic_check_tso tagged skb)) s;
                        s = (if tagged \<noteq> 0 then on_tx (on_desc ?p (or_flags FLAGS_VLAN_TAGGED)) s else s)
                    in (case nx_nic_tso_copy_headers skb pos ?p (xs_tx s) of
                          None \<Rightarrow> None
                        | Some (pos, a) \<Rightarrow>
                            Some (s\<lparr>xs_tx := unm_nic_update_cmd_producer (a\<lparr>cmdProducer := pos\<rparr>) pos,
                              xs_txbytes := xs_txbytes s + d_totalLength (cmdDescHead a ! ?p),
                              xs_xmitcalled := xs_xmitcalled s + 1\<rparr>)))"
  proof -
    have port2: "xs_portnum s2 = xs_portnum s" using p2 by (simp add: posting_def xs_same_def)
    show ?thesis
      unfolding xmit_post_def Let_def xmit_mss_def [symmetric] s1_def [symmetric] try_map_skb_data_def assms(6) option.case prod.case
        s2_def [symmetric] port2 s3_def [symmetric]
      using arr by (simp only: if_False)
  qed
  also have "\<dots> = (if \<not> ok then Some (drop_packet skb s4)
       else let pos = at ?a (length ds'); saved = ?p;
                s = on_tx (on_desc saved (offloaded tagged skb)) s4
            in case nx_nic_tso_copy_headers skb pos saved (xs_tx s) of
                 None \<Rightarrow> None
               | Some (pos, a) \<Rightarrow>
                   Some (s\<lparr>xs_tx := unm_nic_update_cmd_producer (a\<lparr>cmdProducer := pos\<rparr>) pos,
                     xs_txbytes := xs_txbytes s + d_totalLength (cmdDescHead a ! saved), xs_xmitcalled := xs_xmitcalled s + 1\<rparr>))"
    unfolding l(1) [unfolded at0] option.case prod.case Let_def off by (cases ok) (simp_all add: nx [unfolded One_nat_def])
  finally have r: "xmit_post e tagged skb s = \<dots>" .
  have "posting s ds' (filled_slot e (xs_portnum s) skb dma bl (bufs ! ?p))
      (if ok then [] else netxen_clean_tx_dma_mapping (filled_slot e (xs_portnum s) skb dma bl (bufs ! ?p)) (Suc (length bl)))
      (Map_single dma ?n # map (\<lambda>(d, l). Map_page d l) bl) s4"
    using l(2) unfolding sl by (cases ok) simp_all
  moreover have "ok \<longrightarrow> ds' = packet_chain e (xs_portnum s) skb dma bl" using l(3) by (simp add: packet_chain_def d_def)
  ultimately show ?thesis using r by blast
qed


lemma only_descs_fields:
  assumes "only_descs a b"
  shows "cmd_buf_arr b = cmd_buf_arr a" "tx_events b = tx_events a" "tx_same a b" "pending_cmds b = pending_cmds a"
    "lastCmdConsumer b = lastCmdConsumer a" "MaxTxDescCount b = MaxTxDescCount a"
  using assms by (auto simp: only_descs_def tx_same_def)

lemma filled_slot_fields:
  "cb_skb (filled_slot e port skb dma bl b) = Some (sk_id skb)" "length (fragArray (filled_slot e port skb dma bl b)) = length (fragArray b)"
  "cb_fragCount (filled_slot e port skb dma bl b) = Suc (length (sk_frags skb))"
  by (simp_all add: filled_slot_def set_frag_def claim_slot_def)

lemma bufs_ok_slot:
  assumes "ring_inv a" "cmd_buf_arr a = Some bufs" "cmd_buf_arr b = Some (bufs[i := c])" "MaxTxDescCount b = MaxTxDescCount a" "buf_ok c"
  shows "bufs_ok b"
  using assms by (auto simp: bufs_ok_def ring_inv_def dest!: set_update_subset_insert [THEN subsetD])

text \<open>The state after a packet has been posted.\<close>

definition posted :: "xmit_env \<Rightarrow> nat \<Rightarrow> sk_buff \<Rightarrow> u64 \<Rightarrow> (u64 \<times> u32) list \<Rightarrow> cmd_desc list \<Rightarrow> xmit_state \<Rightarrow> xmit_state \<Rightarrow> bool" where
  "posted e tagged skb dma bl hs s s' \<longleftrightarrow>
     (let a = xs_tx s; a' = xs_tx s'; pc = packet_chain e (xs_portnum s) skb dma bl;
          ds = headed skb (offloaded tagged skb (hd pc)) # tl pc @ hs;
          n = (if segmented e tagged skb then nat (lso_len tagged skb) else 0)
      in ring_inv a' \<and> ring_contents a' = ring_contents a @ ds \<and> in_flight a' = in_flight a + length ds \<and>
         pending_cmds a' = pending_cmds a \<and> lastCmdConsumer a' = lastCmdConsumer a \<and> MaxTxDescCount a' = MaxTxDescCount a \<and>
         cmd_buf_arr a' = map_option (\<lambda>bs. bs[cmdProducer a := filled_slot e (xs_portnum s) skb dma bl (bs ! cmdProducer a)]) (cmd_buf_arr a) \<and>
         tx_events a' = tx_events a \<and> length hs = header_slots n \<and>
         take n (drop 2 (concat (map desc_bytes hs))) = (if hs = [] then [] else wire_bytes skb n) \<and>
         xs_log s' = xs_log s @ Map_single dma (sk_len skb - sk_data_len skb) # map (\<lambda>(d, l). Map_page d l) bl)"

lemma xmit_post_posted:
  assumes "ring_inv (xs_tx s)" "frag_arrays (xs_tx s)" "length (sk_frags skb) \<le> MAX_BUFFERS_PER_CMD"
    "in_flight (xs_tx s) + slots_for skb + 2 < MaxTxDescCount (xs_tx s)" "headers_fit e tagged skb"
    "xe_map_single e skb (sk_len skb - sk_data_len skb) = Some dma" "map_frags e 1 (sk_frags skb) = (bl, True)"
  shows "\<exists>s' hs. xmit_post e tagged skb s = Some s' \<and> posted e tagged skb dma bl hs s s'"
proof -
  let ?a = "xs_tx s" and ?p = "cmdProducer (xs_tx s)" and ?pc = "packet_chain e (xs_portnum s) skb dma bl"
  let ?n = "if segmented e tagged skb then nat (lso_len tagged skb) else 0" and ?d = "offloaded tagged skb (hd (packet_chain e (xs_portnum s) skb dma bl))"
  obtain bufs where bufs: "cmd_buf_arr ?a = Some bufs" using assms(1) by (auto simp: ring_inv_def)
  obtain s4 where p4: "posting s ?pc (filled_slot e (xs_portnum s) skb dma bl (bufs ! ?p)) []
      (Map_single dma (sk_len skb - sk_data_len skb) # map (\<lambda>(d, l). Map_page d l) bl) s4"
    and r: "xmit_post e tagged skb s = (let s = on_tx (on_desc ?p (offloaded tagged skb)) s4
            in case nx_nic_tso_copy_headers skb (at ?a (length ?pc)) ?p (xs_tx s) of
                 None \<Rightarrow> None
               | Some (pos, a) \<Rightarrow>
                   Some (s\<lparr>xs_tx := unm_nic_update_cmd_producer (a\<lparr>cmdProducer := pos\<rparr>) pos,
                     xs_txbytes := xs_txbytes s + d_totalLength (cmdDescHead a ! ?p), xs_xmitcalled := xs_xmitcalled s + 1\<rparr>))"
    using xmit_post_mapped [OF assms(1-4) bufs assms(6,7), of tagged] by (auto simp: Let_def)
  let ?s5 = "on_tx (on_desc ?p (offloaded tagged skb)) s4"
  note cf = packet_chain_fields [of e "xs_portnum s" skb dma bl]
  have lpc: "length ?pc = slots_for skb"
    using chain_buffers [of "[first_desc skb (xs_portnum s) dma (sk_len skb - sk_data_len skb) (set_word2 16 16 (ucast (xmit_mss e skb)) zero_desc)]" 1 1 bl]
      length_map_frags [OF assms(7)] by (simp add: packet_chain_def slots_for_def)
  have p5: "posting s (?d # tl ?pc) (filled_slot e (xs_portnum s) skb dma bl (bufs ! ?p)) []
      (Map_single dma (sk_len skb - sk_data_len skb) # map (\<lambda>(d, l). Map_page d l) bl) ?s5"
    using posting_on_desc [OF p4 assms(1), of 0 "offloaded tagged skb"] cf(3) assms(4) lpc at_0 [OF assms(1)] by (cases ?pc) simp_all
  have hl: "header_len skb ?d = ?n" by (rule segmented_len [OF cf(1,2) assms(5)])
  have hok: "16 < header_len skb (hd (?d # tl ?pc)) \<and> header_len skb (hd (?d # tl ?pc)) \<le> 126" if "is_lso (set_vlan_oob skb (hd (?d # tl ?pc)))"
    using that offloaded_lso(1) [OF cf(1,2), of tagged] assms(5) hl by (auto simp: headers_fit_def)
  have len: "length (?d # tl ?pc) = length ?pc" using cf(3) by (cases ?pc) simp_all
  have seg5: "seg ?a (?d # tl ?pc) (xs_tx ?s5)" using p5 by (simp add: posting_def)
  have room5: "in_flight ?a + length (?d # tl ?pc) + 2 < MaxTxDescCount ?a" using assms(4) lpc by (simp only: len)
  obtain hs b where h: "nx_nic_tso_copy_headers skb (at ?a (length ?pc)) ?p (xs_tx ?s5) = Some (at ?a (length ?pc + length hs), b)"
    "seg ?a (headed skb ?d # tl ?pc @ hs) b" "only_descs (xs_tx ?s5) b" "length hs = header_slots ?n"
    "take ?n (drop 2 (concat (map desc_bytes hs))) = (if hs = [] then [] else wire_bytes skb ?n)"
    using copy_headers_spec [OF seg5 assms(1) _ room5 hok] unfolding len list.sel hl by auto
  have hs2: "length hs \<le> 2" using h(4) by (simp add: header_slots_def)
  have len3: "length (headed skb ?d # tl ?pc @ hs) = length ?pc + length hs" using len by simp
  have buf: "cmd_buf_arr b = Some (bufs[?p := filled_slot e (xs_portnum s) skb dma bl (bufs ! ?p)])"
    using p5 only_descs_fields(1) [OF h(3)] bufs by (simp add: posting_def)
  have fl: "length (fragArray (bufs ! ?p)) = MAX_BUFFERS_PER_CMD + 1"
    using assms(1,2) bufs by (auto simp: frag_arrays_def ring_inv_def list_all_length)
  have bok: "bufs_ok b"
    by (rule bufs_ok_slot [OF assms(1) bufs buf])
      (use h(2) fl assms(3) in \<open>simp_all add: seg_def buf_ok_def filled_slot_fields\<close>)
  let ?c = "b\<lparr>cmdProducer := at ?a (length ?pc + length hs)\<rparr>"
  have g1: "in_flight ?a + length (headed skb ?d # tl ?pc @ hs) < MaxTxDescCount ?a" using room5 hs2 unfolding len3 len by linarith
  have g2: "?c = b\<lparr>cmdProducer := at ?a (length (headed skb ?d # tl ?pc @ hs))\<rparr>" unfolding len3 ..
  have com: "ring_inv ?c \<and> ring_contents ?c = ring_contents ?a @ (headed skb ?d # tl ?pc @ hs) \<and>
      in_flight ?c = in_flight ?a + length (headed skb ?d # tl ?pc @ hs) \<and> pending_cmds ?c = pending_cmds ?a"
    by (rule seg_commit [OF h(2) assms(1) g1 bok g2])
  let ?s' = "?s5\<lparr>xs_tx := unm_nic_update_cmd_producer ?c (at ?a (length ?pc + length hs)),
      xs_txbytes := xs_txbytes ?s5 + d_totalLength (cmdDescHead b ! ?p), xs_xmitcalled := xs_xmitcalled ?s5 + 1\<rparr>"
  have res: "xmit_post e tagged skb s = Some ?s'" unfolding r Let_def h(1) by simp
  have ev: "tx_events (unm_nic_update_cmd_producer ?c x) = tx_events ?a" for x
    using p5 only_descs_fields(2) [OF h(3)] by (simp add: unm_nic_update_cmd_producer_def posting_def)
  have lg: "xs_log ?s' = xs_log s @ Map_single dma (sk_len skb - sk_data_len skb) # map (\<lambda>(d, l). Map_page d l) bl"
    using p5 by (simp add: posting_def)
  have "posted e tagged skb dma bl hs s ?s'"
    unfolding posted_def Let_def using com h(2,4,5) ev lg buf bufs by (simp add: seg_def)
  then show ?thesis using res by blast
qed


subsection \<open>Properties\<close>

definition xmit_tag :: "xmit_env \<Rightarrow> sk_buff \<Rightarrow> nat" where
  "xmit_tag e skb = (if xe_hw_vlan e then 0 else is_packet_tagged skb)"

text \<open>What the driver relies on of \<open>__pskb_pull_tail\<close>: pulling the bytes of the first \<open>n\<close> fragments removes at least those
  fragments, and it is the same packet.\<close>

definition pull_ok :: "xmit_env \<Rightarrow> bool" where
  "pull_ok e \<longleftrightarrow> (\<forall>skb n p. n \<le> length (sk_frags skb) \<longrightarrow> xe_pull e skb (sum_list (map f_size (take n (sk_frags skb)))) = Some p \<longrightarrow>
     length (sk_frags p) + n \<le> length (sk_frags skb) \<and> sk_id p = sk_id skb \<and> sk_len p = sk_len skb)"

lemma tag_le: "xmit_tag e skb \<le> 1"
  by (simp add: xmit_tag_def is_packet_tagged_def)

lemma pull_excess_bound:
  assumes "pull_ok e" "pull_excess e (xmit_tag e skb) skb = Some p"
  shows "length (sk_frags p) < NX_NIC_MAX_SG_PER_TX \<and> sk_id p = sk_id skb \<and> sk_len p = sk_len skb"
proof (cases "NX_NIC_MAX_SG_PER_TX - xmit_tag e skb < Suc (length (sk_frags skb))")
  case True
  have m: "13 \<le> NX_NIC_MAX_SG_PER_TX - xmit_tag e skb" "NX_NIC_MAX_SG_PER_TX - xmit_tag e skb \<le> 14"
    using tag_le [of e skb] by (simp_all add: NX_NIC_MAX_SG_PER_TX_def MAX_BUFFERS_PER_CMD_def)
  let ?n = "Suc (length (sk_frags skb)) - (NX_NIC_MAX_SG_PER_TX - xmit_tag e skb)"
  have "xe_pull e skb (sum_list (map f_size (take ?n (sk_frags skb)))) = Some p"
    using assms(2) True by (simp add: pull_excess_def Let_def)
  moreover have "?n \<le> length (sk_frags skb)" using m by linarith
  ultimately have "length (sk_frags p) + ?n \<le> length (sk_frags skb) \<and> sk_id p = sk_id skb \<and> sk_len p = sk_len skb"
    using assms(1) unfolding pull_ok_def by blast
  then show ?thesis using m True by (auto simp: NX_NIC_MAX_SG_PER_TX_def MAX_BUFFERS_PER_CMD_def)
next
  case False
  then show ?thesis using assms(2) by (auto simp: pull_excess_def Let_def)
qed

lemma room_for_packet:
  assumes "ring_inv a" "\<not> ring_full a (slots_for skb + 2)"
  shows "in_flight a + slots_for skb + 2 < MaxTxDescCount a"
  using assms by (simp add: ring_full_iff)

lemma note_xmit_tx [simp]: "xs_tx (note_xmit l s) = xs_tx s" "xs_portnum (note_xmit l s) = xs_portnum s" "xs_log (note_xmit l s) = xs_log s @ [l]"
  by (simp_all add: note_xmit_def)

text \<open>C3 A packet that finds the link up, room in the ring and its memory mapped, and whose headers, if it is to be segmented, are between 21
  and 126 bytes long (\<open>headers_fit\<close>: what fits in the two descriptors reserved for them), is appended to what is in flight, in as many descriptors
  as it has groups of four buffers and up to two more for its headers. The card finds in them the linear part and the fragments in
  order, the packet's length and the number of its buffers; of a packet to be segmented it finds the headers as they go to the wire,
  the tag kept beside the packet included. Nothing in flight is overwritten.\<close>

theorem xmit_frame_posts:
  assumes "ring_inv (xs_tx s)" "frag_arrays (xs_tx s)" "sk_len skb \<noteq> 0" "pull_ok e" "pull_excess e (xmit_tag e skb) skb = Some p"
    "xe_carrier e \<or> xe_loopback e" "\<not> ring_full (xs_tx s) (slots_for p + 2)" "headers_fit e (xmit_tag e skb) p"
    "xe_map_single e p (sk_len p - sk_data_len p) = Some dma" "map_frags e 1 (sk_frags p) = (bl, True)"
  shows "case unm_nic_xmit_frame e skb s of
      None \<Rightarrow> False
    | Some (rv, s') \<Rightarrow> rv = NETDEV_TX_OK \<and> ring_inv (xs_tx s') \<and> pending_cmds (xs_tx s') = pending_cmds (xs_tx s) \<and>
        (let n = (if segmented e (xmit_tag e skb) p then nat (lso_len (xmit_tag e skb) p) else 0) in
         \<exists>ds. ring_contents (xs_tx s') = ring_contents (xs_tx s) @ ds \<and> length ds = slots_for p + header_slots n \<and>
           packet_buffers (Suc (length (sk_frags p))) ds =
             map (\<lambda>(a, l). (a, ucast l AND mask 16)) ((dma, sk_len p - sk_data_len p) # bl) \<and>
           d_totalLength (hd ds) = ucast (sk_len skb) AND mask 24 \<and> d_numOfBuffers (hd ds) = of_nat (Suc (length (sk_frags p))) AND mask 8 \<and>
           take n (drop 2 (concat (map desc_bytes (drop (slots_for p) ds)))) = (if n = 0 then [] else wire_bytes p n))"
proof -
  let ?t = "xmit_tag e skb" and ?n = "if segmented e (xmit_tag e skb) p then nat (lso_len (xmit_tag e skb) p) else 0"
  let ?s = "note_xmit Lock_tx s" and ?len = "sk_len p - sk_data_len p"
  let ?pc = "packet_chain e (xs_portnum s) p dma bl"
  have b: "length (sk_frags p) < NX_NIC_MAX_SG_PER_TX" "sk_len p = sk_len skb" using pull_excess_bound [OF assms(4,5)] by simp_all
  then have "length (sk_frags p) \<le> MAX_BUFFERS_PER_CMD" by (simp add: NX_NIC_MAX_SG_PER_TX_def)
  moreover note room_for_packet [OF assms(1,7)]
  ultimately obtain s1 hs where s1: "xmit_post e ?t p ?s = Some s1" "posted e ?t p dma bl hs ?s s1"
    using xmit_post_posted [of ?s p e ?t dma bl] assms(1,2,8-10) by auto
  have r: "unm_nic_xmit_frame e skb s = Some (NETDEV_TX_OK, note_xmit Unlock_tx s1)"
    using assms(3,5,6,7) s1(1) unfolding unm_nic_xmit_frame_def xmit_tag_def [symmetric] Let_def
    by (auto simp: xmit_locked_def slots_for_def)
  note cf = packet_chain_fields [of e "xs_portnum s" p dma bl]
  define d where "d = headed p (offloaded ?t p (hd ?pc))"
  have same: "same_buffers (hd ?pc) d" by (simp add: d_def)
  have ch: "packet_buffers (Suc (length bl)) ?pc = (dma, ucast ?len AND mask 16) # map (\<lambda>(a, l). (a, ucast l AND mask 16)) bl"
    "length ?pc = (Suc (length bl) + 3) div 4"
  proof -
    let ?d = "first_desc p (xs_portnum s) dma ?len (set_word2 16 16 (ucast (xmit_mss e p)) zero_desc)"
    have "packet_buffers 1 [?d] = [(dma, ucast ?len AND mask 16)]"
      by (simp add: packet_buffers_def first_desc_def set_buffer_get)
    then show "packet_buffers (Suc (length bl)) ?pc = (dma, ucast ?len AND mask 16) # map (\<lambda>(a, l). (a, ucast l AND mask 16)) bl"
      "length ?pc = (Suc (length bl) + 3) div 4"
      using chain_buffers [of "[?d]" 1 1 bl] by (simp_all add: packet_chain_def)
  qed
  have nb: "length bl = length (sk_frags p)" using length_map_frags [OF assms(10)] by simp
  have lpc: "length ?pc = slots_for p" using ch(2) nb by (simp add: slots_for_def)
  have cnt: "Suc (length (sk_frags p)) \<le> 4 * length ?pc" using ch(2) nb by simp
  have pb: "packet_buffers (Suc (length (sk_frags p))) (d # tl ?pc @ hs) = packet_buffers (Suc (length bl)) ?pc"
    using same_buffers_packet [OF same cf(3) cnt, of hs] nb by simp
  have P: "ring_inv (xs_tx s1)" "ring_contents (xs_tx s1) = ring_contents (xs_tx s) @ (d # tl ?pc @ hs)" "pending_cmds (xs_tx s1) = pending_cmds (xs_tx s)"
    "length hs = header_slots ?n" "take ?n (drop 2 (concat (map desc_bytes hs))) = (if hs = [] then [] else wire_bytes p ?n)"
    using s1(2) by (simp_all add: posted_def Let_def d_def)
  have n0: "hs = [] \<longleftrightarrow> ?n = 0"
  proof -
    have "hs = [] \<longleftrightarrow> header_slots ?n = 0" using P(4) by (metis length_0_conv)
    then show ?thesis by (simp only: header_slots_def) simp
  qed
  have dr: "drop (slots_for p) (d # tl ?pc @ hs) = hs" using lpc [symmetric] cf(3) by (cases ?pc) auto
  have ln: "length (d # tl ?pc @ hs) = slots_for p + header_slots ?n" using lpc cf(3) P(4) by (cases ?pc) simp_all
  have hdr: "take ?n (drop 2 (concat (map desc_bytes (drop (slots_for p) (d # tl ?pc @ hs))))) = (if ?n = 0 then [] else wire_bytes p ?n)"
    unfolding dr P(5) n0 ..
  have hd: "d_totalLength d = ucast (sk_len skb) AND mask 24" "d_numOfBuffers d = of_nat (Suc (length (sk_frags p))) AND mask 8"
    using same cf(4,5) b(2) by (simp_all add: same_buffers_def)
  have "\<exists>ds. ring_contents (xs_tx s1) = ring_contents (xs_tx s) @ ds \<and> length ds = slots_for p + header_slots ?n \<and>
           packet_buffers (Suc (length (sk_frags p))) ds =
             map (\<lambda>(a, l). (a, ucast l AND mask 16)) ((dma, sk_len p - sk_data_len p) # bl) \<and>
           d_totalLength (hd ds) = ucast (sk_len skb) AND mask 24 \<and> d_numOfBuffers (hd ds) = of_nat (Suc (length (sk_frags p))) AND mask 8 \<and>
           take ?n (drop 2 (concat (map desc_bytes (drop (slots_for p) ds)))) = (if ?n = 0 then [] else wire_bytes p ?n)"
    by (intro exI [of _ "d # tl ?pc @ hs"] conjI; (rule P(2) ln hdr)?) (simp_all add: pb ch(1) hd del: of_nat_Suc)
  then show ?thesis unfolding r option.case prod.case Let_def using P(1,3) by simp
qed


text \<open>A packet of 160 bytes, 60 in the linear part and 100 in a fragment, neither tagged nor segmented.\<close>

definition ex_skb :: sk_buff where
  "ex_skb = \<lparr>sk_id = 9, sk_byte = (\<lambda>i. 0), sk_len = 160, sk_data_len = 100, sk_frags = [\<lparr>f_page = 5, f_offset = 0, f_size = 100\<rparr>], sk_gso = 0,
     sk_csum_hw = False, sk_protocol = 0x0800, sk_nh = 14, sk_th = 34, sk_vlan = None\<rparr>"

definition ex_env :: xmit_env where
  "ex_env = \<lparr>xe_pull = (\<lambda>_ _. None), xe_map_single = (\<lambda>_ _. Some 0x1000), xe_map_page = (\<lambda>_ _. Some 0x2000), xe_carrier = True,
     xe_loopback = False, xe_tso = True, xe_hw_vlan = False\<rparr>"

definition ex_xmit :: xmit_state where
  "ex_xmit = \<lparr>xs_tx = sample_adapter, xs_portnum = 0, xs_txbytes = 0, xs_txdropped = 0, xs_xmitcalled = 0, xs_badskblen = 0, xs_log = []\<rparr>"

lemma ex_xmit_facts:
  "ring_inv (xs_tx ex_xmit)" "frag_arrays (xs_tx ex_xmit)" "sk_len ex_skb \<noteq> 0" "xmit_tag ex_env ex_skb = 0"
  "slots_for ex_skb = 1" "\<not> ring_full (xs_tx ex_xmit) (slots_for ex_skb + 2)" "ring_contents (xs_tx ex_xmit) = []"
  using sample_inv
  by (simp_all add: ex_xmit_def ex_skb_def frag_arrays_def sample_adapter_def MAX_BUFFERS_PER_CMD_def xmit_tag_def ex_env_def
      is_packet_tagged_def sk_be16_def ETH_P_8021Q_def slots_for_def ring_full_def ring_contents_def in_flight_def list_all_length)

lemma ex_tag [simp]: "xmit_tag ex_env (ex_skb\<lparr>sk_frags := fs\<rparr>) = 0"
  by (simp add: xmit_tag_def is_packet_tagged_def sk_be16_def ETH_P_8021Q_def ex_skb_def)

theorem xmit_frame_posts_witness:
  "\<exists>s' ds. unm_nic_xmit_frame ex_env ex_skb ex_xmit = Some (NETDEV_TX_OK, s') \<and> ring_contents (xs_tx s') = ds \<and> length ds = 1 \<and>
     packet_buffers (Suc 1) ds = [(0x1000, 60), (0x2000, 100)]"
proof -
  have m: "map_frags ex_env 1 (sk_frags ex_skb) = ([(0x2000, 100)], True)" "xe_map_single ex_env ex_skb (sk_len ex_skb - sk_data_len ex_skb) = Some 0x1000"
    by (simp_all add: ex_env_def ex_skb_def)
  have ns: "\<not> segmented ex_env 0 ex_skb" "sk_len ex_skb - sk_data_len ex_skb = 60" "length (sk_frags ex_skb) = 1"
    by (simp_all add: segmented_def xmit_mss_def ex_skb_def)
  have "pull_ok ex_env" by (simp add: pull_ok_def ex_env_def)
  moreover have "pull_excess ex_env (xmit_tag ex_env ex_skb) ex_skb = Some ex_skb"
    by (simp add: ex_xmit_facts(4) pull_excess_def ns NX_NIC_MAX_SG_PER_TX_def MAX_BUFFERS_PER_CMD_def)
  moreover have "xe_carrier ex_env \<or> xe_loopback ex_env" by (simp add: ex_env_def)
  moreover have "\<not> ring_full (xs_tx ex_xmit) (slots_for ex_skb + 2)" by (rule ex_xmit_facts(6))
  moreover have "headers_fit ex_env (xmit_tag ex_env ex_skb) ex_skb" by (simp add: headers_fit_def ns ex_xmit_facts(4))
  moreover note ex_xmit_facts(1-3) m
  ultimately show ?thesis
    using xmit_frame_posts [where s = ex_xmit and skb = ex_skb and e = ex_env and p = ex_skb and dma = "0x1000" and bl = "[(0x2000, 100)]"]
    by (auto simp: ex_xmit_facts ns Let_def header_slots_def mask_eq_exp_minus_1 split: option.splits)
qed

text \<open>The lock is given back without having been taken when too many fragments cannot be pulled together: the routine drops the
  packet before it takes the transmit lock and leaves through the common exit, which unlocks it.\<close>

theorem xmit_unlocks_without_lock:
  assumes "sk_len skb \<noteq> 0" "pull_excess e (xmit_tag e skb) skb = None"
  shows "case unm_nic_xmit_frame e skb s of
      None \<Rightarrow> False
    | Some (rv, s') \<Rightarrow> rv = NETDEV_TX_OK \<and> xs_log s' = xs_log s @ [Unlock_tx] \<and> tx_events (xs_tx s') = tx_events (xs_tx s) @ [Free_skb (sk_id skb)]"
  using assms by (simp add: unm_nic_xmit_frame_def xmit_tag_def [symmetric] drop_packet_def emit_tx_def on_tx_def note_xmit_def)

theorem xmit_unlocks_without_lock_witness:
  "\<exists>s'. unm_nic_xmit_frame ex_env (ex_skb\<lparr>sk_frags := replicate 14 \<lparr>f_page = 5, f_offset = 0, f_size = 100\<rparr>\<rparr>) ex_xmit = Some (NETDEV_TX_OK, s') \<and>
     xs_log s' = [Unlock_tx]"
proof -
  let ?skb = "ex_skb\<lparr>sk_frags := replicate 14 \<lparr>f_page = 5, f_offset = 0, f_size = 100\<rparr>\<rparr>"
  have "pull_excess ex_env (xmit_tag ex_env ?skb) ?skb = None"
    by (simp add: pull_excess_def NX_NIC_MAX_SG_PER_TX_def MAX_BUFFERS_PER_CMD_def Let_def) (simp add: ex_env_def)
  moreover have "sk_len ?skb \<noteq> 0" by (simp add: ex_skb_def)
  ultimately show ?thesis
    using xmit_unlocks_without_lock [of ?skb ex_env ex_xmit] by (auto simp: ex_xmit_def split: option.splits)
qed

text \<open>A packet whose memory cannot be mapped is freed at once, but its slot still points to it: when the adapter goes down it is
  freed again.\<close>

theorem dropped_packet_freed_twice:
  assumes "ring_inv (xs_tx s)" "sk_len skb \<noteq> 0" "pull_excess e (xmit_tag e skb) skb = Some p"
    "xe_carrier e \<or> xe_loopback e" "\<not> ring_full (xs_tx s) (slots_for p + 2)" "xe_map_single e p (sk_len p - sk_data_len p) = None"
  shows "case unm_nic_xmit_frame e skb s of
      None \<Rightarrow> False
    | Some (rv, s') \<Rightarrow> rv = NETDEV_TX_OK \<and> tx_events (xs_tx s') = tx_events (xs_tx s) @ [Free_skb (sk_id p)] \<and>
        (\<exists>es. tx_events (nx_free_tx_resources (xs_tx s')) = tx_events (xs_tx s') @ es \<and> Free_skb (sk_id p) \<in> set es)"
proof -
  let ?p = "cmdProducer (xs_tx s)" and ?s = "note_xmit Lock_tx s"
  obtain bufs where bufs: "cmd_buf_arr (xs_tx s) = Some bufs" "length bufs = MaxTxDescCount (xs_tx s)" "?p < length bufs"
    using assms(1) by (auto simp: ring_inv_def)
  define b where "b = claim_slot p (xmit_mss e p) (xs_portnum s) (bufs ! ?p)"
  define s1 where "s1 = on_tx (\<lambda>a. on_buf ?p (claim_slot p (xmit_mss e p) (xs_portnum s))
       (on_desc ?p (\<lambda>_. set_word2 16 16 (ucast (xmit_mss e p)) zero_desc) a)) ?s"
  have p1: "posting ?s [set_word2 16 16 (ucast (xmit_mss e p)) zero_desc] b [] [] s1"
    using xmit_start [of ?s bufs e p] assms(1) bufs(1) room_for_packet [OF assms(1,5)] by (simp add: s1_def b_def)
  have "xmit_post e (xmit_tag e skb) p ?s = Some (drop_packet p s1)"
    using p1 bufs(1) assms(6)
    unfolding xmit_post_def Let_def xmit_mss_def [symmetric] try_map_skb_data_def assms(6) option.case prod.case note_xmit_tx s1_def [symmetric]
    by (simp add: posting_def)
  then have r: "unm_nic_xmit_frame e skb s = Some (NETDEV_TX_OK, note_xmit Unlock_tx (drop_packet p s1))"
    using assms(2-5) unfolding unm_nic_xmit_frame_def xmit_tag_def [symmetric] Let_def by (auto simp: xmit_locked_def slots_for_def)
  let ?a = "xs_tx (note_xmit Unlock_tx (drop_packet p s1))"
  have a: "tx_events ?a = tx_events (xs_tx s) @ [Free_skb (sk_id p)]" "cmd_buf_arr ?a = Some (bufs[?p := b])" "MaxTxDescCount ?a = MaxTxDescCount (xs_tx s)"
    using p1 bufs(1) by (simp_all add: posting_def drop_packet_def emit_tx_def on_tx_def seg_def)
  have "b \<in> set (bufs[?p := b])" using bufs(3) by (rule set_update_memI)
  moreover have "Free_skb (sk_id p) \<in> set (fst (free_slot b))" by (simp add: free_slot_def b_def claim_slot_def Let_def)
  ultimately have "\<exists>es. tx_events (nx_free_tx_resources ?a) = tx_events ?a @ es \<and> Free_skb (sk_id p) \<in> set es"
    using a bufs(2) by (force simp: nx_free_tx_resources_def Let_def)
  then show ?thesis using r a(1) by simp
qed

theorem dropped_packet_freed_twice_witness:
  "\<exists>s' es. unm_nic_xmit_frame (ex_env\<lparr>xe_map_single := \<lambda>_ _. None\<rparr>) ex_skb ex_xmit = Some (NETDEV_TX_OK, s') \<and>
     tx_events (xs_tx s') = [Free_skb 9] \<and> tx_events (nx_free_tx_resources (xs_tx s')) = [Free_skb 9] @ es \<and> Free_skb 9 \<in> set es"
proof -
  let ?e = "ex_env\<lparr>xe_map_single := \<lambda>_ _. None\<rparr>"
  have t: "xmit_tag ?e ex_skb = 0" using ex_xmit_facts(4) by (simp add: xmit_tag_def ex_env_def)
  have "pull_excess ?e (xmit_tag ?e ex_skb) ex_skb = Some ex_skb"
    by (simp add: t pull_excess_def NX_NIC_MAX_SG_PER_TX_def MAX_BUFFERS_PER_CMD_def) (simp add: ex_skb_def)
  moreover have "xe_carrier ?e \<or> xe_loopback ?e" by (simp add: ex_env_def)
  moreover have "xe_map_single ?e ex_skb (sk_len ex_skb - sk_data_len ex_skb) = None" by simp
  moreover have "sk_id ex_skb = 9" "tx_events (xs_tx ex_xmit) = []" by (simp_all add: ex_skb_def ex_xmit_def sample_adapter_def)
  moreover note ex_xmit_facts(1,3,6)
  ultimately show ?thesis
    using dropped_packet_freed_twice [of ex_xmit ex_skb ?e ex_skb] by (auto split: option.splits)
qed

text \<open>What a completed packet was mapped at is unmapped when its slot is reclaimed, but the addresses stay in the slot: when the
  adapter goes down the linear part of every completed packet is unmapped again.\<close>

theorem completed_packet_unmapped_twice:
  assumes "cmd_buf_arr a = Some bufs" "length bufs = MaxTxDescCount a" "i < length bufs" "cb_skb (bufs ! i) = Some k" "buf_ok (bufs ! i)"
    "frag_dma (fragArray (bufs ! i) ! 0) \<noteq> 0"
  shows "case reclaim_slot a i of
      None \<Rightarrow> False
    | Some b \<Rightarrow> (let u = Unmap_single (frag_dma (fragArray (bufs ! i) ! 0)) (frag_length (fragArray (bufs ! i) ! 0)) in
        \<exists>es fs. tx_events b = tx_events a @ es \<and> u \<in> set es \<and> tx_events (nx_free_tx_resources b) = tx_events b @ fs \<and> u \<in> set fs)"
proof -
  let ?b = "bufs ! i" and ?u = "Unmap_single (frag_dma (fragArray (bufs ! i) ! 0)) (frag_length (fragArray (bufs ! i) ! 0))"
  have l: "max 1 (cb_fragCount ?b) \<le> length (fragArray ?b)" using assms(4,5) by (simp add: buf_ok_def)
  obtain a' where r: "reclaim_slot a i = Some a'" "cmd_buf_arr a' = Some (bufs[i := ?b\<lparr>cb_skb := None\<rparr>])" "MaxTxDescCount a' = MaxTxDescCount a"
    "\<exists>es. tx_events a' = tx_events a @ es \<and> ?u \<in> set es"
  proof -
    have "(length (fragArray ?b) < max (Suc 0) (cb_fragCount ?b)) = False" using l by auto
    then show ?thesis using assms(1,3,4) that by (simp add: reclaim_slot_def Let_def)
  qed
  obtain f fs where f: "fragArray ?b = f # fs" using l by (cases "fragArray ?b") auto
  have "?u \<in> set (fst (free_slot (?b\<lparr>cb_skb := None\<rparr>)))"
    using assms(6) by (simp add: free_slot_def Let_def f upt_conv_Cons del: upt_Suc)
  moreover have "?b\<lparr>cb_skb := None\<rparr> \<in> set (bufs[i := ?b\<lparr>cb_skb := None\<rparr>])" using assms(3) by (rule set_update_memI)
  ultimately have "\<exists>fs. tx_events (nx_free_tx_resources a') = tx_events a' @ fs \<and> ?u \<in> set fs"
    using r(2,3) assms(2) by (force simp: nx_free_tx_resources_def Let_def)
  then show ?thesis using r(1,4) by (auto simp: Let_def)
qed

theorem completed_packet_unmapped_twice_witness:
  "\<exists>b. reclaim_slot (sample_adapter\<lparr>cmd_buf_arr := Some (replicate 4 \<lparr>cb_skb = Some 9, fragArray = replicate 17 \<lparr>frag_dma = 0x1000, frag_length = 60\<rparr>,
        cb_totalLength = 0, cb_mss = 0, cb_port = 0, cb_cmd = 0, cb_fragCount = 1\<rparr>)\<rparr>) 3 = Some b \<and>
     (\<exists>es fs. tx_events b = es \<and> Unmap_single 0x1000 60 \<in> set es \<and> tx_events (nx_free_tx_resources b) = tx_events b @ fs \<and> Unmap_single 0x1000 60 \<in> set fs)"
proof -
  let ?c = "\<lparr>cb_skb = Some 9, fragArray = replicate 17 \<lparr>frag_dma = 0x1000, frag_length = 60\<rparr>,
        cb_totalLength = 0, cb_mss = 0, cb_port = 0, cb_cmd = 0, cb_fragCount = 1\<rparr>"
  let ?a = "sample_adapter\<lparr>cmd_buf_arr := Some (replicate 4 ?c)\<rparr>"
  have f: "cmd_buf_arr ?a = Some (replicate 4 ?c)" "length (replicate 4 ?c) = MaxTxDescCount ?a" "3 < length (replicate 4 ?c)"
    "cb_skb (replicate 4 ?c ! 3) = Some 9" "buf_ok (replicate 4 ?c ! 3)" "frag_dma (fragArray (replicate 4 ?c ! 3) ! 0) \<noteq> 0"
    by (simp_all add: sample_adapter_def buf_ok_def)
  have "fragArray (replicate 4 ?c ! 3) ! 0 = \<lparr>frag_dma = 0x1000, frag_length = 60\<rparr>" "tx_events ?a = []" by (simp_all add: sample_adapter_def)
  then show ?thesis using completed_packet_unmapped_twice [OF f] by (auto simp: Let_def split: option.splits)
qed

end
