(* ===== verification/TxOwner.thy ===== *)
theory TxOwner
  imports TxFrame "HOL-Library.Multiset"
begin

text \<open>
  Who has to free a packet. The transmit path as a whole - \<open>unm_nic_xmit_frame\<close>, \<open>nx_nic_send_cmd_descs\<close>,
  \<open>unm_proc_pending_cmd_desc\<close> and \<open>unm_process_cmd_ring\<close> of \<open>driver/unm_nic_main.c\<close> on one adapter, in any order - frees each packet
  it was given exactly once: when it drops it, or when the card has completed it. In between the packet is held by the slot of
  its first descriptor.
\<close>

subsection \<open>Held and freed packets\<close>

definition slot_skb :: "tx_adapter \<Rightarrow> nat \<Rightarrow> nat option" where
  "slot_skb a j = (case cmd_buf_arr a of None \<Rightarrow> None | Some bs \<Rightarrow> cb_skb (bs ! ((lastCmdConsumer a + j) mod MaxTxDescCount a)))"

definition held :: "tx_adapter \<Rightarrow> nat list" where
  "held a = concat (map (\<lambda>j. case slot_skb a j of None \<Rightarrow> [] | Some k \<Rightarrow> [k]) [0..<in_flight a])"

definition freed :: "tx_event list \<Rightarrow> nat list" where
  "freed es = concat (map (\<lambda>e. case e of Free_skb k \<Rightarrow> [k] | _ \<Rightarrow> []) es)"

lemma freed_simps [simp]:
  "freed [] = []" "freed (es @ fs) = freed es @ freed fs" "freed (Free_skb k # es) = k # freed es"
  "freed (Unmap_single d l # es) = freed es" "freed (Unmap_page d l # es) = freed es"
  by (simp_all add: freed_def)

lemma freed_unmaps [simp]: "freed (map (\<lambda>j. Unmap_page (f j) (g j)) js) = []"
  by (induction js) simp_all

lemma freed_clean [simp]: "freed (netxen_clean_tx_dma_mapping b n) = []"
  by (simp add: netxen_clean_tx_dma_mapping_def)

text \<open>The slots behind the producer's hold nothing; what was given is freed or held. The producer's own slot may still point to a
  packet that was dropped.\<close>

definition own :: "tx_adapter \<Rightarrow> nat list \<Rightarrow> bool" where
  "own a g \<longleftrightarrow> ring_inv a \<and> frag_arrays a \<and> (\<forall>j. in_flight a < j \<and> j < MaxTxDescCount a \<longrightarrow> slot_skb a j = None) \<and>
     mset (freed (tx_events a)) + mset (held a) = mset g"

lemma held_cong: "in_flight a = in_flight b \<Longrightarrow> (\<And>j. j < in_flight b \<Longrightarrow> slot_skb a j = slot_skb b j) \<Longrightarrow> held a = held b"
proof -
  assume a: "in_flight a = in_flight b" "\<And>j. j < in_flight b \<Longrightarrow> slot_skb a j = slot_skb b j"
  have "map (\<lambda>j. case slot_skb a j of None \<Rightarrow> [] | Some k \<Rightarrow> [k]) [0..<in_flight b] =
      map (\<lambda>j. case slot_skb b j of None \<Rightarrow> [] | Some k \<Rightarrow> [k]) [0..<in_flight b]" using a(2) by simp
  then show ?thesis unfolding held_def a(1) by (simp only:)
qed

lemma held_more:
  assumes "in_flight b = in_flight a + n" "\<And>j. j < in_flight a \<Longrightarrow> slot_skb b j = slot_skb a j"
    "\<And>j. in_flight a \<le> j \<Longrightarrow> j < in_flight a + n \<Longrightarrow> slot_skb b j = f j"
  shows "held b = held a @ concat (map (\<lambda>j. case f j of None \<Rightarrow> [] | Some k \<Rightarrow> [k]) [in_flight a..<in_flight a + n])"
proof -
  have u: "[0..<in_flight a + n] = [0..<in_flight a] @ [in_flight a..<in_flight a + n]" by (rule upt_split) simp_all
  have 1: "map (\<lambda>j. case slot_skb b j of None \<Rightarrow> [] | Some k \<Rightarrow> [k]) [0..<in_flight a] =
      map (\<lambda>j. case slot_skb a j of None \<Rightarrow> [] | Some k \<Rightarrow> [k]) [0..<in_flight a]" using assms(2) by simp
  have 2: "map (\<lambda>j. case slot_skb b j of None \<Rightarrow> [] | Some k \<Rightarrow> [k]) [in_flight a..<in_flight a + n] =
      map (\<lambda>j. case f j of None \<Rightarrow> [] | Some k \<Rightarrow> [k]) [in_flight a..<in_flight a + n]" using assms(3) by simp
  show ?thesis unfolding held_def assms(1) u by (simp add: 1 2 del: upt_Suc)
qed

subsection \<open>Posting commands\<close>

lemma post_descs_bufs:
  assumes "post_descs c a ((s + m) mod n) ds = (b, i)" "n = MaxTxDescCount a" "cmd_buf_arr a = Some bs" "length bs = n" "m + length ds < n"
    "frag_arrays a"
  shows "\<exists>cs. cmd_buf_arr b = Some cs \<and> length cs = n \<and> frag_arrays b \<and> tx_events b = tx_events a \<and>
    (\<forall>j < n. cb_skb (cs ! ((s + j) mod n)) = (if m \<le> j \<and> j < m + length ds then None else cb_skb (bs ! ((s + j) mod n))))"
  using assms
proof (induction ds arbitrary: a m bs)
  case Nil
  then show ?case by auto
next
  case (Cons d ds)
  let ?i = "(s + m) mod n"
  define a1 where "a1 = post_slot c a ?i d"
  define bs1 where "bs1 = bs[?i := (bs ! ?i)\<lparr>cb_mss := 0, cb_totalLength := 0, cb_skb := None, cb_cmd := c, cb_fragCount := 0, cb_port := 0\<rparr>]"
  have i: "?i < n" using Cons.prems(5) by (cases n) simp_all
  have nx: "get_next_index ?i (MaxTxDescCount a) = (s + Suc m) mod n"
    using get_next_index_mod [OF i] Cons.prems(2) by (simp add: mod_simps)
  have p: "post_descs c a1 ((s + Suc m) mod n) ds = (b, i)" using Cons.prems(1) by (simp add: nx a1_def)
  have bs1: "cmd_buf_arr a1 = Some bs1" "length bs1 = n" "MaxTxDescCount a1 = n" "tx_events a1 = tx_events a"
    using Cons.prems(2-4) by (simp_all add: a1_def bs1_def post_slot_def)
  have f1: "frag_arrays a1"
    using Cons.prems(3,4,6) bs1(1) i by (auto simp: frag_arrays_def bs1_def list_all_length nth_list_update)
  have "Suc m + length ds < n" using Cons.prems(5) by simp
  from Cons.IH [OF p bs1(3) [symmetric] bs1(1,2) this f1] obtain cs where
    cs: "cmd_buf_arr b = Some cs" "length cs = n" "frag_arrays b" "tx_events b = tx_events a"
    "\<forall>j < n. cb_skb (cs ! ((s + j) mod n)) = (if Suc m \<le> j \<and> j < Suc m + length ds then None else cb_skb (bs1 ! ((s + j) mod n)))"
    using bs1(4) by auto
  have "cb_skb (bs1 ! ((s + j) mod n)) = (if j = m then None else cb_skb (bs ! ((s + j) mod n)))" if "j < n" for j
  proof -
    have "?i = (s + j) mod n \<longleftrightarrow> m = j"
      using ring_index_inject [of j m n s] ring_index_inject [of m j n s] that Cons.prems(5) by (metis add_lessD1 nat_neq_iff)
    then show ?thesis using i Cons.prems(4) by (auto simp: bs1_def nth_list_update)
  qed
  then have "\<forall>j < n. cb_skb (cs ! ((s + j) mod n)) = (if m \<le> j \<and> j < m + length (d # ds) then None else cb_skb (bs ! ((s + j) mod n)))"
    using cs(5) by auto
  then show ?case using cs(1-4) by blast
qed

text \<open>Commands posted at the producer hold no packet.\<close>

lemma own_post:
  assumes "own a g" "post_descs c a (cmdProducer a) ds = (a', i')" "in_flight a + length ds < MaxTxDescCount a"
  shows "own (a'\<lparr>cmdProducer := i'\<rparr>) g"
proof -
  let ?b = "a'\<lparr>cmdProducer := i'\<rparr>" and ?n = "MaxTxDescCount a" and ?c = "lastCmdConsumer a"
  have inv: "ring_inv a" using assms(1) by (simp add: own_def)
  obtain bs where bs: "cmd_buf_arr a = Some bs" "length bs = ?n" using inv by (auto simp: ring_inv_def)
  have p: "post_descs c a ((?c + in_flight a) mod ?n) ds = (a', i')" using assms(2) producer_eq [OF inv] by simp
  obtain cs where cs: "cmd_buf_arr a' = Some cs" "frag_arrays a'" "tx_events a' = tx_events a"
    "\<forall>j < ?n. cb_skb (cs ! ((?c + j) mod ?n)) = (if in_flight a \<le> j \<and> j < in_flight a + length ds then None else cb_skb (bs ! ((?c + j) mod ?n)))"
    using post_descs_bufs [OF p refl bs assms(3)] assms(1) by (auto simp: own_def)
  note fr = post_descs_frame [OF assms(2)]
  note pb = post_at_producer [OF inv assms(2,3) refl]
  have sl: "slot_skb ?b j = (if in_flight a \<le> j \<and> j < in_flight a + length ds then None else slot_skb a j)" if "j < ?n" for j
    using cs(1,4) bs(1) fr that by (simp add: slot_skb_def)
  have h: "held ?b = held a"
    using held_more [OF pb(2), of "\<lambda>_. None"] sl assms(3) by simp
  show ?thesis
    using assms(1) pb(1,2) h cs fr sl by (auto simp: own_def frag_arrays_def)
qed

lemma own_cong:
  assumes "own a g" "cmd_buf_arr b = cmd_buf_arr a" "lastCmdConsumer b = lastCmdConsumer a" "MaxTxDescCount b = MaxTxDescCount a"
    "cmdProducer b = cmdProducer a" "tx_events b = tx_events a" "length (cmdDescHead b) = length (cmdDescHead a)" "pend_inv (pending_cmds b)"
  shows "own b g"
proof -
  have sl: "slot_skb b = slot_skb a" by (rule ext) (simp only: slot_skb_def assms)
  have fl: "in_flight b = in_flight a" by (simp add: in_flight_def assms)
  have "held b = held a" by (rule held_cong) (simp_all add: sl fl)
  then show ?thesis using assms sl fl by (simp add: own_def ring_inv_def frag_arrays_def)
qed

lemma own_pend_inv: "own a g \<Longrightarrow> pend_inv (pending_cmds a)"
  by (simp add: own_def ring_inv_def)

lemma own_update_producer: "own a g \<Longrightarrow> own (unm_nic_update_cmd_producer a p) g"
  by (rule own_cong, assumption) (simp_all add: own_pend_inv, simp_all add: unm_nic_update_cmd_producer_def)

lemma own_pending: "own a g \<Longrightarrow> pend_inv p \<Longrightarrow> own (a\<lparr>pending_cmds := p\<rparr>) g"
  by (rule own_cong, assumption) simp_all

lemma own_send:
  assumes "own a g" "\<forall>b. mem = Some b \<longrightarrow> blk_array b" "nx_nic_send_cmd_descs mem a ds = (rv, a')"
  shows "own a' g"
proof -
  have inv: "ring_inv a" "ring_inv a'" using assms(1) send_cases [OF _ assms(2,3)] by (simp_all add: own_def)
  show ?thesis
  proof (cases "cmd_buf_arr a = None \<or> length ds > MAX_PENDING_DESC_BLOCK_SIZE \<or> length ds = 0")
    case True
    then show ?thesis using assms(1,3) by (auto simp: nx_nic_send_cmd_descs_def split: if_splits)
  next
    case b: False
    show ?thesis
    proof (cases "unm_get_pending_cmd_desc_cnt (pending_cmds a) \<noteq> 0 \<or> ring_full a (length ds)")
      case True
      obtain r p where q: "nx_queue_pend_cmd_desc_list mem (pending_cmds a) ds = (r, p)" by (metis surj_pair)
      then have e: "a' = a\<lparr>pending_cmds := p\<rparr>" using b True assms(3) by (auto simp: nx_nic_send_cmd_descs_def)
      then show ?thesis using own_pending [OF assms(1), of p] inv(2) by (simp add: ring_inv_def)
    next
      case False
      obtain a1 i where p: "post_descs 0 a (cmdProducer a) ds = (a1, i)" by (metis surj_pair)
      have "in_flight a + length ds < MaxTxDescCount a" using False inv(1) by (simp add: ring_full_iff)
      from own_update_producer [OF own_post [OF assms(1) p this], of i] show ?thesis
        using b False p assms(3) by (auto simp: nx_nic_send_cmd_descs_def)
    qed
  qed
qed

lemma own_drain:
  assumes "own (a\<lparr>cmdProducer := i\<rparr>) g" "len = MaxTxDescCount a - 1 - in_flight (a\<lparr>cmdProducer := i\<rparr>)" "drain_pending a i len = (a', i')"
  shows "own (a'\<lparr>cmdProducer := i'\<rparr>) g"
  using assms
proof (induction a i len rule: drain_pending.induct)
  case (1 a i len)
  let ?a = "a\<lparr>cmdProducer := i\<rparr>"
  have pi: "pend_inv (pending_cmds a)" using own_pend_inv [OF "1.prems"(1)] by simp
  show ?case
  proof (cases "len = 0 \<or> unm_dequeue_pending_cmd_desc (pending_cmds a) len = None")
    case True
    then have "drain_pending a i len = (a, i)" by (auto simp: drain_pending.simps [of a i len])
    then have "a' = a" "i' = i" using "1.prems"(3) by simp_all
    then show ?thesis using "1.prems"(1) by simp
  next
    case False
    then obtain b p where len: "len \<noteq> 0" and bp: "unm_dequeue_pending_cmd_desc (pending_cmds a) len = Some (b, p)" by auto
    note dq = dequeue_spec [OF pi bp]
    let ?ds = "take (blk_cnt b) (blk_cmd b)"
    obtain c j where pd: "post_descs PEGNET_REQUEST a i ?ds = (c, j)" by (metis surj_pair)
    have pd': "post_descs PEGNET_REQUEST ?a (cmdProducer ?a) ?ds = (c\<lparr>cmdProducer := i\<rparr>, j)"
      using post_descs_producer [OF pd, of i] by simp
    have l: "length ?ds = blk_cnt b" "blk_cnt b \<le> len" using dq by (simp_all add: blk_array_def)
    have room: "in_flight ?a + length ?ds < MaxTxDescCount ?a" unfolding l using l(2) len "1.prems"(2) by simp
    have inv: "ring_inv ?a" using "1.prems"(1) by (simp add: own_def)
    let ?c = "c\<lparr>pending_cmds := unm_free_pend_cmd_desc_block p b\<rparr>"
    have c: "?c\<lparr>cmdProducer := j\<rparr> = (c\<lparr>cmdProducer := j\<rparr>)\<lparr>pending_cmds := unm_free_pend_cmd_desc_block p b\<rparr>" by simp
    have own: "own (?c\<lparr>cmdProducer := j\<rparr>) g"
      unfolding c by (rule own_pending) (use own_post [OF "1.prems"(1) pd' room] free_block_inv dq in simp_all)
    have fl: "len - blk_cnt b = MaxTxDescCount ?c - 1 - in_flight (?c\<lparr>cmdProducer := j\<rparr>)"
      unfolding c using post_at_producer(2) [OF inv pd' room refl] l "1.prems"(2) post_descs_frame [OF pd] by simp
    have "drain_pending ?c j (len - blk_cnt b) = (a', i')"
      using "1.prems"(3) len bp pd by (simp add: drain_pending.simps [of a i len])
    from "1.IH" [OF len bp refl pd [symmetric] own fl this] show ?thesis .
  qed
qed

lemma own_proc_pending:
  assumes "own a g" shows "own (unm_proc_pending_cmd_desc a) g"
proof -
  obtain b i where d: "drain_pending a (cmdProducer a) (ring_space a) = (b, i)" by (metis surj_pair)
  have self: "a\<lparr>cmdProducer := cmdProducer a\<rparr> = a" by simp
  have inv: "ring_inv a" using assms by (simp add: own_def)
  from own_drain [OF _ _ d, unfolded self, OF assms ring_space_eq [OF inv]] have o: "own (b\<lparr>cmdProducer := i\<rparr>) g" .
  have same: "b\<lparr>cmdProducer := i\<rparr> = b" if "cmdProducer b = i" using that by simp
  show ?thesis using o own_update_producer [OF o, of i] same by (auto simp: unm_proc_pending_cmd_desc_def d)
qed

subsection \<open>Completion\<close>

text \<open>The slots a completion reclaims release what they hold.\<close>

lemma freed_slot_events: "freed (slot_events b) = (case cb_skb b of None \<Rightarrow> [] | Some k \<Rightarrow> [k])"
  by (simp add: slot_events_def split: option.split)

lemma freed_concat: "freed (concat (map f xs)) = concat (map (\<lambda>x. freed (f x)) xs)"
  by (induction xs) simp_all

lemma own_complete:
  assumes "own a g" "m \<le> in_flight a" "unm_process_cmd_ring ((lastCmdConsumer a + m) mod MaxTxDescCount a) hw' a = Some (fin, a')"
  shows "own a' g"
proof -
  let ?n = "MaxTxDescCount a" and ?c = "lastCmdConsumer a" and ?k = "min MAX_STATUS_HANDLE m"
  have inv: "ring_inv a" using assms(1) by (simp add: own_def)
  then have ok: "bufs_ok a" and c: "?c < ?n" and mn: "m < ?n"
    using in_flight_less [OF inv] assms(2) by (auto simp: ring_inv_def bufs_ok_def)
  obtain b where r: "reclaim_loop MAX_STATUS_HANDLE a ?c ((?c + m) mod ?n) = Some (b, (?c + ?k) mod ?n, ?k)" "reclaimed a ?c ?k b"
    using reclaim_loop_spec [OF ok c mn refl] by blast
  obtain x bufs bufs' where bufs: "cmd_buf_arr a = Some bufs" "length bufs = ?n" "length bufs' = ?n"
      "\<forall>j < ?n. bufs' ! ((?c + j) mod ?n) = (if j < ?k then (bufs ! ((?c + j) mod ?n))\<lparr>cb_skb := None\<rparr> else bufs ! ((?c + j) mod ?n))"
    and b: "b = a\<lparr>tx_events := tx_events a @ concat (map slot_events (ring_seg ?n bufs ?c ?k)), xmitfinished := x, cmd_buf_arr := Some bufs'\<rparr>"
    using r(2) unfolding reclaimed_def by blast
  note spec = process_cmd_ring_spec [OF inv assms(2) refl, of hw']
  have inv': "ring_inv a'" "ring_contents a' = drop ?k (ring_contents a)" using spec assms(3) by auto
  have a': "cmd_buf_arr a' = Some bufs'" "lastCmdConsumer a' = (?c + ?k) mod ?n" "MaxTxDescCount a' = ?n"
    "tx_events a' = tx_events a @ concat (map slot_events (ring_seg ?n bufs ?c ?k))"
    using assms(3) c by (auto simp: unm_process_cmd_ring_def r(1) b Let_def split: if_splits)
  have fl: "in_flight a' = in_flight a - ?k" using arg_cong [OF inv'(2), of length] by simp
  have k: "?k \<le> in_flight a" "in_flight a < ?n" using assms(2) in_flight_less [OF inv] by simp_all
  have sl: "slot_skb a' j = (if j + ?k < ?n then slot_skb a (j + ?k) else None)" if "j < ?n" for j
  proof (cases "j + ?k < ?n")
    case True
    have "((?c + ?k) mod ?n + j) mod ?n = (?c + (j + ?k)) mod ?n" by (simp add: mod_simps ac_simps)
    moreover have "bufs' ! ((?c + (j + ?k)) mod ?n) = bufs ! ((?c + (j + ?k)) mod ?n)"
      using bufs(4) [rule_format, OF True] by (simp only: not_add_less2 if_False)
    ultimately show ?thesis using True by (simp add: slot_skb_def a' bufs(1))
  next
    case False
    let ?j = "j + ?k - ?n"
    have "?c + ?k + j = ?c + ?j + ?n" using False by simp
    then have "((?c + ?k) mod ?n + j) mod ?n = (?c + ?j) mod ?n" by (metis mod_add_left_eq mod_add_self2)
    moreover have j: "?j < ?k" "?j < ?n" using that False k by linarith+
    have "bufs' ! ((?c + ?j) mod ?n) = (bufs ! ((?c + ?j) mod ?n))\<lparr>cb_skb := None\<rparr>"
      using bufs(4) [rule_format, OF j(2)] j(1) by (simp only: if_True)
    then have "cb_skb (bufs' ! ((?c + ?j) mod ?n)) = None" by simp
    ultimately have "cb_skb (bufs' ! (((?c + ?k) mod ?n + j) mod ?n)) = None" by (simp only:)
    then show ?thesis using False by (simp only: slot_skb_def a' option.case if_False)
  qed
  have u: "[0..<in_flight a] = [0..<?k] @ [?k..<in_flight a]" by (rule upt_split) (use k in simp_all)
  let ?f = "\<lambda>j. case slot_skb a j of None \<Rightarrow> [] | Some k \<Rightarrow> [k]"
  have fr: "freed (concat (map slot_events (ring_seg ?n bufs ?c ?k))) = concat (map ?f [0..<?k])"
    by (simp add: freed_concat freed_slot_events ring_seg_def slot_skb_def bufs(1) comp_def)
  have h: "held a' = concat (map ?f [?k..<in_flight a])"
  proof -
    have "held a' = concat (map (\<lambda>j. ?f (j + ?k)) [0..<in_flight a - ?k])"
      unfolding held_def fl
    proof (rule arg_cong [where f = concat], rule map_cong [OF refl])
      fix j assume "j \<in> set [0..<in_flight a - ?k]"
      then have "j + ?k < ?n" "j < ?n" using k by auto
      then show "(case slot_skb a' j of None \<Rightarrow> [] | Some k \<Rightarrow> [k]) = ?f (j + ?k)" using sl by simp
    qed
    also have "map (\<lambda>j. ?f (j + ?k)) [0..<in_flight a - ?k] = map ?f [?k..<in_flight a]"
      by (rule nth_equalityI) (simp_all add: add.commute)
    finally show ?thesis .
  qed
  have "held a = concat (map ?f [0..<?k]) @ held a'" unfolding h by (simp add: held_def u del: upt_Suc)
  then have acc: "mset (freed (tx_events a')) + mset (held a') = mset g"
    using assms(1) fr by (simp add: own_def a'(4) ac_simps)
  have arr: "frag_arrays a'"
  proof -
    have "length (fragArray (bufs' ! i)) = MAX_BUFFERS_PER_CMD + 1" if il: "i < ?n" for i
    proof -
      obtain j where j: "j < ?n" "i = (?c + j) mod ?n"
      proof
        show "(i + ?n - ?c) mod ?n < ?n" using il by simp
        show "i = (?c + (i + ?n - ?c) mod ?n) mod ?n" using il c by (simp add: mod_simps)
      qed
      then show ?thesis using bufs(1,2,4) assms(1) il by (auto simp: own_def frag_arrays_def list_all_length)
    qed
    then show ?thesis by (simp add: frag_arrays_def a' bufs(3) list_all_length)
  qed
  have clean: "slot_skb a' j = None" if "in_flight a' < j" "j < ?n" for j
    using that sl [OF that(2)] assms(1) by (auto simp: own_def fl)
  show ?thesis using inv'(1) arr clean acc by (simp add: own_def a'(3))
qed

subsection \<open>Transmitting\<close>

text \<open>The packet's slot is the producer's. The packet is held there if the producer moves on, and freed if it does not.\<close>

lemma own_slot:
  assumes "own a g" "cmd_buf_arr a = Some bs" "cmd_buf_arr b = Some (bs[cmdProducer a := c])" "ring_inv b"
    "lastCmdConsumer b = lastCmdConsumer a" "MaxTxDescCount b = MaxTxDescCount a" "in_flight b = in_flight a + m"
    "length (fragArray c) = MAX_BUFFERS_PER_CMD + 1" "cb_skb c = Some k" "tx_events b = tx_events a @ es"
    "freed es = (if m = 0 then [k] else [])"
  shows "own b (g @ [k])"
proof -
  let ?n = "MaxTxDescCount a" and ?c = "lastCmdConsumer a"
  have inv: "ring_inv a" using assms(1) by (simp add: own_def)
  have lb: "length bs = ?n" using inv assms(2) by (auto simp: ring_inv_def)
  have fl: "in_flight a + m < ?n" using in_flight_less [OF assms(4)] assms(6,7) by simp
  have p: "cmdProducer a = (?c + in_flight a) mod ?n" using producer_eq [OF inv] by simp
  have pl: "cmdProducer a < ?n" using inv by (simp add: ring_inv_def)
  have sl: "slot_skb b j = (if j = in_flight a then Some k else slot_skb a j)" if "j < ?n" for j
  proof -
    have "cmdProducer a = (?c + j) mod ?n \<longleftrightarrow> j = in_flight a"
      using ring_index_inject [of j "in_flight a" ?n ?c] ring_index_inject [of "in_flight a" j ?n ?c] that fl p
      by (metis add_lessD1 nat_neq_iff)
    then show ?thesis using pl lb that by (auto simp: slot_skb_def assms(2,3,5,6,9) nth_list_update)
  qed
  have arr: "frag_arrays b"
    using assms(1,2,8) pl lb by (auto simp: own_def frag_arrays_def assms(3,6) list_all_length nth_list_update)
  have h: "held b = held a @ (if m = 0 then [] else [k])"
  proof (cases "m = 0")
    case True
    then show ?thesis using held_cong [of b a] sl fl by (simp add: assms(7))
  next
    case False
    let ?f = "\<lambda>j. if j = in_flight a then Some k else None"
    have e: "slot_skb b j = ?f j" if "in_flight a \<le> j" "j < in_flight a + m" for j
      using sl [of j] that fl assms(1) by (auto simp: own_def)
    have u: "[in_flight a..<in_flight a + m] = in_flight a # [Suc (in_flight a)..<in_flight a + m]"
      using False by (simp add: upt_rec)
    have "map (\<lambda>j. case ?f j of None \<Rightarrow> [] | Some k \<Rightarrow> [k]) [Suc (in_flight a)..<in_flight a + m] = map (\<lambda>j. []) [Suc (in_flight a)..<in_flight a + m]"
      by (rule map_cong [OF refl]) auto
    then have "concat (map (\<lambda>j. case ?f j of None \<Rightarrow> [] | Some k \<Rightarrow> [k]) [Suc (in_flight a)..<in_flight a + m]) = []" by simp
    then have "concat (map (\<lambda>j. case ?f j of None \<Rightarrow> [] | Some k \<Rightarrow> [k]) [in_flight a..<in_flight a + m]) = [k]"
      unfolding u by simp
    moreover have "held b = held a @ concat (map (\<lambda>j. case ?f j of None \<Rightarrow> [] | Some k \<Rightarrow> [k]) [in_flight a..<in_flight a + m])"
      by (rule held_more [OF assms(7) _ e]) (use sl fl in simp_all)
    ultimately show ?thesis using False by simp
  qed
  have clean: "slot_skb b j = None" if "in_flight b < j" "j < ?n" for j
    using that sl [OF that(2)] assms(1) by (simp add: own_def assms(7))
  show ?thesis using assms(1,4,11) arr clean h by (simp add: own_def assms(6,10) ac_simps)
qed

text \<open>A packet dropped while it was being posted.\<close>

lemma own_dropped:
  assumes "own (xs_tx s) g" "posting s ds c es ls s'" "cb_skb c = Some (sk_id skb)" "length (fragArray c) = MAX_BUFFERS_PER_CMD + 1"
    "cb_fragCount c \<le> MAX_BUFFERS_PER_CMD + 1" "freed es = []"
  shows "own (xs_tx (drop_packet skb s')) (g @ [sk_id skb])"
proof -
  let ?a = "xs_tx s" and ?b = "xs_tx (drop_packet skb s')"
  have inv: "ring_inv ?a" using assms(1) by (simp add: own_def)
  obtain bs where bs: "cmd_buf_arr ?a = Some bs" "length bs = MaxTxDescCount ?a" using inv by (auto simp: ring_inv_def)
  have b: "cmd_buf_arr ?b = Some (bs[cmdProducer ?a := c])" "lastCmdConsumer ?b = lastCmdConsumer ?a" "MaxTxDescCount ?b = MaxTxDescCount ?a"
    "cmdProducer ?b = cmdProducer ?a" "tx_events ?b = tx_events ?a @ es @ [Free_skb (sk_id skb)]" "pending_cmds ?b = pending_cmds ?a"
    "length (cmdDescHead ?b) = MaxTxDescCount ?a"
    using assms(2) bs(1) by (simp_all add: posting_def seg_def drop_packet_def emit_tx_def on_tx_def)
  have "bufs_ok ?b" by (rule bufs_ok_slot [OF inv bs(1) b(1,3)]) (use assms(4,5) in \<open>simp add: buf_ok_def\<close>)
  then have inv': "ring_inv ?b" using inv b bs(2) by (simp add: ring_inv_def bufs_ok_def)
  have fl: "in_flight ?b = in_flight ?a + 0" using b by (simp add: in_flight_def)
  show ?thesis by (rule own_slot [OF assms(1) bs(1) b(1) inv' b(2,3) fl assms(4,3) b(5)]) (simp add: assms(6))
qed

text \<open>What the caller guarantees of a packet: pulling gives the same packet, and the headers of one to be segmented fit.\<close>

definition packet_ok :: "xmit_env \<Rightarrow> sk_buff \<Rightarrow> bool" where
  "packet_ok e skb \<longleftrightarrow> pull_ok e \<and>
     (case pull_excess e (xmit_tag e skb) skb of None \<Rightarrow> True | Some p \<Rightarrow> headers_fit e (xmit_tag e skb) p)"

lemma own_post_packet:
  assumes "own (xs_tx s) g" "length (sk_frags skb) \<le> MAX_BUFFERS_PER_CMD" "headers_fit e tagged skb"
    "in_flight (xs_tx s) + slots_for skb + 2 < MaxTxDescCount (xs_tx s)"
  shows "\<exists>s'. xmit_post e tagged skb s = Some s' \<and> own (xs_tx s') (g @ [sk_id skb])"
proof -
  let ?a = "xs_tx s" and ?len = "sk_len skb - sk_data_len skb"
  have inv: "ring_inv ?a" and arr: "frag_arrays ?a" using assms(1) by (simp_all add: own_def)
  obtain bs where bs: "cmd_buf_arr ?a = Some bs" "length bs = MaxTxDescCount ?a" using inv by (auto simp: ring_inv_def)
  have fl: "length (fragArray (bs ! cmdProducer ?a)) = MAX_BUFFERS_PER_CMD + 1"
    using inv arr bs by (auto simp: frag_arrays_def ring_inv_def list_all_length)
  show ?thesis
  proof (cases "xe_map_single e skb ?len")
    case None
    define s1 where "s1 = on_tx (\<lambda>a. on_buf (cmdProducer ?a) (claim_slot skb (xmit_mss e skb) (xs_portnum s))
       (on_desc (cmdProducer ?a) (\<lambda>_. set_word2 16 16 (ucast (xmit_mss e skb)) zero_desc) a)) s"
    have p: "posting s [set_word2 16 16 (ucast (xmit_mss e skb)) zero_desc]
        (claim_slot skb (xmit_mss e skb) (xs_portnum s) (bs ! cmdProducer ?a)) [] [] s1"
      unfolding s1_def using xmit_start [OF inv bs(1)] assms(4) by simp
    have "cmd_buf_arr (xs_tx s1) \<noteq> None" using p bs(1) by (simp add: posting_def)
    then have "xmit_post e tagged skb s = Some (drop_packet skb s1)"
      unfolding xmit_post_def Let_def xmit_mss_def [symmetric] s1_def [symmetric] try_map_skb_data_def None by simp
    moreover have "own (xs_tx (drop_packet skb s1)) (g @ [sk_id skb])"
      by (rule own_dropped [OF assms(1) p]) (use fl assms(2) in \<open>simp_all add: claim_slot_def\<close>)
    ultimately show ?thesis by blast
  next
    case (Some dma)
    obtain bl ok where m: "map_frags e 1 (sk_frags skb) = (bl, ok)" by (metis surj_pair)
    show ?thesis
    proof (cases ok)
      case True
      then have m': "map_frags e 1 (sk_frags skb) = (bl, True)" using m by simp
      obtain s' hs where s': "xmit_post e tagged skb s = Some s'" "posted e tagged skb dma bl hs s s'"
        using xmit_post_posted [OF inv arr assms(2,4,3) Some m'] by blast
      let ?c = "filled_slot e (xs_portnum s) skb dma bl (bs ! cmdProducer ?a)"
        and ?ds = "headed skb (offloaded tagged skb (hd (packet_chain e (xs_portnum s) skb dma bl))) # tl (packet_chain e (xs_portnum s) skb dma bl) @ hs"
      have b: "cmd_buf_arr (xs_tx s') = Some (bs[cmdProducer ?a := ?c])" "ring_inv (xs_tx s')" "lastCmdConsumer (xs_tx s') = lastCmdConsumer ?a"
        "MaxTxDescCount (xs_tx s') = MaxTxDescCount ?a" "in_flight (xs_tx s') = in_flight ?a + length ?ds" "tx_events (xs_tx s') = tx_events ?a @ []"
        using s'(2) bs(1) by (simp_all add: posted_def Let_def)
      have "own (xs_tx s') (g @ [sk_id skb])"
        by (rule own_slot [OF assms(1) bs(1) b(1-5) _ _ b(6)]) (use fl in \<open>simp_all add: filled_slot_fields\<close>)
      then show ?thesis using s'(1) by blast
    next
      case False
      then obtain s' ds' where s': "posting s ds' (filled_slot e (xs_portnum s) skb dma bl (bs ! cmdProducer ?a))
          (netxen_clean_tx_dma_mapping (filled_slot e (xs_portnum s) skb dma bl (bs ! cmdProducer ?a)) (Suc (length bl)))
          (Map_single dma ?len # map (\<lambda>(d, l). Map_page d l) bl) s'" "xmit_post e tagged skb s = Some (drop_packet skb s')"
        using xmit_post_mapped [OF inv arr assms(2,4) bs(1) Some m, of tagged] by auto
      have "own (xs_tx (drop_packet skb s')) (g @ [sk_id skb])"
        by (rule own_dropped [OF assms(1) s'(1)]) (use fl assms(2) in \<open>simp_all add: filled_slot_fields\<close>)
      then show ?thesis using s'(2) by blast
    qed
  qed
qed

lemma own_events:
  assumes "own a g" shows "own (a\<lparr>tx_events := tx_events a @ es\<rparr>) (g @ freed es)"
proof -
  let ?b = "a\<lparr>tx_events := tx_events a @ es\<rparr>"
  have sl: "slot_skb ?b = slot_skb a" by (rule ext) (simp add: slot_skb_def split: option.split)
  have fl: "in_flight ?b = in_flight a" by (simp add: in_flight_def)
  have h: "held ?b = held a" by (rule held_cong) (simp_all add: sl fl)
  show ?thesis using assms by (simp add: own_def sl fl h ring_inv_def frag_arrays_def ac_simps)
qed

lemma own_drop_at_once: "own (xs_tx s) g \<Longrightarrow> own (xs_tx (drop_packet skb s)) (g @ [sk_id skb])"
  using own_events [of "xs_tx s" g "[Free_skb (sk_id skb)]"] by (simp add: drop_packet_def emit_tx_def on_tx_def)

lemma own_xmit:
  assumes "own (xs_tx s) g" "packet_ok e skb"
  shows "\<exists>rv s'. unm_nic_xmit_frame e skb s = Some (rv, s') \<and> own (xs_tx s') (if rv = NETDEV_TX_BUSY then g else g @ [sk_id skb])"
proof (cases "sk_len skb = 0")
  case True
  then show ?thesis using own_events [OF assms(1), of "[Free_skb (sk_id skb)]"] by (simp add: unm_nic_xmit_frame_def emit_tx_def on_tx_def)
next
  case len: False
  show ?thesis
  proof (cases "pull_excess e (xmit_tag e skb) skb")
    case None
    then show ?thesis using len own_drop_at_once [OF assms(1), of skb]
      by (simp add: unm_nic_xmit_frame_def xmit_tag_def [symmetric])
  next
    case (Some p)
    have p: "length (sk_frags p) < NX_NIC_MAX_SG_PER_TX" "sk_id p = sk_id skb" "headers_fit e (xmit_tag e skb) p"
      using pull_excess_bound [OF _ Some] assms(2) Some by (simp_all add: packet_ok_def)
    have inv: "ring_inv (xs_tx s)" using assms(1) by (simp add: own_def)
    have o: "own (xs_tx (note_xmit Lock_tx s)) g" using assms(1) by simp
    have x: "\<exists>rv s'. xmit_locked e (xmit_tag e skb) p (note_xmit Lock_tx s) = Some (rv, s') \<and>
        own (xs_tx s') (if rv = NETDEV_TX_BUSY then g else g @ [sk_id skb])"
    proof (cases "(\<not> xe_carrier e \<and> \<not> xe_loopback e) \<or> ring_full (xs_tx s) (slots_for p + 2)")
      case True
      have "own (xs_tx (on_tx (\<lambda>a. a\<lparr>queue_stopped := True\<rparr>) (note_xmit Lock_tx s))) g"
        by (rule own_cong [OF o]) (use inv in \<open>simp_all add: on_tx_def ring_inv_def\<close>)
      then show ?thesis using True own_drop_at_once [OF o, of p] p(2) by (auto simp: xmit_locked_def slots_for_def)
    next
      case False
      then have room: "in_flight (xs_tx s) + slots_for p + 2 < MaxTxDescCount (xs_tx s)" using room_for_packet [OF inv] by blast
      have "\<exists>s'. xmit_post e (xmit_tag e skb) p (note_xmit Lock_tx s) = Some s' \<and> own (xs_tx s') (g @ [sk_id p])"
        by (rule own_post_packet [OF o _ p(3)]) (use room p(1) in \<open>simp_all add: NX_NIC_MAX_SG_PER_TX_def\<close>)
      then show ?thesis using False p(2) by (auto simp: xmit_locked_def slots_for_def)
    qed
    then obtain rv s' where r: "xmit_locked e (xmit_tag e skb) p (note_xmit Lock_tx s) = Some (rv, s')"
      "own (xs_tx s') (if rv = NETDEV_TX_BUSY then g else g @ [sk_id skb])" by blast
    have "unm_nic_xmit_frame e skb s = Some (rv, note_xmit Unlock_tx s')"
      using len Some r(1) by (simp add: unm_nic_xmit_frame_def xmit_tag_def [symmetric])
    then show ?thesis using r(2) by auto
  qed
qed

subsection \<open>Properties\<close>

text \<open>The transmit path of one adapter: packets and control commands come in any order, pending commands are posted and completions
  handled at any time; the card has completed no more than what is in flight. \<open>tx_reach s0 s g\<close>: from \<open>s0\<close>, \<open>s\<close> is reached when
  the packets \<open>g\<close> have been taken; a packet refused with \<open>NETDEV_TX_BUSY\<close> stays with the caller.\<close>

inductive tx_reach :: "xmit_state \<Rightarrow> xmit_state \<Rightarrow> nat list \<Rightarrow> bool" for s0 where
  start: "tx_reach s0 s0 []"
| xmit: "tx_reach s0 s g \<Longrightarrow> packet_ok e skb \<Longrightarrow> unm_nic_xmit_frame e skb s = Some (rv, s') \<Longrightarrow>
    tx_reach s0 s' (if rv = NETDEV_TX_BUSY then g else g @ [sk_id skb])"
| send: "tx_reach s0 s g \<Longrightarrow> \<forall>b. mem = Some b \<longrightarrow> blk_array b \<Longrightarrow> nx_nic_send_cmd_descs mem (xs_tx s) ds = (rc, a) \<Longrightarrow>
    tx_reach s0 (s\<lparr>xs_tx := a\<rparr>) g"
| drain: "tx_reach s0 s g \<Longrightarrow> tx_reach s0 (s\<lparr>xs_tx := unm_proc_pending_cmd_desc (xs_tx s)\<rparr>) g"
| complete: "tx_reach s0 s g \<Longrightarrow> m \<le> in_flight (xs_tx s) \<Longrightarrow>
    unm_process_cmd_ring ((lastCmdConsumer (xs_tx s) + m) mod MaxTxDescCount (xs_tx s)) hw (xs_tx s) = Some (fin, a) \<Longrightarrow>
    tx_reach s0 (s\<lparr>xs_tx := a\<rparr>) g"

text \<open>An adapter that has just been brought up.\<close>

definition tx_brought_up :: "tx_adapter \<Rightarrow> bool" where
  "tx_brought_up a \<longleftrightarrow> ring_inv a \<and> frag_arrays a \<and> in_flight a = 0 \<and> tx_events a = [] \<and>
     (case cmd_buf_arr a of None \<Rightarrow> True | Some bs \<Rightarrow> list_all (\<lambda>b. cb_skb b = None) bs)"

lemma fresh_own: "tx_brought_up a \<Longrightarrow> own a []"
  by (auto simp: tx_brought_up_def own_def held_def slot_skb_def ring_inv_def list_all_length split: option.splits)

lemma reach_own: "tx_reach s0 s g \<Longrightarrow> tx_brought_up (xs_tx s0) \<Longrightarrow> own (xs_tx s) g"
proof (induction rule: tx_reach.induct)
  case start
  then show ?case by (rule fresh_own)
next
  case (xmit s g e skb rv s')
  then show ?case using own_xmit [of s g e skb] by auto
next
  case (send s g mem ds rc a)
  then show ?case using own_send [of "xs_tx s" g mem ds rc a] by simp
next
  case (drain s g)
  then show ?case using own_proc_pending by simp
next
  case (complete s g m hw fin a)
  then show ?case using own_complete [of "xs_tx s" g m hw fin a] by simp
qed

subsection \<open>The order of commands and packets\<close>

text \<open>What a step added to the ring, and what has ever entered it, with where it came from.\<close>

datatype ring_entry = Command cmd_desc | Packet cmd_desc

fun entry_desc :: "ring_entry \<Rightarrow> cmd_desc" where
  "entry_desc (Command d) = d"
| "entry_desc (Packet d) = d"

fun commands_of :: "ring_entry list \<Rightarrow> cmd_desc list" where
  "commands_of [] = []"
| "commands_of (Command d # es) = d # commands_of es"
| "commands_of (Packet d # es) = commands_of es"

lemma commands_of_simps [simp]:
  "commands_of (es @ fs) = commands_of es @ commands_of fs" "commands_of (map Command ds) = ds" "commands_of (map Packet ds) = []"
  "map entry_desc (map Command ds) = ds" "map entry_desc (map Packet ds) = ds"
  by (induction es rule: commands_of.induct) (simp_all, (induction ds; simp)+)

lemma entry_desc_comp [simp]: "entry_desc \<circ> Packet = id" "entry_desc \<circ> Command = id"
  by (simp_all add: fun_eq_iff)

definition new_in_ring :: "tx_adapter \<Rightarrow> tx_adapter \<Rightarrow> cmd_desc list" where
  "new_in_ring a b = drop (in_flight a) (ring_contents b)"

text \<open>One adapter with its history: the commands whose submission returned 0, what entered the ring, and what was completed.\<close>

record tx_history =
  th_state :: xmit_state
  th_accepted :: "cmd_desc list"
  th_entered :: "ring_entry list"
  th_completed :: "cmd_desc list"

definition ring_moved :: "(cmd_desc \<Rightarrow> ring_entry) \<Rightarrow> xmit_state \<Rightarrow> tx_history \<Rightarrow> tx_history" where
  "ring_moved f s h = h\<lparr>th_state := s, th_entered := th_entered h @ map f (new_in_ring (xs_tx (th_state h)) (xs_tx s))\<rparr>"

inductive path_step :: "tx_history \<Rightarrow> tx_history \<Rightarrow> bool" where
  path_xmit: "packet_ok e skb \<Longrightarrow> unm_nic_xmit_frame e skb (th_state h) = Some (rv, s') \<Longrightarrow> path_step h (ring_moved Packet s' h)"
| path_send: "\<forall>b. mem = Some b \<longrightarrow> blk_array b \<Longrightarrow> nx_nic_send_cmd_descs mem (xs_tx (th_state h)) ds = (rc, a) \<Longrightarrow>
    path_step h (ring_moved Command ((th_state h)\<lparr>xs_tx := a\<rparr>) (h\<lparr>th_accepted := th_accepted h @ (if rc = 0 then ds else [])\<rparr>))"
| path_drain: "path_step h (ring_moved Command ((th_state h)\<lparr>xs_tx := unm_proc_pending_cmd_desc (xs_tx (th_state h))\<rparr>) h)"
| path_complete: "m \<le> in_flight (xs_tx (th_state h)) \<Longrightarrow>
    unm_process_cmd_ring ((lastCmdConsumer (xs_tx (th_state h)) + m) mod MaxTxDescCount (xs_tx (th_state h))) hw (xs_tx (th_state h)) = Some (fin, a) \<Longrightarrow>
    path_step h (h\<lparr>th_state := (th_state h)\<lparr>xs_tx := a\<rparr>,
      th_completed := th_completed h @ take (in_flight (xs_tx (th_state h)) - in_flight a) (ring_contents (xs_tx (th_state h)))\<rparr>)"

definition path_ok :: "tx_history \<Rightarrow> bool" where
  "path_ok h \<longleftrightarrow> (let a = xs_tx (th_state h) in
     ring_inv a \<and> frag_arrays a \<and> map entry_desc (th_entered h) = th_completed h @ ring_contents a \<and>
     th_accepted h = commands_of (th_entered h) @ pend_contents (pending_cmds a))"

lemma new_in_ring_append: "ring_contents b = ring_contents a @ ds \<Longrightarrow> new_in_ring a b = ds"
  by (simp add: new_in_ring_def)

text \<open>Draining moves a prefix of the pending commands to the end of the ring.\<close>

lemma drain_appends:
  assumes "ring_inv a" "b = unm_proc_pending_cmd_desc a"
  shows "\<exists>ds. ring_contents b = ring_contents a @ ds \<and> pend_contents (pending_cmds a) = ds @ pend_contents (pending_cmds b)"
proof -
  have s: "ring_contents b @ pend_contents (pending_cmds b) = ring_contents a @ pend_contents (pending_cmds a)"
    "length (ring_contents a) \<le> length (ring_contents b)"
    using proc_pending_spec [OF assms] by (simp_all add: tx_stream_def)
  have "ring_contents b = ring_contents a @ drop (in_flight a) (ring_contents b)"
    using arg_cong [OF s(1), of "take (length (ring_contents a))"] s(2)
    by (metis append_take_drop_id append_eq_conv_conj length_ring_contents take_append take_all_iff diff_is_0_eq' take0 append_Nil2)
  moreover from this s(1) have "pend_contents (pending_cmds a) = drop (in_flight a) (ring_contents b) @ pend_contents (pending_cmds b)"
    by (metis append.assoc append_same_eq same_append_eq)
  ultimately show ?thesis by blast
qed

lemma dropped_keeps_ring:
  assumes "posting s ds c es ls s'"
  shows "ring_contents (xs_tx (drop_packet skb s')) = ring_contents (xs_tx s) \<and>
    pending_cmds (xs_tx (drop_packet skb s')) = pending_cmds (xs_tx s)"
proof -
  let ?a = "xs_tx s" and ?b = "xs_tx (drop_packet skb s')"
  have b: "lastCmdConsumer ?b = lastCmdConsumer ?a" "MaxTxDescCount ?b = MaxTxDescCount ?a" "cmdProducer ?b = cmdProducer ?a"
      "pending_cmds ?b = pending_cmds ?a" "cmdDescHead ?b = cmdDescHead (xs_tx s')"
    and r: "ring_seg (MaxTxDescCount ?a) (cmdDescHead (xs_tx s')) (lastCmdConsumer ?a) (in_flight ?a + length ds) = ring_contents ?a @ ds"
    using assms by (simp_all add: posting_def seg_def drop_packet_def emit_tx_def on_tx_def)
  have "in_flight ?b = in_flight ?a" using b by (simp add: in_flight_def)
  moreover have "ring_seg (MaxTxDescCount ?a) (cmdDescHead (xs_tx s')) (lastCmdConsumer ?a) (in_flight ?a) = ring_contents ?a"
    using arg_cong [OF r, of "take (in_flight ?a)"] by (simp add: ring_seg_def take_map)
  ultimately show ?thesis using b by (simp add: ring_contents_def)
qed

lemma post_packet_appends:
  assumes "own (xs_tx s) g" "length (sk_frags skb) \<le> MAX_BUFFERS_PER_CMD" "headers_fit e tagged skb"
    "in_flight (xs_tx s) + slots_for skb + 2 < MaxTxDescCount (xs_tx s)" "xmit_post e tagged skb s = Some s'"
  shows "\<exists>ds. ring_contents (xs_tx s') = ring_contents (xs_tx s) @ ds \<and> pending_cmds (xs_tx s') = pending_cmds (xs_tx s)"
proof -
  let ?a = "xs_tx s" and ?len = "sk_len skb - sk_data_len skb"
  have inv: "ring_inv ?a" and arr: "frag_arrays ?a" using assms(1) by (simp_all add: own_def)
  obtain bs where bs: "cmd_buf_arr ?a = Some bs" using inv by (auto simp: ring_inv_def)
  show ?thesis
  proof (cases "xe_map_single e skb ?len")
    case None
    define s1 where "s1 = on_tx (\<lambda>a. on_buf (cmdProducer ?a) (claim_slot skb (xmit_mss e skb) (xs_portnum s))
       (on_desc (cmdProducer ?a) (\<lambda>_. set_word2 16 16 (ucast (xmit_mss e skb)) zero_desc) a)) s"
    have p: "posting s [set_word2 16 16 (ucast (xmit_mss e skb)) zero_desc]
        (claim_slot skb (xmit_mss e skb) (xs_portnum s) (bs ! cmdProducer ?a)) [] [] s1"
      unfolding s1_def using xmit_start [OF inv bs] assms(4) by simp
    have "cmd_buf_arr (xs_tx s1) \<noteq> None" using p bs by (simp add: posting_def)
    then have "xmit_post e tagged skb s = Some (drop_packet skb s1)"
      unfolding xmit_post_def Let_def xmit_mss_def [symmetric] s1_def [symmetric] try_map_skb_data_def None by simp
    then show ?thesis using dropped_keeps_ring [OF p, of skb] assms(5) by simp
  next
    case (Some dma)
    obtain bl ok where m: "map_frags e 1 (sk_frags skb) = (bl, ok)" by (metis surj_pair)
    show ?thesis
    proof (cases ok)
      case True
      then have "map_frags e 1 (sk_frags skb) = (bl, True)" using m by simp
      then obtain t hs where "xmit_post e tagged skb s = Some t" "posted e tagged skb dma bl hs s t"
        using xmit_post_posted [OF inv arr assms(2,4,3) Some] by blast
      then show ?thesis using assms(5) by (auto simp: posted_def Let_def)
    next
      case False
      then obtain t ds' c es ls where t: "posting s ds' c es ls t" "xmit_post e tagged skb s = Some (drop_packet skb t)"
        using xmit_post_mapped [OF inv arr assms(2,4) bs Some m, of tagged] by auto
      then show ?thesis using dropped_keeps_ring [OF t(1), of skb] assms(5) by simp
    qed
  qed
qed

lemma emitted_ring:
  "ring_contents (xs_tx (emit_tx es s)) = ring_contents (xs_tx s)" "pending_cmds (xs_tx (emit_tx es s)) = pending_cmds (xs_tx s)"
  by (simp_all add: emit_tx_def on_tx_def ring_contents_def in_flight_def)

lemma xmit_appends:
  assumes "own (xs_tx s) g" "packet_ok e skb" "unm_nic_xmit_frame e skb s = Some (rv, s')"
  shows "\<exists>ds. ring_contents (xs_tx s') = ring_contents (xs_tx s) @ ds \<and> pending_cmds (xs_tx s') = pending_cmds (xs_tx s)"
proof (cases "sk_len skb = 0 \<or> pull_excess e (xmit_tag e skb) skb = None")
  case True
  show ?thesis
  proof (cases "sk_len skb = 0")
    case True
    then have "s' = emit_tx [Free_skb (sk_id skb)] (s\<lparr>xs_badskblen := xs_badskblen s + 1\<rparr>)"
      using assms(3) by (simp add: unm_nic_xmit_frame_def)
    then show ?thesis by (simp add: emitted_ring)
  next
    case False
    then have "unm_nic_xmit_frame e skb s = Some (NETDEV_TX_OK, note_xmit Unlock_tx (drop_packet skb s))"
      using True by (simp add: unm_nic_xmit_frame_def xmit_tag_def [symmetric])
    then have "s' = note_xmit Unlock_tx (drop_packet skb s)" using assms(3) by simp
    then show ?thesis by (simp add: drop_packet_def emitted_ring)
  qed
next
  case False
  then obtain p where p: "pull_excess e (xmit_tag e skb) skb = Some p" by blast
  then have pk: "length (sk_frags p) < NX_NIC_MAX_SG_PER_TX" "headers_fit e (xmit_tag e skb) p"
    using pull_excess_bound [OF _ p] assms(2) by (simp_all add: packet_ok_def)
  have inv: "ring_inv (xs_tx s)" using assms(1) by (simp add: own_def)
  obtain t where t: "xmit_locked e (xmit_tag e skb) p (note_xmit Lock_tx s) = Some (rv, t)" "s' = note_xmit Unlock_tx t"
    using assms(3) False p by (auto simp: unm_nic_xmit_frame_def xmit_tag_def [symmetric])
  show ?thesis
  proof (cases "(\<not> xe_carrier e \<and> \<not> xe_loopback e) \<or> ring_full (xs_tx s) (slots_for p + 2)")
    case True
    then show ?thesis using t
      by (auto simp: xmit_locked_def slots_for_def drop_packet_def emit_tx_def on_tx_def ring_contents_def in_flight_def split: if_splits)
  next
    case False
    then have "xmit_post e (xmit_tag e skb) p (note_xmit Lock_tx s) = Some t"
      using t(1) by (auto simp: xmit_locked_def slots_for_def split: if_splits)
    then show ?thesis
      using post_packet_appends [of "note_xmit Lock_tx s" g p e "xmit_tag e skb" t] assms(1) pk False t(2) room_for_packet [OF inv]
      by (auto simp: NX_NIC_MAX_SG_PER_TX_def)
  qed
qed

lemma path_step_ok:
  assumes "path_step h h'" "path_ok h" "\<exists>g. own (xs_tx (th_state h)) g"
  shows "path_ok h' \<and> (\<exists>g. own (xs_tx (th_state h')) g)"
  using assms
proof (cases rule: path_step.cases)
  case (path_xmit e skb rv s')
  obtain g where g: "own (xs_tx (th_state h)) g" using assms(3) by blast
  obtain ds where ds: "ring_contents (xs_tx s') = ring_contents (xs_tx (th_state h)) @ ds" "pending_cmds (xs_tx s') = pending_cmds (xs_tx (th_state h))"
    using xmit_appends [OF g path_xmit(2,3)] by blast
  have "\<exists>g. own (xs_tx s') g" using own_xmit [OF g path_xmit(2)] path_xmit(3) by auto
  then show ?thesis using assms(2) path_xmit(1) ds new_in_ring_append [OF ds(1)]
    by (auto simp: path_ok_def ring_moved_def Let_def own_def)
next
  case (path_send mem ds rc a)
  obtain g where g: "own (xs_tx (th_state h)) g" using assms(3) by blast
  have o: "own a g" using own_send [OF g path_send(2,3)] .
  have "new_in_ring (xs_tx (th_state h)) a = ds \<and> rc = 0 \<and> ring_contents a = ring_contents (xs_tx (th_state h)) @ ds \<and>
        pend_contents (pending_cmds (xs_tx (th_state h))) = [] \<and> pend_contents (pending_cmds a) = [] \<or>
      new_in_ring (xs_tx (th_state h)) a = [] \<and> ring_contents a = ring_contents (xs_tx (th_state h)) \<and>
        pend_contents (pending_cmds a) = pend_contents (pending_cmds (xs_tx (th_state h))) @ (if rc = 0 then ds else [])"
    using send_full [OF _ path_send(2,3)] g new_in_ring_append [of a "xs_tx (th_state h)"] by (fastforce simp: own_def)
  then show ?thesis using assms(2) path_send(1) o by (auto simp: path_ok_def ring_moved_def Let_def own_def)
next
  case path_drain
  obtain g where g: "own (xs_tx (th_state h)) g" using assms(3) by blast
  let ?b = "unm_proc_pending_cmd_desc (xs_tx (th_state h))"
  have o: "own ?b g" using own_proc_pending [OF g] .
  obtain ds where ds: "ring_contents ?b = ring_contents (xs_tx (th_state h)) @ ds"
      "pend_contents (pending_cmds (xs_tx (th_state h))) = ds @ pend_contents (pending_cmds ?b)"
    using drain_appends [OF _ refl, of "xs_tx (th_state h)"] g by (auto simp: own_def)
  then show ?thesis using assms(2) path_drain(1) o new_in_ring_append [OF ds(1)]
    by (auto simp: path_ok_def ring_moved_def Let_def own_def)
next
  case (path_complete m hw fin a)
  obtain g where g: "own (xs_tx (th_state h)) g" using assms(3) by blast
  have inv: "ring_inv (xs_tx (th_state h))" using g by (simp add: own_def)
  have a: "own a g" using own_complete [OF g path_complete(2,3)] .
  have c: "pending_cmds a = pending_cmds (xs_tx (th_state h))" "ring_contents a = drop (min MAX_STATUS_HANDLE m) (ring_contents (xs_tx (th_state h)))"
    using process_cmd_ring_spec [OF inv path_complete(2) refl, of hw] path_complete(3) by auto
  have "in_flight (xs_tx (th_state h)) - in_flight a = min MAX_STATUS_HANDLE m"
    using arg_cong [OF c(2), of length] path_complete(2) by simp
  then show ?thesis using assms(2) path_complete(1) a c by (auto simp: path_ok_def Let_def own_def)
qed

lemma path_reach_ok:
  assumes "path_step\<^sup>*\<^sup>* h h'" "path_ok h" "\<exists>g. own (xs_tx (th_state h)) g"
  shows "path_ok h' \<and> (\<exists>g. own (xs_tx (th_state h')) g)"
  using assms by (induction rule: rtranclp_induct) (simp, metis path_step_ok)


lemma ex_packet_ok: "packet_ok ex_env ex_skb"
proof -
  have "length (sk_frags ex_skb) = 1" by (simp add: ex_skb_def)
  then have "pull_excess ex_env (xmit_tag ex_env ex_skb) ex_skb = Some ex_skb"
    by (simp add: ex_xmit_facts(4) pull_excess_def NX_NIC_MAX_SG_PER_TX_def MAX_BUFFERS_PER_CMD_def)
  moreover have "headers_fit ex_env (xmit_tag ex_env ex_skb) ex_skb"
    by (simp add: headers_fit_def segmented_def xmit_mss_def ex_skb_def)
  ultimately show ?thesis by (simp add: packet_ok_def pull_ok_def ex_env_def)
qed

lemma ex_brought_up: "tx_brought_up (xs_tx ex_xmit)"
  using ex_xmit_facts(1,2) by (simp add: tx_brought_up_def ex_xmit_def sample_adapter_def in_flight_def list_all_length)

text \<open>C2 Every packet is freed exactly once. In every state the transmit path can reach, the packets it has freed and the packets held
  by the slots in flight are together the packets it was given, each as often as it was given; so none is lost, none is freed twice,
  and none that is in flight has been freed. Once nothing is in flight, all have been freed.\<close>

theorem packets_freed_once:
  assumes "tx_brought_up (xs_tx s0)" "tx_reach s0 s g"
  shows "mset (freed (tx_events (xs_tx s))) + mset (held (xs_tx s)) = mset g \<and>
    (if in_flight (xs_tx s) = 0 then mset (freed (tx_events (xs_tx s))) = mset g else True)"
  using reach_own [OF assms(2,1)] by (auto simp: own_def held_def)

theorem packets_freed_once_witness:
  "\<exists>rv s' g. unm_nic_xmit_frame ex_env ex_skb ex_xmit = Some (rv, s') \<and> g = (if rv = NETDEV_TX_BUSY then [] else [9]) \<and>
     mset (freed (tx_events (xs_tx s'))) + mset (held (xs_tx s')) = mset g"
proof -
  obtain rv s' where r: "unm_nic_xmit_frame ex_env ex_skb ex_xmit = Some (rv, s')"
    using own_xmit [OF fresh_own [OF ex_brought_up] ex_packet_ok] by blast
  have "sk_id ex_skb = 9" by (simp add: ex_skb_def)
  then show ?thesis
    using packets_freed_once [OF ex_brought_up tx_reach.xmit [OF tx_reach.start ex_packet_ok r]] r by auto
qed

text \<open>C5 The transmit routine does not touch memory that is not its own: on every state the transmit path can reach and for every packet
  whose headers fit (\<open>packet_ok\<close>: 21 to 126 bytes if it is to be segmented; the routine does not test this), it ends with one of its two return values, no index having left its array, and the state it leaves is well formed:
  ring and slots have the adapter's length, both indices are inside, every slot has its array of fragments.\<close>

theorem xmit_well_formed:
  assumes "tx_brought_up (xs_tx s0)" "tx_reach s0 s g" "packet_ok e skb"
  shows "case unm_nic_xmit_frame e skb s of None \<Rightarrow> False | Some (rv, s') \<Rightarrow> ring_inv (xs_tx s') \<and> frag_arrays (xs_tx s')"
  using own_xmit [OF reach_own [OF assms(2,1)] assms(3)] by (auto simp: own_def)

theorem xmit_well_formed_witness:
  "case unm_nic_xmit_frame ex_env ex_skb ex_xmit of None \<Rightarrow> False | Some (rv, s') \<Rightarrow> ring_inv (xs_tx s') \<and> frag_arrays (xs_tx s')"
  by (rule xmit_well_formed [OF ex_brought_up tx_reach.start ex_packet_ok])


end
