(* ===== verification/P2Port.thy ===== *)
theory P2Port
  imports FwCmd
begin

text \<open>
  The port of a P2 card, \<open>driver/unm_nic_hw.c\<close>: promiscuous mode and the multicast filter (\<open>unm_nic_set_promisc_mode\<close> to
  \<open>unm_nic_set_mcast_addr\<close>) with \<open>nx_nic_p2_set_multi\<close> of \<open>driver/unm_nic_main.c\<close> above them, the station address, the frame size,
  port initialisation and the link parameters; and the readers of the flash (serial number, versions).

  The card's filter registers are a pool of unicast and a pool of multicast entries per port. \<open>filter_inv\<close> says that the entries
  are what the adapter's \<open>mc_enabled\<close> promises. The theory shows what the filter accepts after the kernel's list was set, over
  registers that read back what was written, and where the station address and the filter part.
\<close>

subsection \<open>Registers and state\<close>

definition UNM_MAC_ADDR_CNTL_REG :: u64 where "UNM_MAC_ADDR_CNTL_REG = UNM_CRB_NIU + 0x1000"
definition UNM_UNICAST_ADDR_BASE :: u64 where "UNM_UNICAST_ADDR_BASE = UNM_CRB_NIU + 0x1080"
definition UNM_MULTICAST_ADDR_BASE :: u64 where "UNM_MULTICAST_ADDR_BASE = UNM_CRB_NIU + 0x1100"
definition UNM_NIU_XGE_MAX_FRAME_SIZE :: u64 where "UNM_NIU_XGE_MAX_FRAME_SIZE = UNM_CRB_NIU + 0x7001c"
definition UNM_NIU_XG1_MAX_FRAME_SIZE :: u64 where "UNM_NIU_XG1_MAX_FRAME_SIZE = UNM_CRB_NIU + 0x8001c"
definition MTU_FUDGE_FACTOR :: int where "MTU_FUDGE_FACTOR = 100"

definition UNM_UNICAST_ADDR :: "int \<Rightarrow> nat \<Rightarrow> u64" where
  "UNM_UNICAST_ADDR port i = UNM_UNICAST_ADDR_BASE + of_int port * 32 + of_nat i * 8"

definition UNM_MCAST_ADDR :: "int \<Rightarrow> nat \<Rightarrow> u64" where
  "UNM_MCAST_ADDR port i = UNM_MULTICAST_ADDR_BASE + of_int port * 0x80 + of_nat i * 8"

text \<open>\<open>p_xgbe\<close> is \<open>ahw.board_type == UNM_NIC_XGBE\<close>.\<close>

record p2_adapter =
  p_cfg :: niu_cfg
  p_xgbe :: bool
  p_promisc :: bool
  p_mc_enabled :: bool
  p_mac :: macaddr
  p_max_mc :: nat

subsection \<open>Promiscuous mode\<close>

definition unm_nic_set_promisc_mode :: "'h bus \<Rightarrow> p2_adapter \<Rightarrow> ('h, int \<times> p2_adapter) io" where
  "unm_nic_set_promisc_mode B a =
     (if p_promisc a then ret (0, a)
      else do {
        rv \<leftarrow> unm_niu_xg_set_promiscuous_mode B (p_cfg a) UNM_NIU_PROMISCOUS_MODE;
        ret (rv, if rv = 0 then a\<lparr>p_promisc := True\<rparr> else a) })"

definition unm_nic_unset_promisc_mode :: "'h bus \<Rightarrow> p2_adapter \<Rightarrow> ('h, int \<times> p2_adapter) io" where
  "unm_nic_unset_promisc_mode B a =
     (if rev_p3 (p_cfg a) \<or> \<not> p_promisc a then ret (0, a)
      else do {
        rv \<leftarrow> unm_niu_xg_set_promiscuous_mode B (p_cfg a) UNM_NIU_NON_PROMISCOUS_MODE;
        ret (rv, if rv = 0 then a\<lparr>p_promisc := False\<rparr> else a) })"

subsection \<open>The multicast filter\<close>

text \<open>\<open>memcpy(&val, addr, 3)\<close> over a word whose top byte is 0.\<close>

definition mac_lo3 :: "macaddr \<Rightarrow> u32" where
  "mac_lo3 m = (case m of (a, b, c, d, e, f) \<Rightarrow> le32 a b c 0)"

definition mac_hi3 :: "macaddr \<Rightarrow> u32" where
  "mac_hi3 m = (case m of (a, b, c, d, e, f) \<Rightarrow> le32 d e f 0)"

text \<open>\<open>unm_mac_addr_cntl_t\<close>: pools 0 to 3 in order, extended; the mode; all four pools enabled.\<close>

definition mac_addr_cntl :: "bool \<Rightarrow> u32" where
  "mac_addr_cntl xgbe =
     put_bits 0 2 0 (put_bits 4 2 1 (put_bits 8 2 2 (put_bits 12 2 3
       (put_bits 2 1 1 (put_bits 6 1 1 (put_bits 10 1 1 (put_bits 14 1 1
         (put_bits 24 2 (if xgbe then 3 else 0) (put_bits 28 4 0xf 0)))))))))"

definition unm_nic_enable_mcast_filter :: "'h bus \<Rightarrow> p2_adapter \<Rightarrow> ('h, p2_adapter) io" where
  "unm_nic_enable_mcast_filter B a =
     (if p_mc_enabled a then ret a
      else let port = physical_port (p_cfg a) in do {
        NXWR32 B UNM_MAC_ADDR_CNTL_REG (mac_addr_cntl (p_xgbe a));
        NXWR32 B (UNM_UNICAST_ADDR port 0) 0xffffff;
        NXWR32 B (UNM_UNICAST_ADDR port 0 + 4) 0xffffff;
        NXWR32 B (UNM_UNICAST_ADDR port 1) (mac_lo3 (p_mac a));
        NXWR32 B (UNM_UNICAST_ADDR port 1 + 4) (mac_hi3 (p_mac a));
        ret (a\<lparr>p_mc_enabled := True\<rparr>) })"

definition unm_nic_disable_mcast_filter :: "'h bus \<Rightarrow> p2_adapter \<Rightarrow> ('h, p2_adapter) io" where
  "unm_nic_disable_mcast_filter B a =
     (if \<not> p_mc_enabled a then ret a
      else let port = physical_port (p_cfg a) in do {
        NXWR32 B UNM_MAC_ADDR_CNTL_REG 0;
        NXWR32 B (UNM_UNICAST_ADDR port 0) (mac_lo3 (p_mac a));
        NXWR32 B (UNM_UNICAST_ADDR port 0 + 4) (mac_hi3 (p_mac a));
        ret (a\<lparr>p_mc_enabled := False\<rparr>) })"

definition unm_nic_set_mcast_addr :: "'h bus \<Rightarrow> p2_adapter \<Rightarrow> nat \<Rightarrow> macaddr \<Rightarrow> ('h, unit) io" where
  "unm_nic_set_mcast_addr B a i m = do {
     NXWR32 B (UNM_MCAST_ADDR (physical_port (p_cfg a)) i) (mac_lo3 m);
     NXWR32 B (UNM_MCAST_ADDR (physical_port (p_cfg a)) i + 4) (mac_hi3 m) }"

text \<open>The two loops of \<open>nx_nic_p2_set_multi\<close>: the addresses of the list from index \<open>i\<close> on, and the rest cleared.\<close>

fun set_mcast_addrs :: "'h bus \<Rightarrow> p2_adapter \<Rightarrow> nat \<Rightarrow> macaddr list \<Rightarrow> ('h, unit) io" where
  "set_mcast_addrs B a i [] = ret ()"
| "set_mcast_addrs B a i (m # ms) = do { unm_nic_set_mcast_addr B a i m; set_mcast_addrs B a (i + 1) ms }"

definition null_addr :: macaddr where "null_addr = (0, 0, 0, 0, 0, 0)"

definition nx_nic_p2_set_multi :: "'h bus \<Rightarrow> bool \<Rightarrow> nat \<Rightarrow> macaddr list \<Rightarrow> p2_adapter \<Rightarrow> ('h, p2_adapter) io" where
  "nx_nic_p2_set_multi B iff_promisc mc_count mc_list a =
     (if iff_promisc \<or> p_max_mc a < mc_count then do {
        (rv, a) \<leftarrow> unm_nic_set_promisc_mode B a;
        unm_nic_disable_mcast_filter B a }
      else if mc_count = 0 then do {
        (rv, a) \<leftarrow> unm_nic_unset_promisc_mode B a;
        unm_nic_disable_mcast_filter B a }
      else do {
        (rv, a) \<leftarrow> unm_nic_set_promisc_mode B a;
        a \<leftarrow> unm_nic_enable_mcast_filter B a;
        set_mcast_addrs B a 0 mc_list;
        set_mcast_addrs B a (length mc_list) (replicate (p_max_mc a - length mc_list) null_addr);
        ret a })"

subsection \<open>Address, frame size, port\<close>

definition unm_nic_p2_macaddr_set :: "'h bus \<Rightarrow> p2_adapter \<Rightarrow> macaddr \<Rightarrow> ('h, int) io" where
  "unm_nic_p2_macaddr_set B a m = unm_niu_xg_macaddr_set B (p_cfg a) m"

definition nx_nic_p2_set_mtu :: "'h bus \<Rightarrow> p2_adapter \<Rightarrow> int \<Rightarrow> ('h, int) io" where
  "nx_nic_p2_set_mtu B a mtu = do {
     NXWR32 B (if physical_port (p_cfg a) = 0 then UNM_NIU_XGE_MAX_FRAME_SIZE else UNM_NIU_XG1_MAX_FRAME_SIZE)
       (word_of_int (mtu + MTU_FUDGE_FACTOR));
     ret 0 }"

definition nx_nic_p2_stop_port :: "'h bus \<Rightarrow> p2_adapter \<Rightarrow> ('h, p2_adapter) io" where
  "nx_nic_p2_stop_port B a = do {
     rv \<leftarrow> unm_niu_disable_xg_port B (p_cfg a);
     ret (a\<lparr>p_promisc := False\<rparr>) }"

text \<open>What \<open>unm_nic_set_mac\<close> does of it: the new address is stored and, with the adapter up, given to the port.\<close>

definition unm_nic_set_mac :: "'h bus \<Rightarrow> bool \<Rightarrow> macaddr \<Rightarrow> p2_adapter \<Rightarrow> ('h, p2_adapter) io" where
  "unm_nic_set_mac B up m a = do {
     rv \<leftarrow> (if up then unm_nic_p2_macaddr_set B (a\<lparr>p_mac := m\<rparr>) m else ret 0);
     ret (a\<lparr>p_mac := m\<rparr>) }"

subsection \<open>Link parameters\<close>

text \<open>Speed and duplex are \<open>-1\<close> (or \<open>0xffff\<close> and \<open>0xff\<close> in their fields) when unknown; \<open>lp_state\<close> is the port's state.\<close>

record link_params =
  lp_speed :: int
  lp_duplex :: int
  lp_autoneg :: u32
  lp_state :: int

definition AUTONEG_DISABLE :: u32 where "AUTONEG_DISABLE = 0"
definition AUTONEG_ENABLE :: u32 where "AUTONEG_ENABLE = 1"
definition PORT_UP :: int where "PORT_UP = 1"

definition phy_link :: "u32 \<Rightarrow> bool" where "phy_link s \<longleftrightarrow> bit s 10"
definition phy_speed :: "u32 \<Rightarrow> int" where
  "phy_speed s = (let v = get_bits 14 2 s in if v = 0 then 10 else if v = 1 then 100 else if v = 2 then 1000 else - 1)"
definition phy_duplex :: "u32 \<Rightarrow> int" where "phy_duplex s = (if bit s 13 then 1 else 0)"

definition link_unknown :: "link_params \<Rightarrow> link_params" where
  "link_unknown l = l\<lparr>lp_state := - 1, lp_speed := - 1, lp_duplex := - 1\<rparr>"

text \<open>\<open>carrier\<close> is the state of the carrier, \<open>gbe\<close> whether the board is a 1G board, \<open>stack\<close> what the uninitialised variable
  \<open>autoneg\<close> holds.\<close>

definition unm_nic_set_link_parameters ::
    "'h bus \<Rightarrow> bool \<Rightarrow> bool \<Rightarrow> u32 \<Rightarrow> u32 \<Rightarrow> link_params \<Rightarrow> ('h, link_params) io" where
  "unm_nic_set_link_parameters B carrier gbe pn stack l = do {
     port_mode \<leftarrow> NXRD32 B UNM_PORT_MODE_ADDR;
     if \<not> carrier then
       ret (l\<lparr>lp_speed := 0, lp_duplex := - 1,
         lp_autoneg := (if port_mode = UNM_PORT_MODE_802_3_AP then AUTONEG_DISABLE else AUTONEG_ENABLE)\<rparr>)
     else if port_mode = UNM_PORT_MODE_802_3_AP then
       ret (l\<lparr>lp_state := PORT_UP, lp_speed := 1000, lp_duplex := 1, lp_autoneg := AUTONEG_DISABLE\<rparr>)
     else if \<not> gbe then ret l
     else do {
       (rc, st) \<leftarrow> nx_fw_cmd_query_phy B pn 17;
       case st of
         None \<Rightarrow> ret (link_unknown l)
       | Some s \<Rightarrow>
           if \<not> phy_link s then ret (link_unknown l)
           else do {
             (rc', v) \<leftarrow> nx_fw_cmd_query_phy B pn 4;
             ret (l\<lparr>lp_autoneg := (if rc' \<noteq> NX_RCODE_SUCCESS then stack else lp_autoneg l), lp_state := 1,
               lp_speed := phy_speed s, lp_duplex := phy_duplex s\<rparr>) } } }"

text \<open>The port number scales the register addresses; a P3 card's port is set up by the firmware.\<close>

definition unm_nic_init_port ::
    "'h bus \<Rightarrow> bool \<Rightarrow> bool \<Rightarrow> u32 \<Rightarrow> u32 \<Rightarrow> p2_adapter \<Rightarrow> link_params \<Rightarrow> ('h, link_params) io" where
  "unm_nic_init_port B carrier gbe pn stack a l =
     (let off = of_int (physical_port (p_cfg a)) * 0x10000 in do {
      l \<leftarrow> unm_nic_set_link_parameters B carrier gbe pn stack l;
      if rev_p3 (p_cfg a) then ret l
      else do {
        NXWR32 B (UNM_NIU_XGE_CONFIG_0 + off) 0x5;
        reg \<leftarrow> NXRD32 B (UNM_NIU_XGE_CONFIG_1 + off);
        NXWR32 B (UNM_NIU_XGE_CONFIG_1 + off) (reg AND NOT 0x2000);
        ret l } })"

subsection \<open>Reading the flash\<close>

definition USER_START :: u32 where "USER_START = 0x3E8000"

text \<open>Consecutive words up to the first failure.\<close>

fun read_flash_words :: "'h bus \<Rightarrow> nat \<Rightarrow> u32 \<Rightarrow> ('h, u32 list option) io" where
  "read_flash_words B 0 a = ret (Some [])"
| "read_flash_words B (Suc n) a = do {
     r \<leftarrow> rom_fast_read B a;
     case r of
       None \<Rightarrow> ret None
     | Some w \<Rightarrow> do {
         ws \<leftarrow> read_flash_words B n (a + 4);
         ret (map_option ((#) w) ws) } }"

definition nx_flash_read_version :: "'h bus \<Rightarrow> u32 \<Rightarrow> ('h, (u32 \<times> u32 \<times> u32) option) io" where
  "nx_flash_read_version B off = do {
     r \<leftarrow> rom_fast_read B off;
     ret (map_option (\<lambda>v. (v AND 0xff, drop_bit 8 v AND 0xff, drop_bit 16 v)) r) }"

text \<open>\<open>unm_user_info_t\<close> is 536 words, of which the serial number is words 519 to 526.\<close>

definition word_bytes4 :: "u32 \<Rightarrow> u8 list" where
  "word_bytes4 w = [ucast w, ucast (drop_bit 8 w), ucast (drop_bit 16 w), ucast (drop_bit 24 w)]"

definition unm_nic_get_serial_num :: "'h bus \<Rightarrow> bool \<Rightarrow> u8 list \<Rightarrow> ('h, u8 list) io" where
  "unm_nic_get_serial_num B kmalloc_ok ident =
     (if \<not> kmalloc_ok then ret ident
      else do {
        r \<leftarrow> read_flash_words B 536 USER_START;
        ret (case r of None \<Rightarrow> ident | Some ws \<Rightarrow> concat (map word_bytes4 (take 8 (drop 519 ws)))) })"

subsection \<open>Which registers a program writes\<close>

definition touches :: "u64 set \<Rightarrow> (u64 \<Rightarrow> u32, 'a) io \<Rightarrow> bool" where
  "touches S p \<longleftrightarrow> (\<forall>d a. a \<notin> S \<longrightarrow> hw (snd (run_state p d)) a = hw d a)"

lemma touches_D: "touches S p \<Longrightarrow> run_state p d = (x, d') \<Longrightarrow> a \<notin> S \<Longrightarrow> hw d' a = hw d a"
  by (metis touches_def snd_conv)

lemma touches_bind:
  assumes "touches S p" "\<And>x. touches S (f x)" shows "touches S (State_Monad.bind p f)"
proof -
  have "hw (snd (run_state (State_Monad.bind p f) d)) a = hw d a" if "a \<notin> S" for d a
  proof -
    obtain x d' where r: "run_state p d = (x, d')" by (metis surj_pair)
    have "hw (snd (run_state (f x) d')) a = hw d' a" using assms(2) that by (simp add: touches_def)
    then show ?thesis using touches_D [OF assms(1) r that] by (simp add: run_bind r)
  qed
  then show ?thesis by (simp add: touches_def)
qed

lemma touches_ret: "touches S (ret x)"
  by (simp add: touches_def run_ret)

lemma touches_rd: "touches S (NXRD32 mem_bus a)"
  by (simp add: touches_def io_simps)

lemma touches_wr: "a \<in> S \<Longrightarrow> touches S (NXWR32 mem_bus a v)"
  by (auto simp: touches_def io_simps)

lemma touches_if: "touches S p \<Longrightarrow> touches S q \<Longrightarrow> touches S (if b then p else q)"
  by simp

lemmas touches_intros = touches_bind touches_ret touches_rd touches_wr touches_if

lemma touches_drain: "touches S (drain_wait mem_bus n)"
  by (induction n) (auto intro!: touches_intros)

subsection \<open>The addresses\<close>

text \<open>All registers here are in the window of the network interface unit.\<close>

definition niu :: "int \<Rightarrow> u64" where "niu k = UNM_CRB_NIU + word_of_int k"

lemma uint_niu: "0 \<le> k \<Longrightarrow> k < 0x100000 \<Longrightarrow> uint (niu k) = uint UNM_CRB_NIU + k"
  by (simp add: niu_def niu_addrs uint_word_ariths uint_word_of_int)

lemma niu_inject: "0 \<le> j \<Longrightarrow> j < 0x100000 \<Longrightarrow> 0 \<le> k \<Longrightarrow> k < 0x100000 \<Longrightarrow> niu j = niu k \<longleftrightarrow> j = k"
  by (metis add_left_cancel uint_niu)

lemma niu_plus: "niu k + word_of_int i = niu (k + i)"
  by (simp add: niu_def wi_hom_syms ac_simps)

lemma port_regs:
  "UNM_MAC_ADDR_CNTL_REG = niu 0x1000" "UNM_UNICAST_ADDR port i = niu (0x1080 + port * 32 + int i * 8)"
  "UNM_MCAST_ADDR port i = niu (0x1100 + port * 0x80 + int i * 8)"
  "UNM_NIU_GB_DROP_WRONGADDR = niu 0x90" "UNM_NIU_FRAME_COUNT_SELECT = niu 0xac"
  "UNM_NIU_XGE_CONFIG_0 + of_int port * 0x10000 = niu (0x70000 + port * 0x10000)"
  "UNM_NIU_XGE_CONFIG_1 + of_int port * 0x10000 = niu (0x70004 + port * 0x10000)"
  by (simp_all add: niu_def UNM_MAC_ADDR_CNTL_REG_def UNM_UNICAST_ADDR_def UNM_UNICAST_ADDR_BASE_def UNM_MCAST_ADDR_def
      UNM_MULTICAST_ADDR_BASE_def UNM_NIU_GB_DROP_WRONGADDR_def UNM_NIU_FRAME_COUNT_SELECT_def UNM_NIU_XGE_CONFIG_0_def
      UNM_NIU_XGE_CONFIG_1_def)

lemma port_regs4:
  "UNM_UNICAST_ADDR port i + 4 = niu (0x1084 + port * 32 + int i * 8)" "UNM_MCAST_ADDR port i + 4 = niu (0x1104 + port * 0x80 + int i * 8)"
  by (simp_all add: niu_def UNM_UNICAST_ADDR_def UNM_UNICAST_ADDR_BASE_def UNM_MCAST_ADDR_def UNM_MULTICAST_ADDR_BASE_def)

text \<open>The filter's registers start at \<open>0x1000\<close> of the unit and end before \<open>0x1300\<close>.\<close>

definition filter_regs :: "u64 set" where "filter_regs = niu ` {0x1000..<0x1300}"

lemma promisc_touches:
  assumes "0 \<le> physical_port c" "physical_port c \<le> 3"
  shows "touches (- filter_regs) (unm_niu_xg_set_promiscuous_mode mem_bus c m)"
proof -
  have "niu k \<in> - filter_regs" if "0 \<le> k" "k < 0x100000" "k < 0x1000 \<or> 0x1300 \<le> k" for k
    by (auto simp: filter_regs_def) (use that niu_inject in force)+
  then have "UNM_NIU_GB_DROP_WRONGADDR \<in> - filter_regs" "UNM_NIU_FRAME_COUNT_SELECT \<in> - filter_regs"
    "UNM_NIU_XGE_CONFIG_0 + of_int (physical_port c) * 0x10000 \<in> - filter_regs"
    "UNM_NIU_XGE_CONFIG_1 + of_int (physical_port c) * 0x10000 \<in> - filter_regs"
    unfolding port_regs using assms by auto
  then show ?thesis
    unfolding unm_niu_xg_set_promiscuous_mode_def Let_def by (intro touches_intros touches_drain)
qed

lemma set_promisc_spec:
  assumes "0 \<le> physical_port (p_cfg a)" "physical_port (p_cfg a) \<le> 3"
  shows "\<exists>rv x d'. run_state (unm_nic_set_promisc_mode mem_bus a) d = ((rv, a\<lparr>p_promisc := x\<rparr>), d') \<and>
    (\<forall>k \<in> filter_regs. hw d' k = hw d k)"
proof (cases "p_promisc a")
  case True
  then have "run_state (unm_nic_set_promisc_mode mem_bus a) d = ((0, a\<lparr>p_promisc := True\<rparr>), d)"
    by (simp add: unm_nic_set_promisc_mode_def io_simps)
  then show ?thesis by blast
next
  case False
  obtain rv d' where r: "run_state (unm_niu_xg_set_promiscuous_mode mem_bus (p_cfg a) UNM_NIU_PROMISCOUS_MODE) d = (rv, d')"
    by (metis surj_pair)
  have "\<forall>k \<in> filter_regs. hw d' k = hw d k" using touches_D [OF promisc_touches [OF assms] r] by auto
  moreover have "run_state (unm_nic_set_promisc_mode mem_bus a) d = ((rv, a\<lparr>p_promisc := (rv = 0)\<rparr>), d')"
    using False by (simp add: unm_nic_set_promisc_mode_def io_simps r)
  ultimately show ?thesis by blast
qed

text \<open>Writing the list: the entries written are those of the list, and nothing else is written.\<close>

lemma div8:
  "0 \<le> (r :: int) \<Longrightarrow> r < 8 \<Longrightarrow> j * 8 + r = i * 8 + 4 \<longleftrightarrow> j = i \<and> r = 4" "0 \<le> (r :: int) \<Longrightarrow> r < 8 \<Longrightarrow> j * 8 + r = i * 8 \<longleftrightarrow> j = i \<and> r = 0"
  by presburger+

lemma set_mcast_addrs_spec:
  assumes "0 \<le> physical_port (p_cfg a)" "physical_port (p_cfg a) \<le> 3" "i + length ms \<le> 16"
  shows "\<exists>d'. run_state (set_mcast_addrs mem_bus a i ms) d = ((), d') \<and>
    (\<forall>k. 0 \<le> k \<and> k < 0x100000 \<longrightarrow> hw d' (niu k) =
       (let j = (k - 0x1100 - physical_port (p_cfg a) * 0x80) div 8; r = (k - 0x1100 - physical_port (p_cfg a) * 0x80) mod 8 in
        if int i \<le> j \<and> j < int (i + length ms) \<and> r = 0 then mac_lo3 (ms ! (nat j - i))
        else if int i \<le> j \<and> j < int (i + length ms) \<and> r = 4 then mac_hi3 (ms ! (nat j - i))
        else hw d (niu k)))"
  using assms(3)
proof (induction ms arbitrary: i d)
  case Nil
  have no: "(int i \<le> j \<and> j < int (i + length ([] :: macaddr list)) \<and> P) = False" for j P by simp
  show ?case unfolding Let_def no if_False by (simp add: io_simps)
next
  case (Cons m ms)
  let ?p = "physical_port (p_cfg a)"
  let ?d = "snd (run_state (unm_nic_set_mcast_addr mem_bus a i m) d)"
  have w: "hw ?d (niu k) = (if k = 0x1104 + ?p * 0x80 + int i * 8 then mac_hi3 m
      else if k = 0x1100 + ?p * 0x80 + int i * 8 then mac_lo3 m else hw d (niu k))" if "0 \<le> k" "k < 0x100000" for k
    using that assms Cons.prems niu_inject [of k "0x1104 + ?p * 0x80 + int i * 8"] niu_inject [of k "0x1100 + ?p * 0x80 + int i * 8"]
    unfolding unm_nic_set_mcast_addr_def port_regs4 unfolding port_regs by (simp add: io_simps)
  obtain d' where r: "run_state (set_mcast_addrs mem_bus a (Suc i) ms) ?d = ((), d')" and
    k: "\<forall>k. 0 \<le> k \<and> k < 0x100000 \<longrightarrow> hw d' (niu k) =
       (let j = (k - 0x1100 - ?p * 0x80) div 8; r = (k - 0x1100 - ?p * 0x80) mod 8 in
        if int (Suc i) \<le> j \<and> j < int (Suc i + length ms) \<and> r = 0 then mac_lo3 (ms ! (nat j - Suc i))
        else if int (Suc i) \<le> j \<and> j < int (Suc i + length ms) \<and> r = 4 then mac_hi3 (ms ! (nat j - Suc i))
        else hw ?d (niu k))"
    using Cons.IH [of "Suc i" ?d] Cons.prems by auto
  have run: "run_state (set_mcast_addrs mem_bus a i (m # ms)) d = ((), d')"
  proof -
    obtain d1 where "run_state (unm_nic_set_mcast_addr mem_bus a i m) d = ((), d1)" by (metis surj_pair unit.exhaust)
    then show ?thesis using r by (simp add: io_simps)
  qed
  have "hw d' (niu k) =
       (let j = (k - 0x1100 - ?p * 0x80) div 8; r = (k - 0x1100 - ?p * 0x80) mod 8 in
        if int i \<le> j \<and> j < int (i + length (m # ms)) \<and> r = 0 then mac_lo3 ((m # ms) ! (nat j - i))
        else if int i \<le> j \<and> j < int (i + length (m # ms)) \<and> r = 4 then mac_hi3 ((m # ms) ! (nat j - i))
        else hw d (niu k))" if kb: "0 \<le> k" "k < 0x100000" for k
  proof -
    define j r where "j = (k - 0x1100 - ?p * 0x80) div 8" and "r = (k - 0x1100 - ?p * 0x80) mod 8"
    have kk: "k = 0x1100 + ?p * 0x80 + j * 8 + r" "0 \<le> r" "r < 8" unfolding j_def r_def by simp_all
    have e0: "hw d' (niu k) = (if int (Suc i) \<le> j \<and> j < int (Suc i + length ms) \<and> r = 0 then mac_lo3 (ms ! (nat j - Suc i))
        else if int (Suc i) \<le> j \<and> j < int (Suc i + length ms) \<and> r = 4 then mac_hi3 (ms ! (nat j - Suc i))
        else hw ?d (niu k))"
      using k [rule_format, OF conjI [OF kb]] unfolding Let_def j_def [symmetric] r_def [symmetric] .
    have e1: "hw ?d (niu k) = (if j = int i \<and> r = 4 then mac_hi3 m else if j = int i \<and> r = 0 then mac_lo3 m else hw d (niu k))"
    proof -
      have "k = 0x1104 + ?p * 0x80 + int i * 8 \<longleftrightarrow> j = int i \<and> r = 4" "k = 0x1100 + ?p * 0x80 + int i * 8 \<longleftrightarrow> j = int i \<and> r = 0"
        using div8 [OF kk(2,3), of j "int i"] kk(1) by auto
      then show ?thesis by (simp only: w [OF kb])
    qed
    show ?thesis
    proof (cases "j = int i")
      case True
      then have "\<not> int (Suc i) \<le> j" "nat j - i = 0" "int i \<le> j \<and> j < int (i + length (m # ms))" by simp_all
      then show ?thesis unfolding Let_def j_def [symmetric] r_def [symmetric] e0 e1 using True by simp
    next
      case False
      then have "int i \<le> j \<longleftrightarrow> int (Suc i) \<le> j" "int (Suc i + length ms) = int (i + length (m # ms))" by auto
      moreover have "(m # ms) ! (nat j - i) = ms ! (nat j - Suc i)" if "int (Suc i) \<le> j"
      proof -
        have "nat j - i = Suc (nat j - Suc i)" using that by simp
        then show ?thesis by (simp only: nth_Cons_Suc)
      qed
      ultimately show ?thesis unfolding Let_def j_def [symmetric] r_def [symmetric] e0 e1 using False by auto
    qed
  qed
  then show ?case using run by blast
qed

text \<open>What the filter accepts: the multicast pool of a port, and its two unicast entries.\<close>

definition mcast_pool :: "int \<Rightarrow> nat \<Rightarrow> (u64 \<Rightarrow> u32) \<Rightarrow> (u32 \<times> u32) list" where
  "mcast_pool port n h = map (\<lambda>i. (h (UNM_MCAST_ADDR port i), h (UNM_MCAST_ADDR port i + 4))) [0..<n]"

definition unicast_pool :: "int \<Rightarrow> (u64 \<Rightarrow> u32) \<Rightarrow> (u32 \<times> u32) list" where
  "unicast_pool port h = map (\<lambda>i. (h (UNM_UNICAST_ADDR port i), h (UNM_UNICAST_ADDR port i + 4))) [0..<2]"

definition mac_entry :: "macaddr \<Rightarrow> u32 \<times> u32" where "mac_entry m = (mac_lo3 m, mac_hi3 m)"

definition filter_after :: "p2_adapter \<Rightarrow> macaddr list \<Rightarrow> (u64 \<Rightarrow> u32) \<Rightarrow> p2_adapter \<Rightarrow> (u64 \<Rightarrow> u32) \<Rightarrow> bool" where
  "filter_after a ms h b h' \<longleftrightarrow>
     (let port = physical_port (p_cfg a) in
      p_mc_enabled b \<and> p_mac b = p_mac a \<and>
      mcast_pool port (p_max_mc a) h' = map mac_entry ms @ replicate (p_max_mc a - length ms) (0, 0) \<and>
      unicast_pool port h' = (if p_mc_enabled a then unicast_pool port h else [(0xffffff, 0xffffff), mac_entry (p_mac a)]) \<and>
      h' UNM_MAC_ADDR_CNTL_REG = (if p_mc_enabled a then h UNM_MAC_ADDR_CNTL_REG else mac_addr_cntl (p_xgbe a)))"

lemma null_entry: "mac_lo3 null_addr = 0" "mac_hi3 null_addr = 0"
  by (simp_all add: mac_lo3_def mac_hi3_def null_addr_def le32_def)

lemma filter_regs_mem: "0x1000 \<le> k \<Longrightarrow> k < 0x1300 \<Longrightarrow> niu k \<in> filter_regs"
  by (simp add: filter_regs_def)

lemma port_cases: "0 \<le> (p :: int) \<Longrightarrow> p \<le> 3 \<Longrightarrow> p = 0 \<or> p = 1 \<or> p = 2 \<or> p = 3"
  by auto

lemma two: "[0..<2] = [0, 1 :: nat]"
  by (simp add: upt_rec)

lemma unicast_pool_niu:
  "unicast_pool p h = [(h (niu (0x1080 + p * 32)), h (niu (0x1084 + p * 32))), (h (niu (0x1088 + p * 32)), h (niu (0x108c + p * 32)))]"
  unfolding unicast_pool_def two list.map port_regs4 unfolding port_regs by (simp add: ac_simps)

lemma mcast_pool_niu:
  "mcast_pool p n h = map (\<lambda>i. (h (niu (0x1100 + p * 0x80 + int i * 8)), h (niu (0x1104 + p * 0x80 + int i * 8)))) [0..<n]"
  unfolding mcast_pool_def port_regs4 unfolding port_regs ..

text \<open>The writes of \<open>unm_nic_enable_mcast_filter\<close>.\<close>

definition enable_writes :: "int \<Rightarrow> u32 \<Rightarrow> u32 \<times> u32 \<Rightarrow> (u64 \<Rightarrow> u32) \<Rightarrow> u64 \<Rightarrow> u32" where
  "enable_writes p c m h = h(niu 0x1000 := c, niu (0x1080 + p * 32) := 0xffffff, niu (0x1084 + p * 32) := 0xffffff,
     niu (0x1088 + p * 32) := fst m, niu (0x108c + p * 32) := snd m)"

lemma enable_writes_get:
  assumes "0 \<le> p" "p \<le> 3"
  shows "unicast_pool p (enable_writes p c m h) = [(0xffffff, 0xffffff), m]" "enable_writes p c m h (niu 0x1000) = c"
    "0x1100 \<le> k \<Longrightarrow> k < 0x1300 \<Longrightarrow> enable_writes p c m h (niu k) = h (niu k)"
    "0 \<le> q \<Longrightarrow> q \<le> 3 \<Longrightarrow> q \<noteq> p \<Longrightarrow> unicast_pool q (enable_writes p c m h) = unicast_pool q h"
proof -
  show "unicast_pool p (enable_writes p c m h) = [(0xffffff, 0xffffff), m]" "enable_writes p c m h (niu 0x1000) = c"
    using assms by (simp_all add: unicast_pool_niu enable_writes_def niu_inject)
  show "enable_writes p c m h (niu k) = h (niu k)" if "0x1100 \<le> k" "k < 0x1300"
    using assms that by (simp add: enable_writes_def niu_inject)
  show "unicast_pool q (enable_writes p c m h) = unicast_pool q h" if "0 \<le> q" "q \<le> 3" "q \<noteq> p"
    using port_cases [OF assms] port_cases [OF that(1,2)] that(3)
    by (elim disjE) (simp_all add: unicast_pool_niu enable_writes_def niu_inject)
qed

lemma enable_spec:
  "\<exists>d'. run_state (unm_nic_enable_mcast_filter mem_bus a) d = (a\<lparr>p_mc_enabled := True\<rparr>, d') \<and>
    hw d' = (if p_mc_enabled a then hw d
             else enable_writes (physical_port (p_cfg a)) (mac_addr_cntl (p_xgbe a)) (mac_entry (p_mac a)) (hw d))"
  unfolding unm_nic_enable_mcast_filter_def Let_def port_regs4 unfolding port_regs
  by (simp add: io_simps mac_entry_def enable_writes_def)

lemma p2_set_multi_spec:
  assumes "0 \<le> physical_port (p_cfg a)" "physical_port (p_cfg a) \<le> 3" "p_max_mc a \<le> 16" "ms \<noteq> []" "length ms \<le> p_max_mc a"
  shows "\<exists>b d'. run_state (nx_nic_p2_set_multi mem_bus False (length ms) ms a) d = (b, d') \<and> filter_after a ms (hw d) b (hw d') \<and>
    (\<forall>q n. 0 \<le> q \<and> q \<le> 3 \<and> q \<noteq> physical_port (p_cfg a) \<and> n \<le> 16 \<longrightarrow>
       mcast_pool q n (hw d') = mcast_pool q n (hw d) \<and> unicast_pool q (hw d') = unicast_pool q (hw d))"
proof -
  let ?p = "physical_port (p_cfg a)" and ?n = "p_max_mc a"
  obtain rv x d1 where 1: "run_state (unm_nic_set_promisc_mode mem_bus a) d = ((rv, a\<lparr>p_promisc := x\<rparr>), d1)"
    "\<forall>k \<in> filter_regs. hw d1 k = hw d k"
    using set_promisc_spec [OF assms(1,2)] by blast
  define a1 where "a1 = a\<lparr>p_promisc := x\<rparr>"
  have a1: "p_cfg a1 = p_cfg a" "p_max_mc a1 = p_max_mc a" "p_mac a1 = p_mac a" "p_mc_enabled a1 = p_mc_enabled a" "p_xgbe a1 = p_xgbe a"
    by (simp_all add: a1_def)
  let ?a = "a1\<lparr>p_mc_enabled := True\<rparr>"
  obtain d2 where 2: "run_state (unm_nic_enable_mcast_filter mem_bus a1) d1 = (?a, d2)"
    and d2: "hw d2 = (if p_mc_enabled a then hw d1 else enable_writes ?p (mac_addr_cntl (p_xgbe a)) (mac_entry (p_mac a)) (hw d1))"
    using enable_spec [of a1 d1] unfolding a1 by blast
  note eg = enable_writes_get [OF assms(1,2)]
  have 22: "hw d2 (niu k) = hw d1 (niu k)" if "0x1100 \<le> k" "k < 0x1300" for k
    unfolding d2 using eg(3) [OF that] by simp
  have 23: "unicast_pool ?p (hw d2) = (if p_mc_enabled a then unicast_pool ?p (hw d1) else [(0xffffff, 0xffffff), mac_entry (p_mac a)])"
    unfolding d2 using eg(1) by simp
  have 24: "unicast_pool q (hw d2) = unicast_pool q (hw d1)" if "0 \<le> q" "q \<le> 3" "q \<noteq> ?p" for q
    unfolding d2 using eg(4) [OF that] by simp
  have 25: "hw d2 UNM_MAC_ADDR_CNTL_REG = (if p_mc_enabled a then hw d1 UNM_MAC_ADDR_CNTL_REG else mac_addr_cntl (p_xgbe a))"
    unfolding d2 port_regs(1) using eg(2) by simp
  let ?rest = "replicate (?n - length ms) null_addr" and ?j = "\<lambda>k. (k - 0x1100 - ?p * 0x80) div 8" and ?r = "\<lambda>k. (k - 0x1100 - ?p * 0x80) mod 8"
  have cfg: "physical_port (p_cfg ?a) = ?p" using a1 by simp
  have le: "0 + length ms \<le> 16" "length ms + length ?rest \<le> 16" using assms by simp_all
  obtain d3 where 3: "run_state (set_mcast_addrs mem_bus ?a 0 ms) d2 = ((), d3)"
    "\<forall>k. 0 \<le> k \<and> k < 0x100000 \<longrightarrow> hw d3 (niu k) =
       (if int 0 \<le> ?j k \<and> ?j k < int (0 + length ms) \<and> ?r k = 0 then mac_lo3 (ms ! (nat (?j k) - 0))
        else if int 0 \<le> ?j k \<and> ?j k < int (0 + length ms) \<and> ?r k = 4 then mac_hi3 (ms ! (nat (?j k) - 0))
        else hw d2 (niu k))"
    using set_mcast_addrs_spec [of ?a 0 ms d2, unfolded cfg Let_def, OF assms(1,2) le(1)] by blast
  obtain d4 where 4: "run_state (set_mcast_addrs mem_bus ?a (length ms) ?rest) d3 = ((), d4)"
    "\<forall>k. 0 \<le> k \<and> k < 0x100000 \<longrightarrow> hw d4 (niu k) =
       (if int (length ms) \<le> ?j k \<and> ?j k < int (length ms + length ?rest) \<and> ?r k = 0 then mac_lo3 (?rest ! (nat (?j k) - length ms))
        else if int (length ms) \<le> ?j k \<and> ?j k < int (length ms + length ?rest) \<and> ?r k = 4 then mac_hi3 (?rest ! (nat (?j k) - length ms))
        else hw d3 (niu k))"
    using set_mcast_addrs_spec [of ?a "length ms" ?rest d3, unfolded cfg Let_def, OF assms(1,2) le(2)] by blast
  have run: "run_state (nx_nic_p2_set_multi mem_bus False (length ms) ms a) d = (?a, d4)"
    using 1(1) [folded a1_def] 2 3(1) 4(1) assms(4,5) a1 by (simp add: nx_nic_p2_set_multi_def io_simps)
  have jr: "?j (0x1100 + ?p * 0x80 + int i * 8) = int i" "?r (0x1100 + ?p * 0x80 + int i * 8) = 0"
    "?j (0x1104 + ?p * 0x80 + int i * 8) = int i" "?r (0x1104 + ?p * 0x80 + int i * 8) = 4" for i :: nat
    by presburger+
  have e: "hw d4 (niu (0x1100 + ?p * 0x80 + int i * 8)) = mac_lo3 ((ms @ ?rest) ! i)"
    "hw d4 (niu (0x1104 + ?p * 0x80 + int i * 8)) = mac_hi3 ((ms @ ?rest) ! i)" if "i < ?n" for i
  proof -
    have b: "0 \<le> 0x1100 + ?p * 0x80 + int i * 8 \<and> 0x1100 + ?p * 0x80 + int i * 8 < 0x100000"
      "0 \<le> 0x1104 + ?p * 0x80 + int i * 8 \<and> 0x1104 + ?p * 0x80 + int i * 8 < 0x100000" using that assms by auto
    show "hw d4 (niu (0x1100 + ?p * 0x80 + int i * 8)) = mac_lo3 ((ms @ ?rest) ! i)"
      using 3(2) [rule_format, OF b(1)] 4(2) [rule_format, OF b(1)] that unfolding jr by (cases "i < length ms") (simp_all add: nth_append)
    show "hw d4 (niu (0x1104 + ?p * 0x80 + int i * 8)) = mac_hi3 ((ms @ ?rest) ! i)"
      using 3(2) [rule_format, OF b(2)] 4(2) [rule_format, OF b(2)] that unfolding jr by (cases "i < length ms") (simp_all add: nth_append)
  qed
  have keep: "hw d4 (niu k) = hw d2 (niu k)" if "0 \<le> k" "k < 0x100000" "k < 0x1100 + ?p * 0x80 \<or> 0x1180 + ?p * 0x80 \<le> k" for k
  proof -
    have "?j k < 0 \<or> 16 \<le> ?j k" using that by presburger
    then have "(int 0 \<le> ?j k \<and> ?j k < int (0 + length ms) \<and> P) = False" "(int (length ms) \<le> ?j k \<and> ?j k < int (length ms + length ?rest) \<and> P) = False" for P
      using assms by auto
    then show ?thesis using 3(2) [rule_format, of k] 4(2) [rule_format, of k] that(1,2) by (simp only: if_False simp_thms)
  qed
  have pool: "mcast_pool ?p ?n (hw d4) = map mac_entry ms @ replicate (?n - length ms) (0, 0)"
  proof (rule nth_equalityI)
    fix i assume "i < length (mcast_pool ?p ?n (hw d4))"
    then have "i < ?n" by (simp add: mcast_pool_niu)
    then show "mcast_pool ?p ?n (hw d4) ! i = (map mac_entry ms @ replicate (?n - length ms) (0, 0)) ! i"
      using e by (auto simp: mcast_pool_niu mac_entry_def nth_append null_entry)
  qed (use assms in \<open>simp add: mcast_pool_niu\<close>)
  have uni: "unicast_pool q (hw d4) = unicast_pool q (hw d2)" if "0 \<le> q" "q \<le> 3" for q
    using that keep assms by (simp add: unicast_pool_niu)
  have uni1: "unicast_pool q (hw d1) = unicast_pool q (hw d)" if "0 \<le> q" "q \<le> 3" for q
    using that 1(2) by (simp add: unicast_pool_niu filter_regs_mem)
  have cntl: "hw d4 UNM_MAC_ADDR_CNTL_REG = hw d2 UNM_MAC_ADDR_CNTL_REG" "hw d1 UNM_MAC_ADDR_CNTL_REG = hw d UNM_MAC_ADDR_CNTL_REG"
    using keep [of "0x1000"] 1(2) assms(1,2) by (simp_all add: port_regs(1) filter_regs_mem)
  have others: "mcast_pool q n (hw d4) = mcast_pool q n (hw d)" if q: "0 \<le> q" "q \<le> 3" "q \<noteq> ?p" "n \<le> 16" for q n
  proof -
    have "hw d4 (niu (c + q * 0x80 + int i * 8)) = hw d (niu (c + q * 0x80 + int i * 8))" if i: "i < n" "c = 0x1100 \<or> c = 0x1104" for i c
    proof -
      let ?k = "c + q * 0x80 + int i * 8"
      have "0x1100 \<le> ?k" "?k < 0x1300" "?k < 0x1100 + ?p * 0x80 \<or> 0x1180 + ?p * 0x80 \<le> ?k"
        using i q assms(1,2) by (auto simp: neq_iff)
      then show ?thesis using keep [of ?k] 22 [of ?k] 1(2) filter_regs_mem [of ?k] by auto
    qed
    then show ?thesis by (simp add: mcast_pool_niu)
  qed
  have "filter_after a ms (hw d) ?a (hw d4)"
    unfolding filter_after_def Let_def using pool uni [OF assms(1,2)] uni1 [OF assms(1,2)] cntl 23 25 a1(3) by auto
  moreover have "\<forall>q n. 0 \<le> q \<and> q \<le> 3 \<and> q \<noteq> ?p \<and> n \<le> 16 \<longrightarrow>
       mcast_pool q n (hw d4) = mcast_pool q n (hw d) \<and> unicast_pool q (hw d4) = unicast_pool q (hw d)"
    using others uni uni1 24 by simp
  ultimately show ?thesis using run by blast
qed

lemma macaddr_set_touches:
  assumes "0 \<le> physical_port (p_cfg a)" "physical_port (p_cfg a) \<le> 3"
  shows "touches (- filter_regs) (unm_nic_p2_macaddr_set mem_bus a m)"
proof -
  have out: "niu k \<in> - filter_regs" if "0x1300 \<le> k" "k < 0x100000" for k
    using that by (auto simp: filter_regs_def niu_inject)
  have "UNM_NIU_AP_STATION_ADDR_0 p \<in> - filter_regs \<and> UNM_NIU_AP_STATION_ADDR_1 p \<in> - filter_regs" if "0 \<le> p" "p \<le> 1" for p
    using out [of "0xa0040 + p * 0x10000"] out [of "0xa0044 + p * 0x10000"] that
    by (simp add: UNM_NIU_AP_STATION_ADDR_0_def UNM_NIU_AP_STATION_ADDR_1_def gb_reg_def niu_def ac_simps)
  moreover have "UNM_NIU_XGE_STATION_ADDR_0_1 \<in> - filter_regs" "UNM_NIU_XGE_STATION_ADDR_0_HI \<in> - filter_regs"
    "UNM_NIU_XG1_STATION_ADDR_0_1 \<in> - filter_regs" "UNM_NIU_XG1_STATION_ADDR_0_HI \<in> - filter_regs"
    using out [of "0x7000c"] out [of "0x70010"] out [of "0x8000c"] out [of "0x80010"]
    by (simp_all add: UNM_NIU_XGE_STATION_ADDR_0_1_def UNM_NIU_XGE_STATION_ADDR_0_HI_def UNM_NIU_XG1_STATION_ADDR_0_1_def
        UNM_NIU_XG1_STATION_ADDR_0_HI_def niu_def)
  ultimately show ?thesis
    using assms unfolding unm_nic_p2_macaddr_set_def unm_niu_xg_macaddr_set_def Let_def
    by (cases "1 < physical_port (p_cfg a)") (auto intro!: touches_intros)
qed

subsection \<open>The link's autonegotiation\<close>

text \<open>The test of the second query is inverted: an answer is dropped, and without one the uninitialised variable is stored.\<close>

lemma link_autoneg_inverted:
  assumes "run_state (NXRD32 B UNM_PORT_MODE_ADDR) d = (port_mode, d1)" "port_mode \<noteq> UNM_PORT_MODE_802_3_AP"
    "run_state (nx_fw_cmd_query_phy B pn 17) d1 = ((rc, Some s), d2)" "phy_link s"
    "run_state (nx_fw_cmd_query_phy B pn 4) d2 = ((rc', v), d3)"
  shows "lp_autoneg (fst (run_state (unm_nic_set_link_parameters B True True pn stack l) d)) =
    (if rc' = NX_RCODE_SUCCESS then lp_autoneg l else stack)"
  using assms by (simp add: unm_nic_set_link_parameters_def run_bind run_ret)

subsection \<open>Properties\<close>

text \<open>C15 After the kernel's multicast list was set on a P2 card, the port's multicast pool holds exactly the addresses of the list, in
  order, and is clear behind them, and the filter is on. If it was off before, it has been switched on with the broadcast and the
  station address as the unicast entries; if it was on, the unicast entries stay as they were. The pools of the card's other ports are
  not touched. The list is not empty, fits the pool, and the interface is not promiscuous (otherwise the driver opens the filter
  instead); the registers read back what was written, and may start in any state.\<close>

theorem p2_filter_holds_list:
  assumes "0 \<le> physical_port (p_cfg a)" "physical_port (p_cfg a) \<le> 3" "p_max_mc a \<le> 16" "ms \<noteq> []" "length ms \<le> p_max_mc a"
  shows "case run_state (nx_nic_p2_set_multi mem_bus False (length ms) ms a) d of (b, d') \<Rightarrow>
    filter_after a ms (hw d) b (hw d') \<and>
    (\<forall>q n. if 0 \<le> q \<and> q \<le> 3 \<and> q \<noteq> physical_port (p_cfg a) \<and> n \<le> 16
       then mcast_pool q n (hw d') = mcast_pool q n (hw d) \<and> unicast_pool q (hw d') = unicast_pool q (hw d) else True)"
  using p2_set_multi_spec [OF assms, of d] by auto

definition ex_port :: p2_adapter where
  "ex_port = \<lparr>p_cfg = sample_cfg, p_xgbe = True, p_promisc = False, p_mc_enabled = False, p_mac = (0, 0xe, 0x1e, 1, 2, 3), p_max_mc = 16\<rparr>"

lemma ex_port_facts: "0 \<le> physical_port (p_cfg ex_port)" "physical_port (p_cfg ex_port) \<le> 3" "p_max_mc ex_port \<le> 16"
  by (simp_all add: ex_port_def sample_cfg_def)

theorem p2_filter_holds_list_witness:
  "case run_state (nx_nic_p2_set_multi mem_bus False 1 [(1, 0, 0x5e, 0, 0, 1)] ex_port) \<lparr>hw = (\<lambda>a. 0), log = []\<rparr> of (b, d') \<Rightarrow>
     p_mc_enabled b \<and> mcast_pool 0 16 (hw d') = (0x5e0001, 0x010000) # replicate 15 (0, 0)"
proof -
  have "[(1, 0, 0x5e, 0, 0, 1)] \<noteq> ([] :: macaddr list)" "length [(1, 0, 0x5e, 0, 0, 1) :: macaddr] \<le> p_max_mc ex_port"
    by (simp_all add: ex_port_def)
  from p2_filter_holds_list [OF ex_port_facts this, of "\<lparr>hw = (\<lambda>a. 0), log = []\<rparr>"] show ?thesis
    by (auto simp: filter_after_def Let_def ex_port_def sample_cfg_def mac_entry_def mac_lo3_def mac_hi3_def le32_def)
qed

text \<open>C39 A station address changed while the filter is on does not reach it: after the address was set and the multicast list set
  again, the unicast entries are those from before, so the filter goes on accepting the old address and not the new one.\<close>

theorem p2_filter_keeps_old_address:
  assumes "0 \<le> physical_port (p_cfg a)" "physical_port (p_cfg a) \<le> 3" "p_max_mc a \<le> 16" "ms \<noteq> []" "length ms \<le> p_max_mc a"
    "p_mc_enabled a"
  shows "case run_state (do { b \<leftarrow> unm_nic_set_mac mem_bus up m a; nx_nic_p2_set_multi mem_bus False (length ms) ms b }) d of (b, d') \<Rightarrow>
    p_mac b = m \<and> unicast_pool (physical_port (p_cfg a)) (hw d') = unicast_pool (physical_port (p_cfg a)) (hw d)"
proof -
  let ?p = "physical_port (p_cfg a)" and ?a = "a\<lparr>p_mac := m\<rparr>"
  obtain d1 where 1: "run_state (unm_nic_set_mac mem_bus up m a) d = (?a, d1)" "\<forall>k \<in> filter_regs. hw d1 k = hw d k"
  proof -
    obtain rv e where r: "run_state (unm_nic_p2_macaddr_set mem_bus ?a m) d = (rv, e)" by (metis surj_pair)
    have "\<forall>k \<in> filter_regs. hw e k = hw d k" using touches_D [OF macaddr_set_touches r] assms(1,2) by auto
    then show ?thesis using that r by (cases up) (auto simp: unm_nic_set_mac_def io_simps)
  qed
  have u: "unicast_pool ?p (hw d1) = unicast_pool ?p (hw d)"
    using 1(2) assms(1,2) by (simp add: unicast_pool_niu filter_regs_mem)
  obtain b d' where 2: "run_state (nx_nic_p2_set_multi mem_bus False (length ms) ms ?a) d1 = (b, d')" "filter_after ?a ms (hw d1) b (hw d')"
    using p2_set_multi_spec [of ?a ms d1] assms by auto
  then show ?thesis using 1(1) u assms(6) by (simp add: io_simps filter_after_def Let_def)
qed

theorem p2_filter_keeps_old_address_witness:
  "case run_state (do { b \<leftarrow> unm_nic_set_mac mem_bus True (0, 0xe, 0x1e, 9, 9, 9) (ex_port\<lparr>p_mc_enabled := True\<rparr>);
       nx_nic_p2_set_multi mem_bus False 1 [(1, 0, 0x5e, 0, 0, 1)] b }) \<lparr>hw = (\<lambda>a. 7), log = []\<rparr> of (b, d') \<Rightarrow>
     p_mac b = (0, 0xe, 0x1e, 9, 9, 9) \<and> unicast_pool 0 (hw d') = [(7, 7), (7, 7)]"
proof -
  let ?a = "ex_port\<lparr>p_mc_enabled := True\<rparr>"
  have "0 \<le> physical_port (p_cfg ?a)" "physical_port (p_cfg ?a) \<le> 3" "p_max_mc ?a \<le> 16" "[(1, 0, 0x5e, 0, 0, 1)] \<noteq> ([] :: macaddr list)"
    "length [(1, 0, 0x5e, 0, 0, 1) :: macaddr] \<le> p_max_mc ?a" "p_mc_enabled ?a"
    by (simp_all add: ex_port_def sample_cfg_def)
  from p2_filter_keeps_old_address [OF this, where up = True and m = "(0, 0xe, 0x1e, 9, 9, 9)" and d = "\<lparr>hw = (\<lambda>a. 7), log = []\<rparr>"] show ?thesis
    by (auto simp: ex_port_def sample_cfg_def unicast_pool_niu)
qed

end
