(* ===== verification/Watchdog.thy ===== *)
theory Watchdog
  imports P2Port
begin

text \<open>
  The watchdogs of \<open>driver/unm_nic_main.c\<close>: the link watchdog (\<open>unm_nic_handle_phy_intr\<close>, \<open>unm_watchdog_task\<close>), the transmit timeout
  (\<open>unm_tx_timeout_task\<close>) and the firmware watchdog \<open>unm_watchdog_task_fw_reset\<close>, which looks at the temperature, at the requests
  the functions of the card leave in the register \<open>UNM_FW_RESET\<close>, and at the counter a living firmware keeps moving, and restarts the
  firmware. The register is the state of the card (ready, reset, failed, ...), changed under the API semaphore.

  The card is a bus. Bringing ports down and up again (\<open>unm_nic_down\<close>, \<open>unm_nic_detach\<close>, \<open>unm_nic_attach\<close> and the calls to the
  kernel) is an event with the port's number; loading the firmware, the program of \<open>nx_start_firmware\<close>, is a parameter.
\<close>

subsection \<open>Registers and state\<close>

definition UNM_FW_RESET :: u64 where "UNM_FW_RESET = UNM_CAM_RAM 0x138"
definition UNM_PEG_HALT_STATUS1 :: u64 where "UNM_PEG_HALT_STATUS1 = UNM_CAM_RAM 0x0a8"
definition UNM_PEG_HALT_STATUS2 :: u64 where "UNM_PEG_HALT_STATUS2 = UNM_CAM_RAM 0x0ac"
definition UNM_PEG_ALIVE_COUNTER :: u64 where "UNM_PEG_ALIVE_COUNTER = UNM_CAM_RAM 0x0b0"
definition CRB_TEMP_STATE :: u64 where "CRB_TEMP_STATE = UNM_NIC_REG 0x1b4"
definition CRB_XG_STATE :: u64 where "CRB_XG_STATE = UNM_NIC_REG 0x94"
definition CRB_XG_STATE_P3 :: u64 where "CRB_XG_STATE_P3 = UNM_NIC_REG 0x98"
definition XG_LINK_UP :: u32 where "XG_LINK_UP = 0x10"
definition XG_LINK_UP_P3 :: u32 where "XG_LINK_UP_P3 = 0x1"

definition XG_LINK_STATE_P3 :: "nat \<Rightarrow> u32 \<Rightarrow> u32" where
  "XG_LINK_STATE_P3 pcifn v = drop_bit (pcifn * 4) v AND 0xf"

definition NX_NIC_DEV_READY :: u32 where "NX_NIC_DEV_READY = 0"
definition NX_NIC_DEV_TX_TIMEOUT :: u32 where "NX_NIC_DEV_TX_TIMEOUT = 1"
definition NX_NIC_DEV_RESET :: u32 where "NX_NIC_DEV_RESET = 2"
definition NX_NIC_DEV_AER :: u32 where "NX_NIC_DEV_AER = 3"
definition NX_NIC_DEV_FAILED :: u32 where "NX_NIC_DEV_FAILED = 4"
definition NX_TEMP_NORMAL :: u32 where "NX_TEMP_NORMAL = 1"
definition NX_TEMP_WARN :: u32 where "NX_TEMP_WARN = 2"
definition NX_TEMP_PANIC :: u32 where "NX_TEMP_PANIC = 3"
definition NX_RCODE_FATAL_ERROR :: u32 where "NX_RCODE_FATAL_ERROR = 0x80000000"
definition FW_DEAD :: nat where "FW_DEAD = 0xdead"
definition FW_RESETTING :: nat where "FW_RESETTING = 0x999"
definition UNM_FW_RESET_THRESHOLD :: nat where "UNM_FW_RESET_THRESHOLD = 2"
definition UNM_FW_RESET_FAILED_THRESHOLD :: u64 where "UNM_FW_RESET_FAILED_THRESHOLD = 5"

definition NX_FW_VERSION :: "u32 \<Rightarrow> u32 \<Rightarrow> u32 \<Rightarrow> u32" where
  "NX_FW_VERSION a b c = push_bit 16 a + push_bit 8 b + c"

text \<open>One of the card's ports, of whose adapter the fields used here are kept. \<open>is_up\<close> is one of \<open>ADAPTER_UP_MAGIC\<close>,
  \<open>FW_RESETTING\<close>, \<open>FW_DEAD\<close> or 0.\<close>

record port =
  pt_num :: nat
  pt_up :: bool
  pt_is_up :: nat
  pt_lro_capable :: bool
  pt_timeouts :: nat
  pt_window :: nat

datatype port_event =
    Netif_detach nat
  | Nic_down nat
  | Nic_detach nat
  | Cleanup_lro nat
  | Init_lro nat
  | Nic_attach nat
  | Netif_attach nat
  | Start_firmware nat
  | Carrier_off nat
  | Carrier_on nat

text \<open>The adapter that runs the watchdog; \<open>w_func\<close> is its PCI function, \<open>w_netlist\<close> its network devices, \<open>w_failed_jiffies\<close> the
  time of its last restart.\<close>

record wd =
  w_func :: nat
  w_netlist :: "nat list"
  w_temp :: u32
  w_auto :: bool
  w_version :: u32
  w_alive :: u32
  w_failures :: u32
  w_failed_jiffies :: u64
  w_failed_count :: u64
  w_ports :: "port list"
  w_events :: "port_event list"

definition wd_emit :: "port_event list \<Rightarrow> wd \<Rightarrow> wd" where
  "wd_emit es w = w\<lparr>w_events := w_events w @ es\<rparr>"

subsection \<open>The state of the card\<close>

definition nx_set_dev_failed :: "'h bus \<Rightarrow> ('h, unit) io" where
  "nx_set_dev_failed B = NXWR32 B UNM_FW_RESET NX_NIC_DEV_FAILED"

definition nx_set_dev_ready :: "'h bus \<Rightarrow> ('h, unit) io" where
  "nx_set_dev_ready B = do {
     locked \<leftarrow> api_lock B;
     NXWR32 B UNM_FW_RESET NX_NIC_DEV_READY;
     rv \<leftarrow> api_unlock B;
     ret () }"

definition nx_clear_aer_state :: "'h bus \<Rightarrow> ('h, unit) io" where
  "nx_clear_aer_state B = do {
     locked \<leftarrow> api_lock B;
     dev_state \<leftarrow> NXRD32 B UNM_FW_RESET;
     (if dev_state = NX_NIC_DEV_AER then NXWR32 B UNM_FW_RESET NX_NIC_DEV_READY else ret ());
     rv \<leftarrow> api_unlock B;
     ret () }"

text \<open>The three requests: \<open>again\<close> is the state in which the request is taken to be granted already, if there is one; \<open>may\<close> whether
  the function may make it.\<close>

definition dev_request :: "'h bus \<Rightarrow> u32 option \<Rightarrow> bool \<Rightarrow> u32 \<Rightarrow> ('h, int) io" where
  "dev_request B again may new = do {
     locked \<leftarrow> api_lock B;
     if locked \<noteq> 0 then ret (- EIO)
     else do {
       dev_state \<leftarrow> NXRD32 B UNM_FW_RESET;
       if again = Some dev_state then do { rv \<leftarrow> api_unlock B; ret 0 }
       else if \<not> may \<or> dev_state \<noteq> NX_NIC_DEV_READY then do { rv \<leftarrow> api_unlock B; ret (- EIO) }
       else do {
         NXWR32 B UNM_FW_RESET new;
         rv \<leftarrow> api_unlock B;
         ret 0 } } }"

definition nx_dev_request_aer :: "'h bus \<Rightarrow> nat \<Rightarrow> ('h, int) io" where
  "nx_dev_request_aer B func = dev_request B (Some NX_NIC_DEV_AER) (func = 0) NX_NIC_DEV_AER"

definition nx_dev_request_tx_timeout :: "'h bus \<Rightarrow> ('h, int) io" where
  "nx_dev_request_tx_timeout B = dev_request B None True NX_NIC_DEV_TX_TIMEOUT"

definition nx_dev_request_reset :: "'h bus \<Rightarrow> ('h, int) io" where
  "nx_dev_request_reset B = dev_request B (Some NX_NIC_DEV_RESET) True NX_NIC_DEV_RESET"

subsection \<open>Temperature and link\<close>

definition unm_nic_check_temp :: "'h bus \<Rightarrow> wd \<Rightarrow> ('h, bool \<times> wd) io" where
  "unm_nic_check_temp B w = do {
     temp \<leftarrow> NXRD32 B CRB_TEMP_STATE;
     let temp_state = temp AND 0xffff;
         w = (if temp_state = NX_TEMP_PANIC then wd_emit (map Carrier_off (w_netlist w)) w else w)
     in ret (temp_state = NX_TEMP_PANIC, w\<lparr>w_temp := temp_state\<rparr>) }"

text \<open>\<open>ls_link\<close> is \<open>ahw.linkup\<close>, \<open>ls_params\<close> what the link query stores; the carrier and the queue are events.\<close>

record link_state =
  ls_link :: bool
  ls_params :: link_params
  ls_events :: "port_event list"

definition unm_nic_handle_phy_intr ::
    "'h bus \<Rightarrow> bool \<Rightarrow> nat \<Rightarrow> nat \<Rightarrow> bool \<Rightarrow> u32 \<Rightarrow> link_state \<Rightarrow> ('h, link_state) io" where
  "unm_nic_handle_phy_intr B p3 func pn gbe stack l = do {
     val \<leftarrow> NXRD32 B (if p3 then CRB_XG_STATE_P3 else CRB_XG_STATE);
     let up = (if p3 then XG_LINK_STATE_P3 func val = XG_LINK_UP_P3 else drop_bit (pn * 8) val AND 0xff = XG_LINK_UP)
     in if ls_link l = up then ret l
        else do {
          ps \<leftarrow> (if gbe then unm_nic_set_link_parameters B up gbe (of_nat pn) stack (ls_params l) else ret (ls_params l));
          ret (l\<lparr>ls_link := up, ls_params := ps, ls_events := ls_events l @ [if up then Carrier_on pn else Carrier_off pn]\<rparr>) } }"

text \<open>The result tells whether the timer is set again.\<close>

definition unm_watchdog_task ::
    "'h bus \<Rightarrow> bool \<Rightarrow> bool \<Rightarrow> bool \<Rightarrow> nat \<Rightarrow> nat \<Rightarrow> bool \<Rightarrow> u32 \<Rightarrow> link_state \<Rightarrow> ('h, bool \<times> link_state) io" where
  "unm_watchdog_task B running linkevent_cap p3 func pn gbe stack l =
     (if \<not> running then ret (False, l)
      else do {
        l \<leftarrow> (if linkevent_cap then ret l else unm_nic_handle_phy_intr B p3 func pn gbe stack l);
        ret (True, l) })"

subsection \<open>All ports of the card\<close>

definition attach_port :: "port \<Rightarrow> port_event list" where
  "attach_port p =
     (if pt_lro_capable p then [Init_lro (pt_num p)] else []) @ (if pt_up p then [Nic_attach (pt_num p)] else []) @ [Netif_attach (pt_num p)]"

definition netxen_nic_attach_all_ports :: "wd \<Rightarrow> wd" where
  "netxen_nic_attach_all_ports w = wd_emit (concat (map attach_port (w_ports w))) w"

definition down_port :: "port \<Rightarrow> port_event list" where
  "down_port p = (if pt_up p then [Nic_down (pt_num p)] else [])"

definition netxen_nic_detach_all_ports :: "bool \<Rightarrow> wd \<Rightarrow> wd" where
  "netxen_nic_detach_all_ports fw_health w =
     (if \<not> fw_health then
        wd_emit (concat (map (\<lambda>p. [Netif_detach (pt_num p)] @ down_port p @ [Nic_detach (pt_num p), Cleanup_lro (pt_num p)]) (w_ports w))) w
      else
        wd_emit (concat (map down_port (w_ports w))) (w\<lparr>w_ports := map (\<lambda>p. p\<lparr>pt_is_up := FW_DEAD\<rparr>) (w_ports w)\<rparr>))"

text \<open>The firmware is started by port 0; the ports in front of it in the list have their window forgotten too.\<close>

fun restart_ports :: "('h, int) io \<Rightarrow> port list \<Rightarrow> ('h, int \<times> port list \<times> port_event list) io" where
  "restart_ports start [] = ret (- 1, [], [])"
| "restart_ports start (p # ps) =
     (let p = p\<lparr>pt_window := 255\<rparr> in
      if pt_num p = 0 then do { rv \<leftarrow> start; ret (rv, p # ps, [Start_firmware 0]) }
      else do { (rv, ps, es) \<leftarrow> restart_ports start ps; ret (rv, p # ps, es) })"

definition netxen_nic_restart_fw :: "('h, int) io \<Rightarrow> wd \<Rightarrow> ('h, int \<times> wd) io" where
  "netxen_nic_restart_fw start w = do {
     (rv, ps, es) \<leftarrow> restart_ports start (w_ports w);
     ret (rv, wd_emit es (w\<lparr>w_ports := ps\<rparr>)) }"

definition netxen_nic_reset_tx_timeout :: "wd \<Rightarrow> wd" where
  "netxen_nic_reset_tx_timeout w = w\<lparr>w_ports := map (\<lambda>p. p\<lparr>pt_timeouts := 0\<rparr>) (w_ports w)\<rparr>"

text \<open>Restarts that follow each other within \<open>UNM_FW_RESET_INTERVAL\<close> (25 seconds of \<open>hz\<close> ticks) are counted; the fifth gives up.
  Time is the 64-bit count of ticks, and wraps.\<close>

definition check_fw_reset_failure :: "u64 \<Rightarrow> u64 \<Rightarrow> wd \<Rightarrow> bool \<times> wd" where
  "check_fw_reset_failure hz now w =
     (let n = (if now - w_failed_jiffies w < 25 * hz then w_failed_count w + 1 else 0)
      in if UNM_FW_RESET_FAILED_THRESHOLD \<le> n then (True, w\<lparr>w_failed_jiffies := now, w_failed_count := 0\<rparr>)
         else (False, w\<lparr>w_failed_jiffies := now, w_failed_count := n\<rparr>))"

definition restart_card :: "('h, int) io \<Rightarrow> wd \<Rightarrow> ('h, wd) io" where
  "restart_card start w = do {
     (rv, w) \<leftarrow> netxen_nic_restart_fw start (netxen_nic_detach_all_ports False w);
     ret (if rv = 0 then netxen_nic_attach_all_ports w else w) }"

subsection \<open>The firmware watchdog\<close>

text \<open>A firmware that was found dead the eighth time in a row, or the sixteenth, and so on: the result tells whether the timer is set
  again, and whether to count on.\<close>

definition handle_hang :: "'h bus \<Rightarrow> ('h, int) io \<Rightarrow> u64 \<Rightarrow> u64 \<Rightarrow> wd \<Rightarrow> ('h, bool \<times> bool \<times> wd) io" where
  "handle_hang B start hz now w = do {
     rq \<leftarrow> nx_dev_request_reset B;
     if rq \<noteq> 0 then ret (True, False, w)
     else do {
       failure_type \<leftarrow> NXRD32 B UNM_PEG_HALT_STATUS1;
       return_address \<leftarrow> NXRD32 B UNM_PEG_HALT_STATUS2;
       case check_fw_reset_failure hz now w of
         (True, w) \<Rightarrow> do { nx_set_dev_failed B; ret (False, False, w) }
       | (False, w) \<Rightarrow>
           if failure_type AND NX_RCODE_FATAL_ERROR \<noteq> 0 then do {
             nx_set_dev_failed B;
             ret (False, False, netxen_nic_detach_all_ports True w) }
           else do {
             w \<leftarrow> restart_card start w;
             nx_set_dev_ready B;
             ret (True, True, w) } } }"

definition unm_watchdog_task_fw_reset :: "'h bus \<Rightarrow> ('h, int) io \<Rightarrow> u64 \<Rightarrow> u64 \<Rightarrow> wd \<Rightarrow> ('h, bool \<times> wd) io" where
  "unm_watchdog_task_fw_reset B start hz now w = do {
     locked \<leftarrow> api_lock B;
     fw_reset \<leftarrow> NXRD32 B UNM_FW_RESET;
     rv \<leftarrow> api_unlock B;
     if NX_NIC_DEV_TX_TIMEOUT < fw_reset then ret (True, w)
     else do {
       (panic, w) \<leftarrow> unm_nic_check_temp B w;
       if panic then ret (False, netxen_nic_detach_all_ports False w)
       else if \<not> w_auto w then ret (True, w)
       else do {
         locked \<leftarrow> api_lock B;
         fw_reset \<leftarrow> NXRD32 B UNM_FW_RESET;
         rv \<leftarrow> api_unlock B;
         if fw_reset = NX_NIC_DEV_TX_TIMEOUT then
           (case check_fw_reset_failure hz now w of
              (True, w) \<Rightarrow> ret (False, w)
            | (False, w) \<Rightarrow> do {
                w \<leftarrow> restart_card start w;
                nx_set_dev_ready B;
                ret (True, netxen_nic_reset_tx_timeout w) })
         else if w_version w < NX_FW_VERSION 4 0 222 then ret (True, w)
         else do {
           counter \<leftarrow> NXRD32 B UNM_PEG_ALIVE_COUNTER;
           let still = (w_alive w = counter); w = w\<lparr>w_alive := counter\<rparr> in
           if \<not> still then ret (True, w\<lparr>w_failures := 0\<rparr>)
           else if w_failures w AND 7 = 0 \<and> w_failures w \<noteq> 0 then do {
             (rearm, go, w) \<leftarrow> handle_hang B start hz now w;
             ret (rearm, if go then w\<lparr>w_failures := w_failures w + 1\<rparr> else w) }
           else ret (True, w\<lparr>w_failures := w_failures w + 1\<rparr>) } } } }"

subsection \<open>The transmit timeout\<close>

text \<open>The interrupt of the first status ring is switched off and on again: \<open>crb\<close> is its register, \<open>tgt_mask\<close> the register that masks the
  legacy interrupt, if that is used. The result tells whether the queue is woken.\<close>

definition unm_nic_disable_int :: "'h bus \<Rightarrow> u64 \<Rightarrow> ('h, unit) io" where
  "unm_nic_disable_int B crb = NXWR32 B crb 0"

definition unm_nic_enable_int :: "'h bus \<Rightarrow> u64 option \<Rightarrow> u64 \<Rightarrow> ('h, unit) io" where
  "unm_nic_enable_int B tgt_mask crb = do {
     NXWR32 B crb 1;
     (case tgt_mask of None \<Rightarrow> ret () | Some r \<Rightarrow> NXWR32 B r 0xfbff) }"

definition unm_tx_timeout_task :: "'h bus \<Rightarrow> u64 option \<Rightarrow> u64 \<Rightarrow> port \<Rightarrow> ('h, bool \<times> port) io" where
  "unm_tx_timeout_task B tgt_mask crb p =
     (let p = p\<lparr>pt_timeouts := Suc (pt_timeouts p)\<rparr> in
      if UNM_FW_RESET_THRESHOLD < pt_timeouts p then do {
        rv \<leftarrow> nx_dev_request_tx_timeout B;
        ret (False, p) }
      else do {
        unm_nic_disable_int B crb;
        unm_nic_enable_int B tgt_mask crb;
        ret (True, p) })"

subsection \<open>A card whose semaphore is free\<close>

text \<open>Registers read back what was written; the API semaphore is granted at once.\<close>

definition card_bus :: "(u64 \<Rightarrow> u32) bus" where
  "card_bus = \<lparr>bus_rd = \<lambda>a m. (if a = SEM5_L then 1 else m a, m), bus_wr = \<lambda>a v m. m(a := v)\<rparr>"

lemma card_bus_simps [simp]:
  "bus_rd card_bus a m = (if a = SEM5_L then 1 else m a, m)" "bus_wr card_bus a v m = m(a := v)"
  by (simp_all add: card_bus_def)

lemmas wd_addrs = cdrp_addrs UNM_FW_RESET_def UNM_PEG_HALT_STATUS1_def UNM_PEG_HALT_STATUS2_def UNM_PEG_ALIVE_COUNTER_def
  CRB_TEMP_STATE_def

lemma wd_addrs_distinct [simp]:
  "UNM_FW_RESET \<noteq> SEM5_L" "UNM_PEG_HALT_STATUS1 \<noteq> SEM5_L" "UNM_PEG_HALT_STATUS2 \<noteq> SEM5_L" "UNM_PEG_ALIVE_COUNTER \<noteq> SEM5_L"
  "CRB_TEMP_STATE \<noteq> SEM5_L" "UNM_FW_RESET \<noteq> UNM_PEG_ALIVE_COUNTER" "CRB_TEMP_STATE \<noteq> UNM_PEG_ALIVE_COUNTER"
  "UNM_PEG_HALT_STATUS1 \<noteq> UNM_PEG_ALIVE_COUNTER" "UNM_PEG_HALT_STATUS1 \<noteq> UNM_FW_RESET" "UNM_PEG_ALIVE_COUNTER \<noteq> UNM_FW_RESET"
  by (simp_all add: wd_addrs)

lemma card_api_lock: "yields (api_lock card_bus) h 0 h"
proof -
  have "yields (sem_wait card_bus SEM5_L (Suc n)) h True h" for n by (simp add: yields_def io_simps)
  from this [of 3999] have "yields (sem_wait card_bus SEM5_L NX_OS_CRB_RETRY_COUNT) h True h"
    unfolding NX_OS_CRB_RETRY_COUNT_def by simp
  then show ?thesis unfolding api_lock_def by (rule yields_bind) (simp add: yields_ret)
qed

lemma card_api_unlock: "yields (api_unlock card_bus) h 0 h"
  by (simp add: yields_def api_unlock_def nx_os_nic_reg_read_w0_def io_simps)

lemma yields_card_rd: "a \<noteq> SEM5_L \<Longrightarrow> yields (NXRD32 card_bus a) h (h a) h"
  by (simp add: yields_def io_simps)

lemma yields_card_wr: "yields (NXWR32 card_bus a v) h () (h(a := v))"
  by (simp add: yields_def io_simps)

lemma yields_exec: "yields m h x h' \<Longrightarrow> \<exists>l. exec m h = (x, h', l)"
proof -
  assume "yields m h x h'"
  then obtain l where "run_state m \<lparr>hw = h, log = []\<rparr> = (x, \<lparr>hw = h', log = l\<rparr>)" unfolding yields_def by blast
  then show ?thesis by (simp add: exec_def)
qed

lemma yields_case_prod: "yields (f a b) h x h' \<Longrightarrow> yields (case (a, b) of (a, b) \<Rightarrow> f a b) h x h'"
  by simp

lemmas card_yields = yields_bind [OF card_api_lock] yields_bind [OF card_api_unlock] yields_bind [OF yields_card_rd] yields_bind [OF yields_card_wr]

subsection \<open>Requests\<close>

lemma dev_request_yields:
  "yields (dev_request card_bus again may new) h
     (if again = Some (h UNM_FW_RESET) then 0 else if \<not> may \<or> h UNM_FW_RESET \<noteq> NX_NIC_DEV_READY then - EIO else 0)
     (if again = Some (h UNM_FW_RESET) \<or> \<not> may \<or> h UNM_FW_RESET \<noteq> NX_NIC_DEV_READY then h else h(UNM_FW_RESET := new))"
proof -
  consider (a) "again = Some (h UNM_FW_RESET)" | (b) "again \<noteq> Some (h UNM_FW_RESET)" "\<not> may \<or> h UNM_FW_RESET \<noteq> NX_NIC_DEV_READY" |
    (c) "again \<noteq> Some (h UNM_FW_RESET)" "\<not> (\<not> may \<or> h UNM_FW_RESET \<noteq> NX_NIC_DEV_READY)" by blast
  then show ?thesis
    unfolding dev_request_def
    by cases (rule yields_bind [OF card_api_lock], simp only: simp_thms if_False if_True if_cancel,
        rule yields_bind [OF yields_card_rd], simp, simp only: simp_thms if_False if_True, intro card_yields yields_ret)+
qed

lemma set_dev_ready_yields: "yields (nx_set_dev_ready card_bus) h () (h(UNM_FW_RESET := NX_NIC_DEV_READY))"
  unfolding nx_set_dev_ready_def by (intro card_yields yields_ret)

lemma check_temp_yields:
  "h CRB_TEMP_STATE AND 0xffff \<noteq> NX_TEMP_PANIC \<Longrightarrow>
   yields (unm_nic_check_temp card_bus w) h (False, w\<lparr>w_temp := h CRB_TEMP_STATE AND 0xffff\<rparr>) h"
  unfolding unm_nic_check_temp_def Let_def by (rule yields_bind [OF yields_card_rd]) (simp_all add: yields_ret)

subsection \<open>A turn of the watchdog\<close>

text \<open>Nothing is wrong that the watchdog looks at before the counter.\<close>

definition healthy :: "(u64 \<Rightarrow> u32) \<Rightarrow> wd \<Rightarrow> bool" where
  "healthy h w \<longleftrightarrow> h UNM_FW_RESET = NX_NIC_DEV_READY \<and> h CRB_TEMP_STATE AND 0xffff \<noteq> NX_TEMP_PANIC \<and> w_auto w \<and>
     NX_FW_VERSION 4 0 222 \<le> w_version w"

text \<open>The watchdog having seen the temperature and the counter.\<close>

definition seen :: "(u64 \<Rightarrow> u32) \<Rightarrow> wd \<Rightarrow> wd" where
  "seen h w = w\<lparr>w_temp := h CRB_TEMP_STATE AND 0xffff, w_alive := h UNM_PEG_ALIVE_COUNTER\<rparr>"

lemma turn_healthy:
  assumes "healthy h w"
    "yields (if w_alive w \<noteq> h UNM_PEG_ALIVE_COUNTER then ret (True, (seen h w)\<lparr>w_failures := 0\<rparr>)
       else if w_failures w AND 7 = 0 \<and> w_failures w \<noteq> 0 then do {
         (rearm, go, w) \<leftarrow> handle_hang card_bus start hz now (seen h w);
         ret (rearm, if go then w\<lparr>w_failures := w_failures w + 1\<rparr> else w) }
       else ret (True, (seen h w)\<lparr>w_failures := w_failures w + 1\<rparr>)) h x h'"
  shows "yields (unm_watchdog_task_fw_reset card_bus start hz now w) h x h'"
proof -
  let ?w = "w\<lparr>w_temp := h CRB_TEMP_STATE AND 0xffff\<rparr>"
  have r: "\<not> NX_NIC_DEV_TX_TIMEOUT < h UNM_FW_RESET" "h UNM_FW_RESET \<noteq> NX_NIC_DEV_TX_TIMEOUT" "w_auto ?w" "\<not> w_version ?w < NX_FW_VERSION 4 0 222"
    using assms(1) by (auto simp: healthy_def NX_NIC_DEV_READY_def NX_NIC_DEV_TX_TIMEOUT_def)
  have sw: "?w\<lparr>w_alive := h UNM_PEG_ALIVE_COUNTER\<rparr> = seen h w" by (simp add: seen_def)
  have same: "w_failures (seen h w) = w_failures w" "w_alive ?w = w_alive w" by (simp_all add: seen_def)
  have t: "h CRB_TEMP_STATE AND 0xffff \<noteq> NX_TEMP_PANIC" using assms(1) by (simp add: healthy_def)
  show ?thesis
    unfolding unm_watchdog_task_fw_reset_def
    apply (rule yields_bind [OF card_api_lock], rule yields_bind [OF yields_card_rd], simp, rule yields_bind [OF card_api_unlock])
    apply (simp only: r if_False, rule yields_bind [OF check_temp_yields [where h = h, OF t]])
    apply (simp only: prod.case r simp_thms if_False)
    apply (rule yields_bind [OF card_api_lock], rule yields_bind [OF yields_card_rd], simp, rule yields_bind [OF card_api_unlock])
    apply (simp only: r if_False, rule yields_bind [OF yields_card_rd], simp)
    using assms(2) by (simp only: Let_def sw same)
qed

lemma turn_alive:
  "healthy h w \<Longrightarrow> w_alive w \<noteq> h UNM_PEG_ALIVE_COUNTER \<Longrightarrow>
   yields (unm_watchdog_task_fw_reset card_bus start hz now w) h (True, (seen h w)\<lparr>w_failures := 0\<rparr>) h"
  by (rule turn_healthy) (simp_all add: yields_ret)

lemma turn_still:
  assumes "healthy h w" "w_alive w = h UNM_PEG_ALIVE_COUNTER" "\<not> (w_failures w AND 7 = 0 \<and> w_failures w \<noteq> 0)"
  shows "yields (unm_watchdog_task_fw_reset card_bus start hz now w) h (True, (seen h w)\<lparr>w_failures := w_failures w + 1\<rparr>) h"
proof -
  have n: "(w_alive w \<noteq> h UNM_PEG_ALIVE_COUNTER) = False" "(w_failures w AND 7 = 0 \<and> w_failures w \<noteq> 0) = False" using assms(2,3) by simp_all
  show ?thesis by (rule turn_healthy [OF assms(1)]) (unfold n if_False, rule yields_ret)
qed

subsection \<open>The restart\<close>

lemma restart_ports_yields:
  assumes "yields start h rv h'" "\<exists>p \<in> set ps. pt_num p = 0"
  shows "\<exists>ps'. yields (restart_ports start ps) h (rv, ps', [Start_firmware 0]) h' \<and> map attach_port ps' = map attach_port ps"
  using assms(2)
proof (induction ps)
  case Nil
  then show ?case by simp
next
  case (Cons p ps)
  have a: "attach_port (p\<lparr>pt_window := 255\<rparr>) = attach_port p" by (simp add: attach_port_def)
  show ?case
  proof (cases "pt_num p = 0")
    case True
    have "yields (restart_ports start (p # ps)) h (rv, p\<lparr>pt_window := 255\<rparr> # ps, [Start_firmware 0]) h'"
      using True by (auto simp: Let_def intro!: yields_bind [OF assms(1)] yields_ret)
    then show ?thesis using a by auto
  next
    case False
    then obtain ps' where r: "yields (restart_ports start ps) h (rv, ps', [Start_firmware 0]) h'" "map attach_port ps' = map attach_port ps"
      using Cons by auto
    have "yields (restart_ports start (p # ps)) h (rv, p\<lparr>pt_window := 255\<rparr> # ps', [Start_firmware 0]) h'"
      using False by (auto simp: Let_def intro!: yields_bind [OF r(1)] yields_ret)
    then show ?thesis using a r(2) by auto
  qed
qed

text \<open>What a restart does to the ports.\<close>

definition detach_events :: "port list \<Rightarrow> port_event list" where
  "detach_events ps = concat (map (\<lambda>p. [Netif_detach (pt_num p)] @ down_port p @ [Nic_detach (pt_num p), Cleanup_lro (pt_num p)]) ps)"

definition restart_events :: "port list \<Rightarrow> int \<Rightarrow> port_event list" where
  "restart_events ps rv = detach_events ps @ [Start_firmware 0] @ (if rv = 0 then concat (map attach_port ps) else [])"

lemma restart_card_yields:
  assumes "yields start h rv h'" "\<exists>p \<in> set (w_ports w). pt_num p = 0"
  shows "\<exists>w'. yields (restart_card start w) h w' h' \<and> w_events w' = w_events w @ restart_events (w_ports w) rv \<and>
    w_failures w' = w_failures w \<and> w_alive w' = w_alive w"
proof -
  obtain ps' where r: "yields (restart_ports start (w_ports w)) h (rv, ps', [Start_firmware 0]) h'"
    "map attach_port ps' = map attach_port (w_ports w)"
    using restart_ports_yields [OF assms] by blast
  let ?w = "netxen_nic_detach_all_ports False w"
  have p: "w_ports ?w = w_ports w" "w_events ?w = w_events w @ detach_events (w_ports w)" "w_failures ?w = w_failures w" "w_alive ?w = w_alive w"
    by (simp_all add: netxen_nic_detach_all_ports_def wd_emit_def detach_events_def)
  let ?v = "wd_emit [Start_firmware 0] (?w\<lparr>w_ports := ps'\<rparr>)"
  have "yields (netxen_nic_restart_fw start ?w) h (rv, ?v) h'"
    unfolding netxen_nic_restart_fw_def p by (rule yields_bind [OF r(1)]) (simp add: yields_ret)
  then have "yields (restart_card start w) h (if rv = 0 then netxen_nic_attach_all_ports ?v else ?v) h'"
    unfolding restart_card_def by (rule yields_bind) (simp add: yields_ret)
  moreover have "concat (map attach_port ps') = concat (map attach_port (w_ports w))" unfolding r(2) ..
  then have "w_events (if rv = 0 then netxen_nic_attach_all_ports ?v else ?v) = w_events w @ restart_events (w_ports w) rv"
    "w_failures (if rv = 0 then netxen_nic_attach_all_ports ?v else ?v) = w_failures w"
    "w_alive (if rv = 0 then netxen_nic_attach_all_ports ?v else ?v) = w_alive w"
    by (simp_all add: p wd_emit_def netxen_nic_attach_all_ports_def restart_events_def)
  ultimately show ?thesis by blast
qed

lemma hang_yields:
  assumes "h UNM_FW_RESET = NX_NIC_DEV_READY" "\<not> fst (check_fw_reset_failure hz now w)" "h UNM_PEG_HALT_STATUS1 AND NX_RCODE_FATAL_ERROR = 0"
    "yields start (h(UNM_FW_RESET := NX_NIC_DEV_RESET)) rv h'" "\<exists>p \<in> set (w_ports w). pt_num p = 0"
  shows "\<exists>w'. yields (handle_hang card_bus start hz now w) h (True, True, w') (h'(UNM_FW_RESET := NX_NIC_DEV_READY)) \<and>
    w_events w' = w_events w @ restart_events (w_ports w) rv \<and> w_failures w' = w_failures w \<and> w_alive w' = w_alive w"
proof -
  let ?h = "h(UNM_FW_RESET := NX_NIC_DEV_RESET)"
  have rq: "yields (nx_dev_request_reset card_bus) h 0 ?h"
    using dev_request_yields [of "Some NX_NIC_DEV_RESET" True NX_NIC_DEV_RESET h] assms(1)
    by (simp add: nx_dev_request_reset_def NX_NIC_DEV_READY_def NX_NIC_DEV_RESET_def)
  obtain v where v: "check_fw_reset_failure hz now w = (False, v)" "w_ports v = w_ports w" "w_events v = w_events w" "w_failures v = w_failures w"
    "w_alive v = w_alive w"
    using assms(2) by (auto simp: check_fw_reset_failure_def Let_def split: if_splits)
  obtain w' where w': "yields (restart_card start v) ?h w' h'" "w_events w' = w_events w @ restart_events (w_ports w) rv"
    "w_failures w' = w_failures w" "w_alive w' = w_alive w"
    using restart_card_yields [OF assms(4), of v] assms(5) v by auto
  have f: "(?h UNM_PEG_HALT_STATUS1 AND NX_RCODE_FATAL_ERROR \<noteq> 0) = False" using assms(3) by simp
  have "yields (handle_hang card_bus start hz now w) h (True, True, w') (h'(UNM_FW_RESET := NX_NIC_DEV_READY))"
    unfolding handle_hang_def
    apply (rule yields_bind [OF rq], simp only: simp_thms if_False)
    apply (rule yields_bind [OF yields_card_rd], simp, rule yields_bind [OF yields_card_rd], simp)
    apply (simp only: v(1) prod.case bool.case f if_False)
    by (rule yields_bind [OF w'(1)], rule yields_bind [OF set_dev_ready_yields], rule yields_ret)
  then show ?thesis using w' by blast
qed

subsection \<open>The watchdog at work\<close>

text \<open>Turns of the watchdog at the given times; before each the firmware has left a value in its counter. A turn that does not set
  the timer again is the last: the result tells whether the timer is set, with the watchdog and the card.\<close>

fun watch :: "(u64 \<Rightarrow> u32, int) io \<Rightarrow> u64 \<Rightarrow> (u64 \<times> u32) list \<Rightarrow> wd \<times> (u64 \<Rightarrow> u32) \<Rightarrow> bool \<times> wd \<times> (u64 \<Rightarrow> u32)" where
  "watch start hz [] s = (True, s)"
| "watch start hz ((now, c) # ts) (w, h) =
     (case exec (unm_watchdog_task_fw_reset card_bus start hz now w) (h(UNM_PEG_ALIVE_COUNTER := c)) of
        ((rearm, w), h, l) \<Rightarrow> if rearm then watch start hz ts (w, h) else (False, w, h))"

lemma watch_turn:
  assumes "yields (unm_watchdog_task_fw_reset card_bus start hz now w) (h(UNM_PEG_ALIVE_COUNTER := c)) (True, w') h'"
  shows "watch start hz ((now, c) # ts) (w, h) = watch start hz ts (w', h')"
  using yields_exec [OF assms] by auto

lemma healthy_counter: "healthy (h(UNM_PEG_ALIVE_COUNTER := c)) w = healthy h w"
  by (simp add: healthy_def)

lemma healthy_seen: "healthy h w \<Longrightarrow> healthy (h(UNM_PEG_ALIVE_COUNTER := c)) (seen (h(UNM_PEG_ALIVE_COUNTER := c)) w)"
  "healthy h (w\<lparr>w_failures := n\<rparr>) = healthy h w"
  by (simp_all add: healthy_def seen_def)

lemma seen_fields [simp]:
  "w_events (seen h w) = w_events w" "w_ports (seen h w) = w_ports w" "w_failures (seen h w) = w_failures w"
  "w_alive (seen h w) = h UNM_PEG_ALIVE_COUNTER" "w_failed_count (seen h w) = w_failed_count w"
  by (simp_all add: seen_def)

text \<open>The turns in which the firmware looks alive or has not been still for long.\<close>

lemma watch_alive:
  assumes "healthy h w" "distinct_adj (w_alive w # map snd ts)"
  shows "\<exists>w' h'. watch start hz ts (w, h) = (True, w', h') \<and> w_events w' = w_events w \<and> healthy h' w'"
  using assms
proof (induction ts arbitrary: w h)
  case Nil
  then show ?case by simp
next
  case (Cons t ts)
  obtain now c where t: "t = (now, c)" by (metis surj_pair)
  let ?h = "h(UNM_PEG_ALIVE_COUNTER := c)" and ?w = "(seen (h(UNM_PEG_ALIVE_COUNTER := c)) w)\<lparr>w_failures := 0\<rparr>"
  have "yields (unm_watchdog_task_fw_reset card_bus start hz now w) ?h (True, ?w) ?h"
    using turn_alive [of ?h w start hz now] Cons.prems by (simp add: healthy_counter t)
  from watch_turn [OF this, of ts] have e: "watch start hz (t # ts) (w, h) = watch start hz ts (?w, ?h)" by (simp add: t)
  have hs: "healthy ?h ?w" using healthy_seen(1) [OF Cons.prems(1)] by (simp only: healthy_seen(2))
  have "\<exists>w' h'. watch start hz ts (?w, ?h) = (True, w', h') \<and> w_events w' = w_events ?w \<and> healthy h' w'"
    by (rule Cons.IH [OF hs]) (use Cons.prems t in simp)
  then show ?case unfolding e by simp
qed

lemma low_three_bits: "unat x < 8 \<Longrightarrow> x AND 7 = x" for x :: u32
  using less_mask_eq [of x 3] by (simp add: word_less_nat_alt mask_eq_exp_minus_1)

lemma few_restarts: "x \<le> 3 \<Longrightarrow> \<not> 5 \<le> x + 1" for x :: u64
  by unat_arith

lemma unat_plus_one: "unat x < 8 \<Longrightarrow> unat (x + 1) = Suc (unat x)" for x :: u32
  by (simp add: unat_word_ariths)

lemma watch_still:
  assumes "healthy h w" "w_alive w = c" "unat (w_failures w) + length ts \<le> 8" "list_all (\<lambda>t. snd t = c) ts"
  shows "\<exists>w' h'. watch start hz ts (w, h) = (True, w', h') \<and> w_events w' = w_events w \<and> w_ports w' = w_ports w \<and> w_alive w' = c \<and>
    w_failed_count w' = w_failed_count w \<and> healthy h' w' \<and> w_failures w' = w_failures w + of_nat (length ts) \<and>
    (\<forall>a. a \<noteq> UNM_PEG_ALIVE_COUNTER \<longrightarrow> h' a = h a)"
  using assms
proof (induction ts arbitrary: w h)
  case Nil
  then show ?case by simp
next
  case (Cons t ts)
  then obtain now where t: "t = (now, c)" by (cases t) simp
  let ?h = "h(UNM_PEG_ALIVE_COUNTER := c)"
  let ?w = "(seen ?h w)\<lparr>w_failures := w_failures w + 1\<rparr>"
  have hs: "healthy ?h ?w" using healthy_seen(1) [OF Cons.prems(1)] by (simp only: healthy_seen(2))
  have f: "unat (w_failures w) < 8" using Cons.prems(3) by simp
  then have "\<not> (w_failures w AND 7 = 0 \<and> w_failures w \<noteq> 0)" by (auto simp: low_three_bits)
  then have "yields (unm_watchdog_task_fw_reset card_bus start hz now w) ?h (True, ?w) ?h"
    using turn_still [of ?h w start hz now] Cons.prems by (simp add: healthy_counter)
  from watch_turn [OF this, of ts] have e: "watch start hz (t # ts) (w, h) = watch start hz ts (?w, ?h)" by (simp add: t)
  have "\<exists>w' h'. watch start hz ts (?w, ?h) = (True, w', h') \<and> w_events w' = w_events ?w \<and> w_ports w' = w_ports ?w \<and> w_alive w' = c \<and>
    w_failed_count w' = w_failed_count ?w \<and> healthy h' w' \<and> w_failures w' = w_failures ?w + of_nat (length ts) \<and>
    (\<forall>a. a \<noteq> UNM_PEG_ALIVE_COUNTER \<longrightarrow> h' a = ?h a)"
    by (rule Cons.IH [OF hs]) (use Cons.prems f in \<open>simp_all add: unat_plus_one\<close>)
  then show ?case unfolding e by fastforce
qed

lemma watch_append: "watch start hz ts s = (True, s') \<Longrightarrow> watch start hz (ts @ us) s = watch start hz us s'"
  by (induction start hz ts s rule: watch.induct) (auto split: prod.splits if_splits)

subsection \<open>Properties\<close>

text \<open>A card with one port and nothing wrong.\<close>

definition ex_wd :: wd where
  "ex_wd = \<lparr>w_func = 0, w_netlist = [0], w_temp = 1, w_auto = True, w_version = NX_FW_VERSION 4 0 556, w_alive = 5, w_failures = 0,
     w_failed_jiffies = 0, w_failed_count = 0,
     w_ports = [\<lparr>pt_num = 0, pt_up = True, pt_is_up = 777, pt_lro_capable = False, pt_timeouts = 0, pt_window = 1\<rparr>], w_events = []\<rparr>"

lemma ex_healthy: "healthy (\<lambda>a. 0) ex_wd" "healthy (\<lambda>a. 0) (ex_wd\<lparr>w_alive := x, w_failures := n\<rparr>)"
  by (simp_all add: healthy_def ex_wd_def NX_NIC_DEV_READY_def NX_TEMP_PANIC_def NX_FW_VERSION_def)

lemma ex_wd_fields: "w_failures ex_wd = 0" "w_failed_count ex_wd \<le> 3" "\<exists>p \<in> set (w_ports ex_wd). pt_num p = 0" "w_alive ex_wd = 5" "w_events ex_wd = []"
  "restart_events (w_ports ex_wd) 0 =
     [Netif_detach 0, Nic_down 0, Nic_detach 0, Cleanup_lro 0, Start_firmware 0, Nic_attach 0, Netif_attach 0]"
  "detach_events (w_ports ex_wd) = [Netif_detach 0, Nic_down 0, Nic_detach 0, Cleanup_lro 0]"
  by (simp_all add: ex_wd_def restart_events_def detach_events_def down_port_def attach_port_def)

text \<open>C9 A firmware that keeps its counter moving is left alone: however long the watchdog runs, as long as the counter differs from one
  turn to the next and nothing else is wrong (\<open>healthy\<close>), no port is touched, the card stays ready and the timer is set again.\<close>

theorem watchdog_spares_live_firmware:
  assumes "healthy h w" "distinct_adj (w_alive w # map snd ts)"
  shows "case watch start hz ts (w, h) of (armed, w', h') \<Rightarrow> armed \<and> w_events w' = w_events w \<and> h' UNM_FW_RESET = NX_NIC_DEV_READY"
  using watch_alive [OF assms, of start hz] by (auto simp: healthy_def)

theorem watchdog_spares_live_firmware_witness:
  "case watch (ret 0) 1000 [(0, 6), (5000, 7), (10000, 8)] (ex_wd, \<lambda>a. 0) of (armed, w', h') \<Rightarrow> armed \<and> w_events w' = [] \<and> h' UNM_FW_RESET = NX_NIC_DEV_READY"
proof -
  have "distinct_adj (w_alive ex_wd # map snd [(0 :: u64, 6), (5000, 7), (10000, 8)])" by (simp add: ex_wd_fields)
  from watchdog_spares_live_firmware [OF ex_healthy(1) this, of "ret 0" 1000] show ?thesis by (simp only: ex_wd_fields)
qed

text \<open>C8 A firmware whose counter stands still is restarted, in the ninth turn that finds it so (the tenth turn, 50 seconds, at the
  latest): all ports are taken down, port 0 loads the firmware, the ports are brought up again if that succeeded, the card is declared
  ready, and every turn up to and including this one has set the timer for the next. The conditions: the card is in the state ready and
  not overheated, automatic reset is on and the firmware is of version 4.0.222 or later (\<open>healthy\<close>); the card's API semaphore is
  free (\<open>card_bus\<close>); a port 0 is there, the firmware did not report a fatal error, and no more than three restarts preceded in
  short order. The program that loads the firmware may do anything to the card.\<close>

theorem watchdog_restarts_hung_firmware:
  assumes "healthy h w" "w_failures w = 0" "w_failed_count w \<le> 3" "\<exists>p \<in> set (w_ports w). pt_num p = 0"
    "h UNM_PEG_HALT_STATUS1 AND NX_RCODE_FATAL_ERROR = 0" "length ts = (if w_alive w = c then 9 else 10)" "list_all (\<lambda>t. snd t = c) ts"
    "\<And>h. \<exists>h'. yields start h rv h'"
  shows "case watch start hz ts (w, h) of (armed, w', h') \<Rightarrow> armed \<and>
    w_events w' = w_events w @ restart_events (w_ports w) rv \<and> h' UNM_FW_RESET = NX_NIC_DEV_READY"
proof -
  have main: "\<exists>w' h'. watch start hz ts (w, h) = (True, w', h') \<and> w_events w' = w_events w @ restart_events (w_ports w) rv \<and> h' UNM_FW_RESET = NX_NIC_DEV_READY"
    if w: "healthy h w" "w_failures w = 0" "w_failed_count w \<le> 3" "\<exists>p \<in> set (w_ports w). pt_num p = 0"
      "h UNM_PEG_HALT_STATUS1 AND NX_RCODE_FATAL_ERROR = 0" "length ts = 9" "list_all (\<lambda>t. snd t = c) ts" "w_alive w = c" for w h ts
  proof -
    obtain us now where ts: "ts = us @ [(now, c)]" "length us = 8" "list_all (\<lambda>t. snd t = c) us"
      using w(6,7) by (cases ts rule: rev_cases) auto
    obtain v g where v: "watch start hz us (w, h) = (True, v, g)" "w_events v = w_events w" "w_ports v = w_ports w" "w_alive v = c"
      "w_failed_count v = w_failed_count w" "healthy g v" "w_failures v = 8" "\<forall>a. a \<noteq> UNM_PEG_ALIVE_COUNTER \<longrightarrow> g a = h a"
      using watch_still [OF w(1,8) _ ts(3), of start hz] w(2) ts(2) by auto
    let ?g = "g(UNM_PEG_ALIVE_COUNTER := c)"
    obtain h' where st: "yields start (?g(UNM_FW_RESET := NX_NIC_DEV_RESET)) rv h'" using assms(8) by blast
    have r: "?g UNM_FW_RESET = NX_NIC_DEV_READY" using v(6) by (simp add: healthy_def)
    have ck: "\<not> fst (check_fw_reset_failure hz now (seen ?g v))"
      using w(3) v(5) by (simp add: check_fw_reset_failure_def Let_def UNM_FW_RESET_FAILED_THRESHOLD_def few_restarts)
    have hl: "?g UNM_PEG_HALT_STATUS1 AND NX_RCODE_FATAL_ERROR = 0" using w(5) v(8) by simp
    have pt: "\<exists>p \<in> set (w_ports (seen ?g v)). pt_num p = 0" using w(4) v(3) by simp
    obtain w' where w': "yields (handle_hang card_bus start hz now (seen ?g v)) ?g (True, True, w') (h'(UNM_FW_RESET := NX_NIC_DEV_READY))"
      "w_events w' = w_events w @ restart_events (w_ports w) rv"
      using hang_yields [OF r ck hl st pt] v(2,3) by auto
    have n: "(w_alive v \<noteq> ?g UNM_PEG_ALIVE_COUNTER) = False" "(w_failures v AND 7 = 0 \<and> w_failures v \<noteq> 0) = True" using v(4,7) by simp_all
    have "yields (unm_watchdog_task_fw_reset card_bus start hz now v) ?g (True, w'\<lparr>w_failures := w_failures w' + 1\<rparr>) (h'(UNM_FW_RESET := NX_NIC_DEV_READY))"
    proof (rule turn_healthy)
      show "healthy ?g v" using v(6) by (simp add: healthy_counter)
    qed (unfold n if_False if_True, rule yields_bind [OF w'(1)], simp add: yields_ret)
    from watch_turn [OF this, of "[]"] show ?thesis using w'(2) by (simp add: ts(1) watch_append v(1))
  qed
  show ?thesis
  proof (cases "w_alive w = c")
    case True
    then show ?thesis using main [OF assms(1-5) _ assms(7)] assms(6) by auto
  next
    case False
    then obtain now us where ts: "ts = (now, c) # us" "length us = 9" "list_all (\<lambda>t. snd t = c) us"
      using assms(6,7) by (cases ts) auto
    let ?h = "h(UNM_PEG_ALIVE_COUNTER := c)"
    let ?w = "(seen ?h w)\<lparr>w_failures := 0\<rparr>"
    have hs: "healthy ?h ?w" using healthy_seen(1) [OF assms(1)] by (simp only: healthy_seen(2))
    have "yields (unm_watchdog_task_fw_reset card_bus start hz now w) ?h (True, ?w) ?h"
      using turn_alive [of ?h w start hz now] assms(1) False by (simp add: healthy_counter)
    from watch_turn [OF this, of us] have e: "watch start hz ts (w, h) = watch start hz us (?w, ?h)" by (simp add: ts(1))
    have "\<exists>w' h'. watch start hz us (?w, ?h) = (True, w', h') \<and> w_events w' = w_events ?w @ restart_events (w_ports ?w) rv \<and> h' UNM_FW_RESET = NX_NIC_DEV_READY"
      by (rule main [OF hs]) (use assms ts in simp_all)
    then show ?thesis unfolding e by auto
  qed
qed

theorem watchdog_restarts_hung_firmware_witness:
  "case watch (ret 0) 1000 (map (\<lambda>i. (5000 * of_nat i, 5)) [0..<9]) (ex_wd, \<lambda>a. 0) of (armed, w', h') \<Rightarrow> armed \<and>
     w_events w' = [Netif_detach 0, Nic_down 0, Nic_detach 0, Cleanup_lro 0, Start_firmware 0, Nic_attach 0, Netif_attach 0] \<and>
     h' UNM_FW_RESET = NX_NIC_DEV_READY"
proof -
  let ?ts = "map (\<lambda>i. (5000 * of_nat i :: u64, 5 :: u32)) [0..<9]"
  have l: "length ?ts = (if w_alive ex_wd = 5 then 9 else 10)" "list_all (\<lambda>t. snd t = 5) ?ts" by (simp_all add: ex_wd_fields list_all_iff)
  have s: "\<exists>h'. yields (ret (0 :: int)) h 0 h'" for h :: "u64 \<Rightarrow> u32" by (rule exI, rule yields_ret)
  have f: "(\<lambda>a. 0 :: u32) UNM_PEG_HALT_STATUS1 AND NX_RCODE_FATAL_ERROR = 0" by simp
  from watchdog_restarts_hung_firmware [OF ex_healthy(1) ex_wd_fields(1-3) f l s, of 1000] show ?thesis
    by (simp only: ex_wd_fields append_Nil)
qed

text \<open>The card is declared ready after a restart that failed: whatever the program that loads the firmware returns, a turn that
  restarts it leaves \<open>NX_NIC_DEV_READY\<close> behind; after a failure no port is brought up.\<close>

theorem failed_restart_declared_ready:
  assumes "healthy h w" "w_alive w = h UNM_PEG_ALIVE_COUNTER" "w_failures w = 8" "w_failed_count w \<le> 3" "\<exists>p \<in> set (w_ports w). pt_num p = 0"
    "h UNM_PEG_HALT_STATUS1 AND NX_RCODE_FATAL_ERROR = 0" "yields start (h(UNM_FW_RESET := NX_NIC_DEV_RESET)) rv h'" "rv \<noteq> 0"
  shows "case exec (unm_watchdog_task_fw_reset card_bus start hz now w) h of ((rearm, w'), g, l) \<Rightarrow>
    g UNM_FW_RESET = NX_NIC_DEV_READY \<and> rearm \<and> w_events w' = w_events w @ detach_events (w_ports w) @ [Start_firmware 0]"
proof -
  have r: "h UNM_FW_RESET = NX_NIC_DEV_READY" using assms(1) by (simp add: healthy_def)
  have ck: "\<not> fst (check_fw_reset_failure hz now (seen h w))"
    using assms(4) by (simp add: check_fw_reset_failure_def Let_def UNM_FW_RESET_FAILED_THRESHOLD_def few_restarts)
  obtain w' where w': "yields (handle_hang card_bus start hz now (seen h w)) h (True, True, w') (h'(UNM_FW_RESET := NX_NIC_DEV_READY))"
    "w_events w' = w_events w @ restart_events (w_ports w) rv"
    using hang_yields [OF r ck assms(6,7)] assms(5) by auto
  have n: "(w_alive w \<noteq> h UNM_PEG_ALIVE_COUNTER) = False" "(w_failures w AND 7 = 0 \<and> w_failures w \<noteq> 0) = True" using assms(2,3) by simp_all
  have "yields (unm_watchdog_task_fw_reset card_bus start hz now w) h (True, w'\<lparr>w_failures := w_failures w' + 1\<rparr>) (h'(UNM_FW_RESET := NX_NIC_DEV_READY))"
    by (rule turn_healthy [OF assms(1)]) (unfold n if_False if_True, rule yields_bind [OF w'(1)], simp add: yields_ret)
  from yields_exec [OF this] show ?thesis using w'(2) assms(8) by (auto simp: restart_events_def)
qed

theorem failed_restart_declared_ready_witness:
  "case exec (unm_watchdog_task_fw_reset card_bus (ret (- 1)) 1000 0 (ex_wd\<lparr>w_alive := 0, w_failures := 8\<rparr>)) (\<lambda>a. 0) of ((rearm, w'), g, l) \<Rightarrow>
    g UNM_FW_RESET = NX_NIC_DEV_READY \<and> rearm \<and> w_events w' = [Netif_detach 0, Nic_down 0, Nic_detach 0, Cleanup_lro 0, Start_firmware 0]"
proof -
  let ?w = "ex_wd\<lparr>w_alive := 0, w_failures := 8\<rparr>" and ?h = "\<lambda>a :: u64. 0 :: u32"
  have "w_alive ?w = ?h UNM_PEG_ALIVE_COUNTER" "w_failures ?w = 8" "w_failed_count ?w \<le> 3" "\<exists>p \<in> set (w_ports ?w). pt_num p = 0"
    "?h UNM_PEG_HALT_STATUS1 AND NX_RCODE_FATAL_ERROR = 0"
    using ex_wd_fields by simp_all
  from failed_restart_declared_ready [OF ex_healthy(2) this yields_ret, of "- 1" 1000 0] show ?thesis
    by (simp add: ex_wd_fields split: prod.splits)
qed

text \<open>C40 Two functions of the card may both own the reset: the request of the second is granted while the first has just been granted
  it, so both take their ports down and load the firmware. A transmit timeout is granted to one only.\<close>

theorem reset_granted_twice:
  assumes "h UNM_FW_RESET = NX_NIC_DEV_READY"
  shows "(case exec (do { first \<leftarrow> nx_dev_request_reset card_bus; second \<leftarrow> nx_dev_request_reset card_bus; ret (first, second) }) h of
      (r, h', l) \<Rightarrow> r = (0, 0) \<and> h' UNM_FW_RESET = NX_NIC_DEV_RESET) \<and>
    (case exec (do { first \<leftarrow> nx_dev_request_tx_timeout card_bus; second \<leftarrow> nx_dev_request_tx_timeout card_bus; ret (first, second) }) h of
      (r, h', l) \<Rightarrow> r = (0, - EIO) \<and> h' UNM_FW_RESET = NX_NIC_DEV_TX_TIMEOUT)"
proof (rule conjI)
  note d = dev_request_yields and c = NX_NIC_DEV_READY_def NX_NIC_DEV_RESET_def NX_NIC_DEV_TX_TIMEOUT_def
  let ?h = "h(UNM_FW_RESET := NX_NIC_DEV_RESET)" and ?g = "h(UNM_FW_RESET := NX_NIC_DEV_TX_TIMEOUT)"
  have 1: "yields (nx_dev_request_reset card_bus) h 0 ?h" "yields (nx_dev_request_reset card_bus) ?h 0 ?h"
    using d [of "Some NX_NIC_DEV_RESET" True NX_NIC_DEV_RESET h] d [of "Some NX_NIC_DEV_RESET" True NX_NIC_DEV_RESET ?h] assms
    by (simp_all add: nx_dev_request_reset_def c)
  have 2: "yields (nx_dev_request_tx_timeout card_bus) h 0 ?g" "yields (nx_dev_request_tx_timeout card_bus) ?g (- EIO) ?g"
    using d [of None True NX_NIC_DEV_TX_TIMEOUT h] d [of None True NX_NIC_DEV_TX_TIMEOUT ?g] assms
    by (simp_all add: nx_dev_request_tx_timeout_def c)
  have "yields (do { first \<leftarrow> nx_dev_request_reset card_bus; second \<leftarrow> nx_dev_request_reset card_bus; ret (first, second) }) h (0, 0) ?h"
    by (rule yields_bind [OF 1(1)], rule yields_bind [OF 1(2)], rule yields_ret)
  from yields_exec [OF this] show "case exec (do { first \<leftarrow> nx_dev_request_reset card_bus; second \<leftarrow> nx_dev_request_reset card_bus; ret (first, second) }) h of
      (r, h', l) \<Rightarrow> r = (0, 0) \<and> h' UNM_FW_RESET = NX_NIC_DEV_RESET" by auto
  have "yields (do { first \<leftarrow> nx_dev_request_tx_timeout card_bus; second \<leftarrow> nx_dev_request_tx_timeout card_bus; ret (first, second) }) h (0, - EIO) ?g"
    by (rule yields_bind [OF 2(1)], rule yields_bind [OF 2(2)], rule yields_ret)
  from yields_exec [OF this] show "case exec (do { first \<leftarrow> nx_dev_request_tx_timeout card_bus; second \<leftarrow> nx_dev_request_tx_timeout card_bus; ret (first, second) }) h of
      (r, h', l) \<Rightarrow> r = (0, - EIO) \<and> h' UNM_FW_RESET = NX_NIC_DEV_TX_TIMEOUT" by auto
qed

theorem reset_granted_twice_witness:
  "case exec (do { first \<leftarrow> nx_dev_request_reset card_bus; second \<leftarrow> nx_dev_request_reset card_bus; ret (first, second) }) (\<lambda>a. 0) of
      (r, h', l) \<Rightarrow> r = (0, 0) \<and> h' UNM_FW_RESET = 2"
  using reset_granted_twice [of "\<lambda>a. 0"] by (simp add: NX_NIC_DEV_READY_def NX_NIC_DEV_RESET_def)

end
