(* ===== verification/Poll.thy ===== *)
theory Poll
  imports Watchdog RxRing
begin

text \<open>
  Interrupts and polling, \<open>driver/unm_nic_main.c\<close>: the interrupt handlers (\<open>nx_nic_legacy_intr\<close>, \<open>nx_nic_msi_intr\<close>,
  \<open>nx_nic_msix_intr\<close>) with the routines that tell whether the interrupt is the card's and clear it, switching the interrupts of a
  receive context on and off, and \<open>nx_nic_poll_sts\<close>, the poll routine of a status ring in the NAPI build, which serves the receive
  status ring, the completed transmissions and the pending commands. It is here that the receive and the transmit side meet.

  Direct accesses (\<open>unm_nic_pci_read_immediate\<close>) name the same registers as windowed ones, so both are accesses of the bus.
\<close>

subsection \<open>Interrupt registers\<close>

definition PCIX_INT_VECTOR :: u64 where "PCIX_INT_VECTOR = 0x10100"
definition PCIE_MISCCFG_RC :: u64 where "PCIE_MISCCFG_RC = 0x1206c"
definition ISR_INT_VECTOR :: u64 where "ISR_INT_VECTOR = UNM_PCIE_REG PCIX_INT_VECTOR"
definition ISR_INT_STATE_REG :: u64 where "ISR_INT_STATE_REG = UNM_PCIE_REG PCIE_MISCCFG_RC"
definition CRB_INT_VECTOR :: u64 where "CRB_INT_VECTOR = UNM_NIC_REG 0xd4"

definition ISR_IS_LEGACY_INTR_TRIGGERED :: "u32 \<Rightarrow> bool" where
  "ISR_IS_LEGACY_INTR_TRIGGERED v \<longleftrightarrow> v AND 0x300 = 0x200"

text \<open>\<open>msi_tgt_status\<close>, by PCI function.\<close>

definition msi_tgt_status :: "u64 list" where
  "msi_tgt_status = map UNM_PCIE_REG [0x10118, 0x10160, 0x10164, 0x10168, 0x10360, 0x10364, 0x10368, 0x1036c]"

text \<open>The adapter's interrupt set-up: its bit of the vector and its registers (\<open>legacy_intr\<close>), its function and port, whether the
  revision is a P2, or at least B1 of a P3, and whether the firmware is of version 3.4.\<close>

record irq_conf =
  ic_bit :: u32
  ic_status :: u64
  ic_func :: nat
  ic_portnum :: nat
  ic_p3b1 :: bool
  ic_p2 :: bool
  ic_v34 :: bool

datatype irqreturn = IRQ_NONE | IRQ_HANDLED

subsection \<open>Clearing an interrupt\<close>

text \<open>The end of the routine: the interrupt is claimed, and the vector read twice to flush the write.\<close>

definition claim_interrupt :: "'h bus \<Rightarrow> irq_conf \<Rightarrow> u64 \<Rightarrow> ('h, int) io" where
  "claim_interrupt B c crb = do {
     (if ic_v34 c then unm_nic_disable_int B crb else ret ());
     NXWR32 B (ic_status c) 0xffffffff;
     mask1 \<leftarrow> NXRD32 B ISR_INT_VECTOR;
     mask2 \<leftarrow> NXRD32 B ISR_INT_VECTOR;
     ret 0 }"

definition nx_nic_clear_legacy_int :: "'h bus \<Rightarrow> irq_conf \<Rightarrow> u64 \<Rightarrow> ('h, int) io" where
  "nx_nic_clear_legacy_int B c crb = do {
     status \<leftarrow> NXRD32 B ISR_INT_VECTOR;
     if status AND ic_bit c = 0 then ret (- 1)
     else if ic_p3b1 c then do {
       temp \<leftarrow> NXRD32 B ISR_INT_STATE_REG;
       if \<not> ISR_IS_LEGACY_INTR_TRIGGERED temp then ret (- 1) else claim_interrupt B c crb }
     else if ic_p2 c then do {
       our_int \<leftarrow> NXRD32 B CRB_INT_VECTOR;
       if our_int AND push_bit (ic_portnum c) 0x80 = 0 \<and> our_int \<noteq> 0 then ret (- 1)
       else do {
         NXWR32 B CRB_INT_VECTOR (our_int AND NOT (push_bit (ic_portnum c) 0x80));
         claim_interrupt B c crb } }
     else claim_interrupt B c crb }"

definition nx_nic_clear_msi_int :: "'h bus \<Rightarrow> irq_conf \<Rightarrow> ('h, int) io" where
  "nx_nic_clear_msi_int B c = do { NXWR32 B (msi_tgt_status ! ic_func c) 0xffffffff; ret 0 }"

text \<open>All interrupts of a receive context: \<open>crbs\<close> are the registers of its status rings, if it has any.\<close>

fun for_rings :: "(u64 \<Rightarrow> ('h, unit) io) \<Rightarrow> u64 list \<Rightarrow> ('h, unit) io" where
  "for_rings f [] = ret ()"
| "for_rings f (r # rs) = do { f r; for_rings f rs }"

definition unm_nic_disable_all_int :: "'h bus \<Rightarrow> u64 list option \<Rightarrow> ('h, unit) io" where
  "unm_nic_disable_all_int B crbs = (case crbs of None \<Rightarrow> ret () | Some rs \<Rightarrow> for_rings (unm_nic_disable_int B) rs)"

definition unm_nic_enable_all_int :: "'h bus \<Rightarrow> u64 option \<Rightarrow> u64 list \<Rightarrow> ('h, unit) io" where
  "unm_nic_enable_all_int B tgt_mask rs = for_rings (unm_nic_enable_int B tgt_mask) rs"

subsection \<open>The state of the interface\<close>

text \<open>Both rings, the device, and which status rings are scheduled for polling; \<open>ns_ints\<close> counts interrupts per ring and in all,
  \<open>ns_polled\<close> the polls of the older routine.\<close>

record 'h nic_state =
  ns_rx :: rx_adapter
  ns_tx :: tx_adapter
  ns_dev :: "'h dev"
  ns_napi :: "nat list"
  ns_ints :: "nat \<Rightarrow> nat"
  ns_all_ints :: nat
  ns_polled :: nat

definition on_dev :: "('h, 'a) io \<Rightarrow> 'h nic_state \<Rightarrow> 'a \<times> 'h nic_state" where
  "on_dev p s = (case run_state p (ns_dev s) of (x, d) \<Rightarrow> (x, s\<lparr>ns_dev := d\<rparr>))"

text \<open>The ring is scheduled, unless it is already (\<open>NX_PREP_AND_SCHED_RX\<close>).\<close>

definition nx_nic_handle_interrupt :: "nat \<Rightarrow> 'h nic_state \<Rightarrow> 'h nic_state" where
  "nx_nic_handle_interrupt k s = (if k \<in> set (ns_napi s) then s else s\<lparr>ns_napi := ns_napi s @ [k]\<rparr>)"

text \<open>\<open>run\<close> is whether the interface runs or an LSA client is registered.\<close>

definition take_interrupt :: "bool \<Rightarrow> nat \<Rightarrow> 'h nic_state \<Rightarrow> 'h nic_state" where
  "take_interrupt run k s =
     (if \<not> run then s
      else nx_nic_handle_interrupt k (s\<lparr>ns_ints := (ns_ints s)(k := ns_ints s k + 1), ns_all_ints := ns_all_ints s + 1\<rparr>))"

definition nx_nic_legacy_intr ::
    "'h bus \<Rightarrow> irq_conf \<Rightarrow> (nat \<Rightarrow> u64) \<Rightarrow> nat \<Rightarrow> bool \<Rightarrow> nat \<Rightarrow> 'h nic_state \<Rightarrow> irqreturn \<times> 'h nic_state" where
  "nx_nic_legacy_intr B c crb irq run k s =
     (if irq = 0 then (IRQ_NONE, s)
      else case on_dev (nx_nic_clear_legacy_int B c (crb k)) s of
        (rv, s) \<Rightarrow> (IRQ_HANDLED, if rv = - 1 then s else take_interrupt run k s))"

definition nx_nic_msi_intr ::
    "'h bus \<Rightarrow> irq_conf \<Rightarrow> nat \<Rightarrow> bool \<Rightarrow> nat \<Rightarrow> 'h nic_state \<Rightarrow> irqreturn \<times> 'h nic_state" where
  "nx_nic_msi_intr B c irq run k s =
     (if irq = 0 then (IRQ_NONE, s)
      else case on_dev (nx_nic_clear_msi_int B c) s of
        (rv, s) \<Rightarrow> if rv = - 1 then (IRQ_NONE, s) else (IRQ_HANDLED, take_interrupt run k s))"

definition nx_nic_msix_intr :: "nat \<Rightarrow> bool \<Rightarrow> nat \<Rightarrow> 'h nic_state \<Rightarrow> irqreturn \<times> 'h nic_state" where
  "nx_nic_msix_intr irq run k s = (if irq = 0 then (IRQ_NONE, s) else (IRQ_HANDLED, take_interrupt run k s))"

subsection \<open>Polling\<close>

text \<open>\<open>idx\<close> are the two readings of the card's consumer index, \<open>excl1\<close> and \<open>excl2\<close> whether \<open>tx_cpu_excl\<close> was free. The result is the
  work done and the state; \<^const>\<open>None\<close> is a crash.\<close>

definition nx_nic_poll_sts ::
    "'h bus \<Rightarrow> u64 option \<Rightarrow> (nat \<Rightarrow> u64) \<Rightarrow> rx_env \<Rightarrow> nat \<times> nat \<Rightarrow> bool \<Rightarrow> bool \<Rightarrow> nat \<Rightarrow> nat \<Rightarrow> 'h nic_state \<Rightarrow> (nat \<times> 'h nic_state) option" where
  "nx_nic_poll_sts B tgt_mask crb e idx excl1 excl2 k work_to_do s =
     (case unm_process_rcv_ring e k work_to_do (ns_rx s) of
        None \<Rightarrow> None
      | Some (work_done, rx) \<Rightarrow>
          (case (if excl1 then map_option snd (unm_process_cmd_ring (fst idx) (snd idx) (ns_tx s)) else Some (ns_tx s)) of
             None \<Rightarrow> None
           | Some tx \<Rightarrow>
               let s = s\<lparr>ns_rx := rx, ns_tx := tx\<rparr>;
                   s = (if work_done < work_to_do
                        then snd (on_dev (unm_nic_enable_int B tgt_mask (crb k)) (s\<lparr>ns_napi := filter (\<lambda>j. j \<noteq> k) (ns_napi s)\<rparr>)) else s);
                   s = (if excl2 \<and> unm_get_pending_cmd_desc_cnt (pending_cmds (ns_tx s)) \<noteq> 0
                        then s\<lparr>ns_tx := unm_proc_pending_cmd_desc (ns_tx s)\<rparr> else s)
               in Some (work_done, s)))"

text \<open>The poll routine of older kernels (\<open>unm_nic_poll\<close>): one ring, no lock on the transmit side, and the poll is not done as long as
  completions are left. The result is the answer, the work done, by which quota and budget go down, and the state.\<close>

definition unm_nic_poll ::
    "'h bus \<Rightarrow> u64 option \<Rightarrow> u64 \<Rightarrow> rx_env \<Rightarrow> nat \<times> nat \<Rightarrow> nat \<Rightarrow> 'h nic_state \<Rightarrow> (nat \<times> nat \<times> 'h nic_state) option" where
  "unm_nic_poll B tgt_mask crb e idx work_to_do s =
     (case unm_process_rcv_ring e 0 work_to_do (ns_rx s) of
        None \<Rightarrow> None
      | Some (work_done, rx) \<Rightarrow>
          (case unm_process_cmd_ring (fst idx) (snd idx) (ns_tx s) of
             None \<Rightarrow> None
           | Some (fin, tx) \<Rightarrow>
               let done = (work_done < work_to_do \<and> fin);
                   s = s\<lparr>ns_rx := rx, ns_tx := tx, ns_polled := ns_polled s + 1\<rparr>;
                   s = (if done
                        then snd (on_dev (unm_nic_enable_int B tgt_mask crb) (s\<lparr>ns_napi := filter (\<lambda>j. j \<noteq> 0) (ns_napi s)\<rparr>)) else s);
                   s = (if unm_get_pending_cmd_desc_cnt (pending_cmds (ns_tx s)) \<noteq> 0
                        then s\<lparr>ns_tx := unm_proc_pending_cmd_desc (ns_tx s)\<rparr> else s)
               in Some (if done then 0 else 1, work_done, s)))"

subsection \<open>What a poll does\<close>

lemma ring_parse_length: "length (fst (ring_parse e mx n c D)) \<le> n"
proof (induction n arbitrary: c D)
  case (Suc n)
  then show ?case by (simp add: Let_def case_prod_unfold)
qed simp

lemma process_rcv_ring_count:
  assumes "k < length (ra_sds a)" "ring_parse e (ra_max_rx_desc a) n (sh_consumer (ra_sds a ! k)) (sh_descs (ra_sds a ! k)) = (ms, c, D)"
    "unm_process_rcv_ring e k n a = Some (w, b)"
  shows "w \<le> n \<and> (w = 0 \<longleftrightarrow> ms = [])"
proof -
  let ?s = "ra_sds a ! k"
  let ?a = "set_sds k (?s\<lparr>sh_polled := sh_polled ?s + 1\<rparr>) a"
  have k: "k < length (ra_sds ?a)" and D: "set_descs k (sh_descs ?s) ?a = ?a" and mx: "ra_max_rx_desc ?a = ra_max_rx_desc a"
    using assms(1) by (simp_all add: set_descs_def set_sds_def)
  have n: "length ms \<le> n" using ring_parse_length [of e "ra_max_rx_desc a" n "sh_consumer ?s" "sh_descs ?s"] assms(2) by simp
  obtain cnt where "cnt = length ms \<or> cnt = 1 \<and> 0 < length ms"
      "ring_loop e k n 0 (sh_consumer ?s) ?a = map_option (\<lambda>b. (cnt, c, set_descs k D b)) (dispatch_all e k ms ?a)"
    using ring_loop_refines [OF k, of e n "sh_consumer ?s" "sh_descs ?s" ms c D 0] assms(2) D mx by auto
  moreover from this(2) have "w = cnt" using assms(3) by (auto simp: unm_process_rcv_ring_def Let_def split: option.splits)
  ultimately show ?thesis using n by (cases ms) auto
qed

definition tx_room_or_empty :: "tx_adapter \<Rightarrow> bool" where
  "tx_room_or_empty a \<longleftrightarrow> pend_contents (pending_cmds a) = [] \<or> MaxTxDescCount a - 1 - in_flight a < MAX_PENDING_DESC_BLOCK_SIZE"

lemma poll_completions:
  assumes "ring_inv a" "m \<le> in_flight a" "fst idx = (lastCmdConsumer a + m) mod MaxTxDescCount a"
  shows "\<exists>b. (if ex then map_option snd (unm_process_cmd_ring (fst idx) (snd idx) a) else Some a) = Some b \<and>
    ring_inv b \<and> tx_stream b = drop (if ex then min MAX_STATUS_HANDLE m else 0) (tx_stream a)"
proof (cases ex)
  case True
  obtain fin b where b: "unm_process_cmd_ring (fst idx) (snd idx) a = Some (fin, b)" "ring_inv b"
      "ring_contents b = drop (min MAX_STATUS_HANDLE m) (ring_contents a)" "pending_cmds b = pending_cmds a"
    using process_cmd_ring_spec [OF assms, of "snd idx"] by blast
  have "min MAX_STATUS_HANDLE m \<le> length (ring_contents a)" using assms(2) by (simp add: ring_contents_def)
  then show ?thesis using True b by (simp add: tx_stream_def)
next
  case False
  then show ?thesis using assms(1) by simp
qed

lemma poll_pending:
  assumes "ring_inv a" "b = (if ex \<and> unm_get_pending_cmd_desc_cnt (pending_cmds a) \<noteq> 0 then unm_proc_pending_cmd_desc a else a)"
  shows "ring_inv b \<and> tx_stream b = tx_stream a \<and> (ex \<longrightarrow> tx_room_or_empty b)"
  using proc_pending_spec [OF assms(1) refl] assms pend_cnt_0 [OF ring_inv_pending [OF assms(1)]]
  by (auto simp: tx_room_or_empty_def)

text \<open>The accesses that enable the interrupt of a ring.\<close>

definition enable_writes :: "u64 option \<Rightarrow> u64 \<Rightarrow> access list" where
  "enable_writes tgt_mask crb = Wr crb 1 # (case tgt_mask of None \<Rightarrow> [] | Some r \<Rightarrow> [Wr r 0xfbff])"

lemma enable_int_log:
  "log (snd (run_state (unm_nic_enable_int B tgt_mask crb) d)) = log d @ enable_writes tgt_mask crb"
  by (simp add: unm_nic_enable_int_def enable_writes_def io_simps split: option.split)

lemma on_dev_simps [simp]:
  "ns_rx (snd (on_dev p s)) = ns_rx s" "ns_tx (snd (on_dev p s)) = ns_tx s" "ns_napi (snd (on_dev p s)) = ns_napi s"
  "ns_dev (snd (on_dev p s)) = snd (run_state p (ns_dev s))" "fst (on_dev p s) = fst (run_state p (ns_dev s))"
  by (simp_all add: on_dev_def split: prod.split)

text \<open>
  C4 One poll of a status ring (\<open>nx_nic_poll_sts\<close>) serves both directions: when the buffers named by the waiting messages are on the card
  and the card's index is \<open>m\<close> slots past the transmit consumer, the poll does not crash; the work it reports is within the budget, and
  none only if no message waits; the transmit ring keeps its invariant, and of its stream exactly the first \<open>min 128 m\<close> commands are
  retired, if this processor had the ring, whatever commands then move out of the pending queue; after that the queue is empty or the
  ring short of room. The status ring leaves the poll list, and its interrupt is enabled, exactly if the budget was not used up.
\<close>

theorem poll_serves_both_rings:
  assumes "rx_reachable al a0 h" "new_adapter a0" "same_bufs (hx h) (ns_rx s)" "k < length (ra_sds (ns_rx s))"
    "ring_parse e (ra_max_rx_desc (ns_rx s)) n (sh_consumer (ra_sds (ns_rx s) ! k)) (sh_descs (ra_sds (ns_rx s) ! k)) = (ms, c, D)"
    "list_all (msg_ok e (length (ra_rds (ns_rx s)))) ms" "on_card (concat (map (msg_handles e) ms)) h"
    and "ring_inv (ns_tx s)" "m \<le> in_flight (ns_tx s)" "fst idx = (lastCmdConsumer (ns_tx s) + m) mod MaxTxDescCount (ns_tx s)"
  shows "\<exists>w s'. nx_nic_poll_sts B tgt_mask crb e idx excl1 excl2 k n s = Some (w, s') \<and> w \<le> n \<and> (w = 0 \<longleftrightarrow> ms = []) \<and>
    ring_inv (ns_tx s') \<and> tx_stream (ns_tx s') = drop (if excl1 then min MAX_STATUS_HANDLE m else 0) (tx_stream (ns_tx s)) \<and>
    (excl2 \<longrightarrow> tx_room_or_empty (ns_tx s')) \<and>
    ns_napi s' = (if w < n then filter (\<lambda>j. j \<noteq> k) (ns_napi s) else ns_napi s) \<and>
    log (ns_dev s') = log (ns_dev s) @ (if w < n then enable_writes tgt_mask (crb k) else [])"
proof -
  obtain w rx where r: "unm_process_rcv_ring e k n (ns_rx s) = Some (w, rx)"
    using receive_ring_ok [OF assms(1-7)] by force
  obtain tx where t: "(if excl1 then map_option snd (unm_process_cmd_ring (fst idx) (snd idx) (ns_tx s)) else Some (ns_tx s)) = Some tx"
      "ring_inv tx" "tx_stream tx = drop (if excl1 then min MAX_STATUS_HANDLE m else 0) (tx_stream (ns_tx s))"
    using poll_completions [OF assms(8-10), of excl1] by blast
  have p: "ring_inv b \<and> tx_stream b = tx_stream tx \<and> (excl2 \<longrightarrow> tx_room_or_empty b)"
    if "b = (if excl2 \<and> unm_get_pending_cmd_desc_cnt (pending_cmds tx) \<noteq> 0 then unm_proc_pending_cmd_desc tx else tx)" for b
    using poll_pending [OF t(2) that] .
  let ?poll = "nx_nic_poll_sts B tgt_mask crb e idx excl1 excl2 k n s"
  let ?c = "excl2 \<and> unm_get_pending_cmd_desc_cnt (pending_cmds tx) \<noteq> 0"
  obtain s' where s': "?poll = Some (w, s')" "ns_tx s' = (if ?c then unm_proc_pending_cmd_desc tx else tx)"
      "ns_napi s' = (if w < n then filter (\<lambda>j. j \<noteq> k) (ns_napi s) else ns_napi s)"
      "log (ns_dev s') = log (ns_dev s) @ (if w < n then enable_writes tgt_mask (crb k) else [])"
    by (simp add: nx_nic_poll_sts_def r t(1) Let_def enable_int_log)
  show ?thesis
    using s' p [OF s'(2)] t(3) process_rcv_ring_count [OF assms(4,5) r] by auto
qed

text \<open>The older routine retires a prefix of the stream too, and asks to be polled again, its interrupt off, if it left completions.\<close>

lemma old_poll_asks_again:
  assumes "unm_process_rcv_ring e 0 n (ns_rx s) = Some (w, rx)"
    and "ring_inv (ns_tx s)" "m \<le> in_flight (ns_tx s)" "fst idx = (lastCmdConsumer (ns_tx s) + m) mod MaxTxDescCount (ns_tx s)"
  shows "\<exists>rv s'. unm_nic_poll B tgt_mask crb e idx n s = Some (rv, w, s') \<and>
    ring_inv (ns_tx s') \<and> tx_stream (ns_tx s') = drop (min MAX_STATUS_HANDLE m) (tx_stream (ns_tx s)) \<and> tx_room_or_empty (ns_tx s') \<and>
    (w = n \<longrightarrow> rv = 1) \<and> (rv = 1 \<longrightarrow> log (ns_dev s') = log (ns_dev s) \<and> ns_napi s' = ns_napi s) \<and>
    (rv \<noteq> 1 \<longrightarrow> log (ns_dev s') = log (ns_dev s) @ enable_writes tgt_mask crb)"
proof -
  obtain fin tx where c: "unm_process_cmd_ring (fst idx) (snd idx) (ns_tx s) = Some (fin, tx)"
    using process_cmd_ring_spec [OF assms(2-4), of "snd idx"] by blast
  have t: "ring_inv tx" "tx_stream tx = drop (min MAX_STATUS_HANDLE m) (tx_stream (ns_tx s))"
    using poll_completions [OF assms(2-4), of True] c by auto
  show ?thesis
    using poll_pending [OF t(1) refl, of True] t(2) by (cases "unm_get_pending_cmd_desc_cnt (pending_cmds tx) = 0"; simp add: unm_nic_poll_def assms(1) c Let_def enable_int_log)
qed

text \<open>The receive ring with one packet waiting, an idle transmit ring, and the ring on the poll list.\<close>

definition ex_nic_state :: "(u64 \<Rightarrow> u32) nic_state" where
  "ex_nic_state = \<lparr>ns_rx = ex_adapter, ns_tx = sample_adapter, ns_dev = \<lparr>hw = (\<lambda>_. 0), log = []\<rparr>, ns_napi = [0],
     ns_ints = (\<lambda>_. 0), ns_all_ints = 0, ns_polled = 0\<rparr>"

theorem poll_serves_both_rings_witness:
  "\<exists>w s'. nx_nic_poll_sts mem_bus None (\<lambda>_. 0x40) ex_env (3, 3) True True 0 4 ex_nic_state = Some (w, s') \<and> 0 < w \<and>
     tx_stream (ns_tx s') = []"
proof -
  have x: "ns_rx ex_nic_state = ex_adapter" "ns_tx ex_nic_state = sample_adapter" by (simp_all add: ex_nic_state_def)
  have "fst (3::nat, 3::nat) = (lastCmdConsumer sample_adapter + 0) mod MaxTxDescCount sample_adapter"
    by (simp add: sample_adapter_def)
  with poll_serves_both_rings [OF ex_posted_reachable ex_rx_new, of ex_nic_state 0 ex_env 4 "[(ex_desc, [])]" 1 _ 0 "(3, 3)" mem_bus None
      "\<lambda>_. 0x40" True True, unfolded x, OF ex_adapter_ready(2,1,3,4,5) sample_inv]
  show ?thesis by (auto simp: sample_stream)
qed

subsection \<open>What an interrupt does\<close>

text \<open>The interrupt is this function's: of what the routine read, the vector shows the function's bit; on a P3 of revision B1 or later
  the state register, read next, shows a triggered legacy interrupt; on a P2 the software's vector shows the port's bit, or nothing.\<close>

fun own_interrupt :: "irq_conf \<Rightarrow> access list \<Rightarrow> bool" where
  "own_interrupt c (Rd a v # l) \<longleftrightarrow> a = ISR_INT_VECTOR \<and> v AND ic_bit c \<noteq> 0 \<and>
     (if ic_p3b1 c then (case l of Rd b t # _ \<Rightarrow> b = ISR_INT_STATE_REG \<and> bit t 9 \<and> \<not> bit t 8 | _ \<Rightarrow> False)
      else if ic_p2 c then (case l of Rd b t # _ \<Rightarrow> b = CRB_INT_VECTOR \<and> (bit t (7 + ic_portnum c) \<or> t = 0) | _ \<Rightarrow> False)
      else True)"
| "own_interrupt c _ = False"

text \<open>The end of an acknowledgement: all bits written to the function's status register, and the vector read twice behind the write.\<close>

definition acknowledged :: "irq_conf \<Rightarrow> access list \<Rightarrow> bool" where
  "acknowledged c l \<longleftrightarrow> (\<exists>l' v w. l = l' @ [Wr (ic_status c) 0xffffffff, Rd ISR_INT_VECTOR v, Rd ISR_INT_VECTOR w])"

definition only_reads :: "access list \<Rightarrow> bool" where
  "only_reads l \<longleftrightarrow> (\<forall>x \<in> set l. case x of Rd a v \<Rightarrow> True | Wr a v \<Rightarrow> False)"

lemma claim_acknowledges:
  assumes "run_state (claim_interrupt B c crb) d = (rv, d')"
  shows "rv = 0 \<and> (\<exists>l. log d' = log d @ l \<and> acknowledged c l)"
  using assms by (auto simp: claim_interrupt_def acknowledged_def unm_nic_disable_int_def io_simps split: if_splits)

lemma claim_after:
  assumes "run_state (claim_interrupt B c crb) d1 = (rv, d')" "log d1 = log d @ l1" "own_interrupt c l1"
  shows "rv = 0 \<and> (\<exists>l. log d' = log d @ l \<and> own_interrupt c l \<and> acknowledged c l)"
proof -
  obtain l where l: "rv = 0" "log d' = log d1 @ l" "acknowledged c l" using claim_acknowledges [OF assms(1)] by blast
  have "own_interrupt c (l1 @ l)"
    using assms(3) by (cases "(c, l1)" rule: own_interrupt.cases) (auto split: list.splits access.splits if_splits)
  moreover have "acknowledged c (l1 @ l)" using l(3) by (auto simp: acknowledged_def)
  ultimately show ?thesis using l(1,2) assms(2) by auto
qed

lemma triggered_bits: "ISR_IS_LEGACY_INTR_TRIGGERED v \<longleftrightarrow> bit v 9 \<and> \<not> bit v 8"
proof -
  have b: "bit (0x300 :: u32) n \<longleftrightarrow> n = 8 \<or> n = 9" "bit (0x200 :: u32) n \<longleftrightarrow> n = 9" for n
  proof -
    have "(0x300 :: u32) = push_bit 8 (mask 2)" "(0x200 :: u32) = push_bit 9 1" by (simp_all add: mask_eq_exp_minus_1)
    then show "bit (0x300 :: u32) n \<longleftrightarrow> n = 8 \<or> n = 9" "bit (0x200 :: u32) n \<longleftrightarrow> n = 9"
      by (auto simp only: bit_push_bit_iff bit_mask_iff bit_1_iff possible_bit_word) auto
  qed
  show ?thesis
    unfolding ISR_IS_LEGACY_INTR_TRIGGERED_def
  proof
    assume "v AND 0x300 = 0x200"
    then have "bit (v AND 0x300) n = bit (0x200 :: u32) n" for n by (simp only:)
    from this [of 8] this [of 9] show "bit v 9 \<and> \<not> bit v 8" unfolding bit_and_iff b by simp
  next
    assume "bit v 9 \<and> \<not> bit v 8"
    then show "v AND 0x300 = 0x200" by (intro bit_word_eqI) (auto simp only: bit_and_iff b)
  qed
qed

lemma port_bit: "w AND push_bit p 0x80 = 0 \<longleftrightarrow> \<not> bit w (7 + p)" for w :: u32
proof -
  have e: "push_bit p (0x80 :: u32) = push_bit (7 + p) 1" by (simp add: push_bit_eq_mult power_add)
  have b: "bit (push_bit (7 + p) (1 :: u32)) n \<longleftrightarrow> n = 7 + p \<and> n < 32" for n
    unfolding bit_push_bit_iff bit_1_iff by auto
  show ?thesis
    unfolding e
  proof
    assume "w AND push_bit (7 + p) 1 = 0"
    then have "\<not> bit (w AND push_bit (7 + p) 1) (7 + p)" by simp
    then show "\<not> bit w (7 + p)" using bit_imp_le_length [of w "7 + p"] unfolding bit_and_iff b by auto
  next
    assume "\<not> bit w (7 + p)"
    then show "w AND push_bit (7 + p) 1 = 0" by (intro bit_word_eqI) (auto simp only: bit_and_iff b bit_0_eq bot_apply bot_bool_def)
  qed
qed

lemma clear_legacy_cases:
  assumes "run_state (nx_nic_clear_legacy_int B c crb) d = (rv, d')"
  shows "\<exists>l. log d' = log d @ l \<and> (rv = - 1 \<and> \<not> own_interrupt c l \<and> only_reads l \<or> rv = 0 \<and> own_interrupt c l \<and> acknowledged c l)"
  using assms unfolding nx_nic_clear_legacy_int_def
  by (auto simp: io_simps only_reads_def run_state_if triggered_bits port_bit dest!: claim_after [where d = d] split: if_splits)

lemma take_interrupt_simps [simp]:
  "ns_rx (take_interrupt run k s) = ns_rx s" "ns_tx (take_interrupt run k s) = ns_tx s" "ns_dev (take_interrupt run k s) = ns_dev s"
  "ns_napi (take_interrupt run k s) = (if run \<and> k \<notin> set (ns_napi s) then ns_napi s @ [k] else ns_napi s)"
  "ns_all_ints (take_interrupt run k s) = ns_all_ints s + (if run then 1 else 0)"
  by (auto simp: take_interrupt_def nx_nic_handle_interrupt_def)

text \<open>
  C14 The legacy interrupt handler (\<open>nx_nic_legacy_intr\<close>) serves an interrupt exactly if it is this function's, whatever the card
  answers. \<open>own_interrupt\<close> says what that means in terms of the registers read. If it is, the accesses end with the acknowledgement and
  two reads that flush it, the interrupt is counted and the status ring is put on the poll list, once, provided the interface runs. If
  it is not, the handler has only read registers, and counts and schedules nothing. The rings are left alone, and the kernel is always
  told that the interrupt was handled, even one that is not this function's.
\<close>

theorem legacy_interrupt_serves_own:
  assumes "irq \<noteq> 0" "nx_nic_legacy_intr B c crb irq run k s = (r, s')"
  shows "r = IRQ_HANDLED \<and> ns_rx s' = ns_rx s \<and> ns_tx s' = ns_tx s \<and>
    (\<exists>l. log (ns_dev s') = log (ns_dev s) @ l \<and>
      (if own_interrupt c l
       then acknowledged c l \<and> ns_all_ints s' = ns_all_ints s + (if run then 1 else 0) \<and>
         ns_napi s' = (if run \<and> k \<notin> set (ns_napi s) then ns_napi s @ [k] else ns_napi s)
       else only_reads l \<and> ns_all_ints s' = ns_all_ints s \<and> ns_napi s' = ns_napi s))"
proof -
  obtain rv d where d: "run_state (nx_nic_clear_legacy_int B c (crb k)) (ns_dev s) = (rv, d)" by (metis surj_pair)
  have o: "on_dev (nx_nic_clear_legacy_int B c (crb k)) s = (rv, s\<lparr>ns_dev := d\<rparr>)" by (simp add: on_dev_def d)
  obtain l where l: "log d = log (ns_dev s) @ l"
      "rv = - 1 \<and> \<not> own_interrupt c l \<and> only_reads l \<or> rv = 0 \<and> own_interrupt c l \<and> acknowledged c l"
    using clear_legacy_cases [OF d] by blast
  have s': "r = IRQ_HANDLED" "s' = (if rv = - 1 then s\<lparr>ns_dev := d\<rparr> else take_interrupt run k (s\<lparr>ns_dev := d\<rparr>))"
    using assms(1,2) by (simp_all add: nx_nic_legacy_intr_def o)
  show ?thesis using l(2) by (auto simp: s' l(1))
qed

text \<open>A triggered interrupt of function 0 of a P3, and one of another function.\<close>

definition ex_irq :: irq_conf where
  "ex_irq = \<lparr>ic_bit = 0x80, ic_status = 0x40, ic_func = 0, ic_portnum = 0, ic_p3b1 = True, ic_p2 = False, ic_v34 = False\<rparr>"

definition ex_irq_state :: "u32 list \<Rightarrow> u32 list nic_state" where
  "ex_irq_state answers = \<lparr>ns_rx = ex_adapter, ns_tx = sample_adapter, ns_dev = \<lparr>hw = answers, log = []\<rparr>, ns_napi = [],
     ns_ints = (\<lambda>_. 0), ns_all_ints = 0, ns_polled = 0\<rparr>"

theorem legacy_interrupt_serves_own_witness:
  "(case nx_nic_legacy_intr script_bus ex_irq (\<lambda>_. 0x44) 9 True 0 (ex_irq_state [0x80, 0x200]) of
      (r, s') \<Rightarrow> r = IRQ_HANDLED \<and> ns_napi s' = [0] \<and> ns_rx s' = ex_adapter) \<and>
   (case nx_nic_legacy_intr script_bus ex_irq (\<lambda>_. 0x44) 9 True 0 (ex_irq_state [0x100]) of
      (r, s') \<Rightarrow> r = IRQ_HANDLED \<and> ns_napi s' = [] \<and> ns_rx s' = ex_adapter)"
proof -
  note d = nx_nic_legacy_intr_def on_dev_def nx_nic_clear_legacy_int_def claim_interrupt_def io_simps run_state_if ex_irq_def
    ex_irq_state_def ISR_IS_LEGACY_INTR_TRIGGERED_def
  have r: "(case nx_nic_legacy_intr script_bus ex_irq (\<lambda>_. 0x44) 9 True 0 (ex_irq_state [0x80, 0x200]) of (r, s') \<Rightarrow> ns_napi s' = [0])"
    "(case nx_nic_legacy_intr script_bus ex_irq (\<lambda>_. 0x44) 9 True 0 (ex_irq_state [0x100]) of (r, s') \<Rightarrow> ns_napi s' = [])"
    by (simp_all add: d)
  have x: "ns_rx (ex_irq_state as) = ex_adapter" for as by (simp add: ex_irq_state_def)
  show ?thesis
    using r legacy_interrupt_serves_own [of 9 script_bus ex_irq "\<lambda>_. 0x44" True 0] x by (auto split: prod.split)
qed

end
