(* ===== verification/Spec2Isabelle.thy ===== *)
theory Spec2Isabelle
  imports Lro Mdio Tap Miu MacFilter RxRing MemWin TxOwner Poll
begin

text \<open>
  Verification of the NetXen/HP NIC driver (\<open>src/driver\<close>, \<open>src/include\<close>), version 4.0.556 of the Linux driver for the 1G and
  10G cards with P2 and P3 chips.

  \<^bold>\<open>The program and its parts.\<close> The driver and the firmware of the card talk in three ways. Registers of the card are read
  and written through the PCI aperture. Commands to set up the card go through a few of these registers, under a hardware
  semaphore that the functions of the card share. Everything else goes through rings in host memory: the transmit ring carries packets
  and requests to the firmware, and each receive context has rings of empty buffers for the card and status rings in which the card
  reports what it received and answers requests. A poll routine per status ring, started by the interrupt handler, joins
  the two directions; a watchdog restarts firmware that hangs.

  The theories follow these parts, each in the order of its source file, and import each other as the parts call each
  other. In each the state of a part is a record with the fields of the C structure, an operation of the part is a definition with
  the name of the C function, and the definitions are executable.

  \<^item> \<open>Prelude\<close>: integer types, lists, bit fields, the conventions on crashes and locks.
  \<^item> Transmit side. \<open>TxPending\<close>: \<open>unm_pending_cmd_descs_t\<close>, the queue of commands that found no room
    (\<open>unm_queue_pending_cmd_descs\<close>, \<open>unm_dequeue_pending_cmd_desc\<close>). \<open>TxRing\<close>: the command ring in \<open>unm_adapter\<close>: sending
    (\<open>nx_nic_send_cmd_descs\<close>), draining (\<open>unm_proc_pending_cmd_desc\<close>), completion (\<open>unm_process_cmd_ring\<close>). \<open>TxFrame\<close>:
    \<open>unm_nic_xmit_frame\<close> with its helpers, and \<open>nx_free_tx_resources\<close>. \<open>TxOwner\<close>: all of them together, over runs.
  \<^item> Receive side. \<open>RxBuf\<close>: the buffers of a receive context and their lists (\<open>initialize_adapter_sw\<close>, \<open>nx_post_rx_descriptors\<close>,
    \<open>nx_post_freed_rxbufs\<close>, \<open>nx_free_rx_resources\<close>). \<open>RxRing\<close>: the status ring (\<open>unm_process_rcv_ring\<close>) and what is done with packets
    (\<open>unm_process_rcv\<close>), aggregated packets (\<open>unm_process_lro\<close>) and messages. \<open>HashTable\<close>, \<open>MemPool\<close>, \<open>Lro\<close>:
    \<open>nx_hash_table.c\<close>, \<open>nx_mem_pool.c\<close>, and the flows of large receive offload over them, \<open>unm_nic_lro.c\<close>.
  \<^item> Registers. \<open>RegIO\<close>: programs over a bus, with a log of accesses. \<open>Niu\<close>, \<open>Mdio\<close>: \<open>niu.c\<close>, \<open>xge_mdio.c\<close>. \<open>CrbMap\<close>, \<open>Rom\<close>, \<open>Tap\<close>: the
    address translation, flash and JTAG routines of \<open>unm_nic_init.c\<close>. \<open>HwAccess\<close>, \<open>MemWin\<close>, \<open>Miu\<close>, \<open>P2Port\<close>: \<open>unm_nic_hw.c\<close>, that
    is the windows of the aperture, the windows on the card's memory, its test agents, and the port of a P2 card. The first
    two are the layer below \<open>NXRD32\<close> and \<open>NXWR32\<close>; the other theories take these as accesses of the bus.
  \<^item> Firmware. \<open>FwCmd\<close>: the command registers, \<open>nxhal.c\<close>. \<open>NicCtx\<close>: creating and destroying contexts with the firmware, \<open>nxhal.c\<close> and
    the allocation functions of \<open>unm_nic_main.c\<close>. \<open>EventWait\<close>: requests over the transmit ring that wait for an answer
    (\<open>nx_os_event_wait_setup\<close> to \<open>nx_os_send_nic_request\<close>). \<open>NicReq\<close>: the configuration requests. \<open>MacFilter\<close>: the address list of P3 cards.
  \<^item> Control. \<open>Watchdog\<close>: link watchdog, transmit timeout, the state register the functions of the card share, the firmware watchdog.
    \<open>Poll\<close>: interrupt handlers and \<open>nx_nic_poll_sts\<close>, over the receive and the transmit side.

  \<^bold>\<open>The counterparts.\<close> Hardware, firmware and kernel are parameters: theorems hold for any bus, any answer of the allocator and of
  the DMA mapping, any contents of uninitialised memory, unless they name what they rely on. \<open>sem_bus\<close>: a semaphore register
  gives 0 or 1. \<open>settles\<close>: a window that is selected is shown after a bounded number of reads. \<open>fw_bus\<close>: firmware that
  answers a command after a number of polls, computed by an arbitrary function. \<open>miu_bus\<close>: memory behind a test agent that is never
  busy. \<open>host_memory\<close>: the memory the firmware reaches by DMA. Each such hypothesis has a witness that instantiates it.

  \<^bold>\<open>What is shown.\<close>
  \<^item> Transmit: whatever the interleaving of packets, commands, draining and completion, what entered the ring is what the card
    completed followed by what is in the ring, in order; commands leave the pending queue in order; every packet given is held by one
    slot or was freed once. A packet becomes descriptors with its fragments, length and headers in order. The hypothesis on the
    length of headers (21 to 126 bytes) cannot be dropped: longer ones are written over descriptors in flight.
  \<^item> Receive: every buffer is in one place at all times, and the posting guard keeps to one thread; the status ring is read as a queue
    of whole messages, each handled once and its descriptors handed back; nothing crashes on messages that name buffers the card has.
    The indices the code does not test, and what follows, are lemmas.
  \<^item> Offload: flows in the table and blocks of the pool stay in step on every path; the table is a dictionary, the pool an allocator.
  \<^item> Firmware: a command returns the answer or a timeout, under a lock discipline read off the accesses; creating a context is the
    exchange the firmware expects and is undone on failure; ids of waiting requests are unique, and a failed request leaves a dangling
    waiter; requests decode by the layouts of the interface, up to two fields that are never assigned.
  \<^item> Registers: lock discipline, the protocol of the windows on the state of the window registers as written, injectivity of the map of a 2M BAR, memory
    accesses of any alignment, the filters of P2 and P3 cards against the sets they stand for.
  \<^item> Control: hung firmware is restarted and living firmware is not; a poll serves both sides within its budget; an interrupt is
    served exactly if it is the function's own.
  Where the code has a flaw a theorem describes what it does, and the list of findings kept beside the development says where.

  \<^bold>\<open>Interfaces.\<close> The locale \<open>fifo\<close> is the contract of the pending queue, \<open>dictionary\<close> of the hash table, \<open>block_pool\<close> of the memory pool,
  \<open>hw_lock\<close> of the hardware semaphores (interpreted for the API, PHY and flash semaphores), \<open>ctx_table\<close> of the context slots
  (interpreted for receive and transmit contexts). Each is interpreted on the definitions translated from the code, in their theory.

  \<^bold>\<open>Loops and bounds.\<close> Loops of the code are recursions with the bounds of the code (4000 polls of the command register, \<open>10^8\<close> of
  the window semaphore, 128 completions in one call, the budget of a poll), so they terminate as definitions. \<open>drain_pending\<close>, \<open>wait_loop\<close>
  and \<open>copy_to_ring\<close> have their own termination proofs. Two loops take a bound as an argument: the wait for the PHY, where 26
  turns always suffice (\<open>mii_wait_fuel\<close>), and the wait for a register window, which in the code has no bound: any fuel from the
  number of reads after which the card shows the window suffices (\<open>read_128M_protocol\<close>), and without such a number
  the routine does not return (\<open>read_128M_hangs\<close>).

  \<^bold>\<open>Conventions.\<close> A crash (a \<open>BUG\<close>, an access outside an array, a dead pointer) is \<^const>\<open>None\<close>, so "never crashes" is a theorem. The host
  is 64-bit and little-endian; the build is the Linux one with NAPI and \<open>NX_USE_NEW_ALLOC\<close>. Spin locks, delays and messages leave no trace,
  except where a theory logs them (\<open>HwAccess\<close>, \<open>MemWin\<close>, \<open>TxFrame\<close>); operations are atomic where the code holds a lock over them.

  \<^bold>\<open>Not modelled.\<close> Loading firmware and initialising the chip (\<open>unm_nic_init.c\<close> from \<open>pinit_from_rom\<close> on, \<open>nx_start_firmware\<close>):
  long fixed sequences of register writes over images that are not in the repository. Probe, open, close and error recovery:
  sequences of kernel calls over the operations that are modelled; in \<open>Watchdog\<close> they are an event. Receive contexts beyond the first,
  except slots and rules. \<open>nx_pexq.c\<close>, used by other modules only; \<open>nxhal_v34.c\<close>, the contexts of older firmware; the rest of
  \<open>unm_nic_ethtool.c\<close>, \<open>unm_nic_tool.c\<close>, \<open>unm_nic_snmp.c\<close>, and \<open>unm_nic_procfs.c\<close>: copies between structures and to
  user space, and text. \<open>nx_nic_vmk.c\<close>, \<open>linux_module_heap.c\<close>: the VMware build. \<open>nx_xport\<close>: an older copy of the register access for a
  diagnostics module.
\<close>

end
